(* ===== verification/Prelude.thy ===== *)
theory Prelude
  imports Complex_Main "HOL-Library.Word" "HOL-Library.Multiset"
begin

text \<open>
  The vocabulary every component of the development shares: how a C function that may
  abort, raise an \<^verbatim>\<open>elog(ERROR, ...)\<close> or touch memory outside its arrays is
  written as a function into a sum type, how its loops are written, and the rules that
  carry the component proofs.

  \<^item> \<open>cerror\<close> lists the ways a modelled function can fail, \<open>'a res\<close> is its result
    type, \<open>rbind\<close> its sequencing.
  \<^item> \<open>fold_res\<close> and \<open>for_upto\<close> are the \<^verbatim>\<open>for\<close> loops.
  \<^item> \<open>ok r P\<close> states that \<open>r\<close> is a normal result that satisfies \<open>P\<close>. It distributes
    over \<open>rbind\<close>, so a proof about a function walks through its body; loops use
    \<open>ok_for_upto\<close> with a loop invariant.
\<close>

section \<open>Results\<close>

datatype cerror =
    Abort              \<comment> \<open>\<open>SEGFAULT()\<close>, that is \<open>abort()\<close>\<close>
  | Elog string        \<comment> \<open>\<open>elog(ERROR, ...)\<close>\<close>
  | OutOfBounds        \<comment> \<open>a read or write outside an allocated array\<close>
  | NullPointer        \<comment> \<open>a dereference of a null or unset pointer\<close>
  | UseAfterFree       \<comment> \<open>a dereference of a pointer into a deleted memory context\<close>
  | BadCast            \<comment> \<open>a parse node read as a node of another type\<close>
  | AllocTooLarge      \<comment> \<open>an allocation request above \<open>MaxAllocSize\<close>\<close>
  | Overflow           \<comment> \<open>a signed integer counter past its range\<close>
  | OutOfFuel          \<comment> \<open>the model's recursion bound; never reached on the inputs of the theorems\<close>

type_synonym 'a res = "cerror + 'a"

definition rbind :: "'a res \<Rightarrow> ('a \<Rightarrow> 'b res) \<Rightarrow> 'b res" where
  "rbind m f = (case m of Inl e \<Rightarrow> Inl e | Inr x \<Rightarrow> f x)"

lemma rbind_simps [simp]:
  "rbind (Inl e) f = Inl e"
  "rbind (Inr x) f = f x"
  by (simp_all add: rbind_def)

lemma rbind_cong [fundef_cong]:
  "m = m' \<Longrightarrow> (\<And>x. m' = Inr x \<Longrightarrow> f x = f' x) \<Longrightarrow> rbind m f = rbind m' f'"
  by (auto simp: rbind_def split: sum.splits)

lemma rbind_eq_Inr_iff: "rbind m f = Inr y \<longleftrightarrow> (\<exists>x. m = Inr x \<and> f x = Inr y)"
  by (auto simp: rbind_def split: sum.splits)

lemma rbind_assoc: "rbind (rbind m f) g = rbind m (\<lambda>x. rbind (f x) g)"
  by (auto simp: rbind_def split: sum.splits)

text \<open>Reading a pointer that may be null.\<close>

definition deref :: "'a option \<Rightarrow> 'a res" where
  "deref p = (case p of None \<Rightarrow> Inl NullPointer | Some x \<Rightarrow> Inr x)"

lemma deref_simps [simp]: "deref None = Inl NullPointer" "deref (Some x) = Inr x"
  by (simp_all add: deref_def)

text \<open>A pointer that outlives the memory context of its target.\<close>

datatype 'a ptr = Null | Ptr 'a | Freed

fun pread :: "'a ptr \<Rightarrow> 'a res" where
  "pread Null = Inl NullPointer"
| "pread (Ptr x) = Inr x"
| "pread Freed = Inl UseAfterFree"

text \<open>Reading and writing an array of known extent.\<close>

definition aread :: "'a list \<Rightarrow> nat \<Rightarrow> 'a res" where
  "aread xs i = (if i < length xs then Inr (xs ! i) else Inl OutOfBounds)"

definition awrite :: "'a list \<Rightarrow> nat \<Rightarrow> 'a \<Rightarrow> 'a list res" where
  "awrite xs i v = (if i < length xs then Inr (xs[i := v]) else Inl OutOfBounds)"

lemma aread_in [simp]: "i < length xs \<Longrightarrow> aread xs i = Inr (xs ! i)"
  by (simp add: aread_def)

lemma awrite_in [simp]: "i < length xs \<Longrightarrow> awrite xs i v = Inr (xs[i := v])"
  by (simp add: awrite_def)

text \<open>The same with an \<open>int\<close> as the index.\<close>

definition iread :: "'a list \<Rightarrow> int \<Rightarrow> 'a res" where
  "iread xs i = (if 0 \<le> i then aread xs (nat i) else Inl OutOfBounds)"

definition iwrite :: "'a list \<Rightarrow> int \<Rightarrow> 'a \<Rightarrow> 'a list res" where
  "iwrite xs i x = (if 0 \<le> i then awrite xs (nat i) x else Inl OutOfBounds)"

lemma iread_in [simp]: "0 \<le> i \<Longrightarrow> i < int (length xs) \<Longrightarrow> iread xs i = Inr (xs ! nat i)"
  by (simp add: iread_def nat_less_iff)

lemma iwrite_in [simp]: "0 \<le> i \<Longrightarrow> i < int (length xs) \<Longrightarrow> iwrite xs i x = Inr (xs[nat i := x])"
  by (simp add: iwrite_def nat_less_iff)

section \<open>Normal results\<close>

definition ok :: "'a res \<Rightarrow> ('a \<Rightarrow> bool) \<Rightarrow> bool" where
  "ok r P \<longleftrightarrow> (\<exists>x. r = Inr x \<and> P x)"

lemma ok_Inr [simp]: "ok (Inr x) P \<longleftrightarrow> P x"
  by (simp add: ok_def)

lemma ok_Inl [simp]: "\<not> ok (Inl e) P"
  by (simp add: ok_def)

lemma ok_rbind [simp]: "ok (rbind m f) P \<longleftrightarrow> ok m (\<lambda>x. ok (f x) P)"
  by (auto simp: ok_def rbind_def split: sum.splits)

lemma ok_if [simp]: "ok (if b then m else n) P \<longleftrightarrow> (if b then ok m P else ok n P)"
  by simp

lemma ok_mono: "ok r P \<Longrightarrow> (\<And>x. r = Inr x \<Longrightarrow> P x \<Longrightarrow> Q x) \<Longrightarrow> ok r Q"
  by (auto simp: ok_def)

lemma ok_E: "ok r P \<Longrightarrow> (\<And>x. r = Inr x \<Longrightarrow> P x \<Longrightarrow> thesis) \<Longrightarrow> thesis"
  by (auto simp: ok_def)

lemma ok_D: "ok r P \<Longrightarrow> r = Inr x \<Longrightarrow> P x"
  by (auto simp: ok_def)

lemma ok_I: "r = Inr x \<Longrightarrow> P x \<Longrightarrow> ok r P"
  by (auto simp: ok_def)

section \<open>Loops\<close>

fun fold_res :: "('a \<Rightarrow> 's \<Rightarrow> 's res) \<Rightarrow> 'a list \<Rightarrow> 's \<Rightarrow> 's res" where
  "fold_res f [] s = Inr s"
| "fold_res f (x # xs) s = rbind (f x s) (fold_res f xs)"

text \<open>\<^verbatim>\<open>for (i = 0; i < n; i++) f\<close>\<close>

definition for_upto :: "nat \<Rightarrow> (nat \<Rightarrow> 's \<Rightarrow> 's res) \<Rightarrow> 's \<Rightarrow> 's res" where
  "for_upto n f s = fold_res f [0..<n] s"

lemma fold_res_append:
  "fold_res f (xs @ ys) s = rbind (fold_res f xs s) (fold_res f ys)"
proof (induction xs arbitrary: s)
  case (Cons x xs)
  have "fold_res f (xs @ ys) = (\<lambda>s. rbind (fold_res f xs s) (fold_res f ys))"
    by (rule ext) (rule Cons.IH)
  then show ?case by (simp add: rbind_assoc)
qed simp

lemma fold_res_cong [fundef_cong]:
  assumes "xs = ys" and "s = t" and "\<And>x u. x \<in> set ys \<Longrightarrow> f x u = g x u"
  shows "fold_res f xs s = fold_res g ys t"
  using assms(3) unfolding assms(1,2)
  by (induction ys arbitrary: t) (auto intro!: rbind_cong)

lemma fold_res_map: "fold_res f (map g xs) s = fold_res (\<lambda>x. f (g x)) xs s"
  by (induction xs arbitrary: s) (auto intro!: rbind_cong)

lemma for_upto_0 [simp]: "for_upto 0 f s = Inr s"
  by (simp add: for_upto_def)

lemma for_upto_Suc: "for_upto (Suc n) f s = rbind (for_upto n f s) (f n)"
proof -
  have "fold_res f [n] = f n"
    by (rule ext) (auto simp: rbind_def split: sum.splits)
  then show ?thesis
    by (simp add: for_upto_def fold_res_append)
qed

lemma for_upto_cong:
  assumes "\<And>i s. i < n \<Longrightarrow> f i s = g i s"
  shows "for_upto n f s = for_upto n g s"
  unfolding for_upto_def using assms by (intro fold_res_cong) auto

text \<open>The loop rule: an invariant indexed by the loop counter.\<close>

lemma ok_for_upto:
  assumes "I 0 s"
    and "\<And>i t. i < n \<Longrightarrow> I i t \<Longrightarrow> ok (f i t) (I (Suc i))"
  shows "ok (for_upto n f s) (I n)"
  using assms(2)
proof (induction n)
  case 0
  then show ?case using assms(1) by simp
next
  case (Suc n)
  have "ok (for_upto n f s) (I n)"
    using Suc.IH Suc.prems less_SucI by blast
  then show ?case
    using Suc.prems by (auto simp: for_upto_Suc intro: ok_mono)
qed

lemma ok_fold_upt:
  assumes "a \<le> b" "I a s"
    and "\<And>i t. a \<le> i \<Longrightarrow> i < b \<Longrightarrow> I i t \<Longrightarrow> ok (f i t) (I (Suc i))"
  shows "ok (fold_res f [a..<b] s) (I b)"
  using assms
proof (induction "b - a" arbitrary: a s)
  case (Suc d)
  then have "[a..<b] = a # [Suc a..<b]" by (simp add: upt_conv_Cons)
  moreover have "ok (f a s) (I (Suc a))" using Suc by simp
  then have "ok (f a s) (\<lambda>t. ok (fold_res f [Suc a..<b] t) (I b))"
    using Suc by (elim ok_mono) simp
  ultimately show ?case by simp
qed simp

lemma ok_fold_res:
  assumes "I [] s"
    and "\<And>xs x ys t. zs = xs @ x # ys \<Longrightarrow> I xs t \<Longrightarrow> ok (f x t) (I (xs @ [x]))"
  shows "ok (fold_res f zs s) (I zs)"
proof -
  have "ok (fold_res f ys t) (I zs)" if "I xs t" "zs = xs @ ys" for xs ys t
    using that
  proof (induction ys arbitrary: xs t)
    case (Cons y ys)
    then have "ok (f y t) (I (xs @ [y]))" using assms(2) by blast
    then show ?case using Cons by (auto intro: ok_mono)
  qed simp
  from this [of "[]"] assms(1) show ?thesis by simp
qed

lemma all_range_Suc:
  "(\<forall>j. i \<le> j \<and> j < k \<longrightarrow> P j) \<longleftrightarrow> (i < k \<longrightarrow> P i) \<and> (\<forall>j. Suc i \<le> j \<and> j < k \<longrightarrow> P j)"
  for i k :: nat
  by (metis Suc_leD Suc_leI le_eq_less_or_eq order_refl)

text \<open>\<^verbatim>\<open>while (j < n && !P(j)) j++\<close>\<close>

function first_index :: "nat \<Rightarrow> (nat \<Rightarrow> bool res) \<Rightarrow> nat \<Rightarrow> nat res" where
  "first_index n P j =
     (if j < n then rbind (P j) (\<lambda>b. if b then Inr j else first_index n P (Suc j)) else Inr j)"
  by pat_completeness auto
termination
  by (relation "measure (\<lambda>(n, P, j). n - j)") auto

declare first_index.simps [simp del]

lemma first_index_ok:
  assumes "\<And>j. j < n \<Longrightarrow> P j = Inr (Q j)" "i \<le> n"
  shows "ok (first_index n P i) (\<lambda>k. i \<le> k \<and> k \<le> n \<and> (\<forall>j. i \<le> j \<and> j < k \<longrightarrow> \<not> Q j) \<and> (k < n \<longrightarrow> Q k))"
  using assms(2)
proof (induction "n - i" arbitrary: i)
  case 0
  then have "i = n" by simp
  then show ?case by (auto simp: first_index.simps [of n P n])
next
  case (Suc d)
  then have i: "i < n" by simp
  show ?case
  proof (cases "Q i")
    case True
    then show ?thesis using i assms(1) by (auto simp: first_index.simps [of n P i])
  next
    case False
    have "d = n - Suc i" "Suc i \<le> n" using Suc.hyps(2) i by simp_all
    from Suc.hyps(1) [OF this] show ?thesis
      unfolding first_index.simps [of n P i] using i assms(1) [OF i] False
      by (simp add: all_range_Suc [of i]) (auto elim!: ok_mono)
  qed
qed

lemma first_index_list:
  assumes "n \<le> length xs"
  shows "ok (first_index n (\<lambda>i. rbind (aread xs i) (\<lambda>x. Inr (Q x))) 0)
    (\<lambda>k. k \<le> n \<and> (\<forall>j<k. \<not> Q (xs ! j)) \<and> (k < n \<longrightarrow> Q (xs ! k)))"
  by (rule ok_mono [OF first_index_ok [where Q = "\<lambda>j. Q (xs ! j)"]]) (use assms in auto)

text \<open>A relation every step respects holds between the ends of the loop.\<close>

lemma fold_res_rel:
  assumes "fold_res f xs s = Inr t" "\<And>x u v. f x u = Inr v \<Longrightarrow> R u v" "reflp R" "transp R"
  shows "R s t"
  using assms(1)
proof (induction xs arbitrary: s)
  case Nil
  then show ?case using assms(3) by (simp add: reflpD)
next
  case (Cons x xs)
  then obtain u where "f x s = Inr u" "fold_res f xs u = Inr t" by (auto simp: rbind_eq_Inr_iff)
  then show ?case using Cons.IH assms(2,4) by (blast dest: transpD)
qed

section \<open>Machine integers\<close>

text \<open>The value a C \<open>int\<close> holds after two's complement wrap-around.\<close>

definition wrap32 :: "int \<Rightarrow> int" where
  "wrap32 i = sint (word_of_int i :: 32 word)"

lemma wrap32_id [simp]: "- (2 ^ 31) \<le> i \<Longrightarrow> i < 2 ^ 31 \<Longrightarrow> wrap32 i = i"
  by (simp add: wrap32_def signed_of_int signed_take_bit_int_eq_self)

section \<open>Lists and sums\<close>

lemma distinct_map_nth_eq:
  "distinct (map f xs) \<Longrightarrow> i < length xs \<Longrightarrow> j < length xs \<Longrightarrow> f (xs ! i) = f (xs ! j) \<Longrightarrow> i = j"
  by (auto simp: distinct_conv_nth)

lemma sum_list_map_mult_right:
  "(\<Sum>x\<leftarrow>xs. f x * c) = (\<Sum>x\<leftarrow>xs. f x) * (c :: real)"
  by (induction xs) (simp_all add: algebra_simps)

lemma sum_list_map_mult_left:
  "(\<Sum>x\<leftarrow>xs. c * f x) = c * (\<Sum>x\<leftarrow>xs. f x :: real)"
  by (induction xs) (simp_all add: algebra_simps)

end
