(* ===== verification/HashTable.thy ===== *)
theory HashTable
  imports Prelude
begin

text \<open>
  The extendible hash table of \<^verbatim>\<open>backend/maybms/localcond.c\<close> that finds the world table
  entry of a variable. The directory \<open>HT\<close> holds pointers to buckets (\<open>mList\<close>) and several
  directory slots may share one bucket, so the buckets live in a store \<open>mlists\<close> and a pointer
  is an address in it. Writes through a directory slot outside the directory are
  \<open>OutOfBounds\<close>, a directory larger than \<open>MaxAllocSize\<close> is \<open>AllocTooLarge\<close>.

  \<open>ht_inv\<close> is the invariant of directory and buckets and \<open>ht_lookup\<close> the map from variables
  to entry numbers the table stands for. Doubling the directory and splitting a full bucket
  keep both; a new bucket keeps them when its slot lies below the initial directory size, and
  otherwise the update writes past the end of the directory (\<open>create_bucket_out_of_bounds\<close>).
  The locale \<open>var_index\<close> is the interface the world table relies on.
\<close>

unbundle bit_operations_syntax

section \<open>Structures\<close>

record mList =
  ml_count :: nat
  ml_size :: nat
  ml_nbits :: nat
  ml_mask :: int
  ml_keys :: "int list"
  ml_indices :: "nat list"

record rngEntry =
  re_rng :: int
  re_p :: real
  re_count :: int

record worldTableEntry =
  we_var :: int
  rng_entries :: "rngEntry list"
  rng_entry_max :: nat
  tau :: int
  met :: bool
  occur_count :: int

record generalState =
  wt_entries :: "worldTableEntry list"
  HT :: "nat option list"
  mlists :: "mList list"
  gs_nbits :: nat
  gs_mask :: int
  wt_entry_max :: nat

definition INIT_NBITS :: nat where "INIT_NBITS = 10"

definition LIST_INIT_SIZE :: nat where "LIST_INIT_SIZE = 30"

definition MaxAllocSize :: nat where "MaxAllocSize = 0x3fffffff"

definition GETMASK :: "nat \<Rightarrow> int" where
  "GETMASK n = push_bit n 1 - 1"

definition HASHFUNC :: "int \<Rightarrow> int \<Rightarrow> nat" where
  "HASHFUNC key msk = nat (key AND msk)"

definition BUCKETISFULL :: "mList \<Rightarrow> bool" where
  "BUCKETISFULL l \<longleftrightarrow> ml_count l = ml_size l"

section \<open>Operations\<close>

definition mlist_make :: "nat \<Rightarrow> mList" where
  "mlist_make n = \<lparr>ml_count = 0, ml_size = LIST_INIT_SIZE, ml_nbits = n, ml_mask = GETMASK n,
     ml_keys = replicate LIST_INIT_SIZE 0, ml_indices = replicate LIST_INIT_SIZE 0\<rparr>"

definition mlappend :: "mList \<Rightarrow> int \<Rightarrow> nat \<Rightarrow> mList res" where
  "mlappend l key index =
     rbind (awrite (ml_keys l) (ml_count l) key) (\<lambda>ks.
     rbind (awrite (ml_indices l) (ml_count l) index) (\<lambda>is.
     Inr (l\<lparr>ml_keys := ks, ml_indices := is, ml_count := Suc (ml_count l)\<rparr>)))"

text \<open>\<open>None\<close> stands for \<open>KEY_NOT_FOUND\<close>.\<close>

fun search_from :: "(int \<times> nat) list \<Rightarrow> int \<Rightarrow> nat option" where
  "search_from [] key = None"
| "search_from ((k, i) # kis) key = (if k = key then Some i else search_from kis key)"

definition ml_content :: "mList \<Rightarrow> (int \<times> nat) list" where
  "ml_content l = zip (take (ml_count l) (ml_keys l)) (take (ml_count l) (ml_indices l))"

definition search :: "mList \<Rightarrow> int \<Rightarrow> nat option" where
  "search l key = search_from (ml_content l) key"

definition update_buckets :: "generalState \<Rightarrow> nat \<Rightarrow> nat \<Rightarrow> generalState res" where
  "update_buckets s index a =
     (let l = mlists s ! a;
          dif = gs_nbits s - ml_nbits l;
          block_size = nat (GETMASK (ml_nbits l) + 1);
          block_count = nat (GETMASK dif + 1)
      in rbind (for_upto block_count (\<lambda>i ht. awrite ht (index + i * block_size) (Some a)) (HT s))
           (\<lambda>ht. Inr (s\<lparr>HT := ht\<rparr>)))"

text \<open>Allocating a bucket yields its address.\<close>

definition alloc_mlist :: "generalState \<Rightarrow> mList \<Rightarrow> generalState \<times> nat" where
  "alloc_mlist s l = (s\<lparr>mlists := mlists s @ [l]\<rparr>, length (mlists s))"

definition create_bucket :: "generalState \<Rightarrow> nat \<Rightarrow> generalState res" where
  "create_bucket s index =
     (let (s, a) = alloc_mlist s (mlist_make INIT_NBITS) in update_buckets s index a)"

definition expand_hashtable :: "generalState \<Rightarrow> generalState res" where
  "expand_hashtable s =
     (let n = Suc (gs_nbits s);
          msk = GETMASK n;
          size = nat (msk + 1)
      in if 8 * size > MaxAllocSize then Inl AllocTooLarge
         else Inr (s\<lparr>gs_nbits := n, gs_mask := msk,
                    HT := take (size div 2) (HT s) @ take (size div 2) (HT s)\<rparr>))"

text \<open>\<open>mlappend(s->HT[index], key, index)\<close>: the append goes through the directory.\<close>

definition ht_slot :: "generalState \<Rightarrow> nat \<Rightarrow> nat res" where
  "ht_slot s index = rbind (aread (HT s) index) deref"

definition ht_append :: "generalState \<Rightarrow> nat \<Rightarrow> int \<Rightarrow> nat \<Rightarrow> generalState res" where
  "ht_append s slot key index =
     rbind (ht_slot s slot) (\<lambda>a.
     rbind (aread (mlists s) a) (\<lambda>l.
     rbind (mlappend l key index) (\<lambda>l'.
     Inr (s\<lparr>mlists := (mlists s)[a := l']\<rparr>))))"

definition distribute_elements :: "generalState \<Rightarrow> int \<Rightarrow> nat \<Rightarrow> generalState res" where
  "distribute_elements s key index =
     rbind (ht_slot s index) (\<lambda>a.
     rbind (aread (mlists s) a) (\<lambda>old_list.
     let (s, list1) = alloc_mlist s (mlist_make (Suc (ml_nbits old_list)));
         (s, list2) = alloc_mlist s (mlist_make (Suc (ml_nbits old_list)));
         low_index = HASHFUNC key (ml_mask old_list);
         high_index = low_index + nat (push_bit (ml_nbits old_list) 1)
     in
     rbind (update_buckets s low_index list1) (\<lambda>s.
     rbind (update_buckets s high_index list2) (\<lambda>s.
     for_upto (ml_size old_list)
       (\<lambda>i s. rbind (aread (ml_keys old_list) i) (\<lambda>k.
              rbind (aread (ml_indices old_list) i) (\<lambda>ix.
              ht_append s (HASHFUNC k (ml_mask (mlists s ! list1))) k ix))) s))))"

text \<open>
  The \<open>while (BUCKETISFULL(...))\<close> loop of \<open>updateWorldTable\<close>. Every pass raises the number
  of bits of the bucket of the variable, which the allocation limit keeps below \<open>32\<close>.
\<close>

fun bucket_loop :: "nat \<Rightarrow> generalState \<Rightarrow> int \<Rightarrow> generalState res" where
  "bucket_loop 0 s v = Inl OutOfFuel"
| "bucket_loop (Suc fuel) s v =
     rbind (ht_slot s (HASHFUNC v (gs_mask s))) (\<lambda>a.
     rbind (aread (mlists s) a) (\<lambda>l.
     if BUCKETISFULL l then
       rbind (if ml_nbits l = gs_nbits s then expand_hashtable s else Inr s) (\<lambda>s.
       rbind (distribute_elements s v (HASHFUNC v (gs_mask s))) (\<lambda>s.
       bucket_loop fuel s v))
     else Inr s))"

definition BUCKET_FUEL :: nat where "BUCKET_FUEL = 32"

text \<open>Entering a variable into the directory: the table updates of step 1 of \<open>updateWorldTable\<close>.\<close>

definition ht_find :: "generalState \<Rightarrow> int \<Rightarrow> nat option res" where
  "ht_find s v =
     rbind (aread (HT s) (HASHFUNC v (gs_mask s))) (\<lambda>slot.
     case slot of None \<Rightarrow> Inr None
     | Some a \<Rightarrow> rbind (aread (mlists s) a) (\<lambda>l. Inr (search l v)))"

definition ht_insert :: "generalState \<Rightarrow> int \<Rightarrow> nat \<Rightarrow> generalState res" where
  "ht_insert s v wt_entry_index =
     (let index = HASHFUNC v (gs_mask s) in
      rbind (aread (HT s) index) (\<lambda>slot.
      case slot of
        None \<Rightarrow> rbind (create_bucket s index) (\<lambda>s. ht_append s index v wt_entry_index)
      | Some _ \<Rightarrow> rbind (bucket_loop BUCKET_FUEL s v) (\<lambda>s.
                 ht_append s (HASHFUNC v (gs_mask s)) v wt_entry_index)))"

section \<open>Hash values\<close>

definition hash :: "nat \<Rightarrow> int \<Rightarrow> nat" where
  "hash n v = nat (v mod 2 ^ n)"

lemma GETMASK_size [simp]: "nat (GETMASK n + 1) = 2 ^ n"
  by (simp add: GETMASK_def push_bit_eq_mult nat_power_eq)

lemma nat_push_bit_1 [simp]: "nat (push_bit n 1) = 2 ^ n"
  by (simp add: push_bit_eq_mult nat_power_eq)

lemma HASHFUNC_mask [simp]: "HASHFUNC v (GETMASK n) = hash n v"
  by (simp add: HASHFUNC_def GETMASK_def hash_def push_bit_eq_mult flip: take_bit_eq_mod mask_eq_exp_minus_1
      take_bit_eq_mask)

lemma hash_lt [simp]: "hash n v < 2 ^ n"
  by (simp add: hash_def nat_less_iff)

lemma hash_mod: "n \<le> m \<Longrightarrow> hash m v mod 2 ^ n = hash n v"
proof -
  assume "n \<le> m"
  then have "v mod 2 ^ m mod 2 ^ n = v mod 2 ^ n"
    by (simp add: le_imp_power_dvd mod_mod_cancel)
  then show ?thesis
    using nat_mod_distrib [of "v mod 2 ^ m" "2 ^ n"] by (simp add: hash_def nat_power_eq)
qed

lemma mod_mod_le: "n \<le> m \<Longrightarrow> (j :: nat) mod 2 ^ m mod 2 ^ n = j mod 2 ^ n"
  by (simp add: le_imp_power_dvd mod_mod_cancel)

text \<open>A residue modulo \<open>2 ^ Suc n\<close> is one of the two refinements of the residue modulo \<open>2 ^ n\<close>.\<close>

lemma mod_Suc_cases: "(j :: nat) mod 2 ^ Suc n = j mod 2 ^ n \<or> j mod 2 ^ Suc n = j mod 2 ^ n + 2 ^ n"
  using mod_mult2_eq [of j "2 ^ n" 2] mod_less_divisor [of 2 "j div 2 ^ n"]
  by (auto simp: mult.commute less_Suc_eq numeral_2_eq_2 simp del: mod_less_divisor)

section \<open>Buckets\<close>

definition ml_ok :: "mList \<Rightarrow> bool" where
  "ml_ok l \<longleftrightarrow> ml_mask l = GETMASK (ml_nbits l) \<and> ml_size l = LIST_INIT_SIZE \<and>
     length (ml_keys l) = LIST_INIT_SIZE \<and> length (ml_indices l) = LIST_INIT_SIZE \<and>
     ml_count l \<le> LIST_INIT_SIZE"

lemma ml_ok_make [simp]: "ml_ok (mlist_make n)" "ml_content (mlist_make n) = []"
  "ml_nbits (mlist_make n) = n" "ml_mask (mlist_make n) = GETMASK n" "ml_count (mlist_make n) = 0"
  by (simp_all add: ml_ok_def mlist_make_def ml_content_def)

lemma length_ml_content: "ml_ok l \<Longrightarrow> length (ml_content l) = ml_count l"
  by (simp add: ml_content_def ml_ok_def)

lemma nth_ml_content:
  "ml_ok l \<Longrightarrow> i < ml_count l \<Longrightarrow> ml_content l ! i = (ml_keys l ! i, ml_indices l ! i)"
  by (simp add: ml_content_def ml_ok_def)

lemma take_Suc_update: "c < length xs \<Longrightarrow> take (Suc c) (xs[c := x]) = take c xs @ [x]"
  by (simp add: take_Suc_conv_app_nth)

lemma mlappend_ok:
  assumes "ml_ok l" "ml_count l < LIST_INIT_SIZE"
  shows "ok (mlappend l k i) (\<lambda>l'. ml_ok l' \<and> ml_content l' = ml_content l @ [(k, i)] \<and>
    ml_nbits l' = ml_nbits l \<and> ml_count l' = Suc (ml_count l))"
  using assms by (simp add: mlappend_def ml_ok_def ml_content_def take_Suc_update)

lemma search_from_map_of: "search_from kis k = map_of kis k"
  by (induction kis) auto

lemma search_eq: "search l k = map_of (ml_content l) k"
  by (simp add: search_def search_from_map_of)

section \<open>The invariant\<close>

definition bucket_ok :: "generalState \<Rightarrow> nat \<Rightarrow> nat \<Rightarrow> bool" where
  "bucket_ok s idx a \<longleftrightarrow> a < length (mlists s) \<and> ml_ok (mlists s ! a) \<and>
     INIT_NBITS \<le> ml_nbits (mlists s ! a) \<and> ml_nbits (mlists s ! a) \<le> gs_nbits s \<and>
     distinct (map fst (ml_content (mlists s ! a))) \<and>
     (\<forall>(k, i) \<in> set (ml_content (mlists s ! a)).
        hash (ml_nbits (mlists s ! a)) k = idx mod 2 ^ ml_nbits (mlists s ! a)) \<and>
     (\<forall>j < 2 ^ gs_nbits s. HT s ! j = Some a \<longleftrightarrow>
        j mod 2 ^ ml_nbits (mlists s ! a) = idx mod 2 ^ ml_nbits (mlists s ! a))"

definition slot_ok :: "generalState \<Rightarrow> nat \<Rightarrow> bool" where
  "slot_ok s idx \<longleftrightarrow> (case HT s ! idx of
     None \<Rightarrow> \<forall>j < 2 ^ gs_nbits s. j mod 2 ^ INIT_NBITS = idx mod 2 ^ INIT_NBITS \<longrightarrow> HT s ! j = None
   | Some a \<Rightarrow> bucket_ok s idx a)"

definition ht_inv :: "generalState \<Rightarrow> bool" where
  "ht_inv s \<longleftrightarrow> INIT_NBITS \<le> gs_nbits s \<and> gs_mask s = GETMASK (gs_nbits s) \<and>
     length (HT s) = 2 ^ gs_nbits s \<and> 8 * 2 ^ gs_nbits s \<le> MaxAllocSize \<and>
     (\<forall>idx < 2 ^ gs_nbits s. slot_ok s idx)"

definition ht_lookup :: "generalState \<Rightarrow> int \<Rightarrow> nat option" where
  "ht_lookup s v = (case HT s ! hash (gs_nbits s) v of
     None \<Rightarrow> None | Some a \<Rightarrow> map_of (ml_content (mlists s ! a)) v)"

lemma ht_invD:
  assumes "ht_inv s"
  shows "INIT_NBITS \<le> gs_nbits s" "gs_mask s = GETMASK (gs_nbits s)" "length (HT s) = 2 ^ gs_nbits s"
    "8 * 2 ^ gs_nbits s \<le> MaxAllocSize"
  using assms by (simp_all add: ht_inv_def)

lemma ht_inv_Some: "ht_inv s \<Longrightarrow> idx < 2 ^ gs_nbits s \<Longrightarrow> HT s ! idx = Some a \<Longrightarrow> bucket_ok s idx a"
  by (auto simp: ht_inv_def slot_ok_def)

lemma ht_inv_None:
  assumes "ht_inv s" "idx < 2 ^ gs_nbits s" "HT s ! idx = None"
    "j < 2 ^ gs_nbits s" "j mod 2 ^ INIT_NBITS = idx mod 2 ^ INIT_NBITS"
  shows "HT s ! j = None"
  using assms by (auto simp: ht_inv_def slot_ok_def)

lemma ht_find_eq: "ht_inv s \<Longrightarrow> ht_find s v = Inr (ht_lookup s v)"
  using ht_inv_Some [of s "hash (gs_nbits s) v"] ht_invD [of s]
  by (auto simp: ht_find_def ht_lookup_def search_eq bucket_ok_def split: option.splits)

section \<open>Directory updates\<close>

lemma block_index:
  fixes j idx :: nat
  assumes "n \<le> m" "idx < 2 ^ n" "j < 2 ^ m" "j mod 2 ^ n = idx"
  shows "\<exists>i < 2 ^ (m - n). j = idx + i * 2 ^ n"
proof (intro exI conjI)
  show "j = idx + (j div 2 ^ n) * 2 ^ n" using assms(4) by (metis mod_div_mult_eq)
  have "(2 :: nat) ^ m = 2 ^ (m - n) * 2 ^ n" using assms(1) by (simp flip: power_add)
  with assms(3) show "j div 2 ^ n < 2 ^ (m - n)" by (simp add: less_mult_imp_div_less)
qed

lemma block_bound:
  assumes "n \<le> m" "idx < 2 ^ n" "i < 2 ^ (m - n)"
  shows "idx + i * 2 ^ n < (2 :: nat) ^ m"
proof -
  have "Suc i * 2 ^ n \<le> 2 ^ (m - n) * 2 ^ n" using assms(3) by (intro mult_le_mono1) simp
  also have "\<dots> = 2 ^ m" using assms(1) by (simp flip: power_add)
  finally show ?thesis using assms(2) by simp
qed

lemma update_buckets_ok:
  assumes "length (HT s) = 2 ^ gs_nbits s" "ml_nbits (mlists s ! a) = n" "n \<le> gs_nbits s" "index < 2 ^ n"
  shows "ok (update_buckets s index a) (\<lambda>t. t = s\<lparr>HT := HT t\<rparr> \<and> length (HT t) = 2 ^ gs_nbits s \<and>
    (\<forall>j < 2 ^ gs_nbits s. HT t ! j = (if j mod 2 ^ n = index then Some a else HT s ! j)))"
proof -
  let ?I = "\<lambda>k ht. length ht = 2 ^ gs_nbits s \<and> (\<forall>j < 2 ^ gs_nbits s.
    ht ! j = (if \<exists>i<k. j = index + i * 2 ^ n then Some a else HT s ! j))"
  have "ok (for_upto (2 ^ (gs_nbits s - n)) (\<lambda>i ht. awrite ht (index + i * 2 ^ n) (Some a)) (HT s))
      (?I (2 ^ (gs_nbits s - n)))"
  proof (rule ok_for_upto)
    show "?I 0 (HT s)" using assms(1) by simp
  next
    fix i ht assume "i < 2 ^ (gs_nbits s - n)" and "?I i ht"
    then show "ok (awrite ht (index + i * 2 ^ n) (Some a)) (?I (Suc i))"
      using block_bound [OF assms(3,4)] by (auto simp: nth_list_update less_Suc_eq)
  qed
  moreover have "(\<exists>i<2 ^ (gs_nbits s - n). j = index + i * 2 ^ n) \<longleftrightarrow> j mod 2 ^ n = index"
    if "j < 2 ^ gs_nbits s" for j
    using block_index [OF assms(3,4) that] assms(4) by auto
  ultimately show ?thesis
    by (auto simp: update_buckets_def Let_def assms(2) elim!: ok_mono)
qed

text \<open>A slot at or above the bucket's own directory size makes the update run past the directory.\<close>

lemma update_buckets_out_of_bounds:
  assumes "length (HT s) = 2 ^ gs_nbits s" "ml_nbits (mlists s ! a) = n" "n \<le> gs_nbits s" "2 ^ n \<le> index"
  shows "update_buckets s index a = Inl OutOfBounds"
proof -
  define f where "f = (\<lambda>i (ht :: nat option list). awrite ht (index + i * 2 ^ n) (Some a))"
  define k where "k = (2 ^ (gs_nbits s - n) - 1 :: nat)"
  have inv: "(\<exists>ht. for_upto i f (HT s) = Inr ht \<and> length ht = 2 ^ gs_nbits s) \<or>
      for_upto i f (HT s) = Inl OutOfBounds" for i
  proof (induction i)
    case (Suc i)
    then show ?case by (elim disjE exE) (simp_all add: for_upto_Suc f_def awrite_def)
  qed (simp add: assms(1))
  have "(2 :: nat) ^ gs_nbits s = 2 ^ (gs_nbits s - n) * 2 ^ n" using assms(3) by (simp flip: power_add)
  then have "2 ^ gs_nbits s = 2 ^ n + k * 2 ^ n" by (simp add: k_def algebra_simps)
  then have far: "2 ^ gs_nbits s \<le> index + k * 2 ^ n" using assms(4) by simp
  have "for_upto (2 ^ (gs_nbits s - n)) f (HT s) = rbind (for_upto k f (HT s)) (f k)"
    using for_upto_Suc [of k f "HT s"] by (simp add: k_def)
  then have "for_upto (2 ^ (gs_nbits s - n)) f (HT s) = Inl OutOfBounds"
    using inv [of k] far by (auto simp: f_def awrite_def)
  then show ?thesis by (simp add: update_buckets_def Let_def assms(2) f_def)
qed

section \<open>Doubling the directory\<close>

lemma expand_hashtable_ok:
  assumes inv: "ht_inv s" and "8 * 2 ^ Suc (gs_nbits s) \<le> MaxAllocSize"
  shows "ok (expand_hashtable s) (\<lambda>t. ht_inv t \<and> ht_lookup t = ht_lookup s \<and> gs_nbits t = Suc (gs_nbits s) \<and>
    mlists t = mlists s \<and> wt_entries t = wt_entries s \<and>
    (\<forall>j < 2 ^ gs_nbits t. HT t ! j = HT s ! (j mod 2 ^ gs_nbits s)))"
proof -
  let ?N = "gs_nbits s"
  let ?t = "s\<lparr>gs_nbits := Suc ?N, gs_mask := GETMASK (Suc ?N), HT := HT s @ HT s\<rparr>"
  note D = ht_invD [OF inv]
  have eq: "expand_hashtable s = Inr ?t"
    using assms(2) D(3) by (simp add: expand_hashtable_def Let_def)
  have at: "(HT s @ HT s) ! j = HT s ! (j mod 2 ^ ?N)" if "j < 2 ^ Suc ?N" for j
    using that D(3) by (auto simp: nth_append mod_if [of j "2 ^ ?N"])
  have md: "n \<le> ?N \<Longrightarrow> j mod 2 ^ ?N mod 2 ^ n = j mod 2 ^ n" for n and j :: nat
    by (rule mod_mod_le)
  have "slot_ok ?t idx" if idx: "idx < 2 ^ Suc ?N" for idx
  proof (cases "HT s ! (idx mod 2 ^ ?N)")
    case None
    then have "(HT s @ HT s) ! j = None"
      if "j < 2 ^ Suc ?N" "j mod 2 ^ INIT_NBITS = idx mod 2 ^ INIT_NBITS" for j
      using ht_inv_None [OF inv _ None, of "j mod 2 ^ ?N"] that md [OF D(1)] by (simp add: at)
    then show ?thesis using idx None by (simp add: slot_ok_def at)
  next
    case (Some a)
    have "bucket_ok s (idx mod 2 ^ ?N) a" by (rule ht_inv_Some [OF inv _ Some]) simp
    then have "bucket_ok ?t idx a" by (auto simp: bucket_ok_def at md)
    then show ?thesis using idx Some by (simp add: slot_ok_def at)
  qed
  then have "ht_inv ?t" using assms(2) D by (simp add: ht_inv_def)
  moreover have "(HT s @ HT s) ! hash (Suc ?N) v = HT s ! hash ?N v" for v
    using at [OF hash_lt] hash_mod [of ?N "Suc ?N" v] by simp
  then have "ht_lookup ?t = ht_lookup s"
    by (auto simp: ht_lookup_def fun_eq_iff split: option.splits)
  ultimately show ?thesis unfolding eq using at by simp
qed

section \<open>Appending to a bucket\<close>

lemma ht_append_ok:
  assumes "slot < length (HT s)" "HT s ! slot = Some a" "a < length (mlists s)"
    "ml_ok (mlists s ! a)" "ml_count (mlists s ! a) < LIST_INIT_SIZE"
  shows "ok (ht_append s slot k i) (\<lambda>t. t = s\<lparr>mlists := mlists t\<rparr> \<and> length (mlists t) = length (mlists s) \<and>
    (\<forall>b. b \<noteq> a \<longrightarrow> mlists t ! b = mlists s ! b) \<and> ml_ok (mlists t ! a) \<and>
    ml_nbits (mlists t ! a) = ml_nbits (mlists s ! a) \<and>
    ml_content (mlists t ! a) = ml_content (mlists s ! a) @ [(k, i)])"
proof -
  obtain l' where "mlappend (mlists s ! a) k i = Inr l'" "ml_ok l'"
      "ml_content l' = ml_content (mlists s ! a) @ [(k, i)]" "ml_nbits l' = ml_nbits (mlists s ! a)"
    using mlappend_ok [OF assms(4,5)] by (auto elim!: ok_E)
  then show ?thesis using assms by (simp add: ht_append_def ht_slot_def)
qed

lemma ht_append_insert:
  assumes inv: "ht_inv s" and a: "HT s ! hash (gs_nbits s) v = Some a" and "\<not> BUCKETISFULL (mlists s ! a)"
    and new: "ht_lookup s v = None"
  shows "ok (ht_append s (hash (gs_nbits s) v) v i)
    (\<lambda>t. ht_inv t \<and> ht_lookup t = (ht_lookup s)(v \<mapsto> i) \<and> gs_nbits t = gs_nbits s \<and> wt_entries t = wt_entries s)"
proof -
  let ?N = "gs_nbits s" and ?n = "ml_nbits (mlists s ! a)"
  have b: "bucket_ok s (hash ?N v) a" by (rule ht_inv_Some [OF inv _ a]) simp
  then have n: "?n \<le> ?N" and al: "a < length (mlists s)" and mo: "ml_ok (mlists s ! a)"
    by (auto simp: bucket_ok_def)
  have "ml_count (mlists s ! a) < LIST_INIT_SIZE"
    using assms(3) b by (auto simp: bucket_ok_def BUCKETISFULL_def ml_ok_def)
  note app = ht_append_ok [OF _ a al mo this]
  show ?thesis
  proof (rule ok_mono [OF app])
    show "hash ?N v < length (HT s)" by (simp add: ht_invD [OF inv])
  next
    fix t assume "t = s\<lparr>mlists := mlists t\<rparr> \<and> length (mlists t) = length (mlists s) \<and>
      (\<forall>b. b \<noteq> a \<longrightarrow> mlists t ! b = mlists s ! b) \<and> ml_ok (mlists t ! a) \<and>
      ml_nbits (mlists t ! a) = ?n \<and> ml_content (mlists t ! a) = ml_content (mlists s ! a) @ [(v, i)]"
    then obtain m where t: "t = s\<lparr>mlists := m\<rparr>" and m: "length m = length (mlists s)"
      "\<And>b. b \<noteq> a \<Longrightarrow> m ! b = mlists s ! b" "ml_ok (m ! a)" "ml_nbits (m ! a) = ?n"
      "ml_content (m ! a) = ml_content (mlists s ! a) @ [(v, i)]"
      by (metis generalState.select_convs(3) generalState.simps(9) generalState.surjective generalState.update_convs(3))
    have hv: "idx mod 2 ^ ?n = hash ?n v" if "idx < 2 ^ ?N" "HT s ! idx = Some a" for idx
      using b that hash_mod [OF n, of v] by (auto simp: bucket_ok_def)
    have bk: "bucket_ok t idx c" if "idx < 2 ^ ?N" "HT s ! idx = Some c" for idx c
    proof -
      have "bucket_ok s idx c" by (rule ht_inv_Some [OF inv that])
      moreover have "v \<notin> fst ` set (ml_content (mlists s ! a))"
        using new a by (simp add: ht_lookup_def map_of_eq_None_iff)
      ultimately show ?thesis using m that hv [of idx] by (cases "c = a") (auto simp: bucket_ok_def t)
    qed
    have "ht_inv t"
      using inv bk unfolding ht_inv_def slot_ok_def by (auto simp: t split: option.splits)
    moreover have "ht_lookup t w = ((ht_lookup s)(v \<mapsto> i)) w" for w
    proof (cases "HT s ! hash ?N w = Some a")
      case True
      then show ?thesis using m new a by (auto simp: ht_lookup_def t map_add_def split: option.splits)
    next
      case False
      then have "w \<noteq> v" using a by auto
      with False show ?thesis using m by (auto simp: ht_lookup_def t split: option.splits)
    qed
    ultimately show "ht_inv t \<and> ht_lookup t = (ht_lookup s)(v \<mapsto> i) \<and> gs_nbits t = ?N \<and> wt_entries t = wt_entries s"
      by (auto simp: t)
  qed
qed

section \<open>A new bucket\<close>

lemma create_bucket_ok:
  assumes inv: "ht_inv s" and none: "HT s ! idx = None" and idx: "idx < 2 ^ INIT_NBITS"
  shows "ok (create_bucket s idx) (\<lambda>t. ht_inv t \<and> ht_lookup t = ht_lookup s \<and> gs_nbits t = gs_nbits s \<and>
    wt_entries t = wt_entries s \<and> HT t ! idx = Some (length (mlists s)) \<and>
    ml_count (mlists t ! length (mlists s)) = 0)"
proof -
  let ?N = "gs_nbits s" and ?p = "length (mlists s)"
  let ?s = "s\<lparr>mlists := mlists s @ [mlist_make INIT_NBITS]\<rparr>"
  note D = ht_invD [OF inv]
  have idxN: "idx < 2 ^ ?N" using idx D(1) by (meson less_le_trans one_le_numeral power_increasing)
  have "ok (update_buckets ?s idx ?p) (\<lambda>t. t = ?s\<lparr>HT := HT t\<rparr> \<and> length (HT t) = 2 ^ gs_nbits ?s \<and>
      (\<forall>j < 2 ^ gs_nbits ?s. HT t ! j = (if j mod 2 ^ INIT_NBITS = idx then Some ?p else HT ?s ! j)))"
    by (rule update_buckets_ok) (use D idx in simp_all)
  then obtain t ht where e: "create_bucket s idx = Inr t" and t: "t = ?s\<lparr>HT := ht\<rparr>" and len: "length ht = 2 ^ ?N"
    and at: "\<And>j. j < 2 ^ ?N \<Longrightarrow> ht ! j = (if j mod 2 ^ INIT_NBITS = idx then Some ?p else HT s ! j)"
    by (auto simp: create_bucket_def alloc_mlist_def elim!: ok_E)
  have fresh: "HT s ! j \<noteq> Some ?p" if "j < 2 ^ ?N" for j
    using ht_inv_Some [OF inv that, of ?p] by (auto simp: bucket_ok_def)
  have old: "HT s ! j = None" if "j < 2 ^ ?N" "j mod 2 ^ INIT_NBITS = idx" for j
    using ht_inv_None [OF inv idxN none that(1)] that(2) idx by simp
  have "slot_ok t j" if j: "j < 2 ^ ?N" for j
  proof (cases "j mod 2 ^ INIT_NBITS = idx")
    case True
    then show ?thesis using j at fresh D(1) by (auto simp: slot_ok_def bucket_ok_def t)
  next
    case False
    then have hj: "ht ! j = HT s ! j" using at j by simp
    show ?thesis
    proof (cases "HT s ! j")
      case None
      then show ?thesis using hj at ht_inv_None [OF inv j None] False by (auto simp: slot_ok_def t)
    next
      case (Some a)
      have b: "bucket_ok s j a" by (rule ht_inv_Some [OF inv j Some])
      then have "a < ?p" by (simp add: bucket_ok_def)
      moreover have "ht ! k = Some a \<longleftrightarrow> HT s ! k = Some a" if "k < 2 ^ ?N" for k
        using at [OF that] old [OF that] \<open>a < ?p\<close> by auto
      ultimately show ?thesis using b hj Some by (auto simp: slot_ok_def bucket_ok_def t nth_append)
    qed
  qed
  then have "ht_inv t" using D len by (simp add: ht_inv_def t)
  moreover have "ht_lookup t v = ht_lookup s v" for v
  proof (cases "hash ?N v mod 2 ^ INIT_NBITS = idx")
    case True
    then show ?thesis using old [of "hash ?N v"] at by (simp add: ht_lookup_def t)
  next
    case False
    then show ?thesis using at ht_inv_Some [OF inv, of "hash ?N v"]
      by (auto simp: ht_lookup_def t nth_append bucket_ok_def split: option.splits)
  qed
  ultimately show ?thesis using e at [OF idxN] idx by (auto simp: t)
qed

lemma create_bucket_out_of_bounds:
  assumes "ht_inv s" "2 ^ INIT_NBITS \<le> idx"
  shows "create_bucket s idx = Inl OutOfBounds"
  using update_buckets_out_of_bounds [of "s\<lparr>mlists := mlists s @ [mlist_make INIT_NBITS]\<rparr>" "length (mlists s)"]
    ht_invD [OF assms(1)] assms(2)
  by (simp add: create_bucket_def alloc_mlist_def)

section \<open>Splitting a full bucket\<close>

lemma map_of_filter_key: "map_of (filter (\<lambda>(k, _). P k) xs) k = (if P k then map_of xs k else None)"
  by (induction xs) auto

text \<open>
  The state of the redistribution loop after the elements \<open>C\<close>: buckets \<open>a1\<close> and \<open>a2\<close> hold
  the elements whose key does and does not satisfy \<open>P\<close>, everything else is as in \<open>s\<close>.
\<close>

definition split_inv ::
  "generalState \<Rightarrow> nat \<Rightarrow> nat \<Rightarrow> nat \<Rightarrow> (int \<Rightarrow> bool) \<Rightarrow> (int \<times> nat) list \<Rightarrow> generalState \<Rightarrow> bool" where
  "split_inv s m a1 a2 P C t \<longleftrightarrow>
     t = s\<lparr>mlists := mlists t\<rparr> \<and> length (mlists t) = length (mlists s) \<and>
     (\<forall>b. b \<noteq> a1 \<longrightarrow> b \<noteq> a2 \<longrightarrow> mlists t ! b = mlists s ! b) \<and>
     (\<forall>c \<in> {a1, a2}. ml_ok (mlists t ! c) \<and> ml_nbits (mlists t ! c) = m \<and>
        ml_content (mlists t ! c) = filter (\<lambda>(k, _). P k = (c = a1)) C)"

lemma split_inv_frame:
  assumes "split_inv s m a1 a2 P C t"
  shows "HT t = HT s" "gs_nbits t = gs_nbits s" "gs_mask t = gs_mask s" "wt_entries t = wt_entries s"
proof -
  have e: "t = s\<lparr>mlists := mlists t\<rparr>" using assms unfolding split_inv_def by blast
  show "HT t = HT s" "gs_nbits t = gs_nbits s" "gs_mask t = gs_mask s" "wt_entries t = wt_entries s"
    by (subst e, simp)+
qed

lemma split_step:
  assumes I: "split_inv s m a1 a2 P C t" and "length C < LIST_INIT_SIZE" and "a1 \<noteq> a2"
    and a: "a1 < length (mlists s)" "a2 < length (mlists s)" and "2 ^ m \<le> length (HT s)"
    and slot: "HT s ! hash m k = Some (if P k then a1 else a2)"
  shows "ok (ht_append t (hash m k) k x) (split_inv s m a1 a2 P (C @ [(k, x)]))"
proof -
  let ?c = "if P k then a1 else a2"
  have c: "ml_ok (mlists t ! ?c)" "ml_content (mlists t ! ?c) = filter (\<lambda>(k, _). P k = (?c = a1)) C"
    using I by (auto simp: split_inv_def)
  have "ml_count (mlists t ! ?c) = length (ml_content (mlists t ! ?c))"
    by (simp add: length_ml_content [OF c(1)])
  also have "\<dots> \<le> length C" unfolding c(2) by (rule length_filter_le)
  finally have short: "ml_count (mlists t ! ?c) < LIST_INIT_SIZE" using assms(2) by simp
  have "hash m k < length (HT t)" "HT t ! hash m k = Some ?c" "?c < length (mlists t)"
    using less_le_trans [OF hash_lt assms(6), of k] split_inv_frame [OF I] slot a I
    by (simp_all add: split_inv_def)
  from ht_append_ok [OF this c(1) short, of k x] show ?thesis
  proof (rule ok_mono)
    fix u
    assume u: "u = t\<lparr>mlists := mlists u\<rparr> \<and> length (mlists u) = length (mlists t) \<and>
      (\<forall>b. b \<noteq> ?c \<longrightarrow> mlists u ! b = mlists t ! b) \<and> ml_ok (mlists u ! ?c) \<and>
      ml_nbits (mlists u ! ?c) = ml_nbits (mlists t ! ?c) \<and>
      ml_content (mlists u ! ?c) = ml_content (mlists t ! ?c) @ [(k, x)]"
    have "u = s\<lparr>mlists := mlists u\<rparr>"
      using u I unfolding split_inv_def by (metis generalState.update_convs(3) generalState.surjective)
    then show "split_inv s m a1 a2 P (C @ [(k, x)]) u"
      using u I assms(3) by (cases "P k") (auto simp: split_inv_def)
  qed
qed

lemma distribute_loop_ok:
  assumes l: "ml_ok l" "BUCKETISFULL l"
    and s: "a1 < length (mlists s)" "a2 < length (mlists s)" "a1 \<noteq> a2" "2 ^ m \<le> length (HT s)"
      "mlists s ! a1 = mlist_make m" "mlists s ! a2 = mlist_make m"
    and slots: "\<And>k i. (k, i) \<in> set (ml_content l) \<Longrightarrow> HT s ! hash m k = Some (if P k then a1 else a2)"
  shows "ok (for_upto (ml_size l)
       (\<lambda>i s. rbind (aread (ml_keys l) i) (\<lambda>k.
              rbind (aread (ml_indices l) i) (\<lambda>ix.
              ht_append s (HASHFUNC k (ml_mask (mlists s ! a1))) k ix))) s)
    (split_inv s m a1 a2 P (ml_content l))" (is "ok (for_upto _ ?f s) _")
proof -
  let ?C = "ml_content l"
  have len: "length ?C = LIST_INIT_SIZE" "ml_size l = LIST_INIT_SIZE" "ml_count l = LIST_INIT_SIZE"
    using l by (auto simp: length_ml_content BUCKETISFULL_def ml_ok_def)
  have "ok (for_upto (ml_size l) ?f s) (split_inv s m a1 a2 P (take (ml_size l) ?C))"
  proof (rule ok_for_upto)
    show "split_inv s m a1 a2 P (take 0 ?C) s" using s by (cases s) (simp add: split_inv_def)
  next
    fix i t assume i: "i < ml_size l" and I: "split_inv s m a1 a2 P (take i ?C) t"
    obtain k x where kx: "?C ! i = (k, x)" by (cases "?C ! i")
    have rd: "aread (ml_keys l) i = Inr k" "aread (ml_indices l) i = Inr x"
      using nth_ml_content [OF l(1), of i] i len kx l(1) by (auto simp: ml_ok_def)
    have tk: "take (Suc i) ?C = take i ?C @ [(k, x)]"
      using i len kx by (simp add: take_Suc_conv_app_nth)
    have "(k, x) \<in> set ?C" using i len kx by (metis nth_mem)
    from split_step [OF I _ s(3,1,2,4) slots [OF this], of x] i len
    have "ok (ht_append t (hash m k) k x) (split_inv s m a1 a2 P (take (Suc i) ?C))"
      by (simp add: tk)
    moreover have "ml_mask (mlists t ! a1) = GETMASK m" using I by (auto simp: split_inv_def ml_ok_def)
    ultimately show "ok (?f i t) (split_inv s m a1 a2 P (take (Suc i) ?C))" by (simp add: rd)
  qed
  then show ?thesis using len by simp
qed

text \<open>The directory and buckets after the split of bucket \<open>a\<close> into \<open>p\<close> and \<open>q\<close>.\<close>

lemma split_inv_ht:
  assumes inv: "ht_inv s" and a: "HT s ! hash (gs_nbits s) v = Some a"
    and n: "n = ml_nbits (mlists s ! a)" "n < gs_nbits s"
    and t: "gs_nbits t = gs_nbits s" "gs_mask t = gs_mask s" "length (HT t) = 2 ^ gs_nbits s"
      "length (mlists s) \<le> length (mlists t)" "\<And>b. b < length (mlists s) \<Longrightarrow> mlists t ! b = mlists s ! b"
    and pq: "length (mlists s) \<le> p" "length (mlists s) \<le> q" "p \<noteq> q" "p < length (mlists t)" "q < length (mlists t)"
    and HT: "\<And>j. j < 2 ^ gs_nbits s \<Longrightarrow> HT t ! j = (if j mod 2 ^ n = hash n v
      then Some (if j mod 2 ^ Suc n = hash n v then p else q) else HT s ! j)"
    and P: "\<And>k. P k \<longleftrightarrow> hash (Suc n) k = hash n v"
    and m: "\<And>c. c \<in> {p, q} \<Longrightarrow> ml_ok (mlists t ! c) \<and> ml_nbits (mlists t ! c) = Suc n \<and>
      ml_content (mlists t ! c) = filter (\<lambda>(k, _). P k = (c = p)) (ml_content (mlists s ! a))"
  shows "ht_inv t" and "ht_lookup t = ht_lookup s"
proof -
  let ?N = "gs_nbits s"
  note D = ht_invD [OF inv]
  have b: "bucket_ok s (hash ?N v) a" by (rule ht_inv_Some [OF inv _ a]) simp
  have in_a: "HT s ! j = Some a \<longleftrightarrow> j mod 2 ^ n = hash n v" if "j < 2 ^ ?N" for j
    using b that hash_mod [of n ?N v] n by (auto simp: bucket_ok_def)
  have keys: "hash n k = hash n v" if "(k, i) \<in> set (ml_content (mlists s ! a))" for k i
    using b that hash_mod [of n ?N v] n by (fastforce simp: bucket_ok_def)
  have hi: "j mod 2 ^ Suc n = hash n v \<or> j mod 2 ^ Suc n = hash n v + 2 ^ n"
    if "j mod 2 ^ n = hash n v" for j :: nat
    using mod_Suc_cases [of j n] that by simp
  have kh: "hash (Suc n) k = hash n v \<or> hash (Suc n) k = hash n v + 2 ^ n" if "hash n k = hash n v" for k
    using hi [of "hash (Suc n) k"] that hash_mod [of n "Suc n" k] mod_less [OF hash_lt, of "Suc n" k] by simp
  have lt: "c < length (mlists s)" if "HT s ! j = Some c" "j < 2 ^ ?N" for j c
    using ht_inv_Some [OF inv that(2,1)] by (simp add: bucket_ok_def)
  have coarse: "j mod 2 ^ Suc n = i mod 2 ^ Suc n \<Longrightarrow> j mod 2 ^ n = i mod 2 ^ n" for i j :: nat
    using mod_mod_le [of n "Suc n"] by (metis le_SucI order_refl)
  have slot: "slot_ok t idx" if idx: "idx < 2 ^ ?N" for idx
  proof (cases "idx mod 2 ^ n = hash n v")
    case True
    define c where "c = (if idx mod 2 ^ Suc n = hash n v then p else q)"
    have c: "c \<in> {p, q}" "c = p \<longleftrightarrow> idx mod 2 ^ Suc n = hash n v" using pq(3) by (auto simp: c_def)
    have "HT t ! j = Some c \<longleftrightarrow> j mod 2 ^ Suc n = idx mod 2 ^ Suc n" if "j < 2 ^ ?N" for j
      using HT [OF that] lt [OF _ that] hi [of j] hi [of idx] True coarse [of j idx] pq c_def by auto
    moreover have "hash (Suc n) k = idx mod 2 ^ Suc n" if "(k, i) \<in> set (ml_content (mlists t ! c))" for k i
      using that m [OF c(1)] keys kh hi [OF True] c(2) P by fastforce
    moreover have "distinct (map fst (ml_content (mlists t ! c)))"
      using b m [OF c(1)] by (simp add: bucket_ok_def distinct_map_filter)
    ultimately have "bucket_ok t idx c"
      using m [OF c(1)] c(1) pq n D(1) b by (auto simp: bucket_ok_def t)
    moreover have "HT t ! idx = Some c" using HT [OF idx] True by (simp add: c_def)
    ultimately show ?thesis by (simp add: slot_ok_def)
  next
    case False
    then have h: "HT t ! idx = HT s ! idx" using HT [OF idx] by simp
    show ?thesis
    proof (cases "HT s ! idx")
      case None
      have "HT s ! j = None" if "j < 2 ^ ?N" "j mod 2 ^ INIT_NBITS = idx mod 2 ^ INIT_NBITS" for j
        using ht_inv_None [OF inv idx None that] .
      then show ?thesis using h None HT in_a by (simp add: slot_ok_def t) (metis option.distinct(1))
    next
      case (Some c)
      have bc: "bucket_ok s idx c" by (rule ht_inv_Some [OF inv idx Some])
      have "c < length (mlists s)" "c \<noteq> a" using lt [OF Some idx] in_a [OF idx] Some False by auto
      moreover have "HT t ! j = Some c \<longleftrightarrow> HT s ! j = Some c" if "j < 2 ^ ?N" for j
        using HT [OF that] in_a [OF that] calculation pq by auto
      ultimately show ?thesis using bc h Some t by (simp add: slot_ok_def bucket_ok_def)
    qed
  qed
  then show "ht_inv t" using D t by (simp add: ht_inv_def)
  show "ht_lookup t = ht_lookup s"
  proof
    fix w
    let ?j = "hash ?N w"
    have w: "?j mod 2 ^ n = hash n w" "?j mod 2 ^ Suc n = hash (Suc n) w"
      using hash_mod [of n ?N w] hash_mod [of "Suc n" ?N w] n(2) by (simp_all add: Suc_le_eq del: power_Suc)
    show "ht_lookup t w = ht_lookup s w"
    proof (cases "hash n w = hash n v")
      case True
      define c where "c = (if P w then p else q)"
      have "HT t ! ?j = Some c" "HT s ! ?j = Some a" "c \<in> {p, q}" "(c = p) = P w"
        using HT [of ?j] in_a [of ?j] w True P pq(3) by (auto simp: c_def)
      then show ?thesis
        using m [of c] map_of_filter_key [of "\<lambda>k. P k = (c = p)" "ml_content (mlists s ! a)" w] by (simp add: ht_lookup_def t)
    next
      case False
      then have "HT t ! ?j = HT s ! ?j" using HT [of ?j] w by simp
      then show ?thesis using lt [of ?j] t by (auto simp: ht_lookup_def split: option.splits)
    qed
  qed
qed

text \<open>The two directory updates of a split.\<close>

lemma split_directory_ok:
  assumes len: "length (HT s) = 2 ^ gs_nbits s" and m: "m < gs_nbits s" and h: "h < 2 ^ m"
    and pq: "ml_nbits (mlists s ! p) = Suc m" "ml_nbits (mlists s ! q) = Suc m"
  shows "ok (rbind (update_buckets s h p) (\<lambda>s. update_buckets s (h + 2 ^ m) q))
    (\<lambda>t. t = s\<lparr>HT := HT t\<rparr> \<and> length (HT t) = 2 ^ gs_nbits s \<and> (\<forall>j < 2 ^ gs_nbits s.
      HT t ! j = (if j mod 2 ^ m = h then Some (if j mod 2 ^ Suc m = h then p else q) else HT s ! j)))"
proof -
  have mN: "Suc m \<le> gs_nbits s" using m by simp
  have hlt: "h < 2 ^ Suc m" "h + 2 ^ m < 2 ^ Suc m" using h by simp_all
  have md: "j mod 2 ^ Suc m mod 2 ^ m = j mod 2 ^ m" for j :: nat by (rule mod_mod_le) simp
  have cmb: "(if j mod 2 ^ Suc m = h + 2 ^ m then Some q else if j mod 2 ^ Suc m = h then Some p else x) =
      (if j mod 2 ^ m = h then Some (if j mod 2 ^ Suc m = h then p else q) else x)" for j and x :: "nat option"
  proof -
    have "j mod 2 ^ m < 2 ^ m" by simp
    then have "j mod 2 ^ m \<noteq> h + 2 ^ m" by linarith
    then show ?thesis using mod_Suc_cases [of j m] md [of j] h by (auto simp del: power_Suc)
  qed
  show ?thesis unfolding ok_rbind
  proof (rule ok_mono [OF update_buckets_ok [OF len pq(1) mN hlt(1)]])
    fix t assume t: "t = s\<lparr>HT := HT t\<rparr> \<and> length (HT t) = 2 ^ gs_nbits s \<and>
      (\<forall>j < 2 ^ gs_nbits s. HT t ! j = (if j mod 2 ^ Suc m = h then Some p else HT s ! j))"
    then have f: "gs_nbits t = gs_nbits s" "mlists t = mlists s" by (metis generalState.ext_inject
        generalState.surjective generalState.update_convs(2))+
    have "ok (update_buckets t (h + 2 ^ m) q) (\<lambda>u. u = t\<lparr>HT := HT u\<rparr> \<and> length (HT u) = 2 ^ gs_nbits t \<and>
        (\<forall>j < 2 ^ gs_nbits t. HT u ! j = (if j mod 2 ^ Suc m = h + 2 ^ m then Some q else HT t ! j)))"
      by (rule update_buckets_ok) (use t f pq mN hlt in simp_all)
    then show "ok (update_buckets t (h + 2 ^ m) q) (\<lambda>t. t = s\<lparr>HT := HT t\<rparr> \<and> length (HT t) = 2 ^ gs_nbits s \<and>
        (\<forall>j < 2 ^ gs_nbits s. HT t ! j =
          (if j mod 2 ^ m = h then Some (if j mod 2 ^ Suc m = h then p else q) else HT s ! j)))"
    proof (rule ok_mono)
      fix u assume u: "u = t\<lparr>HT := HT u\<rparr> \<and> length (HT u) = 2 ^ gs_nbits t \<and>
        (\<forall>j < 2 ^ gs_nbits t. HT u ! j = (if j mod 2 ^ Suc m = h + 2 ^ m then Some q else HT t ! j))"
      have "u = s\<lparr>HT := HT u\<rparr>" using t u by (metis generalState.surjective generalState.update_convs(2))
      moreover have "HT u ! j = (if j mod 2 ^ m = h then Some (if j mod 2 ^ Suc m = h then p else q) else HT s ! j)"
        if j: "j < 2 ^ gs_nbits s" for j
      proof -
        have "HT u ! j = (if j mod 2 ^ Suc m = h + 2 ^ m then Some q else HT t ! j)" using u f(1) j by metis
        also have "HT t ! j = (if j mod 2 ^ Suc m = h then Some p else HT s ! j)" using t j by metis
        also note cmb
        finally show ?thesis .
      qed
      moreover have "length (HT u) = 2 ^ gs_nbits s" using u f(1) by metis
      ultimately show "u = s\<lparr>HT := HT u\<rparr> \<and> length (HT u) = 2 ^ gs_nbits s \<and> (\<forall>j < 2 ^ gs_nbits s. HT u ! j =
          (if j mod 2 ^ m = h then Some (if j mod 2 ^ Suc m = h then p else q) else HT s ! j))" by blast
    qed
  qed
qed

lemma distribute_elements_ok:
  assumes inv: "ht_inv s" and a: "HT s ! hash (gs_nbits s) v = Some a"
    and full: "BUCKETISFULL (mlists s ! a)" and n: "ml_nbits (mlists s ! a) < gs_nbits s"
  shows "ok (distribute_elements s v (hash (gs_nbits s) v)) (\<lambda>t. ht_inv t \<and> ht_lookup t = ht_lookup s \<and>
    gs_nbits t = gs_nbits s \<and> wt_entries t = wt_entries s \<and>
    (\<exists>c. HT t ! hash (gs_nbits s) v = Some c \<and> ml_nbits (mlists t ! c) = Suc (ml_nbits (mlists s ! a))))"
proof -
  let ?N = "gs_nbits s" and ?p = "length (mlists s)" and ?l = "mlists s ! a"
  define m where "m = ml_nbits ?l"
  define s1 where "s1 = s\<lparr>mlists := mlists s @ [mlist_make (Suc m), mlist_make (Suc m)]\<rparr>"
  note D = ht_invD [OF inv]
  have b: "bucket_ok s (hash ?N v) a" by (rule ht_inv_Some [OF inv _ a]) simp
  have mN: "m < ?N" using n by (simp add: m_def)
  have l: "ml_ok ?l" "ml_mask ?l = GETMASK m" "a < ?p"
    using b by (simp_all add: bucket_ok_def ml_ok_def m_def)
  have "ok (rbind (update_buckets s1 (hash m v) ?p) (\<lambda>s. update_buckets s (hash m v + 2 ^ m) (Suc ?p)))
    (\<lambda>t. t = s1\<lparr>HT := HT t\<rparr> \<and> length (HT t) = 2 ^ gs_nbits s1 \<and> (\<forall>j < 2 ^ gs_nbits s1. HT t ! j =
      (if j mod 2 ^ m = hash m v then Some (if j mod 2 ^ Suc m = hash m v then ?p else Suc ?p) else HT s1 ! j)))"
    by (rule split_directory_ok) (use D mN in \<open>simp_all add: s1_def nth_append\<close>)
  then obtain h3 where u: "rbind (update_buckets s1 (hash m v) ?p)
      (\<lambda>s. update_buckets s (hash m v + 2 ^ m) (Suc ?p)) = Inr (s1\<lparr>HT := h3\<rparr>)" and l3: "length h3 = 2 ^ ?N"
    and h3: "\<And>j. j < 2 ^ ?N \<Longrightarrow> h3 ! j = (if j mod 2 ^ m = hash m v
      then Some (if j mod 2 ^ Suc m = hash m v then ?p else Suc ?p) else HT s ! j)"
    by (elim ok_E) (auto simp: s1_def)
  define s3 where "s3 = s1\<lparr>HT := h3\<rparr>"
  define P where "P = (\<lambda>k. hash (Suc m) k = hash m v)"
  let ?f = "\<lambda>i s'. rbind (aread (ml_keys ?l) i) (\<lambda>k. rbind (aread (ml_indices ?l) i) (\<lambda>ix.
    ht_append s' (HASHFUNC k (ml_mask (mlists s' ! ?p))) k ix))"
  have "ok (for_upto (ml_size ?l) ?f s3) (split_inv s3 (Suc m) ?p (Suc ?p) P (ml_content ?l))"
  proof (rule distribute_loop_ok [OF l(1) full])
    show "(2 :: nat) ^ Suc m \<le> length (HT s3)"
      using mN l3 by (simp add: s3_def Suc_le_eq power_increasing flip: power_Suc)
    fix k i assume ki: "(k, i) \<in> set (ml_content ?l)"
    then have "hash m k = hash m v" using b hash_mod [of m ?N v] mN by (fastforce simp: bucket_ok_def m_def)
    then have "hash (Suc m) k mod 2 ^ m = hash m v" using hash_mod [of m "Suc m" k] by simp
    moreover have "hash (Suc m) k < 2 ^ ?N"
      using mN by (meson Suc_leI hash_lt less_le_trans one_le_numeral power_increasing)
    moreover have "hash (Suc m) k mod 2 ^ Suc m = hash (Suc m) k" by (rule mod_less [OF hash_lt])
    ultimately show "HT s3 ! hash (Suc m) k = Some (if P k then ?p else Suc ?p)"
      using h3 [of "hash (Suc m) k"] by (simp add: s3_def P_def del: power_Suc)
  qed (simp_all add: s1_def s3_def nth_append)
  then obtain t where loop: "for_upto (ml_size ?l) ?f s3 = Inr t"
    and I: "split_inv s3 (Suc m) ?p (Suc ?p) P (ml_content ?l) t" by (rule ok_E)
  have "distribute_elements s v (hash ?N v) =
      rbind (rbind (update_buckets s1 (hash m v) ?p) (\<lambda>s. update_buckets s (hash m v + 2 ^ m) (Suc ?p)))
        (for_upto (ml_size ?l) ?f)"
    using a l D(3)
    by (simp add: distribute_elements_def ht_slot_def alloc_mlist_def Let_def s1_def m_def rbind_assoc nat_power_eq)
  then have eq: "distribute_elements s v (hash ?N v) = Inr t" using loop u by (simp add: s3_def)
  note F = split_inv_frame [OF I, unfolded s3_def s1_def, simplified]
  have mt: "length (mlists t) = Suc (Suc ?p)" "\<And>b. b < ?p \<Longrightarrow> mlists t ! b = mlists s ! b"
    using I by (simp_all add: s1_def s3_def split_inv_def nth_append)
  have mc: "\<And>c. c \<in> {?p, Suc ?p} \<Longrightarrow> ml_ok (mlists t ! c) \<and> ml_nbits (mlists t ! c) = Suc m \<and>
      ml_content (mlists t ! c) = filter (\<lambda>(k, _). P k = (c = ?p)) (ml_content ?l)"
    using I unfolding split_inv_def by blast
  have "ht_inv t \<and> ht_lookup t = ht_lookup s"
    using split_inv_ht [OF inv a, of m t ?p "Suc ?p" P] F h3 l3 mN mt mc by (auto simp: m_def P_def)
  moreover have "HT t ! hash ?N v = Some (if hash (Suc m) v = hash m v then ?p else Suc ?p)"
    using h3 [of "hash ?N v"] hash_mod [of m ?N v] hash_mod [of "Suc m" ?N v] mN F by (simp add: Suc_le_eq del: power_Suc)
  ultimately show ?thesis using eq F mc by (auto simp: m_def)
qed

section \<open>The search for room\<close>

text \<open>
  The loop ends: every pass raises the bits of the bucket of \<open>v\<close>, whose number the
  allocation limit bounds by \<open>26\<close>. It either leaves a bucket with room, all entries intact,
  or stops at the allocation limit.
\<close>

lemma nbits_bound: "ht_inv s \<Longrightarrow> gs_nbits s \<le> 26"
proof (rule ccontr)
  assume "ht_inv s" "\<not> gs_nbits s \<le> 26"
  then have "8 * 2 ^ 27 \<le> 8 * (2 :: nat) ^ gs_nbits s" by (intro mult_le_mono2 power_increasing) auto
  with ht_invD(4) [OF \<open>ht_inv s\<close>] show False by (simp add: MaxAllocSize_def)
qed

lemma expand_or_full:
  assumes "ht_inv s"
  shows "expand_hashtable s = Inl AllocTooLarge \<or> 8 * 2 ^ Suc (gs_nbits s) \<le> MaxAllocSize"
  by (auto simp: expand_hashtable_def Let_def simp del: power_Suc)

definition ht_kept :: "generalState \<Rightarrow> generalState \<Rightarrow> bool" where
  "ht_kept s t \<longleftrightarrow> ht_inv t \<and> ht_lookup t = ht_lookup s \<and> wt_entries t = wt_entries s"

lemma bucket_loop_not_full:
  "ht_slot s (HASHFUNC v (gs_mask s)) = Inr a \<Longrightarrow> aread (mlists s) a = Inr l \<Longrightarrow> \<not> BUCKETISFULL l \<Longrightarrow>
    bucket_loop (Suc n) s v = Inr s"
  by simp

lemma bucket_loop_ok:
  assumes "ht_inv s" "HT s ! hash (gs_nbits s) v = Some a" "26 < fuel + ml_nbits (mlists s ! a)"
  shows "bucket_loop fuel s v = Inl AllocTooLarge \<or>
    ok (bucket_loop fuel s v) (\<lambda>t. ht_kept s t \<and>
      (\<exists>c. HT t ! hash (gs_nbits t) v = Some c \<and> \<not> BUCKETISFULL (mlists t ! c)))"
  using assms
proof (induction fuel arbitrary: s a)
  case 0
  then have "bucket_ok s (hash (gs_nbits s) v) a" by (intro ht_inv_Some) auto
  then show ?case using nbits_bound [OF "0.prems"(1)] "0.prems"(3) by (simp add: bucket_ok_def)
next
  case (Suc fuel)
  let ?l = "mlists s ! a"
  note D = ht_invD [OF Suc.prems(1)]
  have b: "bucket_ok s (hash (gs_nbits s) v) a" by (rule ht_inv_Some [OF Suc.prems(1) _ Suc.prems(2)]) simp
  have eq: "bucket_loop (Suc fuel) s v = (if BUCKETISFULL ?l then
      rbind (if ml_nbits ?l = gs_nbits s then expand_hashtable s else Inr s) (\<lambda>s.
      rbind (distribute_elements s v (HASHFUNC v (gs_mask s))) (\<lambda>s. bucket_loop fuel s v)) else Inr s)"
  proof -
    have "ht_slot s (HASHFUNC v (gs_mask s)) = Inr a" using D(2,3) Suc.prems(2) by (simp add: ht_slot_def)
    moreover have "aread (mlists s) a = Inr ?l" using b by (simp add: bucket_ok_def)
    ultimately show ?thesis by (simp only: bucket_loop.simps rbind_simps)
  qed
  have step: "bucket_loop fuel t v = Inl AllocTooLarge \<or>
      ok (bucket_loop fuel t v) (\<lambda>u. ht_kept s u \<and>
        (\<exists>c. HT u ! hash (gs_nbits u) v = Some c \<and> \<not> BUCKETISFULL (mlists u ! c)))"
    if "ht_kept s t" "HT t ! hash (gs_nbits t) v = Some c" "ml_nbits (mlists t ! c) = Suc (ml_nbits ?l)" for t c
    using Suc.IH [of t c] that Suc.prems(3) by (auto simp: ht_kept_def)
  have go: "rbind (distribute_elements t v (HASHFUNC v (gs_mask t))) (\<lambda>s. bucket_loop fuel s v) = Inl AllocTooLarge \<or>
      ok (rbind (distribute_elements t v (HASHFUNC v (gs_mask t))) (\<lambda>s. bucket_loop fuel s v)) (\<lambda>u. ht_kept s u \<and>
        (\<exists>c. HT u ! hash (gs_nbits u) v = Some c \<and> \<not> BUCKETISFULL (mlists u ! c)))"
    if t: "ht_kept s t" "HT t ! hash (gs_nbits t) v = Some a" "mlists t ! a = ?l"
      "ml_nbits ?l < gs_nbits t" "BUCKETISFULL ?l" for t
  proof -
    have inv: "ht_inv t" using t(1) by (simp add: ht_kept_def)
    have "ok (distribute_elements t v (hash (gs_nbits t) v)) (\<lambda>u. ht_inv u \<and> ht_lookup u = ht_lookup t \<and>
      gs_nbits u = gs_nbits t \<and> wt_entries u = wt_entries t \<and>
      (\<exists>c. HT u ! hash (gs_nbits t) v = Some c \<and> ml_nbits (mlists u ! c) = Suc (ml_nbits (mlists t ! a))))"
      by (rule distribute_elements_ok [OF inv t(2)]) (use t in simp_all)
    then obtain u c where u: "distribute_elements t v (hash (gs_nbits t) v) = Inr u" "ht_inv u"
      "ht_lookup u = ht_lookup t" "gs_nbits u = gs_nbits t" "wt_entries u = wt_entries t"
      "HT u ! hash (gs_nbits t) v = Some c" "ml_nbits (mlists u ! c) = Suc (ml_nbits ?l)"
      using t(3) by (auto elim!: ok_E)
    then have "ht_kept s u" using t(1) by (simp add: ht_kept_def)
    from step [OF this, of c] u show ?thesis using ht_invD(2) [OF inv] by simp
  qed
  show ?case
  proof (cases "BUCKETISFULL ?l")
    case False
    then show ?thesis using Suc.prems unfolding eq by (auto simp: ht_kept_def)
  next
    case full: True
    show ?thesis
    proof (cases "ml_nbits ?l = gs_nbits s")
      case False
      then have "ml_nbits ?l < gs_nbits s" using b by (simp add: bucket_ok_def)
      then show ?thesis using go [of s] full Suc.prems False unfolding eq by (simp add: ht_kept_def)
    next
      case True
      from expand_or_full [OF Suc.prems(1)] show ?thesis
      proof
        assume "expand_hashtable s = Inl AllocTooLarge"
        then show ?thesis using full True unfolding eq by simp
      next
        assume "8 * 2 ^ Suc (gs_nbits s) \<le> MaxAllocSize"
        from expand_hashtable_ok [OF Suc.prems(1) this]
        obtain t where t: "expand_hashtable s = Inr t" "ht_kept s t" "gs_nbits t = Suc (gs_nbits s)"
          "mlists t = mlists s" "\<And>j. j < 2 ^ gs_nbits t \<Longrightarrow> HT t ! j = HT s ! (j mod 2 ^ gs_nbits s)"
          by (auto simp: ht_kept_def elim!: ok_E)
        have "HT t ! hash (gs_nbits t) v = Some a"
          using t(5) [OF hash_lt] t(3) hash_mod [of "gs_nbits s" "Suc (gs_nbits s)" v] Suc.prems(2) by simp
        then show ?thesis using go [OF t(2)] t full True unfolding eq by simp
      qed
    qed
  qed
qed

section \<open>Entering a variable\<close>

text \<open>
  A successful insertion maps the new variable to its entry and changes nothing else. The
  insertion fails only at the allocation limit or, for an empty slot at or above the initial
  directory size, by writing outside the directory.
\<close>

lemma ht_insert_ok:
  assumes inv: "ht_inv s" and new: "ht_lookup s v = None"
  shows "ht_insert s v i = Inl AllocTooLarge \<or>
    ht_insert s v i = Inl OutOfBounds \<and> HT s ! hash (gs_nbits s) v = None \<and> 2 ^ INIT_NBITS \<le> hash (gs_nbits s) v \<or>
    ok (ht_insert s v i) (\<lambda>t. ht_inv t \<and> ht_lookup t = (ht_lookup s)(v \<mapsto> i) \<and> wt_entries t = wt_entries s)"
proof (cases "HT s ! hash (gs_nbits s) v")
  case None
  let ?idx = "hash (gs_nbits s) v"
  note D = ht_invD [OF inv]
  have eq: "ht_insert s v i = rbind (create_bucket s ?idx) (\<lambda>s. ht_append s ?idx v i)"
    using D None by (simp add: ht_insert_def Let_def)
  show ?thesis
  proof (cases "?idx < 2 ^ INIT_NBITS")
    case True
    obtain t where t: "create_bucket s ?idx = Inr t" "ht_inv t" "ht_lookup t = ht_lookup s" "gs_nbits t = gs_nbits s"
      "wt_entries t = wt_entries s" "HT t ! ?idx = Some (length (mlists s))"
      "ml_count (mlists t ! length (mlists s)) = 0"
      using create_bucket_ok [OF inv None True] by (auto elim!: ok_E)
    have "bucket_ok t ?idx (length (mlists s))" by (rule ht_inv_Some [OF t(2) _ t(6)]) (simp add: t)
    then have "\<not> BUCKETISFULL (mlists t ! length (mlists s))"
      using t(7) by (auto simp: BUCKETISFULL_def bucket_ok_def ml_ok_def LIST_INIT_SIZE_def)
    from ht_append_insert [OF t(2) _ this, of v i] t new
    have "ok (ht_append t ?idx v i) (\<lambda>t. ht_inv t \<and> ht_lookup t = (ht_lookup s)(v \<mapsto> i) \<and> wt_entries t = wt_entries s)"
      by (auto elim: ok_mono)
    then show ?thesis unfolding eq using t(1) by simp
  next
    case False
    then show ?thesis using create_bucket_out_of_bounds [OF inv] None unfolding eq by simp
  qed
next
  case (Some a)
  have eq: "ht_insert s v i =
      rbind (bucket_loop BUCKET_FUEL s v) (\<lambda>s. ht_append s (HASHFUNC v (gs_mask s)) v i)"
    using ht_invD [OF inv] Some by (simp add: ht_insert_def Let_def)
  have "26 < BUCKET_FUEL + ml_nbits (mlists s ! a)" by (simp add: BUCKET_FUEL_def)
  from bucket_loop_ok [OF inv Some this] show ?thesis
  proof
    assume "bucket_loop BUCKET_FUEL s v = Inl AllocTooLarge"
    then show ?thesis unfolding eq by simp
  next
    assume "ok (bucket_loop BUCKET_FUEL s v) (\<lambda>t. ht_kept s t \<and>
      (\<exists>c. HT t ! hash (gs_nbits t) v = Some c \<and> \<not> BUCKETISFULL (mlists t ! c)))"
    then obtain t c where t: "bucket_loop BUCKET_FUEL s v = Inr t" "ht_kept s t"
      "HT t ! hash (gs_nbits t) v = Some c" "\<not> BUCKETISFULL (mlists t ! c)" by (auto elim!: ok_E)
    have "ht_inv t" "ht_lookup t v = None" using t(2) new by (simp_all add: ht_kept_def)
    from ht_append_insert [OF this(1) t(3,4) this(2), of i] t(2) ht_invD(2) [OF this(1)]
    have "ok (ht_append t (HASHFUNC v (gs_mask t)) v i)
        (\<lambda>t. ht_inv t \<and> ht_lookup t = (ht_lookup s)(v \<mapsto> i) \<and> wt_entries t = wt_entries s)"
      by (auto simp: ht_kept_def elim: ok_mono)
    then show ?thesis unfolding eq using t(1) by simp
  qed
qed

text \<open>
  As long as the directory has its initial size and fewer than \<open>LIST_INIT_SIZE\<close> variables
  share the residue of \<open>v\<close>, the insertion succeeds and the directory keeps its size.
\<close>

lemma bucket_count_card:
  assumes "ht_inv s" "HT s ! hash (gs_nbits s) v = Some a" "finite (dom (ht_lookup s))"
    and n: "ml_nbits (mlists s ! a) = gs_nbits s"
  shows "ml_count (mlists s ! a) \<le> card {w \<in> dom (ht_lookup s). hash (gs_nbits s) w = hash (gs_nbits s) v}"
proof -
  let ?c = "ml_content (mlists s ! a)" and ?N = "gs_nbits s"
  have b: "bucket_ok s (hash ?N v) a" by (rule ht_inv_Some [OF assms(1) _ assms(2)]) simp
  then have d: "distinct (map fst ?c)" and mo: "ml_ok (mlists s ! a)"
    and k: "\<And>w i. (w, i) \<in> set ?c \<Longrightarrow> hash ?N w = hash ?N v" using n by (auto simp: bucket_ok_def)
  have "w \<in> dom (ht_lookup s) \<and> hash ?N w = hash ?N v" if "w \<in> fst ` set ?c" for w
  proof -
    have "hash ?N w = hash ?N v" using that k by auto
    then show ?thesis using that assms(2) d by (auto simp: ht_lookup_def dom_def)
  qed
  then have "card (fst ` set ?c) \<le> card {w \<in> dom (ht_lookup s). hash ?N w = hash ?N v}"
    using assms(3) by (intro card_mono) auto
  moreover have "card (fst ` set ?c) = ml_count (mlists s ! a)"
    using distinct_card [OF d] by (simp add: length_ml_content [OF mo])
  ultimately show ?thesis by simp
qed

definition ht_room :: "generalState \<Rightarrow> int \<Rightarrow> bool" where
  "ht_room s v \<longleftrightarrow> gs_nbits s = INIT_NBITS \<and>
     card {w \<in> dom (ht_lookup s). hash INIT_NBITS w = hash INIT_NBITS v} < LIST_INIT_SIZE"

lemma ht_insert_room:
  assumes inv: "ht_inv s" and new: "ht_lookup s v = None" and fin: "finite (dom (ht_lookup s))" and room: "ht_room s v"
  shows "ok (ht_insert s v i) (\<lambda>t. ht_inv t \<and> ht_lookup t = (ht_lookup s)(v \<mapsto> i) \<and>
    wt_entries t = wt_entries s \<and> gs_nbits t = INIT_NBITS)"
proof -
  let ?idx = "hash (gs_nbits s) v"
  note D = ht_invD [OF inv]
  have N: "gs_nbits s = INIT_NBITS" using room by (simp add: ht_room_def)
  show ?thesis
  proof (cases "HT s ! ?idx")
    case None
    obtain t where t: "create_bucket s ?idx = Inr t" "ht_inv t" "ht_lookup t = ht_lookup s" "gs_nbits t = gs_nbits s"
      "wt_entries t = wt_entries s" "HT t ! ?idx = Some (length (mlists s))"
      "ml_count (mlists t ! length (mlists s)) = 0"
      using create_bucket_ok [OF inv None] N by (auto elim!: ok_E)
    have "bucket_ok t ?idx (length (mlists s))" by (rule ht_inv_Some [OF t(2) _ t(6)]) (simp add: t)
    then have "\<not> BUCKETISFULL (mlists t ! length (mlists s))"
      using t(7) by (auto simp: BUCKETISFULL_def bucket_ok_def ml_ok_def LIST_INIT_SIZE_def)
    from ht_append_insert [OF t(2) _ this, of v i] t new N None D show ?thesis
      by (auto simp: ht_insert_def Let_def elim!: ok_mono)
  next
    case (Some a)
    have b: "bucket_ok s ?idx a" by (rule ht_inv_Some [OF inv _ Some]) simp
    then have "ml_nbits (mlists s ! a) = gs_nbits s" using N by (simp add: bucket_ok_def)
    from bucket_count_card [OF inv Some fin this] room N b
    have nf: "\<not> BUCKETISFULL (mlists s ! a)" by (auto simp: BUCKETISFULL_def ht_room_def bucket_ok_def ml_ok_def)
    have "bucket_loop BUCKET_FUEL s v = Inr s"
    proof -
      have "ht_slot s (HASHFUNC v (gs_mask s)) = Inr a" using D(2,3) Some by (simp add: ht_slot_def)
      moreover have "aread (mlists s) a = Inr (mlists s ! a)" using b by (simp add: bucket_ok_def)
      ultimately have "bucket_loop (Suc 31) s v = Inr s" using nf by (rule bucket_loop_not_full)
      then show ?thesis by (simp add: BUCKET_FUEL_def)
    qed
    then have "ht_insert s v i = ht_append s ?idx v i" using D Some by (simp add: ht_insert_def Let_def)
    with ht_append_insert [OF inv Some nf new, of i] N show ?thesis by (auto elim!: ok_mono)
  qed
qed

text \<open>The table operations touch the directory and the buckets only.\<close>

definition ht_frame :: "generalState \<Rightarrow> generalState \<Rightarrow> bool" where
  "ht_frame s t \<longleftrightarrow> wt_entries t = wt_entries s \<and> wt_entry_max t = wt_entry_max s"

lemma ht_frame_refl_trans: "reflp ht_frame" "transp ht_frame"
  by (auto simp: ht_frame_def reflp_def transp_def)

lemma update_buckets_frame: "update_buckets s index a = Inr t \<Longrightarrow> ht_frame s t"
  by (auto simp: update_buckets_def Let_def rbind_eq_Inr_iff ht_frame_def)

lemma ht_append_frame: "ht_append s slot k i = Inr t \<Longrightarrow> ht_frame s t"
  by (auto simp: ht_append_def rbind_eq_Inr_iff ht_frame_def)

lemma create_bucket_frame: "create_bucket s index = Inr t \<Longrightarrow> ht_frame s t"
  by (auto simp: create_bucket_def alloc_mlist_def ht_frame_def dest: update_buckets_frame)

lemma expand_hashtable_frame: "expand_hashtable s = Inr t \<Longrightarrow> ht_frame s t"
  by (auto simp: expand_hashtable_def Let_def ht_frame_def split: if_splits)

lemma redistribute_frame:
  assumes "fold_res (\<lambda>i s. rbind (aread ks i) (\<lambda>k. rbind (aread ixs i) (ht_append s (h s k) k))) xs s = Inr t"
  shows "ht_frame s t"
  by (rule fold_res_rel [OF assms _ ht_frame_refl_trans]) (auto simp: rbind_eq_Inr_iff dest: ht_append_frame)

lemma distribute_elements_frame: "distribute_elements s v index = Inr t \<Longrightarrow> ht_frame s t"
  by (auto simp: distribute_elements_def alloc_mlist_def Let_def rbind_eq_Inr_iff for_upto_def
        dest!: update_buckets_frame redistribute_frame) (simp add: ht_frame_def)

lemma bucket_loop_frame: "bucket_loop fuel s v = Inr t \<Longrightarrow> ht_frame s t"
proof (induction fuel arbitrary: s)
  case (Suc fuel)
  from Suc.prems show ?case
    by (auto simp: rbind_eq_Inr_iff split: if_splits dest!: Suc.IH expand_hashtable_frame distribute_elements_frame)
      (simp_all add: ht_frame_def)
qed simp

lemma ht_insert_frame: "ht_insert s v i = Inr t \<Longrightarrow> ht_frame s t"
  by (auto simp: ht_insert_def Let_def rbind_eq_Inr_iff ht_frame_def split: option.splits
      dest!: create_bucket_frame bucket_loop_frame ht_append_frame)

lemma slot_ok_entries [simp]:
  "slot_ok (s\<lparr>wt_entries := x\<rparr>) = slot_ok s" "slot_ok (s\<lparr>wt_entry_max := n\<rparr>) = slot_ok s"
  by (auto simp: slot_ok_def bucket_ok_def fun_eq_iff split: option.splits)

lemma ht_inv_entries [simp]:
  "ht_inv (s\<lparr>wt_entries := x\<rparr>) = ht_inv s" "ht_inv (s\<lparr>wt_entry_max := n\<rparr>) = ht_inv s"
  "ht_lookup (s\<lparr>wt_entries := x\<rparr>) = ht_lookup s" "ht_lookup (s\<lparr>wt_entry_max := n\<rparr>) = ht_lookup s"
  by (simp_all add: ht_inv_def ht_lookup_def fun_eq_iff split: option.splits)

section \<open>The interface of the table\<close>

text \<open>
  What the world table relies on. \<open>listed s vs\<close> says that the table numbers the variables
  \<open>vs\<close> by their position; an insertion of a new variable with the next number extends it.
\<close>

definition index_of :: "'k list \<Rightarrow> 'k \<Rightarrow> nat option" where
  "index_of vs = map_of (zip vs [0..<length vs])"

lemma index_of_Nil [simp]: "index_of [] = Map.empty"
  by (simp add: index_of_def)

lemma index_of_None: "index_of vs v = None \<longleftrightarrow> v \<notin> set vs"
proof -
  have "fst ` set (zip vs [0..<length vs]) = set vs" by (metis length_upt map_fst_zip minus_nat.diff_0 set_map)
  then show ?thesis by (simp add: index_of_def map_of_eq_None_iff)
qed

lemma index_of_snoc:
  assumes "v \<notin> set vs"
  shows "index_of (vs @ [v]) = (index_of vs)(v \<mapsto> length vs)"
proof
  fix w
  have "index_of (vs @ [v]) w = (case index_of vs w of None \<Rightarrow> [v \<mapsto> length vs] w | Some i \<Rightarrow> Some i)"
    by (auto simp: index_of_def map_add_def split: option.splits)
  then show "index_of (vs @ [v]) w = ((index_of vs)(v \<mapsto> length vs)) w"
    using index_of_None [of vs v] assms by (auto split: option.splits)
qed

lemma index_of_Some: "index_of vs v = Some i \<Longrightarrow> i < length vs \<and> vs ! i = v"
  by (auto simp: index_of_def in_set_zip dest!: map_of_SomeD)

lemma dom_index_of [simp]: "dom (index_of vs) = set vs"
  by (simp add: dom_def index_of_None)

locale var_index =
  fixes inv :: "'s \<Rightarrow> bool"
    and lookup :: "'s \<Rightarrow> 'k \<Rightarrow> nat option"
    and room :: "'s \<Rightarrow> 'k \<Rightarrow> bool"
    and find :: "'s \<Rightarrow> 'k \<Rightarrow> nat option res"
    and insert :: "'s \<Rightarrow> 'k \<Rightarrow> nat \<Rightarrow> 's res"
  assumes find_eq: "inv s \<Longrightarrow> find s v = Inr (lookup s v)"
    and insert_sound: "inv s \<Longrightarrow> lookup s v = None \<Longrightarrow> insert s v i = Inr t \<Longrightarrow>
      inv t \<and> lookup t = (lookup s)(v \<mapsto> i)"
    and insert_room: "inv s \<Longrightarrow> lookup s v = None \<Longrightarrow> finite (dom (lookup s)) \<Longrightarrow> room s v \<Longrightarrow>
      \<exists>t. insert s v i = Inr t"
begin

definition listed :: "'s \<Rightarrow> 'k list \<Rightarrow> bool" where
  "listed s vs \<longleftrightarrow> inv s \<and> distinct vs \<and> lookup s = index_of vs"

lemma find_listed: "listed s vs \<Longrightarrow> find s v = Inr (index_of vs v)"
  by (simp add: listed_def find_eq)

lemma insert_listed:
  assumes "listed s vs" "v \<notin> set vs" "insert s v (length vs) = Inr t"
  shows "listed t (vs @ [v])"
  using insert_sound [of s v "length vs" t] assms
  by (simp add: listed_def index_of_None index_of_snoc)

lemma insert_listed_room:
  assumes "listed s vs" "v \<notin> set vs" "room s v"
  shows "ok (insert s v (length vs)) (\<lambda>t. listed t (vs @ [v]))"
proof -
  obtain t where t: "insert s v (length vs) = Inr t"
    using insert_room [of s v "length vs"] assms by (auto simp: listed_def index_of_None)
  then show ?thesis using insert_listed [OF assms(1,2) t] by simp
qed

end

interpretation ht: var_index ht_inv ht_lookup ht_room ht_find ht_insert
proof unfold_locales
  fix s v i t assume "ht_inv s" "ht_lookup s v = None" "ht_insert s v i = Inr t"
  then show "ht_inv t \<and> ht_lookup t = (ht_lookup s)(v \<mapsto> i)"
    using ht_insert_ok [of s v i] by auto
next
  fix s v i assume "ht_inv s" "ht_lookup s v = None" "finite (dom (ht_lookup s))" "ht_room s v"
  then show "\<exists>t. ht_insert s v i = Inr t" using ht_insert_room [of s v i] by (auto elim: ok_E)
qed (rule ht_find_eq)

section \<open>Properties\<close>

text \<open>The empty directory of \<open>2 ^ n\<close> slots.\<close>

definition empty_table :: "nat \<Rightarrow> generalState" where
  "empty_table n = \<lparr>wt_entries = [], HT = replicate (2 ^ n) None, mlists = [], gs_nbits = n, gs_mask = GETMASK n,
     wt_entry_max = 1\<rparr>"

lemma ht_inv_empty_table: "INIT_NBITS \<le> n \<Longrightarrow> n \<le> 26 \<Longrightarrow> ht_inv (empty_table n)"
proof -
  assume n: "INIT_NBITS \<le> n" "n \<le> 26"
  have "8 * 2 ^ n \<le> 8 * (2 :: nat) ^ 26" using n(2) by (intro mult_le_mono2 power_increasing) auto
  then show ?thesis using n by (simp add: ht_inv_def slot_ok_def empty_table_def MaxAllocSize_def)
qed

lemma ht_lookup_empty_table [simp]: "ht_lookup (empty_table n) v = None"
  by (simp add: ht_lookup_def empty_table_def)

lemma empty_table_simps [simp]: "gs_nbits (empty_table n) = n" "j < 2 ^ n \<Longrightarrow> HT (empty_table n) ! j = None"
  by (simp_all add: empty_table_def)

text \<open>
  C11. Entering a variable that is not in the table refines the update of a finite map: the
  invariant is kept and afterwards every variable is found as before, except the new one,
  which is found at its entry. The only other outcomes are an allocation request above the
  limit and the write outside the directory for an empty slot beyond its initial size.
\<close>

theorem ht_insert_refines:
  assumes "ht_inv s" "ht_find s v = Inr None"
  shows "(\<exists>t. ht_insert s v i = Inr t \<and> ht_inv t \<and> (\<forall>w. ht_find t w = (if w = v then Inr (Some i) else ht_find s w))) \<or>
    ht_insert s v i = Inl AllocTooLarge \<or>
    ht_insert s v i = Inl OutOfBounds \<and> HT s ! hash (gs_nbits s) v = None \<and> 2 ^ INIT_NBITS \<le> hash (gs_nbits s) v"
proof -
  have "ht_lookup s v = None" using assms by (simp add: ht_find_eq)
  then show ?thesis using ht_insert_ok [OF assms(1), of v i] assms(1) by (auto simp: ok_def ht_find_eq)
qed

theorem ht_insert_refines_witness:
  "\<exists>t. ht_insert (empty_table 10) 5 0 = Inr t \<and> ht_find t 5 = Inr (Some 0) \<and> ht_find t 6 = Inr None"
proof -
  have inv: "ht_inv (empty_table 10)" by (rule ht_inv_empty_table) (simp_all add: INIT_NBITS_def)
  have r: "ok (ht_insert (empty_table 10) 5 0) (\<lambda>t. ht_inv t \<and> ht_lookup t = (ht_lookup (empty_table 10))(5 \<mapsto> 0) \<and>
      wt_entries t = wt_entries (empty_table 10) \<and> gs_nbits t = INIT_NBITS)"
    by (rule ht_insert_room [OF inv]) (simp_all add: ht_room_def INIT_NBITS_def LIST_INIT_SIZE_def dom_def)
  have "ht_find (empty_table 10) w = Inr None" for w using inv by (simp add: ht_find_eq)
  then show ?thesis using ht_insert_refines [OF inv, of 5 0] r by (auto simp: ok_def)
qed

text \<open>
  C32. As long as the directory has its initial size and fewer than thirty variables share the
  residue of the new one, entering it succeeds, keeps the size of the directory and enters it.
\<close>

theorem ht_insert_succeeds:
  assumes "ht_inv s" "ht_lookup s v = None" "finite (dom (ht_lookup s))" "gs_nbits s = INIT_NBITS"
    "card {w \<in> dom (ht_lookup s). hash INIT_NBITS w = hash INIT_NBITS v} < LIST_INIT_SIZE"
  shows "\<exists>t. ht_insert s v i = Inr t \<and> ht_inv t \<and> gs_nbits t = INIT_NBITS \<and> ht_lookup t = (ht_lookup s)(v \<mapsto> i)"
  using ht_insert_room [of s v i] assms by (auto simp: ht_room_def ok_def)

theorem ht_insert_succeeds_witness:
  "\<exists>t. ht_insert (empty_table 10) 1029 0 = Inr t \<and> ht_lookup t 1029 = Some 0"
  using ht_insert_succeeds [of "empty_table 10" 1029 0] ht_inv_empty_table [of 10]
  by (auto simp: INIT_NBITS_def LIST_INIT_SIZE_def dom_def)

text \<open>
  Splitting a full bucket of fewer bits than the directory keeps the invariant and every
  entry of the table, leaves the world table alone, and raises the bits of the bucket of the
  variable by one.
\<close>

theorem split_keeps_entries:
  assumes "ht_inv s" "HT s ! hash (gs_nbits s) v = Some a" "BUCKETISFULL (mlists s ! a)" "ml_nbits (mlists s ! a) < gs_nbits s"
  shows "ok (distribute_elements s v (HASHFUNC v (gs_mask s))) (\<lambda>t. ht_inv t \<and> (\<forall>w. ht_find t w = ht_find s w) \<and>
    wt_entries t = wt_entries s \<and>
    (\<exists>c. HT t ! HASHFUNC v (gs_mask s) = Some c \<and> ml_nbits (mlists t ! c) = Suc (ml_nbits (mlists s ! a))))"
  using distribute_elements_ok [OF assms] ht_invD(2) [OF assms(1)] assms(1)
  by (auto simp: ht_find_eq elim!: ok_mono)

text \<open>A directory of eleven bits whose only bucket is full of keys congruent to \<open>0\<close>.\<close>

definition one_bucket :: "nat \<Rightarrow> nat option list" where
  "one_bucket n = map (\<lambda>j. if j mod 1024 = 0 then Some 0 else None) [0..<n]"

lemma one_bucket_simps [simp]:
  "length (one_bucket n) = n" "j < n \<Longrightarrow> one_bucket n ! j = (if j mod 1024 = 0 then Some 0 else None)"
  by (simp_all add: one_bucket_def)

definition full_table :: generalState where
  "full_table = \<lparr>wt_entries = [], HT = one_bucket 2048,
     mlists = [\<lparr>ml_count = 30, ml_size = 30, ml_nbits = 10, ml_mask = GETMASK 10,
       ml_keys = map (\<lambda>i. 1024 * int i) [0..<30], ml_indices = [0..<30]\<rparr>],
     gs_nbits = 11, gs_mask = GETMASK 11, wt_entry_max = 1\<rparr>"

lemma ht_inv_full_table: "ht_inv full_table"
proof -
  let ?l = "mlists full_table ! 0"
  have c: "ml_content ?l = map (\<lambda>i. (1024 * int i, i)) [0..<30]"
    by (simp add: full_table_def ml_content_def zip_map1 zip_same_conv_map comp_def)
  have l: "ml_ok ?l" "ml_nbits ?l = 10" by (simp_all add: full_table_def ml_ok_def LIST_INIT_SIZE_def)
  have d: "distinct (map fst (ml_content ?l))" unfolding c by (simp add: comp_def distinct_map inj_on_def)
  have f: "gs_nbits full_table = 11" "gs_mask full_table = GETMASK 11" "length (mlists full_table) = 1"
    "HT full_table = one_bucket 2048" by (simp_all add: full_table_def)
  have "bucket_ok full_table idx 0" if "idx < 2048" "idx mod 1024 = 0" for idx
    using l d that by (auto simp: bucket_ok_def f c INIT_NBITS_def hash_def)
  then have "slot_ok full_table idx" if "idx < 2048" for idx
    using that by (auto simp: slot_ok_def f INIT_NBITS_def)
  then show ?thesis by (simp add: ht_inv_def f INIT_NBITS_def MaxAllocSize_def)
qed

theorem split_keeps_entries_witness:
  "ok (distribute_elements full_table 30720 (HASHFUNC 30720 (gs_mask full_table))) (\<lambda>t. ht_inv t \<and>
    ht_find t 2048 = ht_find full_table 2048)"
proof -
  have "HT full_table ! hash (gs_nbits full_table) 30720 = Some 0" "BUCKETISFULL (mlists full_table ! 0)"
    "ml_nbits (mlists full_table ! 0) < gs_nbits full_table"
    by (simp_all add: full_table_def BUCKETISFULL_def hash_def)
  from split_keeps_entries [OF ht_inv_full_table this] show ?thesis by (auto elim!: ok_mono)
qed

text \<open>
  The loop that looks for room ends: it never runs out of its passes, and it ends with the
  bucket of the variable not full and every entry kept, or at the allocation limit.
\<close>

theorem bucket_loop_terminates:
  assumes "ht_inv s" "HT s ! hash (gs_nbits s) v = Some a"
  shows "bucket_loop BUCKET_FUEL s v = Inl AllocTooLarge \<or>
    (\<exists>t c. bucket_loop BUCKET_FUEL s v = Inr t \<and> ht_inv t \<and> (\<forall>w. ht_find t w = ht_find s w) \<and>
      HT t ! HASHFUNC v (gs_mask t) = Some c \<and> \<not> BUCKETISFULL (mlists t ! c))"
  using bucket_loop_ok [OF assms, of BUCKET_FUEL] assms(1)
  by (auto simp: BUCKET_FUEL_def ok_def ht_kept_def ht_find_eq ht_invD(2))

theorem bucket_loop_terminates_witness: "bucket_loop BUCKET_FUEL full_table 30720 \<noteq> Inl OutOfFuel"
proof -
  have "HT full_table ! hash (gs_nbits full_table) 30720 = Some 0" by (simp add: full_table_def hash_def)
  from bucket_loop_terminates [OF ht_inv_full_table this] show ?thesis by auto
qed

text \<open>
  C35. Once the directory has grown, a variable whose slot is empty and lies beyond the initial
  directory size is not entered: the new bucket gets the initial number of bits and the update
  of the directory, which counts up from the slot in steps of the initial size, writes outside it.
\<close>

theorem ht_insert_outside_directory:
  assumes "ht_inv s" "HT s ! hash (gs_nbits s) v = None" "2 ^ INIT_NBITS \<le> hash (gs_nbits s) v"
  shows "ht_insert s v i = Inl OutOfBounds"
  using assms create_bucket_out_of_bounds [OF assms(1,3)] ht_invD [OF assms(1)] by (simp add: ht_insert_def Let_def)

theorem ht_insert_outside_directory_witness: "ht_insert full_table 1025 30 = Inl OutOfBounds"
  by (rule ht_insert_outside_directory [OF ht_inv_full_table])
    (simp_all add: full_table_def hash_def INIT_NBITS_def)

end
