(* ===== verification/Worlds.thy ===== *)
theory Worlds
  imports Prelude
begin

text \<open>
  The possible-worlds semantics that confidence computation is measured against. A world
  table lists independent random variables, each with a finite distribution over its
  range values; a world picks one value for every variable and weighs the product of the
  picked probabilities. The probability of a condition is the sum of the weights of the
  worlds in which it holds, the definition the comment at the head of
  \<^verbatim>\<open>aconf.c\<close> gives.

  The lemmas are the facts the algorithms rest on: the additive laws, independence of
  conditions over disjoint sets of variables, and expansion by the value of one variable.
\<close>

type_synonym dist = "(int \<times> real) list"
type_synonym wtable = "(int \<times> dist) list"
type_synonym world = "int \<Rightarrow> int"

section \<open>Worlds and probabilities\<close>

fun worlds :: "wtable \<Rightarrow> (real \<times> world) list" where
  "worlds [] = [(1, \<lambda>_. 0)]"
| "worlds ((v, d) # W) =
     concat (map (\<lambda>(r, p). map (\<lambda>(w, \<tau>). (p * w, \<tau>(v := r))) (worlds W)) d)"

definition Pr :: "wtable \<Rightarrow> (world \<Rightarrow> bool) \<Rightarrow> real" where
  "Pr W E = (\<Sum>(w, \<tau>)\<leftarrow>worlds W. if E \<tau> then w else 0)"

text \<open>The expectation of a function of the world; a probability is that of an indicator.\<close>

definition Expect :: "wtable \<Rightarrow> (world \<Rightarrow> real) \<Rightarrow> real" where
  "Expect W f = (\<Sum>(w, \<tau>)\<leftarrow>worlds W. w * f \<tau>)"

definition dist_ok :: "dist \<Rightarrow> bool" where
  "dist_ok d \<longleftrightarrow> distinct (map fst d) \<and> (\<forall>(r, p) \<in> set d. 0 \<le> p) \<and> (\<Sum>(r, p)\<leftarrow>d. p) = 1"

definition wt_ok :: "wtable \<Rightarrow> bool" where
  "wt_ok W \<longleftrightarrow> distinct (map fst W) \<and> (\<forall>(v, d) \<in> set W. dist_ok d)"

definition depends :: "int set \<Rightarrow> (world \<Rightarrow> bool) \<Rightarrow> bool" where
  "depends X E \<longleftrightarrow> (\<forall>\<tau> \<tau>'. (\<forall>v \<in> X. \<tau> v = \<tau>' v) \<longrightarrow> E \<tau> = E \<tau>')"

section \<open>Additive laws\<close>

lemma Pr_Nil [simp]: "Pr [] E = (if E (\<lambda>_. 0) then 1 else 0)"
  by (simp add: Pr_def)

lemma Expect_Nil [simp]: "Expect [] f = f (\<lambda>_. 0)"
  by (simp add: Expect_def)

lemma Expect_Cons: "Expect ((v, d) # W) f = (\<Sum>(r, p)\<leftarrow>d. p * Expect W (\<lambda>\<tau>. f (\<tau>(v := r))))"
proof -
  have "(\<Sum>(w, \<tau>)\<leftarrow>map (\<lambda>(w, \<tau>). (p * w, \<tau>(v := r))) ws. w * f \<tau>) = p * (\<Sum>(w, \<tau>)\<leftarrow>ws. w * f (\<tau>(v := r)))" for p r ws
    by (induction ws) (auto simp: algebra_simps)
  then show ?thesis unfolding Expect_def by (induction d) auto
qed

lemma Pr_Expect: "Pr W E = Expect W (\<lambda>\<tau>. if E \<tau> then 1 else 0)"
  unfolding Pr_def Expect_def by (rule arg_cong [where f = sum_list]) auto

lemma Pr_Cons:
  "Pr ((v, d) # W) E = (\<Sum>(r, p)\<leftarrow>d. p * Pr W (\<lambda>\<tau>. E (\<tau>(v := r))))"
  by (simp add: Pr_Expect Expect_Cons)

lemma Expect_cong: "(\<And>\<tau>. f \<tau> = g \<tau>) \<Longrightarrow> Expect W f = Expect W g"
  by (simp add: Expect_def)

lemma Expect_mult: "Expect W (\<lambda>\<tau>. c * f \<tau>) = c * Expect W f"
proof -
  have "(\<Sum>(w, \<tau>)\<leftarrow>ws. w * (c * f \<tau>)) = c * (\<Sum>(w, \<tau>)\<leftarrow>ws. w * f \<tau>)" for ws by (induction ws) (auto simp: algebra_simps)
  then show ?thesis by (simp add: Expect_def)
qed

lemma Expect_sum: "Expect W (\<lambda>\<tau>. \<Sum>i\<in>I. f i \<tau>) = (\<Sum>i\<in>I. Expect W (f i))"
proof -
  have "(\<Sum>(w, \<tau>)\<leftarrow>ws. w * (\<Sum>i\<in>I. f i \<tau>)) = (\<Sum>i\<in>I. \<Sum>(w, \<tau>)\<leftarrow>ws. w * f i \<tau>)" for ws
    by (induction ws) (auto simp: sum_distrib_left sum.distrib)
  then show ?thesis by (simp add: Expect_def)
qed

lemma Pr_False [simp]: "Pr W (\<lambda>_. False) = 0"
proof -
  have "(\<Sum>(w :: real, \<tau> :: world)\<leftarrow>ws. 0) = (0 :: real)" for ws by (induction ws) auto
  then show ?thesis by (simp add: Pr_def)
qed

lemma Pr_cong: "(\<And>\<tau>. E \<tau> = F \<tau>) \<Longrightarrow> Pr W E = Pr W F"
  by (simp add: Pr_def)

lemma Pr_add: "Pr W (\<lambda>\<tau>. E \<tau> \<or> F \<tau>) = Pr W E + Pr W F - Pr W (\<lambda>\<tau>. E \<tau> \<and> F \<tau>)"
proof -
  have "(\<Sum>(w, \<tau>)\<leftarrow>ws. if E \<tau> \<or> F \<tau> then w else 0) =
      (\<Sum>(w, \<tau>)\<leftarrow>ws. if E \<tau> then w else 0) + (\<Sum>(w, \<tau>)\<leftarrow>ws. if F \<tau> then w else 0) -
      (\<Sum>(w, \<tau>)\<leftarrow>ws. if E \<tau> \<and> F \<tau> then w else (0 :: real))" for ws
    by (induction ws) auto
  then show ?thesis by (simp add: Pr_def)
qed

lemma Pr_compl: "Pr W (\<lambda>\<tau>. \<not> E \<tau>) = Pr W (\<lambda>_. True) - Pr W E"
proof -
  have "(\<Sum>(w, \<tau>)\<leftarrow>ws. if \<not> E \<tau> then w else 0) =
      (\<Sum>(w, \<tau>)\<leftarrow>ws. w) - (\<Sum>(w, \<tau>)\<leftarrow>ws. if E \<tau> then w else (0 :: real))" for ws
    by (induction ws) auto
  then show ?thesis by (simp add: Pr_def)
qed

lemma worlds_nonneg:
  "\<forall>(v, d) \<in> set W. \<forall>(r, p) \<in> set d. 0 \<le> p \<Longrightarrow> (w, \<tau>) \<in> set (worlds W) \<Longrightarrow> 0 \<le> w"
proof (induction W arbitrary: w \<tau>)
  case (Cons vd W)
  obtain v d where vd: "vd = (v, d)" by (cases vd)
  from Cons.prems(2) obtain r p w' \<tau>' where "(r, p) \<in> set d" "(w', \<tau>') \<in> set (worlds W)" "w = p * w'"
    by (auto simp: vd)
  moreover from this(1) Cons.prems(1) have "0 \<le> p" by (auto simp: vd)
  moreover have "0 \<le> w'" using Cons calculation(2) by auto
  ultimately show ?case by simp
qed simp

lemma wt_ok_nonneg: "wt_ok W \<Longrightarrow> \<forall>(v, d) \<in> set W. \<forall>(r, p) \<in> set d. 0 \<le> p"
  by (fastforce simp: wt_ok_def dist_ok_def)

lemma Pr_mono:
  assumes "wt_ok W" "\<And>\<tau>. E \<tau> \<Longrightarrow> F \<tau>"
  shows "Pr W E \<le> Pr W F"
proof -
  have "(\<Sum>(w, \<tau>)\<leftarrow>worlds W. if E \<tau> then w else 0) \<le> (\<Sum>(w, \<tau>)\<leftarrow>worlds W. if F \<tau> then w else 0)"
    by (rule sum_list_mono)
      (use assms(2) worlds_nonneg [OF wt_ok_nonneg [OF assms(1)]] in \<open>auto split: prod.splits\<close>)
  then show ?thesis by (simp add: Pr_def)
qed

lemma Pr_nonneg: "wt_ok W \<Longrightarrow> 0 \<le> Pr W E"
  using Pr_mono [of W "\<lambda>_. False" E] by simp

lemma wt_ok_Cons: "wt_ok ((v, d) # W) \<longleftrightarrow> v \<notin> fst ` set W \<and> dist_ok d \<and> wt_ok W"
  by (auto simp: wt_ok_def)

lemma dist_ok_sum: "dist_ok d \<Longrightarrow> (\<Sum>(r, p)\<leftarrow>d. p * c) = c"
proof -
  have "(\<Sum>(r, p)\<leftarrow>d. p * c) = (\<Sum>(r, p)\<leftarrow>d. p) * c" for d :: dist
    by (induction d) (auto simp: algebra_simps)
  then show "dist_ok d \<Longrightarrow> (\<Sum>(r, p)\<leftarrow>d. p * c) = c" by (simp add: dist_ok_def)
qed

lemma Pr_True: "wt_ok W \<Longrightarrow> Pr W (\<lambda>_. True) = 1"
  by (induction W) (auto simp: Pr_Cons wt_ok_Cons dist_ok_def)

lemma Pr_le_1: "wt_ok W \<Longrightarrow> Pr W E \<le> 1"
  using Pr_mono [of W E "\<lambda>_. True"] Pr_True [of W] by simp

section \<open>Dependence and independence\<close>

lemma depends_mono: "depends X E \<Longrightarrow> X \<subseteq> Y \<Longrightarrow> depends Y E"
  by (auto simp: depends_def)

lemma depends_upd: "depends X E \<Longrightarrow> v \<notin> X \<Longrightarrow> E (\<tau>(v := r)) = E \<tau>"
  by (auto simp: depends_def)

lemma depends_upd_event: "depends X E \<Longrightarrow> depends (X - {v}) (\<lambda>\<tau>. E (\<tau>(v := r)))"
  by (auto simp: depends_def)

lemma Pr_drop_head:
  assumes "wt_ok ((v, d) # W)" "depends X E" "v \<notin> X"
  shows "Pr ((v, d) # W) E = Pr W E"
proof -
  have "(\<lambda>\<tau>. E (\<tau>(v := r))) = E" for r
    using depends_upd [OF assms(2,3)] by blast
  then show ?thesis using assms(1) by (simp add: Pr_Cons wt_ok_Cons dist_ok_sum)
qed

lemma Pr_indep:
  assumes "wt_ok W" "depends X A" "depends Y B" "X \<inter> Y = {}"
  shows "Pr W (\<lambda>\<tau>. A \<tau> \<and> B \<tau>) = Pr W A * Pr W B"
  using assms
proof (induction W arbitrary: A B X Y)
  case Nil
  then show ?case by simp
next
  case (Cons vd W)
  obtain v d where vd: "vd = (v, d)" by (cases vd)
  have W: "wt_ok W" using Cons.prems(1) by (simp add: vd wt_ok_Cons)
  have sums: "(\<Sum>(r, p)\<leftarrow>d. p * (f r * c)) = (\<Sum>(r, p)\<leftarrow>d. p * f r) * c"
    "(\<Sum>(r, p)\<leftarrow>d. p * (c * f r)) = c * (\<Sum>(r, p)\<leftarrow>d. p * f r)" for f and c :: real
    by (induction d) (auto simp: algebra_simps)
  show ?case
  proof (cases "v \<in> X")
    case True
    with Cons.prems(4) have v: "v \<notin> Y" by auto
    have "(X - {v}) \<inter> Y = {}" using Cons.prems(4) by auto
    then have "Pr W (\<lambda>\<tau>. A (\<tau>(v := r)) \<and> B (\<tau>(v := r))) = Pr W (\<lambda>\<tau>. A (\<tau>(v := r))) * Pr W B" for r
      using Cons.IH [OF W depends_upd_event [OF Cons.prems(2)] Cons.prems(3)]
      by (simp add: depends_upd [OF Cons.prems(3) v] del: fun_upd_apply)
    then show ?thesis
      using Pr_drop_head [OF _ Cons.prems(3) v] Cons.prems(1) by (simp add: vd Pr_Cons sums del: fun_upd_apply)
  next
    case False
    have "X \<inter> (Y - {v}) = {}" using Cons.prems(4) by auto
    then have "Pr W (\<lambda>\<tau>. A (\<tau>(v := r)) \<and> B (\<tau>(v := r))) = Pr W A * Pr W (\<lambda>\<tau>. B (\<tau>(v := r)))" for r
      using Cons.IH [OF W Cons.prems(2) depends_upd_event [OF Cons.prems(3)]]
      by (simp add: depends_upd [OF Cons.prems(2) False] del: fun_upd_apply)
    then show ?thesis
      using Pr_drop_head [OF _ Cons.prems(2) False] Cons.prems(1) by (simp add: vd Pr_Cons sums del: fun_upd_apply)
  qed
qed

lemma Pr_disj_indep:
  assumes "wt_ok W" "depends X A" "depends Y B" "X \<inter> Y = {}"
  shows "Pr W (\<lambda>\<tau>. A \<tau> \<or> B \<tau>) = Pr W A + Pr W B - Pr W A * Pr W B"
  using Pr_add [of W A B] Pr_indep [OF assms] by simp

section \<open>Expansion by the value of a variable\<close>

lemma sum_list_swap2:
  "(\<Sum>(r, p)\<leftarrow>d. p * (\<Sum>(r', p')\<leftarrow>e. p' * f r r')) = (\<Sum>(r', p')\<leftarrow>e. p' * (\<Sum>(r, p)\<leftarrow>d. p * f r r'))"
  for f :: "int \<Rightarrow> int \<Rightarrow> real" and d e :: dist
proof (induction d)
  case (Cons rp d)
  obtain r p where rp: "rp = (r, p)" by (cases rp)
  have "p * (\<Sum>(r', p')\<leftarrow>e. p' * f r r') + (\<Sum>(r', p')\<leftarrow>e. p' * g r') =
      (\<Sum>(r', p')\<leftarrow>e. p' * (p * f r r' + g r'))" for g :: "int \<Rightarrow> real"
    by (induction e) (auto simp: algebra_simps)
  with Cons show ?case by (simp add: rp)
next
  case Nil
  show ?case by (induction e) auto
qed

lemma Expect_expand:
  assumes "wt_ok W" "(v, d) \<in> set W"
  shows "Expect W f = (\<Sum>(r, p)\<leftarrow>d. p * Expect W (\<lambda>\<tau>. f (\<tau>(v := r))))"
  using assms
proof (induction W arbitrary: f)
  case (Cons ue W)
  obtain u e where ue: "ue = (u, e)" by (cases ue)
  have W: "wt_ok W" "dist_ok e" "u \<notin> fst ` set W" using Cons.prems(1) by (auto simp: ue wt_ok_Cons)
  show ?case
  proof (cases "(v, d) = (u, e)")
    case True
    then show ?thesis using W(2) by (simp add: ue Expect_Cons dist_ok_sum del: fun_upd_apply)
  next
    case False
    then have vd: "(v, d) \<in> set W" using Cons.prems(2) ue by auto
    then have uv: "u \<noteq> v" using W(3) by force
    have "Expect W (\<lambda>\<tau>. f (\<tau>(u := r))) = (\<Sum>(r', p)\<leftarrow>d. p * Expect W (\<lambda>\<tau>. f (\<tau>(v := r', u := r))))" for r
      using Cons.IH [OF W(1) vd] .
    moreover have "\<tau>(u := r', v := r) = \<tau>(v := r, u := r')" for \<tau> :: world and r r'
      using uv by (simp add: fun_upd_twist)
    ultimately show ?thesis by (simp add: ue Expect_Cons sum_list_swap2 [where d = d and e = e] del: fun_upd_apply)
  qed
qed simp

lemma Pr_expand:
  assumes "wt_ok W" "(v, d) \<in> set W"
  shows "Pr W E = (\<Sum>(r, p)\<leftarrow>d. p * Pr W (\<lambda>\<tau>. E (\<tau>(v := r))))"
  unfolding Pr_Expect by (rule Expect_expand [OF assms])

lemma sum_list_single:
  fixes d :: dist and c :: real
  assumes "distinct (map fst d)" "(r0, p0) \<in> set d"
  shows "(\<Sum>(r, p)\<leftarrow>d. p * (if r = r0 then c else 0)) = p0 * c"
  using assms
proof (induction d)
  case (Cons rp d)
  obtain r p where rp: "rp = (r, p)" by (cases rp)
  have 0: "r0 \<notin> fst ` set d \<Longrightarrow> (\<Sum>(r, p)\<leftarrow>d. p * (if r = r0 then c else 0)) = 0"
    by (induction d) auto
  show ?case
  proof (cases "r = r0")
    case True
    then have "p = p0" using Cons.prems by (force simp: rp)
    then show ?thesis using True Cons.prems 0 by (simp add: rp)
  next
    case False
    then show ?thesis using Cons by (auto simp: rp)
  qed
qed simp

lemma Expect_assign:
  assumes "wt_ok W" "(v, d) \<in> set W" "(r, p) \<in> set d"
  shows "Expect W (\<lambda>\<tau>. if \<tau> v = r then f \<tau> else 0) = p * Expect W (\<lambda>\<tau>. f (\<tau>(v := r)))"
proof -
  have d: "distinct (map fst d)" using assms(1,2) by (auto simp: wt_ok_def dist_ok_def)
  have "Expect W (\<lambda>_. 0) = 0" using Expect_mult [of W 0 "\<lambda>_. 0"] by simp
  then have c: "Expect W (\<lambda>\<tau>. if (\<tau>(v := r')) v = r then f (\<tau>(v := r')) else 0) =
      (if r' = r then Expect W (\<lambda>\<tau>. f (\<tau>(v := r))) else 0)" for r'
    by simp
  show ?thesis
    unfolding Expect_expand [OF assms(1,2), of "\<lambda>\<tau>. if \<tau> v = r then f \<tau> else 0"] c
    by (rule sum_list_single [OF d assms(3)])
qed

lemma Pr_assign:
  assumes "wt_ok W" "(v, d) \<in> set W" "(r, p) \<in> set d"
  shows "Pr W (\<lambda>\<tau>. \<tau> v = r \<and> E \<tau>) = p * Pr W (\<lambda>\<tau>. E (\<tau>(v := r)))"
proof -
  have "Pr W (\<lambda>\<tau>. \<tau> v = r \<and> E \<tau>) = Expect W (\<lambda>\<tau>. if \<tau> v = r then if E \<tau> then 1 else 0 else 0)"
    unfolding Pr_Expect by (rule Expect_cong) simp
  then show ?thesis unfolding Expect_assign [OF assms] Pr_Expect .
qed

text \<open>A conjunction of assignments of distinct variables has the product of their probabilities.\<close>

lemma Pr_conj:
  assumes "wt_ok W" "distinct (map fst ls)"
    and "\<And>v r p. (v, r, p) \<in> set ls \<Longrightarrow> \<exists>d. (v, d) \<in> set W \<and> (r, p) \<in> set d"
  shows "Pr W (\<lambda>\<tau>. \<forall>(v, r, p) \<in> set ls. \<tau> v = r) = prod_list (map (\<lambda>(v, r, p). p) ls)"
  using assms(2,3)
proof (induction ls)
  case Nil
  then show ?case using Pr_True [OF assms(1)] by simp
next
  case (Cons l ls)
  obtain v r p where l: "l = (v, r, p)" by (cases l)
  obtain d where d: "(v, d) \<in> set W" "(r, p) \<in> set d" using Cons.prems(2) [of v r p] l by auto
  have upd: "(\<forall>(u, s, q) \<in> set ls. (\<tau>(v := r)) u = s) \<longleftrightarrow> (\<forall>(u, s, q) \<in> set ls. \<tau> u = s)" for \<tau> :: world
    using Cons.prems(1) by (force simp: l)
  have "Pr W (\<lambda>\<tau>. \<forall>(v, r, p) \<in> set (l # ls). \<tau> v = r) =
      Pr W (\<lambda>\<tau>. \<tau> v = r \<and> (\<forall>(u, s, q) \<in> set ls. \<tau> u = s))"
    by (rule Pr_cong) (auto simp: l)
  also have "\<dots> = p * Pr W (\<lambda>\<tau>. \<forall>(u, s, q) \<in> set ls. \<tau> u = s)"
    using Pr_assign [OF assms(1) d, of "\<lambda>\<tau>. \<forall>(u, s, q) \<in> set ls. \<tau> u = s"] unfolding upd .
  also have "\<dots> = prod_list (map (\<lambda>(v, r, p). p) (l # ls))"
    using Cons.IH Cons.prems by (simp add: l)
  finally show ?case .
qed

section \<open>Lineage\<close>

text \<open>
  A clause is a list of conditions \<open>(variable, range value, probability)\<close>, a lineage a list
  of clauses read as a disjunction. Its probability depends on the probabilities of its
  conditions only: two world tables that both give every condition its probability agree on
  it, whatever other range values they have.
\<close>

type_synonym lit = "int \<times> int \<times> real"

definition holds :: "lit list \<Rightarrow> world \<Rightarrow> bool" where
  "holds c \<tau> \<longleftrightarrow> (\<forall>(v, r, p) \<in> set c. \<tau> v = r)"

definition lineage_holds :: "lit list list \<Rightarrow> world \<Rightarrow> bool" where
  "lineage_holds cs \<tau> \<longleftrightarrow> (\<exists>c \<in> set cs. holds c \<tau>)"

definition in_wt :: "wtable \<Rightarrow> lit list \<Rightarrow> bool" where
  "in_wt W c \<longleftrightarrow> (\<forall>(v, r, p) \<in> set c. \<exists>d. (v, d) \<in> set W \<and> (r, p) \<in> set d)"

lemma holds_simps [simp]:
  "holds [] \<tau>" "holds ((v, r, p) # c) \<tau> \<longleftrightarrow> \<tau> v = r \<and> holds c \<tau>" "holds (c @ c') \<tau> \<longleftrightarrow> holds c \<tau> \<and> holds c' \<tau>"
  by (simp_all add: holds_def ball_Un)

lemma in_wt_append [simp]: "in_wt W (c @ c') \<longleftrightarrow> in_wt W c \<and> in_wt W c'"
  by (simp add: in_wt_def ball_Un)

lemma holds_depends: "depends (fst ` set c) (holds c)"
  unfolding depends_def holds_def by (force simp: image_iff)

lemma Pr_holds_eq:
  assumes "wt_ok W" "wt_ok W'" "in_wt W c" "in_wt W' c"
  shows "Pr W (holds c) = Pr W' (holds c)"
  using assms(3,4)
proof (induction c)
  case Nil
  have "holds [] = (\<lambda>_. True)" by (simp add: fun_eq_iff)
  then show ?case using Pr_True assms(1,2) by simp
next
  case (Cons l c)
  obtain v r p where l: "l = (v, r, p)" by (cases l)
  have IH: "Pr W (holds c) = Pr W' (holds c)" using Cons by (simp add: in_wt_def)
  show ?case
  proof (cases "v \<in> fst ` set c")
    case True
    then obtain r' p' where m: "(v, r', p') \<in> set c" by force
    show ?thesis
    proof (cases "r' = r")
      case True
      then have "holds (l # c) = holds c" using m by (force simp: l holds_def fun_eq_iff)
      then show ?thesis using IH by simp
    next
      case False
      then have "holds (l # c) = (\<lambda>_. False)" using m by (force simp: l holds_def fun_eq_iff)
      then show ?thesis by simp
    qed
  next
    case False
    have "Pr V (holds (l # c)) = p * Pr V (holds c)" if V: "wt_ok V" "in_wt V (l # c)" for V
    proof -
      obtain d where "(v, d) \<in> set V" "(r, p) \<in> set d" using V(2) by (auto simp: in_wt_def l)
      then have "Pr V (\<lambda>\<tau>. \<tau> v = r \<and> holds c \<tau>) = p * Pr V (\<lambda>\<tau>. holds c (\<tau>(v := r)))" by (rule Pr_assign [OF V(1)])
      moreover have "(\<lambda>\<tau>. holds c (\<tau>(v := r))) = holds c"
        using depends_upd [OF holds_depends False] by (simp add: fun_eq_iff del: fun_upd_apply)
      moreover have "holds (l # c) = (\<lambda>\<tau>. \<tau> v = r \<and> holds c \<tau>)" by (simp add: l fun_eq_iff)
      ultimately show ?thesis by simp
    qed
    then show ?thesis using assms(1,2) Cons.prems IH by simp
  qed
qed

lemma Pr_lineage_eq:
  assumes "wt_ok W" "wt_ok W'" "\<forall>c \<in> set cs. in_wt W c \<and> in_wt W' c"
  shows "Pr W (lineage_holds cs) = Pr W' (lineage_holds cs)"
  using assms(3)
proof (induction "length cs" arbitrary: cs)
  case 0
  then have "lineage_holds cs = (\<lambda>_. False)" by (simp add: lineage_holds_def fun_eq_iff)
  then show ?case by simp
next
  case (Suc m)
  then obtain c cs' where cs: "cs = c # cs'" by (cases cs) auto
  have split: "lineage_holds cs = (\<lambda>\<tau>. holds c \<tau> \<or> lineage_holds cs' \<tau>)" by (simp add: cs lineage_holds_def fun_eq_iff)
  have both: "(\<lambda>\<tau>. holds c \<tau> \<and> lineage_holds cs' \<tau>) = lineage_holds (map ((@) c) cs')"
    by (auto simp: lineage_holds_def fun_eq_iff)
  have "Pr W (lineage_holds cs') = Pr W' (lineage_holds cs')" using Suc by (simp add: cs)
  moreover have "Pr W (lineage_holds (map ((@) c) cs')) = Pr W' (lineage_holds (map ((@) c) cs'))"
    by (rule Suc.hyps(1)) (use Suc.hyps(2) Suc.prems in \<open>auto simp: cs\<close>)
  moreover have "Pr W (holds c) = Pr W' (holds c)" 
    by (rule Pr_holds_eq [OF assms(1,2)]) (use Suc.prems in \<open>simp_all add: cs\<close>)
  ultimately show ?case unfolding split Pr_add both by simp
qed

end
