(* ===== verification/Localcond.thy ===== *)
theory Localcond
  imports HashTable Worlds
begin

text \<open>
  The lineage store of \<^verbatim>\<open>backend/maybms/localcond.c\<close> and \<^verbatim>\<open>include/maybms/localcond.h\<close>:
  the world-set descriptors \<open>S\<close> of a group of duplicates and the local world table that
  collects the range values of their variables. \<open>accum\<close> is the transition step every
  confidence aggregate shares.

  Pointers into the world table are positions: \<open>wt_entry\<close> is the number of an entry and
  \<open>rng_entry\<close> the number of an entry with the number of a range value in it; a field the C
  code has not assigned yet is \<open>None\<close>. The array \<open>S\<close> is the list of its \<open>NUM_WSDS\<close> used
  slots, \<open>None\<close> for the null pointer, and every write is checked against the capacity the
  C code keeps. Probabilities are real numbers.

  The main facts: \<open>accum\<close> keeps \<open>lin_inv\<close>, and after \<open>getMissingRngs\<close> the local world table
  is a family of distributions in which every condition of the lineage has its probability
  (\<open>accum_all_ok\<close>, \<open>getMissingRngs_ok\<close>, \<open>computeEntryPointers_ok\<close>).
\<close>

section \<open>Structures\<close>

record Map_t =
  m_var :: int
  m_rng :: int
  m_neg :: int
  m_prob :: real
  wt_offset :: "nat option"
  wt_entry :: "nat option"
  rng_offset :: "nat option"
  rng_entry :: "(nat \<times> nat) option"

record WSD =
  d_data :: "Map_t list"
  d_prob :: real

record lineage =
  S :: "WSD list option"
  current_size :: nat
  WSD_LEN :: nat
  groupcxt :: bool

definition NUM_WSDS :: "lineage \<Rightarrow> nat" where
  "NUM_WSDS l = (case S l of None \<Rightarrow> 0 | Some ws \<Rightarrow> length ws)"

definition RESERVED_VAR :: int where "RESERVED_VAR = 0"

definition RNG_FOR_RESERVED_VAR :: int where "RNG_FOR_RESERVED_VAR = 1"

definition WTINITSIZE :: nat where "WTINITSIZE = 1000"

definition RNGENTRYSIZE :: nat where "RNGENTRYSIZE = 3"

section \<open>Operations\<close>

definition create_map :: "int \<Rightarrow> int \<Rightarrow> int \<Rightarrow> real \<Rightarrow> Map_t" where
  "create_map var rng neg prob =
     \<lparr>m_var = var, m_rng = rng, m_neg = neg, m_prob = prob,
      wt_offset = None, wt_entry = None, rng_offset = None, rng_entry = None\<rparr>"

definition genStateInit :: "lineage \<Rightarrow> generalState \<Rightarrow> lineage \<times> generalState" where
  "genStateInit l s =
     (l\<lparr>current_size := 100, S := Some []\<rparr>,
      s\<lparr>gs_nbits := INIT_NBITS, gs_mask := GETMASK INIT_NBITS,
        HT := replicate (nat (GETMASK INIT_NBITS + 1)) None, mlists := [],
        wt_entries := [], wt_entry_max := WTINITSIZE\<rparr>)"

text \<open>The fields a new entry leaves unassigned are zero here; every algorithm assigns them before use.\<close>

definition new_entry :: "int \<Rightarrow> worldTableEntry" where
  "new_entry v = \<lparr>we_var = v, rng_entries = [], rng_entry_max = RNGENTRYSIZE,
     tau = 0, met = False, occur_count = 0\<rparr>"

definition wtEntryInit :: "int \<Rightarrow> generalState \<Rightarrow> (generalState \<times> nat) res" where
  "wtEntryInit v s =
     (let c = length (wt_entries s)
      in if c < wt_entry_max s
         then Inr (s\<lparr>wt_entries := wt_entries s @ [new_entry v],
                     wt_entry_max := (if Suc c = wt_entry_max s then wt_entry_max s * 2 else wt_entry_max s)\<rparr>, c)
         else Inl OutOfBounds)"

definition rngEntryInit :: "int \<Rightarrow> real \<Rightarrow> worldTableEntry \<Rightarrow> (worldTableEntry \<times> nat) res" where
  "rngEntryInit rng p e =
     (let c = length (rng_entries e) in
      if c < rng_entry_max e
      then Inr (e\<lparr>rng_entries := rng_entries e @ [\<lparr>re_rng = rng, re_p = p, re_count = 0\<rparr>],
                  rng_entry_max := (if Suc c = rng_entry_max e then rng_entry_max e * 2 else rng_entry_max e)\<rparr>, c)
      else Inl OutOfBounds)"

definition updateWorldTable :: "generalState \<Rightarrow> Map_t \<Rightarrow> (generalState \<times> Map_t) res" where
  "updateWorldTable s mp =
     rbind (ht_find s (m_var mp)) (\<lambda>found.
     rbind (case found of Some i \<Rightarrow> Inr (s, i)
            | None \<Rightarrow> rbind (wtEntryInit (m_var mp) s) (\<lambda>(s, i).
                      rbind (ht_insert s (m_var mp) i) (\<lambda>s. Inr (s, i)))) (\<lambda>(s, wt_entry_index).
     rbind (aread (wt_entries s) wt_entry_index) (\<lambda>e.
     rbind (first_index (length (rng_entries e))
              (\<lambda>i. rbind (aread (rng_entries e) i) (\<lambda>r. Inr (re_rng r = m_rng mp))) 0) (\<lambda>i.
     if i < length (rng_entries e)
     then Inr (s, mp\<lparr>wt_offset := Some wt_entry_index, rng_offset := Some i\<rparr>)
     else rbind (rngEntryInit (m_rng mp) (m_prob mp) e) (\<lambda>(e, i).
          Inr (s\<lparr>wt_entries := (wt_entries s)[wt_entry_index := e]\<rparr>,
               mp\<lparr>wt_offset := Some wt_entry_index, rng_offset := Some i\<rparr>))))))"

text \<open>The loop of \<open>advance\<close> that replaces a repeated variable by the reserved one.\<close>

definition reserve_duplicates :: "nat \<Rightarrow> Map_t list \<Rightarrow> Map_t list res" where
  "reserve_duplicates n data =
     for_upto (n - 1) (\<lambda>i data.
       fold_res (\<lambda>j data.
         rbind (aread data i) (\<lambda>mi.
         rbind (aread data j) (\<lambda>mj.
         if m_var mi = m_var mj
         then awrite data j (mj\<lparr>m_var := RESERVED_VAR, m_rng := RNG_FOR_RESERVED_VAR, m_prob := 1\<rparr>)
         else Inr data))) [Suc i..<n] data) data"

definition advance :: "nat \<Rightarrow> lineage \<Rightarrow> generalState \<Rightarrow> WSD \<Rightarrow> (lineage \<times> generalState) res" where
  "advance n l s wsd =
     (let (l, s) = (if S l = None then genStateInit l s else (l, s));
          l = (if NUM_WSDS l \<ge> current_size l - 1 then l\<lparr>current_size := current_size l * 2\<rparr> else l)
      in if NUM_WSDS l \<ge> current_size l then Inl OutOfBounds
         else
           rbind (reserve_duplicates n (d_data wsd)) (\<lambda>data.
           rbind (for_upto n (\<lambda>j (data, p, s).
               rbind (aread data j) (\<lambda>mp.
               rbind (updateWorldTable s mp) (\<lambda>(s, mp').
               rbind (awrite data j mp') (\<lambda>data. Inr (data, p * m_prob mp, s)))))
             (data, d_prob wsd, s)) (\<lambda>(data, p, s).
           rbind (deref (S l)) (\<lambda>ws.
           Inr (l\<lparr>S := Some (ws @ [\<lparr>d_data = data, d_prob = p\<rparr>])\<rparr>, s)))))"

text \<open>
  The macro \<open>accum(n, narg)\<close> of \<^verbatim>\<open>localcond.h\<close>: \<open>args\<close> are the \<open>n\<close> triples of condition
  columns of the tuple.
\<close>

definition accum :: "nat \<Rightarrow> (int \<times> int \<times> real) list \<Rightarrow> lineage \<Rightarrow> generalState \<Rightarrow> (lineage \<times> generalState) res" where
  "accum n args l s =
     (let l = l\<lparr>groupcxt := True, WSD_LEN := n\<rparr> in
      rbind (for_upto n (\<lambda>j data. rbind (aread args j) (\<lambda>(v, r, p). Inr (data @ [create_map v r 0 p]))) [])
        (\<lambda>data. advance n l s \<lparr>d_data = data, d_prob = 1\<rparr>))"

definition missing_rng :: "worldTableEntry \<Rightarrow> worldTableEntry res" where
  "missing_rng e =
     (let max0 = (case rng_entries e of [] \<Rightarrow> 0 | r # _ \<Rightarrow> re_rng r);
          (sum, mx) = fold (\<lambda>r (sum, mx). (sum + re_p r, if re_rng r > mx then re_rng r else mx))
                        (rng_entries e) (0, max0)
      in if sum - 1 > 1 / 100 then Inl (Elog ''The sum of probabilities for variable exceeds 1!'')
         else if sum < 1 then rbind (rngEntryInit (wrap32 (mx + 1)) (1 - sum) e) (\<lambda>(e, _). Inr e)
         else Inr e)"

definition getMissingRngs :: "generalState \<Rightarrow> generalState res" where
  "getMissingRngs s =
     for_upto (length (wt_entries s)) (\<lambda>i s.
       rbind (aread (wt_entries s) i) (\<lambda>e.
       rbind (missing_rng e) (\<lambda>e'.
       Inr (s\<lparr>wt_entries := (wt_entries s)[i := e']\<rparr>)))) s"

definition entry_pointers :: "generalState \<Rightarrow> Map_t \<Rightarrow> Map_t res" where
  "entry_pointers s mp =
     rbind (deref (wt_offset mp)) (\<lambda>k.
     rbind (aread (wt_entries s) k) (\<lambda>e.
     rbind (deref (rng_offset mp)) (\<lambda>j.
     Inr (mp\<lparr>wt_entry := Some k, rng_entry := Some (k, j)\<rparr>))))"

definition computeEntryPointers :: "nat \<Rightarrow> generalState \<Rightarrow> WSD list \<Rightarrow> WSD list res" where
  "computeEntryPointers wsd_len s ws =
     for_upto (length ws) (\<lambda>i ws.
       for_upto wsd_len (\<lambda>k ws.
         rbind (aread ws i) (\<lambda>d.
         rbind (aread (d_data d) k) (\<lambda>mp.
         rbind (entry_pointers s mp) (\<lambda>mp'.
         Inr (ws[i := d\<lparr>d_data := (d_data d)[k := mp']\<rparr>]))))) ws) ws"

definition resetCount :: "generalState \<Rightarrow> generalState" where
  "resetCount s = s\<lparr>wt_entries :=
     map (\<lambda>e. e\<lparr>rng_entries := map (\<lambda>r. r\<lparr>re_count := 0\<rparr>) (rng_entries e)\<rparr>) (wt_entries s)\<rparr>"

section \<open>The world table invariant\<close>

text \<open>
  \<open>P v r\<close> is the probability the database gives to the assignment of \<open>r\<close> to \<open>v\<close>. The
  table lists every variable once, under the number the hash table has for it, with
  distinct range values that carry their probabilities.
\<close>

definition entry_ok :: "(int \<Rightarrow> int \<Rightarrow> real) \<Rightarrow> worldTableEntry \<Rightarrow> bool" where
  "entry_ok P e \<longleftrightarrow> distinct (map re_rng (rng_entries e)) \<and> length (rng_entries e) < rng_entry_max e \<and>
     (\<forall>r \<in> set (rng_entries e). re_p r = P (we_var e) (re_rng r) \<and> 0 \<le> re_rng r \<and> re_rng r < 2 ^ 31)"

definition wt_vars :: "generalState \<Rightarrow> int list" where
  "wt_vars s = map we_var (wt_entries s)"

definition wt_inv :: "(int \<Rightarrow> int \<Rightarrow> real) \<Rightarrow> generalState \<Rightarrow> bool" where
  "wt_inv P s \<longleftrightarrow> ht.listed s (wt_vars s) \<and> gs_nbits s = INIT_NBITS \<and>
     length (wt_entries s) < wt_entry_max s \<and> (\<forall>e \<in> set (wt_entries s). entry_ok P e)"

text \<open>The variables of a lineage for which the hash table never has to split a bucket.\<close>

definition fits :: "int set \<Rightarrow> bool" where
  "fits V \<longleftrightarrow> finite V \<and>
     (\<forall>v \<in> V. card {w \<in> V. hash INIT_NBITS w = hash INIT_NBITS v} \<le> LIST_INIT_SIZE)"

definition wt_le :: "generalState \<Rightarrow> generalState \<Rightarrow> bool" where
  "wt_le s t \<longleftrightarrow> length (wt_entries s) \<le> length (wt_entries t) \<and>
     (\<forall>k < length (wt_entries s). we_var (wt_entries t ! k) = we_var (wt_entries s ! k) \<and>
        (\<exists>rs. rng_entries (wt_entries t ! k) = rng_entries (wt_entries s ! k) @ rs))"

text \<open>The offsets of a map lead to its variable and range value.\<close>

definition map_at :: "generalState \<Rightarrow> Map_t \<Rightarrow> bool" where
  "map_at s mp \<longleftrightarrow> (\<exists>k j. wt_offset mp = Some k \<and> rng_offset mp = Some j \<and> k < length (wt_entries s) \<and>
     we_var (wt_entries s ! k) = m_var mp \<and> j < length (rng_entries (wt_entries s ! k)) \<and>
     re_rng (rng_entries (wt_entries s ! k) ! j) = m_rng mp)"

definition lit_ok :: "(int \<Rightarrow> int \<Rightarrow> real) \<Rightarrow> Map_t \<Rightarrow> bool" where
  "lit_ok P mp \<longleftrightarrow> m_prob mp = P (m_var mp) (m_rng mp) \<and> 0 \<le> m_rng mp \<and> m_rng mp < 2 ^ 31"

lemma wt_le_refl [simp]: "wt_le s s"
  by (simp add: wt_le_def)

lemma wt_le_trans:
  assumes "wt_le s t" "wt_le t u"
  shows "wt_le s u"
  unfolding wt_le_def
proof (intro conjI allI impI)
  show "length (wt_entries s) \<le> length (wt_entries u)" using assms by (auto simp: wt_le_def)
next
  fix k assume "k < length (wt_entries s)"
  moreover from this have "k < length (wt_entries t)" using assms(1) by (auto simp: wt_le_def)
  ultimately obtain rs rs' where "rng_entries (wt_entries t ! k) = rng_entries (wt_entries s ! k) @ rs"
    "rng_entries (wt_entries u ! k) = rng_entries (wt_entries t ! k) @ rs'"
    "we_var (wt_entries t ! k) = we_var (wt_entries s ! k)" "we_var (wt_entries u ! k) = we_var (wt_entries t ! k)"
    using assms unfolding wt_le_def by blast
  then show "we_var (wt_entries u ! k) = we_var (wt_entries s ! k)"
    and "\<exists>rs. rng_entries (wt_entries u ! k) = rng_entries (wt_entries s ! k) @ rs" by simp_all
qed

lemma map_at_mono:
  assumes "map_at s mp" "wt_le s t"
  shows "map_at t mp"
proof -
  obtain k j where kj: "wt_offset mp = Some k" "rng_offset mp = Some j" "k < length (wt_entries s)"
    "we_var (wt_entries s ! k) = m_var mp" "j < length (rng_entries (wt_entries s ! k))"
    "re_rng (rng_entries (wt_entries s ! k) ! j) = m_rng mp" using assms(1) by (auto simp: map_at_def)
  moreover obtain rs where "we_var (wt_entries t ! k) = we_var (wt_entries s ! k)" "k < length (wt_entries t)"
    "rng_entries (wt_entries t ! k) = rng_entries (wt_entries s ! k) @ rs"
    using assms(2) kj(3) by (auto simp: wt_le_def)
  ultimately show ?thesis by (simp add: map_at_def nth_append)
qed

lemma wt_inv_init: "wt_inv P (snd (genStateInit l s))" "wt_vars (snd (genStateInit l s)) = []"
proof -
  have "8 * 2 ^ INIT_NBITS \<le> MaxAllocSize" by (simp add: INIT_NBITS_def MaxAllocSize_def)
  then have "ht_inv (snd (genStateInit l s)) \<and> ht_lookup (snd (genStateInit l s)) = Map.empty"
    by (auto simp: genStateInit_def ht_inv_def slot_ok_def ht_lookup_def)
  then show "wt_inv P (snd (genStateInit l s))" "wt_vars (snd (genStateInit l s)) = []"
    by (auto simp: wt_inv_def ht.listed_def wt_vars_def genStateInit_def WTINITSIZE_def)
qed

section \<open>Entering a map\<close>

lemma find_or_insert_ok:
  assumes inv: "wt_inv P s" and V: "fits V" "v \<in> V" "set (wt_vars s) \<subseteq> V"
  shows "ok (rbind (ht_find s v) (\<lambda>found. case found of Some i \<Rightarrow> Inr (s, i)
            | None \<Rightarrow> rbind (wtEntryInit v s) (\<lambda>(s, i). rbind (ht_insert s v i) (\<lambda>s. Inr (s, i)))))
    (\<lambda>(t, k). ht.listed t (wt_vars t) \<and> gs_nbits t = INIT_NBITS \<and> length (wt_entries t) < wt_entry_max t \<and>
      k < length (wt_entries t) \<and> we_var (wt_entries t ! k) = v \<and>
      (t = s \<or> wt_entries t = wt_entries s @ [new_entry v]))"
proof (cases "index_of (wt_vars s) v")
  case (Some k)
  then have "k < length (wt_entries s)" "we_var (wt_entries s ! k) = v"
    using index_of_Some [OF Some] by (auto simp: wt_vars_def)
  moreover have "ht_find s v = Inr (Some k)"
    using inv Some ht.find_listed [of s "wt_vars s" v] by (simp add: wt_inv_def)
  ultimately show ?thesis using inv by (simp add: wt_inv_def)
next
  case None
  then have new: "v \<notin> set (wt_vars s)" by (simp add: index_of_None)
  obtain s' where s': "wtEntryInit v s = Inr (s', length (wt_entries s))"
    and e: "wt_entries s' = wt_entries s @ [new_entry v]" "length (wt_entries s') < wt_entry_max s'"
      "gs_nbits s' = INIT_NBITS" and lk: "ht_inv s' = ht_inv s" "ht_lookup s' = ht_lookup s"
    using inv by (auto simp: wtEntryInit_def Let_def wt_inv_def)
  have l: "ht.listed s' (wt_vars s)" using inv lk by (simp add: wt_inv_def ht.listed_def)
  have "card {w \<in> set (wt_vars s). hash INIT_NBITS w = hash INIT_NBITS v} <
      card {w \<in> V. hash INIT_NBITS w = hash INIT_NBITS v}"
    using V new by (intro psubset_card_mono) (auto simp: fits_def)
  then have "ht_room s' v" using V e(3) l by (auto simp: ht_room_def fits_def ht.listed_def)
  moreover have "finite (dom (ht_lookup s'))" "ht_inv s'" "ht_lookup s' v = None"
    using l new by (simp_all add: ht.listed_def index_of_None)
  ultimately obtain t where t: "ht_insert s' v (length (wt_vars s)) = Inr t" "gs_nbits t = INIT_NBITS"
    using ht_insert_room [of s' v "length (wt_vars s)"] by (auto elim!: ok_E)
  have f: "wt_entries t = wt_entries s'" "wt_entry_max t = wt_entry_max s'"
    using ht_insert_frame [OF t(1)] by (simp_all add: ht_frame_def)
  have "ht.listed t (wt_vars s @ [v])" by (rule ht.insert_listed [OF l new t(1)])
  moreover have "wt_vars t = wt_vars s @ [v]" by (simp add: wt_vars_def f e new_entry_def)
  moreover have "ht_find s v = Inr None"
    using inv None ht.find_listed [of s "wt_vars s" v] by (simp add: wt_inv_def)
  ultimately show ?thesis using s' t e f
    by (simp add: wt_vars_def nth_append new_entry_def)
qed

lemma rngEntryInit_ok:
  assumes "length (rng_entries e) < rng_entry_max e"
  shows "ok (rngEntryInit r p e) (\<lambda>(e', i). i = length (rng_entries e) \<and> we_var e' = we_var e \<and>
    rng_entries e' = rng_entries e @ [\<lparr>re_rng = r, re_p = p, re_count = 0\<rparr>] \<and>
    length (rng_entries e') < rng_entry_max e')"
  using assms by (simp add: rngEntryInit_def Let_def)

lemma updateWorldTable_ok:
  assumes inv: "wt_inv P s" and V: "fits V" "m_var mp \<in> V" "set (wt_vars s) \<subseteq> V" and lit: "lit_ok P mp"
  shows "ok (updateWorldTable s mp) (\<lambda>(t, mp'). wt_inv P t \<and> set (wt_vars t) \<subseteq> V \<and> wt_le s t \<and> map_at t mp' \<and>
    mp' = mp\<lparr>wt_offset := wt_offset mp', rng_offset := rng_offset mp'\<rparr>)"
proof -
  from find_or_insert_ok [OF inv V] obtain t k where tk:
    "rbind (ht_find s (m_var mp)) (\<lambda>found. case found of Some i \<Rightarrow> Inr (s, i)
        | None \<Rightarrow> rbind (wtEntryInit (m_var mp) s) (\<lambda>(s, i). rbind (ht_insert s (m_var mp) i) (\<lambda>s. Inr (s, i)))) = Inr (t, k)"
    and t: "ht.listed t (wt_vars t)" "gs_nbits t = INIT_NBITS" "length (wt_entries t) < wt_entry_max t"
    and k: "k < length (wt_entries t)" "we_var (wt_entries t ! k) = m_var mp"
    and e: "t = s \<or> wt_entries t = wt_entries s @ [new_entry (m_var mp)]" by (auto elim!: ok_E)
  let ?e = "wt_entries t ! k"
  have le: "wt_le s t" using e by (auto simp: wt_le_def nth_append)
  have ok: "\<forall>e \<in> set (wt_entries t). entry_ok P e"
    using e inv by (auto simp: wt_inv_def entry_ok_def new_entry_def RNGENTRYSIZE_def)
  have tV: "set (wt_vars t) \<subseteq> V" 
  proof -
    have "wt_vars t = wt_vars s \<or> wt_vars t = wt_vars s @ [m_var mp]" using e by (auto simp: wt_vars_def new_entry_def)
    then show ?thesis using V(2,3) by auto
  qed
  have eo: "entry_ok P ?e" using ok k(1) by simp
  have eq: "updateWorldTable s mp = rbind (first_index (length (rng_entries ?e))
        (\<lambda>i. rbind (aread (rng_entries ?e) i) (\<lambda>r. Inr (re_rng r = m_rng mp))) 0) (\<lambda>i.
      if i < length (rng_entries ?e)
      then Inr (t, mp\<lparr>wt_offset := Some k, rng_offset := Some i\<rparr>)
      else rbind (rngEntryInit (m_rng mp) (m_prob mp) ?e) (\<lambda>(e, i).
           Inr (t\<lparr>wt_entries := (wt_entries t)[k := e]\<rparr>, mp\<lparr>wt_offset := Some k, rng_offset := Some i\<rparr>)))"
    using tk k(1) unfolding updateWorldTable_def by (subst rbind_assoc [symmetric]) simp
  obtain i where i: "first_index (length (rng_entries ?e))
        (\<lambda>i. rbind (aread (rng_entries ?e) i) (\<lambda>r. Inr (re_rng r = m_rng mp))) 0 = Inr i"
    "\<forall>j<i. re_rng (rng_entries ?e ! j) \<noteq> m_rng mp" "i \<le> length (rng_entries ?e)"
    "i < length (rng_entries ?e) \<Longrightarrow> re_rng (rng_entries ?e ! i) = m_rng mp"
    using first_index_list [OF order_refl, of "rng_entries ?e" "\<lambda>r. re_rng r = m_rng mp"]
    by (auto elim!: ok_E)
  show ?thesis
  proof (cases "i < length (rng_entries ?e)")
    case True
    then show ?thesis unfolding eq using i t k ok le tV by (auto simp: wt_inv_def map_at_def)
  next
    case False
    then have new: "m_rng mp \<notin> re_rng ` set (rng_entries ?e)" using i(2,3) by (auto simp: in_set_conv_nth)
    obtain e' where e': "rngEntryInit (m_rng mp) (m_prob mp) ?e = Inr (e', length (rng_entries ?e))"
      "we_var e' = we_var ?e" "rng_entries e' = rng_entries ?e @ [\<lparr>re_rng = m_rng mp, re_p = m_prob mp, re_count = 0\<rparr>]"
      "length (rng_entries e') < rng_entry_max e'"
      using rngEntryInit_ok [of ?e "m_rng mp" "m_prob mp"] eo by (auto simp: entry_ok_def elim!: ok_E)
    let ?t = "t\<lparr>wt_entries := (wt_entries t)[k := e']\<rparr>"
    have vars: "wt_vars ?t = wt_vars t"
      using k e'(2) by (simp add: wt_vars_def map_update) (metis list_update_id map_update nth_map)
    have "entry_ok P e'" using eo new lit e' k(2) by (auto simp: entry_ok_def lit_ok_def)
    then have "wt_inv P ?t" using t ok vars set_update_subset_insert [of "wt_entries t" k e']
      by (auto simp: wt_inv_def ht.listed_def)
    moreover have "wt_le t ?t" using e' k(1) by (auto simp: wt_le_def nth_list_update)
    moreover have "map_at ?t (mp\<lparr>wt_offset := Some k, rng_offset := Some (length (rng_entries ?e))\<rparr>)"
      using e' k by (simp add: map_at_def)
    ultimately show ?thesis unfolding eq using i(1) False e'(1) le tV vars by (auto intro: wt_le_trans)
  qed
qed

section \<open>Repeated variables\<close>

definition reserved :: "Map_t \<Rightarrow> Map_t" where
  "reserved mp = mp\<lparr>m_var := RESERVED_VAR, m_rng := RNG_FOR_RESERVED_VAR, m_prob := 1\<rparr>"

definition dedup_at :: "Map_t list \<Rightarrow> nat \<Rightarrow> nat \<Rightarrow> Map_t" where
  "dedup_at data i j = (if \<exists>i' < min i j. m_var (data ! i') = m_var (data ! j) then reserved (data ! j) else data ! j)"

text \<open>
  Every map whose variable occurs earlier in the clause becomes the reserved map and all
  others stay; the clause of a reserved variable must be the reserved map already.
\<close>

lemma reserve_duplicates_ok:
  assumes n: "length data = n" and res: "\<And>j. j < n \<Longrightarrow> m_var (data ! j) = RESERVED_VAR \<Longrightarrow> reserved (data ! j) = data ! j"
  shows "reserve_duplicates n data = Inr (map (dedup_at data n) [0..<n])"
proof -
  let ?I = "\<lambda>i d. length d = n \<and> (\<forall>j<n. d ! j = dedup_at data i j)"
  let ?J = "\<lambda>i k d. length d = n \<and> (\<forall>j<n. d ! j = dedup_at data (if j < k then Suc i else i) j)"
  have [simp]: "m_var (reserved m) = RESERVED_VAR" "reserved (reserved m) = reserved m" for m
    by (simp_all add: reserved_def)
  have "ok (reserve_duplicates n data) (?I (n - 1))"
    unfolding reserve_duplicates_def
  proof (rule ok_for_upto [where I = ?I])
    show "?I 0 data" using n by (simp add: dedup_at_def)
  next
    fix i d assume i: "i < n - 1" and I: "?I i d"
    have "ok (fold_res (\<lambda>j data. rbind (aread data i) (\<lambda>mi. rbind (aread data j) (\<lambda>mj.
         if m_var mi = m_var mj
         then awrite data j (mj\<lparr>m_var := RESERVED_VAR, m_rng := RNG_FOR_RESERVED_VAR, m_prob := 1\<rparr>)
         else Inr data))) [Suc i..<n] d) (?J i n)"
    proof (rule ok_fold_upt [where I = "?J i"])
      show "Suc i \<le> n" using i by simp
      show "?J i (Suc i) d" using I by (auto simp: dedup_at_def less_Suc_eq)
    next
      fix j d assume j: "Suc i \<le> j" "j < n" and J: "?J i j d"
      have di: "d ! i = dedup_at data i i" and dj: "d ! j = dedup_at data i j"
        using J i j by (auto simp: dedup_at_def less_Suc_eq)
      have r: "m_var (data ! i) = RESERVED_VAR \<Longrightarrow> reserved (data ! i) = data ! i"
        "m_var (data ! j) = RESERVED_VAR \<Longrightarrow> reserved (data ! j) = data ! j" using res i j by auto
      have "(if m_var (d ! i) = m_var (d ! j) then reserved (d ! j) else d ! j) = dedup_at data (Suc i) j"
        unfolding di dj using j r
        by (auto simp: dedup_at_def less_Suc_eq min_def not_le)
      then show "ok (rbind (aread d i) (\<lambda>mi. rbind (aread d j) (\<lambda>mj.
         if m_var mi = m_var mj
         then awrite d j (mj\<lparr>m_var := RESERVED_VAR, m_rng := RNG_FOR_RESERVED_VAR, m_prob := 1\<rparr>)
         else Inr d))) (?J i (Suc j))"
        using J i j unfolding reserved_def [symmetric] by (auto simp: nth_list_update less_Suc_eq)
    qed
    then show "ok (fold_res (\<lambda>j data. rbind (aread data i) (\<lambda>mi. rbind (aread data j) (\<lambda>mj.
         if m_var mi = m_var mj
         then awrite data j (mj\<lparr>m_var := RESERVED_VAR, m_rng := RNG_FOR_RESERVED_VAR, m_prob := 1\<rparr>)
         else Inr data))) [Suc i..<n] d) (?I (Suc i))" by (rule ok_mono) auto
  qed
  moreover have "dedup_at data (n - 1) j = dedup_at data n j" if "j < n" for j
  proof -
    have "min (n - 1) j = min n j" using that by simp
    then show ?thesis by (simp only: dedup_at_def)
  qed
  ultimately show ?thesis by (auto simp: ok_def intro!: nth_equalityI)
qed

lemma reserve_duplicates_distinct:
  assumes "length data = n" "distinct (map m_var data)"
    "\<And>mp. mp \<in> set data \<Longrightarrow> m_var mp = RESERVED_VAR \<Longrightarrow> reserved mp = mp"
  shows "reserve_duplicates n data = Inr data"
proof -
  have "dedup_at data n j = data ! j" if "j < n" for j
  proof -
    have "m_var (data ! i) \<noteq> m_var (data ! j)" if "i < j" for i
      using distinct_map_nth_eq [OF assms(2), of i j] that \<open>j < n\<close> assms(1) by auto
    then show ?thesis by (auto simp: dedup_at_def)
  qed
  then have "map (dedup_at data n) [0..<n] = data" using assms(1) by (auto intro: nth_equalityI)
  then show ?thesis using reserve_duplicates_ok [OF assms(1)] assms(1,3) by simp
qed

section \<open>Adding a clause\<close>

text \<open>
  The lineage invariant: every stored descriptor has \<open>WSD_LEN\<close> maps that the world table
  holds and its probability is the product of theirs.
\<close>

definition wsd_ok :: "nat \<Rightarrow> generalState \<Rightarrow> WSD \<Rightarrow> bool" where
  "wsd_ok n s d \<longleftrightarrow> length (d_data d) = n \<and> (\<forall>mp \<in> set (d_data d). map_at s mp) \<and>
     d_prob d = prod_list (map m_prob (d_data d))"

text \<open>The clause a descriptor stands for.\<close>

definition lits_of :: "WSD \<Rightarrow> lit list" where
  "lits_of d = map (\<lambda>mp. (m_var mp, m_rng mp, m_prob mp)) (d_data d)"

definition lin_inv :: "(int \<Rightarrow> int \<Rightarrow> real) \<Rightarrow> nat \<Rightarrow> int set \<Rightarrow> lit list list \<Rightarrow> lineage \<times> generalState \<Rightarrow> bool" where
  "lin_inv P n V cs = (\<lambda>(l, s). wt_inv P s \<and> set (wt_vars s) \<subseteq> V \<and> groupcxt l \<and> WSD_LEN l = n \<and>
     (\<exists>ws. S l = Some ws \<and> length ws < current_size l \<and> 2 \<le> current_size l \<and>
        map lits_of ws = cs \<and> (\<forall>d \<in> set ws. wsd_ok n s d)))"

definition clause_ok :: "(int \<Rightarrow> int \<Rightarrow> real) \<Rightarrow> nat \<Rightarrow> int set \<Rightarrow> lit list \<Rightarrow> bool" where
  "clause_ok P n V c \<longleftrightarrow> length c = n \<and> distinct (map fst c) \<and>
     (\<forall>(v, r, p) \<in> set c. v \<in> V \<and> p = P v r \<and> 0 \<le> r \<and> r < 2 ^ 31 \<and>
        (v = RESERVED_VAR \<longrightarrow> r = RNG_FOR_RESERVED_VAR \<and> p = 1))"

lemma wsd_ok_mono: "wsd_ok n s d \<Longrightarrow> wt_le s t \<Longrightarrow> wsd_ok n t d"
  by (auto simp: wsd_ok_def intro: map_at_mono)

text \<open>The loop over the maps of the new descriptor.\<close>

definition adv_inv :: "(int \<Rightarrow> int \<Rightarrow> real) \<Rightarrow> int set \<Rightarrow> generalState \<Rightarrow> Map_t list \<Rightarrow> real \<Rightarrow> nat \<Rightarrow>
    Map_t list \<times> real \<times> generalState \<Rightarrow> bool" where
  "adv_inv P V s data p k = (\<lambda>(d, q, t). wt_inv P t \<and> set (wt_vars t) \<subseteq> V \<and> wt_le s t \<and> length d = length data \<and>
     q = p * prod_list (map m_prob (take k data)) \<and>
     (\<forall>j < length data. d ! j = (data ! j)\<lparr>wt_offset := wt_offset (d ! j), rng_offset := rng_offset (d ! j)\<rparr> \<and>
        (if j < k then map_at t (d ! j) else d ! j = data ! j)))"

lemma adv_step:
  assumes I: "adv_inv P V s data p k (d, q, t)" and k: "k < length data" and V: "fits V"
    and lit: "\<And>mp. mp \<in> set data \<Longrightarrow> lit_ok P mp \<and> m_var mp \<in> V"
  shows "ok (rbind (aread d k) (\<lambda>mp. rbind (updateWorldTable t mp) (\<lambda>(s, mp').
      rbind (awrite d k mp') (\<lambda>data. Inr (data, q * m_prob mp, s))))) (adv_inv P V s data p (Suc k))"
proof -
  have dk: "d ! k = data ! k" "k < length d" and inv: "wt_inv P t" "set (wt_vars t) \<subseteq> V"
    using I k by (auto simp: adv_inv_def)
  have "lit_ok P (data ! k)" "m_var (data ! k) \<in> V" using lit k by auto
  then obtain u mp' where u: "updateWorldTable t (data ! k) = Inr (u, mp')" "wt_inv P u" "set (wt_vars u) \<subseteq> V"
    "wt_le t u" "map_at u mp'" "mp' = (data ! k)\<lparr>wt_offset := wt_offset mp', rng_offset := rng_offset mp'\<rparr>"
    using updateWorldTable_ok [OF inv(1) V _ inv(2), of "data ! k"] by (auto elim!: ok_E)
  have "adv_inv P V s data p (Suc k) (d[k := mp'], q * m_prob (data ! k), u)"
    using I u k wt_le_trans [of s t u] map_at_mono [OF _ u(4)]
    by (auto simp: adv_inv_def nth_list_update take_Suc_conv_app_nth less_Suc_eq)
  then show ?thesis using dk u(1) by simp
qed

lemma advance_ok:
  assumes inv: "S l \<noteq> None \<Longrightarrow> lin_inv P n V cs (l, s)" and new: "S l = None \<Longrightarrow> cs = []"
    and l: "groupcxt l" "WSD_LEN l = n" and V: "fits V"
    and c: "clause_ok P n V c" and w: "data = map (\<lambda>(v, r, p). create_map v r 0 p) c"
  shows "ok (advance n l s \<lparr>d_data = data, d_prob = 1\<rparr>) (lin_inv P n V (cs @ [c]))"
proof -
  obtain l0 s0 ws where i: "(if S l = None then genStateInit l s else (l, s)) = (l0, s0)" "S l0 = Some ws"
    and I: "lin_inv P n V cs (l0, s0)"
  proof (cases "S l")
    case None
    then have "lin_inv P n V cs (genStateInit l s)"
      using new l wt_inv_init(1) [of P l s] wt_inv_init(2) [of l s] by (auto simp: lin_inv_def genStateInit_def)
    with None that show ?thesis by (auto simp: genStateInit_def)
  next
    case (Some ws)
    with inv that show ?thesis by auto
  qed
  define l1 where "l1 = (if NUM_WSDS l0 \<ge> current_size l0 - 1 then l0\<lparr>current_size := current_size l0 * 2\<rparr> else l0)"
  have l1: "S l1 = Some ws" "Suc (length ws) < current_size l1" "2 \<le> current_size l1" "groupcxt l1" "WSD_LEN l1 = n"
    using i(2) I by (auto simp: l1_def NUM_WSDS_def lin_inv_def)
  have len: "length data = n" using c w by (simp add: clause_ok_def)
  have vars: "map m_var data = map fst c" by (auto simp: w create_map_def)
  have lits: "lit_ok P mp \<and> m_var mp \<in> V \<and> (m_var mp = RESERVED_VAR \<longrightarrow> reserved mp = mp)" if "mp \<in> set data" for mp
    using that c by (fastforce simp: w clause_ok_def lit_ok_def create_map_def reserved_def)
  have dd: "reserve_duplicates n data = Inr data"
    using reserve_duplicates_distinct [OF len] c vars lits by (simp add: clause_ok_def)
  have "ok (for_upto n (\<lambda>j (data, p, s). rbind (aread data j) (\<lambda>mp. rbind (updateWorldTable s mp) (\<lambda>(s, mp').
      rbind (awrite data j mp') (\<lambda>data. Inr (data, p * m_prob mp, s))))) (data, 1, s0)) (adv_inv P V s0 data 1 n)"
  proof (rule ok_for_upto [where I = "adv_inv P V s0 data 1"])
    show "adv_inv P V s0 data 1 0 (data, 1, s0)" using I by (auto simp: adv_inv_def lin_inv_def)
  next
    fix k dqt assume "k < n" "adv_inv P V s0 data 1 k dqt"
    then show "ok ((\<lambda>(data, p, s). rbind (aread data k) (\<lambda>mp. rbind (updateWorldTable s mp) (\<lambda>(s, mp').
      rbind (awrite data k mp') (\<lambda>data. Inr (data, p * m_prob mp, s))))) dqt) (adv_inv P V s0 data 1 (Suc k))"
      using adv_step [where P = P and V = V and s = s0 and data = data and p = 1 and k = k] V lits len
      by (cases dqt) auto
  qed
  then obtain d q t where loop: "for_upto n (\<lambda>j (data, p, s). rbind (aread data j) (\<lambda>mp. rbind (updateWorldTable s mp) (\<lambda>(s, mp').
      rbind (awrite data j mp') (\<lambda>data. Inr (data, p * m_prob mp, s))))) (data, 1, s0) = Inr (d, q, t)"
    and J: "adv_inv P V s0 data 1 n (d, q, t)" by (auto elim!: ok_E)
  have dj: "d ! j = (data ! j)\<lparr>wt_offset := wt_offset (d ! j), rng_offset := rng_offset (d ! j)\<rparr>" "map_at t (d ! j)"
    if "j < n" for j using J that len by (auto simp: adv_inv_def)
  have ld: "length d = n" using J len by (auto simp: adv_inv_def)
  have same: "m_var (d ! j) = m_var (data ! j)" "m_rng (d ! j) = m_rng (data ! j)" "m_prob (d ! j) = m_prob (data ! j)"
    if "j < n" for j by (subst dj(1) [OF that], simp)+
  have "lits_of \<lparr>d_data = d, d_prob = q\<rparr> = c"
    by (rule nth_equalityI) (use same ld len c in \<open>auto simp: lits_of_def w clause_ok_def create_map_def split: prod.splits\<close>)
  moreover have "map m_prob d = map m_prob data" by (rule nth_equalityI) (use same ld len in auto)
  then have "wsd_ok n t \<lparr>d_data = d, d_prob = q\<rparr>"
    using J len ld dj(2) by (auto simp: wsd_ok_def adv_inv_def in_set_conv_nth)
  moreover have "\<forall>w \<in> set ws. wsd_ok n t w" "map lits_of ws = cs"
    using I i(2) J wsd_ok_mono by (auto simp: lin_inv_def adv_inv_def)
  ultimately have "lin_inv P n V (cs @ [c]) (l1\<lparr>S := Some (ws @ [\<lparr>d_data = d, d_prob = q\<rparr>])\<rparr>, t)"
    using l1 J by (auto simp: lin_inv_def adv_inv_def)
  moreover have "advance n l s \<lparr>d_data = data, d_prob = 1\<rparr> =
      Inr (l1\<lparr>S := Some (ws @ [\<lparr>d_data = d, d_prob = q\<rparr>])\<rparr>, t)"
    unfolding advance_def i(1) Let_def prod.case l1_def [symmetric] using dd loop l1 by (simp add: NUM_WSDS_def)
  ultimately show ?thesis by simp
qed

text \<open>The loop that builds the maps of a clause from its triples.\<close>

lemma create_maps:
  "for_upto (length c) (\<lambda>j data. rbind (aread c j) (\<lambda>(v, r, p). Inr (data @ [create_map v r 0 p]))) [] =
    Inr (map (\<lambda>(v, r, p). create_map v r 0 p) c)"
proof -
  have "ok (for_upto (length c) (\<lambda>j data. rbind (aread c j) (\<lambda>(v, r, p). Inr (data @ [create_map v r 0 p]))) [])
      (\<lambda>d. d = map (\<lambda>(v, r, p). create_map v r 0 p) (take (length c) c))"
    by (rule ok_for_upto [where I = "\<lambda>k d. d = map (\<lambda>(v, r, p). create_map v r 0 p) (take k c)"])
      (auto simp: take_Suc_conv_app_nth split: prod.splits)
  then show ?thesis by (auto simp: ok_def)
qed

lemma accum_ok:
  assumes inv: "S l \<noteq> None \<Longrightarrow> lin_inv P n V cs (l, s)" and new: "S l = None \<Longrightarrow> cs = []"
    and V: "fits V" and c: "clause_ok P n V c"
  shows "ok (accum n c l s) (lin_inv P n V (cs @ [c]))"
proof -
  have "length c = n" using c by (simp add: clause_ok_def)
  then have "for_upto n (\<lambda>j data. rbind (aread c j) (\<lambda>(v, r, p). Inr (data @ [create_map v r 0 p]))) [] =
      Inr (map (\<lambda>(v, r, p). create_map v r 0 p) c)" using create_maps [of c] by simp
  moreover have "S l \<noteq> None \<Longrightarrow> lin_inv P n V cs (l\<lparr>groupcxt := True, WSD_LEN := n\<rparr>, s)"
    using inv by (auto simp: lin_inv_def)
  ultimately show ?thesis
    using advance_ok [of "l\<lparr>groupcxt := True, WSD_LEN := n\<rparr>" P n V cs s c] new V c
    by (auto simp: accum_def Let_def elim!: ok_mono)
qed

text \<open>The transition steps of a group of tuples.\<close>

definition accum_all :: "nat \<Rightarrow> lit list list \<Rightarrow> lineage \<times> generalState \<Rightarrow> (lineage \<times> generalState) res" where
  "accum_all n cs st = fold_res (\<lambda>c (l, s). accum n c l s) cs st"

lemma accum_all_ok:
  assumes "S l = None" "fits V" "\<forall>c \<in> set cs. clause_ok P n V c" "cs \<noteq> []"
  shows "ok (accum_all n cs (l, s)) (lin_inv P n V cs)"
proof -
  have "ok (accum_all n cs (l, s)) (\<lambda>st. if cs = [] then S (fst st) = None else lin_inv P n V cs st)"
    unfolding accum_all_def
  proof (rule ok_fold_res [where I = "\<lambda>ds st. if ds = [] then S (fst st) = None else lin_inv P n V ds st"])
    show "if [] = [] then S (fst (l, s)) = None else lin_inv P n V [] (l, s)" using assms(1) by simp
  next
    fix xs x ys st
    assume cs: "cs = xs @ x # ys" and I: "if xs = [] then S (fst st) = None else lin_inv P n V xs st"
    obtain l' s' where st: "st = (l', s')" by (cases st)
    have "ok (accum n x l' s') (lin_inv P n V (xs @ [x]))"
      by (rule accum_ok) (use I st cs assms in \<open>auto simp: lin_inv_def split: if_splits\<close>)
    then show "ok ((\<lambda>(l, s). accum n x l s) st)
      (\<lambda>st. if xs @ [x] = [] then S (fst st) = None else lin_inv P n V (xs @ [x]) st)" using st by simp
  qed
  then show ?thesis using assms(4) by simp
qed

section \<open>Completing the world table\<close>

definition wt_dist :: "generalState \<Rightarrow> wtable" where
  "wt_dist s = map (\<lambda>e. (we_var e, map (\<lambda>r. (re_rng r, re_p r)) (rng_entries e))) (wt_entries s)"

text \<open>Probabilities as the database's world table has them: no variable's range values exceed one.\<close>

definition sub_prob :: "(int \<Rightarrow> int \<Rightarrow> real) \<Rightarrow> bool" where
  "sub_prob P \<longleftrightarrow> (\<forall>v r. 0 \<le> P v r) \<and> (\<forall>v rs. distinct rs \<longrightarrow> (\<Sum>r\<leftarrow>rs. P v r) \<le> 1)"

lemma missing_fold:
  "fold (\<lambda>r (sum, mx). (sum + re_p r, if re_rng r > mx then re_rng r else mx)) rs (a, b) =
    (a + (\<Sum>r\<leftarrow>rs. re_p r), fold (\<lambda>r m. max m (re_rng r)) rs b)"
proof (induction rs arbitrary: a b)
  case (Cons r rs)
  have "(if b < re_rng r then re_rng r else b) = max b (re_rng r)" by (simp add: max_def)
  then show ?case using Cons by (simp add: add.assoc)
qed simp

lemma fold_max_ge: "r \<in> set rs \<Longrightarrow> re_rng r \<le> fold (\<lambda>r m. max m (re_rng r)) rs b"
  and fold_max_base: "b \<le> fold (\<lambda>r m. max m (re_rng r)) rs b"
proof (induction rs arbitrary: b)
  case (Cons a rs)
  { case 1 show ?case using Cons(1,2) [of "max b (re_rng a)"] 1 by auto }
  { case 2 show ?case using Cons(2) [of "max b (re_rng a)"] by auto }
qed simp_all

lemma fold_max_less: "b < c \<Longrightarrow> \<forall>r \<in> set rs. re_rng r < c \<Longrightarrow> fold (\<lambda>r m. max m (re_rng r)) rs b < c"
  by (induction rs arbitrary: b) auto

text \<open>The added range value is new, also when the largest range value is \<open>INT_MAX\<close>.\<close>

lemma wrap32_next:
  assumes "0 \<le> m" "m < 2 ^ 31"
  shows "wrap32 (m + 1) = (if m = 2 ^ 31 - 1 then - (2 ^ 31) else m + 1)"
proof (cases "m = 2 ^ 31 - 1")
  case True
  then show ?thesis by (simp add: wrap32_def)
qed (use assms in auto)

lemma missing_rng_ok:
  assumes e: "entry_ok P e" and P: "sub_prob P"
  shows "ok (missing_rng e) (\<lambda>e'. we_var e' = we_var e \<and> (\<exists>rs. rng_entries e' = rng_entries e @ rs) \<and>
    dist_ok (map (\<lambda>r. (re_rng r, re_p r)) (rng_entries e')) \<and> (\<forall>r \<in> set (rng_entries e'). re_rng r \<noteq> - 1))"
proof -
  define rs b where "rs = rng_entries e" and "b = (case rs of [] \<Rightarrow> 0 | r # _ \<Rightarrow> re_rng r)"
  define mx where "mx = fold (\<lambda>r m. max m (re_rng r)) rs b"
  define sm where "sm = (\<Sum>r\<leftarrow>rs. re_p r)"
  have rs: "distinct (map re_rng rs)" "\<And>r. r \<in> set rs \<Longrightarrow> re_p r = P (we_var e) (re_rng r) \<and> 0 \<le> re_rng r \<and> re_rng r < 2 ^ 31"
    using e by (auto simp: entry_ok_def rs_def)
  have "sm = (\<Sum>r\<leftarrow>map re_rng rs. P (we_var e) r)"
    unfolding sm_def using rs(2) by (simp add: comp_def cong: map_cong)
  then have le: "sm \<le> 1" using P rs(1) unfolding sub_prob_def by blast
  have b: "0 \<le> b" "b < 2 ^ 31" using rs(2) by (auto simp: b_def split: list.splits)
  have mx: "0 \<le> mx" "mx < 2 ^ 31" "\<And>r. r \<in> set rs \<Longrightarrow> re_rng r \<le> mx"
    using b fold_max_base [of b rs] fold_max_less [of b "2 ^ 31" rs] fold_max_ge [of _ rs b] rs(2)
    unfolding mx_def by auto
  have new: "wrap32 (mx + 1) \<notin> re_rng ` set rs"
    using wrap32_next [OF mx(1,2)] mx(3) rs(2) by (force split: if_splits)
  have nm: "wrap32 (mx + 1) \<noteq> - 1" "\<And>r. r \<in> set rs \<Longrightarrow> re_rng r \<noteq> - 1"
    using wrap32_next [OF mx(1,2)] mx(1) rs(2) by (force split: if_splits)+
  have eq: "missing_rng e = (if sm < 1 then rbind (rngEntryInit (wrap32 (mx + 1)) (1 - sm) e) (\<lambda>(e, _). Inr e) else Inr e)"
    using le by (simp add: missing_rng_def missing_fold Let_def rs_def [symmetric] sm_def [symmetric]
        b_def [symmetric] mx_def [symmetric])
  have pos: "0 \<le> re_p r" if "r \<in> set rs" for r using P rs(2) [OF that] by (simp add: sub_prob_def)
  show ?thesis
  proof (cases "sm < 1")
    case True
    have "length (rng_entries e) < rng_entry_max e" using e by (simp add: entry_ok_def)
    from rngEntryInit_ok [OF this, of "wrap32 (mx + 1)" "1 - sm"] show ?thesis
      unfolding eq using True new pos rs(1) nm
      by (auto simp: rs_def [symmetric] dist_ok_def comp_def sm_def elim!: ok_mono)
  next
    case False
    then show ?thesis unfolding eq using le pos rs(1) nm
      by (auto simp: rs_def [symmetric] dist_ok_def comp_def sm_def)
  qed
qed

definition complete_entry :: "worldTableEntry \<Rightarrow> bool" where
  "complete_entry e \<longleftrightarrow> dist_ok (map (\<lambda>r. (re_rng r, re_p r)) (rng_entries e)) \<and>
     (\<forall>r \<in> set (rng_entries e). re_rng r \<noteq> - 1)"

text \<open>
  After \<open>getMissingRngs\<close> the local world table is a family of distributions that keeps
  every entry the accumulation made.
\<close>

lemma getMissingRngs_ok:
  assumes inv: "wt_inv P s" and P: "sub_prob P"
  shows "ok (getMissingRngs s) (\<lambda>t. wt_le s t \<and> wt_ok (wt_dist t) \<and> wt_vars t = wt_vars s \<and>
    (\<forall>e \<in> set (wt_entries t). \<forall>r \<in> set (rng_entries e). re_rng r \<noteq> - 1))"
proof -
  let ?n = "length (wt_entries s)"
  let ?I = "\<lambda>k (t :: generalState). length (wt_entries t) = ?n \<and> (\<forall>i < ?n. we_var (wt_entries t ! i) = we_var (wt_entries s ! i) \<and>
    (\<exists>rs. rng_entries (wt_entries t ! i) = rng_entries (wt_entries s ! i) @ rs) \<and>
    (if i < k then complete_entry (wt_entries t ! i)
     else wt_entries t ! i = wt_entries s ! i))"
  have "ok (getMissingRngs s) (?I ?n)"
    unfolding getMissingRngs_def
  proof (rule ok_for_upto [where I = ?I])
    show "?I 0 s" by simp
  next
    fix i t assume i: "i < ?n" and I: "?I i t"
    then have ti: "wt_entries t ! i = wt_entries s ! i" by simp
    have "entry_ok P (wt_entries s ! i)" using inv i by (simp add: wt_inv_def)
    from missing_rng_ok [OF this P] obtain e' where e': "missing_rng (wt_entries s ! i) = Inr e'"
      "we_var e' = we_var (wt_entries s ! i)" "\<exists>rs. rng_entries e' = rng_entries (wt_entries s ! i) @ rs"
      "complete_entry e'" by (auto simp: complete_entry_def elim!: ok_E)
    show "ok (rbind (aread (wt_entries t) i) (\<lambda>e. rbind (missing_rng e) (\<lambda>e'.
        Inr (t\<lparr>wt_entries := (wt_entries t)[i := e']\<rparr>)))) (?I (Suc i))"
      using i I e' ti by (auto simp: nth_list_update less_Suc_eq)
  qed
  then show ?thesis
  proof (rule ok_mono)
    fix t assume I: "?I ?n t"
    then have vars: "wt_vars t = wt_vars s" by (auto simp: wt_vars_def intro: nth_equalityI)
    moreover have "map fst (wt_dist t) = wt_vars t" by (simp add: wt_dist_def wt_vars_def comp_def)
    moreover have "distinct (wt_vars s)" using inv by (simp add: wt_inv_def ht.listed_def)
    ultimately have "distinct (map fst (wt_dist t))" by simp
    moreover have ce: "complete_entry e" if "e \<in> set (wt_entries t)" for e
      using that I by (auto simp: in_set_conv_nth)
    then have "\<forall>(v, d) \<in> set (wt_dist t). dist_ok d" by (auto simp: wt_dist_def complete_entry_def)
    moreover have "wt_le s t" using I unfolding wt_le_def by simp
    ultimately show "wt_le s t \<and> wt_ok (wt_dist t) \<and> wt_vars t = wt_vars s \<and>
        (\<forall>e \<in> set (wt_entries t). \<forall>r \<in> set (rng_entries e). re_rng r \<noteq> - 1)"
      using vars ce unfolding wt_ok_def complete_entry_def by blast
  qed
qed

section \<open>Entry pointers\<close>

text \<open>The pointers of a map lead to its variable and, while the map is not dropped, to its range value.\<close>

definition ptr_ok :: "generalState \<Rightarrow> Map_t \<Rightarrow> bool" where
  "ptr_ok s mp \<longleftrightarrow> (\<exists>k j. wt_entry mp = Some k \<and> rng_entry mp = Some (k, j) \<and> k < length (wt_entries s) \<and>
     we_var (wt_entries s ! k) = m_var mp \<and> j < length (rng_entries (wt_entries s ! k)) \<and>
     re_rng (rng_entries (wt_entries s ! k) ! j) = m_rng mp)"

lemma entry_pointers_ok:
  assumes "map_at s mp"
  shows "ok (entry_pointers s mp) (\<lambda>mp'. ptr_ok s mp' \<and> m_var mp' = m_var mp \<and> m_rng mp' = m_rng mp \<and>
    m_neg mp' = m_neg mp \<and> m_prob mp' = m_prob mp)"
  using assms by (auto simp: map_at_def entry_pointers_def ptr_ok_def)

lemma computeEntryPointers_ok:
  assumes ws: "\<forall>d \<in> set ws. wsd_ok n s d"
  shows "ok (computeEntryPointers n s ws) (\<lambda>ws'. map lits_of ws' = map lits_of ws \<and> map d_prob ws' = map d_prob ws \<and>
    (\<forall>d \<in> set ws'. length (d_data d) = n \<and> (\<forall>mp \<in> set (d_data d). ptr_ok s mp)))"
proof -
  let ?same = "\<lambda>mp' mp. m_var mp' = m_var mp \<and> m_rng mp' = m_rng mp \<and> m_prob mp' = m_prob mp"
  let ?D = "\<lambda>k d' d. length (d_data d') = n \<and> d_prob d' = d_prob d \<and> (\<forall>j < n. ?same (d_data d' ! j) (d_data d ! j) \<and>
    (if j < k then ptr_ok s (d_data d' ! j) else d_data d' ! j = d_data d ! j))"
  let ?I = "\<lambda>i ws'. length ws' = length ws \<and> (\<forall>x < length ws. if x < i then ?D n (ws' ! x) (ws ! x) else ws' ! x = ws ! x)"
  let ?J = "\<lambda>i k ws'. length ws' = length ws \<and> ?D k (ws' ! i) (ws ! i) \<and>
    (\<forall>x < length ws. x \<noteq> i \<longrightarrow> (if x < i then ?D n (ws' ! x) (ws ! x) else ws' ! x = ws ! x))"
  have wlen: "length (d_data (ws ! i)) = n" "\<And>j. j < n \<Longrightarrow> map_at s (d_data (ws ! i) ! j)" if "i < length ws" for i
  proof -
    have "wsd_ok n s (ws ! i)" using ws that by simp
    then show "length (d_data (ws ! i)) = n" "\<And>j. j < n \<Longrightarrow> map_at s (d_data (ws ! i) ! j)"
      by (auto simp: wsd_ok_def)
  qed
  have "ok (computeEntryPointers n s ws) (?I (length ws))"
    unfolding computeEntryPointers_def
  proof (rule ok_for_upto [where I = ?I])
    show "?I 0 ws" by simp
  next
    fix i ws' assume i: "i < length ws" and I: "?I i ws'"
    let ?f = "\<lambda>k ws. rbind (aread ws i) (\<lambda>d. rbind (aread (d_data d) k) (\<lambda>mp. rbind (entry_pointers s mp) (\<lambda>mp'.
      Inr (ws[i := d\<lparr>d_data := (d_data d)[k := mp']\<rparr>]))))"
    have "ok (for_upto n ?f ws') (?J i n)"
    proof (rule ok_for_upto [where I = "?J i"])
      show "?J i 0 ws'" using I i wlen(1) by auto
    next
      fix k us assume k: "k < n" and J: "?J i k us"
      have "ok (entry_pointers s (d_data (us ! i) ! k)) (\<lambda>mp'. ptr_ok s mp' \<and> ?same mp' (d_data (us ! i) ! k))"
        using entry_pointers_ok [OF wlen(2) [OF i k]] J k by (auto elim: ok_mono)
      then obtain mp' where "entry_pointers s (d_data (us ! i) ! k) = Inr mp'" "ptr_ok s mp'"
        "?same mp' (d_data (us ! i) ! k)" by (rule ok_E) blast
      then show "ok (?f k us) (?J i (Suc k))" using J i k by (auto simp: nth_list_update less_Suc_eq)
    qed
    then show "ok (for_upto n ?f ws') (?I (Suc i))"
      by (rule ok_mono) (use i in \<open>auto simp: less_Suc_eq\<close>)
  qed
  then show ?thesis
  proof (rule ok_mono)
    fix ws' assume I: "?I (length ws) ws'"
    have "lits_of (ws' ! i) = lits_of (ws ! i)" if "i < length ws" for i
      using I that wlen(1) by (auto simp: lits_of_def intro!: nth_equalityI)
    then have "map lits_of ws' = map lits_of ws" using I by (auto intro: nth_equalityI)
    moreover have "map d_prob ws' = map d_prob ws" using I by (auto intro: nth_equalityI)
    ultimately show "map lits_of ws' = map lits_of ws \<and> map d_prob ws' = map d_prob ws \<and>
        (\<forall>d \<in> set ws'. length (d_data d) = n \<and> (\<forall>mp \<in> set (d_data d). ptr_ok s mp))"
      using I by (auto simp: in_set_conv_nth)
  qed
qed

section \<open>Properties\<close>

text \<open>
  C23. Entering a condition keeps the world table well formed: the table still numbers its
  variables by position and every entry keeps distinct range values with their probabilities
  and room to grow; no entry or range value moves or disappears, and the offsets stored in the
  condition lead to its variable and its range value.
\<close>

theorem updateWorldTable_invariant:
  assumes "wt_inv P s" "fits (insert (m_var mp) (set (wt_vars s)))"
    "m_prob mp = P (m_var mp) (m_rng mp)" "0 \<le> m_rng mp" "m_rng mp < 2 ^ 31"
  shows "ok (updateWorldTable s mp) (\<lambda>(t, mp'). wt_inv P t \<and> wt_le s t \<and> map_at t mp' \<and>
    set (wt_vars t) \<subseteq> insert (m_var mp) (set (wt_vars s)) \<and> lits_of \<lparr>d_data = [mp'], d_prob = p\<rparr> = [(m_var mp, m_rng mp, m_prob mp)])"
proof -
  have "ok (updateWorldTable s mp) (\<lambda>(t, mp'). wt_inv P t \<and> set (wt_vars t) \<subseteq> insert (m_var mp) (set (wt_vars s)) \<and>
      wt_le s t \<and> map_at t mp' \<and> mp' = mp\<lparr>wt_offset := wt_offset mp', rng_offset := rng_offset mp'\<rparr>)"
    by (rule updateWorldTable_ok) (use assms in \<open>auto simp: lit_ok_def\<close>)
  then obtain t mp' where r: "updateWorldTable s mp = Inr (t, mp')" "wt_inv P t"
      "set (wt_vars t) \<subseteq> insert (m_var mp) (set (wt_vars s))" "wt_le s t" "map_at t mp'"
    and e: "mp' = mp\<lparr>wt_offset := wt_offset mp', rng_offset := rng_offset mp'\<rparr>"
    by (elim ok_E) (simp only: prod.case split_paired_all)
  have "m_var mp' = m_var mp" "m_rng mp' = m_rng mp" "m_prob mp' = m_prob mp"
    using arg_cong [OF e, of m_var] arg_cong [OF e, of m_rng] arg_cong [OF e, of m_prob] by simp_all
  then show ?thesis using r by (simp add: lits_of_def)
qed

lemma fits_small: "finite V \<Longrightarrow> card V \<le> LIST_INIT_SIZE \<Longrightarrow> fits V"
proof -
  assume V: "finite V" "card V \<le> LIST_INIT_SIZE"
  have "card {w \<in> V. Q w} \<le> LIST_INIT_SIZE" for Q using card_mono [of V "{w \<in> V. Q w}"] V by auto
  then show ?thesis using V(1) by (simp add: fits_def)
qed

theorem updateWorldTable_invariant_witness:
  "ok (updateWorldTable (snd (genStateInit \<lparr>S = None, current_size = 0, WSD_LEN = 0, groupcxt = False\<rparr> (empty_table 10)))
    (create_map 7 2 0 (1/4))) (\<lambda>(t, mp'). wt_inv (\<lambda>v r. 1/4) t \<and> map_at t mp')"
proof -
  let ?s = "snd (genStateInit \<lparr>S = None, current_size = 0, WSD_LEN = 0, groupcxt = False\<rparr> (empty_table 10))"
  have "fits (insert (m_var (create_map 7 2 0 (1/4))) (set (wt_vars ?s)))"
    using wt_inv_init(2) by (intro fits_small) (simp_all add: LIST_INIT_SIZE_def)
  from updateWorldTable_invariant [OF wt_inv_init(1) this, of "\<lambda>v r. 1/4" 1] show ?thesis
    by (auto simp: create_map_def elim!: ok_mono)
qed

text \<open>
  Repeated variables in a clause: the first condition on a variable stays, every later
  condition on it becomes the reserved, always true condition.
\<close>

theorem reserve_duplicates_correct:
  assumes "length data = n" "\<And>j. j < n \<Longrightarrow> m_var (data ! j) = RESERVED_VAR \<Longrightarrow> reserved (data ! j) = data ! j"
  shows "reserve_duplicates n data = Inr (map (\<lambda>j. if \<exists>i < j. m_var (data ! i) = m_var (data ! j)
    then (data ! j)\<lparr>m_var := RESERVED_VAR, m_rng := RNG_FOR_RESERVED_VAR, m_prob := 1\<rparr> else data ! j) [0..<n])"
proof -
  have "map (dedup_at data n) [0..<n] = map (\<lambda>j. if \<exists>i < j. m_var (data ! i) = m_var (data ! j)
      then reserved (data ! j) else data ! j) [0..<n]"
    by (rule map_cong) (auto simp: dedup_at_def)
  then show ?thesis using reserve_duplicates_ok [OF assms] unfolding reserved_def by (simp only:)
qed

theorem reserve_duplicates_correct_witness:
  "reserve_duplicates 2 [create_map 3 1 0 (1/2), create_map 3 1 0 (1/2)] = Inr [create_map 3 1 0 (1/2), create_map 0 1 0 1]"
  by (subst reserve_duplicates_correct)
    (auto simp: create_map_def RESERVED_VAR_def RNG_FOR_RESERVED_VAR_def less_2_cases_iff upt_rec)

text \<open>
  C36. Two conditions of a clause that give one variable different values contradict each other, but
  \<open>advance\<close> compares the variables only. What it stores is the first condition on every variable,
  with the reserved condition in the place of each later one. The clause of the query holds in no
  world; the stored one holds in the worlds in which the first condition on every variable holds, and
  there are such worlds.
\<close>

theorem contradiction_is_lost:
  assumes "length data = n" "\<forall>mp \<in> set data. m_var mp \<noteq> RESERVED_VAR"
    "i < j" "j < n" "m_var (data ! i) = m_var (data ! j)" "m_rng (data ! i) \<noteq> m_rng (data ! j)"
  shows "\<exists>stored. reserve_duplicates n data = Inr stored \<and>
    stored = map (\<lambda>k. if \<exists>h < k. m_var (data ! h) = m_var (data ! k)
      then (data ! k)\<lparr>m_var := RESERVED_VAR, m_rng := RNG_FOR_RESERVED_VAR, m_prob := 1\<rparr> else data ! k) [0..<n] \<and>
    (\<forall>\<tau>. \<not> holds (lits_of \<lparr>d_data = data, d_prob = p\<rparr>) \<tau>) \<and>
    (\<forall>\<tau>. \<tau> RESERVED_VAR = RNG_FOR_RESERVED_VAR \<longrightarrow> (holds (lits_of \<lparr>d_data = stored, d_prob = q\<rparr>) \<tau> \<longleftrightarrow>
      (\<forall>k < n. (\<forall>h < k. m_var (data ! h) \<noteq> m_var (data ! k)) \<longrightarrow> \<tau> (m_var (data ! k)) = m_rng (data ! k)))) \<and>
    (\<exists>\<tau>. \<tau> RESERVED_VAR = RNG_FOR_RESERVED_VAR \<and> holds (lits_of \<lparr>d_data = stored, d_prob = q\<rparr>) \<tau>)"
proof -
  let ?first = "\<lambda>k. \<forall>h < k. m_var (data ! h) \<noteq> m_var (data ! k)"
  define stored where "stored = map (\<lambda>k. if \<exists>h < k. m_var (data ! h) = m_var (data ! k)
      then (data ! k)\<lparr>m_var := RESERVED_VAR, m_rng := RNG_FOR_RESERVED_VAR, m_prob := 1\<rparr> else data ! k) [0..<n]"
  have r: "reserve_duplicates n data = Inr stored"
    unfolding stored_def by (rule reserve_duplicates_correct [OF assms(1)]) (use assms(1,2) in \<open>auto simp: all_set_conv_all_nth\<close>)
  have no: "\<not> holds (lits_of \<lparr>d_data = data, d_prob = p\<rparr>) \<tau>" for \<tau>
  proof
    assume "holds (lits_of \<lparr>d_data = data, d_prob = p\<rparr>) \<tau>"
    then have "\<forall>k < n. \<tau> (m_var (data ! k)) = m_rng (data ! k)" using assms(1) by (simp add: holds_def lits_of_def all_set_conv_all_nth)
    then show False using assms(3-6) by (metis less_trans)
  qed
  have st: "holds (lits_of \<lparr>d_data = stored, d_prob = q\<rparr>) \<tau> \<longleftrightarrow> (\<forall>k < n. ?first k \<longrightarrow> \<tau> (m_var (data ! k)) = m_rng (data ! k))"
    if "\<tau> RESERVED_VAR = RNG_FOR_RESERVED_VAR" for \<tau>
    using that by (auto simp: holds_def lits_of_def stored_def all_set_conv_all_nth)
  define \<tau> where "\<tau> v = (if v = RESERVED_VAR then RNG_FOR_RESERVED_VAR else the (map_of (map (\<lambda>mp. (m_var mp, m_rng mp)) data) v))" for v
  have "map_of (map (\<lambda>mp. (m_var mp, m_rng mp)) data) (m_var (data ! k)) = Some (m_rng (data ! k))" if "k < n" "?first k" for k
    using that assms(1)
  proof (induction data arbitrary: k n)
    case (Cons mp data)
    show ?case
    proof (cases k)
      case (Suc m)
      then have "m_var mp \<noteq> m_var (data ! m)" using Cons.prems(2) by (metis nth_Cons_0 nth_Cons_Suc zero_less_Suc)
      moreover have "\<forall>h < m. m_var (data ! h) \<noteq> m_var (data ! m)" using Cons.prems(2) Suc by (metis Suc_less_eq nth_Cons_Suc)
      ultimately show ?thesis using Cons.IH [of m "length data"] Cons.prems Suc by simp
    qed simp
  qed simp
  then have "\<forall>k < n. ?first k \<longrightarrow> \<tau> (m_var (data ! k)) = m_rng (data ! k)" using assms(1,2) by (simp add: \<tau>_def)
  then have "\<exists>\<tau>. \<tau> RESERVED_VAR = RNG_FOR_RESERVED_VAR \<and> holds (lits_of \<lparr>d_data = stored, d_prob = q\<rparr>) \<tau>"
    using st [of \<tau>] by (intro exI [of _ \<tau>]) (auto simp: \<tau>_def)
  then show ?thesis using r no st unfolding stored_def [symmetric] by blast
qed

theorem contradiction_is_lost_witness:
  "\<exists>stored. reserve_duplicates 3 [create_map 5 1 0 (1/2), create_map 7 3 0 (1/4), create_map 5 2 0 (1/2)] = Inr stored \<and>
    lits_of \<lparr>d_data = stored, d_prob = 1\<rparr> = [(5, 1, 1/2), (7, 3, 1/4), (0, 1, 1)] \<and>
    (\<forall>\<tau>. \<not> holds [(5, 1, 1/2), (7, 3, 1/4), (5, 2, 1/2)] \<tau>) \<and> (\<exists>\<tau>. holds [(5, 1, 1/2), (7, 3, 1/4), (0, 1, 1)] \<tau>)"
proof -
  let ?d = "[create_map 5 1 0 (1/2), create_map 7 3 0 (1/4), create_map 5 2 0 (1/2)]"
  obtain stored where s: "reserve_duplicates 3 ?d = Inr stored"
    "stored = map (\<lambda>k. if \<exists>h < k. m_var (?d ! h) = m_var (?d ! k)
      then (?d ! k)\<lparr>m_var := RESERVED_VAR, m_rng := RNG_FOR_RESERVED_VAR, m_prob := 1\<rparr> else ?d ! k) [0..<3]"
    "\<forall>\<tau>. \<not> holds (lits_of \<lparr>d_data = ?d, d_prob = 1\<rparr>) \<tau>" "\<exists>\<tau>. holds (lits_of \<lparr>d_data = stored, d_prob = 1\<rparr>) \<tau>"
    using contradiction_is_lost [of ?d 3 0 2 1 1] by (auto simp: create_map_def RESERVED_VAR_def)
  have l: "lits_of \<lparr>d_data = stored, d_prob = 1\<rparr> = [(5, 1, 1/2), (7, 3, 1/4), (0, 1, 1)]"
    unfolding s(2) by (simp add: lits_of_def create_map_def RESERVED_VAR_def RNG_FOR_RESERVED_VAR_def upt_rec less_Suc_eq numeral_2_eq_2, rule exI [of _ 0], simp)
  have "lits_of \<lparr>d_data = ?d, d_prob = 1\<rparr> = [(5, 1, 1/2), (7, 3, 1/4), (5, 2, 1/2)]" by (simp add: lits_of_def create_map_def)
  then show ?thesis using s(1,3,4) l by auto
qed



text \<open>
  C31. Before the computation starts, every variable of the local world table is completed with
  one value for the probability its entered values leave open: the table becomes a table of
  proper distributions and no entered value moves.
\<close>

theorem getMissingRngs_completes:
  assumes "wt_inv P s" "sub_prob P"
  shows "ok (getMissingRngs s) (\<lambda>t. wt_ok (wt_dist t) \<and> wt_le s t \<and> map fst (wt_dist t) = wt_vars s)"
  using getMissingRngs_ok [OF assms] by (auto simp: wt_dist_def wt_vars_def comp_def elim!: ok_mono)

text \<open>In the example two variables have been entered with one value each.\<close>

theorem getMissingRngs_completes_witness:
  "\<exists>l' s' t. accum_all 2 [[(1, 1, 1/2), (2, 1, 1/4)]] (\<lparr>S = None, current_size = 0, WSD_LEN = 0, groupcxt = False\<rparr>, empty_table 10) = Inr (l', s') \<and>
    wt_vars s' = [1, 2] \<and> getMissingRngs s' = Inr t \<and> wt_ok (wt_dist t) \<and> wt_dist t = [(1, [(1, 1/2), (2, 1/2)]), (2, [(1, 1/4), (2, 3/4)])]"
proof -
  let ?l = "\<lparr>S = None, current_size = 0, WSD_LEN = 0, groupcxt = False\<rparr>" and ?cs = "[[(1, 1, 1/2), (2, 1, 1/4)]] :: lit list list"
  define P :: "int \<Rightarrow> int \<Rightarrow> real" where "P v r = (if r = 1 then if v = 1 then 1/2 else 1/4 else 0)" for v r
  have sum: "distinct rs \<Longrightarrow> (\<Sum>r\<leftarrow>rs. P v r) = (if 1 \<in> set rs then P v 1 else 0)" for v rs by (induction rs) (auto simp: P_def)
  have sub: "sub_prob P" by (auto simp: sub_prob_def sum) (auto simp: P_def)
  have "fits {1, 2}" by (rule fits_small) (simp_all add: LIST_INIT_SIZE_def)
  then have "ok (accum_all 2 ?cs (?l, empty_table 10)) (lin_inv P 2 {1, 2} ?cs)"
    by (intro accum_all_ok) (auto simp: clause_ok_def RESERVED_VAR_def P_def)
  then obtain l' s' where a: "accum_all 2 ?cs (?l, empty_table 10) = Inr (l', s')" "wt_inv P s'" by (auto simp: lin_inv_def elim!: ok_E)
  have "case accum_all 2 ?cs (?l, empty_table 10) of Inl _ \<Rightarrow> False
    | Inr (l', s') \<Rightarrow> wt_vars s' = [1, 2] \<and> (case getMissingRngs s' of Inl _ \<Rightarrow> False
        | Inr t \<Rightarrow> wt_dist t = [(1, [(1, 1/2), (2, 1/2)]), (2, [(1, 1/4), (2, 3/4)])])" by code_simp
  moreover obtain t where "getMissingRngs s' = Inr t" "wt_ok (wt_dist t)" using getMissingRngs_completes [OF a(2) sub] by (auto elim!: ok_E)
  ultimately show ?thesis using a(1) by auto
qed

text \<open>
  C40. A variable whose entered probabilities exceed one by more than a hundredth is reported as
  an error; otherwise the missing value is added exactly when the sum is below one, with the
  remaining probability and a range value one above the largest (wrapped to 32 bits), and the
  array of values is enlarged when that fills it. Before the call the variable has a value and
  its array has room for one more, as after every entered condition.
\<close>

theorem missing_rng_cases:
  assumes "rng_entries e \<noteq> []" "length (rng_entries e) < rng_entry_max e"
  shows "missing_rng e = (let sum = (\<Sum>r\<leftarrow>rng_entries e. re_p r) in
    if sum > 1 + 1/100 then Inl (Elog ''The sum of probabilities for variable exceeds 1!'')
    else if sum < 1 then Inr (e\<lparr>rng_entries := rng_entries e @
        [\<lparr>re_rng = wrap32 (Max (re_rng ` set (rng_entries e)) + 1), re_p = 1 - sum, re_count = 0\<rparr>],
        rng_entry_max := (if Suc (length (rng_entries e)) = rng_entry_max e then rng_entry_max e * 2 else rng_entry_max e)\<rparr>)
    else Inr e)"
proof -
  let ?rs = "rng_entries e"
  let ?m0 = "case ?rs of [] \<Rightarrow> 0 | r # _ \<Rightarrow> re_rng r"
  have mx: "fold (\<lambda>r m. max m (re_rng r)) ?rs ?m0 = (if ?rs = [] then 0 else Max (re_rng ` set ?rs))"
  proof (cases ?rs)
    case (Cons r rs)
    have "fold (\<lambda>r m. max m (re_rng r)) rs x = fold max (map re_rng rs) x" for x
      by (induction rs arbitrary: x) (simp_all add: max.commute)
    then show ?thesis using Max.set_eq_fold [of "re_rng r" "map re_rng rs"] Cons by simp
  qed simp
  show ?thesis using assms unfolding missing_rng_def Let_def missing_fold mx by (auto simp: rngEntryInit_def Let_def)
qed

theorem missing_rng_cases_witness:
  "missing_rng ((new_entry 4)\<lparr>rng_entries := [\<lparr>re_rng = 1, re_p = 3/4, re_count = 0\<rparr>, \<lparr>re_rng = 2, re_p = 1/2, re_count = 0\<rparr>]\<rparr>) =
    Inl (Elog ''The sum of probabilities for variable exceeds 1!'') \<and>
   missing_rng ((new_entry 4)\<lparr>rng_entries := [\<lparr>re_rng = 7, re_p = 1/4, re_count = 0\<rparr>, \<lparr>re_rng = 2, re_p = 1/2, re_count = 0\<rparr>]\<rparr>) =
    Inr ((new_entry 4)\<lparr>rng_entries := [\<lparr>re_rng = 7, re_p = 1/4, re_count = 0\<rparr>, \<lparr>re_rng = 2, re_p = 1/2, re_count = 0\<rparr>,
      \<lparr>re_rng = 8, re_p = 1/4, re_count = 0\<rparr>], rng_entry_max := 6\<rparr>)"
proof
  show "missing_rng ((new_entry 4)\<lparr>rng_entries := [\<lparr>re_rng = 1, re_p = 3/4, re_count = 0\<rparr>, \<lparr>re_rng = 2, re_p = 1/2, re_count = 0\<rparr>]\<rparr>) =
    Inl (Elog ''The sum of probabilities for variable exceeds 1!'')"
    by (subst missing_rng_cases) (simp_all add: new_entry_def RNGENTRYSIZE_def)
  show "missing_rng ((new_entry 4)\<lparr>rng_entries := [\<lparr>re_rng = 7, re_p = 1/4, re_count = 0\<rparr>, \<lparr>re_rng = 2, re_p = 1/2, re_count = 0\<rparr>]\<rparr>) =
    Inr ((new_entry 4)\<lparr>rng_entries := [\<lparr>re_rng = 7, re_p = 1/4, re_count = 0\<rparr>, \<lparr>re_rng = 2, re_p = 1/2, re_count = 0\<rparr>,
      \<lparr>re_rng = 8, re_p = 1/4, re_count = 0\<rparr>], rng_entry_max := 6\<rparr>)"
    by (subst missing_rng_cases) (simp_all add: new_entry_def RNGENTRYSIZE_def wrap32_def)
qed

end
