(* ===== verification/Bitset.thy ===== *)
theory Bitset
  imports Prelude
begin

text \<open>
  The bitsets of \<^verbatim>\<open>backend/maybms/bitset.c\<close>: a word array with a bit count, as the
  C code lays it out on a 64-bit platform, with the \<open>abort()\<close> of an index outside the
  set and the reads and writes of the word array checked against its extent.

  \<open>bset\<close> is the set of indices a bitset stands for and \<open>bs_raw\<close>, \<open>bs_inv\<close> its
  invariants: \<open>bs_inv\<close> also states that the unused bits of the last word are zero,
  which the word-wise emptiness test needs and which \<open>bitset_init\<close> followed by
  \<open>bitset_set\<close> does not establish. The locale \<open>indexed_set\<close> is the interface the
  confidence algorithms rely on; loops that collect, remove or flip indices are proved
  there once and both invariants interpret it.
\<close>

unbundle bit_operations_syntax

section \<open>The operations\<close>

record bitset =
  bits :: "64 word list"
  nbits :: nat

definition BITSET_BITS :: nat where
  "BITSET_BITS = 8 * 8"

definition BITSET_MASK :: "nat \<Rightarrow> 64 word" where
  "BITSET_MASK pos = push_bit (pos mod BITSET_BITS) 1"

definition BITSET_WORD :: "bitset \<Rightarrow> nat \<Rightarrow> 64 word res" where
  "BITSET_WORD bs pos = aread (bits bs) (pos div BITSET_BITS)"

definition BITSET_USED :: "nat \<Rightarrow> nat" where
  "BITSET_USED n = (n + (BITSET_BITS - 1)) div BITSET_BITS"

text \<open>\<open>junk\<close> stands for the contents of the freshly allocated word array.\<close>

definition bitset_init :: "(nat \<Rightarrow> 64 word) \<Rightarrow> nat \<Rightarrow> bitset" where
  "bitset_init junk n = \<lparr>bits = map junk [0..<BITSET_USED n], nbits = n\<rparr>"

definition bitset_reset :: "bitset \<Rightarrow> bitset" where
  "bitset_reset bs = bs\<lparr>bits :=
     replicate (BITSET_USED (nbits bs)) 0 @ drop (BITSET_USED (nbits bs)) (bits bs)\<rparr>"

definition bitset_clear_bit :: "bitset \<Rightarrow> nat \<Rightarrow> bitset res" where
  "bitset_clear_bit bs pos =
     (if pos \<ge> nbits bs then Inl Abort
      else rbind (BITSET_WORD bs pos) (\<lambda>w.
           rbind (awrite (bits bs) (pos div BITSET_BITS) (w AND NOT (BITSET_MASK pos))) (\<lambda>ws.
           Inr (bs\<lparr>bits := ws\<rparr>))))"

definition bitset_set_bit :: "bitset \<Rightarrow> nat \<Rightarrow> bitset res" where
  "bitset_set_bit bs pos =
     (if pos \<ge> nbits bs then Inl Abort
      else rbind (BITSET_WORD bs pos) (\<lambda>w.
           rbind (awrite (bits bs) (pos div BITSET_BITS) (w OR BITSET_MASK pos)) (\<lambda>ws.
           Inr (bs\<lparr>bits := ws\<rparr>))))"

definition bitset_test_bit :: "bitset \<Rightarrow> nat \<Rightarrow> bool res" where
  "bitset_test_bit bs pos =
     (if pos \<ge> nbits bs then Inl Abort
      else rbind (BITSET_WORD bs pos) (\<lambda>w. Inr (w AND BITSET_MASK pos \<noteq> 0)))"

definition bitset_set :: "bitset \<Rightarrow> bitset res" where
  "bitset_set bs = for_upto (nbits bs) (\<lambda>i s. bitset_set_bit s i) bs"

definition bitset_count_set :: "bitset \<Rightarrow> nat res" where
  "bitset_count_set bs =
     for_upto (nbits bs)
       (\<lambda>i count. rbind (bitset_test_bit bs i) (\<lambda>b. Inr (if b then Suc count else count))) 0"

definition bitset_copy :: "bitset \<Rightarrow> bitset \<Rightarrow> bitset res" where
  "bitset_copy from to =
     (let n = BITSET_USED (nbits to) in
      if length (bits from) < n \<or> length (bits to) < n then Inl OutOfBounds
      else Inr (to\<lparr>bits := take n (bits from) @ drop n (bits to)\<rparr>))"

text \<open>A null second set leaves the first unchanged.\<close>

definition bitset_union :: "bitset \<Rightarrow> bitset option \<Rightarrow> bitset res" where
  "bitset_union set1 set2 =
     (case set2 of None \<Rightarrow> Inr set1
      | Some s2 \<Rightarrow>
          for_upto (BITSET_USED (nbits set1))
            (\<lambda>i s1. rbind (aread (bits s1) i) (\<lambda>w1.
                     rbind (aread (bits s2) i) (\<lambda>w2.
                     rbind (awrite (bits s1) i (w1 OR w2)) (\<lambda>ws.
                     Inr (s1\<lparr>bits := ws\<rparr>))))) set1)"

definition bitset_complement ::
  "(nat \<Rightarrow> 64 word) \<Rightarrow> bitset option \<Rightarrow> bitset option \<Rightarrow> bitset option res" where
  "bitset_complement junk ref_set to_complement =
     (case (ref_set, to_complement) of
        (Some r, Some c) \<Rightarrow>
          rbind (for_upto (nbits r)
            (\<lambda>i res.
               rbind (bitset_test_bit r i) (\<lambda>b.
               if b then rbind (bitset_test_bit c i) (\<lambda>b'.
                         if \<not> b' then bitset_set_bit res i else Inr res)
               else Inr res))
            (bitset_reset (bitset_init junk (nbits r)))) (\<lambda>res. Inr (Some res))
      | _ \<Rightarrow> Inr None)"

definition bitset_subtract :: "bitset \<Rightarrow> bitset \<Rightarrow> bitset res" where
  "bitset_subtract from_set what =
     for_upto (nbits from_set)
       (\<lambda>i s. rbind (bitset_test_bit what i) (\<lambda>b.
              if b then bitset_clear_bit s i else Inr s)) from_set"

definition bitset_negate :: "bitset \<Rightarrow> bitset \<Rightarrow> bitset res" where
  "bitset_negate ref_set to_negate =
     for_upto (nbits ref_set)
       (\<lambda>i s. rbind (bitset_test_bit ref_set i) (\<lambda>b.
              if b then rbind (bitset_test_bit s i) (\<lambda>b'.
                        if b' then bitset_clear_bit s i else bitset_set_bit s i)
              else Inr s)) to_negate"

function first_bit_loop :: "bitset \<Rightarrow> nat \<Rightarrow> nat res" where
  "first_bit_loop bs i =
     (if i < nbits bs
      then rbind (bitset_test_bit bs i) (\<lambda>b. if b then Inr i else first_bit_loop bs (Suc i))
      else Inr i)"
  by pat_completeness auto
termination
  by (relation "measure (\<lambda>(s, i). nbits s - i)") auto

definition bitset_first_bit_set :: "bitset option \<Rightarrow> int res" where
  "bitset_first_bit_set bs =
     (case bs of None \<Rightarrow> Inr (- 1)
      | Some s \<Rightarrow> rbind (first_bit_loop s 0) (\<lambda>i.
          Inr (if i < nbits s then int i else - 1)))"

function singleton_loop :: "bitset \<Rightarrow> nat \<Rightarrow> nat \<Rightarrow> int \<Rightarrow> (nat \<times> int) res" where
  "singleton_loop bs i how_many pos =
     (if i < nbits bs \<and> how_many < 2
      then rbind (bitset_test_bit bs i) (\<lambda>b.
             if b then singleton_loop bs (Suc i) (Suc how_many) (int i)
             else singleton_loop bs (Suc i) how_many pos)
      else Inr (how_many, pos))"
  by pat_completeness auto
termination
  by (relation "measure (\<lambda>(s, i, h, p). nbits s - i)") auto

definition bitset_test_singleton :: "bitset option \<Rightarrow> int res" where
  "bitset_test_singleton bs =
     (case bs of None \<Rightarrow> Inr (- 1)
      | Some s \<Rightarrow> rbind (singleton_loop s 0 0 (- 1)) (\<lambda>(how_many, pos).
          Inr (if how_many = 1 then pos else - 1)))"

function empty_loop :: "bitset \<Rightarrow> nat \<Rightarrow> nat res" where
  "empty_loop bs i =
     (if i < BITSET_USED (nbits bs)
      then rbind (aread (bits bs) i) (\<lambda>w. if w = 0 then empty_loop bs (Suc i) else Inr i)
      else Inr i)"
  by pat_completeness auto
termination
  by (relation "measure (\<lambda>(s, i). BITSET_USED (nbits s) - i)") auto

definition bitset_test_empty :: "bitset option \<Rightarrow> bool res" where
  "bitset_test_empty bs =
     (case bs of None \<Rightarrow> Inr True
      | Some s \<Rightarrow> rbind (empty_loop s 0) (\<lambda>i. Inr (i = BITSET_USED (nbits s))))"

declare first_bit_loop.simps [simp del] singleton_loop.simps [simp del] empty_loop.simps [simp del]

section \<open>Indices and invariants\<close>

definition bitat :: "bitset \<Rightarrow> nat \<Rightarrow> bool" where
  "bitat b i = bit (bits b ! (i div BITSET_BITS)) (i mod BITSET_BITS)"

definition bset :: "bitset \<Rightarrow> nat set" where
  "bset b = {i. i < nbits b \<and> bitat b i}"

definition bs_raw :: "bitset \<Rightarrow> nat \<Rightarrow> bool" where
  "bs_raw b n \<longleftrightarrow> nbits b = n \<and> length (bits b) = BITSET_USED n"

definition bs_inv :: "bitset \<Rightarrow> nat \<Rightarrow> bool" where
  "bs_inv b n \<longleftrightarrow> bs_raw b n \<and> (\<forall>i. n \<le> i \<longrightarrow> i < BITSET_BITS * BITSET_USED n \<longrightarrow> \<not> bitat b i)"

lemma bs_invD [simp, dest]: "bs_inv b n \<Longrightarrow> bs_raw b n"
  by (simp add: bs_inv_def)

lemma word_index_used [simp]: "i < n \<Longrightarrow> i div BITSET_BITS < BITSET_USED n"
  by (auto simp: BITSET_USED_def BITSET_BITS_def)

lemma word_index_eq: "i div BITSET_BITS = j div BITSET_BITS \<Longrightarrow> i mod BITSET_BITS = j mod BITSET_BITS \<Longrightarrow> i = j"
  by (metis div_mult_mod_eq)

lemma bits_mod_lt [simp]: "i mod BITSET_BITS < 64"
  by (simp add: BITSET_BITS_def)

lemma bset_bound [simp]: "bs_raw b n \<Longrightarrow> bset b \<subseteq> {..<n}"
  by (auto simp: bset_def bs_raw_def)

lemma bset_finite [simp]: "finite (bset b)"
  by (rule finite_subset [of _ "{..<nbits b}"]) (auto simp: bset_def)

lemma bitset_test_bit_eq: "bs_raw b n \<Longrightarrow> i < n \<Longrightarrow> bitset_test_bit b i = Inr (i \<in> bset b)"
  by (auto simp: bitset_test_bit_def BITSET_WORD_def bs_raw_def bset_def bitat_def BITSET_MASK_def
      bit_iff_and_push_bit_not_eq_0)

lemma mask_bit [simp]:
  "bit (BITSET_MASK i) (j mod BITSET_BITS) \<longleftrightarrow> i mod BITSET_BITS = j mod BITSET_BITS"
  by (auto simp: BITSET_MASK_def bit_exp_iff)

lemma bitset_set_bit_ok:
  assumes "bs_raw b n" "i < n"
  shows "ok (bitset_set_bit b i)
    (\<lambda>t. bs_raw t n \<and> bset t = insert i (bset b) \<and> (\<forall>j. j \<noteq> i \<longrightarrow> bitat t j = bitat b j))"
proof -
  let ?t = "b\<lparr>bits := (bits b)[i div BITSET_BITS := bits b ! (i div BITSET_BITS) OR BITSET_MASK i]\<rparr>"
  have eq: "bitset_set_bit b i = Inr ?t"
    using assms by (simp add: bitset_set_bit_def BITSET_WORD_def bs_raw_def)
  have at: "bitat ?t j \<longleftrightarrow> j = i \<or> bitat b j" for j
    using assms by (auto simp: bitat_def nth_list_update bs_raw_def bit_or_iff dest: word_index_eq)
  show ?thesis
    using assms unfolding eq by (auto simp: bset_def at) (auto simp: bs_raw_def)
qed

lemma bitset_clear_bit_ok:
  assumes "bs_raw b n" "i < n"
  shows "ok (bitset_clear_bit b i)
    (\<lambda>t. bs_raw t n \<and> bset t = bset b - {i} \<and> (\<forall>j. j \<noteq> i \<longrightarrow> bitat t j = bitat b j))"
proof -
  let ?t = "b\<lparr>bits := (bits b)[i div BITSET_BITS := bits b ! (i div BITSET_BITS) AND NOT (BITSET_MASK i)]\<rparr>"
  have eq: "bitset_clear_bit b i = Inr ?t"
    using assms by (simp add: bitset_clear_bit_def BITSET_WORD_def bs_raw_def)
  have at: "bitat ?t j \<longleftrightarrow> j \<noteq> i \<and> bitat b j" for j
    using assms
    by (auto simp: bitat_def nth_list_update bs_raw_def bit_and_iff bit_not_iff dest: word_index_eq)
  show ?thesis
    using assms unfolding eq by (auto simp: bset_def at) (auto simp: bs_raw_def)
qed

lemma bitset_out_of_range:
  assumes "nbits b \<le> i"
  shows "bitset_test_bit b i = Inl Abort" "bitset_set_bit b i = Inl Abort"
    "bitset_clear_bit b i = Inl Abort"
  using assms by (simp_all add: bitset_test_bit_def bitset_set_bit_def bitset_clear_bit_def)

section \<open>The interface\<close>

text \<open>
  What the clients of a bitset use: membership, insertion and deletion of an index below
  the size of the set, under an invariant.
\<close>

locale indexed_set =
  fixes invar :: "'s \<Rightarrow> nat \<Rightarrow> bool"
    and elems :: "'s \<Rightarrow> nat set"
    and test :: "'s \<Rightarrow> nat \<Rightarrow> bool res"
    and ins :: "'s \<Rightarrow> nat \<Rightarrow> 's res"
    and del :: "'s \<Rightarrow> nat \<Rightarrow> 's res"
  assumes elems_bound: "invar s n \<Longrightarrow> elems s \<subseteq> {..<n}"
    and test_eq: "invar s n \<Longrightarrow> i < n \<Longrightarrow> test s i = Inr (i \<in> elems s)"
    and ins_ok: "invar s n \<Longrightarrow> i < n \<Longrightarrow> ok (ins s i) (\<lambda>t. invar t n \<and> elems t = insert i (elems s))"
    and del_ok: "invar s n \<Longrightarrow> i < n \<Longrightarrow> ok (del s i) (\<lambda>t. invar t n \<and> elems t = elems s - {i})"
begin

text \<open>A loop that inserts the indices a condition selects.\<close>

lemma collect_loop:
  assumes "invar s n" "m \<le> n"
    and "\<And>i t. i < m \<Longrightarrow> invar t n \<Longrightarrow> f i t = (if P i then ins t i else Inr t)"
  shows "ok (for_upto m f s) (\<lambda>t. invar t n \<and> elems t = elems s \<union> {i. i < m \<and> P i})"
proof -
  have "ok (for_upto m f s) (\<lambda>t. invar t n \<and> elems t = elems s \<union> {i. i < m \<and> P i})"
  proof (rule ok_for_upto [where I = "\<lambda>k t. invar t n \<and> elems t = elems s \<union> {i. i < k \<and> P i}"])
    show "invar s n \<and> elems s = elems s \<union> {i. i < 0 \<and> P i}" using assms(1) by simp
  next
    fix i t assume i: "i < m" and I: "invar t n \<and> elems t = elems s \<union> {i'. i' < i \<and> P i'}"
    show "ok (f i t) (\<lambda>t. invar t n \<and> elems t = elems s \<union> {i'. i' < Suc i \<and> P i'})"
    proof (cases "P i")
      case True
      have "ok (ins t i) (\<lambda>t'. invar t' n \<and> elems t' = insert i (elems t))"
        using ins_ok [of t n i] i I assms(2) by simp
      then show ?thesis
        using True i I assms(3) by (auto elim!: ok_mono simp: less_Suc_eq)
    next
      case False
      then show ?thesis using i I assms(3) by (auto simp: less_Suc_eq)
    qed
  qed
  then show ?thesis .
qed

text \<open>A loop that deletes the indices a condition selects.\<close>

lemma remove_loop:
  assumes "invar s n" "m \<le> n"
    and "\<And>i t. i < m \<Longrightarrow> invar t n \<Longrightarrow> f i t = (if P i then del t i else Inr t)"
  shows "ok (for_upto m f s) (\<lambda>t. invar t n \<and> elems t = elems s - {i. i < m \<and> P i})"
proof (rule ok_for_upto [where I = "\<lambda>k t. invar t n \<and> elems t = elems s - {i. i < k \<and> P i}"])
  show "invar s n \<and> elems s = elems s - {i. i < 0 \<and> P i}" using assms(1) by simp
next
  fix i t assume i: "i < m" and I: "invar t n \<and> elems t = elems s - {i'. i' < i \<and> P i'}"
  show "ok (f i t) (\<lambda>t. invar t n \<and> elems t = elems s - {i'. i' < Suc i \<and> P i'})"
  proof (cases "P i")
    case True
    have "ok (del t i) (\<lambda>t'. invar t' n \<and> elems t' = elems t - {i})"
      using del_ok [of t n i] i I assms(2) by simp
    then show ?thesis
      using True i I assms(3) by (auto elim!: ok_mono simp: less_Suc_eq)
  next
    case False
    then show ?thesis using i I assms(3) by (auto simp: less_Suc_eq)
  qed
qed

text \<open>A loop that flips the membership of the indices a condition selects.\<close>

lemma flip_loop:
  assumes "invar s n" "m \<le> n"
    and "\<And>i t. i < m \<Longrightarrow> invar t n \<Longrightarrow>
      f i t = (if P i then if i \<in> elems t then del t i else ins t i else Inr t)"
  shows "ok (for_upto m f s)
    (\<lambda>t. invar t n \<and> elems t = {i. if i < m \<and> P i then i \<notin> elems s else i \<in> elems s})"
proof (rule ok_for_upto [where I = "\<lambda>k t. invar t n \<and>
    elems t = {i. if i < k \<and> P i then i \<notin> elems s else i \<in> elems s}"])
  show "invar s n \<and> elems s = {i. if i < 0 \<and> P i then i \<notin> elems s else i \<in> elems s}"
    using assms(1) by simp
next
  fix i t
  assume i: "i < m"
    and I: "invar t n \<and> elems t = {i'. if i' < i \<and> P i' then i' \<notin> elems s else i' \<in> elems s}"
  have d: "ok (del t i) (\<lambda>t'. invar t' n \<and> elems t' = elems t - {i})"
    and a: "ok (ins t i) (\<lambda>t'. invar t' n \<and> elems t' = insert i (elems t))"
    using del_ok [of t n i] ins_ok [of t n i] i I assms(2) by simp_all
  show "ok (f i t) (\<lambda>t. invar t n \<and>
      elems t = {i'. if i' < Suc i \<and> P i' then i' \<notin> elems s else i' \<in> elems s})"
  proof (cases "P i")
    case True
    show ?thesis
    proof (cases "i \<in> elems t")
      case True
      with \<open>P i\<close> show ?thesis using i I assms(3)
        by (auto intro!: ok_mono [OF d] simp: less_Suc_eq)
    next
      case False
      with \<open>P i\<close> show ?thesis using i I assms(3)
        by (auto intro!: ok_mono [OF a] simp: less_Suc_eq)
    qed
  next
    case False
    then show ?thesis using i I assms(3) by (auto simp: less_Suc_eq)
  qed
qed

text \<open>A loop that counts the members.\<close>

lemma count_loop:
  assumes "invar s n"
    and "\<And>i c. i < n \<Longrightarrow> f i c = Inr (if i \<in> elems s then Suc c else c)"
  shows "for_upto n f 0 = Inr (card (elems s))"
proof -
  have "ok (for_upto n f 0) (\<lambda>c. c = card (elems s \<inter> {..<n}))"
  proof (rule ok_for_upto [where I = "\<lambda>k c. c = card (elems s \<inter> {..<k})"])
    show "0 = card (elems s \<inter> {..<0})" by simp
  next
    fix i c assume i: "i < n" and c: "c = card (elems s \<inter> {..<i})"
    have "elems s \<inter> {..<Suc i} = (if i \<in> elems s then insert i (elems s \<inter> {..<i}) else elems s \<inter> {..<i})"
      by (auto simp: less_Suc_eq)
    then show "ok (f i c) (\<lambda>c. c = card (elems s \<inter> {..<Suc i}))"
      using i c assms(2) by simp
  qed
  moreover have "elems s \<inter> {..<n} = elems s" using elems_bound [OF assms(1)] by auto
  ultimately show ?thesis by (auto simp: ok_def)
qed

end

interpretation raw: indexed_set bs_raw bset bitset_test_bit bitset_set_bit bitset_clear_bit
  by unfold_locales
    (auto simp: bitset_test_bit_eq elim: ok_mono [OF bitset_set_bit_ok] ok_mono [OF bitset_clear_bit_ok]
      dest: subsetD [OF bset_bound])

interpretation clean: indexed_set bs_inv bset bitset_test_bit bitset_set_bit bitset_clear_bit
proof unfold_locales
  fix s n i assume s: "bs_inv s n" and i: "i < n"
  show "bitset_test_bit s i = Inr (i \<in> bset s)"
    using s i by (auto simp: bitset_test_bit_eq)
  show "ok (bitset_set_bit s i) (\<lambda>t. bs_inv t n \<and> bset t = insert i (bset s))"
    by (rule ok_mono [OF bitset_set_bit_ok [OF bs_invD [OF s] i]]) (use s i in \<open>auto simp: bs_inv_def\<close>)
  show "ok (bitset_clear_bit s i) (\<lambda>t. bs_inv t n \<and> bset t = bset s - {i})"
    by (rule ok_mono [OF bitset_clear_bit_ok [OF bs_invD [OF s] i]]) (use s i in \<open>auto simp: bs_inv_def\<close>)
qed (auto dest: subsetD [OF bset_bound])

section \<open>The operations as set operations\<close>

lemma bs_raw_init: "bs_raw (bitset_init junk n) n"
  by (simp add: bs_raw_def bitset_init_def)

lemma bs_inv_reset:
  assumes "bs_raw b n"
  shows "bs_inv (bitset_reset b) n" and "bset (bitset_reset b) = {}"
proof -
  have at: "i div BITSET_BITS < BITSET_USED n \<Longrightarrow> \<not> bitat (bitset_reset b) i" for i
    using assms by (simp add: bitat_def bitset_reset_def bs_raw_def)
  have lt: "i < BITSET_BITS * BITSET_USED n \<Longrightarrow> i div BITSET_BITS < BITSET_USED n" for i
    by (simp add: less_mult_imp_div_less mult.commute)
  have raw: "bs_raw (bitset_reset b) n"
    using assms by (simp add: bs_raw_def bitset_reset_def)
  with at lt show "bs_inv (bitset_reset b) n" by (auto simp: bs_inv_def)
  show "bset (bitset_reset b) = {}"
    using raw by (auto simp: bset_def bs_raw_def at)
qed

text \<open>A fresh bitset that is reset at once, as the algorithms allocate them.\<close>

lemma bs_fresh [simp]:
  "bs_inv (bitset_reset (bitset_init junk n)) n" "bset (bitset_reset (bitset_init junk n)) = {}"
  using bs_inv_reset [OF bs_raw_init] by simp_all

lemma bitset_set_ok:
  assumes "bs_raw b n"
  shows "ok (bitset_set b) (\<lambda>t. bs_raw t n \<and> bset t = {..<n})"
proof -
  have n: "nbits b = n" using assms by (simp add: bs_raw_def)
  have "ok (bitset_set b) (\<lambda>t. bs_raw t n \<and> bset t = bset b \<union> {i. i < n \<and> True})"
    unfolding bitset_set_def n by (rule raw.collect_loop [OF assms order_refl]) simp
  then show ?thesis
    by (rule ok_mono) (use bset_bound [OF assms] in auto)
qed

lemma bitset_count_set_eq: "bs_raw b n \<Longrightarrow> bitset_count_set b = Inr (card (bset b))"
  unfolding bitset_count_set_def
  using raw.count_loop [of b n] by (simp add: bitset_test_bit_eq bs_raw_def)

lemma bitset_copy_ok:
  assumes "bs_inv from n" "bs_raw to n"
  shows "ok (bitset_copy from to) (\<lambda>t. bs_inv t n \<and> bset t = bset from)"
  using assms by (auto simp: bitset_copy_def bs_inv_def bs_raw_def bset_def bitat_def Let_def)

lemma bitset_union_words:
  assumes "bs_raw s1 n" "bs_raw s2 n"
  shows "ok (bitset_union s1 (Some s2)) (\<lambda>t. bs_raw t n \<and>
    (\<forall>i < BITSET_USED n. bits t ! i = (bits s1 ! i OR bits s2 ! i)))"
proof -
  let ?I = "\<lambda>k t. bs_raw t n \<and> (\<forall>i < BITSET_USED n.
    bits t ! i = (if i < k then bits s1 ! i OR bits s2 ! i else bits s1 ! i))"
  have "ok (bitset_union s1 (Some s2)) (?I (BITSET_USED (nbits s1)))"
    unfolding bitset_union_def option.case
  proof (rule ok_for_upto)
    show "?I 0 s1" using assms by simp
  next
    fix i t assume "i < BITSET_USED (nbits s1)" and "?I i t"
    then show "ok (rbind (aread (bits t) i) (\<lambda>w1. rbind (aread (bits s2) i) (\<lambda>w2.
        rbind (awrite (bits t) i (w1 OR w2)) (\<lambda>ws. Inr (t\<lparr>bits := ws\<rparr>))))) (?I (Suc i))"
      using assms by (auto simp: bs_raw_def nth_list_update less_Suc_eq)
  qed
  then show ?thesis by (rule ok_mono) (use assms in \<open>auto simp: bs_raw_def\<close>)
qed

lemma bitset_union_ok:
  assumes "bs_inv s1 n" "\<And>s. s2 = Some s \<Longrightarrow> bs_inv s n"
  shows "ok (bitset_union s1 s2)
    (\<lambda>t. bs_inv t n \<and> bset t = bset s1 \<union> (case s2 of None \<Rightarrow> {} | Some s \<Rightarrow> bset s))"
proof (cases s2)
  case None
  then show ?thesis using assms(1) by (simp add: bitset_union_def)
next
  case (Some s)
  with assms(2) have s: "bs_inv s n" by simp
  have lt: "i < BITSET_BITS * BITSET_USED n \<Longrightarrow> i div BITSET_BITS < BITSET_USED n" for i
    by (simp add: less_mult_imp_div_less mult.commute)
  show ?thesis unfolding Some option.case
  proof (rule ok_mono [OF bitset_union_words [OF bs_invD [OF assms(1)] bs_invD [OF s]]])
    fix t assume t: "bs_raw t n \<and> (\<forall>i<BITSET_USED n. bits t ! i = (bits s1 ! i OR bits s ! i))"
    have "bitat t i = (bitat s1 i \<or> bitat s i)" if "i div BITSET_BITS < BITSET_USED n" for i
      using t that by (simp add: bitat_def bit_or_iff)
    with t s assms(1) lt show "bs_inv t n \<and> bset t = bset s1 \<union> bset s"
      by (auto simp: bs_inv_def bset_def bs_raw_def)
  qed
qed

lemma bitset_complement_ok:
  assumes "bs_inv r n" "bs_inv c n"
  shows "ok (bitset_complement junk (Some r) (Some c))
    (\<lambda>t. \<exists>b. t = Some b \<and> bs_inv b n \<and> bset b = bset r - bset c)"
proof -
  have n: "nbits r = n" using assms(1) by (auto simp: bs_inv_def bs_raw_def)
  let ?f = "\<lambda>i res. rbind (bitset_test_bit r i) (\<lambda>b.
    if b then rbind (bitset_test_bit c i) (\<lambda>b'. if \<not> b' then bitset_set_bit res i else Inr res)
    else Inr res)"
  have "ok (for_upto n ?f (bitset_reset (bitset_init junk n)))
    (\<lambda>t. bs_inv t n \<and> bset t = bset (bitset_reset (bitset_init junk n)) \<union> {i. i < n \<and> i \<in> bset r - bset c})"
    by (rule clean.collect_loop [where P = "\<lambda>i. i \<in> bset r - bset c"])
      (simp_all add: clean.test_eq [OF assms(1)] clean.test_eq [OF assms(2)])
  then obtain t where t: "for_upto n ?f (bitset_reset (bitset_init junk n)) = Inr t" "bs_inv t n"
    "bset t = {i. i < n \<and> i \<in> bset r - bset c}"
    by (auto elim!: ok_E)
  have "bset t = bset r - bset c" using t(3) bset_bound [OF bs_invD [OF assms(1)]] by blast
  with t show ?thesis by (simp add: bitset_complement_def n)
qed

lemma bitset_subtract_ok:
  assumes "bs_inv s n" "bs_raw w n"
  shows "ok (bitset_subtract s w) (\<lambda>t. bs_inv t n \<and> bset t = bset s - bset w)"
proof -
  have n: "nbits s = n" using assms(1) by (auto simp: bs_inv_def bs_raw_def)
  have "ok (bitset_subtract s w) (\<lambda>t. bs_inv t n \<and> bset t = bset s - {i. i < n \<and> i \<in> bset w})"
    unfolding bitset_subtract_def n
    by (rule clean.remove_loop [OF assms(1) order_refl]) (simp add: bitset_test_bit_eq [OF assms(2)])
  then show ?thesis
    by (rule ok_mono) (use bset_bound [OF assms(2)] in auto)
qed

text \<open>Negating a subset of the reference set leaves the relative complement.\<close>

lemma bitset_negate_ok:
  assumes "bs_raw r n" "bs_inv s n" "bset s \<subseteq> bset r"
  shows "ok (bitset_negate r s) (\<lambda>t. bs_inv t n \<and> bset t = bset r - bset s)"
proof -
  have n: "nbits r = n" using assms(1) by (auto simp: bs_raw_def)
  have "ok (bitset_negate r s) (\<lambda>t. bs_inv t n \<and>
      bset t = {i. if i < n \<and> i \<in> bset r then i \<notin> bset s else i \<in> bset s})"
    unfolding bitset_negate_def n
    by (rule clean.flip_loop [OF assms(2) order_refl])
      (simp add: bitset_test_bit_eq [OF assms(1)] clean.test_eq)
  then show ?thesis
    by (rule ok_mono) (use assms(3) bset_bound [OF assms(1)] in auto)
qed

section \<open>Searching a bitset\<close>

lemma first_bit_loop_eq:
  assumes "bs_raw b n" "i \<le> n"
  shows "ok (first_bit_loop b i) (\<lambda>k. i \<le> k \<and> k \<le> n \<and> (\<forall>j. i \<le> j \<and> j < k \<longrightarrow> j \<notin> bset b) \<and>
    (k < n \<longrightarrow> k \<in> bset b))"
  using assms
proof (induction b i rule: first_bit_loop.induct)
  case (1 b i)
  have n: "nbits b = n" using "1.prems"(1) by (simp add: bs_raw_def)
  show ?case
  proof (cases "i < n")
    case True
    then have t: "bitset_test_bit b i = Inr (i \<in> bset b)"
      using "1.prems"(1) by (simp add: bitset_test_bit_eq)
    show ?thesis
    proof (cases "i \<in> bset b")
      case True
      with t \<open>i < n\<close> n show ?thesis by (auto simp: first_bit_loop.simps [of b i])
    next
      case False
      with "1.IH" [of False] \<open>i < n\<close> n t "1.prems"(1)
      have "ok (first_bit_loop b (Suc i)) (\<lambda>k. Suc i \<le> k \<and> k \<le> n \<and>
          (\<forall>j. Suc i \<le> j \<and> j < k \<longrightarrow> j \<notin> bset b) \<and> (k < n \<longrightarrow> k \<in> bset b))"
        by simp
      then have "ok (first_bit_loop b (Suc i)) (\<lambda>k. i \<le> k \<and> k \<le> n \<and>
          (\<forall>j. i \<le> j \<and> j < k \<longrightarrow> j \<notin> bset b) \<and> (k < n \<longrightarrow> k \<in> bset b))"
        by (rule ok_mono) (simp add: all_range_Suc [of i] False)
      then show ?thesis using False \<open>i < n\<close> n t unfolding first_bit_loop.simps [of b i] by simp
    qed
  next
    case False
    then have "i = n" using "1.prems"(2) by simp
    then show ?thesis unfolding first_bit_loop.simps [of b i] n by auto
  qed
qed

text \<open>The first set bit is the least index of the set.\<close>

lemma bitset_first_bit_set_eq:
  assumes "bs_raw b n"
  shows "bitset_first_bit_set (Some b) = Inr (if bset b = {} then - 1 else int (Min (bset b)))"
proof -
  obtain k where k: "first_bit_loop b 0 = Inr k" "k \<le> n" "\<forall>j<k. j \<notin> bset b" "k < n \<longrightarrow> k \<in> bset b"
    using first_bit_loop_eq [OF assms le0] by (auto elim!: ok_E)
  have n: "nbits b = n" using assms by (simp add: bs_raw_def)
  show ?thesis
  proof (cases "k < n")
    case True
    with k have "Min (bset b) = k"
      by (intro Min_eqI) (auto simp: not_less [symmetric])
    then show ?thesis using k True n by (auto simp: bitset_first_bit_set_def)
  next
    case False
    with k have "\<forall>j<n. j \<notin> bset b" by auto
    with bset_bound [OF assms] have "bset b = {}" by blast
    then show ?thesis using k False n by (simp add: bitset_first_bit_set_def)
  qed
qed

lemma singleton_loop_ok:
  assumes "bs_raw b n" "i \<le> n" "h = card (bset b \<inter> {..<i})" "h = 1 \<longrightarrow> bset b \<inter> {..<i} = {nat p} \<and> 0 \<le> p"
  shows "ok (singleton_loop b i h p) (\<lambda>(h', p'). \<exists>k\<le>n. h' = card (bset b \<inter> {..<k}) \<and>
    (k = n \<or> 2 \<le> h') \<and> (h' = 1 \<longrightarrow> bset b \<inter> {..<k} = {nat p'} \<and> 0 \<le> p'))"
  using assms
proof (induction b i h p rule: singleton_loop.induct)
  case (1 b i h p)
  have n: "nbits b = n" using "1.prems"(1) by (simp add: bs_raw_def)
  show ?case
  proof (cases "i < n \<and> h < 2")
    case True
    then have t: "bitset_test_bit b i = Inr (i \<in> bset b)"
      using "1.prems"(1) by (simp add: bitset_test_bit_eq)
    have split: "bset b \<inter> {..<Suc i} =
        (if i \<in> bset b then insert i (bset b \<inter> {..<i}) else bset b \<inter> {..<i})"
      by (auto simp: less_Suc_eq)
    have e: "h = 0 \<Longrightarrow> bset b \<inter> {..<i} = {}" using "1.prems"(3) by simp
    have "ok (if i \<in> bset b then singleton_loop b (Suc i) (Suc h) (int i)
        else singleton_loop b (Suc i) h p) (\<lambda>(h', p'). \<exists>k\<le>n. h' = card (bset b \<inter> {..<k}) \<and>
      (k = n \<or> 2 \<le> h') \<and> (h' = 1 \<longrightarrow> bset b \<inter> {..<k} = {nat p'} \<and> 0 \<le> p'))"
    proof (cases "i \<in> bset b")
      case True
      have g: "i < nbits b \<and> h < 2" using \<open>i < n \<and> h < 2\<close> n by simp
      have c: "Suc h = card (bset b \<inter> {..<Suc i})"
        unfolding split using True "1.prems"(3) by simp
      have o: "Suc h = 1 \<longrightarrow> bset b \<inter> {..<Suc i} = {nat (int i)} \<and> 0 \<le> int i"
        unfolding split using True e by simp
      have "Suc i \<le> n" using \<open>i < n \<and> h < 2\<close> by simp
      from "1.IH"(1) [OF g t True "1.prems"(1) this c o] True show ?thesis by simp
    next
      case False
      have g: "i < nbits b \<and> h < 2" using \<open>i < n \<and> h < 2\<close> n by simp
      have c: "h = card (bset b \<inter> {..<Suc i})" unfolding split using False "1.prems"(3) by simp
      have o: "h = 1 \<longrightarrow> bset b \<inter> {..<Suc i} = {nat p} \<and> 0 \<le> p"
        unfolding split using False "1.prems"(4) by simp
      have "Suc i \<le> n" using \<open>i < n \<and> h < 2\<close> by simp
      from "1.IH"(2) [OF g t False "1.prems"(1) this c o] False show ?thesis by simp
    qed
    then show ?thesis using True t n
      by (simp add: singleton_loop.simps [of b i h p])
  next
    case False
    then have "i = n \<or> 2 \<le> h" using "1.prems"(2) by auto
    with "1.prems"(2-4) have "\<exists>k\<le>n. h = card (bset b \<inter> {..<k}) \<and> (k = n \<or> 2 \<le> h) \<and>
        (h = 1 \<longrightarrow> bset b \<inter> {..<k} = {nat p} \<and> 0 \<le> p)"
      by (intro exI [of _ i] conjI) assumption+
    moreover have "singleton_loop b i h p = Inr (h, p)"
      unfolding singleton_loop.simps [of b i h p] n by (simp only: False if_False)
    ultimately show ?thesis by simp
  qed
qed

text \<open>The singleton test returns the only index of a one-element set and \<open>-1\<close> otherwise.\<close>

lemma bitset_test_singleton_eq:
  assumes "bs_raw b n"
  shows "bitset_test_singleton (Some b) =
    Inr (if card (bset b) = 1 then int (the_elem (bset b)) else - 1)"
proof -
  have "ok (singleton_loop b 0 0 (- 1)) (\<lambda>(h, p). \<exists>k\<le>n. h = card (bset b \<inter> {..<k}) \<and>
      (k = n \<or> 2 \<le> h) \<and> (h = 1 \<longrightarrow> bset b \<inter> {..<k} = {nat p} \<and> 0 \<le> p))"
    by (rule singleton_loop_ok [OF assms]) simp_all
  then obtain hp where e: "singleton_loop b 0 0 (- 1) = Inr hp"
    and q: "case hp of (h, p) \<Rightarrow> \<exists>k\<le>n. h = card (bset b \<inter> {..<k}) \<and>
      (k = n \<or> 2 \<le> h) \<and> (h = 1 \<longrightarrow> bset b \<inter> {..<k} = {nat p} \<and> 0 \<le> p)"
    by (rule ok_E)
  obtain h p where hp: "hp = (h, p)" by (cases hp)
  from q obtain k where k: "k \<le> n" "h = card (bset b \<inter> {..<k})" "k = n \<or> 2 \<le> h"
      "h = 1 \<longrightarrow> bset b \<inter> {..<k} = {nat p} \<and> 0 \<le> p"
    unfolding hp prod.case by blast
  have l: "singleton_loop b 0 0 (- 1) = Inr (h, p)" using e hp by simp
  have n: "bset b \<inter> {..<n} = bset b" using bset_bound [OF assms] by auto
  have "h \<le> card (bset b)" using k(2) by (auto intro: card_mono)
  moreover have "k = n \<Longrightarrow> h = card (bset b)" using k(2) n by simp
  ultimately have one: "h = 1 \<longleftrightarrow> card (bset b) = 1" using k(3) by linarith
  have "h = 1 \<Longrightarrow> k = n" using k(3) by simp
  then have "h = 1 \<Longrightarrow> bset b = {nat p} \<and> 0 \<le> p" using k(4) n by simp
  then show ?thesis using one by (auto simp: bitset_test_singleton_def l)
qed

lemma empty_loop_ok:
  assumes "bs_raw b n" "i \<le> BITSET_USED n"
  shows "ok (empty_loop b i) (\<lambda>k. k \<le> BITSET_USED n \<and>
    (k = BITSET_USED n \<longleftrightarrow> (\<forall>j. i \<le> j \<and> j < BITSET_USED n \<longrightarrow> bits b ! j = 0)))"
  using assms
proof (induction b i rule: empty_loop.induct)
  case (1 b i)
  have n: "nbits b = n" "length (bits b) = BITSET_USED n"
    using "1.prems"(1) by (simp_all add: bs_raw_def)
  show ?case
  proof (cases "i < BITSET_USED n")
    case True
    show ?thesis
    proof (cases "bits b ! i = 0")
      case True
      with "1.IH" [of "bits b ! i"] \<open>i < BITSET_USED n\<close> n "1.prems"(1)
      have "ok (empty_loop b (Suc i)) (\<lambda>k. k \<le> BITSET_USED n \<and>
          (k = BITSET_USED n \<longleftrightarrow> (\<forall>j. Suc i \<le> j \<and> j < BITSET_USED n \<longrightarrow> bits b ! j = 0)))"
        by simp
      then have "ok (empty_loop b (Suc i)) (\<lambda>k. k \<le> BITSET_USED n \<and>
          (k = BITSET_USED n \<longleftrightarrow> (\<forall>j. i \<le> j \<and> j < BITSET_USED n \<longrightarrow> bits b ! j = 0)))"
        by (rule ok_mono) (simp add: all_range_Suc [of i] True)
      then show ?thesis using True \<open>i < BITSET_USED n\<close> n unfolding empty_loop.simps [of b i] by simp
    next
      case False
      with \<open>i < BITSET_USED n\<close> n show ?thesis by (auto simp: empty_loop.simps [of b i])
    qed
  next
    case False
    then have "i = BITSET_USED n" using "1.prems"(2) by simp
    then show ?thesis unfolding empty_loop.simps [of b i] n by auto
  qed
qed

lemma zero_words_iff:
  assumes "bs_inv b n"
  shows "(\<forall>j < BITSET_USED n. bits b ! j = 0) \<longleftrightarrow> bset b = {}"
proof
  assume "\<forall>j < BITSET_USED n. bits b ! j = 0"
  then show "bset b = {}" using assms by (auto simp: bset_def bitat_def bs_inv_def bs_raw_def)
next
  assume e: "bset b = {}"
  have "bits b ! j = 0" if j: "j < BITSET_USED n" for j
  proof (rule bit_word_eqI)
    fix k assume "k < LENGTH(64)"
    then have k: "k < BITSET_BITS" by (simp add: BITSET_BITS_def)
    let ?i = "j * BITSET_BITS + k"
    have dm: "?i div BITSET_BITS = j" "?i mod BITSET_BITS = k" using k by auto
    have "j * BITSET_BITS + BITSET_BITS \<le> BITSET_BITS * BITSET_USED n"
      using mult_le_mono1 [of "Suc j" "BITSET_USED n" BITSET_BITS] j by (simp add: algebra_simps)
    then have "?i < BITSET_BITS * BITSET_USED n" using k by linarith
    then have "\<not> bitat b ?i"
      using assms e by (cases "?i < n") (auto simp: bset_def bs_inv_def bs_raw_def)
    then have "\<not> bit (bits b ! j) k" unfolding bitat_def dm .
    then show "bit (bits b ! j) k = bit (0 :: 64 word) k" by simp
  qed
  then show "\<forall>j < BITSET_USED n. bits b ! j = 0" by blast
qed

lemma bitset_test_empty_eq:
  assumes "bs_inv b n"
  shows "bitset_test_empty (Some b) = Inr (bset b = {})"
proof -
  have n: "nbits b = n" using assms by (simp add: bs_inv_def bs_raw_def)
  obtain k where "empty_loop b 0 = Inr k"
    and "k = BITSET_USED n \<longleftrightarrow> (\<forall>j < BITSET_USED n. bits b ! j = 0)"
    using empty_loop_ok [OF bs_invD [OF assms] le0] by (auto elim!: ok_E)
  then show ?thesis using zero_words_iff [OF assms] n by (simp add: bitset_test_empty_def)
qed

text \<open>A set bit makes the test fail even when the unused bits are not zero.\<close>

lemma bitset_test_empty_nonempty:
  assumes "bs_raw b n" "i \<in> bset b"
  shows "bitset_test_empty (Some b) = Inr False"
proof -
  have n: "nbits b = n" using assms by (simp add: bs_raw_def)
  have "bits b ! (i div BITSET_BITS) \<noteq> 0" "i div BITSET_BITS < BITSET_USED n"
    using assms by (auto simp: bset_def bitat_def bs_raw_def)
  moreover obtain k where "empty_loop b 0 = Inr k"
    and "k = BITSET_USED n \<longleftrightarrow> (\<forall>j < BITSET_USED n. bits b ! j = 0)"
    using empty_loop_ok [OF assms(1) le0] by (auto elim!: ok_E)
  ultimately show ?thesis using n by (auto simp: bitset_test_empty_def)
qed

lemma bitset_test_empty_None [simp]: "bitset_test_empty None = Inr True"
  by (simp add: bitset_test_empty_def)

section \<open>Properties\<close>

text \<open>
  C33. The set operations of \<open>bitset.c\<close> refine the operations on sets of positions: on bitsets
  of one width, union, complement, subtraction and negation return, without touching memory
  outside their arrays, a well-formed bitset of that width with exactly the expected positions.
\<close>

theorem bitset_algebra_refines:
  assumes "bs_inv a n" "bs_inv b n"
  shows "ok (bitset_union a (Some b)) (\<lambda>t. bs_inv t n \<and> bset t = bset a \<union> bset b) \<and>
    ok (bitset_complement junk (Some a) (Some b)) (\<lambda>t. \<exists>c. t = Some c \<and> bs_inv c n \<and> bset c = bset a - bset b) \<and>
    ok (bitset_subtract a b) (\<lambda>t. bs_inv t n \<and> bset t = bset a - bset b) \<and>
    (bset b \<subseteq> bset a \<longrightarrow> ok (bitset_negate a b) (\<lambda>t. bs_inv t n \<and> bset t = bset a - bset b))"
  using assms bitset_union_ok [of a n "Some b"] bitset_complement_ok [of a n b junk] bitset_subtract_ok [of a n b]
    bitset_negate_ok [of a n b] by auto

theorem bitset_algebra_refines_witness:
  "ok (bitset_subtract \<lparr>bits = [5, 33], nbits = 70\<rparr> \<lparr>bits = [4, 32], nbits = 70\<rparr>) (\<lambda>t. bs_inv t 70 \<and> bset t = {0, 64}) \<and>
   ok (bitset_union \<lparr>bits = [5, 33], nbits = 70\<rparr> (Some \<lparr>bits = [2, 32], nbits = 70\<rparr>)) (\<lambda>t. bs_inv t 70 \<and> bset t = {0, 1, 2, 64, 69}) \<and>
   ok (bitset_negate \<lparr>bits = [5, 33], nbits = 70\<rparr> \<lparr>bits = [4, 32], nbits = 70\<rparr>) (\<lambda>t. bs_inv t 70 \<and> bset t = {0, 64})"
proof -
  have all: "(\<forall>i. m \<le> i \<longrightarrow> i < k \<longrightarrow> P i) \<longleftrightarrow> list_all P [m..<k]" for m k and P :: "nat \<Rightarrow> bool"
    by (auto simp: list_all_iff)
  have coll: "{i. i < k \<and> P i} = set (filter P [0..<k])" for k and P :: "nat \<Rightarrow> bool" by auto
  have inv: "bs_inv \<lparr>bits = [5, 33], nbits = 70\<rparr> 70" "bs_inv \<lparr>bits = [4, 32], nbits = 70\<rparr> 70" "bs_inv \<lparr>bits = [2, 32], nbits = 70\<rparr> 70"
    unfolding bs_inv_def all by code_simp+
  have sets: "bset \<lparr>bits = [5, 33], nbits = 70\<rparr> = {0, 2, 64, 69}" "bset \<lparr>bits = [4, 32], nbits = 70\<rparr> = {2, 69}"
      "bset \<lparr>bits = [2, 32], nbits = 70\<rparr> = {1, 69}"
    unfolding bset_def coll by code_simp+
  have "{0, 2, 64, 69} - {2, 69} = {0, 64 :: nat}" "{0, 2, 64, 69} \<union> {1, 69} = {0, 1, 2, 64, 69 :: nat}" by auto
  then show ?thesis
    using bitset_algebra_refines [OF inv(1) inv(2)] bitset_algebra_refines [OF inv(1) inv(3)] unfolding sets by simp
qed

text \<open>
  The observers compute what they are named for: the number of positions, the least
  position or \<open>-1\<close>, the only position or \<open>-1\<close>, and emptiness.
\<close>

theorem bitset_observers:
  assumes "bs_inv b n"
  shows "bitset_count_set b = Inr (card (bset b)) \<and>
    bitset_first_bit_set (Some b) = Inr (if bset b = {} then - 1 else int (Min (bset b))) \<and>
    bitset_test_singleton (Some b) = Inr (if card (bset b) = 1 then int (the_elem (bset b)) else - 1) \<and>
    bitset_test_empty (Some b) = Inr (bset b = {})"
proof -
  have raw: "bs_raw b n" using assms by simp
  show ?thesis
    unfolding bitset_count_set_eq [OF raw] bitset_first_bit_set_eq [OF raw] bitset_test_singleton_eq [OF raw]
      bitset_test_empty_eq [OF assms] by simp
qed

theorem bitset_observers_witness:
  "bitset_test_singleton (Some (bitset_reset (bitset_init (\<lambda>_. 5) 3))) = Inr (- 1)"
  using bitset_observers [of "bitset_reset (bitset_init (\<lambda>_. 5) 3)" 3] by simp

text \<open>
  Setting a bit and reading any position back gives the set with that position added; a
  position at or beyond the width aborts, on the write as on the read.
\<close>

lemma bitset_set_test:
  assumes "bs_raw b n"
  shows "rbind (bitset_set_bit b i) (\<lambda>t. bitset_test_bit t j) =
    (if i < n \<and> j < n then Inr (j = i \<or> j \<in> bset b) else Inl Abort)"
proof (cases "i < n")
  case True
  then obtain t where t: "bitset_set_bit b i = Inr t" "bs_raw t n" "bset t = insert i (bset b)"
    using bitset_set_bit_ok [OF assms True] by (auto elim!: ok_E)
  then show ?thesis
    using True bitset_test_bit_eq [OF t(2), of j] bitset_out_of_range(1) [of t j] by (simp add: bs_raw_def not_less)
next
  case False
  then show ?thesis using assms bitset_out_of_range(2) [of b i] by (simp add: bs_raw_def)
qed

end
