(* ===== verification/WSTree.thy ===== *)
theory WSTree
  imports Localcond Bitset
begin

text \<open>
  The exact confidence computation of \<^verbatim>\<open>backend/maybms/ws-tree.c\<close>: independent
  partitioning and variable elimination over the descriptors \<open>S\<close>, and the transition and
  final functions of the aggregate \<open>conf()\<close>.

  The descriptors and the world table are threaded as state because the elimination drops
  maps in place and restores them and because the variable choice counts in the world table.
  \<open>WSD_LEN\<close> is the argument \<open>L\<close>, \<open>NUM_WSDS\<close> the length of the list, \<open>junk\<close> the contents of
  freshly allocated memory. The recursions carry fuel: \<open>dfs\<close> never nests deeper than the
  number of descriptors and \<open>indve_compute_prob\<close> never deeper than \<open>tree_size\<close>, the number of
  descriptors and undropped maps in its set.

  The main facts: \<open>indve_compute_prob\<close> returns the probability that one of the descriptors
  holds and restores the descriptors (\<open>indve_compute_prob_solves\<close>), so \<open>conf()\<close> computes the
  probability of the lineage in every world table that extends its conditions
  (\<open>conf_final_ge_ok\<close>).
\<close>

type_synonym junk = "nat \<Rightarrow> 64 word"

section \<open>Independent partitioning\<close>

text \<open>The maps of a descriptor are never null, so the null tests of \<open>compare_map\<close> do not appear.\<close>

definition compare_map :: "Map_t \<Rightarrow> Map_t \<Rightarrow> int" where
  "compare_map m1 m2 =
     (if m_rng m1 = - 1 \<or> m_rng m2 = - 1 then 0
      else if m_var m1 = m_var m2 then
        if m_rng m1 = m_rng m2 then if m_neg m1 = m_neg m2 then - 2 else - 1
        else if m_neg m1 \<noteq> m_neg m2 then 3
        else if m_neg m1 \<noteq> 0 \<and> m_neg m2 \<noteq> 0 then 2
        else - 1
      else 0)"

definition wsd_ind :: "nat \<Rightarrow> WSD \<Rightarrow> WSD \<Rightarrow> bool res" where
  "wsd_ind L d1 d2 =
     rbind (first_index L (\<lambda>i.
       rbind (aread (d_data d1) i) (\<lambda>m1.
       rbind (first_index L (\<lambda>j. rbind (aread (d_data d2) j) (\<lambda>m2. Inr (compare_map m1 m2 \<noteq> 0))) 0) (\<lambda>j.
       Inr (j < L)))) 0) (\<lambda>i. Inr (i = L))"

fun dfs :: "nat \<Rightarrow> nat \<Rightarrow> WSD list \<Rightarrow> bitset \<Rightarrow> bitset \<Rightarrow> nat \<Rightarrow> bitset res" where
  "dfs 0 L ws bs to_construct idx = Inl OutOfFuel"
| "dfs (Suc fuel) L ws bs to_construct idx =
     rbind (bitset_set_bit to_construct idx) (\<lambda>to_construct.
     for_upto (length ws) (\<lambda>j to_construct.
       rbind (bitset_test_bit bs j) (\<lambda>b.
       if \<not> b then Inr to_construct
       else rbind (bitset_test_bit to_construct j) (\<lambda>b'.
         if b' then Inr to_construct
         else rbind (aread ws idx) (\<lambda>d1. rbind (aread ws j) (\<lambda>d2.
           rbind (wsd_ind L d1 d2) (\<lambda>ind.
           if \<not> ind \<and> idx \<noteq> j then dfs fuel L ws bs to_construct j else Inr to_construct)))))) to_construct)"

definition find_independent_split :: "junk \<Rightarrow> nat \<Rightarrow> WSD list \<Rightarrow> bitset option \<Rightarrow> bitset option res" where
  "find_independent_split junk L ws bs =
     rbind (bitset_test_empty bs) (\<lambda>e.
     if e then Inr None
     else rbind (deref bs) (\<lambda>b.
       let sub = bitset_reset (bitset_init junk (length ws)) in
       rbind (first_index (length ws) (bitset_test_bit b) 0) (\<lambda>i.
       if i = length ws then Inl (Elog ''An invalid input of bitset!'')
       else rbind (dfs (length ws) L ws b sub i) (\<lambda>sub. Inr (Some sub)))))"

section \<open>The choice of a variable\<close>

definition incr_count :: "nat \<times> nat \<Rightarrow> generalState \<Rightarrow> generalState res" where
  "incr_count kj s =
     (let (k, j) = kj in
      rbind (aread (wt_entries s) k) (\<lambda>e.
      rbind (aread (rng_entries e) j) (\<lambda>r.
      Inr (s\<lparr>wt_entries := (wt_entries s)[k := e\<lparr>rng_entries := (rng_entries e)[j := r\<lparr>re_count := re_count r + 1\<rparr>]\<rparr>]\<rparr>))))"

definition count_assignments :: "nat \<Rightarrow> WSD list \<Rightarrow> bitset \<Rightarrow> generalState \<Rightarrow> (generalState \<times> nat) res" where
  "count_assignments L ws bs s =
     for_upto (length ws) (\<lambda>i (s, set_size).
       rbind (bitset_test_bit bs i) (\<lambda>b.
       if b then
         rbind (for_upto L (\<lambda>j s.
           rbind (aread ws i) (\<lambda>d. rbind (aread (d_data d) j) (\<lambda>mp.
           if m_rng mp \<ge> 0 then rbind (deref (rng_entry mp)) (\<lambda>kj. incr_count kj s) else Inr s))) s)
         (\<lambda>s. Inr (s, Suc set_size))
       else Inr (s, set_size))) (s, 0)"

text \<open>One step of the loop over the world table: \<open>val\<close> is the best estimate so far, \<open>-1\<close> for none.\<close>

definition minlog_step :: "nat \<Rightarrow> nat \<Rightarrow> worldTableEntry \<Rightarrow> int \<times> nat option \<Rightarrow> int \<times> nat option" where
  "minlog_step set_size i e st =
     (let (val, result) = st;
          cs = map re_count (rng_entries e);
          how_many_diff_assignments = length (filter (\<lambda>c. c > 0) cs);
          how_many_assignments = sum_list (filter (\<lambda>c. c > 0) cs)
      in if how_many_diff_assignments \<noteq> 0 then
           let t = int set_size - how_many_assignments;
               new_val = int (length (rng_entries e)) * t + sum_list cs
           in if val > new_val \<or> val = - 1 then (new_val, Some i) else (val, result)
         else (val, result))"

definition choose_var_minlog :: "nat \<Rightarrow> WSD list \<Rightarrow> bitset \<Rightarrow> generalState \<Rightarrow> (generalState \<times> nat option) res" where
  "choose_var_minlog L ws bs s =
     rbind (count_assignments L ws bs (resetCount s)) (\<lambda>(s, set_size).
     rbind (for_upto (length (wt_entries s)) (\<lambda>i st.
       rbind (aread (wt_entries s) i) (\<lambda>e. Inr (minlog_step set_size i e st))) (- 1, None)) (\<lambda>(val, result).
     Inr (s, result)))"

section \<open>Variable elimination\<close>

text \<open>\<open>if (subset == NULL) \{ subset = bitset_init(NUM_WSDS); bitset_reset(subset); \}\<close>\<close>

definition alloc_subset :: "junk \<Rightarrow> nat \<Rightarrow> bitset option \<Rightarrow> bitset" where
  "alloc_subset junk n sub = (case sub of None \<Rightarrow> bitset_reset (bitset_init junk n) | Some b \<Rightarrow> b)"

definition find_wsds_without_var :: "junk \<Rightarrow> nat \<Rightarrow> WSD list \<Rightarrow> bitset \<Rightarrow> int \<Rightarrow> bitset option res" where
  "find_wsds_without_var junk L ws bs var =
     for_upto (length ws) (\<lambda>i sub.
       rbind (bitset_test_bit bs i) (\<lambda>b.
       if b then
         rbind (aread ws i) (\<lambda>d.
         rbind (first_index L (\<lambda>j. rbind (aread (d_data d) j) (\<lambda>mp. Inr (m_var mp = var))) 0) (\<lambda>j.
         if j = L then rbind (bitset_set_bit (alloc_subset junk (length ws) sub) i) (\<lambda>b. Inr (Some b))
         else Inr sub))
       else Inr sub)) None"

definition reset_wsd :: "nat \<Rightarrow> int \<Rightarrow> int \<Rightarrow> WSD \<Rightarrow> WSD res" where
  "reset_wsd L var rng d =
     for_upto L (\<lambda>j d. rbind (aread (d_data d) j) (\<lambda>mp.
       if m_var mp = var
       then Inr (d\<lparr>d_data := (d_data d)[j := mp\<lparr>m_rng := rng\<rparr>], d_prob := d_prob d * m_prob mp\<rparr>)
       else Inr d)) d"

definition reset_wsds_var_rng :: "nat \<Rightarrow> bitset \<Rightarrow> int \<Rightarrow> int \<Rightarrow> WSD list \<Rightarrow> WSD list res" where
  "reset_wsds_var_rng L bs var rng ws =
     for_upto (length ws) (\<lambda>i ws.
       rbind (bitset_test_bit bs i) (\<lambda>b.
       if b then rbind (aread ws i) (\<lambda>d. rbind (reset_wsd L var rng d) (\<lambda>d. Inr (ws[i := d])))
       else Inr ws)) ws"

text \<open>The scan of \<open>find_wsds_with_var_rng\<close>; the result tells whether an empty descriptor was found.\<close>

function with_var_loop :: "junk \<Rightarrow> nat \<Rightarrow> nat \<Rightarrow> bitset \<Rightarrow> int \<Rightarrow> int \<Rightarrow> nat \<Rightarrow> WSD list \<Rightarrow> bitset option \<Rightarrow>
    (WSD list \<times> bitset option \<times> bool) res" where
  "with_var_loop junk n L bs var rng i ws sub =
     (if i < n then
        rbind (bitset_test_bit bs i) (\<lambda>b.
        if b then
          rbind (aread ws i) (\<lambda>d.
          rbind (first_index L (\<lambda>j. rbind (aread (d_data d) j) (\<lambda>mp. Inr (m_var mp = var \<and> m_rng mp = rng))) 0) (\<lambda>j.
          if j < L then
            rbind (bitset_set_bit (alloc_subset junk n sub) i) (\<lambda>sub.
            rbind (aread (d_data d) j) (\<lambda>mp.
            let d' = d\<lparr>d_data := (d_data d)[j := mp\<lparr>m_rng := - 1\<rparr>], d_prob := d_prob d / m_prob mp\<rparr> in
            if d_prob d' = 1 then Inr (ws[i := d'], Some sub, True)
            else with_var_loop junk n L bs var rng (Suc i) (ws[i := d']) (Some sub)))
          else with_var_loop junk n L bs var rng (Suc i) ws sub))
        else with_var_loop junk n L bs var rng (Suc i) ws sub)
      else Inr (ws, sub, False))"
  by pat_completeness auto
termination
  by (relation "measure (\<lambda>(junk, n, L, bs, var, rng, i, ws, sub). n - i)") auto

declare with_var_loop.simps [simp del]

definition find_wsds_with_var_rng ::
  "junk \<Rightarrow> nat \<Rightarrow> bitset \<Rightarrow> int \<Rightarrow> int \<Rightarrow> WSD list \<Rightarrow> (WSD list \<times> bitset option) res" where
  "find_wsds_with_var_rng junk L bs var rng ws =
     rbind (with_var_loop junk (length ws) L bs var rng 0 ws None) (\<lambda>(ws, sub, found_empty_wsd).
     if found_empty_wsd then
       rbind (deref sub) (\<lambda>b.
       rbind (reset_wsds_var_rng L b var rng ws) (\<lambda>ws.
       Inr (ws, Some (bitset_reset b))))
     else Inr (ws, sub))"

section \<open>The tree\<close>

type_synonym 'a comp = "WSD list \<Rightarrow> generalState \<Rightarrow> ('a \<times> WSD list \<times> generalState) res"

text \<open>
  One range value of the chosen variable; \<open>rec\<close> is the recursive call. The result is the
  contribution of the range value and \<open>p_without_var\<close>.
\<close>

definition rng_branch :: "(bitset option \<Rightarrow> real comp) \<Rightarrow> junk \<Rightarrow> nat \<Rightarrow> bitset \<Rightarrow> bitset option \<Rightarrow> int \<Rightarrow>
    rngEntry \<Rightarrow> real \<Rightarrow> (real \<times> real) comp" where
  "rng_branch rec junk L sub subset_without_var var r p_without_var ws s =
     rbind (find_wsds_with_var_rng junk L sub var (re_rng r) ws) (\<lambda>(ws, subset_var_rng).
     case subset_var_rng of
       None \<Rightarrow>
         rbind (if p_without_var = - 1 then rec subset_without_var ws s else Inr (p_without_var, ws, s))
           (\<lambda>(p, ws, s). Inr ((re_p r * p, p), ws, s))
     | Some b \<Rightarrow>
         rbind (bitset_test_empty (Some b)) (\<lambda>e.
         if e then Inr ((re_p r, p_without_var), ws, s)
         else
           rbind (bitset_union b subset_without_var) (\<lambda>b.
           rbind (rec (Some b) ws s) (\<lambda>(p, ws, s).
           rbind (reset_wsds_var_rng L b var (re_rng r) ws) (\<lambda>ws.
           Inr ((re_p r * p, p_without_var), ws, s))))))"

text \<open>The loop over the range values: \<open>p_left\<close>, and whether the function returns at once.\<close>

fun rng_loop :: "(bitset option \<Rightarrow> real comp) \<Rightarrow> junk \<Rightarrow> nat \<Rightarrow> bitset \<Rightarrow> bitset option \<Rightarrow> int \<Rightarrow>
    nat \<Rightarrow> rngEntry list \<Rightarrow> real \<Rightarrow> real \<Rightarrow> (real \<times> bool) comp" where
  "rng_loop rec junk L sub wo var cnt [] p_left p_without_var ws s = Inr ((p_left, False), ws, s)"
| "rng_loop rec junk L sub wo var cnt (r # rs) p_left p_without_var ws s =
     rbind (rng_branch rec junk L sub wo var r p_without_var ws s) (\<lambda>((cur_prob, p_without_var), ws, s).
     if p_left + cur_prob = 1 \<and> cnt = 1 then Inr ((1, True), ws, s)
     else rng_loop rec junk L sub wo var cnt rs (p_left + cur_prob) p_without_var ws s)"

text \<open>
  The left subset. The range values are read once: only their counts change while the loop
  runs, and those are not used.
\<close>

definition left_prob :: "(bitset option \<Rightarrow> real comp) \<Rightarrow> junk \<Rightarrow> nat \<Rightarrow> bitset \<Rightarrow> (real \<times> bool) comp" where
  "left_prob rec junk L sub ws s =
     rbind (bitset_test_singleton (Some sub)) (\<lambda>pos.
     if pos \<noteq> - 1 then rbind (aread ws (nat pos)) (\<lambda>d. Inr ((d_prob d, False), ws, s))
     else
       rbind (choose_var_minlog L ws sub s) (\<lambda>(s, entry).
       case entry of
         None \<Rightarrow> Inr ((1, True), ws, s)
       | Some k \<Rightarrow>
           rbind (aread (wt_entries s) k) (\<lambda>e.
           rbind (find_wsds_without_var junk L ws sub (we_var e)) (\<lambda>subset_without_var.
           rng_loop rec junk L sub subset_without_var (we_var e) (length (rng_entries e)) (rng_entries e)
             0 (- 1) ws s))))"

primrec indve_compute_prob :: "nat \<Rightarrow> junk \<Rightarrow> nat \<Rightarrow> bitset option \<Rightarrow> real comp" where
  "indve_compute_prob 0 = (\<lambda>junk L bs ws s. Inl OutOfFuel)"
| "indve_compute_prob (Suc fuel) = (\<lambda>junk L bs ws s.
     rbind (bitset_test_empty bs) (\<lambda>e.
     if e then Inr (0, ws, s)
     else
       rbind (find_independent_split junk L ws bs) (\<lambda>split.
       rbind (deref split) (\<lambda>sub.
       rbind (left_prob (indve_compute_prob fuel junk L) junk L sub ws s) (\<lambda>((p_left, ret), ws, s).
       if ret \<or> p_left = 1 then Inr (1, ws, s)
       else
         rbind (deref bs) (\<lambda>b.
         rbind (bitset_negate b sub) (\<lambda>sub.
         rbind (indve_compute_prob fuel junk L (Some sub) ws s) (\<lambda>(p_right, ws, s).
         Inr (p_left + p_right - p_left * p_right, ws, s)))))))))"

section \<open>The aggregate \<open>conf()\<close>\<close>

definition TREE_FUEL :: "nat \<Rightarrow> nat \<Rightarrow> nat" where
  "TREE_FUEL n L = n * Suc L + 1"

definition conf_final_ge :: "junk \<Rightarrow> lineage \<Rightarrow> generalState \<Rightarrow> (real \<times> lineage \<times> generalState) res" where
  "conf_final_ge junk l s =
     (if \<not> groupcxt l then Inr (0, l, s)
      else
        rbind (getMissingRngs s) (\<lambda>s.
        rbind (deref (S l)) (\<lambda>ws.
        rbind (computeEntryPointers (WSD_LEN l) s ws) (\<lambda>ws.
        rbind (bitset_set (bitset_init junk (length ws))) (\<lambda>b.
        rbind (indve_compute_prob (TREE_FUEL (length ws) (WSD_LEN l)) junk (WSD_LEN l) (Some b) ws s) (\<lambda>(result, ws, s).
        Inr (result, l\<lparr>S := None, groupcxt := False\<rparr>, s)))))))"

definition conf_accum1_ge where "conf_accum1_ge = accum 1"
definition conf_accum2_ge where "conf_accum2_ge = accum 2"
definition conf_accum3_ge where "conf_accum3_ge = accum 3"
definition conf_accum4_ge where "conf_accum4_ge = accum 4"
definition conf_accum5_ge where "conf_accum5_ge = accum 5"
definition conf_accum6_ge where "conf_accum6_ge = accum 6"
definition conf_accum7_ge where "conf_accum7_ge = accum 7"
definition conf_accum8_ge where "conf_accum8_ge = accum 8"
definition conf_accum9_ge where "conf_accum9_ge = accum 9"
definition conf_accum10_ge where "conf_accum10_ge = accum 10"
definition conf_accum11_ge where "conf_accum11_ge = accum 11"
definition conf_accum12_ge where "conf_accum12_ge = accum 12"
definition conf_accum13_ge where "conf_accum13_ge = accum 13"
definition conf_accum14_ge where "conf_accum14_ge = accum 14"
definition conf_accum15_ge where "conf_accum15_ge = accum 15"
definition conf_accum16_ge where "conf_accum16_ge = accum 16"
definition conf_accum17_ge where "conf_accum17_ge = accum 17"
definition conf_accum18_ge where "conf_accum18_ge = accum 18"
definition conf_accum19_ge where "conf_accum19_ge = accum 19"
definition conf_accum20_ge where "conf_accum20_ge = accum 20"

section \<open>What a descriptor means\<close>

text \<open>A map whose range is \<open>-1\<close> is dropped: it constrains nothing until it is restored.\<close>

definition live :: "Map_t \<Rightarrow> bool" where
  "live mp \<longleftrightarrow> m_rng mp \<noteq> - 1"

definition lvars :: "WSD \<Rightarrow> int set" where
  "lvars d = m_var ` {mp \<in> set (d_data d). live mp}"

definition sat :: "WSD \<Rightarrow> world \<Rightarrow> bool" where
  "sat d \<tau> \<longleftrightarrow> (\<forall>mp \<in> set (d_data d). live mp \<longrightarrow> \<tau> (m_var mp) = m_rng mp)"

definition dnf :: "WSD list \<Rightarrow> nat set \<Rightarrow> world \<Rightarrow> bool" where
  "dnf ws X \<tau> \<longleftrightarrow> (\<exists>i \<in> X. sat (ws ! i) \<tau>)"

text \<open>
  The invariant of a descriptor over the completed world table \<open>W\<close>: distinct variables,
  pointers that lead to the range value and probability of every undropped map, and the
  product of the undropped probabilities.
\<close>

definition lit_at :: "wtable \<Rightarrow> Map_t \<Rightarrow> bool" where
  "lit_at W mp \<longleftrightarrow> (\<exists>k j. rng_entry mp = Some (k, j) \<and> k < length W \<and> fst (W ! k) = m_var mp \<and>
     j < length (snd (W ! k)) \<and> snd (W ! k) ! j = (m_rng mp, m_prob mp))"

definition map_inv :: "wtable \<Rightarrow> Map_t \<Rightarrow> bool" where
  "map_inv W mp \<longleftrightarrow> m_prob mp \<noteq> 0 \<and> (live mp \<longrightarrow> 0 \<le> m_rng mp \<and> lit_at W mp)"

definition wsd_inv :: "nat \<Rightarrow> wtable \<Rightarrow> WSD \<Rightarrow> bool" where
  "wsd_inv L W d \<longleftrightarrow> length (d_data d) = L \<and> distinct (map m_var (d_data d)) \<and>
     (\<forall>mp \<in> set (d_data d). map_inv W mp) \<and>
     d_prob d = prod_list (map m_prob (filter live (d_data d)))"

lemma sat_depends: "depends (lvars d) (sat d)"
  unfolding depends_def sat_def lvars_def
proof (intro allI impI)
  fix \<tau> \<tau>' :: world
  assume "\<forall>v \<in> m_var ` {mp \<in> set (d_data d). live mp}. \<tau> v = \<tau>' v"
  then have "\<And>mp. mp \<in> set (d_data d) \<Longrightarrow> live mp \<Longrightarrow> \<tau> (m_var mp) = \<tau>' (m_var mp)" by blast
  then show "(\<forall>mp\<in>set (d_data d). live mp \<longrightarrow> \<tau> (m_var mp) = m_rng mp) =
      (\<forall>mp\<in>set (d_data d). live mp \<longrightarrow> \<tau>' (m_var mp) = m_rng mp)" by auto
qed

lemma dnf_depends: "depends (\<Union>i\<in>X. lvars (ws ! i)) (dnf ws X)"
  unfolding depends_def dnf_def
proof (intro allI impI)
  fix \<tau> \<tau>' :: world assume a: "\<forall>v \<in> (\<Union>i\<in>X. lvars (ws ! i)). \<tau> v = \<tau>' v"
  have "sat (ws ! i) \<tau> = sat (ws ! i) \<tau>'" if "i \<in> X" for i
    using sat_depends [of "ws ! i"] a that unfolding depends_def by (metis UN_I)
  then show "(\<exists>i\<in>X. sat (ws ! i) \<tau>) = (\<exists>i\<in>X. sat (ws ! i) \<tau>')" by blast
qed

text \<open>The probability field of a descriptor is the probability of the descriptor.\<close>

lemma Pr_sat:
  assumes "wt_ok W" "wsd_inv L W d"
  shows "Pr W (sat d) = d_prob d"
proof -
  let ?ls = "map (\<lambda>mp. (m_var mp, m_rng mp, m_prob mp)) (filter live (d_data d))"
  have "Pr W (\<lambda>\<tau>. \<forall>(v, r, p) \<in> set ?ls. \<tau> v = r) = prod_list (map (\<lambda>(v, r, p). p) ?ls)"
  proof (rule Pr_conj [OF assms(1)])
    show "distinct (map fst ?ls)" using assms(2) by (simp add: wsd_inv_def comp_def distinct_map_filter)
  next
    fix v r p assume "(v, r, p) \<in> set ?ls"
    then obtain mp where "mp \<in> set (d_data d)" "live mp" "v = m_var mp" "r = m_rng mp" "p = m_prob mp" by auto
    moreover from this have "lit_at W mp" using assms(2) by (auto simp: wsd_inv_def map_inv_def)
    then obtain k j where "k < length W" "fst (W ! k) = m_var mp" "j < length (snd (W ! k))"
      "snd (W ! k) ! j = (m_rng mp, m_prob mp)" by (auto simp: lit_at_def)
    ultimately show "\<exists>e. (v, e) \<in> set W \<and> (r, p) \<in> set e"
      by (intro exI [of _ "snd (W ! k)"]) (metis nth_mem prod.collapse)
  qed
  moreover have "(\<lambda>\<tau>. \<forall>(v, r, p) \<in> set ?ls. \<tau> v = r) = sat d" by (auto simp: sat_def fun_eq_iff)
  moreover have "map (\<lambda>(v, r, p). p) ?ls = map m_prob (filter live (d_data d))" by simp
  moreover have "d_prob d = prod_list (map m_prob (filter live (d_data d)))" using assms(2) by (simp add: wsd_inv_def)
  ultimately show ?thesis by (simp only:)
qed

section \<open>Independent partitioning\<close>

lemma compare_map_dep: "compare_map m1 m2 \<noteq> 0 \<longleftrightarrow> live m1 \<and> live m2 \<and> m_var m1 = m_var m2"
  by (simp add: compare_map_def live_def)

text \<open>Two descriptors are independent when they share no undropped variable.\<close>

lemma wsd_ind_eq:
  assumes "length (d_data d1) = L" "length (d_data d2) = L"
  shows "wsd_ind L d1 d2 = Inr (lvars d1 \<inter> lvars d2 = {})"
proof -
  let ?in = "\<lambda>m1. first_index L (\<lambda>j. rbind (aread (d_data d2) j) (\<lambda>m2. Inr (compare_map m1 m2 \<noteq> 0))) 0"
  let ?Q = "\<lambda>m1. live m1 \<and> m_var m1 \<in> lvars d2"
  have inner: "rbind (?in m1) (\<lambda>j. Inr (j < L)) = Inr (?Q m1)" for m1
  proof -
    obtain k where k: "?in m1 = Inr k" "k \<le> L" "\<forall>j<k. compare_map m1 (d_data d2 ! j) = 0"
      "k < L \<longrightarrow> compare_map m1 (d_data d2 ! k) \<noteq> 0"
      using first_index_list [of L "d_data d2" "\<lambda>m2. compare_map m1 m2 \<noteq> 0"] assms(2) by (auto elim!: ok_E)
    have "k < L \<longleftrightarrow> (\<exists>m2 \<in> set (d_data d2). compare_map m1 m2 \<noteq> 0)"
    proof
      assume "k < L"
      then show "\<exists>m2 \<in> set (d_data d2). compare_map m1 m2 \<noteq> 0" using k(4) assms(2) by auto
    next
      assume "\<exists>m2 \<in> set (d_data d2). compare_map m1 m2 \<noteq> 0"
      then obtain j where "j < L" "compare_map m1 (d_data d2 ! j) \<noteq> 0" using assms(2) by (auto simp: in_set_conv_nth)
      then show "k < L" using k(3) by (meson le_less_trans not_less)
    qed
    also have "\<dots> \<longleftrightarrow> ?Q m1" by (auto simp: compare_map_dep lvars_def)
    finally show ?thesis using k(1) by simp
  qed
  have eq: "wsd_ind L d1 d2 = rbind (first_index L (\<lambda>i. rbind (aread (d_data d1) i) (\<lambda>m1. Inr (?Q m1))) 0) (\<lambda>i. Inr (i = L))"
    unfolding wsd_ind_def inner ..
  obtain k where k: "first_index L (\<lambda>i. rbind (aread (d_data d1) i) (\<lambda>m1. Inr (?Q m1))) 0 = Inr k" "k \<le> L"
    "\<forall>j<k. \<not> ?Q (d_data d1 ! j)" "k < L \<longrightarrow> ?Q (d_data d1 ! k)"
    using first_index_list [of L "d_data d1" ?Q] assms(1) by (auto elim!: ok_E)
  have "k = L \<longleftrightarrow> (\<forall>m1 \<in> set (d_data d1). \<not> ?Q m1)"
  proof
    assume "k = L"
    then show "\<forall>m1 \<in> set (d_data d1). \<not> ?Q m1" using k(3) assms(1) by (metis in_set_conv_nth)
  next
    assume "\<forall>m1 \<in> set (d_data d1). \<not> ?Q m1"
    then show "k = L" using k(2,4) assms(1) by (metis le_neq_implies_less nth_mem)
  qed
  also have "\<dots> \<longleftrightarrow> lvars d1 \<inter> lvars d2 = {}" by (auto simp: lvars_def)
  finally show ?thesis unfolding eq using k(1) by simp
qed

definition dep :: "WSD list \<Rightarrow> nat \<Rightarrow> nat \<Rightarrow> bool" where
  "dep ws i j \<longleftrightarrow> lvars (ws ! i) \<inter> lvars (ws ! j) \<noteq> {}"

text \<open>
  The search adds \<open>idx\<close> and is closed under dependence from everything it adds. Its depth is
  bounded by the number of descriptors it has not visited.
\<close>

definition dfs_post :: "WSD list \<Rightarrow> bitset \<Rightarrow> bitset \<Rightarrow> nat \<Rightarrow> bitset \<Rightarrow> bool" where
  "dfs_post ws b c idx t \<longleftrightarrow> bs_inv t (length ws) \<and> insert idx (bset c) \<subseteq> bset t \<and> bset t \<subseteq> bset b \<and>
     (\<forall>x \<in> bset t - bset c. \<forall>y \<in> bset b. dep ws x y \<longrightarrow> y \<in> bset t)"

lemma dfs_ok:
  assumes "\<And>i. i < length ws \<Longrightarrow> length (d_data (ws ! i)) = L" "bs_raw b (length ws)"
    and "bs_inv c (length ws)" "bset c \<subseteq> bset b" "idx \<in> bset b" "idx \<notin> bset c" "card (bset b - bset c) \<le> fuel"
  shows "ok (dfs fuel L ws b c idx) (dfs_post ws b c idx)"
  using assms(3-7)
proof (induction fuel arbitrary: c idx)
  case 0
  then show ?case by auto
next
  case (Suc fuel)
  let ?n = "length ws"
  have idx: "idx < ?n" using bset_bound [OF assms(2)] Suc.prems(3) by auto
  obtain c1 where c1: "bitset_set_bit c idx = Inr c1" "bs_inv c1 ?n" "bset c1 = insert idx (bset c)"
    using clean.ins_ok [OF Suc.prems(1) idx] by (auto elim!: ok_E)
  let ?I = "\<lambda>j t. bs_inv t ?n \<and> insert idx (bset c) \<subseteq> bset t \<and> bset t \<subseteq> bset b \<and>
    (\<forall>x \<in> bset t - insert idx (bset c). \<forall>y \<in> bset b. dep ws x y \<longrightarrow> y \<in> bset t) \<and>
    (\<forall>y < j. y \<in> bset b \<longrightarrow> dep ws idx y \<longrightarrow> y \<in> bset t)"
  let ?f = "\<lambda>j c. rbind (bitset_test_bit b j) (\<lambda>tb. if \<not> tb then Inr c
       else rbind (bitset_test_bit c j) (\<lambda>b'. if b' then Inr c
         else rbind (aread ws idx) (\<lambda>d1. rbind (aread ws j) (\<lambda>d2. rbind (wsd_ind L d1 d2) (\<lambda>ind.
           if \<not> ind \<and> idx \<noteq> j then dfs fuel L ws b c j else Inr c)))))"
  have "ok (for_upto ?n ?f c1) (?I ?n)"
  proof (rule ok_for_upto [where I = ?I])
    show "?I 0 c1" using c1 Suc.prems by auto
  next
    fix j t assume j: "j < ?n" and I: "?I j t"
    have tb: "bitset_test_bit b j = Inr (j \<in> bset b)" using assms(2) j by (rule bitset_test_bit_eq)
    have tt: "bitset_test_bit t j = Inr (j \<in> bset t)" using I j clean.test_eq by blast
    have ind: "wsd_ind L (ws ! idx) (ws ! j) = Inr (\<not> dep ws idx j)"
      using wsd_ind_eq assms(1) j idx by (simp add: dep_def)
    show "ok (?f j t) (?I (Suc j))"
    proof (cases "j \<in> bset b \<and> j \<notin> bset t \<and> dep ws idx j")
      case True
      have "bset b - bset t \<subset> bset b - bset c" using I Suc.prems by blast
      then have "card (bset b - bset t) < card (bset b - bset c)" by (simp add: psubset_card_mono)
      then have "card (bset b - bset t) \<le> fuel" using Suc.prems(5) by linarith
      moreover have "bs_inv t ?n" "bset t \<subseteq> bset b" "j \<in> bset b" "j \<notin> bset t" using I True by blast+
      ultimately have "ok (dfs fuel L ws b t j) (dfs_post ws b t j)" by (intro Suc.IH)
      then have "ok (dfs fuel L ws b t j) (?I (Suc j))"
      proof (rule ok_mono)
        fix u assume u: "dfs_post ws b t j u"
        have "y \<in> bset u" if "x \<in> bset u - insert idx (bset c)" "y \<in> bset b" "dep ws x y" for x y
          using that u I unfolding dfs_post_def by (cases "x \<in> bset t") blast+
        moreover have "y \<in> bset u" if "y < Suc j" "y \<in> bset b" "dep ws idx y" for y
          using that u I unfolding dfs_post_def less_Suc_eq by blast
        moreover have "bs_inv u ?n" "insert idx (bset c) \<subseteq> bset u" "bset u \<subseteq> bset b"
          using u I unfolding dfs_post_def by blast+
        ultimately show "?I (Suc j) u" by (intro conjI ballI allI impI)
      qed
      moreover have "idx \<noteq> j" using True I by blast
      then have "?f j t = dfs fuel L ws b t j" using True j idx by (simp add: tb tt ind)
      ultimately show ?thesis by (simp only:)
    next
      case False
      then have "?f j t = Inr t" using j idx by (auto simp: tb tt ind)
      moreover have "?I (Suc j) t" using False I unfolding less_Suc_eq by blast
      ultimately show ?thesis by (rule ok_I)
    qed
  qed
  then have "ok (for_upto ?n ?f c1) (dfs_post ws b c idx)"
  proof (rule ok_mono)
    fix t assume I: "?I ?n t"
    have "y \<in> bset t" if "x \<in> bset t - bset c" "y \<in> bset b" "dep ws x y" for x y
    proof (cases "x = idx")
      case True
      then show ?thesis using that I bset_bound [OF assms(2)] by blast
    next
      case False
      then show ?thesis using that I by blast
    qed
    moreover have "bs_inv t ?n" "insert idx (bset c) \<subseteq> bset t" "bset t \<subseteq> bset b" using I by blast+
    ultimately show "dfs_post ws b c idx t" unfolding dfs_post_def by blast
  qed
  then show ?case using c1(1) by simp
qed

text \<open>A set argument as the functions pass it: possibly null, with junk in unused bits only when not empty.\<close>

definition oset :: "nat \<Rightarrow> bitset option \<Rightarrow> nat set \<Rightarrow> bool" where
  "oset n bs X \<longleftrightarrow> (case bs of None \<Rightarrow> X = {} | Some b \<Rightarrow> bset b = X \<and> bs_raw b n \<and> (X = {} \<longrightarrow> bs_inv b n))"

lemma oset_test_empty: "oset n bs X \<Longrightarrow> bitset_test_empty bs = Inr (X = {})"
proof (cases bs)
  case (Some b)
  assume "oset n bs X"
  then have b: "bset b = X" "bs_raw b n" "X = {} \<longrightarrow> bs_inv b n" using Some by (auto simp: oset_def)
  show ?thesis
  proof (cases "X = {}")
    case True
    then show ?thesis using bitset_test_empty_eq [of b n] b Some by simp
  next
    case False
    then obtain i where "i \<in> bset b" using b(1) by blast
    then show ?thesis using bitset_test_empty_nonempty [OF b(2)] Some False by simp
  qed
qed (simp add: oset_def)

lemma find_independent_split_ok:
  assumes "oset (length ws) bs X" "X \<noteq> {}" "\<And>i. i < length ws \<Longrightarrow> length (d_data (ws ! i)) = L"
  shows "ok (find_independent_split junk L ws bs) (\<lambda>r. \<exists>t. r = Some t \<and> bs_inv t (length ws) \<and>
    bset t \<subseteq> X \<and> bset t \<noteq> {} \<and> (\<forall>x \<in> bset t. \<forall>y \<in> X. dep ws x y \<longrightarrow> y \<in> bset t))"
proof -
  let ?n = "length ws"
  obtain b where b: "bs = Some b" "bset b = X" "bs_raw b ?n" using assms(1,2) by (auto simp: oset_def split: option.splits)
  have te: "bitset_test_empty bs = Inr False" using oset_test_empty [OF assms(1)] assms(2) by simp
  obtain i where i: "first_index ?n (bitset_test_bit b) 0 = Inr i" "i \<le> ?n" "\<forall>j<i. j \<notin> X" "i < ?n \<longrightarrow> i \<in> X"
    using first_index_ok [of ?n "bitset_test_bit b" "\<lambda>j. j \<in> X" 0] b by (auto simp: bitset_test_bit_eq elim!: ok_E)
  have "i \<noteq> ?n" using i(3) assms(2) bset_bound [OF b(3)] b(2) by blast
  then have iX: "i < ?n" "i \<in> X" using i by auto
  let ?c = "bitset_reset (bitset_init junk ?n)"
  have "card X \<le> ?n" using bset_bound [OF b(3)] b(2) card_mono [of "{..<?n}" X] by simp
  then have "ok (dfs ?n L ws b ?c i) (dfs_post ws b ?c i)"
    using dfs_ok [OF assms(3) b(3)] b iX by simp
  then obtain t where t: "dfs ?n L ws b ?c i = Inr t" "dfs_post ws b ?c i t" by (rule ok_E)
  then have "find_independent_split junk L ws bs = Inr (Some t)"
    using te b(1) i(1) iX by (simp add: find_independent_split_def)
  moreover have "bs_inv t ?n" "bset t \<subseteq> X" "i \<in> bset t" "\<forall>x \<in> bset t. \<forall>y \<in> X. dep ws x y \<longrightarrow> y \<in> bset t"
    using t(2) b(2) unfolding dfs_post_def by simp_all
  ultimately show ?thesis by (intro ok_I [OF \<open>find_independent_split junk L ws bs = Inr (Some t)\<close>] exI [of _ t]) blast
qed

section \<open>The choice of a variable\<close>

text \<open>\<open>counted s Q\<close>: the entries with a positive count are those at the positions \<open>Q\<close>.\<close>

definition counted :: "generalState \<Rightarrow> (nat \<times> nat) set \<Rightarrow> bool" where
  "counted s Q \<longleftrightarrow> (\<forall>k < length (wt_entries s). \<forall>j < length (rng_entries (wt_entries s ! k)).
     0 \<le> re_count (rng_entries (wt_entries s ! k) ! j) \<and>
     (0 < re_count (rng_entries (wt_entries s ! k) ! j) \<longleftrightarrow> (k, j) \<in> Q))"

lemma wt_dist_length: "length (wt_dist s) = length (wt_entries s)"
  by (simp add: wt_dist_def)

lemma wt_dist_nth: "k < length (wt_entries s) \<Longrightarrow> wt_dist s ! k =
    (we_var (wt_entries s ! k), map (\<lambda>r. (re_rng r, re_p r)) (rng_entries (wt_entries s ! k)))"
  by (simp add: wt_dist_def)

lemma resetCount_ok: "wt_dist (resetCount s) = wt_dist s" "counted (resetCount s) {}"
  by (simp_all add: resetCount_def wt_dist_def counted_def comp_def)

lemma incr_count_ok:
  assumes "counted s Q" "k < length (wt_entries s)" "j < length (rng_entries (wt_entries s ! k))"
  shows "ok (incr_count (k, j) s) (\<lambda>t. wt_dist t = wt_dist s \<and> counted t (insert (k, j) Q))"
proof -
  let ?e = "wt_entries s ! k" and ?r = "rng_entries (wt_entries s ! k) ! j"
  let ?e' = "?e\<lparr>rng_entries := (rng_entries ?e)[j := ?r\<lparr>re_count := re_count ?r + 1\<rparr>]\<rparr>"
  let ?t = "s\<lparr>wt_entries := (wt_entries s)[k := ?e']\<rparr>"
  have eq: "incr_count (k, j) s = Inr ?t" using assms by (simp add: incr_count_def)
  have "map (\<lambda>r. (re_rng r, re_p r)) (rng_entries ?e') = map (\<lambda>r. (re_rng r, re_p r)) (rng_entries ?e)"
    using assms(3) by (auto intro!: nth_equalityI simp: nth_list_update)
  then have "wt_dist ?t = wt_dist s"
    using assms(2) by (intro nth_equalityI) (auto simp: wt_dist_length wt_dist_nth nth_list_update)
  moreover have "counted ?t (insert (k, j) Q)"
    using assms unfolding counted_def by (auto simp: nth_list_update)
  ultimately show ?thesis using eq by simp
qed

definition targets :: "Map_t list \<Rightarrow> (nat \<times> nat) set" where
  "targets mps = {kj. \<exists>mp \<in> set mps. live mp \<and> rng_entry mp = Some kj}"

lemma targets_snoc: "targets (mps @ [mp]) = targets mps \<union> (if live mp then set_option (rng_entry mp) else {})"
  by (auto simp: targets_def)

lemma count_wsd_ok:
  assumes d: "wsd_inv L W d" and i: "i < length ws" "ws ! i = d" and s: "wt_dist s = W" "counted s Q"
  shows "ok (for_upto L (\<lambda>j s. rbind (aread ws i) (\<lambda>d. rbind (aread (d_data d) j) (\<lambda>mp.
      if m_rng mp \<ge> 0 then rbind (deref (rng_entry mp)) (\<lambda>kj. incr_count kj s) else Inr s))) s)
    (\<lambda>t. wt_dist t = W \<and> counted t (Q \<union> targets (d_data d)))"
proof -
  let ?f = "\<lambda>j s. rbind (aread ws i) (\<lambda>d. rbind (aread (d_data d) j) (\<lambda>mp.
      if m_rng mp \<ge> 0 then rbind (deref (rng_entry mp)) (\<lambda>kj. incr_count kj s) else Inr s))"
  let ?I = "\<lambda>j t. wt_dist t = W \<and> counted t (Q \<union> targets (take j (d_data d)))"
  have len: "length (d_data d) = L" using d by (simp add: wsd_inv_def)
  have "ok (for_upto L ?f s) (?I L)"
  proof (rule ok_for_upto [where I = ?I])
    show "?I 0 s" using s by (simp add: targets_def)
  next
    fix j t assume j: "j < L" and I: "?I j t"
    let ?mp = "d_data d ! j"
    have mp: "map_inv W ?mp" using d j len by (simp add: wsd_inv_def)
    have tk: "take (Suc j) (d_data d) = take j (d_data d) @ [?mp]" using j len by (simp add: take_Suc_conv_app_nth)
    show "ok (?f j t) (?I (Suc j))"
    proof (cases "live ?mp")
      case True
      then obtain k l where kl: "0 \<le> m_rng ?mp" "rng_entry ?mp = Some (k, l)" "k < length W" "l < length (snd (W ! k))"
        using mp by (auto simp: map_inv_def lit_at_def)
      then have "k < length (wt_entries t)" "l < length (rng_entries (wt_entries t ! k))"
        using I by (auto simp: wt_dist_length wt_dist_nth)
      with incr_count_ok [of t "Q \<union> targets (take j (d_data d))" k l] I
      have "ok (incr_count (k, l) t) (?I (Suc j))" using kl True by (simp add: tk targets_snoc)
      then show ?thesis using kl i j len by simp
    next
      case False
      then have "m_rng ?mp < 0" by (simp add: live_def)
      then show ?thesis using False I i j len by (simp add: tk targets_snoc)
    qed
  qed
  then show ?thesis using len by simp
qed

lemma count_assignments_ok:
  assumes inv: "\<And>i. i < length ws \<Longrightarrow> wsd_inv L W (ws ! i)" and b: "bs_raw b (length ws)"
    and s: "wt_dist s = W" "counted s {}"
  shows "ok (count_assignments L ws b s) (\<lambda>(t, m). wt_dist t = W \<and> counted t (\<Union>i \<in> bset b. targets (d_data (ws ! i))))"
proof -
  let ?n = "length ws"
  let ?T = "\<lambda>k. \<Union>i \<in> bset b \<inter> {..<k}. targets (d_data (ws ! i))"
  let ?I = "\<lambda>k (t, m :: nat). wt_dist t = W \<and> counted t (?T k)"
  have "ok (count_assignments L ws b s) (?I ?n)"
    unfolding count_assignments_def
  proof (rule ok_for_upto [where I = ?I])
    show "?I 0 (s, 0)" using s by simp
  next
    fix i tm assume i: "i < ?n" and I: "?I i tm"
    obtain t m where tm: "tm = (t, m)" by (cases tm)
    have tb: "bitset_test_bit b i = Inr (i \<in> bset b)" using b i by (rule bitset_test_bit_eq)
    have T: "?T (Suc i) = (if i \<in> bset b then ?T i \<union> targets (d_data (ws ! i)) else ?T i)"
      by (auto simp: less_Suc_eq)
    show "ok ((\<lambda>(s, set_size). rbind (bitset_test_bit b i) (\<lambda>b. if b then rbind (for_upto L (\<lambda>j s.
           rbind (aread ws i) (\<lambda>d. rbind (aread (d_data d) j) (\<lambda>mp.
           if m_rng mp \<ge> 0 then rbind (deref (rng_entry mp)) (\<lambda>kj. incr_count kj s) else Inr s))) s)
         (\<lambda>s. Inr (s, Suc set_size)) else Inr (s, set_size))) tm) (?I (Suc i))"
      using count_wsd_ok [OF inv [OF i] i refl, of t "?T i"] I unfolding tm T
      by (cases "i \<in> bset b") (simp_all add: tb del: UN_simps Int_iff)
  qed
  moreover have "bset b \<inter> {..<?n} = bset b" using bset_bound [OF b] by auto
  ultimately show ?thesis by simp
qed

text \<open>The chosen entry has a positive count; there is none only when all counts are zero.\<close>

definition used :: "generalState \<Rightarrow> nat \<Rightarrow> bool" where
  "used s k \<longleftrightarrow> (\<exists>r \<in> set (rng_entries (wt_entries s ! k)). 0 < re_count r)"

lemma minlog_step_cases:
  "minlog_step m i e (v, res) =
    (if \<exists>r \<in> set (rng_entries e). 0 < re_count r
     then let nv = int (length (rng_entries e)) * (int m - sum_list (filter (\<lambda>c. c > 0) (map re_count (rng_entries e))))
                    + sum_list (map re_count (rng_entries e))
          in if v > nv \<or> v = - 1 then (nv, Some i) else (v, res)
     else (v, res))"
  by (auto simp: minlog_step_def Let_def filter_empty_conv)

lemma choose_var_minlog_ok:
  assumes inv: "\<And>i. i < length ws \<Longrightarrow> wsd_inv L W (ws ! i)" and b: "bs_raw b (length ws)" and s: "wt_dist s = W"
  shows "ok (choose_var_minlog L ws b s) (\<lambda>(t, res). wt_dist t = W \<and>
    (case res of None \<Rightarrow> \<forall>i \<in> bset b. lvars (ws ! i) = {}
     | Some k \<Rightarrow> k < length (wt_entries t) \<and> (\<exists>i \<in> bset b. we_var (wt_entries t ! k) \<in> lvars (ws ! i))))"
proof -
  let ?Q = "\<Union>i \<in> bset b. targets (d_data (ws ! i))"
  obtain t m where t: "count_assignments L ws b (resetCount s) = Inr (t, m)" "wt_dist t = W" "counted t ?Q"
    using count_assignments_ok [OF inv b _ resetCount_ok(2), of s] resetCount_ok(1) s by (auto elim!: ok_E)
  let ?n = "length (wt_entries t)"
  let ?I = "\<lambda>i (v, res). case res of None \<Rightarrow> v = (- 1 :: int) \<and> (\<forall>k<i. \<not> used t k) | Some k \<Rightarrow> k < i \<and> used t k"
  let ?f = "\<lambda>i st. rbind (aread (wt_entries t) i) (\<lambda>e. Inr (minlog_step m i e st))"
  have "ok (for_upto ?n ?f (- 1, None)) (?I ?n)"
  proof (rule ok_for_upto [where I = ?I])
    fix i st assume "i < ?n" "?I i st"
    then show "ok (?f i st) (?I (Suc i))"
      by (cases st) (auto simp: minlog_step_cases Let_def less_Suc_eq used_def [symmetric] split: option.splits)
  qed simp
  then obtain v res where r: "for_upto ?n ?f (- 1, None) = Inr (v, res)" "?I ?n (v, res)" by (auto elim!: ok_E)
  have lit: "lit_at W mp" if "i \<in> bset b" "mp \<in> set (d_data (ws ! i))" "live mp" for i mp
    using inv [of i] that bset_bound [OF b] by (auto simp: wsd_inv_def map_inv_def)
  have used1: "\<exists>i \<in> bset b. we_var (wt_entries t ! k) \<in> lvars (ws ! i)" if k: "k < ?n" "used t k" for k
  proof -
    obtain j where j: "j < length (rng_entries (wt_entries t ! k))" "0 < re_count (rng_entries (wt_entries t ! k) ! j)"
      using k(2) by (auto simp: used_def in_set_conv_nth)
    then have "(k, j) \<in> ?Q" using t(3) k(1) by (auto simp: counted_def)
    then obtain i mp where mp: "i \<in> bset b" "mp \<in> set (d_data (ws ! i))" "live mp" "rng_entry mp = Some (k, j)"
      by (auto simp: targets_def)
    then have "fst (W ! k) = m_var mp" using lit [OF mp(1-3)] by (auto simp: lit_at_def)
    then have "we_var (wt_entries t ! k) = m_var mp" using t(2) k(1) wt_dist_nth [of k t] by simp
    then show ?thesis using mp by (auto simp: lvars_def)
  qed
  have used2: "\<exists>k < ?n. used t k" if i: "i \<in> bset b" "mp \<in> set (d_data (ws ! i))" "live mp" for i mp
  proof -
    obtain k j where kj: "rng_entry mp = Some (k, j)" "k < length W" "j < length (snd (W ! k))"
      using lit [OF i] by (auto simp: lit_at_def)
    then have k: "k < ?n" "j < length (rng_entries (wt_entries t ! k))"
      using t(2) wt_dist_length [of t] wt_dist_nth [of k t] by auto
    moreover have "(k, j) \<in> ?Q" using i kj(1) by (auto simp: targets_def)
    ultimately have "0 < re_count (rng_entries (wt_entries t ! k) ! j)" using t(3) unfolding counted_def by blast
    then show ?thesis using k nth_mem [OF k(2)] unfolding used_def by blast
  qed
  have "case res of None \<Rightarrow> \<forall>i \<in> bset b. lvars (ws ! i) = {}
     | Some k \<Rightarrow> k < ?n \<and> (\<exists>i \<in> bset b. we_var (wt_entries t ! k) \<in> lvars (ws ! i))"
  proof (cases res)
    case None
    then have "\<forall>k < ?n. \<not> used t k" using r(2) by simp
    then show ?thesis using None used2 by (auto simp: lvars_def)
  next
    case (Some k)
    then show ?thesis using r(2) used1 [of k] by simp
  qed
  then show ?thesis using t(1,2) r(1) by (simp add: choose_var_minlog_def)
qed

section \<open>Variable elimination\<close>

definition allvars :: "WSD \<Rightarrow> int set" where
  "allvars d = m_var ` set (d_data d)"

lemma oset_SomeD: "oset n (Some b) X \<Longrightarrow> bset b = X \<and> bs_raw b n"
  by (simp add: oset_def)

text \<open>A set under construction is null exactly when it is empty.\<close>

definition grown :: "nat \<Rightarrow> bitset option \<Rightarrow> nat set \<Rightarrow> bool" where
  "grown n bs X \<longleftrightarrow> (case bs of None \<Rightarrow> X = {} | Some b \<Rightarrow> bs_inv b n \<and> bset b = X \<and> X \<noteq> {})"

lemma grown_add:
  assumes "grown n bs X" "i < n"
  shows "ok (bitset_set_bit (alloc_subset junk n bs) i) (\<lambda>b. grown n (Some b) (insert i X))"
proof -
  have "bs_inv (alloc_subset junk n bs) n" "bset (alloc_subset junk n bs) = X"
    using assms(1) by (auto simp: grown_def alloc_subset_def split: option.splits)
  with clean.ins_ok [of "alloc_subset junk n bs" n i] assms(2) show ?thesis
    by (auto simp: grown_def elim!: ok_mono)
qed

lemma grown_oset: "grown n bs X \<Longrightarrow> oset n bs X"
  by (auto simp: grown_def oset_def split: option.splits)

lemma find_wsds_without_var_ok:
  assumes len: "\<And>i. i < length ws \<Longrightarrow> length (d_data (ws ! i)) = L" and b: "bs_raw b (length ws)"
  shows "ok (find_wsds_without_var junk L ws b v) (\<lambda>r. grown (length ws) r {i \<in> bset b. v \<notin> allvars (ws ! i)})"
proof -
  let ?n = "length ws"
  let ?I = "\<lambda>k r. grown ?n r {i \<in> bset b. i < k \<and> v \<notin> allvars (ws ! i)}"
  have "ok (find_wsds_without_var junk L ws b v) (?I ?n)"
    unfolding find_wsds_without_var_def
  proof (rule ok_for_upto [where I = ?I])
    show "?I 0 None" by (simp add: grown_def)
  next
    fix i r assume i: "i < ?n" and I: "?I i r"
    obtain k where k: "first_index L (\<lambda>j. rbind (aread (d_data (ws ! i)) j) (\<lambda>mp. Inr (m_var mp = v))) 0 = Inr k"
      "k \<le> L" "\<forall>j<k. m_var (d_data (ws ! i) ! j) \<noteq> v" "k < L \<longrightarrow> m_var (d_data (ws ! i) ! k) = v"
      using first_index_list [of L "d_data (ws ! i)" "\<lambda>mp. m_var mp = v"] len [OF i] by (auto elim!: ok_E)
    have kL: "k = L \<longleftrightarrow> v \<notin> allvars (ws ! i)"
    proof
      assume "k = L"
      then show "v \<notin> allvars (ws ! i)" using k(3) len [OF i] by (auto simp: allvars_def in_set_conv_nth)
    next
      assume "v \<notin> allvars (ws ! i)"
      then show "k = L" using k(2,4) len [OF i] by (cases "k < L") (auto simp: allvars_def)
    qed
    have e: "{j \<in> bset b. j < Suc i \<and> v \<notin> allvars (ws ! j)} = (if i \<in> bset b \<and> v \<notin> allvars (ws ! i)
        then insert i {j \<in> bset b. j < i \<and> v \<notin> allvars (ws ! j)} else {j \<in> bset b. j < i \<and> v \<notin> allvars (ws ! j)})"
      by (auto simp: less_Suc_eq)
    show "ok (rbind (bitset_test_bit b i) (\<lambda>b. if b then rbind (aread ws i) (\<lambda>d.
         rbind (first_index L (\<lambda>j. rbind (aread (d_data d) j) (\<lambda>mp. Inr (m_var mp = v))) 0) (\<lambda>j.
         if j = L then rbind (bitset_set_bit (alloc_subset junk ?n r) i) (\<lambda>b. Inr (Some b)) else Inr r))
       else Inr r)) (?I (Suc i))"
      using grown_add [OF I i, of junk] I i k(1) unfolding e kL bitset_test_bit_eq [OF b i]
      by (auto simp: kL)
  qed
  moreover have "{i \<in> bset b. i < ?n \<and> v \<notin> allvars (ws ! i)} = {i \<in> bset b. v \<notin> allvars (ws ! i)}"
    using bset_bound [OF b] by auto
  ultimately show ?thesis by simp
qed

text \<open>Dropping and restoring the map of a variable.\<close>

definition has_rng :: "int \<Rightarrow> int \<Rightarrow> WSD \<Rightarrow> bool" where
  "has_rng v r d \<longleftrightarrow> (\<exists>mp \<in> set (d_data d). m_var mp = v \<and> m_rng mp = r)"

definition var_prob :: "int \<Rightarrow> WSD \<Rightarrow> real" where
  "var_prob v d = prod_list (map m_prob (filter (\<lambda>mp. m_var mp = v) (d_data d)))"

definition drop_map :: "int \<Rightarrow> Map_t \<Rightarrow> Map_t" where
  "drop_map v mp = (if m_var mp = v then mp\<lparr>m_rng := - 1\<rparr> else mp)"

lemma drop_map_simps [simp]: "m_var (drop_map v mp) = m_var mp" "m_prob (drop_map v mp) = m_prob mp"
  by (simp_all add: drop_map_def)

definition drop_var :: "int \<Rightarrow> WSD \<Rightarrow> WSD" where
  "drop_var v d = d\<lparr>d_data := map (drop_map v) (d_data d),
     d_prob := d_prob d / var_prob v d\<rparr>"

lemma distinct_filter_key:
  "distinct (map f xs) \<Longrightarrow> j < length xs \<Longrightarrow> filter (\<lambda>x. f x = f (xs ! j)) xs = [xs ! j]"
proof (induction xs arbitrary: j)
  case (Cons x xs)
  show ?case
  proof (cases j)
    case 0
    have "filter (\<lambda>y. f y = f x) xs = []" using Cons.prems(1) by (auto simp: filter_empty_conv image_iff)
    then show ?thesis using 0 by simp
  next
    case (Suc i)
    then show ?thesis using Cons by (force simp: image_iff)
  qed
qed simp

lemma drop_at:
  assumes d: "distinct (map m_var (d_data d))" and j: "j < length (d_data d)" "m_var (d_data d ! j) = v"
  shows "d\<lparr>d_data := (d_data d)[j := (d_data d ! j)\<lparr>m_rng := - 1\<rparr>], d_prob := d_prob d / m_prob (d_data d ! j)\<rparr> = drop_var v d"
proof -
  have "(d_data d)[j := (d_data d ! j)\<lparr>m_rng := - 1\<rparr>] = map (drop_map v) (d_data d)"
    by (rule nth_equalityI)
      (use j distinct_map_nth_eq [OF d] in \<open>auto simp: nth_list_update drop_map_def\<close>)
  moreover have "var_prob v d = m_prob (d_data d ! j)"
    using distinct_filter_key [OF d j(1)] j(2) by (simp add: var_prob_def)
  ultimately show ?thesis by (simp add: drop_var_def)
qed

text \<open>What is left of a descriptor after the drop.\<close>

lemma prod_filter_split:
  "prod_list (map f (filter P xs)) = prod_list (map f (filter (\<lambda>x. P x \<and> Q x) xs)) * prod_list (map f (filter (\<lambda>x. P x \<and> \<not> Q x) xs))"
  for f :: "'a \<Rightarrow> real"
  by (induction xs) (auto simp: algebra_simps)

lemma map_inv_drop: "map_inv W mp \<Longrightarrow> map_inv W (mp\<lparr>m_rng := - 1\<rparr>)"
  by (simp add: map_inv_def live_def)

lemma drop_var_inv:
  assumes d: "wsd_inv L W d" and v: "has_rng v r d" "r \<noteq> - 1"
  shows "wsd_inv L W (drop_var v d)" and "lvars (drop_var v d) = lvars d - {v}"
    and "allvars (drop_var v d) = allvars d"
    and "sat (drop_var v d) \<tau> = sat d (\<tau>(v := r))"
    and "length (filter live (d_data (drop_var v d))) < length (filter live (d_data d))"
    and "var_prob v d \<noteq> 0"
proof -
  obtain mp where mp: "mp \<in> set (d_data d)" "m_var mp = v" "m_rng mp = r" using v(1) by (auto simp: has_rng_def)
  have dist: "distinct (map m_var (d_data d))" using d by (simp add: wsd_inv_def)
  have only: "mq = mp" if "mq \<in> set (d_data d)" "m_var mq = v" for mq
    using dist that mp by (auto simp: distinct_map inj_on_def)
  have mi: "\<And>mq. mq \<in> set (d_data d) \<Longrightarrow> map_inv W mq" using d by (simp add: wsd_inv_def)
  show vp: "var_prob v d \<noteq> 0"
    unfolding var_prob_def prod_list_zero_iff using mi by (auto simp: map_inv_def)
  have lv: "live (drop_map v mq) \<longleftrightarrow> live mq \<and> m_var mq \<noteq> v" for mq by (simp add: live_def drop_map_def)
  have flt: "filter live (map (drop_map v) (d_data d)) = filter (\<lambda>mq. live mq \<and> m_var mq \<noteq> v) (d_data d)"
    unfolding filter_map comp_def lv by (rule map_idI) (auto simp: drop_map_def)
  have "filter (\<lambda>mq. live mq \<and> m_var mq = v) (d_data d) = filter (\<lambda>mq. m_var mq = v) (d_data d)"
  proof (rule filter_cong [OF refl])
    fix mq assume mq: "mq \<in> set (d_data d)"
    show "(live mq \<and> m_var mq = v) = (m_var mq = v)"
    proof (cases "m_var mq = v")
      case True
      then have "mq = mp" using only mq by blast
      then show ?thesis using mp(2,3) v(2) by (simp add: live_def)
    qed simp
  qed
  then have "d_prob d = var_prob v d * prod_list (map m_prob (filter (\<lambda>mq. live mq \<and> m_var mq \<noteq> v) (d_data d)))"
    using d prod_filter_split [of m_prob live "d_data d" "\<lambda>mq. m_var mq = v"] by (simp add: wsd_inv_def var_prob_def)
  then have "d_prob (drop_var v d) = prod_list (map m_prob (filter live (d_data (drop_var v d))))"
    using vp by (simp add: drop_var_def flt)
  moreover have "map m_var (d_data (drop_var v d)) = map m_var (d_data d)" by (simp add: drop_var_def drop_map_def)
  then have "distinct (map m_var (d_data (drop_var v d)))" using dist by (simp only:)
  moreover have "\<forall>mq \<in> set (d_data (drop_var v d)). map_inv W mq"
    using mi map_inv_drop by (auto simp: drop_var_def drop_map_def)
  moreover have "length (d_data (drop_var v d)) = L" using d by (simp add: wsd_inv_def drop_var_def)
  ultimately show "wsd_inv L W (drop_var v d)" unfolding wsd_inv_def by blast
  have "lvars (drop_var v d) = m_var ` set (filter live (map (drop_map v) (d_data d)))" by (simp add: lvars_def drop_var_def)
  also have "\<dots> = lvars d - {v}" unfolding flt by (auto simp: lvars_def)
  finally show "lvars (drop_var v d) = lvars d - {v}" .
  have "allvars (drop_var v d) = m_var ` set (map (drop_map v) (d_data d))"
    by (simp add: allvars_def drop_var_def)
  also have "\<dots> = set (map m_var (map (drop_map v) (d_data d)))" by (simp add: image_image)
  also have "map m_var (map (drop_map v) (d_data d)) = map m_var (d_data d)" by (simp add: drop_map_def)
  finally show "allvars (drop_var v d) = allvars d" by (simp add: allvars_def)
  show "sat (drop_var v d) \<tau> = sat d (\<tau>(v := r))"
  proof -
    have "(live (drop_map v mq) \<longrightarrow> \<tau> (m_var (drop_map v mq)) = m_rng (drop_map v mq)) \<longleftrightarrow> (live mq \<longrightarrow> (\<tau>(v := r)) (m_var mq) = m_rng mq)"
      if mq: "mq \<in> set (d_data d)" for mq
    proof (cases "m_var mq = v")
      case True
      then have "mq = mp" using only mq by blast
      then show ?thesis using mp(2,3) by (simp add: live_def drop_map_def)
    qed (simp add: drop_map_def)
    then show ?thesis by (simp add: sat_def drop_var_def)
  qed
  have "filter (\<lambda>mq. live mq \<and> m_var mq \<noteq> v) (d_data d) = filter (\<lambda>mq. m_var mq \<noteq> v) (filter live (d_data d))"
    unfolding filter_filter by (rule filter_cong) auto
  moreover have "mp \<in> set (filter live (d_data d))" using mp v(2) by (simp add: live_def)
  then have "length (filter (\<lambda>mq. m_var mq \<noteq> v) (filter live (d_data d))) < length (filter live (d_data d))"
    by (rule length_filter_less) (simp add: mp(2))
  ultimately show "length (filter live (d_data (drop_var v d))) < length (filter live (d_data d))"
    by (simp add: drop_var_def flt)
qed

text \<open>The restored descriptor.\<close>

definition restore_map :: "int \<Rightarrow> int \<Rightarrow> Map_t \<Rightarrow> Map_t" where
  "restore_map v r mp = (if m_var mp = v then mp\<lparr>m_rng := r\<rparr> else mp)"

lemma reset_wsd_eq:
  assumes "length (d_data d) = L"
  shows "reset_wsd L v r d = Inr (d\<lparr>d_data := map (restore_map v r) (d_data d), d_prob := d_prob d * var_prob v d\<rparr>)"
proof -
  let ?d = "\<lambda>k. d\<lparr>d_data := map (restore_map v r) (take k (d_data d)) @ drop k (d_data d),
    d_prob := d_prob d * prod_list (map m_prob (filter (\<lambda>mp. m_var mp = v) (take k (d_data d))))\<rparr>"
  let ?f = "\<lambda>j d. rbind (aread (d_data d) j) (\<lambda>mp. if m_var mp = v
       then Inr (d\<lparr>d_data := (d_data d)[j := mp\<lparr>m_rng := r\<rparr>], d_prob := d_prob d * m_prob mp\<rparr>) else Inr d)"
  have "ok (for_upto L ?f d) (\<lambda>e. e = ?d L)"
  proof (rule ok_for_upto [where I = "\<lambda>k e. e = ?d k"])
    show "d = ?d 0" by simp
  next
    fix j e assume j: "j < L" and e: "e = ?d j"
    let ?mp = "d_data d ! j"
    have nth: "(map (restore_map v r) (take j (d_data d)) @ drop j (d_data d)) ! j = ?mp"
      using j assms by (simp add: nth_append)
    have upd: "(map (restore_map v r) (take j (d_data d)) @ drop j (d_data d))[j := x] =
        map (restore_map v r) (take j (d_data d)) @ x # drop (Suc j) (d_data d)" for x
      using j assms by (simp add: list_update_append Cons_nth_drop_Suc [symmetric])
    have keep: "drop j (d_data d) = ?mp # drop (Suc j) (d_data d)"
      using j assms by (simp add: Cons_nth_drop_Suc)
    have tk: "take (Suc j) (d_data d) = take j (d_data d) @ [?mp]" using j assms by (simp add: take_Suc_conv_app_nth)
    show "ok (?f j e) (\<lambda>e. e = ?d (Suc j))"
    proof (cases "m_var ?mp = v")
      case True
      then show ?thesis using j assms by (simp add: e nth upd tk restore_map_def)
    next
      case False
      then have "map (restore_map v r) (take (Suc j) (d_data d)) @ drop (Suc j) (d_data d) =
          map (restore_map v r) (take j (d_data d)) @ drop j (d_data d)"
        unfolding tk keep by (simp add: restore_map_def)
      then have "?d (Suc j) = ?d j" using False by (simp add: tk)
      then show ?thesis using j assms False by (simp add: e nth)
    qed
  qed
  then have "for_upto L ?f d = Inr (?d L)" by (auto simp: ok_def)
  then show ?thesis using assms by (simp add: reset_wsd_def var_prob_def)
qed

lemma reset_wsd_absent:
  assumes "length (d_data d) = L" "v \<notin> allvars d"
  shows "reset_wsd L v r d = Inr d"
proof -
  have "map (restore_map v r) (d_data d) = d_data d"
    by (rule map_idI) (use assms(2) in \<open>auto simp: restore_map_def allvars_def\<close>)
  moreover have "filter (\<lambda>mp. m_var mp = v) (d_data d) = []"
    using assms(2) by (auto simp: filter_empty_conv allvars_def)
  ultimately show ?thesis using reset_wsd_eq [OF assms(1)] by (simp add: var_prob_def)
qed

lemma reset_drop_var:
  assumes d: "wsd_inv L W d" and v: "has_rng v r d" "r \<noteq> - 1"
  shows "reset_wsd L v r (drop_var v d) = Inr d"
proof -
  obtain mp where mp: "mp \<in> set (d_data d)" "m_var mp = v" "m_rng mp = r" using v(1) by (auto simp: has_rng_def)
  have len: "length (d_data (drop_var v d)) = L" using d by (simp add: wsd_inv_def drop_var_def)
  have "map (\<lambda>mq. restore_map v r (drop_map v mq)) (d_data d) = d_data d"
  proof (rule map_idI)
    fix mq assume mq: "mq \<in> set (d_data d)"
    show "restore_map v r (drop_map v mq) = mq"
    proof (cases "m_var mq = v")
      case True
      then have "mq = mp" using d mp mq by (auto simp: wsd_inv_def distinct_map inj_on_def)
      then show ?thesis using mp by (simp add: restore_map_def drop_map_def)
    qed (simp add: restore_map_def drop_map_def)
  qed
  moreover have "var_prob v (drop_var v d) = var_prob v d"
    by (simp add: var_prob_def drop_var_def filter_map comp_def)
  ultimately show ?thesis
    using reset_wsd_eq [OF len, of v r] drop_var_inv(6) [OF assms] by (simp add: drop_var_def comp_def)
qed

definition dropped :: "int \<Rightarrow> nat set \<Rightarrow> WSD list \<Rightarrow> WSD list" where
  "dropped v Z ws = map (\<lambda>i. if i \<in> Z then drop_var v (ws ! i) else ws ! i) [0..<length ws]"

lemma dropped_length [simp]: "length (dropped v Z ws) = length ws"
  by (simp add: dropped_def)

lemma dropped_nth: "i < length ws \<Longrightarrow> dropped v Z ws ! i = (if i \<in> Z then drop_var v (ws ! i) else ws ! i)"
  by (simp add: dropped_def)

lemma dropped_none: "dropped v {} ws = ws"
  by (auto simp: dropped_def intro: nth_equalityI)

lemma dropped_insert: "i < length ws \<Longrightarrow> i \<notin> Z \<Longrightarrow> (dropped v Z ws)[i := drop_var v (ws ! i)] = dropped v (insert i Z) ws"
  by (rule nth_equalityI) (auto simp: dropped_nth nth_list_update)

lemma reset_wsds_var_rng_ok:
  assumes inv: "\<And>i. i < length ws \<Longrightarrow> wsd_inv L W (ws ! i)" and r: "r \<noteq> - 1"
    and b: "bs_raw b (length ws)" and Y: "Y \<subseteq> bset b" "\<And>i. i \<in> Y \<Longrightarrow> has_rng v r (ws ! i)"
    and rest: "\<And>i. i \<in> bset b - Y \<Longrightarrow> v \<notin> allvars (ws ! i)"
  shows "reset_wsds_var_rng L b v r (dropped v Y ws) = Inr ws"
proof -
  let ?n = "length ws"
  let ?f = "\<lambda>i ws. rbind (bitset_test_bit b i) (\<lambda>b. if b then rbind (aread ws i) (\<lambda>d.
       rbind (reset_wsd L v r d) (\<lambda>d. Inr (ws[i := d]))) else Inr ws)"
  have bound: "bset b \<subseteq> {..<?n}" by (rule bset_bound [OF b])
  have "ok (for_upto ?n ?f (dropped v Y ws)) (\<lambda>us. us = dropped v (Y - {..<?n}) ws)"
  proof (rule ok_for_upto [where I = "\<lambda>k us. us = dropped v (Y - {..<k}) ws"])
    show "dropped v Y ws = dropped v (Y - {..<0}) ws" by simp
  next
    fix i us assume i: "i < ?n" and us: "us = dropped v (Y - {..<i}) ws"
    have tb: "bitset_test_bit b i = Inr (i \<in> bset b)" using b i by (rule bitset_test_bit_eq)
    have "(if i \<in> bset b then rbind (reset_wsd L v r (us ! i)) (\<lambda>d. Inr (us[i := d])) else Inr us) =
        Inr (dropped v (Y - {..<Suc i}) ws)"
    proof (cases "i \<in> Y")
      case True
      then have "reset_wsd L v r (us ! i) = Inr (ws ! i)"
        using reset_drop_var [OF inv [OF i] Y(2) r] i by (simp add: us dropped_nth)
      moreover have "us[i := ws ! i] = dropped v (Y - {..<Suc i}) ws"
        by (rule nth_equalityI) (use i in \<open>auto simp: us dropped_nth nth_list_update less_Suc_eq\<close>)
      ultimately show ?thesis using True Y(1) by auto
    next
      case False
      then have same: "Y - {..<Suc i} = Y - {..<i}" by (auto simp: less_Suc_eq)
      have ui: "us ! i = ws ! i" using i False by (simp add: us dropped_nth)
      have "i \<in> bset b \<Longrightarrow> reset_wsd L v r (ws ! i) = Inr (ws ! i)"
        using reset_wsd_absent inv [OF i] rest False by (simp add: wsd_inv_def)
      moreover have "us[i := ws ! i] = us" by (metis ui list_update_id)
      ultimately show ?thesis unfolding same by (simp add: ui us [symmetric])
    qed
    moreover have "length us = ?n" by (simp add: us)
    ultimately have "?f i us = Inr (dropped v (Y - {..<Suc i}) ws)" using i by (simp add: tb split: if_splits)
    then show "ok (?f i us) (\<lambda>us. us = dropped v (Y - {..<Suc i}) ws)" by (rule ok_I) (rule refl)
  qed
  moreover have "Y - {..<?n} = {}" using Y(1) bound by blast
  ultimately show ?thesis by (auto simp: ok_def reset_wsds_var_rng_def dropped_none)
qed

lemma has_rng_index:
  assumes "length (d_data d) = L"
  shows "ok (first_index L (\<lambda>j. rbind (aread (d_data d) j) (\<lambda>mp. Inr (m_var mp = v \<and> m_rng mp = r))) 0)
    (\<lambda>j. (j < L \<longleftrightarrow> has_rng v r d) \<and> (j < L \<longrightarrow> m_var (d_data d ! j) = v \<and> m_rng (d_data d ! j) = r))"
proof (rule ok_mono [OF first_index_list])
  show "L \<le> length (d_data d)" using assms by simp
next
  fix k assume k: "k \<le> L \<and> (\<forall>j<k. \<not> (m_var (d_data d ! j) = v \<and> m_rng (d_data d ! j) = r)) \<and>
    (k < L \<longrightarrow> m_var (d_data d ! k) = v \<and> m_rng (d_data d ! k) = r)"
  have "k < L" if "has_rng v r d"
  proof (rule ccontr)
    assume "\<not> k < L"
    then have "k = L" using k by simp
    then show False using that k assms by (auto simp: has_rng_def in_set_conv_nth)
  qed
  moreover have "has_rng v r d" if "k < L" using that k assms unfolding has_rng_def by (metis nth_mem)
  ultimately show "(k < L \<longleftrightarrow> has_rng v r d) \<and> (k < L \<longrightarrow> m_var (d_data d ! k) = v \<and> m_rng (d_data d ! k) = r)"
    using k by blast
qed

text \<open>
  The scan drops the map in the descriptors that contain it, up to the first one that
  becomes certain.
\<close>

definition scan_post :: "WSD list \<Rightarrow> nat set \<Rightarrow> int \<Rightarrow> WSD list \<times> bitset option \<times> bool \<Rightarrow> bool" where
  "scan_post ws Y v = (\<lambda>(us, bs, found).
     if found then \<exists>k \<in> Y. us = dropped v (Y \<inter> {..k}) ws \<and> grown (length ws) bs (Y \<inter> {..k}) \<and>
       d_prob (drop_var v (ws ! k)) = 1
     else us = dropped v Y ws \<and> grown (length ws) bs Y)"

lemma with_var_loop_ok:
  assumes inv: "\<And>i. i < length ws \<Longrightarrow> wsd_inv L W (ws ! i)" and b: "bs_raw b (length ws)"
    and Y: "Y = {i \<in> bset b. has_rng v r (ws ! i)}" and n: "n = length ws"
    and i: "i \<le> n" "us = dropped v (Y \<inter> {..<i}) ws" "grown n bs (Y \<inter> {..<i})"
  shows "ok (with_var_loop junk n L b v r i us bs) (scan_post ws Y v)"
  using i
proof (induction "n - i" arbitrary: i us bs)
  case 0
  then have "i = n" "\<not> i < n" by simp_all
  moreover have "Y \<inter> {..<n} = Y" using Y n bset_bound [OF b] by auto
  moreover have "with_var_loop junk n L b v r i us bs = Inr (us, bs, False)"
    using \<open>\<not> i < n\<close> by (simp add: with_var_loop.simps [of junk n L b v r i us bs])
  ultimately show ?case using 0 n by (simp add: scan_post_def)
next
  case (Suc m)
  then have i: "i < n" by simp
  have len: "length us = n" using Suc.prems(2) n by simp
  have ui: "us ! i = ws ! i" using Suc.prems(2) i n by (simp add: dropped_nth)
  have tb: "bitset_test_bit b i = Inr (i \<in> bset b)" using b i n by (simp add: bitset_test_bit_eq)
  have cont: "ok (with_var_loop junk n L b v r (Suc i) us' bs') (scan_post ws Y v)"
    if "us' = dropped v (Y \<inter> {..<Suc i}) ws" "grown n bs' (Y \<inter> {..<Suc i})" for us' bs'
    using Suc.hyps(1) [of "Suc i" us' bs'] Suc.hyps(2) i that by simp
  show ?case
  proof (cases "i \<in> Y")
    case False
    then have "Y \<inter> {..<Suc i} = Y \<inter> {..<i}" by (auto simp: less_Suc_eq)
    then have rest: "ok (with_var_loop junk n L b v r (Suc i) us bs) (scan_post ws Y v)" using cont Suc.prems by simp
    show ?thesis
    proof (cases "i \<in> bset b")
      case True
      then have "\<not> has_rng v r (ws ! i)" using False Y by simp
      moreover have "length (d_data (ws ! i)) = L" using inv [of i] i n by (simp add: wsd_inv_def)
      ultimately obtain j where "first_index L (\<lambda>j. rbind (aread (d_data (ws ! i)) j) (\<lambda>mp. Inr (m_var mp = v \<and> m_rng mp = r))) 0 = Inr j"
        "\<not> j < L" using has_rng_index [of "ws ! i" L v r] by (auto elim!: ok_E)
      then show ?thesis using True i rest len by (simp add: with_var_loop.simps [of junk n L b v r i] tb ui)
    next
      case False
      then show ?thesis using i rest by (simp add: with_var_loop.simps [of junk n L b v r i] tb)
    qed
  next
    case True
    let ?d = "ws ! i"
    have d: "wsd_inv L W ?d" using inv i n by simp
    have iY: "Y \<inter> {..<Suc i} = insert i (Y \<inter> {..<i})" "Y \<inter> {..i} = insert i (Y \<inter> {..<i})" using True by auto
    have h: "i \<in> bset b" "has_rng v r ?d" using True Y by auto
    then obtain j where j: "first_index L (\<lambda>j. rbind (aread (d_data ?d) j) (\<lambda>mp. Inr (m_var mp = v \<and> m_rng mp = r))) 0 = Inr j"
      "j < L" "m_var (d_data ?d ! j) = v" using has_rng_index [of ?d L v r] d by (auto simp: wsd_inv_def elim!: ok_E)
    obtain b' where b': "bitset_set_bit (alloc_subset junk n bs) i = Inr b'" "grown n (Some b') (insert i (Y \<inter> {..<i}))"
      using grown_add [OF Suc.prems(3) i, of junk] by (auto elim!: ok_E)
    have dr: "?d\<lparr>d_data := (d_data ?d)[j := (d_data ?d ! j)\<lparr>m_rng := - 1\<rparr>], d_prob := d_prob ?d / m_prob (d_data ?d ! j)\<rparr> = drop_var v ?d"
      using drop_at [of ?d j v] d j by (simp add: wsd_inv_def)
    have up: "us[i := drop_var v ?d] = dropped v (insert i (Y \<inter> {..<i})) ws"
      using dropped_insert [of i ws "Y \<inter> {..<i}" v] Suc.prems(2) i n by simp
    have "with_var_loop junk n L b v r i us bs =
        (if d_prob (drop_var v ?d) = 1 then Inr (us[i := drop_var v ?d], Some b', True)
         else with_var_loop junk n L b v r (Suc i) (us[i := drop_var v ?d]) (Some b'))"
    proof -
      have "aread us i = Inr ?d" "aread (d_data ?d) j = Inr (d_data ?d ! j)"
        using len i ui d j(2) by (simp_all add: wsd_inv_def)
      then show ?thesis
        by (simp only: with_var_loop.simps [of junk n L b v r i us bs] i h(1) tb rbind_simps j(1,2) b'(1) Let_def dr if_True)
    qed
    moreover have "scan_post ws Y v (us[i := drop_var v ?d], Some b', True)" if "d_prob (drop_var v ?d) = 1"
      using that True up b'(2) iY(2) n by (auto simp: scan_post_def intro!: bexI [of _ i])
    moreover have "ok (with_var_loop junk n L b v r (Suc i) (us[i := drop_var v ?d]) (Some b')) (scan_post ws Y v)"
      by (rule cont) (simp_all add: iY up b'(2))
    ultimately show ?thesis by simp
  qed
qed

lemma find_wsds_with_var_rng_ok:
  assumes inv: "\<And>i. i < length ws \<Longrightarrow> wsd_inv L W (ws ! i)" and b: "bs_raw b (length ws)" and r: "r \<noteq> - 1"
    and Y: "Y = {i \<in> bset b. has_rng v r (ws ! i)}"
  shows "ok (find_wsds_with_var_rng junk L b v r ws) (\<lambda>(us, res).
    res = None \<and> Y = {} \<and> us = ws \<or>
    (\<exists>c. res = Some c \<and> bs_inv c (length ws) \<and>
      (bset c = {} \<and> us = ws \<and> (\<exists>k \<in> Y. d_prob (drop_var v (ws ! k)) = 1) \<or>
       bset c = Y \<and> Y \<noteq> {} \<and> us = dropped v Y ws)))"
proof -
  let ?n = "length ws"
  have "ok (with_var_loop junk ?n L b v r 0 ws None) (scan_post ws Y v)"
    by (rule with_var_loop_ok [OF inv b Y refl]) (simp_all add: dropped_none grown_def)
  then obtain us bs found where w: "with_var_loop junk ?n L b v r 0 ws None = Inr (us, bs, found)"
    and post: "scan_post ws Y v (us, bs, found)" by (auto elim!: ok_E)
  show ?thesis
  proof (cases found)
    case False
    then have "us = dropped v Y ws" "grown ?n bs Y" using post by (simp_all add: scan_post_def)
    then show ?thesis using w False
      by (cases bs) (auto simp: find_wsds_with_var_rng_def grown_def dropped_none)
  next
    case True
    then obtain k where k: "k \<in> Y" "us = dropped v (Y \<inter> {..k}) ws" "grown ?n bs (Y \<inter> {..k})"
      "d_prob (drop_var v (ws ! k)) = 1" using post by (auto simp: scan_post_def)
    then obtain c where c: "bs = Some c" "bs_inv c ?n" "bset c = Y \<inter> {..k}" by (auto simp: grown_def split: option.splits)
    have "reset_wsds_var_rng L c v r (dropped v (Y \<inter> {..k}) ws) = Inr ws"
      by (rule reset_wsds_var_rng_ok [OF inv r]) (use c Y in auto)
    then show ?thesis using w True c k bs_inv_reset [of c ?n]
      by (auto simp: find_wsds_with_var_rng_def)
  qed
qed

section \<open>Correctness of the tree\<close>

text \<open>
  Over the set \<open>X\<close> a variable is dropped everywhere or nowhere, so the descriptors without
  the chosen variable are those that do not constrain it.
\<close>

definition uniform :: "WSD list \<Rightarrow> nat set \<Rightarrow> bool" where
  "uniform ws X \<longleftrightarrow> (\<forall>i \<in> X. \<forall>j \<in> X. lvars (ws ! i) \<inter> allvars (ws ! j) \<subseteq> lvars (ws ! j))"

definition tree_pre :: "nat \<Rightarrow> wtable \<Rightarrow> WSD list \<Rightarrow> nat set \<Rightarrow> bool" where
  "tree_pre L W ws X \<longleftrightarrow> (\<forall>i < length ws. wsd_inv L W (ws ! i)) \<and> uniform ws X \<and> X \<subseteq> {..<length ws}"

definition tree_size :: "WSD list \<Rightarrow> nat set \<Rightarrow> nat" where
  "tree_size ws X = (\<Sum>i\<in>X. Suc (length (filter live (d_data (ws ! i)))))"

definition solves :: "(bitset option \<Rightarrow> real comp) \<Rightarrow> nat \<Rightarrow> nat \<Rightarrow> wtable \<Rightarrow> bool" where
  "solves rec N L W \<longleftrightarrow> (\<forall>bs ws s X. oset (length ws) bs X \<longrightarrow> tree_pre L W ws X \<longrightarrow> wt_dist s = W \<longrightarrow>
     tree_size ws X < N \<longrightarrow>
     ok (rec bs ws s) (\<lambda>(p, us, t). p = Pr W (dnf ws X) \<and> us = ws \<and> wt_dist t = W))"

definition wt_rngs_ok :: "wtable \<Rightarrow> bool" where
  "wt_rngs_ok W \<longleftrightarrow> (\<forall>(v, d) \<in> set W. \<forall>(r, p) \<in> set d. r \<noteq> - 1)"

lemma lvars_allvars: "lvars d \<subseteq> allvars d"
  by (auto simp: lvars_def allvars_def)

lemma sat_upd_absent: "v \<notin> lvars d \<Longrightarrow> sat d (\<tau>(v := r)) = sat d \<tau>"
  using depends_upd [OF sat_depends] .

lemma sat_upd_other: "v \<in> lvars d \<Longrightarrow> \<not> has_rng v r d \<Longrightarrow> \<not> sat d (\<tau>(v := r))"
  by (fastforce simp: lvars_def has_rng_def sat_def)

text \<open>Assigning the chosen variable leaves the dropped descriptors and those without the variable.\<close>

lemma dnf_assign:
  assumes pre: "tree_pre L W ws X" and v: "i0 \<in> X" "v \<in> lvars (ws ! i0)" and r: "r \<noteq> - 1"
    and Y: "Y = {i \<in> X. has_rng v r (ws ! i)}"
  shows "dnf ws X (\<tau>(v := r)) = dnf (dropped v Y ws) (Y \<union> {i \<in> X. v \<notin> allvars (ws ! i)}) \<tau>"
proof -
  have X: "X \<subseteq> {..<length ws}" using pre by (simp add: tree_pre_def)
  have at: "sat (ws ! i) (\<tau>(v := r)) \<longleftrightarrow>
      (i \<in> Y \<or> v \<notin> allvars (ws ! i)) \<and> sat (dropped v Y ws ! i) \<tau>" if i: "i \<in> X" for i
  proof -
    have il: "i < length ws" using X i by auto
    then have d: "wsd_inv L W (ws ! i)" using pre by (simp add: tree_pre_def)
    consider "i \<in> Y" | "i \<notin> Y" "v \<notin> allvars (ws ! i)" | "i \<notin> Y" "v \<in> lvars (ws ! i)"
      using pre v i unfolding tree_pre_def uniform_def by blast
    then show ?thesis
    proof cases
      case 1
      then have "has_rng v r (ws ! i)" using Y by simp
      then show ?thesis using 1 il drop_var_inv(4) [OF d _ r] by (simp add: dropped_nth)
    next
      case 2
      then have "v \<notin> lvars (ws ! i)" using lvars_allvars by blast
      then show ?thesis using 2 il sat_upd_absent by (simp add: dropped_nth)
    next
      case 3
      then have "\<not> has_rng v r (ws ! i)" using Y i by simp
      then have "\<not> sat (ws ! i) (\<tau>(v := r))" using sat_upd_other 3(2) by blast
      moreover have "v \<in> allvars (ws ! i)" using 3(2) lvars_allvars by blast
      ultimately show ?thesis using 3 by simp
    qed
  qed
  then show ?thesis unfolding dnf_def using Y by blast
qed

lemma tree_pre_dropped:
  assumes pre: "tree_pre L W ws X" and r: "r \<noteq> - 1" and Y: "Y = {i \<in> X. has_rng v r (ws ! i)}"
  shows "tree_pre L W (dropped v Y ws) (Y \<union> {i \<in> X. v \<notin> allvars (ws ! i)})"
proof -
  have X: "X \<subseteq> {..<length ws}" and inv: "\<And>i. i < length ws \<Longrightarrow> wsd_inv L W (ws ! i)" using pre by (auto simp: tree_pre_def)
  have vars: "lvars (dropped v Y ws ! i) = lvars (ws ! i) - {v}" "allvars (dropped v Y ws ! i) = allvars (ws ! i)"
    if i: "i \<in> Y \<union> {i \<in> X. v \<notin> allvars (ws ! i)}" for i
  proof -
    have il: "i < length ws" using i X Y by auto
    have "v \<notin> lvars (ws ! i)" if "i \<notin> Y" using i that lvars_allvars by blast
    then show "lvars (dropped v Y ws ! i) = lvars (ws ! i) - {v}" "allvars (dropped v Y ws ! i) = allvars (ws ! i)"
      using il drop_var_inv(2,3) [OF inv [OF il] _ r] Y by (auto simp: dropped_nth)
  qed
  have "uniform (dropped v Y ws) (Y \<union> {i \<in> X. v \<notin> allvars (ws ! i)})"
    unfolding uniform_def
  proof (intro ballI)
    fix i j assume i: "i \<in> Y \<union> {i \<in> X. v \<notin> allvars (ws ! i)}" and j: "j \<in> Y \<union> {i \<in> X. v \<notin> allvars (ws ! i)}"
    have "i \<in> X" "j \<in> X" using i j Y by auto
    then have "lvars (ws ! i) \<inter> allvars (ws ! j) \<subseteq> lvars (ws ! j)" using pre by (simp add: tree_pre_def uniform_def)
    then show "lvars (dropped v Y ws ! i) \<inter> allvars (dropped v Y ws ! j) \<subseteq> lvars (dropped v Y ws ! j)"
      unfolding vars [OF i] vars [OF j] by blast
  qed
  moreover have "wsd_inv L W (dropped v Y ws ! i)" if "i < length ws" for i
    using drop_var_inv(1) [OF inv [OF that] _ r] inv [OF that] that Y by (auto simp: dropped_nth)
  ultimately show ?thesis using X Y by (auto simp: tree_pre_def)
qed

lemma tree_pre_subset: "tree_pre L W ws X \<Longrightarrow> Z \<subseteq> X \<Longrightarrow> tree_pre L W ws Z"
  unfolding tree_pre_def uniform_def by blast

lemma tree_size_psubset:
  assumes "finite X" "Z \<subset> X"
  shows "tree_size ws Z < tree_size ws X"
proof -
  obtain x where "x \<in> X - Z" using assms(2) by blast
  then show ?thesis unfolding tree_size_def using assms by (intro sum_strict_mono2 [of X Z x]) auto
qed

lemma tree_size_dropped:
  assumes pre: "tree_pre L W ws X" and r: "r \<noteq> - 1" and Y: "Y = {i \<in> X. has_rng v r (ws ! i)}" "Y \<noteq> {}"
  shows "tree_size (dropped v Y ws) (Y \<union> {i \<in> X. v \<notin> allvars (ws ! i)}) < tree_size ws X"
proof -
  let ?Z = "Y \<union> {i \<in> X. v \<notin> allvars (ws ! i)}"
  have X: "X \<subseteq> {..<length ws}" and inv: "\<And>i. i < length ws \<Longrightarrow> wsd_inv L W (ws ! i)" using pre by (auto simp: tree_pre_def)
  have fin: "finite X" using X finite_subset by blast
  have lt: "length (filter live (d_data (dropped v Y ws ! i))) < length (filter live (d_data (ws ! i)))" if "i \<in> Y" for i
  proof -
    have "i < length ws" "has_rng v r (ws ! i)" using that X Y by auto
    then show ?thesis using that drop_var_inv(5) [OF inv _ r] by (simp add: dropped_nth)
  qed
  have le: "length (filter live (d_data (dropped v Y ws ! i))) \<le> length (filter live (d_data (ws ! i)))" if "i \<in> X" for i
    using lt [of i] that X by (cases "i \<in> Y") (auto simp: dropped_nth)
  obtain k where k: "k \<in> Y" using Y(2) by blast
  have "tree_size (dropped v Y ws) ?Z < tree_size ws ?Z"
    unfolding tree_size_def using fin Y le lt k by (intro sum_strict_mono_ex1) auto
  also have "\<dots> \<le> tree_size ws X" unfolding tree_size_def using fin Y by (intro sum_mono2) auto
  finally show ?thesis .
qed

lemma solvesD:
  "solves rec N L W \<Longrightarrow> oset (length ws) bs X \<Longrightarrow> tree_pre L W ws X \<Longrightarrow> wt_dist s = W \<Longrightarrow> tree_size ws X < N \<Longrightarrow>
    ok (rec bs ws s) (\<lambda>(p, us, t). p = Pr W (dnf ws X) \<and> us = ws \<and> wt_dist t = W)"
  unfolding solves_def by blast

text \<open>
  What the search for an assignment of the chosen variable tells: no descriptor contains it, a
  descriptor is certain once it is assigned, or the descriptors that contain it have lost it.
\<close>

lemma elimination_cases:
  assumes W: "wt_ok W" and pre: "tree_pre L W ws X" and b: "bs_raw b (length ws)" "bset b = X"
    and v: "i0 \<in> X" "v \<in> lvars (ws ! i0)" and r: "r \<noteq> - 1"
  obtains (none) "find_wsds_with_var_rng junk L b v r ws = Inr (ws, None)"
      "Pr W (\<lambda>\<tau>. dnf ws X (\<tau>(v := r))) = Pr W (dnf ws {i \<in> X. v \<notin> allvars (ws ! i)})"
  | (certain) c where "find_wsds_with_var_rng junk L b v r ws = Inr (ws, Some c)" "bitset_test_empty (Some c) = Inr True"
      "Pr W (\<lambda>\<tau>. dnf ws X (\<tau>(v := r))) = 1"
  | (drop) c Y where "find_wsds_with_var_rng junk L b v r ws = Inr (dropped v Y ws, Some c)"
      "bitset_test_empty (Some c) = Inr False" "bs_inv c (length ws)" "bset c = Y" "Y \<noteq> {}"
      "Y = {i \<in> X. has_rng v r (ws ! i)}"
      "Pr W (\<lambda>\<tau>. dnf ws X (\<tau>(v := r))) = Pr W (dnf (dropped v Y ws) (Y \<union> {i \<in> X. v \<notin> allvars (ws ! i)}))"
      "\<And>u. bs_raw u (length ws) \<Longrightarrow> Y \<subseteq> bset u \<Longrightarrow> bset u \<subseteq> Y \<union> {i \<in> X. v \<notin> allvars (ws ! i)} \<Longrightarrow>
        reset_wsds_var_rng L u v r (dropped v Y ws) = Inr ws"
proof -
  let ?n = "length ws" and ?X0 = "{i \<in> X. v \<notin> allvars (ws ! i)}"
  define Y where "Y = {i \<in> X. has_rng v r (ws ! i)}"
  have X: "X \<subseteq> {..<?n}" and inv: "\<And>i. i < ?n \<Longrightarrow> wsd_inv L W (ws ! i)" using pre by (auto simp: tree_pre_def)
  have eq: "Pr W (\<lambda>\<tau>. dnf ws X (\<tau>(v := r))) = Pr W (dnf (dropped v Y ws) (Y \<union> ?X0))"
    by (rule Pr_cong) (rule dnf_assign [OF pre v r Y_def])
  obtain us res where f: "find_wsds_with_var_rng junk L b v r ws = Inr (us, res)"
    and res: "res = None \<and> Y = {} \<and> us = ws \<or> (\<exists>c. res = Some c \<and> bs_inv c ?n \<and>
      (bset c = {} \<and> us = ws \<and> (\<exists>k \<in> Y. d_prob (drop_var v (ws ! k)) = 1) \<or>
       bset c = Y \<and> Y \<noteq> {} \<and> us = dropped v Y ws))"
    using find_wsds_with_var_rng_ok [OF inv b(1) r, of Y v junk] b(2) by (auto simp: Y_def elim!: ok_E)
  from res consider (1) "res = None" "Y = {}" "us = ws"
    | (2) c k where "res = Some c" "bs_inv c ?n" "bset c = {}" "us = ws" "k \<in> Y" "d_prob (drop_var v (ws ! k)) = 1"
    | (3) c where "res = Some c" "bs_inv c ?n" "bset c = Y" "Y \<noteq> {}" "us = dropped v Y ws" by blast
  then show ?thesis
  proof cases
    case 1
    then show ?thesis using none f eq by (simp add: dropped_none)
  next
    case 2
    have k: "k < ?n" "k \<in> X" "has_rng v r (ws ! k)" using 2(5) X Y_def by auto
    have "Pr W (sat (drop_var v (ws ! k))) = 1"
      using Pr_sat [OF W drop_var_inv(1) [OF inv [OF k(1)] k(3) r]] 2(6) by simp
    moreover have "Pr W (sat (drop_var v (ws ! k))) \<le> Pr W (dnf (dropped v Y ws) (Y \<union> ?X0))"
    proof (rule Pr_mono [OF W])
      fix \<tau> assume "sat (drop_var v (ws ! k)) \<tau>"
      then have "sat (dropped v Y ws ! k) \<tau>" using 2(5) k(1) by (simp add: dropped_nth)
      then show "dnf (dropped v Y ws) (Y \<union> ?X0) \<tau>" using 2(5) unfolding dnf_def by blast
    qed
    ultimately have "Pr W (dnf (dropped v Y ws) (Y \<union> ?X0)) = 1"
      using Pr_le_1 [OF W, of "dnf (dropped v Y ws) (Y \<union> ?X0)"] by linarith
    then show ?thesis using certain [of c] f 2(1,3,4) eq bitset_test_empty_eq [OF 2(2)] by simp
  next
    case 3
    have "bitset_test_empty (Some c) = Inr False" using bitset_test_empty_eq [OF 3(2)] 3(3,4) by simp
    moreover have "reset_wsds_var_rng L u v r (dropped v Y ws) = Inr ws"
      if "bs_raw u ?n" "Y \<subseteq> bset u" "bset u \<subseteq> Y \<union> ?X0" for u
      by (rule reset_wsds_var_rng_ok [OF inv r]) (use that Y_def in auto)
    ultimately show ?thesis using drop [of Y c] f 3 eq Y_def by blast
  qed
qed

lemma tree_size_without:
  assumes "tree_pre L W ws X" "i0 \<in> X" "v \<in> lvars (ws ! i0)"
  shows "tree_size ws {i \<in> X. v \<notin> allvars (ws ! i)} < tree_size ws X"
proof -
  have "v \<in> allvars (ws ! i0)" using assms(3) lvars_allvars by blast
  then have "{i \<in> X. v \<notin> allvars (ws ! i)} \<subset> X" using assms(2) by blast
  moreover have "finite X" using assms(1) finite_subset unfolding tree_pre_def by blast
  ultimately show ?thesis by (intro tree_size_psubset)
qed

lemma bitset_union_grown:
  assumes "bs_inv c n" "grown n wo Z"
  shows "ok (bitset_union c wo) (\<lambda>u. bs_inv u n \<and> bset u = bset c \<union> Z)"
proof -
  have "ok (bitset_union c wo) (\<lambda>t. bs_inv t n \<and> bset t = bset c \<union> (case wo of None \<Rightarrow> {} | Some s \<Rightarrow> bset s))"
    by (rule bitset_union_ok [OF assms(1)]) (use assms(2) in \<open>auto simp: grown_def\<close>)
  then show ?thesis using assms(2) by (auto simp: grown_def split: option.splits elim!: ok_mono)
qed

text \<open>The contribution of one range value is the probability that it is taken and the descriptors hold.\<close>

lemma rng_branch_ok:
  assumes rec: "solves rec N L W" and W: "wt_ok W" and pre: "tree_pre L W ws X" and N: "tree_size ws X \<le> N"
    and b: "bs_raw b (length ws)" "bset b = X"
    and wo: "grown (length ws) wo {i \<in> X. v \<notin> allvars (ws ! i)}"
    and v: "i0 \<in> X" "v \<in> lvars (ws ! i0)" and r: "re_rng r \<noteq> - 1" and s: "wt_dist s = W"
    and pw: "pw = - 1 \<or> pw = Pr W (dnf ws {i \<in> X. v \<notin> allvars (ws ! i)})"
  shows "ok (rng_branch rec junk L b wo v r pw ws s) (\<lambda>((cur, pw'), us, t).
    cur = re_p r * Pr W (\<lambda>\<tau>. dnf ws X (\<tau>(v := re_rng r))) \<and>
    (pw' = - 1 \<or> pw' = Pr W (dnf ws {i \<in> X. v \<notin> allvars (ws ! i)})) \<and> us = ws \<and> wt_dist t = W)"
proof -
  let ?X0 = "{i \<in> X. v \<notin> allvars (ws ! i)}"
  show ?thesis
  proof (cases rule: elimination_cases [OF W pre b v r, of junk, case_names none certain drop])
    case none
    have "ok (rec wo ws s) (\<lambda>(p, us, t). p = Pr W (dnf ws ?X0) \<and> us = ws \<and> wt_dist t = W)"
      using tree_pre_subset [OF pre, of ?X0] tree_size_without [OF pre v] N
      by (intro solvesD [OF rec grown_oset [OF wo]]) (auto simp: s)
    then show ?thesis using none pw s by (cases "pw = - 1") (auto simp: rng_branch_def elim!: ok_mono)
  next
    case (certain c)
    then show ?thesis using pw s by (simp add: rng_branch_def)
  next
    case (drop c Y)
    obtain u where u: "bitset_union c wo = Inr u" "bs_inv u (length ws)" "bset u = Y \<union> ?X0"
      using bitset_union_grown [OF drop(3) wo] drop(4) by (auto elim!: ok_E)
    have "ok (rec (Some u) (dropped v Y ws) s) (\<lambda>(p, us', t). p = Pr W (dnf (dropped v Y ws) (Y \<union> ?X0)) \<and>
        us' = dropped v Y ws \<and> wt_dist t = W)"
      by (rule solvesD [OF rec])
        (use u tree_pre_dropped [OF pre r drop(6)] tree_size_dropped [OF pre r drop(6,5)] drop(5) N s in \<open>auto simp: oset_def\<close>)
    moreover have "reset_wsds_var_rng L u v (re_rng r) (dropped v Y ws) = Inr ws" by (rule drop(8)) (use u in auto)
    ultimately show ?thesis using drop(1,2,7) u(1) pw by (auto simp: rng_branch_def elim!: ok_mono)
  qed
qed

lemma rng_loop_ok:
  assumes rec: "solves rec N L W" and W: "wt_ok W" and pre: "tree_pre L W ws X" and N: "tree_size ws X \<le> N"
    and b: "bs_raw b (length ws)" "bset b = X"
    and wo: "grown (length ws) wo {i \<in> X. v \<notin> allvars (ws ! i)}"
    and v: "i0 \<in> X" "v \<in> lvars (ws ! i0)" and rs: "\<forall>r \<in> set rs. re_rng r \<noteq> - 1" "length rs \<le> cnt"
    and s: "wt_dist s = W" and pw: "pw = - 1 \<or> pw = Pr W (dnf ws {i \<in> X. v \<notin> allvars (ws ! i)})"
  shows "ok (rng_loop rec junk L b wo v cnt rs pl pw ws s) (\<lambda>((p, ret), us, t).
    p = pl + (\<Sum>r\<leftarrow>rs. re_p r * Pr W (\<lambda>\<tau>. dnf ws X (\<tau>(v := re_rng r)))) \<and> (ret \<longrightarrow> p = 1) \<and> us = ws \<and> wt_dist t = W)"
  using rs s pw
proof (induction rs arbitrary: pl pw s)
  case (Cons r rs)
  let ?q = "re_p r * Pr W (\<lambda>\<tau>. dnf ws X (\<tau>(v := re_rng r)))"
  obtain pw' t where br: "rng_branch rec junk L b wo v r pw ws s = Inr ((?q, pw'), ws, t)"
    "pw' = - 1 \<or> pw' = Pr W (dnf ws {i \<in> X. v \<notin> allvars (ws ! i)})" "wt_dist t = W"
    using rng_branch_ok [OF rec W pre N b wo v _ Cons.prems(3,4), of r junk] Cons.prems(1) by (auto elim!: ok_E)
  show ?case
  proof (cases "pl + ?q = 1 \<and> cnt = 1")
    case True
    then have "rs = []" using Cons.prems(2) by simp
    then show ?thesis using True br by (simp del: fun_upd_apply)
  next
    case False
    have "ok (rng_loop rec junk L b wo v cnt rs (pl + ?q) pw' ws t) (\<lambda>((p, ret), us, t).
      p = pl + ?q + (\<Sum>r\<leftarrow>rs. re_p r * Pr W (\<lambda>\<tau>. dnf ws X (\<tau>(v := re_rng r)))) \<and> (ret \<longrightarrow> p = 1) \<and> us = ws \<and> wt_dist t = W)"
      by (rule Cons.IH) (use Cons.prems(1,2) br(2,3) in simp_all)
    then show ?thesis using False br(1) by (auto simp: add.assoc simp del: fun_upd_apply elim!: ok_mono)
  qed
qed simp

text \<open>A single descriptor, the expansion by the chosen variable and the independent split.\<close>

lemma single_wsd:
  assumes "wt_ok W" "tree_pre L W ws X" "bs_raw b (length ws)" "bset b = X" "card X = 1"
  shows "\<exists>k < length ws. bitset_test_singleton (Some b) = Inr (int k) \<and> Pr W (dnf ws X) = d_prob (ws ! k)"
proof -
  obtain k where k: "X = {k}" using assms(5) by (auto simp: card_1_singleton_iff)
  have kn: "k < length ws" using assms(2) k by (simp add: tree_pre_def)
  have "dnf ws {k} = sat (ws ! k)" by (auto simp: dnf_def fun_eq_iff)
  moreover have "wsd_inv L W (ws ! k)" using assms(2) kn by (simp add: tree_pre_def)
  ultimately show ?thesis using bitset_test_singleton_eq [OF assms(3)] assms(4) k kn Pr_sat [OF assms(1)] by auto
qed

lemma no_live_var: "X \<noteq> {} \<Longrightarrow> \<forall>i \<in> X. lvars (ws ! i) = {} \<Longrightarrow> wt_ok W \<Longrightarrow> Pr W (dnf ws X) = 1"
proof -
  assume "X \<noteq> {}" "\<forall>i \<in> X. lvars (ws ! i) = {}" and W: "wt_ok W"
  then have "dnf ws X = (\<lambda>_. True)" by (auto simp: dnf_def sat_def lvars_def fun_eq_iff)
  then show ?thesis using Pr_True [OF W] by simp
qed

lemma chosen_var:
  assumes "wt_ok W" "wt_rngs_ok W" "wt_dist t = W" "k < length (wt_entries t)"
  shows "\<forall>r \<in> set (rng_entries (wt_entries t ! k)). re_rng r \<noteq> - 1"
    and "(\<Sum>r\<leftarrow>rng_entries (wt_entries t ! k). re_p r * Pr W (\<lambda>\<tau>. E (\<tau>(we_var (wt_entries t ! k) := re_rng r)))) = Pr W E"
    and "dist_ok (map (\<lambda>r. (re_rng r, re_p r)) (rng_entries (wt_entries t ! k)))"
proof -
  let ?e = "wt_entries t ! k"
  have e: "(we_var ?e, map (\<lambda>r. (re_rng r, re_p r)) (rng_entries ?e)) \<in> set W"
    using wt_dist_nth [OF assms(4)] assms(3,4) wt_dist_length [of t] nth_mem by metis
  show "\<forall>r \<in> set (rng_entries ?e). re_rng r \<noteq> - 1" using assms(2) e unfolding wt_rngs_ok_def by fastforce
  show "(\<Sum>r\<leftarrow>rng_entries ?e. re_p r * Pr W (\<lambda>\<tau>. E (\<tau>(we_var ?e := re_rng r)))) = Pr W E"
    using Pr_expand [OF assms(1) e, of E] by (simp add: comp_def)
  show "dist_ok (map (\<lambda>r. (re_rng r, re_p r)) (rng_entries ?e))" using assms(1) e by (auto simp: wt_ok_def)
qed

lemma split_off:
  assumes W: "wt_ok W" and bs: "oset (length ws) bs X" and pre: "tree_pre L W ws X" and X: "X \<noteq> {}"
  obtains b c where "bs = Some b" "bset b = X" "bs_raw b (length ws)"
    "find_independent_split junk L ws bs = Inr (Some c)" "bs_inv c (length ws)" "bset c \<subseteq> X" "bset c \<noteq> {}"
    "tree_size ws (bset c) \<le> tree_size ws X" "tree_size ws (X - bset c) < tree_size ws X"
    "Pr W (dnf ws X) = Pr W (dnf ws (bset c)) + Pr W (dnf ws (X - bset c)) - Pr W (dnf ws (bset c)) * Pr W (dnf ws (X - bset c))"
    "\<forall>c'. bs_inv c' (length ws) \<longrightarrow> bset c' \<subseteq> X \<longrightarrow> ok (bitset_negate b c') (\<lambda>d. bs_inv d (length ws) \<and> bset d = X - bset c')"
proof -
  obtain b where b: "bs = Some b" "bset b = X" "bs_raw b (length ws)" using bs X by (auto simp: oset_def split: option.splits)
  have "\<And>i. i < length ws \<Longrightarrow> length (d_data (ws ! i)) = L" using pre by (simp add: tree_pre_def wsd_inv_def)
  then have "ok (find_independent_split junk L ws bs) (\<lambda>r. \<exists>t. r = Some t \<and> bs_inv t (length ws) \<and>
      bset t \<subseteq> X \<and> bset t \<noteq> {} \<and> (\<forall>x \<in> bset t. \<forall>y \<in> X. dep ws x y \<longrightarrow> y \<in> bset t))"
    by (rule find_independent_split_ok [OF bs X])
  then obtain c where c: "find_independent_split junk L ws bs = Inr (Some c)" "bs_inv c (length ws)" "bset c \<subseteq> X"
    "bset c \<noteq> {}" "\<forall>x \<in> bset c. \<forall>y \<in> X. dep ws x y \<longrightarrow> y \<in> bset c"
    by (elim ok_E exE conjE) blast
  have fin: "finite X" using b(2) bset_finite by blast
  have "tree_size ws (bset c) \<le> tree_size ws X" unfolding tree_size_def using c(3) fin by (intro sum_mono2) auto
  moreover have "tree_size ws (X - bset c) < tree_size ws X" using c(3,4) by (intro tree_size_psubset [OF fin]) blast
  moreover have dn: "dnf ws X = (\<lambda>\<tau>. dnf ws (bset c) \<tau> \<or> dnf ws (X - bset c) \<tau>)" using c(3) by (auto simp: dnf_def fun_eq_iff)
  have "(\<Union>i\<in>bset c. lvars (ws ! i)) \<inter> (\<Union>i\<in>X - bset c. lvars (ws ! i)) = {}" using c(5) unfolding dep_def by blast
  then have "Pr W (dnf ws X) = Pr W (dnf ws (bset c)) + Pr W (dnf ws (X - bset c)) - Pr W (dnf ws (bset c)) * Pr W (dnf ws (X - bset c))"
    unfolding dn by (intro Pr_disj_indep [OF W dnf_depends dnf_depends])
  moreover have "ok (bitset_negate b c') (\<lambda>d. bs_inv d (length ws) \<and> bset d = X - bset c')"
    if "bs_inv c' (length ws)" "bset c' \<subseteq> X" for c'
    using bitset_negate_ok [OF b(3) that(1)] that(2) b(2) by simp
  ultimately show thesis using that [OF b c(1-4)] by blast
qed

lemma left_prob_ok:
  assumes rec: "solves rec N L W" and W: "wt_ok W" "wt_rngs_ok W" and pre: "tree_pre L W ws X" and N: "tree_size ws X \<le> N"
    and b: "bs_inv b (length ws)" "bset b = X" "X \<noteq> {}" and s: "wt_dist s = W"
  shows "ok (left_prob rec junk L b ws s) (\<lambda>((p, ret), us, t).
    (if ret then Pr W (dnf ws X) = 1 else p = Pr W (dnf ws X)) \<and> us = ws \<and> wt_dist t = W)"
proof -
  let ?n = "length ws"
  have inv: "\<And>i. i < ?n \<Longrightarrow> wsd_inv L W (ws ! i)" using pre by (auto simp: tree_pre_def)
  have raw: "bs_raw b ?n" using b by simp
  show ?thesis
  proof (cases "card X = 1")
    case True
    then show ?thesis using single_wsd [OF W(1) pre raw b(2)] s by (auto simp: left_prob_def)
  next
    case False
    have ts: "bitset_test_singleton (Some b) = Inr (- 1)" using bitset_test_singleton_eq [OF raw] b(2) False by simp
    obtain t res where ch: "choose_var_minlog L ws b s = Inr (t, res)" "wt_dist t = W"
      "case res of None \<Rightarrow> \<forall>i \<in> X. lvars (ws ! i) = {}
       | Some k \<Rightarrow> k < length (wt_entries t) \<and> (\<exists>i \<in> X. we_var (wt_entries t ! k) \<in> lvars (ws ! i))"
      using choose_var_minlog_ok [OF inv raw s] b(2) by (auto elim!: ok_E)
    show ?thesis
    proof (cases res)
      case None
      then show ?thesis using ts ch no_live_var [OF b(3) _ W(1)] by (simp add: left_prob_def)
    next
      case (Some k)
      let ?e = "wt_entries t ! k"
      let ?v = "we_var ?e"
      obtain i0 where k: "k < length (wt_entries t)" and i0: "i0 \<in> X" "?v \<in> lvars (ws ! i0)" using ch(3) Some by auto
      note e = chosen_var [OF W ch(2) k]
      obtain wo where wo: "find_wsds_without_var junk L ws b ?v = Inr wo" "grown ?n wo {i \<in> X. ?v \<notin> allvars (ws ! i)}"
        using find_wsds_without_var_ok [of ws L b junk ?v] inv raw b(2) by (auto simp: wsd_inv_def elim!: ok_E)
      show ?thesis
        using rng_loop_ok [OF rec W(1) pre N raw b(2) wo(2) i0 e(1) order_refl ch(2), of "- 1" junk 0] ts ch(1) Some k wo(1)
        unfolding e(2) by (auto simp: left_prob_def elim!: ok_mono)
    qed
  qed
qed

text \<open>The two parts of the split together.\<close>

lemma certain_part: "wt_ok W \<Longrightarrow> Z \<subseteq> X \<Longrightarrow> Pr W (dnf ws Z) = 1 \<Longrightarrow> Pr W (dnf ws X) = 1"
  using Pr_mono [of W "dnf ws Z" "dnf ws X"] Pr_le_1 [of W "dnf ws X"] by (auto simp: dnf_def)

theorem indve_compute_prob_solves:
  assumes W: "wt_ok W" "wt_rngs_ok W"
  shows "solves (indve_compute_prob fuel junk L) fuel L W"
proof (induction fuel)
  case 0
  show ?case by (simp add: solves_def)
next
  case (Suc fuel)
  show ?case unfolding solves_def
  proof (intro allI impI)
    fix bs ws s X
    assume bs: "oset (length ws) bs X" and pre: "tree_pre L W ws X" and s: "wt_dist s = W" and N: "tree_size ws X < Suc fuel"
    have te: "bitset_test_empty bs = Inr (X = {})" by (rule oset_test_empty [OF bs])
    show "ok (indve_compute_prob (Suc fuel) junk L bs ws s) (\<lambda>(p, us, t). p = Pr W (dnf ws X) \<and> us = ws \<and> wt_dist t = W)"
    proof (cases "X = {}")
      case True
      have "dnf ws {} = (\<lambda>_. False)" by (auto simp: dnf_def fun_eq_iff)
      then show ?thesis using True te s by simp
    next
      case False
      obtain b c where c: "bs = Some b" "bset b = X" "bs_raw b (length ws)"
        "find_independent_split junk L ws bs = Inr (Some c)" "bs_inv c (length ws)" "bset c \<subseteq> X" "bset c \<noteq> {}"
        "tree_size ws (bset c) \<le> tree_size ws X" "tree_size ws (X - bset c) < tree_size ws X"
        "Pr W (dnf ws X) = Pr W (dnf ws (bset c)) + Pr W (dnf ws (X - bset c)) - Pr W (dnf ws (bset c)) * Pr W (dnf ws (X - bset c))"
        "\<forall>c'. bs_inv c' (length ws) \<longrightarrow> bset c' \<subseteq> X \<longrightarrow> ok (bitset_negate b c') (\<lambda>d. bs_inv d (length ws) \<and> bset d = X - bset c')"
        by (rule split_off [OF W(1) bs pre False, of junk])
      have sz: "tree_size ws (bset c) \<le> fuel" using N c(8) by simp
      obtain pl ret t where l: "left_prob (indve_compute_prob fuel junk L) junk L c ws s = Inr ((pl, ret), ws, t)"
        "if ret then Pr W (dnf ws (bset c)) = 1 else pl = Pr W (dnf ws (bset c))" "wt_dist t = W"
        using left_prob_ok [OF Suc.IH W tree_pre_subset [OF pre c(6)] sz c(5) refl c(7) s, of junk] by (auto elim!: ok_E)
      show ?thesis
      proof (cases "ret \<or> pl = 1")
        case True
        then have "Pr W (dnf ws X) = 1" using l(2) certain_part [OF W(1) c(6)] by (auto split: if_splits)
        then show ?thesis using True te c(4) l(1,3) False by simp
      next
        case nret: False
        obtain d where d: "bitset_negate b c = Inr d" "bs_inv d (length ws)" "bset d = X - bset c"
          using c(5,6,11) by (auto elim!: ok_E)
        have "ok (indve_compute_prob fuel junk L (Some d) ws t)
            (\<lambda>(p, us, t). p = Pr W (dnf ws (X - bset c)) \<and> us = ws \<and> wt_dist t = W)"
          by (intro solvesD [OF Suc.IH]) (use d l(3) N c(9) tree_pre_subset [OF pre, of "X - bset c"] in \<open>auto simp: oset_def\<close>)
        then show ?thesis using nret te c(1,4,10) l(1,2) False d(1) by (auto elim!: ok_mono)
      qed
    qed
  qed
qed

section \<open>The confidence of a group\<close>

text \<open>The probability a world table gives to an assignment.\<close>

definition wt_prob :: "wtable \<Rightarrow> int \<Rightarrow> int \<Rightarrow> real" where
  "wt_prob W v r = (case map_of W v of None \<Rightarrow> 0 | Some d \<Rightarrow> (case map_of d r of None \<Rightarrow> 0 | Some p \<Rightarrow> p))"

lemma wt_prob_lit:
  assumes "wt_ok W" "(v, d) \<in> set W" "(r, p) \<in> set d"
  shows "wt_prob W v r = p"
  using assms map_of_is_SomeI [of W v d] map_of_is_SomeI [of d r p]
  by (auto simp: wt_prob_def wt_ok_def dist_ok_def)

lemma dist_sub_sum:
  assumes "dist_ok d" "distinct rs"
  shows "(\<Sum>r\<leftarrow>rs. case map_of d r of None \<Rightarrow> 0 | Some p \<Rightarrow> p) \<le> 1"
proof -
  let ?f = "\<lambda>r. case map_of d r of None \<Rightarrow> 0 | Some p \<Rightarrow> p"
  have pos: "0 \<le> ?f r" for r using assms(1) by (auto simp: dist_ok_def split: option.splits dest!: map_of_SomeD)
  have "(\<Sum>r\<leftarrow>rs. ?f r) = (\<Sum>r\<in>set rs. ?f r)" using assms(2) by (rule sum_list_distinct_conv_sum_set)
  also have "\<dots> = (\<Sum>r\<in>set rs \<inter> fst ` set d. ?f r)"
  proof (rule sum.mono_neutral_right)
    have "map_of d i = None" if "i \<notin> fst ` set d" for i using that by (simp add: map_of_eq_None_iff)
    then show "\<forall>i \<in> set rs - set rs \<inter> fst ` set d. ?f i = 0" by simp
  qed auto
  also have "\<dots> \<le> (\<Sum>r\<in>fst ` set d. ?f r)" using pos by (intro sum_mono2) auto
  also have "\<dots> = (\<Sum>r\<leftarrow>map fst d. ?f r)"
    using assms(1) sum_list_distinct_conv_sum_set [of "map fst d" ?f] by (simp add: dist_ok_def)
  also have "\<dots> = (\<Sum>(r, p)\<leftarrow>d. p)"
  proof -
    have "map ?f (map fst d) = map snd d" using assms(1) by (auto simp: dist_ok_def map_of_is_SomeI)
    moreover have "map (\<lambda>(r, p). p) d = map snd d" by (simp add: case_prod_beta)
    ultimately show ?thesis by (simp only:)
  qed
  finally show ?thesis using assms(1) by (simp add: dist_ok_def)
qed

lemma wt_prob_sub: "wt_ok W \<Longrightarrow> sub_prob (wt_prob W)"
proof -
  assume W: "wt_ok W"
  then have d: "map_of W v = Some d \<Longrightarrow> dist_ok d" for v d by (auto simp: wt_ok_def dest: map_of_SomeD)
  have "0 \<le> wt_prob W v r" for v r
  proof (cases "map_of W v")
    case (Some e)
    show ?thesis using d [OF Some] Some by (auto simp: wt_prob_def dist_ok_def split: option.splits dest!: map_of_SomeD [of e])
  qed (simp add: wt_prob_def)
  moreover have "(\<Sum>r\<leftarrow>rs. wt_prob W v r) \<le> 1" if "distinct rs" for v rs
    using dist_sub_sum [OF d that, of v] by (cases "map_of W v") (auto simp: wt_prob_def)
  ultimately show ?thesis by (simp add: sub_prob_def)
qed

text \<open>
  The lineages \<open>conf()\<close> is meant for: every clause has \<open>n\<close> conditions on distinct variables
  that the world table of the database contains, and the hash table has room for them.
\<close>

definition lineage_ok :: "wtable \<Rightarrow> nat \<Rightarrow> lit list list \<Rightarrow> bool" where
  "lineage_ok W n cs \<longleftrightarrow> wt_ok W \<and> fits (\<Union>c\<in>set cs. fst ` set c) \<and>
     (\<forall>c \<in> set cs. length c = n \<and> distinct (map fst c) \<and> in_wt W c \<and>
       (\<forall>(v, r, p) \<in> set c. p \<noteq> 0 \<and> 0 \<le> r \<and> r < 2 ^ 31 \<and>
          (v = RESERVED_VAR \<longrightarrow> r = RNG_FOR_RESERVED_VAR \<and> p = 1)))"

lemma lineage_clause_ok:
  assumes W: "lineage_ok W n cs" and c: "c \<in> set cs"
  shows "clause_ok (wt_prob W) n (\<Union>c\<in>set cs. fst ` set c) c"
proof -
  have wt: "wt_ok W" and len: "length c = n" "distinct (map fst c)" and iw: "in_wt W c"
    and lits: "\<forall>(v, r, p) \<in> set c. p \<noteq> 0 \<and> 0 \<le> r \<and> r < 2 ^ 31 \<and> (v = RESERVED_VAR \<longrightarrow> r = RNG_FOR_RESERVED_VAR \<and> p = 1)"
    using W c unfolding lineage_ok_def by blast+
  have "p = wt_prob W v r \<and> v \<in> (\<Union>c\<in>set cs. fst ` set c)" if l: "(v, r, p) \<in> set c" for v r p
  proof -
    obtain d where "(v, d) \<in> set W" "(r, p) \<in> set d" using iw l by (auto simp: in_wt_def)
    moreover have "v \<in> fst ` set c" using l by force
    ultimately show ?thesis using wt_prob_lit [OF wt] c by auto
  qed
  then have "\<forall>(v, r, p) \<in> set c. v \<in> (\<Union>c\<in>set cs. fst ` set c) \<and> p = wt_prob W v r \<and> 0 \<le> r \<and> r < 2 ^ 31 \<and>
      (v = RESERVED_VAR \<longrightarrow> r = RNG_FOR_RESERVED_VAR \<and> p = 1)" using lits by auto
  then show ?thesis unfolding clause_ok_def using len by blast
qed

text \<open>What \<open>getMissingRngs\<close> and \<open>computeEntryPointers\<close> establish for the tree.\<close>

lemma lit_in_wt:
  assumes s: "wt_inv P s" "wt_le s t" and mp: "map_at s mp" "m_prob mp = P (m_var mp) (m_rng mp)"
  shows "\<exists>d. (m_var mp, d) \<in> set (wt_dist t) \<and> (m_rng mp, m_prob mp) \<in> set d"
proof -
  obtain k j where kj: "k < length (wt_entries s)" "we_var (wt_entries s ! k) = m_var mp"
    "j < length (rng_entries (wt_entries s ! k))" "re_rng (rng_entries (wt_entries s ! k) ! j) = m_rng mp"
    using mp(1) by (auto simp: map_at_def)
  let ?r = "rng_entries (wt_entries s ! k) ! j"
  have "entry_ok P (wt_entries s ! k)" using s(1) kj(1) by (simp add: wt_inv_def)
  then have "re_p ?r = m_prob mp" using kj mp(2) by (simp add: entry_ok_def)
  obtain rs where t: "k < length (wt_entries t)" "we_var (wt_entries t ! k) = m_var mp"
    "rng_entries (wt_entries t ! k) = rng_entries (wt_entries s ! k) @ rs"
    using s(2) kj(1,2) unfolding wt_le_def by force
  have "?r \<in> set (rng_entries (wt_entries t ! k))" using t(3) kj(3) by simp
  then have "(m_rng mp, m_prob mp) \<in> set (snd (wt_dist t ! k))"
    using wt_dist_nth [OF t(1)] kj(4) \<open>re_p ?r = m_prob mp\<close> by force
  moreover have "wt_dist t ! k \<in> set (wt_dist t)" using t(1) by (simp add: wt_dist_length)
  moreover have "fst (wt_dist t ! k) = m_var mp" using wt_dist_nth [OF t(1)] t(2) by simp
  ultimately show ?thesis by (metis prod.collapse)
qed

lemma ptr_lit_at:
  assumes W: "wt_ok (wt_dist t)" and p: "ptr_ok t mp"
    and ex: "\<exists>d. (m_var mp, d) \<in> set (wt_dist t) \<and> (m_rng mp, m_prob mp) \<in> set d"
  shows "lit_at (wt_dist t) mp"
proof -
  obtain k j where kj: "rng_entry mp = Some (k, j)" "k < length (wt_entries t)" "we_var (wt_entries t ! k) = m_var mp"
    "j < length (rng_entries (wt_entries t ! k))" "re_rng (rng_entries (wt_entries t ! k) ! j) = m_rng mp"
    using p by (auto simp: ptr_ok_def)
  obtain d where d: "(m_var mp, d) \<in> set (wt_dist t)" "(m_rng mp, m_prob mp) \<in> set d" using ex by blast
  have "wt_dist t ! k \<in> set (wt_dist t)" using kj(2) by (simp add: wt_dist_length)
  moreover have "fst (wt_dist t ! k) = m_var mp" using kj(3) wt_dist_nth [OF kj(2)] by simp
  ultimately have "(m_var mp, snd (wt_dist t ! k)) \<in> set (wt_dist t)" by (metis prod.collapse)
  then have dk: "d = snd (wt_dist t ! k)"
    using W d(1) eq_key_imp_eq_value [of "wt_dist t"] unfolding wt_ok_def by blast
  have m: "snd (wt_dist t ! k) ! j = (m_rng mp, re_p (rng_entries (wt_entries t ! k) ! j))" "j < length (snd (wt_dist t ! k))"
    using kj wt_dist_nth [of k t] by simp_all
  have "dist_ok d" using W d(1) by (auto simp: wt_ok_def)
  then have "re_p (rng_entries (wt_entries t ! k) ! j) = m_prob mp"
    using d(2) m dk nth_mem [OF m(2)] eq_key_imp_eq_value [of d] unfolding dist_ok_def by fastforce
  then show ?thesis
    using kj m \<open>fst (wt_dist t ! k) = m_var mp\<close> by (simp add: lit_at_def wt_dist_length)
qed

text \<open>
  The descriptors of an accumulated lineage after the completion of the world table: over
  the local world table they mean what the lineage means in the database.
\<close>

definition entry_at :: "wtable \<Rightarrow> Map_t \<Rightarrow> bool" where
  "entry_at W mp \<longleftrightarrow> (\<exists>k. wt_entry mp = Some k \<and> k < length W \<and> fst (W ! k) = m_var mp)"

definition entries_at :: "wtable \<Rightarrow> WSD list \<Rightarrow> bool" where
  "entries_at W ws \<longleftrightarrow> (\<forall>d \<in> set ws. \<forall>mp \<in> set (d_data d). entry_at W mp)"

lemma ptr_entry_at: "ptr_ok t mp \<Longrightarrow> entry_at (wt_dist t) mp"
  by (auto simp: ptr_ok_def entry_at_def wt_dist_length wt_dist_nth)

definition prepared :: "wtable \<Rightarrow> nat \<Rightarrow> lit list list \<Rightarrow> generalState \<Rightarrow> WSD list \<Rightarrow> bool" where
  "prepared W n cs t ws \<longleftrightarrow> wt_ok (wt_dist t) \<and> wt_rngs_ok (wt_dist t) \<and> tree_pre n (wt_dist t) ws {..<length ws} \<and>
     (\<forall>i < length ws. \<forall>mp \<in> set (d_data (ws ! i)). live mp) \<and> length ws = length cs \<and>
     map lits_of ws = cs \<and> entries_at (wt_dist t) ws \<and> dnf ws {..<length ws} = lineage_holds cs \<and>
     Pr (wt_dist t) (lineage_holds cs) = Pr W (lineage_holds cs)"

lemma wsd_prepared:
  assumes W: "wt_ok (wt_dist t)" and ptr: "length (d_data d) = n" "\<forall>mp \<in> set (d_data d). ptr_ok t mp"
    and p: "d_prob d = prod_list (map m_prob (d_data d))"
    and c: "distinct (map fst (lits_of d))" "in_wt (wt_dist t) (lits_of d)"
      "\<forall>(v, r, q) \<in> set (lits_of d). q \<noteq> 0 \<and> 0 \<le> r"
  shows "wsd_inv n (wt_dist t) d" "\<forall>mp \<in> set (d_data d). live mp" "sat d = holds (lits_of d)"
proof -
  have mp: "m_prob mp \<noteq> 0 \<and> 0 \<le> m_rng mp \<and> lit_at (wt_dist t) mp" if m: "mp \<in> set (d_data d)" for mp
  proof -
    have "(m_var mp, m_rng mp, m_prob mp) \<in> set (lits_of d)" using m by (auto simp: lits_of_def)
    then have "m_prob mp \<noteq> 0 \<and> 0 \<le> m_rng mp" "\<exists>e. (m_var mp, e) \<in> set (wt_dist t) \<and> (m_rng mp, m_prob mp) \<in> set e"
      using c(2,3) by (auto simp: in_wt_def)
    then show ?thesis using ptr_lit_at [OF W] ptr(2) m by blast
  qed
  then show l: "\<forall>mp \<in> set (d_data d). live mp" by (force simp: live_def)
  then have "filter live (d_data d) = d_data d" by simp
  then show "wsd_inv n (wt_dist t) d"
    using mp ptr(1) p c(1) by (simp add: wsd_inv_def map_inv_def lits_of_def comp_def)
  show "sat d = holds (lits_of d)" using l by (auto simp: sat_def holds_def lits_of_def fun_eq_iff)
qed

lemma prepare_ok:
  assumes lin: "lin_inv (wt_prob W) n V cs (l, s)" and ok: "lineage_ok W n cs"
  shows "ok (rbind (getMissingRngs s) (\<lambda>s. rbind (deref (S l)) (\<lambda>ws.
      rbind (computeEntryPointers (WSD_LEN l) s ws) (\<lambda>ws. Inr (s, ws))))) (\<lambda>(t, ws). prepared W n cs t ws)"
proof -
  have W: "wt_ok W" using ok by (simp add: lineage_ok_def)
  obtain ws where ws: "S l = Some ws" "WSD_LEN l = n" "map lits_of ws = cs" "\<forall>d \<in> set ws. wsd_ok n s d" "wt_inv (wt_prob W) s"
    using lin by (auto simp: lin_inv_def)
  obtain t where t: "getMissingRngs s = Inr t" "wt_le s t" "wt_ok (wt_dist t)"
    "\<forall>e \<in> set (wt_entries t). \<forall>r \<in> set (rng_entries e). re_rng r \<noteq> - 1"
    using getMissingRngs_ok [OF ws(5) wt_prob_sub [OF W]] by (auto elim!: ok_E)
  have "\<forall>d \<in> set ws. wsd_ok n t d" using ws(4) wsd_ok_mono [OF _ t(2)] by blast
  then obtain us where us: "computeEntryPointers n t ws = Inr us" "map lits_of us = cs" "map d_prob us = map d_prob ws"
    "\<forall>d \<in> set us. length (d_data d) = n \<and> (\<forall>mp \<in> set (d_data d). ptr_ok t mp)"
    using computeEntryPointers_ok [of ws n t] ws(3) by (auto elim!: ok_E)
  have len: "length us = length ws" "length us = length cs" using us(2) ws(3) by (metis length_map)+
  have cl: "lits_of (us ! i) \<in> set cs" "lits_of (us ! i) = lits_of (ws ! i)" "d_prob (us ! i) = d_prob (ws ! i)" if "i < length us" for i
    using that us(2,3) ws(3) len by (metis length_map nth_map nth_mem)+
  have iw: "in_wt (wt_dist t) (lits_of (us ! i))" if i: "i < length us" for i
  proof -
    have wi: "wsd_ok n s (ws ! i)" "clause_ok (wt_prob W) n (\<Union>c\<in>set cs. fst ` set c) (lits_of (ws ! i))"
      using ws(4) len i cl(1) [OF i] cl(2) [OF i] lineage_clause_ok [OF ok] by auto
    have "\<exists>e. (m_var mp, e) \<in> set (wt_dist t) \<and> (m_rng mp, m_prob mp) \<in> set e" if m: "mp \<in> set (d_data (ws ! i))" for mp
    proof (rule lit_in_wt [OF ws(5) t(2)])
      show "map_at s mp" using wi(1) m by (simp add: wsd_ok_def)
      have "(m_var mp, m_rng mp, m_prob mp) \<in> set (lits_of (ws ! i))" using m by (auto simp: lits_of_def)
      then show "m_prob mp = wt_prob W (m_var mp) (m_rng mp)" using wi(2) by (auto simp: clause_ok_def)
    qed
    then show ?thesis unfolding cl(2) [OF i] by (auto simp: in_wt_def lits_of_def)
  qed
  have d: "wsd_inv n (wt_dist t) (us ! i)" "\<forall>mp \<in> set (d_data (us ! i)). live mp" "sat (us ! i) = holds (lits_of (us ! i))"
    if i: "i < length us" for i
  proof -
    have pi: "length (d_data (us ! i)) = n" "\<forall>mp \<in> set (d_data (us ! i)). ptr_ok t mp"
      using us(4) nth_mem [OF i] by blast+
    have "distinct (map fst (lits_of (us ! i)))" "\<forall>(v, r, q) \<in> set (lits_of (us ! i)). q \<noteq> 0 \<and> 0 \<le> r"
      using ok cl(1) [OF i] unfolding lineage_ok_def by fastforce+
    moreover have "map m_prob (d_data (us ! i)) = map m_prob (d_data (ws ! i))"
      using arg_cong [OF cl(2) [OF i], of "map (\<lambda>(v, r, p). p)"] by (simp add: lits_of_def comp_def)
    then have "d_prob (us ! i) = prod_list (map m_prob (d_data (us ! i)))"
      using cl(3) [OF i] ws(4) len i by (simp add: wsd_ok_def)
    ultimately show "wsd_inv n (wt_dist t) (us ! i)" "\<forall>mp \<in> set (d_data (us ! i)). live mp" "sat (us ! i) = holds (lits_of (us ! i))"
      using wsd_prepared [OF t(3) pi _ _ iw [OF i]] by blast+
  qed
  have "lvars (us ! i) = allvars (us ! i)" if "i < length us" for i using d(2) [OF that] by (auto simp: lvars_def allvars_def)
  then have "tree_pre n (wt_dist t) us {..<length us}" using d(1) by (auto simp: tree_pre_def uniform_def)
  moreover have "dnf us {..<length us} = lineage_holds cs"
  proof
    fix \<tau>
    have "dnf us {..<length us} \<tau> \<longleftrightarrow> (\<exists>i < length us. holds (lits_of (us ! i)) \<tau>)" using d(3) by (auto simp: dnf_def)
    also have "\<dots> \<longleftrightarrow> (\<exists>u \<in> set us. holds (lits_of u) \<tau>)" by (metis in_set_conv_nth)
    also have "\<dots> \<longleftrightarrow> lineage_holds cs \<tau>" unfolding us(2) [symmetric] by (simp add: lineage_holds_def)
    finally show "dnf us {..<length us} \<tau> = lineage_holds cs \<tau>" .
  qed
  moreover have "\<forall>c \<in> set cs. in_wt (wt_dist t) c \<and> in_wt W c"
    using iw ok unfolding us(2) [symmetric] by (auto simp: in_set_conv_nth lineage_ok_def)
  then have "Pr (wt_dist t) (lineage_holds cs) = Pr W (lineage_holds cs)" by (rule Pr_lineage_eq [OF t(3) W])
  moreover have "wt_rngs_ok (wt_dist t)" using t(4) by (auto simp: wt_rngs_ok_def wt_dist_def)
  moreover have "entries_at (wt_dist t) us" using us(4) ptr_entry_at unfolding entries_at_def by blast
  ultimately have "prepared W n cs t us" using t(3) d(2) len(2) us(2) by (simp add: prepared_def)
  then show ?thesis using t(1) ws(1,2) us(1) by simp
qed

lemma prepared_group:
  assumes "lin_inv (wt_prob W) n V cs (l, s)" "lineage_ok W n cs"
  obtains t ws0 ws where "getMissingRngs s = Inr t" "S l = Some ws0" "computeEntryPointers n t ws0 = Inr ws"
    "prepared W n cs t ws" "WSD_LEN l = n" "groupcxt l"
  using prepare_ok [OF assms] assms(1) by (auto simp: lin_inv_def elim!: ok_E)

lemma accumulated_group:
  assumes "lineage_ok W n cs" "cs \<noteq> []" "S l = None"
  obtains l' s' where "accum_all n cs (l, s) = Inr (l', s')" "lin_inv (wt_prob W) n (\<Union>c\<in>set cs. fst ` set c) cs (l', s')"
proof -
  have V: "fits (\<Union>c\<in>set cs. fst ` set c)" using assms(1) by (simp add: lineage_ok_def)
  have "ok (accum_all n cs (l, s)) (lin_inv (wt_prob W) n (\<Union>c\<in>set cs. fst ` set c) cs)"
    by (rule accum_all_ok [OF assms(3) V _ assms(2)]) (use lineage_clause_ok [OF assms(1)] in blast)
  then show ?thesis using that by (auto elim!: ok_E)
qed

lemma tree_size_bound:
  assumes "\<And>i. i < length ws \<Longrightarrow> length (d_data (ws ! i)) = L"
  shows "tree_size ws {..<length ws} < TREE_FUEL (length ws) L"
proof -
  have "Suc (length (filter live (d_data (ws ! i)))) \<le> Suc L" if "i < length ws" for i
    using assms [OF that] length_filter_le [of live "d_data (ws ! i)"] by simp
  then have "tree_size ws {..<length ws} \<le> length ws * Suc L"
    unfolding tree_size_def using sum_bounded_above [of "{..<length ws}" "\<lambda>i. Suc (length (filter live (d_data (ws ! i))))" "Suc L"]
    by simp
  then show ?thesis by (simp add: TREE_FUEL_def)
qed

lemma conf_final_ge_ok:
  assumes lin: "lin_inv (wt_prob W) n V cs (l, s)" and ok: "lineage_ok W n cs" and ne: "cs \<noteq> []"
  shows "ok (conf_final_ge junk l s) (\<lambda>(p, l', s'). p = Pr W (lineage_holds cs) \<and> S l' = None \<and> \<not> groupcxt l')"
proof -
  obtain t ws0 ws where prep: "getMissingRngs s = Inr t" "S l = Some ws0" "computeEntryPointers n t ws0 = Inr ws"
    "prepared W n cs t ws" and l: "WSD_LEN l = n" "groupcxt l"
    by (rule prepared_group [OF lin ok])
  have p: "wt_ok (wt_dist t)" "wt_rngs_ok (wt_dist t)" "tree_pre n (wt_dist t) ws {..<length ws}" "length ws = length cs"
    "dnf ws {..<length ws} = lineage_holds cs" "Pr (wt_dist t) (lineage_holds cs) = Pr W (lineage_holds cs)"
    using prep(4) unfolding prepared_def by blast+
  obtain b where b: "bitset_set (bitset_init junk (length ws)) = Inr b" "bs_raw b (length ws)" "bset b = {..<length ws}"
    using bitset_set_ok [OF bs_raw_init [of junk "length ws"]] by (auto elim!: ok_E)
  have "length (d_data (ws ! i)) = n" if "i < length ws" for i using p(3) that by (simp add: tree_pre_def wsd_inv_def)
  then have "ok (indve_compute_prob (TREE_FUEL (length ws) n) junk n (Some b) ws t)
      (\<lambda>(q, us, t'). q = Pr (wt_dist t) (dnf ws {..<length ws}) \<and> us = ws \<and> wt_dist t' = wt_dist t)"
    by (intro solvesD [OF indve_compute_prob_solves [OF p(1,2)]] tree_size_bound)
      (use b p(3,4) ne in \<open>auto simp: oset_def\<close>)
  then show ?thesis
    using prep(1-3) l b(1) p(5,6) by (auto simp: conf_final_ge_def elim!: ok_mono)
qed

lemma conf_group:
  assumes "lineage_ok W n cs" "cs \<noteq> []" "S l = None"
  shows "ok (rbind (accum_all n cs (l, s)) (\<lambda>(l, s). conf_final_ge junk l s))
    (\<lambda>(p, l', s'). p = Pr W (lineage_holds cs) \<and> S l' = None \<and> \<not> groupcxt l')"
proof -
  obtain l' s' where "accum_all n cs (l, s) = Inr (l', s')" "lin_inv (wt_prob W) n (\<Union>c\<in>set cs. fst ` set c) cs (l', s')"
    by (rule accumulated_group [OF assms])
  then show ?thesis using conf_final_ge_ok [OF _ assms(1,2), of _ l' s' junk] by simp
qed

section \<open>Properties\<close>

text \<open>Concrete descriptors and world tables: a map with its entry pointers, an entry, a state.\<close>

definition map_of_entry :: "int \<Rightarrow> int \<Rightarrow> real \<Rightarrow> nat \<Rightarrow> nat \<Rightarrow> Map_t" where
  "map_of_entry v r p k j = (create_map v r 0 p)\<lparr>wt_entry := Some k, rng_entry := Some (k, j)\<rparr>"

definition entry_of :: "int \<Rightarrow> dist \<Rightarrow> worldTableEntry" where
  "entry_of v d = (new_entry v)\<lparr>rng_entries := map (\<lambda>(r, p). \<lparr>re_rng = r, re_p = p, re_count = 0\<rparr>) d\<rparr>"

definition state_of :: "wtable \<Rightarrow> generalState" where
  "state_of W = \<lparr>wt_entries = map (\<lambda>(v, d). entry_of v d) W, HT = [], mlists = [], gs_nbits = 0, gs_mask = 0, wt_entry_max = 1000\<rparr>"

lemma wt_dist_state_of [simp]: "wt_dist (state_of W) = W"
  by (simp add: wt_dist_def state_of_def entry_of_def new_entry_def comp_def case_prod_beta)

definition two_coins :: wtable where
  "two_coins = [(1, [(1, 1/2), (2, 1/2)]), (2, [(1, 1/4), (2, 3/4)])]"

definition three_wsds :: "WSD list" where
  "three_wsds = [\<lparr>d_data = [map_of_entry 1 1 (1/2) 0 0, map_of_entry 2 1 (1/4) 1 0], d_prob = 1/8\<rparr>,
    \<lparr>d_data = [map_of_entry 1 2 (1/2) 0 1, map_of_entry 2 2 (3/4) 1 1], d_prob = 3/8\<rparr>,
    \<lparr>d_data = [map_of_entry 1 1 (1/2) 0 0, map_of_entry 2 2 (3/4) 1 1], d_prob = 3/8\<rparr>]"

lemma two_coins_ok: "wt_ok two_coins" "wt_rngs_ok two_coins"
  by (simp_all add: wt_ok_def dist_ok_def wt_rngs_ok_def two_coins_def)

lemma lvars_code:
  "lvars \<lparr>d_data = [], d_prob = p\<rparr> = {}"
  "lvars \<lparr>d_data = mp # mps, d_prob = p\<rparr> = (if live mp then {m_var mp} else {}) \<union> lvars \<lparr>d_data = mps, d_prob = p\<rparr>"
  by (auto simp: lvars_def)

lemma three_wsds_inv: "d \<in> set three_wsds \<Longrightarrow> wsd_inv 2 two_coins d \<and> lvars d = {1, 2} \<and> allvars d = {1, 2}"
  by (auto simp: three_wsds_def two_coins_def wsd_inv_def map_inv_def lit_at_def live_def map_of_entry_def
      create_map_def lvars_code allvars_def)

lemma three_wsds_pre: "tree_pre 2 two_coins three_wsds {..<3}" "length three_wsds = 3"
proof -
  show "length three_wsds = 3" by (simp add: three_wsds_def)
  then show "tree_pre 2 two_coins three_wsds {..<3}"
    using three_wsds_inv nth_mem [of _ three_wsds] by (simp add: tree_pre_def uniform_def)
qed

definition empty_lineage :: lineage where
  "empty_lineage = \<lparr>S = None, current_size = 0, WSD_LEN = 0, groupcxt = False\<rparr>"

lemma S_empty_lineage [simp]: "S empty_lineage = None"
  by (simp add: empty_lineage_def)

lemma two_clauses_ok: "lineage_ok two_coins 2 [[(1, 1, 1/2), (2, 1, 1/4)], [(1, 2, 1/2), (2, 2, 3/4)]]"
proof -
  have "fits {1, 2}" by (rule fits_small) (simp_all add: LIST_INIT_SIZE_def)
  then show ?thesis
    using two_coins_ok(1) by (simp add: lineage_ok_def in_wt_def two_coins_def RESERVED_VAR_def insert_commute)
qed

lemma one_clause_ok: "lineage_ok two_coins 1 [[(1, 1, 1/2)]]"
proof -
  have "fits {1}" by (rule fits_small) (simp_all add: LIST_INIT_SIZE_def)
  then show ?thesis using two_coins_ok(1) by (simp add: lineage_ok_def in_wt_def two_coins_def RESERVED_VAR_def)
qed

definition all_three :: bitset where
  "all_three = \<lparr>bits = [7], nbits = 3\<rparr>"

lemma all_three_ok: "oset 3 (Some all_three) {..<3}" "bs_inv all_three 3" "bset all_three = {..<3}"
proof -
  have b: "bitat all_three i \<longleftrightarrow> i < 3" if "i < 64" for i
  proof -
    have "bit (mask 3 :: 64 word) i \<longleftrightarrow> possible_bit TYPE(64 word) i \<and> i < 3" by (rule bit_mask_iff)
    then show ?thesis using that by (simp add: bitat_def all_three_def BITSET_BITS_def mask_eq_exp_minus_1)
  qed
  show s: "bset all_three = {..<3}" using b by (auto simp: bset_def all_three_def)
  show inv: "bs_inv all_three 3" using b
    by (auto simp: bs_inv_def bs_raw_def BITSET_USED_def BITSET_BITS_def) (simp_all add: all_three_def)
  show "oset 3 (Some all_three) {..<3}" using s inv by (simp add: oset_def)
qed

text \<open>
  C3. The recursion of independent partitioning and variable elimination returns, with fuel
  above the number of descriptors and undropped maps in its set, the exact probability that one
  of the descriptors of the set holds; it leaves the descriptors as they were and the
  distributions of the world table untouched.
\<close>

theorem indve_compute_prob_correct:
  assumes "wt_ok W" "wt_rngs_ok W" "wt_dist s = W" "tree_pre L W ws X" "oset (length ws) bs X" "tree_size ws X < fuel"
  shows "\<exists>t. indve_compute_prob fuel junk L bs ws s = Inr (Pr W (dnf ws X), ws, t) \<and> wt_dist t = W"
  using solvesD [OF indve_compute_prob_solves [OF assms(1,2)] assms(5,4,3,6), of junk] by (auto simp: ok_def)

theorem indve_compute_prob_correct_witness:
  "\<exists>t. indve_compute_prob 10 (\<lambda>_. 0) 2 (Some all_three) three_wsds (state_of two_coins) = Inr (7/8, three_wsds, t)"
proof -
  have "tree_size three_wsds {..<3} < 10"
    by (simp add: tree_size_def three_wsds_def live_def map_of_entry_def create_map_def numeral_3_eq_3 lessThan_Suc)
  then have "\<exists>t. indve_compute_prob 10 (\<lambda>_. 0) 2 (Some all_three) three_wsds (state_of two_coins) =
      Inr (Pr two_coins (dnf three_wsds {..<3}), three_wsds, t) \<and> wt_dist t = two_coins"
    by (intro indve_compute_prob_correct) (use two_coins_ok three_wsds_pre all_three_ok in simp_all)
  moreover have "Pr two_coins (dnf three_wsds {..<3}) = 7/8"
    by (simp add: two_coins_def Pr_Cons dnf_def sat_def three_wsds_def live_def map_of_entry_def create_map_def
        numeral_3_eq_3 lessThan_Suc)
  ultimately show ?thesis by auto
qed

text \<open>
  C24. Independent partitioning: the split returned for a non-empty set is a non-empty part of
  it that shares no undropped variable with the rest, so the probability of the set follows
  from those of the two parts.
\<close>

theorem independent_split_probability:
  assumes "wt_ok W" "oset (length ws) bs X" "X \<noteq> {}" "\<And>i. i < length ws \<Longrightarrow> length (d_data (ws ! i)) = L"
  shows "ok (find_independent_split junk L ws bs) (\<lambda>r. \<exists>t. r = Some t \<and> bs_inv t (length ws) \<and> bset t \<noteq> {} \<and> bset t \<subseteq> X \<and>
    Pr W (dnf ws X) = Pr W (dnf ws (bset t)) + Pr W (dnf ws (X - bset t)) - Pr W (dnf ws (bset t)) * Pr W (dnf ws (X - bset t)))"
proof -
  obtain t where t: "find_independent_split junk L ws bs = Inr (Some t)" "bs_inv t (length ws)" "bset t \<noteq> {}" "bset t \<subseteq> X"
    "\<forall>x \<in> bset t. \<forall>y \<in> X. dep ws x y \<longrightarrow> y \<in> bset t"
    using find_independent_split_ok [OF assms(2-4), of junk] by (auto elim!: ok_E)
  let ?A = "bset t" and ?B = "X - bset t"
  have "(\<Union>i\<in>?A. lvars (ws ! i)) \<inter> (\<Union>i\<in>?B. lvars (ws ! i)) = {}" using t(5) unfolding dep_def by blast
  from Pr_disj_indep [OF assms(1) dnf_depends dnf_depends this]
  have "Pr W (\<lambda>\<tau>. dnf ws ?A \<tau> \<or> dnf ws ?B \<tau>) = Pr W (dnf ws ?A) + Pr W (dnf ws ?B) - Pr W (dnf ws ?A) * Pr W (dnf ws ?B)" .
  moreover have "Pr W (dnf ws X) = Pr W (\<lambda>\<tau>. dnf ws ?A \<tau> \<or> dnf ws ?B \<tau>)"
    using t(4) by (intro Pr_cong) (auto simp: dnf_def)
  ultimately show ?thesis using t(1-4) by (intro ok_I [OF t(1)] exI [of _ t]) simp
qed

theorem independent_split_probability_witness:
  "ok (find_independent_split (\<lambda>_. 0) 2 three_wsds (Some all_three)) (\<lambda>r. \<exists>t. r = Some t \<and> bset t \<subseteq> {..<3})"
proof -
  have "length (d_data (three_wsds ! i)) = 2" if "i < length three_wsds" for i
    using three_wsds_pre that by (simp add: tree_pre_def wsd_inv_def)
  moreover have "{..<3 :: nat} \<noteq> {}" by (simp add: lessThan_empty_iff)
  moreover have "oset (length three_wsds) (Some all_three) {..<3}" using all_three_ok(1) three_wsds_pre(2) by simp
  ultimately have "ok (find_independent_split (\<lambda>_. 0) 2 three_wsds (Some all_three)) (\<lambda>r. \<exists>t. r = Some t \<and>
      bs_inv t (length three_wsds) \<and> bset t \<noteq> {} \<and> bset t \<subseteq> {..<3} \<and> Pr two_coins (dnf three_wsds {..<3}) =
      Pr two_coins (dnf three_wsds (bset t)) + Pr two_coins (dnf three_wsds ({..<3} - bset t)) -
      Pr two_coins (dnf three_wsds (bset t)) * Pr two_coins (dnf three_wsds ({..<3} - bset t)))"
    by (intro independent_split_probability [OF two_coins_ok(1)])
  then show ?thesis by (rule ok_mono) blast
qed

text \<open>
  A set whose words are not all zero although it contains no position - bits beyond its
  width are set - is rejected by the split with the code's error.
\<close>

lemma independent_split_invalid:
  assumes "bs_raw b (length ws)" "bset b = {}" "j < BITSET_USED (length ws)" "bits b ! j \<noteq> 0"
  shows "find_independent_split junk L ws (Some b) = Inl (Elog ''An invalid input of bitset!'')"
proof -
  have "bitset_test_empty (Some b) = Inr False"
    using empty_loop_ok [OF assms(1), of 0] assms by (auto simp: bitset_test_empty_def bs_raw_def elim!: ok_E)
  moreover obtain i where i: "first_index (length ws) (bitset_test_bit b) 0 = Inr i" "i \<le> length ws" "i < length ws \<longrightarrow> i \<in> bset b"
    using first_index_ok [of "length ws" "bitset_test_bit b" "\<lambda>i. i \<in> bset b" 0] bitset_test_bit_eq [OF assms(1)]
    by (auto elim!: ok_E)
  ultimately show ?thesis using assms(2) by (simp add: find_independent_split_def Let_def)
qed

text \<open>
  C25. Dropping an assignment and restoring it is the identity: if \<open>find_wsds_with_var_rng\<close>
  returns a set, resetting that set with the same variable and value gives back the
  descriptors, also when the search was cut short by a descriptor that became certain; if it
  returns none, it has changed nothing.
\<close>

theorem drop_reset_roundtrip:
  assumes "\<And>i. i < length ws \<Longrightarrow> wsd_inv L W (ws ! i)" "bs_raw b (length ws)" "rng \<noteq> - 1"
  shows "ok (find_wsds_with_var_rng junk L b var rng ws) (\<lambda>(us, res). case res of
    None \<Rightarrow> us = ws | Some c \<Rightarrow> reset_wsds_var_rng L c var rng us = Inr ws)"
proof -
  define Y where "Y = {i \<in> bset b. has_rng var rng (ws ! i)}"
  have Y: "\<And>i. i \<in> Y \<Longrightarrow> has_rng var rng (ws ! i)" by (simp add: Y_def)
  obtain us res where f: "find_wsds_with_var_rng junk L b var rng ws = Inr (us, res)" and
    "res = None \<and> Y = {} \<and> us = ws \<or> (\<exists>c. res = Some c \<and> bs_inv c (length ws) \<and>
      (bset c = {} \<and> us = ws \<and> (\<exists>k\<in>Y. d_prob (drop_var var (ws ! k)) = 1) \<or> bset c = Y \<and> Y \<noteq> {} \<and> us = dropped var Y ws))"
    using find_wsds_with_var_rng_ok [OF assms Y_def, of junk] by (auto elim!: ok_E)
  moreover have "reset_wsds_var_rng L c var rng ws = Inr ws" if "bs_inv c (length ws)" "bset c = {}" for c
      using reset_wsds_var_rng_ok [OF assms(1,3), where b = c and Y = "{}"] that by (simp add: dropped_none)
  moreover have "reset_wsds_var_rng L c var rng (dropped var Y ws) = Inr ws" if "bs_inv c (length ws)" "bset c = Y" for c
      using reset_wsds_var_rng_ok [OF assms(1,3), where b = c and Y = Y] that Y by simp
  ultimately have "case res of None \<Rightarrow> us = ws | Some c \<Rightarrow> reset_wsds_var_rng L c var rng us = Inr ws" by auto
  then show ?thesis using f by simp
qed

theorem drop_reset_roundtrip_witness:
  "ok (find_wsds_with_var_rng (\<lambda>_. 0) 2 all_three 1 1 three_wsds) (\<lambda>(us, res). case res of
    None \<Rightarrow> us = three_wsds | Some c \<Rightarrow> reset_wsds_var_rng 2 c 1 1 us = Inr three_wsds)"
  by (rule drop_reset_roundtrip [of _ _ two_coins]) (use three_wsds_pre all_three_ok in \<open>simp_all add: tree_pre_def\<close>)

text \<open>
  The variable the minlog heuristic chooses occurs undropped in a descriptor of the set; no
  variable is chosen only when no descriptor of the set has an undropped map, and then every
  descriptor of the set is certain.
\<close>

theorem choose_var_minlog_correct:
  assumes "\<And>i. i < length ws \<Longrightarrow> wsd_inv L W (ws ! i)" "bs_raw b (length ws)" "wt_dist s = W"
  shows "ok (choose_var_minlog L ws b s) (\<lambda>(t, res). wt_dist t = W \<and> (case res of
    None \<Rightarrow> \<forall>i \<in> bset b. \<forall>\<tau>. sat (ws ! i) \<tau>
  | Some k \<Rightarrow> k < length (wt_entries t) \<and> (\<exists>i \<in> bset b. we_var (wt_entries t ! k) \<in> lvars (ws ! i))))"
proof (rule ok_mono [OF choose_var_minlog_ok [OF assms]])
  have "sat d \<tau>" if "lvars d = {}" for d \<tau> using that by (auto simp: lvars_def sat_def)
  then show "case r of (t, res) \<Rightarrow> wt_dist t = W \<and> (case res of None \<Rightarrow> \<forall>i \<in> bset b. lvars (ws ! i) = {}
      | Some k \<Rightarrow> k < length (wt_entries t) \<and> (\<exists>i \<in> bset b. we_var (wt_entries t ! k) \<in> lvars (ws ! i))) \<Longrightarrow>
    case r of (t, res) \<Rightarrow> wt_dist t = W \<and> (case res of None \<Rightarrow> \<forall>i \<in> bset b. \<forall>\<tau>. sat (ws ! i) \<tau>
      | Some k \<Rightarrow> k < length (wt_entries t) \<and> (\<exists>i \<in> bset b. we_var (wt_entries t ! k) \<in> lvars (ws ! i)))" for r
    by (auto split: option.splits)
qed

theorem choose_var_minlog_correct_witness:
  "ok (choose_var_minlog 2 three_wsds all_three (state_of two_coins)) (\<lambda>(t, res). wt_dist t = two_coins)"
  by (rule ok_mono [OF choose_var_minlog_correct [where W = two_coins]])
    (use three_wsds_pre all_three_ok in \<open>auto simp: tree_pre_def\<close>)

definition repeated_reserved :: "WSD list" where
  "repeated_reserved =
    [\<lparr>d_data = [map_of_entry 1 1 (1/2) 1 0, map_of_entry 0 1 1 0 0, map_of_entry 0 1 1 0 0], d_prob = 1/2\<rparr>,
     \<lparr>d_data = [map_of_entry 1 2 (1/2) 1 1, map_of_entry 2 1 (1/7) 2 0, map_of_entry 0 1 1 0 0], d_prob = 1/14\<rparr>,
     \<lparr>d_data = [map_of_entry 3 1 (1/5) 3 0, map_of_entry 0 1 1 0 0, map_of_entry 0 1 1 0 0], d_prob = 1/5\<rparr>]"

definition reserved_table :: wtable where
  "reserved_table = [(0, [(1, 1)]), (1, [(1, 1/2), (2, 1/2)]), (2, [(1, 1/7), (2, 6/7)]), (3, [(1, 1/5), (2, 4/5)])]"

text \<open>
  The elimination assumes that no variable occurs twice in a descriptor, but padding and
  \<open>advance\<close> itself put the reserved variable several times into one. The first copy is dropped
  with the assignment, the descriptor still counts as containing the variable, and it is lost
  in the next elimination: for these three descriptors the tree returns 3/5 instead of 23/35.
\<close>

theorem repeated_reserved_wrong:
  "map_sum id fst (indve_compute_prob 20 (\<lambda>_. 0) 3 (Some all_three) repeated_reserved (state_of reserved_table)) = Inr (3/5) \<and>
    Pr reserved_table (dnf repeated_reserved {0, 1, 2}) = 23/35"
  by (rule conjI; code_simp)

end
