(* ===== verification/Buckets.thy ===== *)
theory Buckets
  imports WSTree
begin

text \<open>
  The bounds of \<^verbatim>\<open>backend/maybms/d-tree.c\<close> for the probability of a set of descriptors
  (\<open>compute_upper_and_lower_bounds\<close>, the heuristic called bucketing). The descriptors are put
  into buckets so that no two of a bucket share an undropped variable; the probability of a
  bucket is then exact, their maximum is a lower and their sum an upper bound.

  A bucket's \<open>count\<close> is the length of its variable list, and the same for the list of buckets;
  the capacities stay, because the code writes before it grows an array. The main fact is
  \<open>compute_upper_and_lower_bounds_ok\<close>.
\<close>

record bucket_info =
  b_capacity :: nat
  b_vars :: "int list"
  b_prob :: real

record buckets =
  bk_capacity :: nat
  bucket_list :: "bucket_info list"

definition exists_in_bucket :: "nat \<Rightarrow> WSD \<Rightarrow> bucket_info \<Rightarrow> bool res" where
  "exists_in_bucket L wsd bucket =
     rbind (first_index (length (b_vars bucket)) (\<lambda>i.
       rbind (aread (b_vars bucket) i) (\<lambda>var.
       rbind (first_index L (\<lambda>j. rbind (aread (d_data wsd) j) (\<lambda>mp. Inr (m_rng mp \<noteq> - 1 \<and> m_var mp = var))) 0) (\<lambda>j.
       Inr (j < L)))) 0) (\<lambda>i. Inr (i < length (b_vars bucket)))"

definition add_var_to_bucket :: "int \<Rightarrow> bucket_info \<Rightarrow> bucket_info res" where
  "add_var_to_bucket var bucket =
     (if length (b_vars bucket) < b_capacity bucket
      then Inr (bucket\<lparr>b_vars := b_vars bucket @ [var],
                       b_capacity := (if b_capacity bucket = Suc (length (b_vars bucket)) then b_capacity bucket * 2
                                      else b_capacity bucket)\<rparr>)
      else Inl OutOfBounds)"

definition add_to_bucket :: "nat \<Rightarrow> WSD \<Rightarrow> bucket_info \<Rightarrow> bucket_info res" where
  "add_to_bucket L wsd bucket =
     rbind (for_upto L (\<lambda>i bucket. rbind (aread (d_data wsd) i) (\<lambda>mp.
       if m_rng mp \<noteq> - 1 then add_var_to_bucket (m_var mp) bucket else Inr bucket)) bucket) (\<lambda>bucket.
     Inr (bucket\<lparr>b_prob := b_prob bucket + d_prob wsd - b_prob bucket * d_prob wsd\<rparr>))"

definition add_new_bucket :: "nat \<Rightarrow> WSD \<Rightarrow> buckets \<Rightarrow> buckets res" where
  "add_new_bucket L wsd all_buckets =
     (if length (bucket_list all_buckets) < bk_capacity all_buckets
      then rbind (add_to_bucket L wsd \<lparr>b_capacity = L, b_vars = [], b_prob = 0\<rparr>) (\<lambda>bucket.
           Inr (all_buckets\<lparr>bucket_list := bucket_list all_buckets @ [bucket],
                            bk_capacity := (if bk_capacity all_buckets = Suc (length (bucket_list all_buckets))
                                            then bk_capacity all_buckets * 2 else bk_capacity all_buckets)\<rparr>))
      else Inl OutOfBounds)"

text \<open>The body of the loop over the descriptors: the first bucket that fits, or a new one.\<close>

definition place_in_bucket :: "nat \<Rightarrow> WSD \<Rightarrow> buckets \<Rightarrow> buckets res" where
  "place_in_bucket L wsd all_buckets =
     (let bs = bucket_list all_buckets in
      rbind (first_index (length bs) (\<lambda>j.
        rbind (aread bs j) (\<lambda>bucket. rbind (exists_in_bucket L wsd bucket) (\<lambda>e. Inr (\<not> e)))) 0) (\<lambda>j.
      if j < length bs then
        rbind (aread bs j) (\<lambda>bucket.
        rbind (add_to_bucket L wsd bucket) (\<lambda>bucket.
        Inr (all_buckets\<lparr>bucket_list := bs[j := bucket]\<rparr>)))
      else add_new_bucket L wsd all_buckets))"

text \<open>The result is the pair of the upper and the lower bound.\<close>

definition compute_upper_and_lower_bounds :: "nat \<Rightarrow> WSD list \<Rightarrow> bitset option \<Rightarrow> (real \<times> real) res" where
  "compute_upper_and_lower_bounds L ws bs =
     (case bs of None \<Rightarrow> Inr (0, 0)
      | Some b \<Rightarrow>
          rbind (for_upto (length ws) (\<lambda>i all_buckets.
            rbind (bitset_test_bit b i) (\<lambda>t.
            if t then rbind (aread ws i) (\<lambda>d. place_in_bucket L d all_buckets) else Inr all_buckets))
            \<lparr>bk_capacity = 10, bucket_list = []\<rparr>) (\<lambda>all_buckets.
          let (sum, mx) = fold (\<lambda>bucket (sum, mx). (sum + b_prob bucket, if b_prob bucket > mx then b_prob bucket else mx))
                            (bucket_list all_buckets) (0, 0)
          in Inr (if sum > 1 then 1 else sum, mx)))"

section \<open>One bucket\<close>

lemma Pr_dnf_empty [simp]: "Pr W (dnf ws {}) = 0"
proof -
  have "dnf ws {} = (\<lambda>_. False)" by (simp add: dnf_def fun_eq_iff)
  then show ?thesis by simp
qed

lemma exists_in_bucket_eq:
  assumes "length (d_data d) = L"
  shows "exists_in_bucket L d b = Inr (set (b_vars b) \<inter> lvars d \<noteq> {})"
proof -
  let ?Q = "\<lambda>v. v \<in> lvars d"
  have inner: "rbind (first_index L (\<lambda>j. rbind (aread (d_data d) j) (\<lambda>mp. Inr (m_rng mp \<noteq> - 1 \<and> m_var mp = v))) 0) (\<lambda>j. Inr (j < L)) = Inr (?Q v)" for v
  proof -
    obtain k where k: "first_index L (\<lambda>j. rbind (aread (d_data d) j) (\<lambda>mp. Inr (m_rng mp \<noteq> - 1 \<and> m_var mp = v))) 0 = Inr k" "k \<le> L"
      "\<forall>j<k. \<not> (m_rng (d_data d ! j) \<noteq> - 1 \<and> m_var (d_data d ! j) = v)"
      "k < L \<longrightarrow> m_rng (d_data d ! k) \<noteq> - 1 \<and> m_var (d_data d ! k) = v"
      using first_index_list [of L "d_data d" "\<lambda>mp. m_rng mp \<noteq> - 1 \<and> m_var mp = v"] assms by (auto elim!: ok_E)
    have "k < L \<longleftrightarrow> ?Q v" using k(2-4) assms by (auto simp: lvars_def live_def in_set_conv_nth) (metis linorder_neqE_nat not_less)
    then show ?thesis using k(1) by simp
  qed
  obtain k where k: "first_index (length (b_vars b)) (\<lambda>i. rbind (aread (b_vars b) i) (\<lambda>v. Inr (?Q v))) 0 = Inr k"
    "k \<le> length (b_vars b)" "\<forall>j<k. \<not> ?Q (b_vars b ! j)" "k < length (b_vars b) \<longrightarrow> ?Q (b_vars b ! k)"
    using first_index_list [of "length (b_vars b)" "b_vars b" ?Q] by (auto elim!: ok_E)
  have "k < length (b_vars b) \<longleftrightarrow> set (b_vars b) \<inter> lvars d \<noteq> {}"
    using k(2-4) by (auto simp: in_set_conv_nth disjoint_iff) (metis linorder_neqE_nat not_less)
  then show ?thesis unfolding exists_in_bucket_def inner using k(1) by simp
qed

text \<open>
  A bucket holds the descriptors \<open>B\<close>: it has room, knows their variables and has their
  probability.
\<close>

definition bucket_inv :: "wtable \<Rightarrow> WSD list \<Rightarrow> bucket_info \<Rightarrow> nat set \<Rightarrow> bool" where
  "bucket_inv W ws b B \<longleftrightarrow> length (b_vars b) < b_capacity b \<and> (\<forall>i \<in> B. lvars (ws ! i) \<subseteq> set (b_vars b)) \<and>
     b_prob b = Pr W (dnf ws B)"

lemma add_vars_ok:
  assumes "length (b_vars b) < b_capacity b" "length (d_data d) = L"
  shows "ok (for_upto L (\<lambda>i b. rbind (aread (d_data d) i) (\<lambda>mp.
      if m_rng mp \<noteq> - 1 then add_var_to_bucket (m_var mp) b else Inr b)) b)
    (\<lambda>c. length (b_vars c) < b_capacity c \<and> set (b_vars c) = set (b_vars b) \<union> lvars d \<and> b_prob c = b_prob b)"
proof -
  let ?I = "\<lambda>k c. length (b_vars c) < b_capacity c \<and>
    set (b_vars c) = set (b_vars b) \<union> m_var ` {mp \<in> set (take k (d_data d)). live mp} \<and> b_prob (c :: bucket_info) = b_prob b"
  have "ok (for_upto L (\<lambda>i b. rbind (aread (d_data d) i) (\<lambda>mp.
      if m_rng mp \<noteq> - 1 then add_var_to_bucket (m_var mp) b else Inr b)) b) (?I L)"
  proof (rule ok_for_upto [where I = ?I])
    fix i c assume i: "i < L" and c: "?I i c"
    have "take (Suc i) (d_data d) = take i (d_data d) @ [d_data d ! i]" using i assms(2) by (simp add: take_Suc_conv_app_nth)
    then show "ok (rbind (aread (d_data d) i) (\<lambda>mp. if m_rng mp \<noteq> - 1 then add_var_to_bucket (m_var mp) c else Inr c)) (?I (Suc i))"
      using i c assms(2) by (auto simp: add_var_to_bucket_def live_def)
  qed (use assms in auto)
  then show ?thesis using assms(2) by (auto simp: lvars_def elim!: ok_mono)
qed

lemma dnf_insert: "dnf ws (insert i B) = (\<lambda>\<tau>. dnf ws B \<tau> \<or> sat (ws ! i) \<tau>)"
  by (auto simp: dnf_def fun_eq_iff)

lemma add_to_bucket_ok:
  assumes W: "wt_ok W" and b: "bucket_inv W ws b B" and d: "wsd_inv L W (ws ! i)" "set (b_vars b) \<inter> lvars (ws ! i) = {}"
  shows "ok (add_to_bucket L (ws ! i) b) (\<lambda>c. bucket_inv W ws c (insert i B))"
proof -
  let ?d = "ws ! i"
  have len: "length (d_data ?d) = L" using d(1) by (simp add: wsd_inv_def)
  have "(\<Union>j\<in>B. lvars (ws ! j)) \<inter> lvars ?d = {}" using b d(2) unfolding bucket_inv_def by blast
  from Pr_disj_indep [OF W dnf_depends sat_depends this]
  have "Pr W (dnf ws (insert i B)) = b_prob b + d_prob ?d - b_prob b * d_prob ?d"
    using b Pr_sat [OF W d(1)] by (simp add: dnf_insert bucket_inv_def)
  then show ?thesis
    using add_vars_ok [of b ?d L] b len by (auto simp: add_to_bucket_def bucket_inv_def elim!: ok_mono)
qed

section \<open>All buckets\<close>

definition buckets_inv :: "wtable \<Rightarrow> WSD list \<Rightarrow> nat set \<Rightarrow> buckets \<Rightarrow> bool" where
  "buckets_inv W ws X all \<longleftrightarrow> length (bucket_list all) < bk_capacity all \<and>
     (\<exists>Bs. list_all2 (bucket_inv W ws) (bucket_list all) Bs \<and> \<Union> (set Bs) = X)"

lemma add_new_bucket_ok:
  assumes W: "wt_ok W" and all: "buckets_inv W ws X all" and d: "wsd_inv L W (ws ! i)" and L: "0 < L"
  shows "ok (add_new_bucket L (ws ! i) all) (buckets_inv W ws (insert i X))"
proof -
  have "bucket_inv W ws \<lparr>b_capacity = L, b_vars = [], b_prob = 0\<rparr> {}"
    using L by (simp add: bucket_inv_def)
  from add_to_bucket_ok [OF W this d] obtain c where
    c: "add_to_bucket L (ws ! i) \<lparr>b_capacity = L, b_vars = [], b_prob = 0\<rparr> = Inr c" "bucket_inv W ws c {i}"
    by (auto elim!: ok_E)
  obtain Bs where Bs: "list_all2 (bucket_inv W ws) (bucket_list all) Bs" "\<Union> (set Bs) = X"
    using all by (auto simp: buckets_inv_def)
  have "list_all2 (bucket_inv W ws) (bucket_list all @ [c]) (Bs @ [{i}])" using Bs(1) c(2) by (simp add: list_all2_appendI)
  moreover have "\<Union> (set (Bs @ [{i}])) = insert i X" using Bs(2) by auto
  ultimately have "\<exists>Bs. list_all2 (bucket_inv W ws) (bucket_list all @ [c]) Bs \<and> \<Union> (set Bs) = insert i X" by blast
  moreover have "length (bucket_list all) < bk_capacity all" using all by (simp add: buckets_inv_def)
  ultimately show ?thesis using c(1) by (simp add: add_new_bucket_def buckets_inv_def)
qed

lemma place_in_bucket_ok:
  assumes W: "wt_ok W" and all: "buckets_inv W ws X all" and d: "wsd_inv L W (ws ! i)" and L: "0 < L"
  shows "ok (place_in_bucket L (ws ! i) all) (buckets_inv W ws (insert i X))"
proof -
  let ?bs = "bucket_list all" and ?d = "ws ! i"
  let ?Q = "\<lambda>b. set (b_vars b) \<inter> lvars ?d = {}"
  have len: "length (d_data ?d) = L" using d by (simp add: wsd_inv_def)
  obtain j where j: "first_index (length ?bs) (\<lambda>j. rbind (aread ?bs j) (\<lambda>b. Inr (?Q b))) 0 = Inr j" "j \<le> length ?bs"
    "j < length ?bs \<longrightarrow> ?Q (?bs ! j)"
    using first_index_list [of "length ?bs" ?bs ?Q] by (auto elim!: ok_E)
  show ?thesis
  proof (cases "j < length ?bs")
    case False
    then show ?thesis using add_new_bucket_ok [OF assms] j(1)
      by (simp add: place_in_bucket_def Let_def exists_in_bucket_eq [OF len])
  next
    case True
    obtain Bs where Bs: "list_all2 (bucket_inv W ws) ?bs Bs" "\<Union> (set Bs) = X"
      using all by (auto simp: buckets_inv_def)
    have lB: "length Bs = length ?bs" using Bs(1) by (simp add: list_all2_lengthD)
    have "bucket_inv W ws (?bs ! j) (Bs ! j)" using list_all2_nthD [OF Bs(1) True] .
    from add_to_bucket_ok [OF W this d] obtain c where
      c: "add_to_bucket L ?d (?bs ! j) = Inr c" "bucket_inv W ws c (insert i (Bs ! j))"
      using j(3) True by (auto elim!: ok_E)
    have "list_all2 (bucket_inv W ws) (?bs[j := c]) (Bs[j := insert i (Bs ! j)])"
      using Bs(1) c(2) by (rule list_all2_update_cong)
    moreover have "\<Union> (set (Bs[j := insert i (Bs ! j)])) = insert i X"
    proof -
      have "Bs = take j Bs @ Bs ! j # drop (Suc j) Bs" using True lB by (simp add: id_take_nth_drop)
      then have "X = \<Union> (set (take j Bs)) \<union> Bs ! j \<union> \<Union> (set (drop (Suc j) Bs))"
        using Bs(2) by (metis Sup_insert Un_assoc Union_Un_distrib list.simps(15) set_append)
      then show ?thesis using True lB by (auto simp: upd_conv_take_nth_drop)
    qed
    ultimately have "buckets_inv W ws (insert i X) (all\<lparr>bucket_list := ?bs[j := c]\<rparr>)"
      using all by (auto simp: buckets_inv_def)
    then show ?thesis using j(1) True c(1) by (simp add: place_in_bucket_def Let_def exists_in_bucket_eq [OF len])
  qed
qed

lemma bucket_sum_max:
  "fold (\<lambda>b (sum, mx). (sum + b_prob b, if b_prob b > mx then b_prob b else mx)) bs (a, m) =
    (a + (\<Sum>b\<leftarrow>bs. b_prob b), fold (\<lambda>b m. max m (b_prob b)) bs m)"
  by (induction bs arbitrary: a m) (auto simp: max_def algebra_simps)

lemma bucket_bounds:
  assumes W: "wt_ok W" and bs: "list_all2 (bucket_inv W ws) bs Bs"
  shows "Pr W (dnf ws (\<Union> (set Bs))) \<le> (\<Sum>b\<leftarrow>bs. b_prob b)"
    and "Z \<supseteq> \<Union> (set Bs) \<Longrightarrow> m \<le> Pr W (dnf ws Z) \<Longrightarrow> fold (\<lambda>b m. max m (b_prob b)) bs m \<le> Pr W (dnf ws Z)"
    and "m \<le> fold (\<lambda>b m. max m (b_prob b)) bs m"
  using bs
proof (induction arbitrary: m rule: list_all2_induct)
  case (Cons b bs B Bs)
  have p: "b_prob b = Pr W (dnf ws B)" using Cons.hyps(1) by (simp add: bucket_inv_def)
  {
    case 1
    have "Pr W (dnf ws (\<Union> (set (B # Bs)))) = Pr W (\<lambda>\<tau>. dnf ws B \<tau> \<or> dnf ws (\<Union> (set Bs)) \<tau>)"
      by (rule Pr_cong) (auto simp: dnf_def)
    also have "\<dots> \<le> Pr W (dnf ws B) + Pr W (dnf ws (\<Union> (set Bs)))"
      using Pr_add [of W] Pr_nonneg [OF W] by (simp add: diff_le_eq)
    finally show ?case using Cons.IH(1) p by simp
  next
    case 2
    have "Pr W (dnf ws B) \<le> Pr W (dnf ws Z)" by (rule Pr_mono [OF W]) (use 2(1) in \<open>auto simp: dnf_def\<close>)
    then show ?case using Cons.IH(2) [of "max m (b_prob b)"] 2 p by simp
  next
    case 3
    then show ?case using Cons.IH(3) [of "max m (b_prob b)"] by simp
  }
qed simp_all

lemma compute_upper_and_lower_bounds_ok:
  assumes W: "wt_ok W" and inv: "\<And>i. i < length ws \<Longrightarrow> wsd_inv L W (ws ! i)" and bs: "oset (length ws) bs X" and L: "0 < L"
  shows "ok (compute_upper_and_lower_bounds L ws bs) (\<lambda>(upper, lower).
    0 \<le> lower \<and> lower \<le> Pr W (dnf ws X) \<and> Pr W (dnf ws X) \<le> upper \<and> upper \<le> 1)"
proof (cases bs)
  case None
  then show ?thesis using bs by (simp add: compute_upper_and_lower_bounds_def oset_def)
next
  case (Some b)
  have b: "bset b = X" "bs_raw b (length ws)" using bs Some by (auto simp: oset_def)
  let ?f = "\<lambda>i all. rbind (bitset_test_bit b i) (\<lambda>t. if t then rbind (aread ws i) (\<lambda>d. place_in_bucket L d all) else Inr all)"
  have "ok (for_upto (length ws) ?f \<lparr>bk_capacity = 10, bucket_list = []\<rparr>) (buckets_inv W ws (X \<inter> {..<length ws}))"
  proof (rule ok_for_upto [where I = "\<lambda>k. buckets_inv W ws (X \<inter> {..<k})"])
    fix i all assume i: "i < length ws" and all: "buckets_inv W ws (X \<inter> {..<i}) all"
    have "bitset_test_bit b i = Inr (i \<in> X)" using bitset_test_bit_eq [OF b(2) i] b(1) by simp
    moreover have "X \<inter> {..<Suc i} = (if i \<in> X then insert i (X \<inter> {..<i}) else X \<inter> {..<i})" by (auto simp: less_Suc_eq)
    ultimately show "ok (?f i all) (buckets_inv W ws (X \<inter> {..<Suc i}))"
      using i all place_in_bucket_ok [OF W all inv [OF i] L] by simp
  qed (simp add: buckets_inv_def)
  moreover have "X \<inter> {..<length ws} = X" using bset_bound [OF b(2)] b(1) by auto
  ultimately obtain all where all: "for_upto (length ws) ?f \<lparr>bk_capacity = 10, bucket_list = []\<rparr> = Inr all" "buckets_inv W ws X all"
    by (auto elim!: ok_E)
  then obtain Bs where Bs: "list_all2 (bucket_inv W ws) (bucket_list all) Bs" "\<Union> (set Bs) = X" by (auto simp: buckets_inv_def)
  note B = bucket_bounds [OF W Bs(1)]
  have "Pr W (dnf ws X) \<le> (\<Sum>b\<leftarrow>bucket_list all. b_prob b)" using B(1) Bs(2) by simp
  moreover have "fold (\<lambda>b m. max m (b_prob b)) (bucket_list all) 0 \<le> Pr W (dnf ws X)" using B(2) [of X 0] Bs(2) Pr_nonneg [OF W] by simp
  ultimately show ?thesis
    using Some all(1) B(3) [of 0] Pr_le_1 [OF W, of "dnf ws X"]
    by (simp add: compute_upper_and_lower_bounds_def bucket_sum_max)
qed

section \<open>Properties\<close>

text \<open>
  C29. Bucketing brackets the probability of a set of descriptors: the bounds lie between zero
  and one and enclose the probability that a descriptor of the set holds, and neither the
  variable arrays nor the array of buckets is ever written outside its capacity.
\<close>

theorem bucketing_bounds:
  assumes "wt_ok W" "\<And>i. i < length ws \<Longrightarrow> wsd_inv L W (ws ! i)" "oset (length ws) bs X" "0 < L"
  shows "\<exists>upper lower. compute_upper_and_lower_bounds L ws bs = Inr (upper, lower) \<and>
    0 \<le> lower \<and> lower \<le> Pr W (dnf ws X) \<and> Pr W (dnf ws X) \<le> upper \<and> upper \<le> 1"
  using compute_upper_and_lower_bounds_ok [OF assms] by (auto simp: ok_def)

theorem bucketing_bounds_witness:
  "\<exists>upper lower. compute_upper_and_lower_bounds 2 three_wsds (Some all_three) = Inr (upper, lower) \<and> lower \<le> 7/8 \<and> 7/8 \<le> upper"
proof -
  have "Pr two_coins (dnf three_wsds {..<3}) = 7/8"
    by (simp add: two_coins_def Pr_Cons dnf_def sat_def three_wsds_def live_def map_of_entry_def create_map_def
        numeral_3_eq_3 lessThan_Suc)
  then show ?thesis
    using bucketing_bounds [OF two_coins_ok(1), of three_wsds 2 "Some all_three" "{..<3}"] three_wsds_pre all_three_ok(1)
    by (auto simp: tree_pre_def)
qed

end
