(* ===== verification/QuickSort.thy ===== *)
theory QuickSort
  imports Localcond
begin

text \<open>
  The quicksort of \<^verbatim>\<open>backend/maybms/d-tree.c\<close>, which orders the descriptors by
  decreasing probability before the decomposition tree is built. The pivot is the median of
  medians, moved to the front of the segment by \<open>findMedianOfMedians\<close>.

  Indices are the C \<open>int\<close> indices, a read or write outside the array is an error. The loops
  with a stride run over the list of their indices (\<open>strided\<close>); the loop that multiplies the
  stride by five ends because the stride is positive; \<open>quicksort\<close> carries fuel, and the length
  of the segment is enough.

  The main fact is \<open>quicksort_ok\<close>: the sort never leaves its segment, permutes it and leaves
  it in decreasing order.
\<close>

text \<open>The values of \<open>i\<close> in \<open>for (i = lo; i <= hi; i += step)\<close>, for a positive step.\<close>

definition strided :: "int \<Rightarrow> int \<Rightarrow> int \<Rightarrow> int list" where
  "strided lo hi step = (if hi < lo then [] else map (\<lambda>k. lo + int k * step) [0..<Suc (nat ((hi - lo) div step))])"

definition swap :: "WSD list \<Rightarrow> int \<Rightarrow> int \<Rightarrow> WSD list res" where
  "swap array a b =
     rbind (iread array a) (\<lambda>tmp.
     rbind (iread array b) (\<lambda>x.
     rbind (iwrite array a x) (\<lambda>array.
     iwrite array b tmp)))"

definition select_max :: "WSD list \<Rightarrow> int list \<Rightarrow> int \<Rightarrow> int res" where
  "select_max array js i =
     rbind (iread array i) (\<lambda>d.
     rbind (fold_res (\<lambda>j (minIndex, minValue).
       rbind (iread array j) (\<lambda>x.
       if d_prob x > minValue then Inr (j, d_prob x) else Inr (minIndex, minValue))) js (i, d_prob d))
     (\<lambda>(minIndex, minValue). Inr minIndex))"

definition findMedianIndex :: "WSD list \<Rightarrow> int \<Rightarrow> int \<Rightarrow> int \<Rightarrow> (WSD list \<times> int) res" where
  "findMedianIndex array left right shift =
     (let groups = (right - left) div shift + 1;
          k = left + groups div 2 * shift
      in rbind (fold_res (\<lambda>i array.
           rbind (select_max array (strided i right shift) i) (\<lambda>minIndex. swap array i minIndex))
           (strided left k shift) array)
         (\<lambda>array. Inr (array, k)))"

definition median_pass :: "int \<Rightarrow> int \<Rightarrow> int \<Rightarrow> WSD list \<Rightarrow> WSD list res" where
  "median_pass left right shift array =
     fold_res (\<lambda>i array.
       let endIndex = (if i + shift * 5 - 1 < right then i + shift * 5 - 1 else right) in
       rbind (findMedianIndex array i endIndex shift) (\<lambda>(array, medianIndex).
       swap array i medianIndex)) (strided left right (shift * 5)) array"

function median_loop :: "int \<Rightarrow> int \<Rightarrow> int \<Rightarrow> WSD list \<Rightarrow> WSD list res" where
  "median_loop left right shift array =
     (if 0 < shift \<and> shift \<le> right - left
      then rbind (median_pass left right shift array) (\<lambda>array. median_loop left right (shift * 5) array)
      else Inr array)"
  by pat_completeness auto
termination
  by (relation "measure (\<lambda>(left, right, shift, array). nat (right - left + 1 - shift))") auto

declare median_loop.simps [simp del]

definition findMedianOfMedians :: "WSD list \<Rightarrow> int \<Rightarrow> int \<Rightarrow> (WSD list \<times> real) res" where
  "findMedianOfMedians array left right =
     (if left = right then rbind (iread array left) (\<lambda>d. Inr (array, d_prob d))
      else rbind (median_loop left right 1 array) (\<lambda>array.
           rbind (iread array left) (\<lambda>d. Inr (array, d_prob d))))"

definition partition_wsds :: "WSD list \<Rightarrow> int \<Rightarrow> int \<Rightarrow> (WSD list \<times> int) res" where
  "partition_wsds array left right =
     rbind (findMedianOfMedians array left right) (\<lambda>(array, _).
     let pivotIndex = left in
     rbind (iread array pivotIndex) (\<lambda>d.
     let pivotValue = d_prob d in
     rbind (swap array pivotIndex right) (\<lambda>array.
     rbind (fold_res (\<lambda>i (array, index).
         rbind (iread array i) (\<lambda>x.
         if d_prob x > pivotValue then rbind (swap array i index) (\<lambda>array. Inr (array, index + 1))
         else Inr (array, index))) (strided left (right - 1) 1) (array, left)) (\<lambda>(array, index).
     rbind (swap array right index) (\<lambda>array.
     Inr (array, index))))))"

primrec quicksort :: "nat \<Rightarrow> WSD list \<Rightarrow> int \<Rightarrow> int \<Rightarrow> WSD list res" where
  "quicksort 0 = (\<lambda>array left right. Inl OutOfFuel)"
| "quicksort (Suc fuel) = (\<lambda>array left right.
     if left \<ge> right then Inr array
     else
       rbind (partition_wsds array left right) (\<lambda>(array, index).
       rbind (quicksort fuel array left (index - 1)) (\<lambda>array.
       quicksort fuel array (index + 1) right)))"

section \<open>Permutations of a segment\<close>

text \<open>
  What swaps inside a segment can do to an array. The array keeps its length, its elements as a
  multiset and everything outside the segment.
\<close>

inductive seg_perm :: "int \<Rightarrow> int \<Rightarrow> 'a list \<Rightarrow> 'a list \<Rightarrow> bool" for l r xs where
  seg_refl: "seg_perm l r xs xs"
| seg_swap: "seg_perm l r xs ys \<Longrightarrow> l \<le> a \<Longrightarrow> a \<le> r \<Longrightarrow> l \<le> b \<Longrightarrow> b \<le> r \<Longrightarrow>
    seg_perm l r xs (ys[nat a := ys ! nat b, nat b := ys ! nat a])"

inductive_cases seg_perm_E: "seg_perm l r xs ys"

lemma seg_perm_trans: "seg_perm l r ys zs \<Longrightarrow> seg_perm l r xs ys \<Longrightarrow> seg_perm l r xs zs"
  by (induction rule: seg_perm.induct) (auto intro: seg_perm.intros)

lemma seg_perm_mono: "seg_perm l r xs ys \<Longrightarrow> l' \<le> l \<Longrightarrow> r \<le> r' \<Longrightarrow> seg_perm l' r' xs ys"
  by (induction rule: seg_perm.induct) (auto intro!: seg_perm.intros)

lemma seg_perm_length: "seg_perm l r xs ys \<Longrightarrow> length ys = length xs"
  by (induction rule: seg_perm.induct) auto

lemma seg_perm_mset:
  assumes "seg_perm l r xs ys" "0 \<le> l" "r < int (length xs)"
  shows "mset ys = mset xs"
  using assms
proof (induction rule: seg_perm.induct)
  case (seg_swap ys a b)
  then have "nat a < length ys" "nat b < length ys" by (auto simp: seg_perm_length)
  then show ?case using seg_swap mset_swap [of "nat b" ys "nat a"] by (simp add: list_update_swap)
qed simp

lemma seg_perm_frame: "seg_perm l r xs ys \<Longrightarrow> 0 \<le> l \<Longrightarrow> 0 \<le> k \<Longrightarrow> k < l \<or> r < k \<Longrightarrow> ys ! nat k = xs ! nat k"
  by (induction rule: seg_perm.induct) (auto simp: nth_list_update_neq)

lemma seg_perm_all:
  assumes "seg_perm l r xs ys" "0 \<le> l" "r < int (length xs)" "\<And>k. l \<le> k \<Longrightarrow> k \<le> r \<Longrightarrow> P (xs ! nat k)" "l \<le> k" "k \<le> r"
  shows "P (ys ! nat k)"
  using assms
proof (induction arbitrary: k rule: seg_perm.induct)
  case (seg_swap ys a b)
  have "nat a < length ys" "nat b < length ys" "nat k < length ys"
    using seg_swap by (auto simp: seg_perm_length)
  then show ?case using seg_swap by (auto simp: nth_list_update)
qed simp

section \<open>The pivot\<close>

lemma strided_bounds:
  assumes "i \<in> set (strided lo hi step)" "0 < step"
  shows "lo \<le> i" "i \<le> hi"
proof -
  obtain k where k: "i = lo + int k * step" "k \<le> nat ((hi - lo) div step)" "lo \<le> hi"
  proof -
    have "lo \<le> hi" using assms(1) by (auto simp: strided_def split: if_splits)
    moreover from this have "i \<in> (\<lambda>k. lo + int k * step) ` {0..<Suc (nat ((hi - lo) div step))}"
      using assms(1) by (simp add: strided_def del: upt_Suc)
    then obtain k where "i = lo + int k * step" "k \<in> {0..<Suc (nat ((hi - lo) div step))}" by blast
    ultimately show ?thesis by (intro that [of k]) simp_all
  qed
  have "0 \<le> (hi - lo) div step" using k(3) assms(2) by (simp add: pos_imp_zdiv_nonneg_iff)
  then have "int k * step \<le> (hi - lo) div step * step" using k(2) assms(2) by (intro mult_right_mono) auto
  also have "\<dots> \<le> hi - lo" using assms(2) by (metis minus_mod_eq_div_mult mod_int_pos_iff diff_le_eq le_add_same_cancel1 less_imp_le)
  finally show "lo \<le> i" "i \<le> hi" using k(1) assms(2) by auto
qed

lemma swap_eq:
  assumes "0 \<le> a" "a < int (length xs)" "0 \<le> b" "b < int (length xs)"
  shows "swap xs a b = Inr (xs[nat a := xs ! nat b, nat b := xs ! nat a])"
  using assms by (simp add: swap_def)

lemma swap_seg:
  assumes "seg_perm l r xs ys" "0 \<le> l" "r < int (length xs)" "l \<le> a" "a \<le> r" "l \<le> b" "b \<le> r"
  shows "ok (swap ys a b) (seg_perm l r xs)"
proof -
  have "length ys = length xs" using assms(1) by (rule seg_perm_length)
  then have "swap ys a b = Inr (ys[nat a := ys ! nat b, nat b := ys ! nat a])" using assms by (intro swap_eq) auto
  then show ?thesis using assms by (auto intro: seg_perm.intros)
qed

lemma select_max_ok:
  assumes "0 \<le> i" "i \<le> r" "r < int (length xs)" "\<And>j. j \<in> set js \<Longrightarrow> i \<le> j \<and> j \<le> r"
  shows "ok (select_max xs js i) (\<lambda>m. i \<le> m \<and> m \<le> r)"
proof -
  have "ok (fold_res (\<lambda>j (m, v). rbind (iread xs j) (\<lambda>x. if d_prob x > v then Inr (j, d_prob x) else Inr (m, v))) js st)
      (\<lambda>(m, v). i \<le> m \<and> m \<le> r)" if "\<And>j. j \<in> set js \<Longrightarrow> i \<le> j \<and> j \<le> r" "i \<le> fst st" "fst st \<le> r" for js st
    using that
  proof (induction js arbitrary: st)
    case (Cons j js)
    have j: "i \<le> j" "j \<le> r" using Cons.prems(1) [of j] by auto
    then have "iread xs j = Inr (xs ! nat j)" using assms(1,3) by simp
    then show ?case using j Cons.IH Cons.prems by (cases st) auto
  qed (auto split: prod.splits)
  from this [of js "(i, d_prob (xs ! nat i))"] show ?thesis
    using assms by (auto simp: select_max_def elim!: ok_mono)
qed

text \<open>A loop of swaps inside the segment is a permutation of the segment.\<close>

lemma fold_seg:
  assumes "\<And>i ys. i \<in> set is \<Longrightarrow> seg_perm l r xs ys \<Longrightarrow> ok (f i ys) (seg_perm l r xs)" "seg_perm l r xs ys"
  shows "ok (fold_res f is ys) (seg_perm l r xs)"
  using assms
proof (induction "is" arbitrary: ys)
  case (Cons i "is")
  have "ok (f i ys) (seg_perm l r xs)" using Cons.prems by simp
  then show ?case using Cons.IH Cons.prems(1) by (auto elim!: ok_mono)
qed simp

lemma median_position:
  fixes left right shift :: int
  assumes "left \<le> right" "0 < shift"
  shows "left \<le> left + ((right - left) div shift + 1) div 2 * shift" "left + ((right - left) div shift + 1) div 2 * shift \<le> right"
proof -
  let ?q = "(right - left) div shift"
  have q: "0 \<le> ?q" "?q * shift \<le> right - left"
    using assms by (simp_all add: pos_imp_zdiv_nonneg_iff) (metis add.commute add_le_cancel_right div_mult_mod_eq le_add_same_cancel1 pos_mod_sign)
  have "(?q + 1) div 2 \<le> ?q" using q(1) by linarith
  then have "(?q + 1) div 2 * shift \<le> ?q * shift" using assms(2) by (intro mult_right_mono) auto
  moreover have "0 \<le> (?q + 1) div 2 * shift" using q(1) assms(2) by simp
  ultimately show "left \<le> left + (?q + 1) div 2 * shift" "left + (?q + 1) div 2 * shift \<le> right" using q(2) by linarith+
qed

lemma findMedianIndex_ok:
  assumes "seg_perm l r xs ys" "0 \<le> l" "r < int (length xs)" "l \<le> left" "left \<le> right" "right \<le> r" "0 < shift"
  shows "ok (findMedianIndex ys left right shift) (\<lambda>(zs, k). seg_perm l r xs zs \<and> left \<le> k \<and> k \<le> right)"
proof -
  let ?k = "left + ((right - left) div shift + 1) div 2 * shift"
  note k = median_position [OF assms(5,7)]
  have "ok (fold_res (\<lambda>i zs. rbind (select_max zs (strided i right shift) i) (\<lambda>m. swap zs i m)) (strided left ?k shift) ys) (seg_perm l r xs)"
  proof (rule fold_seg [OF _ assms(1)])
    fix i zs assume i: "i \<in> set (strided left ?k shift)" and zs: "seg_perm l r xs zs"
    have b: "left \<le> i" "i \<le> right" using strided_bounds [OF i assms(7)] k by auto
    have "ok (select_max zs (strided i right shift) i) (\<lambda>m. i \<le> m \<and> m \<le> right)"
      by (rule select_max_ok) (use b assms seg_perm_length [OF zs] strided_bounds [OF _ assms(7)] in auto)
    then show "ok (rbind (select_max zs (strided i right shift) i) (\<lambda>m. swap zs i m)) (seg_perm l r xs)"
      using swap_seg [OF zs assms(2,3)] b assms(4,6) by (auto elim!: ok_mono)
  qed
  then show ?thesis using k by (auto simp: findMedianIndex_def Let_def elim!: ok_mono)
qed

lemma median_pass_ok:
  assumes "seg_perm l r xs ys" "0 \<le> l" "r < int (length xs)" "0 < shift"
  shows "ok (median_pass l r shift ys) (seg_perm l r xs)"
  unfolding median_pass_def
proof (rule fold_seg [OF _ assms(1)])
  fix i zs assume i: "i \<in> set (strided l r (shift * 5))" and zs: "seg_perm l r xs zs"
  let ?e = "if i + shift * 5 - 1 < r then i + shift * 5 - 1 else r"
  have b: "l \<le> i" "i \<le> r" using strided_bounds [OF i] assms(4) by auto
  have "ok (findMedianIndex zs i ?e shift) (\<lambda>(us, k). seg_perm l r xs us \<and> i \<le> k \<and> k \<le> ?e)"
    by (rule findMedianIndex_ok [OF zs assms(2,3)]) (use b assms(4) in auto)
  then show "ok (let endIndex = ?e in rbind (findMedianIndex zs i endIndex shift) (\<lambda>(us, k). swap us i k)) (seg_perm l r xs)"
    using swap_seg [OF _ assms(2,3)] b by (auto simp: Let_def elim!: ok_mono split: if_splits)
qed

lemma median_loop_ok:
  assumes "seg_perm l r xs ys" "0 \<le> l" "r < int (length xs)"
  shows "ok (median_loop l r shift ys) (seg_perm l r xs)"
  using assms
proof (induction l r shift ys rule: median_loop.induct)
  case (1 l r shift ys)
  show ?case
  proof (cases "0 < shift \<and> shift \<le> r - l")
    case True
    obtain zs where zs: "median_pass l r shift ys = Inr zs" "seg_perm l r xs zs"
      using median_pass_ok [OF "1.prems"(1-3)] True by (auto elim!: ok_E)
    then have "ok (median_loop l r (shift * 5) zs) (seg_perm l r xs)" using "1.IH" True "1.prems"(2,3) by blast
    then show ?thesis using True zs(1) by (simp add: median_loop.simps [of l r shift ys])
  next
    case False
    then have "median_loop l r shift ys = Inr ys" by (subst median_loop.simps) (simp only: if_False)
    then show ?thesis using "1.prems"(1) by simp
  qed
qed

lemma findMedianOfMedians_ok:
  assumes "0 \<le> l" "l \<le> r" "r < int (length xs)"
  shows "ok (findMedianOfMedians xs l r) (\<lambda>(ys, v). seg_perm l r xs ys \<and> v = d_prob (ys ! nat l))"
proof (cases "l = r")
  case False
  obtain ys where ys: "median_loop l r 1 xs = Inr ys" "seg_perm l r xs ys"
    using median_loop_ok [OF seg_refl assms(1,3), of 1] by (auto elim!: ok_E)
  then show ?thesis using False assms seg_perm_length [OF ys(2)] by (simp add: findMedianOfMedians_def)
qed (use assms in \<open>simp add: findMedianOfMedians_def seg_refl\<close>)

section \<open>Partitioning and sorting\<close>

definition part_inv :: "WSD list \<Rightarrow> int \<Rightarrow> int \<Rightarrow> real \<Rightarrow> int \<Rightarrow> WSD list \<times> int \<Rightarrow> bool" where
  "part_inv xs l r v i = (\<lambda>(ys, ix). seg_perm l r xs ys \<and> l \<le> ix \<and> ix \<le> i \<and> d_prob (ys ! nat r) = v \<and>
     (\<forall>k. l \<le> k \<and> k < ix \<longrightarrow> v < d_prob (ys ! nat k)) \<and> (\<forall>k. ix \<le> k \<and> k < i \<longrightarrow> d_prob (ys ! nat k) \<le> v))"

lemma strided_one: "strided l (r - 1) 1 = map (\<lambda>k. l + int k) [0..<nat (r - l)]"
proof (cases "r - 1 < l")
  case False
  then have "Suc (nat (r - 1 - l)) = nat (r - l)" by simp
  then show ?thesis using False by (simp add: strided_def del: upt_Suc)
qed (simp add: strided_def)

lemma part_step:
  assumes I: "part_inv xs l r v i (ys, ix)" and l: "0 \<le> l" "r < int (length xs)" and i: "l \<le> i" "i < r"
  shows "ok (rbind (iread ys i) (\<lambda>x. if d_prob x > v then rbind (swap ys i ix) (\<lambda>ys. Inr (ys, ix + 1)) else Inr (ys, ix)))
    (part_inv xs l r v (i + 1))"
proof -
  have p: "seg_perm l r xs ys" "l \<le> ix" "ix \<le> i" "d_prob (ys ! nat r) = v"
    and hi: "\<And>k. l \<le> k \<Longrightarrow> k < ix \<Longrightarrow> v < d_prob (ys ! nat k)" and lo: "\<And>k. ix \<le> k \<Longrightarrow> k < i \<Longrightarrow> d_prob (ys ! nat k) \<le> v"
    using I by (auto simp: part_inv_def)
  have len: "length ys = length xs" by (rule seg_perm_length [OF p(1)])
  then have rd: "iread ys i = Inr (ys ! nat i)" using l i by simp
  show ?thesis
  proof (cases "d_prob (ys ! nat i) > v")
    case False
    then have "d_prob (ys ! nat k) \<le> v" if "ix \<le> k" "k < i + 1" for k using lo [of k] that by (cases "k = i") auto
    then have "part_inv xs l r v (i + 1) (ys, ix)" using p hi by (simp add: part_inv_def)
    then show ?thesis using rd False by simp
  next
    case True
    let ?zs = "ys[nat i := ys ! nat ix, nat ix := ys ! nat i]"
    have sw: "swap ys i ix = Inr ?zs" using p i l len by (intro swap_eq) auto
    have n: "nat i < length ys" "nat ix < length ys" "nat r \<noteq> nat i" "nat r \<noteq> nat ix" using p(2,3) i l len by auto
    have "seg_perm l r xs ?zs" using p i by (intro seg_swap) auto
    moreover have "v < d_prob (?zs ! nat k)" if "l \<le> k" "k < ix + 1" for k
      using that hi [of k] True n p(2,3) l(1) by (cases "k = ix") (auto simp: nth_list_update)
    moreover have "d_prob (?zs ! nat k) \<le> v" if "ix + 1 \<le> k" "k < i + 1" for k
      using that lo [of k] lo [of ix] n p(2,3) l(1) by (cases "k = i") (auto simp: nth_list_update)
    moreover have "d_prob (?zs ! nat r) = v" using n p(4) by (simp add: nth_list_update_neq)
    ultimately have "part_inv xs l r v (i + 1) (?zs, ix + 1)" using p(2,3) by (simp add: part_inv_def)
    then show ?thesis using rd True sw by simp
  qed
qed

lemma partition_ok:
  assumes l: "0 \<le> l" "l < r" "r < int (length xs)"
  shows "ok (partition_wsds xs l r) (\<lambda>(ys, ix). seg_perm l r xs ys \<and> l \<le> ix \<and> ix \<le> r \<and>
    (\<forall>k. l \<le> k \<and> k < ix \<longrightarrow> d_prob (ys ! nat ix) < d_prob (ys ! nat k)) \<and>
    (\<forall>k. ix < k \<and> k \<le> r \<longrightarrow> d_prob (ys ! nat k) \<le> d_prob (ys ! nat ix)))"
proof -
  obtain ys0 where m: "findMedianOfMedians xs l r = Inr (ys0, d_prob (ys0 ! nat l))" "seg_perm l r xs ys0"
    using findMedianOfMedians_ok [of l r xs] l by (auto elim!: ok_E)
  have len: "length ys0 = length xs" by (rule seg_perm_length [OF m(2)])
  let ?v = "d_prob (ys0 ! nat l)" and ?ys1 = "ys0[nat l := ys0 ! nat r, nat r := ys0 ! nat l]"
  let ?f = "\<lambda>i (ys, ix). rbind (iread ys i) (\<lambda>x. if d_prob x > ?v then rbind (swap ys i ix) (\<lambda>ys. Inr (ys, ix + 1)) else Inr (ys, ix))"
  have sw: "swap ys0 l r = Inr ?ys1" using l len by (intro swap_eq) auto
  have "nat r < length ys0" using l len by (simp add: nat_less_iff)
  then have start: "part_inv xs l r ?v l (?ys1, l)" using m(2) l by (auto simp: part_inv_def intro!: seg_swap)
  have "ok (for_upto (nat (r - l)) (\<lambda>k. ?f (l + int k)) (?ys1, l)) (\<lambda>st. part_inv xs l r ?v (l + int (nat (r - l))) st)"
  proof (rule ok_for_upto [where I = "\<lambda>k. part_inv xs l r ?v (l + int k)"])
    fix k st assume k: "k < nat (r - l)" and st: "part_inv xs l r ?v (l + int k) st"
    obtain ys ix where e: "st = (ys, ix)" by (cases st)
    have "ok (?f (l + int k) (ys, ix)) (part_inv xs l r ?v (l + int k + 1))"
      using part_step [OF st [unfolded e] l(1,3)] k by simp
    then show "ok (?f (l + int k) st) (part_inv xs l r ?v (l + int (Suc k)))" unfolding e by (simp add: algebra_simps)
  qed (use start in simp)
  then have "ok (fold_res ?f (strided l (r - 1) 1) (?ys1, l)) (part_inv xs l r ?v r)"
    using l(2) by (simp add: strided_one fold_res_map for_upto_def)
  then obtain ys ix where loop: "fold_res ?f (strided l (r - 1) 1) (?ys1, l) = Inr (ys, ix)" "part_inv xs l r ?v r (ys, ix)"
    by (auto elim!: ok_E)
  have p: "seg_perm l r xs ys" "l \<le> ix" "ix \<le> r" "d_prob (ys ! nat r) = ?v"
    and hi: "\<And>k. l \<le> k \<Longrightarrow> k < ix \<Longrightarrow> ?v < d_prob (ys ! nat k)" and lo: "\<And>k. ix \<le> k \<Longrightarrow> k < r \<Longrightarrow> d_prob (ys ! nat k) \<le> ?v"
    using loop(2) by (auto simp: part_inv_def)
  let ?zs = "ys[nat r := ys ! nat ix, nat ix := ys ! nat r]"
  have leny: "length ys = length xs" by (rule seg_perm_length [OF p(1)])
  have n: "nat r < length ys" "nat ix < length ys" using l p(2,3) leny by auto
  have sw2: "swap ys r ix = Inr ?zs" using l p leny by (intro swap_eq) auto
  have at: "d_prob (?zs ! nat ix) = ?v" using n p(4) by (simp add: nth_list_update)
  have "seg_perm l r xs ?zs" using p l by (intro seg_swap) auto
  moreover have "?v < d_prob (?zs ! nat k)" if "l \<le> k" "k < ix" for k
    using that hi [of k] n p(3) l(1) by (simp add: nth_list_update_neq)
  moreover have "d_prob (?zs ! nat k) \<le> ?v" if "ix < k" "k \<le> r" for k
    using that lo [of k] lo [of ix] n p(2) l(1) by (cases "k = r") (auto simp: nth_list_update)
  ultimately have "seg_perm l r xs ?zs \<and> l \<le> ix \<and> ix \<le> r \<and>
    (\<forall>k. l \<le> k \<and> k < ix \<longrightarrow> d_prob (?zs ! nat ix) < d_prob (?zs ! nat k)) \<and>
    (\<forall>k. ix < k \<and> k \<le> r \<longrightarrow> d_prob (?zs ! nat k) \<le> d_prob (?zs ! nat ix))" using p(2,3) unfolding at by blast
  moreover have "partition_wsds xs l r = Inr (?zs, ix)"
    using m(1) sw sw2 loop(1) l len by (simp add: partition_wsds_def Let_def)
  ultimately show ?thesis by simp
qed

definition decreasing :: "int \<Rightarrow> int \<Rightarrow> WSD list \<Rightarrow> bool" where
  "decreasing l r xs \<longleftrightarrow> (\<forall>i j. l \<le> i \<and> i \<le> j \<and> j \<le> r \<longrightarrow> d_prob (xs ! nat j) \<le> d_prob (xs ! nat i))"

text \<open>The two sorted parts around the pivot form a sorted segment.\<close>

lemma decreasing_join:
  assumes "decreasing l (ix - 1) xs" "decreasing (ix + 1) r xs"
    "\<And>k. l \<le> k \<Longrightarrow> k \<le> ix - 1 \<Longrightarrow> d_prob (xs ! nat ix) \<le> d_prob (xs ! nat k)"
    "\<And>k. ix + 1 \<le> k \<Longrightarrow> k \<le> r \<Longrightarrow> d_prob (xs ! nat k) \<le> d_prob (xs ! nat ix)"
  shows "decreasing l r xs"
  unfolding decreasing_def
proof (intro allI impI)
  fix i j assume ij: "l \<le> i \<and> i \<le> j \<and> j \<le> r"
  consider "j \<le> ix - 1" | "ix + 1 \<le> i" | "i \<le> ix" "ix \<le> j" by linarith
  then show "d_prob (xs ! nat j) \<le> d_prob (xs ! nat i)"
  proof cases
    case 3
    then have "d_prob (xs ! nat ix) \<le> d_prob (xs ! nat i)" "d_prob (xs ! nat j) \<le> d_prob (xs ! nat ix)"
      using assms(3) [of i] assms(4) [of j] ij by (cases "i = ix"; cases "j = ix"; force)+
    then show ?thesis by simp
  qed (use assms(1,2) ij in \<open>auto simp: decreasing_def\<close>)
qed

lemma quicksort_ok:
  assumes "0 < fuel" "r - l + 1 < int fuel" "0 \<le> l" "r < int (length xs)"
  shows "ok (quicksort fuel xs l r) (\<lambda>ys. seg_perm l r xs ys \<and> decreasing l r ys)"
  using assms
proof (induction fuel arbitrary: xs l r)
  case (Suc fuel)
  show ?case
  proof (cases "l \<ge> r")
    case True
    have "i = j" if "l \<le> i" "i \<le> j" "j \<le> r" for i j using True that by simp
    then have "decreasing l r xs" by (auto simp: decreasing_def)
    then show ?thesis using True by (simp add: seg_refl)
  next
    case False
    obtain ys ix where p: "partition_wsds xs l r = Inr (ys, ix)" "seg_perm l r xs ys" "l \<le> ix" "ix \<le> r"
      and hi: "\<And>k. l \<le> k \<Longrightarrow> k \<le> ix - 1 \<Longrightarrow> d_prob (ys ! nat ix) \<le> d_prob (ys ! nat k)"
      and lo: "\<And>k. ix + 1 \<le> k \<Longrightarrow> k \<le> r \<Longrightarrow> d_prob (ys ! nat k) \<le> d_prob (ys ! nat ix)"
      using partition_ok [of l r xs] False Suc.prems by (fastforce elim!: ok_E)
    have len: "length ys = length xs" by (rule seg_perm_length [OF p(2)])
    obtain zs where z: "quicksort fuel ys l (ix - 1) = Inr zs" "seg_perm l (ix - 1) ys zs" "decreasing l (ix - 1) zs"
      using Suc.IH [of "ix - 1" l ys] False Suc.prems p(3,4) len by (auto elim!: ok_E)
    have lenz: "length zs = length xs" using seg_perm_length [OF z(2)] len by simp
    obtain us where u: "quicksort fuel zs (ix + 1) r = Inr us" "seg_perm (ix + 1) r zs us" "decreasing (ix + 1) r us"
      using Suc.IH [of r "ix + 1" zs] False Suc.prems p(3,4) lenz by (auto elim!: ok_E)
    note b = Suc.prems(3,4)
    have zk: "zs ! nat k = ys ! nat k" if "ix \<le> k" for k
      using seg_perm_frame [OF z(2) b(1), of k] that p(3) b(1) by simp
    have uk: "us ! nat k = zs ! nat k" if "l \<le> k" "k \<le> ix" for k
      using seg_perm_frame [OF u(2), of k] that b(1) p(3) by simp
    have "decreasing l r us"
    proof (rule decreasing_join [of _ ix])
      show "decreasing l (ix - 1) us" using z(3) uk by (simp add: decreasing_def)
      show "decreasing (ix + 1) r us" by (rule u(3))
      show "d_prob (us ! nat ix) \<le> d_prob (us ! nat k)" if "l \<le> k" "k \<le> ix - 1" for k
        using seg_perm_all [OF z(2), of "\<lambda>x. d_prob (ys ! nat ix) \<le> d_prob x" k] hi that uk [of k] uk [of ix] zk [of ix] p b len by simp
      show "d_prob (us ! nat k) \<le> d_prob (us ! nat ix)" if "ix + 1 \<le> k" "k \<le> r" for k
        using seg_perm_all [OF u(2), of "\<lambda>x. d_prob x \<le> d_prob (ys ! nat ix)" k] lo zk that uk [of ix] p b lenz by simp
    qed
    moreover have "seg_perm l r xs us"
    proof -
      have "seg_perm l r ys zs" by (rule seg_perm_mono [OF z(2)]) (use p in simp_all)
      moreover have "seg_perm l r zs us" by (rule seg_perm_mono [OF u(2)]) (use p in simp_all)
      ultimately show ?thesis using p(2) seg_perm_trans by blast
    qed
    ultimately show ?thesis using False p(1) z(1) u(1) by simp
  qed
qed simp

text \<open>The sort of the whole array.\<close>

lemma quicksort_whole:
  "ok (quicksort (Suc (length ws)) ws 0 (int (length ws) - 1)) (\<lambda>us. mset us = mset ws \<and> decreasing 0 (int (length us) - 1) us)"
proof (rule ok_mono [OF quicksort_ok])
  fix us assume "seg_perm 0 (int (length ws) - 1) ws us \<and> decreasing 0 (int (length ws) - 1) us"
  then show "mset us = mset ws \<and> decreasing 0 (int (length us) - 1) us"
    using seg_perm_mset [of 0 "int (length ws) - 1" ws us] seg_perm_length [of 0 "int (length ws) - 1" ws us] by simp
qed simp_all

section \<open>Properties\<close>

text \<open>
  C30. The sort with its median-of-medians pivot ends within its bounds: for every array it
  returns, without an access outside the array, a permutation of the descriptors in which no
  descriptor is followed by a more probable one.
\<close>

theorem quicksort_sorts:
  "\<exists>us. quicksort (Suc (length ws)) ws 0 (int (length ws) - 1) = Inr us \<and> mset us = mset ws \<and>
    sorted_wrt (\<lambda>d e. d_prob d \<ge> d_prob e) us"
proof -
  obtain us where us: "quicksort (Suc (length ws)) ws 0 (int (length ws) - 1) = Inr us" "mset us = mset ws"
    "decreasing 0 (int (length us) - 1) us" using quicksort_whole [of ws] by (elim ok_E) blast
  have "d_prob (us ! i) \<ge> d_prob (us ! j)" if "i < j" "j < length us" for i j
    using us(3) [unfolded decreasing_def, rule_format, of "int i" "int j"] that by simp
  then show ?thesis using us(1,2) by (auto simp: sorted_wrt_iff_nth_less)
qed

end
