(* ===== verification/DTree.thy ===== *)
theory DTree
  imports Buckets QuickSort
begin

text \<open>
  The decomposition tree of \<^verbatim>\<open>backend/maybms/d-tree.c\<close> up to its exact variant: the
  choice of a variable, the search that drops an assignment, the union that removes subsumed
  descriptors and \<open>decomposition_tree_exact\<close>.

  The file repeats six functions of \<^verbatim>\<open>ws-tree.c\<close> word for word; the definitions with the
  prefix \<open>dt_\<close> stand for these copies. Its own \<open>find_wsds_with_var_rng\<close> drops every matching
  map of a descriptor instead of the first; on descriptors with distinct variables the two
  functions agree (\<open>dt_find_eq\<close>).

  The removal of subsumed descriptors compares variables and not their values, so it is sound
  only when no variable occurs with two values, the condition \<open>single\<close> of the theorems here.
  Under it the exact tree returns the probability of its set (\<open>dt_exact_solves\<close>).
\<close>

section \<open>The functions shared with \<open>ws-tree.c\<close>\<close>

definition dt_compare_map :: "Map_t \<Rightarrow> Map_t \<Rightarrow> int" where "dt_compare_map = compare_map"
definition dt_wsd_ind :: "nat \<Rightarrow> WSD \<Rightarrow> WSD \<Rightarrow> bool res" where "dt_wsd_ind = wsd_ind"
definition dt_dfs :: "nat \<Rightarrow> nat \<Rightarrow> WSD list \<Rightarrow> bitset \<Rightarrow> bitset \<Rightarrow> nat \<Rightarrow> bitset res" where "dt_dfs = dfs"
definition dt_find_independent_split :: "junk \<Rightarrow> nat \<Rightarrow> WSD list \<Rightarrow> bitset option \<Rightarrow> bitset option res" where
  "dt_find_independent_split = find_independent_split"
definition dt_find_wsds_without_var :: "junk \<Rightarrow> nat \<Rightarrow> WSD list \<Rightarrow> bitset \<Rightarrow> int \<Rightarrow> bitset option res" where
  "dt_find_wsds_without_var = find_wsds_without_var"
definition dt_reset_wsds_var_rng :: "nat \<Rightarrow> bitset \<Rightarrow> int \<Rightarrow> int \<Rightarrow> WSD list \<Rightarrow> WSD list res" where
  "dt_reset_wsds_var_rng = reset_wsds_var_rng"

lemmas dt_copies [simp] = dt_compare_map_def dt_wsd_ind_def dt_dfs_def dt_find_independent_split_def
  dt_find_wsds_without_var_def dt_reset_wsds_var_rng_def

section \<open>The choice of a variable\<close>

definition incr_occur :: "nat \<Rightarrow> generalState \<Rightarrow> (generalState \<times> int) res" where
  "incr_occur k s =
     rbind (aread (wt_entries s) k) (\<lambda>e.
     Inr (s\<lparr>wt_entries := (wt_entries s)[k := e\<lparr>occur_count := occur_count e + 1\<rparr>]\<rparr>, occur_count e + 1))"

text \<open>The variables of the loop; \<open>new_var_col\<close> is the output parameter, unset at the start.\<close>

record max_occur =
  same_column_max :: int
  same_column_max_wt_entry :: "nat option"
  other_columns_max :: int
  other_columns_max_wt_entry :: "nat option"
  new_var_col :: "int option"

definition count_occur :: "int \<Rightarrow> int \<Rightarrow> Map_t \<Rightarrow> generalState \<times> max_occur \<Rightarrow> (generalState \<times> max_occur) res" where
  "count_occur latest_var_col j mp st =
     (let (s, m) = st in
      if m_rng mp \<ge> 0 then
        rbind (deref (wt_entry mp)) (\<lambda>k.
        rbind (incr_occur k s) (\<lambda>(s, c).
        if j = latest_var_col then
          Inr (s, if c > same_column_max m
                  then m\<lparr>same_column_max_wt_entry := Some k, same_column_max := c, new_var_col := Some j\<rparr> else m)
        else if same_column_max m = - 1 then
          Inr (s, if c > other_columns_max m
                  then m\<lparr>other_columns_max_wt_entry := Some k, other_columns_max := c, new_var_col := Some j\<rparr> else m)
        else Inr (s, m)))
      else Inr (s, m))"

definition choose_var_max_occur_same_column :: "nat \<Rightarrow> WSD list \<Rightarrow> bitset \<Rightarrow> int \<Rightarrow> generalState \<Rightarrow>
    (generalState \<times> nat option \<times> int option) res" where
  "choose_var_max_occur_same_column L ws bs latest_var_col s =
     (let s = s\<lparr>wt_entries := map (\<lambda>e. e\<lparr>occur_count := 0\<rparr>) (wt_entries s)\<rparr> in
      rbind (for_upto (length ws) (\<lambda>i st.
        rbind (bitset_test_bit bs i) (\<lambda>b.
        if b then
          for_upto L (\<lambda>j st. rbind (aread ws i) (\<lambda>d. rbind (aread (d_data d) j) (\<lambda>mp.
            count_occur latest_var_col (int j) mp st))) st
        else Inr st)) (s, \<lparr>same_column_max = - 1, same_column_max_wt_entry = None,
          other_columns_max = - 1, other_columns_max_wt_entry = None, new_var_col = None\<rparr>)) (\<lambda>(s, m).
      Inr (s, if same_column_max m \<noteq> - 1 then same_column_max_wt_entry m else other_columns_max_wt_entry m, new_var_col m)))"

section \<open>Dropping an assignment\<close>

text \<open>The loop over the maps of descriptor \<open>i\<close>.\<close>

definition dt_drop_wsd :: "junk \<Rightarrow> nat \<Rightarrow> nat \<Rightarrow> int \<Rightarrow> int \<Rightarrow> nat \<Rightarrow> WSD \<Rightarrow> bitset option \<Rightarrow> (WSD \<times> bitset option \<times> bool) res" where
  "dt_drop_wsd junk n L var rng i d sub =
     for_upto L (\<lambda>j (d, sub, found_empty_wsd).
       rbind (aread (d_data d) j) (\<lambda>mp.
       if m_var mp = var \<and> m_rng mp = rng then
         rbind (bitset_set_bit (alloc_subset junk n sub) i) (\<lambda>sub.
         let d = d\<lparr>d_data := (d_data d)[j := mp\<lparr>m_rng := - 1\<rparr>], d_prob := d_prob d / m_prob mp\<rparr> in
         Inr (d, Some sub, found_empty_wsd \<or> d_prob d = 1))
       else Inr (d, sub, found_empty_wsd))) (d, sub, False)"

function dt_with_var_loop :: "junk \<Rightarrow> nat \<Rightarrow> nat \<Rightarrow> bitset \<Rightarrow> int \<Rightarrow> int \<Rightarrow> nat \<Rightarrow> WSD list \<Rightarrow> bitset option \<Rightarrow>
    (WSD list \<times> bitset option \<times> bool) res" where
  "dt_with_var_loop junk n L bs var rng i ws sub =
     (if i < n then
        rbind (bitset_test_bit bs i) (\<lambda>b.
        if b then
          rbind (aread ws i) (\<lambda>d.
          rbind (dt_drop_wsd junk n L var rng i d sub) (\<lambda>(d, sub, found_empty_wsd).
          if found_empty_wsd then Inr (ws[i := d], sub, True)
          else dt_with_var_loop junk n L bs var rng (Suc i) (ws[i := d]) sub))
        else dt_with_var_loop junk n L bs var rng (Suc i) ws sub)
      else Inr (ws, sub, False))"
  by pat_completeness auto
termination
  by (relation "measure (\<lambda>(junk, n, L, bs, var, rng, i, ws, sub). n - i)") auto

declare dt_with_var_loop.simps [simp del]

definition dt_find_wsds_with_var_rng ::
  "junk \<Rightarrow> nat \<Rightarrow> bitset \<Rightarrow> int \<Rightarrow> int \<Rightarrow> WSD list \<Rightarrow> (WSD list \<times> bitset option) res" where
  "dt_find_wsds_with_var_rng junk L bs var rng ws =
     rbind (dt_with_var_loop junk (length ws) L bs var rng 0 ws None) (\<lambda>(ws, sub, found_empty_wsd).
     if found_empty_wsd then
       rbind (deref sub) (\<lambda>b.
       rbind (dt_reset_wsds_var_rng L b var rng ws) (\<lambda>ws.
       Inr (ws, Some (bitset_reset b))))
     else Inr (ws, sub))"

section \<open>The union without subsumed descriptors\<close>

text \<open>\<open>vars_found\<close>: every undropped variable of the first descriptor occurs in the second.\<close>

definition vars_found :: "nat \<Rightarrow> WSD \<Rightarrow> WSD \<Rightarrow> bool res" where
  "vars_found L d1 d2 =
     rbind (first_index L (\<lambda>k.
       rbind (aread (d_data d1) k) (\<lambda>m1.
       if m_rng m1 \<noteq> - 1 then
         rbind (first_index L (\<lambda>h. rbind (aread (d_data d2) h) (\<lambda>m2. Inr (m_var m1 = m_var m2))) 0) (\<lambda>h.
         Inr (\<not> h < L))
       else Inr False)) 0) (\<lambda>k. Inr (\<not> k < L))"

text \<open>The last loop of the function is that of \<open>bitset_union\<close>.\<close>

definition bitset_union_removing_subsumption :: "junk \<Rightarrow> nat \<Rightarrow> WSD list \<Rightarrow> bitset \<Rightarrow> bitset option \<Rightarrow> bitset res" where
  "bitset_union_removing_subsumption junk L ws set1 set2 =
     (case set2 of None \<Rightarrow> Inr set1
      | Some set2 \<Rightarrow>
          rbind (bitset_copy set2 (bitset_init junk (length ws))) (\<lambda>temp_set.
          rbind (for_upto (length ws) (\<lambda>i temp_set.
            rbind (bitset_test_bit set1 i) (\<lambda>b.
            if b then
              for_upto (length ws) (\<lambda>j temp_set.
                rbind (bitset_test_bit temp_set j) (\<lambda>b.
                if b then
                  rbind (aread ws i) (\<lambda>d1. rbind (aread ws j) (\<lambda>d2.
                  rbind (vars_found L d1 d2) (\<lambda>f.
                  if f then bitset_clear_bit temp_set j else Inr temp_set)))
                else Inr temp_set)) temp_set
            else Inr temp_set)) temp_set) (\<lambda>temp_set.
          bitset_union set1 (Some temp_set))))"

section \<open>The exact tree\<close>

type_synonym exact_rec = "bitset option \<Rightarrow> int \<Rightarrow> real comp"

definition dt_branch :: "exact_rec \<Rightarrow> junk \<Rightarrow> nat \<Rightarrow> bitset \<Rightarrow> bitset option \<Rightarrow> int \<Rightarrow> int \<Rightarrow> rngEntry \<Rightarrow> real \<Rightarrow> (real \<times> real) comp" where
  "dt_branch rec junk L sub subset_without_var var new_var_column r p_without_var ws s =
     rbind (dt_find_wsds_with_var_rng junk L sub var (re_rng r) ws) (\<lambda>(ws, subset_var_rng).
     case subset_var_rng of
       None \<Rightarrow>
         rbind (if p_without_var = - 1 then rec subset_without_var new_var_column ws s else Inr (p_without_var, ws, s))
           (\<lambda>(p, ws, s). Inr ((re_p r * p, p), ws, s))
     | Some b \<Rightarrow>
         rbind (bitset_test_empty (Some b)) (\<lambda>e.
         if e then Inr ((re_p r, p_without_var), ws, s)
         else
           rbind (bitset_union_removing_subsumption junk L ws b subset_without_var) (\<lambda>b.
           rbind (rec (Some b) new_var_column ws s) (\<lambda>(p, ws, s).
           rbind (dt_reset_wsds_var_rng L b var (re_rng r) ws) (\<lambda>ws.
           Inr ((re_p r * p, p_without_var), ws, s))))))"

fun dt_loop :: "exact_rec \<Rightarrow> junk \<Rightarrow> nat \<Rightarrow> bitset \<Rightarrow> bitset option \<Rightarrow> int \<Rightarrow> int \<Rightarrow> nat \<Rightarrow> rngEntry list \<Rightarrow> real \<Rightarrow> real \<Rightarrow> (real \<times> bool) comp" where
  "dt_loop rec junk L sub wo var col cnt [] p_left p_without_var ws s = Inr ((p_left, False), ws, s)"
| "dt_loop rec junk L sub wo var col cnt (r # rs) p_left p_without_var ws s =
     rbind (dt_branch rec junk L sub wo var col r p_without_var ws s) (\<lambda>((cur_prob, p_without_var), ws, s).
     if p_left + cur_prob = 1 \<and> cnt = 1 then Inr ((1, True), ws, s)
     else dt_loop rec junk L sub wo var col cnt rs (p_left + cur_prob) p_without_var ws s)"

definition dt_left :: "exact_rec \<Rightarrow> junk \<Rightarrow> nat \<Rightarrow> bitset \<Rightarrow> int \<Rightarrow> (real \<times> bool) comp" where
  "dt_left rec junk L sub latest_var_column ws s =
     rbind (bitset_test_singleton (Some sub)) (\<lambda>pos.
     if pos \<noteq> - 1 then rbind (aread ws (nat pos)) (\<lambda>d. Inr ((d_prob d, False), ws, s))
     else
       rbind (choose_var_max_occur_same_column L ws sub latest_var_column s) (\<lambda>(s, entry, new_var_column).
       case entry of
         None \<Rightarrow> Inr ((1, True), ws, s)
       | Some k \<Rightarrow>
           rbind (deref new_var_column) (\<lambda>col.
           rbind (aread (wt_entries s) k) (\<lambda>e.
           rbind (dt_find_wsds_without_var junk L ws sub (we_var e)) (\<lambda>subset_without_var.
           dt_loop rec junk L sub subset_without_var (we_var e) col (length (rng_entries e)) (rng_entries e)
             0 (- 1) ws s)))))"

primrec decomposition_tree_exact :: "nat \<Rightarrow> junk \<Rightarrow> nat \<Rightarrow> exact_rec" where
  "decomposition_tree_exact 0 = (\<lambda>junk L bs latest_var_column ws s. Inl OutOfFuel)"
| "decomposition_tree_exact (Suc fuel) = (\<lambda>junk L bs latest_var_column ws s.
     rbind (bitset_test_empty bs) (\<lambda>e.
     if e then Inr (0, ws, s)
     else
       rbind (dt_find_independent_split junk L ws bs) (\<lambda>split.
       rbind (deref split) (\<lambda>sub.
       rbind (dt_left (decomposition_tree_exact fuel junk L) junk L sub latest_var_column ws s) (\<lambda>((p_left, ret), ws, s).
       if ret \<or> p_left = 1 then Inr (1, ws, s)
       else
         rbind (deref bs) (\<lambda>b.
         rbind (bitset_negate b sub) (\<lambda>sub.
         rbind (decomposition_tree_exact fuel junk L (Some sub) latest_var_column ws s) (\<lambda>(p_right, ws, s).
         Inr (p_left + p_right - p_left * p_right, ws, s)))))))))"

section \<open>The chosen variable\<close>

definition occ_ok :: "generalState \<Rightarrow> bool" where
  "occ_ok s \<longleftrightarrow> (\<forall>e \<in> set (wt_entries s). 0 \<le> occur_count e)"

text \<open>A maximum is set exactly when an entry has been recorded for it, and every recorded entry satisfies \<open>Q\<close>.\<close>

definition max_inv :: "(nat \<Rightarrow> bool) \<Rightarrow> bool \<Rightarrow> max_occur \<Rightarrow> bool" where
  "max_inv Q seen m \<longleftrightarrow> - 1 \<le> same_column_max m \<and> - 1 \<le> other_columns_max m \<and>
     (same_column_max m \<noteq> - 1 \<longrightarrow> (\<exists>k. same_column_max_wt_entry m = Some k \<and> Q k) \<and> new_var_col m \<noteq> None) \<and>
     (if other_columns_max m = - 1 then other_columns_max_wt_entry m = None
      else (\<exists>k. other_columns_max_wt_entry m = Some k \<and> Q k) \<and> new_var_col m \<noteq> None) \<and>
     (seen \<longrightarrow> same_column_max m \<noteq> - 1 \<or> other_columns_max m \<noteq> - 1)"

lemma incr_occur_ok:
  assumes "occ_ok s" "wt_dist s = W" "k < length W"
  shows "ok (incr_occur k s) (\<lambda>(t, c). occ_ok t \<and> wt_dist t = W \<and> 1 \<le> c)"
proof -
  let ?e = "wt_entries s ! k"
  have k: "k < length (wt_entries s)" using assms(2,3) wt_dist_length [of s] by simp
  have "wt_dist (s\<lparr>wt_entries := (wt_entries s)[k := ?e\<lparr>occur_count := occur_count ?e + 1\<rparr>]\<rparr>) = wt_dist s"
    using k by (simp add: wt_dist_def map_update list_update_same_conv)
  moreover have "0 \<le> occur_count ?e" using assms(1) k by (simp add: occ_ok_def)
  moreover from this have "occ_ok (s\<lparr>wt_entries := (wt_entries s)[k := ?e\<lparr>occur_count := occur_count ?e + 1\<rparr>]\<rparr>)"
    using assms(1) by (auto simp: occ_ok_def dest!: set_update_subset_insert [THEN subsetD])
  ultimately show ?thesis using k assms(2) by (simp add: incr_occur_def)
qed

lemma count_occur_ok:
  assumes "occ_ok s" "wt_dist s = W" "max_inv Q seen m" "entry_at W mp"
    and Q: "\<And>k. wt_entry mp = Some k \<Longrightarrow> 0 \<le> m_rng mp \<Longrightarrow> Q k"
  shows "ok (count_occur col j mp (s, m)) (\<lambda>(t, m'). occ_ok t \<and> wt_dist t = W \<and> max_inv Q (seen \<or> 0 \<le> m_rng mp) m')"
proof (cases "0 \<le> m_rng mp")
  case True
  obtain k where k: "wt_entry mp = Some k" "k < length W" using assms(4) by (auto simp: entry_at_def)
  obtain t c where t: "incr_occur k s = Inr (t, c)" "occ_ok t" "wt_dist t = W" "1 \<le> c"
    using incr_occur_ok [OF assms(1,2) k(2)] by (auto elim!: ok_E)
  show ?thesis using True k(1) t Q [OF k(1) True] assms(3) by (auto simp: count_occur_def max_inv_def)
next
  case False
  then show ?thesis using assms by (simp add: count_occur_def)
qed

lemma count_occur_wsd_ok:
  assumes d: "wsd_inv L W d" "\<forall>mp \<in> set (d_data d). entry_at W mp" and i: "i < length ws" "ws ! i = d"
    and s: "occ_ok s" "wt_dist s = W" "max_inv Q seen m"
    and Q: "\<And>k. k < length W \<Longrightarrow> fst (W ! k) \<in> lvars d \<Longrightarrow> Q k"
  shows "ok (for_upto L (\<lambda>j st. rbind (aread ws i) (\<lambda>d. rbind (aread (d_data d) j) (\<lambda>mp.
      count_occur col (int j) mp st))) (s, m))
    (\<lambda>(t, m'). occ_ok t \<and> wt_dist t = W \<and> max_inv Q (seen \<or> lvars d \<noteq> {}) m')"
proof -
  let ?I = "\<lambda>n (t, m'). occ_ok t \<and> wt_dist t = W \<and> max_inv Q (seen \<or> (\<exists>j<n. 0 \<le> m_rng (d_data d ! j))) m'"
  have len: "length (d_data d) = L" using d(1) by (simp add: wsd_inv_def)
  have lv: "0 \<le> m_rng mp \<longleftrightarrow> live mp" if "mp \<in> set (d_data d)" for mp
    using d(1) that by (auto simp: wsd_inv_def map_inv_def live_def)
  have "ok (for_upto L (\<lambda>j st. rbind (aread ws i) (\<lambda>d. rbind (aread (d_data d) j) (\<lambda>mp.
      count_occur col (int j) mp st))) (s, m)) (?I L)"
  proof (rule ok_for_upto [where I = ?I])
    fix j st assume j: "j < L" and st: "?I j st"
    let ?mp = "d_data d ! j"
    have mp: "?mp \<in> set (d_data d)" using j len by simp
    have "Q k" if "wt_entry ?mp = Some k" "0 \<le> m_rng ?mp" for k
    proof (rule Q)
      show "k < length W" using d(2) mp that(1) by (auto simp: entry_at_def)
      have "m_var ?mp \<in> lvars d" using mp lv [OF mp] that(2) unfolding lvars_def by blast
      then show "fst (W ! k) \<in> lvars d" using d(2) mp that(1) by (auto simp: entry_at_def)
    qed
    moreover have "(\<exists>j'<Suc j. 0 \<le> m_rng (d_data d ! j')) \<longleftrightarrow> (\<exists>j'<j. 0 \<le> m_rng (d_data d ! j')) \<or> 0 \<le> m_rng ?mp"
      by (auto simp: less_Suc_eq)
    moreover obtain t m' where tm: "st = (t, m')" by (cases st)
    ultimately have "ok (count_occur col (int j) ?mp st) (?I (Suc j))"
      using st count_occur_ok [of t W Q "seen \<or> (\<exists>j'<j. 0 \<le> m_rng (d_data d ! j'))" m' ?mp col "int j"] d(2) mp
      unfolding tm by (simp add: disj_assoc)
    then show "ok (rbind (aread ws i) (\<lambda>d. rbind (aread (d_data d) j) (\<lambda>mp. count_occur col (int j) mp st))) (?I (Suc j))"
      using i j len by simp
  qed (use s in simp)
  moreover have "(\<exists>j<L. 0 \<le> m_rng (d_data d ! j)) \<longleftrightarrow> lvars d \<noteq> {}"
    using lv len by (auto simp: lvars_def in_set_conv_nth)
  ultimately show ?thesis by simp
qed

lemma choose_max_ok:
  assumes inv: "\<And>i. i < length ws \<Longrightarrow> wsd_inv L W (ws ! i)" and e: "entries_at W ws" and b: "bs_raw b (length ws)" and s: "wt_dist s = W"
  shows "ok (choose_var_max_occur_same_column L ws b col s) (\<lambda>(t, res, col'). wt_dist t = W \<and> (case res of
    None \<Rightarrow> \<forall>i \<in> bset b. lvars (ws ! i) = {}
  | Some k \<Rightarrow> col' \<noteq> None \<and> k < length (wt_entries t) \<and> (\<exists>i \<in> bset b. we_var (wt_entries t ! k) \<in> lvars (ws ! i))))"
proof -
  let ?Q = "\<lambda>k. k < length W \<and> (\<exists>i \<in> bset b. fst (W ! k) \<in> lvars (ws ! i))"
  let ?I = "\<lambda>n (t, m). occ_ok t \<and> wt_dist t = W \<and> max_inv ?Q (\<exists>i \<in> bset b \<inter> {..<n}. lvars (ws ! i) \<noteq> {}) m"
  let ?s = "s\<lparr>wt_entries := map (\<lambda>e. e\<lparr>occur_count := 0\<rparr>) (wt_entries s)\<rparr>"
  let ?m = "\<lparr>same_column_max = - 1, same_column_max_wt_entry = None, other_columns_max = - 1,
    other_columns_max_wt_entry = None, new_var_col = None\<rparr>"
  let ?f = "\<lambda>i st. rbind (bitset_test_bit b i) (\<lambda>b. if b then for_upto L (\<lambda>j st. rbind (aread ws i) (\<lambda>d.
    rbind (aread (d_data d) j) (\<lambda>mp. count_occur col (int j) mp st))) st else Inr st)"
  have "wt_dist ?s = W" "occ_ok ?s" using s by (simp_all add: wt_dist_def occ_ok_def comp_def)
  then have "ok (for_upto (length ws) ?f (?s, ?m)) (?I (length ws))"
  proof (intro ok_for_upto [where I = ?I])
    fix i st assume i: "i < length ws" and st: "?I i st"
    have tb: "bitset_test_bit b i = Inr (i \<in> bset b)" using b i by (rule bitset_test_bit_eq)
    obtain t m where tm: "st = (t, m)" by (cases st)
    show "ok (?f i st) (?I (Suc i))"
    proof (cases "i \<in> bset b")
      case True
      have seen: "(\<exists>i' \<in> bset b \<inter> {..<Suc i}. lvars (ws ! i') \<noteq> {}) \<longleftrightarrow>
          (\<exists>i' \<in> bset b \<inter> {..<i}. lvars (ws ! i') \<noteq> {}) \<or> lvars (ws ! i) \<noteq> {}"
        using True by (auto simp: less_Suc_eq)
      have "ok (for_upto L (\<lambda>j st. rbind (aread ws i) (\<lambda>d. rbind (aread (d_data d) j) (\<lambda>mp. count_occur col (int j) mp st))) (t, m))
        (\<lambda>(t, m'). occ_ok t \<and> wt_dist t = W \<and> max_inv ?Q ((\<exists>i' \<in> bset b \<inter> {..<i}. lvars (ws ! i') \<noteq> {}) \<or> lvars (ws ! i) \<noteq> {}) m')"
        by (rule count_occur_wsd_ok [OF inv [OF i] _ i refl]) (use st tm e i True in \<open>auto simp: entries_at_def\<close>)
      then show ?thesis using True tb tm seen by simp
    next
      case False
      then have "bset b \<inter> {..<Suc i} = bset b \<inter> {..<i}" by (auto simp: less_Suc_eq)
      then show ?thesis using False tb st by simp
    qed
  qed (simp add: max_inv_def)
  then obtain t m where r: "for_upto (length ws) ?f (?s, ?m) = Inr (t, m)" "wt_dist t = W"
    "max_inv ?Q (\<exists>i \<in> bset b \<inter> {..<length ws}. lvars (ws ! i) \<noteq> {}) m" by (auto elim!: ok_E)
  have "bset b \<inter> {..<length ws} = bset b" using bset_bound [OF b] by auto
  then have m: "max_inv ?Q (\<exists>i \<in> bset b. lvars (ws ! i) \<noteq> {}) m" using r(3) by simp
  have Q: "k < length (wt_entries t) \<and> (\<exists>i \<in> bset b. we_var (wt_entries t ! k) \<in> lvars (ws ! i))" if "?Q k" for k
    using that r(2) wt_dist_length [of t] wt_dist_nth [of k t] by auto
  let ?res = "if same_column_max m \<noteq> - 1 then same_column_max_wt_entry m else other_columns_max_wt_entry m"
  have "(?res = None \<and> (\<forall>i \<in> bset b. lvars (ws ! i) = {})) \<or> (\<exists>k. ?res = Some k \<and> new_var_col m \<noteq> None \<and> ?Q k)"
    using m unfolding max_inv_def by (cases "same_column_max m = - 1"; cases "other_columns_max m = - 1") auto
  then have "case ?res of None \<Rightarrow> \<forall>i \<in> bset b. lvars (ws ! i) = {}
      | Some k \<Rightarrow> new_var_col m \<noteq> None \<and> k < length (wt_entries t) \<and> (\<exists>i \<in> bset b. we_var (wt_entries t ! k) \<in> lvars (ws ! i))"
    using Q by (elim disjE exE conjE) simp_all
  then show ?thesis using r(1,2) by (simp add: choose_var_max_occur_same_column_def Let_def)
qed

section \<open>Dropping an assignment\<close>

definition has_rng_before :: "nat \<Rightarrow> int \<Rightarrow> int \<Rightarrow> WSD \<Rightarrow> bool" where
  "has_rng_before k v r d \<longleftrightarrow> (\<exists>j<k. m_var (d_data d ! j) = v \<and> m_rng (d_data d ! j) = r)"

lemma dt_drop_wsd_eq:
  assumes "length (d_data d) = L" "distinct (map m_var (d_data d))" "r \<noteq> - 1"
  shows "dt_drop_wsd junk n L v r i d sub = (if has_rng v r d
    then rbind (bitset_set_bit (alloc_subset junk n sub) i) (\<lambda>b. Inr (drop_var v d, Some b, d_prob (drop_var v d) = 1))
    else Inr (d, sub, False))"
proof -
  let ?f = "\<lambda>j (d, sub, found_empty_wsd). rbind (aread (d_data d) j) (\<lambda>mp. if m_var mp = v \<and> m_rng mp = r then
      rbind (bitset_set_bit (alloc_subset junk n sub) i) (\<lambda>sub.
      let d = d\<lparr>d_data := (d_data d)[j := mp\<lparr>m_rng := - 1\<rparr>], d_prob := d_prob d / m_prob mp\<rparr> in
      Inr (d, Some sub, found_empty_wsd \<or> d_prob d = 1)) else Inr (d, sub, found_empty_wsd))"
  let ?r = "rbind (bitset_set_bit (alloc_subset junk n sub) i) (\<lambda>b. Inr (drop_var v d, Some b, d_prob (drop_var v d) = 1))"
  have data: "d_data (drop_var v d) ! k = drop_map v (d_data d ! k)" if "k < L" for k
    using that assms(1) by (simp add: drop_var_def)
  have "for_upto k ?f (d, sub, False) = (if has_rng_before k v r d then ?r else Inr (d, sub, False))" if "k \<le> L" for k
    using that
  proof (induction k)
    case (Suc k)
    then have k: "k < L" "k < length (d_data d)" "k < length (d_data (drop_var v d))" using assms(1) by (simp_all add: drop_var_def)
    show ?case
    proof (cases "has_rng_before k v r d")
      case True
      then obtain j where j: "j < k" "m_var (d_data d ! j) = v" by (auto simp: has_rng_before_def)
      then have "m_var (d_data d ! k) \<noteq> v" using distinct_map_nth_eq [OF assms(2), of j k] k(2) by auto
      then have "?f k (drop_var v d, x, y) = Inr (drop_var v d, x, y)" for x y using data [OF k(1)] k(3) by simp
      moreover have "has_rng_before (Suc k) v r d" using True by (auto simp: has_rng_before_def less_Suc_eq)
      ultimately show ?thesis using Suc True by (simp add: for_upto_Suc rbind_assoc)
    next
      case False
      then have "has_rng_before (Suc k) v r d \<longleftrightarrow> m_var (d_data d ! k) = v \<and> m_rng (d_data d ! k) = r"
        by (auto simp: has_rng_before_def less_Suc_eq)
      then show ?thesis using Suc False k(2) drop_at [OF assms(2) k(2)] by (auto simp: for_upto_Suc Let_def)
    qed
  qed (simp add: has_rng_before_def)
  moreover have "has_rng_before L v r d \<longleftrightarrow> has_rng v r d"
    using assms(1) unfolding has_rng_before_def has_rng_def by (metis in_set_conv_nth)
  ultimately show ?thesis by (simp add: dt_drop_wsd_def)
qed

lemma dt_with_var_loop_eq:
  assumes "n = length ws" "r \<noteq> - 1" "bs_raw b n"
    "\<And>k. i \<le> k \<Longrightarrow> k < n \<Longrightarrow> length (d_data (ws ! k)) = L \<and> distinct (map m_var (d_data (ws ! k)))"
  shows "dt_with_var_loop junk n L b v r i ws sub = with_var_loop junk n L b v r i ws sub"
  using assms
proof (induction "n - i" arbitrary: i ws sub)
  case 0
  then have "\<not> i < n" by simp
  then show ?case by (simp add: dt_with_var_loop.simps [of junk n L b v r i ws sub] with_var_loop.simps [of junk n L b v r i ws sub])
next
  case (Suc m)
  then have i: "i < n" "i < length ws" by simp_all
  let ?d = "ws ! i"
  have d: "length (d_data ?d) = L" "distinct (map m_var (d_data ?d))" using Suc.prems(4) [of i] i by auto
  have tb: "bitset_test_bit b i = Inr (i \<in> bset b)" using Suc.prems(3) i by (simp add: bitset_test_bit_eq)
  have IH: "dt_with_var_loop junk n L b v r (Suc i) us sub' = with_var_loop junk n L b v r (Suc i) us sub'"
    if us: "length us = n" "\<And>k. Suc i \<le> k \<Longrightarrow> us ! k = ws ! k" for us sub'
  proof (rule Suc.hyps(1))
    show "m = n - Suc i" using Suc.hyps(2) by simp
    show "length (d_data (us ! k)) = L \<and> distinct (map m_var (d_data (us ! k)))" if "Suc i \<le> k" "k < n" for k
      using Suc.prems(4) [of k] us(2) [of k] that by simp
  qed (use Suc.prems(2,3) us(1) in simp_all)
  obtain j where j: "first_index L (\<lambda>j. rbind (aread (d_data ?d) j) (\<lambda>mp. Inr (m_var mp = v \<and> m_rng mp = r))) 0 = Inr j"
    "j < L \<longleftrightarrow> has_rng v r ?d" "j < L \<longrightarrow> m_var (d_data ?d ! j) = v"
    using has_rng_index [OF d(1)] by (auto elim!: ok_E)
  note eqs = dt_with_var_loop.simps [of junk n L b v r i ws sub] with_var_loop.simps [of junk n L b v r i ws sub]
  show ?case
  proof (cases "i \<in> bset b")
    case False
    then show ?thesis unfolding eqs using i tb IH [of ws] Suc.prems(1) by simp
  next
    case True
    show ?thesis
    proof (cases "has_rng v r ?d")
      case False
      then show ?thesis unfolding eqs using i tb True IH [of ws] Suc.prems(1) j dt_drop_wsd_eq [OF d Suc.prems(2)] by simp
    next
      case h: True
      then have jl: "j < L" "j < length (d_data ?d)" "m_var (d_data ?d ! j) = v" using j d(1) by auto
      have "\<And>x. dt_with_var_loop junk n L b v r (Suc i) (ws[i := drop_var v ?d]) x =
          with_var_loop junk n L b v r (Suc i) (ws[i := drop_var v ?d]) x" using IH Suc.prems(1) by simp
      moreover have rd: "aread ws i = Inr ?d" "aread (d_data ?d) j = Inr (d_data ?d ! j)" using i jl(2) by simp_all
      have "with_var_loop junk n L b v r i ws sub = rbind (bitset_set_bit (alloc_subset junk n sub) i) (\<lambda>x.
          if d_prob (drop_var v ?d) = 1 then Inr (ws[i := drop_var v ?d], Some x, True)
          else with_var_loop junk n L b v r (Suc i) (ws[i := drop_var v ?d]) (Some x))"
        by (simp only: eqs i(1) True tb rd rbind_simps j(1) jl(1) Let_def drop_at [OF d(2) jl(2,3)] if_True)
      moreover have "dt_with_var_loop junk n L b v r i ws sub = rbind (bitset_set_bit (alloc_subset junk n sub) i) (\<lambda>x.
          if d_prob (drop_var v ?d) = 1 then Inr (ws[i := drop_var v ?d], Some x, True)
          else dt_with_var_loop junk n L b v r (Suc i) (ws[i := drop_var v ?d]) (Some x))"
        unfolding eqs using i tb True h dt_drop_wsd_eq [OF d Suc.prems(2)] by (simp add: rbind_assoc)
      ultimately show ?thesis by (simp cong: if_cong)
    qed
  qed
qed

lemma dt_find_eq:
  assumes "\<And>i. i < length ws \<Longrightarrow> wsd_inv L W (ws ! i)" "bs_raw b (length ws)" "r \<noteq> - 1"
  shows "dt_find_wsds_with_var_rng junk L b v r ws = find_wsds_with_var_rng junk L b v r ws"
  using dt_with_var_loop_eq [OF refl assms(3,2), of 0 L junk v None] assms(1)
  unfolding dt_find_wsds_with_var_rng_def find_wsds_with_var_rng_def dt_copies by (simp add: wsd_inv_def)

section \<open>Subsumption\<close>

lemma first_index_all:
  assumes "length xs = n"
  shows "rbind (first_index n (\<lambda>i. rbind (aread xs i) (\<lambda>x. Inr (Q x))) 0) (\<lambda>k. Inr (\<not> k < n)) = Inr (\<forall>x \<in> set xs. \<not> Q x)"
proof -
  obtain k where k: "first_index n (\<lambda>i. rbind (aread xs i) (\<lambda>x. Inr (Q x))) 0 = Inr k" "k \<le> n"
    "\<forall>j<k. \<not> Q (xs ! j)" "k < n \<longrightarrow> Q (xs ! k)"
    using first_index_list [of n xs Q] assms by (auto elim!: ok_E)
  have "\<not> k < n \<longleftrightarrow> (\<forall>x \<in> set xs. \<not> Q x)"
  proof
    assume "\<not> k < n"
    then show "\<forall>x \<in> set xs. \<not> Q x" using k(2,3) assms by (auto simp: in_set_conv_nth)
  next
    assume "\<forall>x \<in> set xs. \<not> Q x"
    then show "\<not> k < n" using k(4) assms by (metis nth_mem)
  qed
  then show ?thesis using k(1) by simp
qed

lemma vars_found_eq:
  assumes "length (d_data d1) = L" "length (d_data d2) = L"
  shows "vars_found L d1 d2 = Inr (lvars d1 \<subseteq> allvars d2)"
proof -
  have inner: "(if m_rng m1 \<noteq> - 1 then rbind (first_index L (\<lambda>h. rbind (aread (d_data d2) h) (\<lambda>m2. Inr (m_var m1 = m_var m2))) 0)
      (\<lambda>h. Inr (\<not> h < L)) else Inr False) = Inr (live m1 \<and> m_var m1 \<notin> allvars d2)" for m1
    using first_index_all [OF assms(2), of "\<lambda>m2. m_var m1 = m_var m2"] by (auto simp: live_def allvars_def)
  show ?thesis
    unfolding vars_found_def inner first_index_all [OF assms(1)] by (auto simp: lvars_def)
qed

text \<open>The descriptors of the second set that the union keeps.\<close>

definition unsubsumed :: "WSD list \<Rightarrow> nat set \<Rightarrow> nat set \<Rightarrow> nat set" where
  "unsubsumed ws A Z = {j \<in> Z. \<forall>i \<in> A. \<not> lvars (ws ! i) \<subseteq> allvars (ws ! j)}"

lemma union_removing_ok:
  assumes len: "\<And>i. i < length ws \<Longrightarrow> length (d_data (ws ! i)) = L" and c: "bs_inv c (length ws)" and wo: "grown (length ws) wo Z"
  shows "ok (bitset_union_removing_subsumption junk L ws c wo)
    (\<lambda>u. bs_inv u (length ws) \<and> bset u = bset c \<union> unsubsumed ws (bset c) Z)"
proof (cases wo)
  case None
  then show ?thesis using wo c by (simp add: bitset_union_removing_subsumption_def grown_def unsubsumed_def)
next
  case (Some z)
  let ?n = "length ws"
  have z: "bs_inv z ?n" "bset z = Z" using wo Some by (auto simp: grown_def)
  have raw: "bs_raw c ?n" using c by simp
  let ?clear = "\<lambda>i j temp. rbind (bitset_test_bit temp j) (\<lambda>b. if b then rbind (aread ws i) (\<lambda>d1. rbind (aread ws j) (\<lambda>d2.
    rbind (vars_found L d1 d2) (\<lambda>f. if f then bitset_clear_bit temp j else Inr temp))) else Inr temp)"
  let ?sub = "\<lambda>i. {j. lvars (ws ! i) \<subseteq> allvars (ws ! j)}"
  have inner: "ok (for_upto ?n (?clear i) t) (\<lambda>u. bs_inv u ?n \<and> bset u = bset t - ?sub i)" if i: "i < ?n" and t: "bs_inv t ?n" for i t
  proof -
    let ?I = "\<lambda>k u. bs_inv u ?n \<and> bset u = bset t - (?sub i \<inter> {..<k})"
    have "ok (for_upto ?n (?clear i) t) (?I ?n)"
    proof (rule ok_for_upto [where I = ?I])
      fix j u assume j: "j < ?n" and u: "?I j u"
      have tb: "bitset_test_bit u j = Inr (j \<in> bset u)" using u j by (simp add: clean.test_eq [of u ?n j])
      have vf: "vars_found L (ws ! i) (ws ! j) = Inr (j \<in> ?sub i)" using vars_found_eq [OF len [OF i] len [OF j]] by simp
      have cl: "ok (bitset_clear_bit u j) (\<lambda>v. bs_inv v ?n \<and> bset v = bset u - {j})" using clean.del_ok [of u ?n j] u j by blast
      have "bset u - {j} = bset t - (?sub i \<inter> {..<Suc j})" if "j \<in> ?sub i" using u that by (auto simp: less_Suc_eq)
      moreover have "bset u = bset t - (?sub i \<inter> {..<Suc j})" if "j \<notin> bset u \<or> j \<notin> ?sub i" using u that by (auto simp: less_Suc_eq)
      ultimately show "ok (?clear i j u) (?I (Suc j))" using tb vf cl i j u by (auto elim!: ok_mono)
    qed (use t in simp)
    moreover have "bset t \<subseteq> {..<?n}" using t by simp
    ultimately show ?thesis by (auto elim!: ok_mono)
  qed
  let ?K = "\<lambda>k u. bs_inv u ?n \<and> bset u = Z - (\<Union>i \<in> bset c \<inter> {..<k}. ?sub i)"
  let ?g = "\<lambda>i temp. rbind (bitset_test_bit c i) (\<lambda>b. if b then for_upto ?n (?clear i) temp else Inr temp)"
  obtain t where t: "bitset_copy z (bitset_init junk ?n) = Inr t" "bs_inv t ?n" "bset t = Z"
    using bitset_copy_ok [OF z(1) bs_raw_init] z(2) by (auto elim!: ok_E)
  have "ok (for_upto ?n ?g t) (?K ?n)"
  proof (rule ok_for_upto [where I = ?K])
    fix i u assume i: "i < ?n" and u: "?K i u"
    have tb: "bitset_test_bit c i = Inr (i \<in> bset c)" using raw i by (rule bitset_test_bit_eq)
    have "bset c \<inter> {..<Suc i} = (if i \<in> bset c then insert i (bset c \<inter> {..<i}) else bset c \<inter> {..<i})" by (auto simp: less_Suc_eq)
    then show "ok (?g i u) (?K (Suc i))" using tb u inner [OF i, of u] by (auto elim!: ok_mono)
  qed (use t in simp)
  then obtain t' where t': "for_upto ?n ?g t = Inr t'" "bs_inv t' ?n" "bset t' = Z - (\<Union>i \<in> bset c \<inter> {..<?n}. ?sub i)"
    by (auto elim!: ok_E)
  have "bset t' = unsubsumed ws (bset c) Z" using t'(3) bset_bound [OF raw] by (auto simp: unsubsumed_def)
  then show ?thesis
    using Some t(1) t'(1) bitset_union_ok [OF c, of "Some t'"] t'(2)
    by (auto simp: bitset_union_removing_subsumption_def elim!: ok_mono)
qed

text \<open>
  The removal is sound when no variable occurs with two values: a descriptor whose variables
  include those of another then implies it.
\<close>

definition single :: "WSD list \<Rightarrow> nat set \<Rightarrow> bool" where
  "single ws X \<longleftrightarrow> (\<forall>i \<in> X. \<forall>j \<in> X. \<forall>mp \<in> set (d_data (ws ! i)). \<forall>mq \<in> set (d_data (ws ! j)).
     live mp \<longrightarrow> live mq \<longrightarrow> m_var mp = m_var mq \<longrightarrow> m_rng mp = m_rng mq)"

lemma subsumed_sat:
  assumes "uniform ws X" "single ws X" "i \<in> X" "j \<in> X" "lvars (ws ! i) \<subseteq> allvars (ws ! j)" "sat (ws ! j) \<tau>"
  shows "sat (ws ! i) \<tau>"
  unfolding sat_def
proof (intro ballI impI)
  fix mp assume mp: "mp \<in> set (d_data (ws ! i))" "live mp"
  then have "m_var mp \<in> lvars (ws ! i)" by (auto simp: lvars_def)
  then have "m_var mp \<in> lvars (ws ! j)" using assms(1,3,4,5) unfolding uniform_def by blast
  then obtain mq where mq: "mq \<in> set (d_data (ws ! j))" "live mq" "m_var mq = m_var mp" by (auto simp: lvars_def)
  then have "m_rng mq = m_rng mp" using assms(2,3,4) mp unfolding single_def by blast
  then show "\<tau> (m_var mp) = m_rng mp" using assms(6) mq unfolding sat_def by metis
qed

lemma dnf_unsubsumed:
  assumes "uniform ws (A \<union> Z)" "single ws (A \<union> Z)"
  shows "dnf ws (A \<union> unsubsumed ws A Z) = dnf ws (A \<union> Z)"
proof
  fix \<tau>
  have "sat (ws ! i) \<tau>" if "i \<in> A" "j \<in> Z" "lvars (ws ! i) \<subseteq> allvars (ws ! j)" "sat (ws ! j) \<tau>" for i j
    using subsumed_sat [OF assms, of i j \<tau>] that by simp
  then show "dnf ws (A \<union> unsubsumed ws A Z) \<tau> = dnf ws (A \<union> Z) \<tau>" unfolding dnf_def unsubsumed_def by blast
qed

section \<open>Correctness of the exact tree\<close>

definition dt_pre :: "nat \<Rightarrow> wtable \<Rightarrow> WSD list \<Rightarrow> nat set \<Rightarrow> bool" where
  "dt_pre L W ws X \<longleftrightarrow> tree_pre L W ws X \<and> single ws X \<and> entries_at W ws"

lemma dt_pre_subset: "dt_pre L W ws X \<Longrightarrow> Z \<subseteq> X \<Longrightarrow> dt_pre L W ws Z"
  using tree_pre_subset unfolding dt_pre_def single_def by blast

lemma drop_var_live: "mp \<in> set (d_data (drop_var v d)) \<Longrightarrow> live mp \<Longrightarrow> mp \<in> set (d_data d)"
  by (auto simp: drop_var_def drop_map_def live_def split: if_splits)

lemma dt_pre_dropped:
  assumes pre: "dt_pre L W ws X" and r: "r \<noteq> - 1" and Y: "Y = {i \<in> X. has_rng v r (ws ! i)}"
  shows "dt_pre L W (dropped v Y ws) (Y \<union> {i \<in> X. v \<notin> allvars (ws ! i)})"
proof -
  have X: "X \<subseteq> {..<length ws}" using pre by (simp add: dt_pre_def tree_pre_def)
  have lv: "mp \<in> set (d_data (ws ! i))" if "i \<in> X" "mp \<in> set (d_data (dropped v Y ws ! i))" "live mp" for i mp
    using that X drop_var_live [of mp v "ws ! i"] by (auto simp: dropped_nth split: if_splits)
  have "single (dropped v Y ws) (Y \<union> {i \<in> X. v \<notin> allvars (ws ! i)})"
    using pre lv Y unfolding dt_pre_def single_def by blast
  moreover have "entries_at W (dropped v Y ws)"
  proof -
    have e: "entry_at W mp" if "d \<in> set ws" "mp \<in> set (d_data (drop_var v d)) \<or> mp \<in> set (d_data d)" for d mp
      using pre that by (auto simp: dt_pre_def entries_at_def drop_var_def drop_map_def entry_at_def)
    have "entry_at W mp" if "i < length ws" "mp \<in> set (d_data (dropped v Y ws ! i))" for i mp
      using e [of "ws ! i" mp] that by (auto simp: dropped_nth split: if_splits)
    then show ?thesis unfolding entries_at_def by (metis dropped_length in_set_conv_nth)
  qed
  ultimately show ?thesis using tree_pre_dropped [OF _ r Y, of L W] pre by (simp add: dt_pre_def)
qed

text \<open>The set the tree recurses on after an assignment, with the subsumed descriptors removed.\<close>

lemma union_removing_dropped:
  assumes pre: "dt_pre L W ws X" and r: "r \<noteq> - 1" and Y: "Y = {i \<in> X. has_rng v r (ws ! i)}" "Y \<noteq> {}"
    and c: "bs_inv c (length ws)" "bset c = Y" and wo: "grown (length ws) wo {i \<in> X. v \<notin> allvars (ws ! i)}"
  shows "ok (bitset_union_removing_subsumption junk L (dropped v Y ws) c wo) (\<lambda>u. bs_inv u (length ws) \<and>
    Y \<subseteq> bset u \<and> bset u \<subseteq> Y \<union> {i \<in> X. v \<notin> allvars (ws ! i)} \<and>
    dnf (dropped v Y ws) (bset u) = dnf (dropped v Y ws) (Y \<union> {i \<in> X. v \<notin> allvars (ws ! i)}) \<and>
    tree_size (dropped v Y ws) (bset u) < tree_size ws X \<and> dt_pre L W (dropped v Y ws) (bset u))"
proof -
  let ?Z = "{i \<in> X. v \<notin> allvars (ws ! i)}" and ?us = "dropped v Y ws"
  have d: "dt_pre L W ?us (Y \<union> ?Z)" by (rule dt_pre_dropped [OF pre r Y(1)])
  then have len: "\<And>i. i < length ?us \<Longrightarrow> length (d_data (?us ! i)) = L"
    and uni: "uniform ?us (Y \<union> ?Z)" "single ?us (Y \<union> ?Z)" by (simp_all add: dt_pre_def tree_pre_def wsd_inv_def)
  have t: "tree_size ?us (Y \<union> ?Z) < tree_size ws X"
    using tree_size_dropped [OF _ r Y(1,2), of L W] pre by (simp add: dt_pre_def)
  have fin: "finite (Y \<union> ?Z)"
    using pre Y(1) by (auto simp: dt_pre_def tree_pre_def intro: finite_subset)
  have "ok (bitset_union_removing_subsumption junk L ?us c wo)
    (\<lambda>u. bs_inv u (length ?us) \<and> bset u = bset c \<union> unsubsumed ?us (bset c) ?Z)"
    by (rule union_removing_ok [OF len]) (use c wo in simp_all)
  then show ?thesis
  proof (rule ok_mono)
    fix u assume "bs_inv u (length ?us) \<and> bset u = bset c \<union> unsubsumed ?us (bset c) ?Z"
    then have u: "bs_inv u (length ws)" "bset u = Y \<union> unsubsumed ?us Y ?Z" using c(2) by simp_all
    have sub: "bset u \<subseteq> Y \<union> ?Z" using u(2) by (auto simp: unsubsumed_def)
    have "tree_size ?us (bset u) \<le> tree_size ?us (Y \<union> ?Z)" unfolding tree_size_def using sub fin by (intro sum_mono2) auto
    then show "bs_inv u (length ws) \<and> Y \<subseteq> bset u \<and> bset u \<subseteq> Y \<union> ?Z \<and> dnf ?us (bset u) = dnf ?us (Y \<union> ?Z) \<and>
        tree_size ?us (bset u) < tree_size ws X \<and> dt_pre L W ?us (bset u)"
      using u sub t dnf_unsubsumed [OF uni] dt_pre_subset [OF d sub] by simp
  qed
qed

definition dt_solves :: "exact_rec \<Rightarrow> nat \<Rightarrow> nat \<Rightarrow> wtable \<Rightarrow> bool" where
  "dt_solves rec N L W \<longleftrightarrow> (\<forall>bs col ws s X. oset (length ws) bs X \<longrightarrow> dt_pre L W ws X \<longrightarrow> wt_dist s = W \<longrightarrow>
     tree_size ws X < N \<longrightarrow>
     ok (rec bs col ws s) (\<lambda>(p, us, t). p = Pr W (dnf ws X) \<and> us = ws \<and> wt_dist t = W))"

lemma dt_solvesD:
  "dt_solves rec N L W \<Longrightarrow> oset (length ws) bs X \<Longrightarrow> dt_pre L W ws X \<Longrightarrow> wt_dist s = W \<Longrightarrow> tree_size ws X < N \<Longrightarrow>
    ok (rec bs col ws s) (\<lambda>(p, us, t). p = Pr W (dnf ws X) \<and> us = ws \<and> wt_dist t = W)"
  unfolding dt_solves_def by blast

lemma dt_branch_ok:
  assumes rec: "dt_solves rec N L W" and W: "wt_ok W" and pre: "dt_pre L W ws X" and N: "tree_size ws X \<le> N"
    and b: "bs_raw b (length ws)" "bset b = X"
    and wo: "grown (length ws) wo {i \<in> X. v \<notin> allvars (ws ! i)}"
    and v: "i0 \<in> X" "v \<in> lvars (ws ! i0)" and r: "re_rng r \<noteq> - 1" and s: "wt_dist s = W"
    and pw: "pw = - 1 \<or> pw = Pr W (dnf ws {i \<in> X. v \<notin> allvars (ws ! i)})"
  shows "ok (dt_branch rec junk L b wo v col r pw ws s) (\<lambda>((cur, pw'), us, t).
    cur = re_p r * Pr W (\<lambda>\<tau>. dnf ws X (\<tau>(v := re_rng r))) \<and>
    (pw' = - 1 \<or> pw' = Pr W (dnf ws {i \<in> X. v \<notin> allvars (ws ! i)})) \<and> us = ws \<and> wt_dist t = W)"
proof -
  let ?X0 = "{i \<in> X. v \<notin> allvars (ws ! i)}"
  have tp: "tree_pre L W ws X" using pre by (simp add: dt_pre_def)
  have eq: "dt_find_wsds_with_var_rng junk L b v (re_rng r) ws = find_wsds_with_var_rng junk L b v (re_rng r) ws"
    using tp by (intro dt_find_eq [of _ _ W] b(1) r) (simp add: tree_pre_def)
  show ?thesis
  proof (cases rule: elimination_cases [OF W tp b v r, of junk, case_names none certain drop])
    case none
    have "ok (rec wo col ws s) (\<lambda>(p, us, t). p = Pr W (dnf ws ?X0) \<and> us = ws \<and> wt_dist t = W)"
      using dt_pre_subset [OF pre, of ?X0] tree_size_without [OF tp v] N
      by (intro dt_solvesD [OF rec grown_oset [OF wo]]) (auto simp: s)
    then show ?thesis using none pw s eq by (cases "pw = - 1") (auto simp: dt_branch_def elim!: ok_mono)
  next
    case (certain c)
    then show ?thesis using pw s eq by (simp add: dt_branch_def)
  next
    case (drop c Y)
    obtain u where u: "bitset_union_removing_subsumption junk L (dropped v Y ws) c wo = Inr u" "bs_inv u (length ws)"
      "Y \<subseteq> bset u" "bset u \<subseteq> Y \<union> ?X0" "dnf (dropped v Y ws) (bset u) = dnf (dropped v Y ws) (Y \<union> ?X0)"
      "tree_size (dropped v Y ws) (bset u) < tree_size ws X" "dt_pre L W (dropped v Y ws) (bset u)"
      using union_removing_dropped [OF pre r drop(6,5,3,4) wo, of junk] by (auto elim!: ok_E)
    have "ok (rec (Some u) col (dropped v Y ws) s) (\<lambda>(p, us', t). p = Pr W (dnf (dropped v Y ws) (bset u)) \<and>
        us' = dropped v Y ws \<and> wt_dist t = W)"
      by (rule dt_solvesD [OF rec]) (use u drop(5) N s in \<open>auto simp: oset_def\<close>)
    moreover have "reset_wsds_var_rng L u v (re_rng r) (dropped v Y ws) = Inr ws" by (rule drop(8)) (use u in auto)
    ultimately show ?thesis using drop(1,2,7) u(1,5) pw eq by (auto simp: dt_branch_def elim!: ok_mono)
  qed
qed

lemma dt_loop_ok:
  assumes rec: "dt_solves rec N L W" and W: "wt_ok W" and pre: "dt_pre L W ws X" and N: "tree_size ws X \<le> N"
    and b: "bs_raw b (length ws)" "bset b = X"
    and wo: "grown (length ws) wo {i \<in> X. v \<notin> allvars (ws ! i)}"
    and v: "i0 \<in> X" "v \<in> lvars (ws ! i0)" and rs: "\<forall>r \<in> set rs. re_rng r \<noteq> - 1" "length rs \<le> cnt"
    and s: "wt_dist s = W" and pw: "pw = - 1 \<or> pw = Pr W (dnf ws {i \<in> X. v \<notin> allvars (ws ! i)})"
  shows "ok (dt_loop rec junk L b wo v col cnt rs pl pw ws s) (\<lambda>((p, ret), us, t).
    p = pl + (\<Sum>r\<leftarrow>rs. re_p r * Pr W (\<lambda>\<tau>. dnf ws X (\<tau>(v := re_rng r)))) \<and> (ret \<longrightarrow> p = 1) \<and> us = ws \<and> wt_dist t = W)"
  using rs s pw
proof (induction rs arbitrary: pl pw s)
  case (Cons r rs)
  let ?q = "re_p r * Pr W (\<lambda>\<tau>. dnf ws X (\<tau>(v := re_rng r)))"
  obtain pw' t where br: "dt_branch rec junk L b wo v col r pw ws s = Inr ((?q, pw'), ws, t)"
    "pw' = - 1 \<or> pw' = Pr W (dnf ws {i \<in> X. v \<notin> allvars (ws ! i)})" "wt_dist t = W"
    using dt_branch_ok [OF rec W pre N b wo v _ Cons.prems(3,4), of r junk col] Cons.prems(1) by (auto elim!: ok_E)
  show ?case
  proof (cases "pl + ?q = 1 \<and> cnt = 1")
    case True
    then have "rs = []" using Cons.prems(2) by simp
    then show ?thesis using True br by (simp del: fun_upd_apply)
  next
    case False
    have "ok (dt_loop rec junk L b wo v col cnt rs (pl + ?q) pw' ws t) (\<lambda>((p, ret), us, t).
      p = pl + ?q + (\<Sum>r\<leftarrow>rs. re_p r * Pr W (\<lambda>\<tau>. dnf ws X (\<tau>(v := re_rng r)))) \<and> (ret \<longrightarrow> p = 1) \<and> us = ws \<and> wt_dist t = W)"
      using Cons.IH [OF _ _ br(3,2)] Cons.prems(1,2) by (simp del: fun_upd_apply)
    then show ?thesis using False br(1) by (auto simp: add.assoc simp del: fun_upd_apply elim!: ok_mono)
  qed
qed simp

lemma dt_left_ok:
  assumes rec: "dt_solves rec N L W" and W: "wt_ok W" "wt_rngs_ok W" and pre: "dt_pre L W ws X" and N: "tree_size ws X \<le> N"
    and b: "bs_inv b (length ws)" "bset b = X" "X \<noteq> {}" and s: "wt_dist s = W"
  shows "ok (dt_left rec junk L b col ws s) (\<lambda>((p, ret), us, t).
    (if ret then Pr W (dnf ws X) = 1 else p = Pr W (dnf ws X)) \<and> us = ws \<and> wt_dist t = W)"
proof -
  let ?n = "length ws"
  have tp: "tree_pre L W ws X" "entries_at W ws" using pre by (simp_all add: dt_pre_def)
  have inv: "\<And>i. i < ?n \<Longrightarrow> wsd_inv L W (ws ! i)" using tp(1) by (auto simp: tree_pre_def)
  have raw: "bs_raw b ?n" using b by simp
  show ?thesis
  proof (cases "card X = 1")
    case True
    then show ?thesis using single_wsd [OF W(1) tp(1) raw b(2)] s by (auto simp: dt_left_def)
  next
    case False
    have ts: "bitset_test_singleton (Some b) = Inr (- 1)" using bitset_test_singleton_eq [OF raw] b(2) False by simp
    obtain t res col' where ch: "choose_var_max_occur_same_column L ws b col s = Inr (t, res, col')" "wt_dist t = W"
      "case res of None \<Rightarrow> \<forall>i \<in> X. lvars (ws ! i) = {}
       | Some k \<Rightarrow> col' \<noteq> None \<and> k < length (wt_entries t) \<and> (\<exists>i \<in> X. we_var (wt_entries t ! k) \<in> lvars (ws ! i))"
      using choose_max_ok [OF inv tp(2) raw s, of col] b(2) by (auto elim!: ok_E)
    show ?thesis
    proof (cases res)
      case None
      then show ?thesis using ts ch no_live_var [OF b(3) _ W(1)] by (simp add: dt_left_def)
    next
      case (Some k)
      let ?e = "wt_entries t ! k"
      let ?v = "we_var ?e"
      obtain i0 cc where k: "k < length (wt_entries t)" and i0: "i0 \<in> X" "?v \<in> lvars (ws ! i0)" and cc: "col' = Some cc"
        using ch(3) Some by auto
      note e = chosen_var [OF W ch(2) k]
      obtain wo where wo: "find_wsds_without_var junk L ws b ?v = Inr wo" "grown ?n wo {i \<in> X. ?v \<notin> allvars (ws ! i)}"
        using find_wsds_without_var_ok [of ws L b junk ?v] inv raw b(2) by (auto simp: wsd_inv_def elim!: ok_E)
      show ?thesis
        using dt_loop_ok [OF rec W(1) pre N raw b(2) wo(2) i0 e(1) order_refl ch(2), of "- 1" junk cc 0] ts ch(1) Some k wo(1) cc
        unfolding e(2) by (auto simp: dt_left_def elim!: ok_mono)
    qed
  qed
qed

theorem dt_exact_solves:
  assumes W: "wt_ok W" "wt_rngs_ok W"
  shows "dt_solves (decomposition_tree_exact fuel junk L) fuel L W"
proof (induction fuel)
  case 0
  show ?case by (simp add: dt_solves_def)
next
  case (Suc fuel)
  show ?case unfolding dt_solves_def
  proof (intro allI impI)
    fix bs col ws s X
    assume bs: "oset (length ws) bs X" and pre: "dt_pre L W ws X" and s: "wt_dist s = W" and N: "tree_size ws X < Suc fuel"
    have te: "bitset_test_empty bs = Inr (X = {})" by (rule oset_test_empty [OF bs])
    have tp: "tree_pre L W ws X" using pre by (simp add: dt_pre_def)
    show "ok (decomposition_tree_exact (Suc fuel) junk L bs col ws s) (\<lambda>(p, us, t). p = Pr W (dnf ws X) \<and> us = ws \<and> wt_dist t = W)"
    proof (cases "X = {}")
      case True
      then show ?thesis using te s by simp
    next
      case False
      obtain b c where c: "bs = Some b" "bset b = X" "bs_raw b (length ws)"
        "find_independent_split junk L ws bs = Inr (Some c)" "bs_inv c (length ws)" "bset c \<subseteq> X" "bset c \<noteq> {}"
        "tree_size ws (bset c) \<le> tree_size ws X" "tree_size ws (X - bset c) < tree_size ws X"
        "Pr W (dnf ws X) = Pr W (dnf ws (bset c)) + Pr W (dnf ws (X - bset c)) - Pr W (dnf ws (bset c)) * Pr W (dnf ws (X - bset c))"
        "\<forall>c'. bs_inv c' (length ws) \<longrightarrow> bset c' \<subseteq> X \<longrightarrow> ok (bitset_negate b c') (\<lambda>d. bs_inv d (length ws) \<and> bset d = X - bset c')"
        by (rule split_off [OF W(1) bs tp False, of junk])
      have sz: "tree_size ws (bset c) \<le> fuel" using N c(8) by simp
      obtain pl ret t where l: "dt_left (decomposition_tree_exact fuel junk L) junk L c col ws s = Inr ((pl, ret), ws, t)"
        "if ret then Pr W (dnf ws (bset c)) = 1 else pl = Pr W (dnf ws (bset c))" "wt_dist t = W"
        using dt_left_ok [OF Suc.IH W dt_pre_subset [OF pre c(6)] sz c(5) refl c(7) s, of junk col] by (auto elim!: ok_E)
      show ?thesis
      proof (cases "ret \<or> pl = 1")
        case True
        then have "Pr W (dnf ws X) = 1" using l(2) certain_part [OF W(1) c(6)] by (auto split: if_splits)
        then show ?thesis using True te c(4) l(1,3) False by simp
      next
        case nret: False
        obtain d where d: "bitset_negate b c = Inr d" "bs_inv d (length ws)" "bset d = X - bset c"
          using c(5,6,11) by (auto elim!: ok_E)
        have "ok (decomposition_tree_exact fuel junk L (Some d) col ws t)
            (\<lambda>(p, us, t). p = Pr W (dnf ws (X - bset c)) \<and> us = ws \<and> wt_dist t = W)"
          by (intro dt_solvesD [OF Suc.IH]) (use d l(3) N c(9) dt_pre_subset [OF pre, of "X - bset c"] in \<open>auto simp: oset_def\<close>)
        then show ?thesis using nret te c(1,4,10) l(1,2) False d(1) by (auto elim!: ok_mono)
      qed
    qed
  qed
qed

section \<open>Properties\<close>

definition three_coins :: wtable where
  "three_coins = [(1, [(1, 1/2), (2, 1/2)]), (2, [(1, 1/4), (2, 3/4)]), (3, [(1, 1/3), (2, 2/3)])]"

definition shared_wsds :: "WSD list" where
  "shared_wsds = [\<lparr>d_data = [map_of_entry 1 1 (1/2) 0 0, map_of_entry 2 1 (1/4) 1 0], d_prob = 1/8\<rparr>,
    \<lparr>d_data = [map_of_entry 3 1 (1/3) 2 0, map_of_entry 2 1 (1/4) 1 0], d_prob = 1/12\<rparr>,
    \<lparr>d_data = [map_of_entry 1 1 (1/2) 0 0, map_of_entry 3 1 (1/3) 2 0], d_prob = 1/6\<rparr>]"

lemma three_coins_ok: "wt_ok three_coins" "wt_rngs_ok three_coins"
  by (simp_all add: wt_ok_def dist_ok_def wt_rngs_ok_def three_coins_def)

lemma shared_wsds_pre: "dt_pre 2 three_coins shared_wsds {..<3}" "length shared_wsds = 3"
proof -
  show len: "length shared_wsds = 3" by (simp add: shared_wsds_def)
  have d: "wsd_inv 2 three_coins d \<and> lvars d = allvars d \<and> (\<forall>mp \<in> set (d_data d). m_rng mp = 1 \<and> entry_at three_coins mp)"
    if "d \<in> set shared_wsds" for d
    using that by (auto simp: shared_wsds_def three_coins_def wsd_inv_def map_inv_def lit_at_def live_def map_of_entry_def
      create_map_def lvars_code allvars_def entry_at_def)
  have "m_rng mp = 1" if "i < 3" "mp \<in> set (d_data (shared_wsds ! i))" for i mp
    using d [of "shared_wsds ! i"] len that by simp
  then have "single shared_wsds {..<3}" unfolding single_def by simp
  moreover have "uniform shared_wsds {..<3}" "entries_at three_coins shared_wsds"
    using d len nth_mem [of _ shared_wsds] unfolding uniform_def entries_at_def by auto
  ultimately show "dt_pre 2 three_coins shared_wsds {..<3}"
    using d len nth_mem [of _ shared_wsds] by (simp add: dt_pre_def tree_pre_def)
qed

lemma shared_wsds_prob: "Pr three_coins (dnf shared_wsds {..<3}) = 7/24"
  by (simp add: three_coins_def Pr_Cons dnf_def sat_def shared_wsds_def live_def map_of_entry_def create_map_def
      numeral_3_eq_3 lessThan_Suc)

lemma shared_wsds_set: "tree_size shared_wsds {..<3} < 10" "oset (length shared_wsds) (Some all_three) {..<3}"
  using all_three_ok(1) shared_wsds_pre(2)
  by (simp_all add: tree_size_def shared_wsds_def live_def map_of_entry_def create_map_def numeral_3_eq_3 lessThan_Suc)

text \<open>
  C12. The exact decomposition tree, when no variable occurs with two different values in the
  set, returns with fuel above the number of descriptors and undropped maps the probability
  that a descriptor of the set holds and restores the descriptors - whatever column the last
  variable came from.
\<close>

theorem decomposition_tree_exact_correct:
  assumes "wt_ok W" "wt_rngs_ok W" "wt_dist s = W" "dt_pre L W ws X" "oset (length ws) bs X" "tree_size ws X < fuel"
  shows "\<exists>t. decomposition_tree_exact fuel junk L bs col ws s = Inr (Pr W (dnf ws X), ws, t) \<and> wt_dist t = W"
  using dt_solvesD [OF dt_exact_solves [OF assms(1,2)] assms(5,4,3,6), of junk col] by (auto simp: ok_def)

theorem decomposition_tree_exact_correct_witness:
  "\<exists>t. decomposition_tree_exact 10 (\<lambda>_. 0) 2 (Some all_three) (- 1) shared_wsds (state_of three_coins) = Inr (7/24, shared_wsds, t)"
  using decomposition_tree_exact_correct [OF three_coins_ok wt_dist_state_of shared_wsds_pre(1) shared_wsds_set(2,1), of "\<lambda>_. 0" "- 1"]
  unfolding shared_wsds_prob by blast

text \<open>
  The search of the decomposition tree, which drops every map of a descriptor that matches
  the assignment, agrees with the search of \<open>ws-tree.c\<close>, which drops the first one, whenever
  the variables of each descriptor are distinct.
\<close>

theorem dt_find_agrees:
  assumes "\<And>i. i < length ws \<Longrightarrow> wsd_inv L W (ws ! i)" "bs_raw b (length ws)" "rng \<noteq> - 1"
  shows "dt_find_wsds_with_var_rng junk L b var rng ws = find_wsds_with_var_rng junk L b var rng ws"
  by (rule dt_find_eq [OF assms])

theorem dt_find_agrees_witness:
  "dt_find_wsds_with_var_rng (\<lambda>_. 0) 2 all_three 1 1 three_wsds = find_wsds_with_var_rng (\<lambda>_. 0) 2 all_three 1 1 three_wsds"
  by (rule dt_find_agrees [of _ _ two_coins]) (use three_wsds_pre all_three_ok in \<open>simp_all add: tree_pre_def\<close>)

text \<open>
  The union keeps the first set and adds the descriptors of the second that do not mention
  all undropped variables of a descriptor of the first; when no variable occurs with two values
  and variables are dropped uniformly, the union without them holds in the same worlds as the
  full union.
\<close>

theorem union_removing_subsumption_correct:
  assumes "\<And>i. i < length ws \<Longrightarrow> length (d_data (ws ! i)) = L" "bs_inv a (length ws)" "bs_inv z (length ws)" "bset z \<noteq> {}"
  shows "ok (bitset_union_removing_subsumption junk L ws a (Some z)) (\<lambda>u. bs_inv u (length ws) \<and>
    bset u = bset a \<union> {j \<in> bset z. \<forall>i \<in> bset a. \<not> lvars (ws ! i) \<subseteq> allvars (ws ! j)} \<and>
    (uniform ws (bset a \<union> bset z) \<and> single ws (bset a \<union> bset z) \<longrightarrow> dnf ws (bset u) = dnf ws (bset a \<union> bset z)))"
  using union_removing_ok [OF assms(1,2), of "Some z" "bset z" junk] assms(3,4) dnf_unsubsumed [of ws "bset a" "bset z"]
  by (auto simp: grown_def unsubsumed_def elim!: ok_mono)

theorem union_removing_subsumption_correct_witness:
  "ok (bitset_union_removing_subsumption (\<lambda>_. 0) 2 shared_wsds all_three (Some all_three)) (\<lambda>u. bset u = {..<3})"
proof -
  have "length (d_data (shared_wsds ! i)) = 2" if "i < length shared_wsds" for i
    using shared_wsds_pre that by (simp add: dt_pre_def tree_pre_def wsd_inv_def)
  moreover have "bset all_three \<noteq> {}" using all_three_ok(3) by (simp add: lessThan_empty_iff)
  ultimately show ?thesis
    using union_removing_subsumption_correct [of shared_wsds 2 all_three all_three "\<lambda>_. 0"] all_three_ok(2,3) shared_wsds_pre(2)
    by (auto elim!: ok_mono)
qed

text \<open>Three descriptors in which variable \<open>2\<close> occurs with the values \<open>1\<close> and \<open>2\<close>.\<close>

definition four_coins :: wtable where
  "four_coins = [(1, [(1, 1/2), (2, 1/2)]), (2, [(1, 1/2), (2, 1/2)]), (3, [(1, 1/2), (2, 1/2)]), (4, [(1, 1/2), (2, 1/2)])]"

definition two_valued :: "WSD list" where
  "two_valued = [\<lparr>d_data = [map_of_entry 1 1 (1/2) 0 0, map_of_entry 2 1 (1/2) 1 0], d_prob = 1/4\<rparr>,
    \<lparr>d_data = [map_of_entry 1 1 (1/2) 0 0, map_of_entry 3 1 (1/2) 2 0], d_prob = 1/4\<rparr>,
    \<lparr>d_data = [map_of_entry 2 2 (1/2) 1 1, map_of_entry 4 1 (1/2) 3 0], d_prob = 1/4\<rparr>]"

text \<open>
  With a variable that occurs with two values the tree is wrong: the removal compares
  variables only and drops a descriptor that implies none of the others, so that these three
  descriptors get 1/2 instead of 9/16.
\<close>

theorem subsumption_ignores_values:
  "map_sum id fst (decomposition_tree_exact 20 (\<lambda>_. 0) 2 (Some all_three) (- 1) two_valued (state_of four_coins)) = Inr (1/2) \<and>
    Pr four_coins (dnf two_valued {0, 1, 2}) = 9/16"
  by (rule conjI; code_simp)

end
