(* ===== verification/DApprox.thy ===== *)
theory DApprox
  imports DTree
begin

text \<open>
  The approximate decomposition tree of \<^verbatim>\<open>backend/maybms/d-tree.c\<close> and the aggregate
  that rests on it (\<open>conf_appro_accum*_ge\<close>, \<open>conf_appro_final_ge\<close>).

  Every node brackets its probability between a lower and an upper bound. A node knows how its
  bounds enter those of the whole tree: the bounds of the root are
  \<open>coefficient * bound + constant\<close> with the coefficients in \<open>bound_information\<close>. As soon as
  these meet the stopping condition the global flag \<open>has_satisfied_stopping_condition\<close> is set
  and every call returns. The model threads the flag; \<open>is_relative\<close> and \<open>stopping_number\<close>,
  which never change during the construction, are the record \<open>approach\<close>.

  Divisions by a lower bound of zero follow the C rules: the quotient is an infinity with the
  sign of the numerator or not a number, which \<open>quot_le\<close> compares accordingly. The stopping
  number itself is a quotient, infinite for a relative error of one, which is \<open>None\<close> here.

  The main facts: the bounds enclose the probability, and when the flag is set the bounds of
  the whole tree meet the stopping condition (\<open>dt_approx_bounds\<close>).
\<close>

record bound_information =
  coefficient_upper :: real
  constant_upper :: real
  coefficient_lower :: real
  constant_lower :: real
  condition_coefficient_upper :: real
  condition_constant_upper :: real

record approach =
  is_relative :: bool
  stopping_number :: "real option"

datatype rng_state = SUBSET_VAR_RNG_IS_NULL | SUBSET_VAR_RNG_IS_EMPTY | SUBSET_VAR_RNG_SHOULD_UNION

text \<open>One position of \<open>upper_bounds\<close>, \<open>lower_bounds\<close> and \<open>state_of_subset_var_rng\<close>.\<close>

record leaf =
  lf_upper :: real
  lf_lower :: real
  lf_state :: rng_state

section \<open>The tests\<close>

definition le_num :: "real \<Rightarrow> real option \<Rightarrow> bool" where
  "le_num a s = (case s of None \<Rightarrow> True | Some x \<Rightarrow> a \<le> x)"

definition quot_le :: "real \<Rightarrow> real \<Rightarrow> real option \<Rightarrow> bool" where
  "quot_le a b s \<longleftrightarrow> (if b = 0 then a < 0 \<or> a > 0 \<and> s = None else le_num (a / b) s)"

definition stop_reached :: "approach \<Rightarrow> real \<Rightarrow> real \<Rightarrow> bool" where
  "stop_reached g whole_upper whole_lower =
     (if is_relative g then quot_le (whole_upper - whole_lower) whole_lower (stopping_number g)
      else le_num (whole_upper - whole_lower) (stopping_number g))"

definition can_close :: "approach \<Rightarrow> real \<Rightarrow> real \<Rightarrow> leaf \<Rightarrow> real \<Rightarrow> bool" where
  "can_close g condition_whole_upper whole_lower lf path_prob =
     (if is_relative g
      then quot_le (condition_whole_upper - whole_lower) whole_lower (stopping_number g) \<and>
           quot_le ((lf_upper lf - lf_lower lf) * path_prob) whole_lower (map_option ((*) (1/1000)) (stopping_number g))
      else le_num (condition_whole_upper - whole_lower) (stopping_number g) \<and>
           le_num ((lf_upper lf - lf_lower lf) * path_prob) (map_option ((*) (1/1000)) (stopping_number g)))"

definition whole_bound :: "real \<Rightarrow> real \<Rightarrow> real \<Rightarrow> real \<Rightarrow> real" where
  "whole_bound coefficient constant p_left p_right = coefficient * (p_left + p_right - p_left * p_right) + constant"

definition aggregate_upper :: "leaf list \<Rightarrow> real" where
  "aggregate_upper lfs = (\<Sum>lf\<leftarrow>lfs. lf_upper lf)"

definition aggregate_lower :: "leaf list \<Rightarrow> real" where
  "aggregate_lower lfs = (\<Sum>lf\<leftarrow>lfs. lf_lower lf)"

definition condition_aggregate_upper :: "nat \<Rightarrow> leaf list \<Rightarrow> real" where
  "condition_aggregate_upper i lfs = (\<Sum>lf\<leftarrow>take i lfs. lf_upper lf) + (\<Sum>lf\<leftarrow>drop (Suc i) lfs. lf_lower lf)"

section \<open>The first round\<close>

definition leaf_bounds :: "junk \<Rightarrow> nat \<Rightarrow> bitset \<Rightarrow> bitset option \<Rightarrow> int \<Rightarrow> rngEntry \<Rightarrow> real \<times> real \<Rightarrow> WSD list \<Rightarrow>
    (leaf \<times> (real \<times> real) \<times> WSD list) res" where
  "leaf_bounds junk L sub subset_without_var var r without ws =
     rbind (dt_find_wsds_with_var_rng junk L sub var (re_rng r) ws) (\<lambda>(ws, subset_var_rng).
     case subset_var_rng of
       None \<Rightarrow>
         rbind (if fst without = - 1 then compute_upper_and_lower_bounds L ws subset_without_var else Inr without) (\<lambda>without.
         Inr (\<lparr>lf_upper = re_p r * fst without, lf_lower = re_p r * snd without, lf_state = SUBSET_VAR_RNG_IS_NULL\<rparr>, without, ws))
     | Some b \<Rightarrow>
         rbind (bitset_test_empty (Some b)) (\<lambda>e.
         if e then Inr (\<lparr>lf_upper = re_p r, lf_lower = re_p r, lf_state = SUBSET_VAR_RNG_IS_EMPTY\<rparr>, without, ws)
         else
           rbind (bitset_union b subset_without_var) (\<lambda>b.
           rbind (compute_upper_and_lower_bounds L ws (Some b)) (\<lambda>(upper, lower).
           rbind (dt_reset_wsds_var_rng L b var (re_rng r) ws) (\<lambda>ws.
           Inr (\<lparr>lf_upper = upper * re_p r, lf_lower = lower * re_p r, lf_state = SUBSET_VAR_RNG_SHOULD_UNION\<rparr>, without, ws))))))"

fun first_round :: "junk \<Rightarrow> nat \<Rightarrow> bitset \<Rightarrow> bitset option \<Rightarrow> int \<Rightarrow> rngEntry list \<Rightarrow> real \<times> real \<Rightarrow> WSD list \<Rightarrow> (leaf list \<times> WSD list) res" where
  "first_round junk L sub wo var [] without ws = Inr ([], ws)"
| "first_round junk L sub wo var (r # rs) without ws =
     rbind (leaf_bounds junk L sub wo var r without ws) (\<lambda>(lf, without, ws).
     rbind (first_round junk L sub wo var rs without ws) (\<lambda>(lfs, ws).
     Inr (lf # lfs, ws)))"

section \<open>The second round\<close>

type_synonym approx_rec = "bitset option \<Rightarrow> real \<Rightarrow> bound_information \<Rightarrow> int \<Rightarrow> bool \<Rightarrow> ((real \<times> real) \<times> bool) comp"

text \<open>The information passed to the refinement of leaf \<open>i\<close>.\<close>

definition leaf_info :: "bound_information \<Rightarrow> real \<Rightarrow> real \<Rightarrow> real \<Rightarrow> nat \<Rightarrow> leaf \<Rightarrow> leaf list \<Rightarrow> bound_information" where
  "leaf_info info p_right_upper p_right_lower cur_prob i lf lfs =
     (let upper_without_itself = aggregate_upper lfs - lf_upper lf;
          lower_without_itself = aggregate_lower lfs - lf_lower lf;
          condition_upper = condition_aggregate_upper i lfs;
          next_coefficient_lower = coefficient_lower info * (1 - p_right_lower) * cur_prob
      in \<lparr>coefficient_upper = coefficient_upper info * (1 - p_right_upper) * cur_prob,
          constant_upper = constant_upper info + coefficient_upper info *
            (p_right_upper + upper_without_itself - p_right_upper * upper_without_itself),
          coefficient_lower = next_coefficient_lower,
          constant_lower = constant_lower info + coefficient_lower info *
            (p_right_lower + lower_without_itself - p_right_lower * lower_without_itself),
          condition_coefficient_upper = next_coefficient_lower,
          condition_constant_upper = condition_constant_upper info + condition_coefficient_upper info *
            (p_right_lower + condition_upper - p_right_lower * condition_upper)\<rparr>)"

definition refine_leaf :: "approx_rec \<Rightarrow> junk \<Rightarrow> nat \<Rightarrow> bitset \<Rightarrow> bitset option \<Rightarrow> int \<Rightarrow> rngEntry \<Rightarrow> real \<Rightarrow> bound_information \<Rightarrow>
    int \<Rightarrow> leaf \<Rightarrow> bool \<Rightarrow> (leaf \<times> bool) comp" where
  "refine_leaf rec junk L sub subset_without_var var r path_prob info latest_var_column lf flag ws s =
     (case lf_state lf of
        SUBSET_VAR_RNG_IS_NULL \<Rightarrow>
          rbind (rec subset_without_var (path_prob * re_p r) info latest_var_column flag ws s) (\<lambda>(((lower, upper), flag), ws, s).
          Inr ((lf\<lparr>lf_lower := lower * re_p r, lf_upper := upper * re_p r\<rparr>, flag), ws, s))
      | SUBSET_VAR_RNG_IS_EMPTY \<Rightarrow> Inr ((lf, flag), ws, s)
      | SUBSET_VAR_RNG_SHOULD_UNION \<Rightarrow>
          rbind (dt_find_wsds_with_var_rng junk L sub var (re_rng r) ws) (\<lambda>(ws, subset_var_rng).
          rbind (deref subset_var_rng) (\<lambda>b.
          rbind (bitset_union_removing_subsumption junk L ws b subset_without_var) (\<lambda>b.
          rbind (rec (Some b) (path_prob * re_p r) info latest_var_column flag ws s) (\<lambda>(((lower, upper), flag), ws, s).
          rbind (dt_reset_wsds_var_rng L b var (re_rng r) ws) (\<lambda>ws.
          Inr ((lf\<lparr>lf_lower := lower * re_p r, lf_upper := upper * re_p r\<rparr>, flag), ws, s)))))))"

fun second_round :: "approx_rec \<Rightarrow> approach \<Rightarrow> junk \<Rightarrow> nat \<Rightarrow> bitset \<Rightarrow> bitset option \<Rightarrow> int \<Rightarrow> rngEntry list \<Rightarrow> bound_information \<Rightarrow>
    real \<Rightarrow> real \<Rightarrow> real \<Rightarrow> int \<Rightarrow> nat list \<Rightarrow> leaf list \<Rightarrow> bool \<Rightarrow> (leaf list \<times> bool) comp" where
  "second_round rec g junk L sub wo var rs info pru prl path_prob col [] lfs flag ws s = Inr ((lfs, flag), ws, s)"
| "second_round rec g junk L sub wo var rs info pru prl path_prob col (i # is) lfs flag ws s =
     (let whole_upper = whole_bound (coefficient_upper info) (constant_upper info) (aggregate_upper lfs) pru;
          whole_lower = whole_bound (coefficient_lower info) (constant_lower info) (aggregate_lower lfs) prl;
          condition_whole_upper = whole_bound (condition_coefficient_upper info) (condition_constant_upper info)
            (condition_aggregate_upper i lfs) prl
      in if stop_reached g whole_upper whole_lower then Inr ((lfs, True), ws, s)
         else
           rbind (aread lfs i) (\<lambda>lf.
           rbind (aread rs i) (\<lambda>r.
           if can_close g condition_whole_upper whole_lower lf path_prob
           then second_round rec g junk L sub wo var rs info pru prl path_prob col is lfs flag ws s
           else
             rbind (refine_leaf rec junk L sub wo var r path_prob (leaf_info info pru prl (re_p r) i lf lfs) col lf flag ws s)
               (\<lambda>((lf', flag), ws, s).
             if flag then Inr ((lfs[i := lf'], flag), ws, s)
             else second_round rec g junk L sub wo var rs info pru prl path_prob col is (lfs[i := lf']) flag ws s))))"

section \<open>The tree\<close>

text \<open>The left part; no bounds means that the function returns one for both bounds at once.\<close>

definition approx_left :: "approx_rec \<Rightarrow> approach \<Rightarrow> junk \<Rightarrow> nat \<Rightarrow> bitset \<Rightarrow> bound_information \<Rightarrow> real \<Rightarrow> real \<Rightarrow> real \<Rightarrow> int \<Rightarrow> bool \<Rightarrow>
    ((real \<times> real) option \<times> bool) comp" where
  "approx_left rec g junk L sub info pru prl path_prob latest_var_column flag ws s =
     rbind (bitset_test_singleton (Some sub)) (\<lambda>pos.
     if pos \<noteq> - 1 then rbind (aread ws (nat pos)) (\<lambda>d. Inr ((Some (d_prob d, d_prob d), flag), ws, s))
     else
       rbind (choose_var_max_occur_same_column L ws sub latest_var_column s) (\<lambda>(s, entry, new_var_column).
       case entry of
         None \<Rightarrow> Inr ((None, flag), ws, s)
       | Some k \<Rightarrow>
           rbind (aread (wt_entries s) k) (\<lambda>e.
           rbind (dt_find_wsds_without_var junk L ws sub (we_var e)) (\<lambda>subset_without_var.
           rbind (first_round junk L sub subset_without_var (we_var e) (rng_entries e) (- 1, - 1) ws) (\<lambda>(lfs, ws).
           rbind (second_round rec g junk L sub subset_without_var (we_var e) (rng_entries e) info pru prl path_prob
             latest_var_column [0..<length (rng_entries e)] lfs flag ws s) (\<lambda>((lfs, flag), ws, s).
           Inr ((Some (aggregate_lower lfs, aggregate_upper lfs), flag), ws, s)))))))"

definition right_info :: "bound_information \<Rightarrow> real \<Rightarrow> real \<Rightarrow> bound_information" where
  "right_info info p_left_upper p_left_lower =
     (let next_coefficient_upper = coefficient_upper info * (1 - p_left_upper);
          next_constant_upper = constant_upper info + coefficient_upper info * p_left_upper
      in \<lparr>coefficient_upper = next_coefficient_upper,
          constant_upper = next_constant_upper,
          coefficient_lower = coefficient_lower info * (1 - p_left_lower),
          constant_lower = constant_lower info + coefficient_lower info * p_left_lower,
          condition_coefficient_upper = next_coefficient_upper,
          condition_constant_upper = next_constant_upper\<rparr>)"

text \<open>The right part, refined only when the whole tree still has to be, and the bounds of the node.\<close>

definition approx_right :: "approx_rec \<Rightarrow> approach \<Rightarrow> bitset \<Rightarrow> bitset \<Rightarrow> bound_information \<Rightarrow> real \<times> real \<Rightarrow> real \<times> real \<Rightarrow> real \<Rightarrow> int \<Rightarrow>
    bool \<Rightarrow> ((real \<times> real) \<times> bool) comp" where
  "approx_right rec g b sub info left right path_prob latest_var_column flag ws s =
     (let (p_left_lower, p_left_upper) = left; (p_right_lower, p_right_upper) = right;
          whole_upper = whole_bound (coefficient_upper info) (constant_upper info) p_left_upper p_right_upper;
          whole_lower = whole_bound (coefficient_lower info) (constant_lower info) p_left_lower p_right_lower;
          flag = (flag \<or> stop_reached g whole_upper whole_lower)
      in rbind (if \<not> flag \<and> p_right_lower \<noteq> 0
                then rbind (bitset_negate b sub) (\<lambda>sub.
                     rec (Some sub) path_prob (right_info info p_left_upper p_left_lower) latest_var_column flag ws s)
                else Inr ((right, flag), ws, s)) (\<lambda>(((p_right_lower, p_right_upper), flag), ws, s).
         Inr (((p_left_lower + p_right_lower - p_left_lower * p_right_lower,
                p_left_upper + p_right_upper - p_left_upper * p_right_upper), flag), ws, s)))"

primrec decomposition_tree_approximate :: "nat \<Rightarrow> approach \<Rightarrow> junk \<Rightarrow> nat \<Rightarrow> approx_rec" where
  "decomposition_tree_approximate 0 = (\<lambda>g junk L bs path_prob info latest_var_column flag ws s. Inl OutOfFuel)"
| "decomposition_tree_approximate (Suc fuel) = (\<lambda>g junk L bs path_prob info latest_var_column flag ws s.
     rbind (bitset_test_empty bs) (\<lambda>e.
     if e then Inr (((0, 0), flag), ws, s)
     else
       rbind (dt_find_independent_split junk L ws bs) (\<lambda>split.
       rbind (deref split) (\<lambda>sub.
       rbind (deref bs) (\<lambda>b.
       rbind (bitset_negate b sub) (\<lambda>sub.
       rbind (compute_upper_and_lower_bounds L ws (Some sub)) (\<lambda>(p_right_upper, p_right_lower).
       rbind (bitset_negate b sub) (\<lambda>sub.
       rbind (approx_left (decomposition_tree_approximate fuel g junk L) g junk L sub info p_right_upper p_right_lower
         path_prob latest_var_column flag ws s) (\<lambda>((left, flag), ws, s).
       case left of
         None \<Rightarrow> Inr (((1, 1), flag), ws, s)
       | Some bounds \<Rightarrow> approx_right (decomposition_tree_approximate fuel g junk L) g b sub info bounds
           (p_right_lower, p_right_upper) path_prob latest_var_column flag ws s)))))))))"

section \<open>Arithmetic of bounds\<close>

lemma or_mono:
  fixes a b c d :: real
  assumes "0 \<le> a" "a \<le> b" "b \<le> 1" "0 \<le> c" "c \<le> d" "d \<le> 1"
  shows "a + c - a * c \<le> b + d - b * d" "0 \<le> a + c - a * c" "b + d - b * d \<le> 1"
proof -
  have *: "x + y - x * y = 1 - (1 - x) * (1 - y)" for x y :: real by (simp add: algebra_simps)
  have "(1 - b) * (1 - d) \<le> (1 - a) * (1 - c)" using assms by (intro mult_mono) auto
  then show "a + c - a * c \<le> b + d - b * d" unfolding * by simp
  have "(1 - a) * (1 - c) \<le> 1 * 1" using assms by (intro mult_mono) auto
  then show "0 \<le> a + c - a * c" unfolding * by simp
  have "0 \<le> (1 - b) * (1 - d)" using assms by (intro mult_nonneg_nonneg) auto
  then show "b + d - b * d \<le> 1" unfolding * by simp
qed

lemma sum_list_upd:
  fixes f :: "'a \<Rightarrow> real"
  assumes "i < length xs"
  shows "(\<Sum>x\<leftarrow>xs[i := y]. f x) = (\<Sum>x\<leftarrow>xs. f x) - f (xs ! i) + f y"
  using assms
proof (induction xs arbitrary: i)
  case (Cons x xs)
  then show ?case by (cases i) auto
qed simp

text \<open>
  The bookkeeping of the coefficients: the bound of the whole tree computed inside a leaf, or
  inside the right part, is the one the node computes with the new bound in place.
\<close>

lemma leaf_info_whole:
  assumes "i < length lfs" "lf = lfs ! i" "info' = leaf_info info pru prl p i lf lfs"
  shows "coefficient_upper info' * u + constant_upper info' =
      whole_bound (coefficient_upper info) (constant_upper info) (aggregate_upper (lfs[i := lf\<lparr>lf_lower := l * p, lf_upper := u * p\<rparr>])) pru"
    and "coefficient_lower info' * l + constant_lower info' =
      whole_bound (coefficient_lower info) (constant_lower info) (aggregate_lower (lfs[i := lf\<lparr>lf_lower := l * p, lf_upper := u * p\<rparr>])) prl"
  using assms
  by (simp_all add: leaf_info_def Let_def whole_bound_def aggregate_upper_def aggregate_lower_def sum_list_upd algebra_simps)

lemma right_info_whole:
  "coefficient_upper (right_info info plu pll) * u + constant_upper (right_info info plu pll) =
    whole_bound (coefficient_upper info) (constant_upper info) plu u"
  "coefficient_lower (right_info info plu pll) * l + constant_lower (right_info info plu pll) =
    whole_bound (coefficient_lower info) (constant_lower info) pll l"
  by (simp_all add: right_info_def Let_def whole_bound_def algebra_simps)

section \<open>Leaves\<close>

text \<open>What the first round records of the search for a range value.\<close>

definition leaf_found :: "junk \<Rightarrow> nat \<Rightarrow> bitset \<Rightarrow> int \<Rightarrow> WSD list \<Rightarrow> rngEntry \<Rightarrow> rng_state \<Rightarrow> bool" where
  "leaf_found junk L b v ws r st \<longleftrightarrow> (\<exists>us res. find_wsds_with_var_rng junk L b v (re_rng r) ws = Inr (us, res) \<and>
     (case st of SUBSET_VAR_RNG_IS_NULL \<Rightarrow> res = None
      | SUBSET_VAR_RNG_IS_EMPTY \<Rightarrow> res \<noteq> None \<and> bitset_test_empty res = Inr True
      | SUBSET_VAR_RNG_SHOULD_UNION \<Rightarrow> res \<noteq> None \<and> bitset_test_empty res = Inr False))"

definition leaf_ok :: "wtable \<Rightarrow> (int \<Rightarrow> real) \<Rightarrow> rngEntry \<Rightarrow> leaf \<Rightarrow> bool" where
  "leaf_ok W q r lf \<longleftrightarrow> 0 \<le> lf_lower lf \<and> lf_lower lf \<le> re_p r * q (re_rng r) \<and> re_p r * q (re_rng r) \<le> lf_upper lf \<and>
     lf_upper lf \<le> re_p r"

lemma leaf_ok_scaled:
  assumes "0 \<le> re_p r" "0 \<le> l" "l \<le> q (re_rng r)" "q (re_rng r) \<le> u" "u \<le> 1"
  shows "0 \<le> l * re_p r" "l * re_p r \<le> re_p r * q (re_rng r)" "re_p r * q (re_rng r) \<le> u * re_p r" "u * re_p r \<le> re_p r"
  using assms mult_right_mono [of l "q (re_rng r)" "re_p r"] mult_right_mono [of "q (re_rng r)" u "re_p r"]
    mult_right_mono [of u 1 "re_p r"] by (simp_all add: mult.commute)

text \<open>The setting of a node: the chosen variable \<open>v\<close> occurs in the dependent set \<open>X\<close> of bitset \<open>b\<close>.\<close>

definition node_ok :: "nat \<Rightarrow> wtable \<Rightarrow> WSD list \<Rightarrow> nat set \<Rightarrow> bitset \<Rightarrow> bitset option \<Rightarrow> int \<Rightarrow> bool" where
  "node_ok L W ws X b wo v \<longleftrightarrow> 0 < L \<and> wt_ok W \<and> dt_pre L W ws X \<and> bs_raw b (length ws) \<and> bset b = X \<and>
     grown (length ws) wo {i \<in> X. v \<notin> allvars (ws ! i)} \<and> (\<exists>i0 \<in> X. v \<in> lvars (ws ! i0))"

abbreviation val_prob :: "wtable \<Rightarrow> WSD list \<Rightarrow> nat set \<Rightarrow> int \<Rightarrow> int \<Rightarrow> real" where
  "val_prob W ws X v r \<equiv> Pr W (\<lambda>\<tau>. dnf ws X (\<tau>(v := r)))"

definition without_ok :: "wtable \<Rightarrow> WSD list \<Rightarrow> nat set \<Rightarrow> int \<Rightarrow> real \<times> real \<Rightarrow> bool" where
  "without_ok W ws X v w \<longleftrightarrow> fst w = - 1 \<or>
     (0 \<le> snd w \<and> snd w \<le> Pr W (dnf ws {i \<in> X. v \<notin> allvars (ws ! i)}) \<and>
      Pr W (dnf ws {i \<in> X. v \<notin> allvars (ws ! i)}) \<le> fst w \<and> fst w \<le> 1)"

lemma node_okD:
  assumes "node_ok L W ws X b wo v"
  shows "wt_ok W" "tree_pre L W ws X" "bs_raw b (length ws)" "bset b = X" "dt_pre L W ws X" "0 < L"
    "grown (length ws) wo {i \<in> X. v \<notin> allvars (ws ! i)}" "\<And>i. i < length ws \<Longrightarrow> wsd_inv L W (ws ! i)"
  using assms by (auto simp: node_ok_def dt_pre_def tree_pre_def)

lemma leaf_bounds_ok:
  assumes node: "node_ok L W ws X b wo v" and r: "re_rng r \<noteq> - 1" "0 \<le> re_p r" and w: "without_ok W ws X v w"
  shows "ok (leaf_bounds junk L b wo v r w ws) (\<lambda>(lf, w', us). us = ws \<and> without_ok W ws X v w' \<and>
    leaf_found junk L b v ws r (lf_state lf) \<and> leaf_ok W (val_prob W ws X v) r lf)"
proof -
  let ?X0 = "{i \<in> X. v \<notin> allvars (ws ! i)}" and ?q = "val_prob W ws X v (re_rng r)"
  note N = node_okD [OF node]
  obtain i0 where i0: "i0 \<in> X" "v \<in> lvars (ws ! i0)" using node by (auto simp: node_ok_def)
  have eq: "dt_find_wsds_with_var_rng junk L b v (re_rng r) ws = find_wsds_with_var_rng junk L b v (re_rng r) ws"
    by (rule dt_find_eq [OF N(8) N(3) r(1)])
  have bounds: "ok (compute_upper_and_lower_bounds L us bs) (\<lambda>(u, l). 0 \<le> l \<and> l \<le> Pr W (dnf us Z) \<and> Pr W (dnf us Z) \<le> u \<and> u \<le> 1)"
    if "oset (length us) bs Z" "tree_pre L W us Z" for us bs Z
    by (rule compute_upper_and_lower_bounds_ok [OF N(1) _ that(1) N(6)]) (use that(2) in \<open>simp add: tree_pre_def\<close>)
  show ?thesis
  proof (cases rule: elimination_cases [OF N(1-4) i0 r(1), of junk, case_names none certain drop])
    case none
    have "ok (if fst w = - 1 then compute_upper_and_lower_bounds L ws wo else Inr w) (\<lambda>w'. fst w' \<noteq> - 1 \<and> without_ok W ws X v w')"
    proof (cases "fst w = - 1")
      case True
      have "ok (compute_upper_and_lower_bounds L ws wo) (\<lambda>(u, l). 0 \<le> l \<and> l \<le> Pr W (dnf ws ?X0) \<and> Pr W (dnf ws ?X0) \<le> u \<and> u \<le> 1)"
        by (rule bounds [OF grown_oset [OF N(7)] tree_pre_subset [OF N(2)]]) blast
      then show ?thesis using True by (auto simp: without_ok_def elim!: ok_mono)
    qed (use w in simp)
    then obtain w' where w': "(if fst w = - 1 then compute_upper_and_lower_bounds L ws wo else Inr w) = Inr w'"
      "fst w' \<noteq> - 1" "without_ok W ws X v w'" by (elim ok_E) blast
    then have b: "0 \<le> snd w'" "snd w' \<le> ?q" "?q \<le> fst w'" "fst w' \<le> 1" using none(2) by (simp_all add: without_ok_def)
    note sc = leaf_ok_scaled [of r "snd w'" "val_prob W ws X v" "fst w'", OF r(2) b]
    show ?thesis
      using none(1) w' sc unfolding leaf_bounds_def eq
      by (simp add: leaf_found_def leaf_ok_def mult.commute del: fun_upd_apply)
  next
    case (certain c)
    then show ?thesis using w r(2) unfolding leaf_bounds_def eq by (simp add: leaf_found_def leaf_ok_def del: fun_upd_apply)
  next
    case (drop c Y)
    obtain u where u: "bitset_union c wo = Inr u" "bs_inv u (length ws)" "bset u = Y \<union> ?X0"
      using bitset_union_grown [OF drop(3) N(7)] drop(4) by (auto elim!: ok_E)
    have "ok (compute_upper_and_lower_bounds L (dropped v Y ws) (Some u)) (\<lambda>(up, lo). 0 \<le> lo \<and>
        lo \<le> Pr W (dnf (dropped v Y ws) (Y \<union> ?X0)) \<and> Pr W (dnf (dropped v Y ws) (Y \<union> ?X0)) \<le> up \<and> up \<le> 1)"
      by (rule bounds) (use u tree_pre_dropped [OF N(2) r(1) drop(6)] in \<open>auto simp: oset_def\<close>)
    then obtain up lo where b: "compute_upper_and_lower_bounds L (dropped v Y ws) (Some u) = Inr (up, lo)"
      "0 \<le> lo" "lo \<le> ?q" "?q \<le> up" "up \<le> 1" using drop(7) by (auto elim!: ok_E)
    note sc = leaf_ok_scaled [of r lo "val_prob W ws X v" up, OF r(2) b(2-5)]
    have "reset_wsds_var_rng L u v (re_rng r) (dropped v Y ws) = Inr ws" by (rule drop(8)) (use u in auto)
    then show ?thesis
      using drop(1,2) u(1) b(1) w sc unfolding leaf_bounds_def eq by (simp add: leaf_found_def leaf_ok_def del: fun_upd_apply)
  qed
qed

definition leaves_ok :: "junk \<Rightarrow> nat \<Rightarrow> wtable \<Rightarrow> WSD list \<Rightarrow> nat set \<Rightarrow> bitset \<Rightarrow> int \<Rightarrow> rngEntry list \<Rightarrow> leaf list \<Rightarrow> bool" where
  "leaves_ok junk L W ws X b v rs lfs \<longleftrightarrow>
     list_all2 (\<lambda>r lf. leaf_found junk L b v ws r (lf_state lf) \<and> leaf_ok W (val_prob W ws X v) r lf) rs lfs"

lemma first_round_ok:
  assumes node: "node_ok L W ws X b wo v" and rs: "\<forall>r \<in> set rs. re_rng r \<noteq> - 1 \<and> 0 \<le> re_p r" and w: "without_ok W ws X v w"
  shows "ok (first_round junk L b wo v rs w ws) (\<lambda>(lfs, us). us = ws \<and> leaves_ok junk L W ws X b v rs lfs)"
  using rs w
proof (induction rs arbitrary: w)
  case (Cons r rs)
  obtain lf w' where lf: "leaf_bounds junk L b wo v r w ws = Inr (lf, w', ws)" "without_ok W ws X v w'"
    "leaf_found junk L b v ws r (lf_state lf)" "leaf_ok W (val_prob W ws X v) r lf"
    using leaf_bounds_ok [OF node, of r w junk] Cons.prems by (auto elim!: ok_E)
  have "ok (first_round junk L b wo v rs w' ws) (\<lambda>(lfs, us). us = ws \<and> leaves_ok junk L W ws X b v rs lfs)"
    using Cons.IH [OF _ lf(2)] Cons.prems(1) by simp
  then show ?case using lf by (auto simp: leaves_ok_def elim!: ok_mono)
qed (simp add: leaves_ok_def)

lemma leaves_sum:
  assumes "list_all2 (leaf_ok W q) rs lfs"
  shows "0 \<le> aggregate_lower lfs" "aggregate_lower lfs \<le> (\<Sum>r\<leftarrow>rs. re_p r * q (re_rng r))"
    "(\<Sum>r\<leftarrow>rs. re_p r * q (re_rng r)) \<le> aggregate_upper lfs" "aggregate_upper lfs \<le> (\<Sum>r\<leftarrow>rs. re_p r)"
  using assms by (induction rule: list_all2_induct) (auto simp: aggregate_lower_def aggregate_upper_def leaf_ok_def)

section \<open>Refinement\<close>

text \<open>
  What a call is to achieve: bounds around the probability, and if it sets the flag, bounds of
  the whole tree that meet the stopping condition.
\<close>

definition approx_post :: "approach \<Rightarrow> wtable \<Rightarrow> WSD list \<Rightarrow> nat set \<Rightarrow> bound_information \<Rightarrow> (real \<times> real) \<times> bool \<Rightarrow> bool" where
  "approx_post g W ws X info = (\<lambda>((lower, upper), flag).
     0 \<le> lower \<and> lower \<le> Pr W (dnf ws X) \<and> Pr W (dnf ws X) \<le> upper \<and> upper \<le> 1 \<and>
     (flag \<longrightarrow> stop_reached g (coefficient_upper info * upper + constant_upper info)
                              (coefficient_lower info * lower + constant_lower info)))"

definition approximates :: "approach \<Rightarrow> approx_rec \<Rightarrow> nat \<Rightarrow> nat \<Rightarrow> wtable \<Rightarrow> bool" where
  "approximates g rec N L W \<longleftrightarrow> (\<forall>bs path_prob info col ws s X. oset (length ws) bs X \<longrightarrow> dt_pre L W ws X \<longrightarrow> wt_dist s = W \<longrightarrow>
     tree_size ws X < N \<longrightarrow>
     ok (rec bs path_prob info col False ws s) (\<lambda>(r, us, t). approx_post g W ws X info r \<and> us = ws \<and> wt_dist t = W))"

lemma approximatesD:
  "approximates g rec N L W \<Longrightarrow> oset (length ws) bs X \<Longrightarrow> dt_pre L W ws X \<Longrightarrow> wt_dist s = W \<Longrightarrow> tree_size ws X < N \<Longrightarrow>
    ok (rec bs path_prob info col False ws s) (\<lambda>(r, us, t). approx_post g W ws X info r \<and> us = ws \<and> wt_dist t = W)"
  unfolding approximates_def by blast

text \<open>A refined leaf: new bounds, and the flag only with the condition at the call's bounds.\<close>

definition refined :: "approach \<Rightarrow> wtable \<Rightarrow> (int \<Rightarrow> real) \<Rightarrow> rngEntry \<Rightarrow> bound_information \<Rightarrow> leaf \<Rightarrow> leaf \<times> bool \<Rightarrow> bool" where
  "refined g W q r info lf = (\<lambda>(lf', flag). leaf_ok W q r lf' \<and> lf_state lf' = lf_state lf \<and>
     (flag \<longrightarrow> (\<exists>l u. lf' = lf\<lparr>lf_lower := l * re_p r, lf_upper := u * re_p r\<rparr> \<and>
        stop_reached g (coefficient_upper info * u + constant_upper info) (coefficient_lower info * l + constant_lower info))))"

lemma refined_post:
  assumes "approx_post g W us Z info ((l, u), fl)" "q (re_rng r) = Pr W (dnf us Z)" "0 \<le> re_p r"
  shows "refined g W q r info lf (lf\<lparr>lf_lower := l * re_p r, lf_upper := u * re_p r\<rparr>, fl)"
proof -
  have b: "0 \<le> l" "l \<le> q (re_rng r)" "q (re_rng r) \<le> u" "u \<le> 1" using assms(1,2) by (simp_all add: approx_post_def)
  have "\<exists>l' u'. lf\<lparr>lf_lower := l * re_p r, lf_upper := u * re_p r\<rparr> = lf\<lparr>lf_lower := l' * re_p r, lf_upper := u' * re_p r\<rparr> \<and>
      stop_reached g (coefficient_upper info * u' + constant_upper info) (coefficient_lower info * l' + constant_lower info)" if fl
    using assms(1) that by (intro exI [of _ l] exI [of _ u]) (simp add: approx_post_def)
  then show ?thesis
    using leaf_ok_scaled [of r l q u, OF assms(3) b] by (simp add: refined_def leaf_ok_def)
qed

lemma refine_leaf_ok:
  assumes rec: "approximates g rec N L W" and node: "node_ok L W ws X b wo v" and N: "tree_size ws X \<le> N"
    and r: "re_rng r \<noteq> - 1" "0 \<le> re_p r" and s: "wt_dist s = W"
    and lf: "leaf_found junk L b v ws r (lf_state lf)" "leaf_ok W (val_prob W ws X v) r lf"
  shows "ok (refine_leaf rec junk L b wo v r path_prob info col lf False ws s) (\<lambda>(lfl, us, t).
    refined g W (val_prob W ws X v) r info lf lfl \<and> us = ws \<and> wt_dist t = W)"
proof -
  let ?X0 = "{i \<in> X. v \<notin> allvars (ws ! i)}" and ?q = "val_prob W ws X v"
  note D = node_okD [OF node]
  obtain i0 where i0: "i0 \<in> X" "v \<in> lvars (ws ! i0)" using node by (auto simp: node_ok_def)
  have eq: "dt_find_wsds_with_var_rng junk L b v (re_rng r) ws = find_wsds_with_var_rng junk L b v (re_rng r) ws"
    by (rule dt_find_eq [OF D(8) D(3) r(1)])
  show ?thesis
  proof (cases rule: elimination_cases [OF D(1-4) i0 r(1), of junk, case_names none certain drop])
    case none
    then have st: "lf_state lf = SUBSET_VAR_RNG_IS_NULL" using lf(1) by (auto simp: leaf_found_def split: rng_state.splits)
    have "ok (rec wo (path_prob * re_p r) info col False ws s) (\<lambda>(p, us, t). approx_post g W ws ?X0 info p \<and> us = ws \<and> wt_dist t = W)"
      using dt_pre_subset [OF D(5), of ?X0] tree_size_without [OF D(2) i0] N
      by (intro approximatesD [OF rec grown_oset [OF D(7)]]) (auto simp: s)
    then show ?thesis
      using refined_post [of g W ws ?X0 info _ _ _ ?q r lf] none(2) r(2)
      by (auto simp: refine_leaf_def st simp del: fun_upd_apply elim!: ok_mono)
  next
    case (certain c)
    then have st: "lf_state lf = SUBSET_VAR_RNG_IS_EMPTY" using lf(1) by (auto simp: leaf_found_def split: rng_state.splits)
    then show ?thesis using lf(2) s by (simp add: refine_leaf_def refined_def)
  next
    case (drop c Y)
    then have st: "lf_state lf = SUBSET_VAR_RNG_SHOULD_UNION" using lf(1) by (auto simp: leaf_found_def split: rng_state.splits)
    obtain u where u: "bitset_union_removing_subsumption junk L (dropped v Y ws) c wo = Inr u" "bs_inv u (length ws)"
      "Y \<subseteq> bset u" "bset u \<subseteq> Y \<union> ?X0" "dnf (dropped v Y ws) (bset u) = dnf (dropped v Y ws) (Y \<union> ?X0)"
      "tree_size (dropped v Y ws) (bset u) < tree_size ws X" "dt_pre L W (dropped v Y ws) (bset u)"
      using union_removing_dropped [OF D(5) r(1) drop(6,5,3,4) D(7), of junk] by (auto elim!: ok_E)
    have q: "?q (re_rng r) = Pr W (dnf (dropped v Y ws) (bset u))" using drop(7) u(5) by (simp del: fun_upd_apply)
    have "ok (rec (Some u) (path_prob * re_p r) info col False (dropped v Y ws) s) (\<lambda>(p, us', t).
        approx_post g W (dropped v Y ws) (bset u) info p \<and> us' = dropped v Y ws \<and> wt_dist t = W)"
      by (rule approximatesD [OF rec]) (use u drop(5) N s in \<open>auto simp: oset_def\<close>)
    then obtain l up fl t where rr: "rec (Some u) (path_prob * re_p r) info col False (dropped v Y ws) s = Inr (((l, up), fl), dropped v Y ws, t)"
      "approx_post g W (dropped v Y ws) (bset u) info ((l, up), fl)" "wt_dist t = W" by (auto elim!: ok_E)
    have "reset_wsds_var_rng L u v (re_rng r) (dropped v Y ws) = Inr ws" by (rule drop(8)) (use u in auto)
    then have "refine_leaf rec junk L b wo v r path_prob info col lf False ws s =
        Inr ((lf\<lparr>lf_lower := l * re_p r, lf_upper := up * re_p r\<rparr>, fl), ws, t)"
      using drop(1) u(1) rr(1) by (simp add: refine_leaf_def st eq)
    moreover have "refined g W ?q r info lf (lf\<lparr>lf_lower := l * re_p r, lf_upper := up * re_p r\<rparr>, fl)"
      using refined_post [of g W "dropped v Y ws" "bset u" info l up fl ?q r lf] rr(2) q r(2) by blast
    ultimately show ?thesis using rr(3) by simp
  qed
qed

definition node_stop :: "approach \<Rightarrow> bound_information \<Rightarrow> real \<Rightarrow> real \<Rightarrow> leaf list \<Rightarrow> bool" where
  "node_stop g info pru prl lfs = stop_reached g
     (whole_bound (coefficient_upper info) (constant_upper info) (aggregate_upper lfs) pru)
     (whole_bound (coefficient_lower info) (constant_lower info) (aggregate_lower lfs) prl)"

lemma refined_stop:
  assumes "refined g W q r (leaf_info info pru prl (re_p r) i lf lfs) lf (lf', True)" "i < length lfs" "lf = lfs ! i"
  shows "node_stop g info pru prl (lfs[i := lf'])"
proof -
  obtain l u where "lf' = lf\<lparr>lf_lower := l * re_p r, lf_upper := u * re_p r\<rparr>"
    "stop_reached g (coefficient_upper (leaf_info info pru prl (re_p r) i lf lfs) * u + constant_upper (leaf_info info pru prl (re_p r) i lf lfs))
      (coefficient_lower (leaf_info info pru prl (re_p r) i lf lfs) * l + constant_lower (leaf_info info pru prl (re_p r) i lf lfs))"
    using assms(1) by (auto simp: refined_def)
  then show ?thesis unfolding node_stop_def leaf_info_whole [OF assms(2,3) refl, where l = l and u = u] by simp
qed

lemma second_round_ok:
  assumes rec: "approximates g rec N L W" and node: "node_ok L W ws X b wo v" and N: "tree_size ws X \<le> N"
    and rs: "\<forall>r \<in> set rs. re_rng r \<noteq> - 1 \<and> 0 \<le> re_p r" and s: "wt_dist s = W"
    and lfs: "leaves_ok junk L W ws X b v rs lfs" and js: "\<forall>i \<in> set js. i < length rs"
  shows "ok (second_round rec g junk L b wo v rs info pru prl path_prob col js lfs False ws s) (\<lambda>((lfs', fl), us, t).
    leaves_ok junk L W ws X b v rs lfs' \<and> (fl \<longrightarrow> node_stop g info pru prl lfs') \<and> us = ws \<and> wt_dist t = W)"
  using s lfs js
proof (induction js arbitrary: lfs s)
  case (Cons i js)
  have len: "length lfs = length rs" using Cons.prems(2) by (simp add: leaves_ok_def list_all2_lengthD)
  have i: "i < length rs" "i < length lfs" using Cons.prems(3) len by simp_all
  let ?lf = "lfs ! i" and ?r = "rs ! i"
  have lf: "leaf_found junk L b v ws ?r (lf_state ?lf)" "leaf_ok W (val_prob W ws X v) ?r ?lf"
    using list_all2_nthD [OF Cons.prems(2) [unfolded leaves_ok_def] i(1)] by simp_all
  have r: "re_rng ?r \<noteq> - 1" "0 \<le> re_p ?r" using rs i(1) by simp_all
  let ?info = "leaf_info info pru prl (re_p ?r) i ?lf lfs"
  let ?cl = "can_close g (whole_bound (condition_coefficient_upper info) (condition_constant_upper info) (condition_aggregate_upper i lfs) prl)
    (whole_bound (coefficient_lower info) (constant_lower info) (aggregate_lower lfs) prl) ?lf path_prob"
  obtain lf' fl t where rf: "refine_leaf rec junk L b wo v ?r path_prob ?info col ?lf False ws s = Inr ((lf', fl), ws, t)"
    "refined g W (val_prob W ws X v) ?r ?info ?lf (lf', fl)" "wt_dist t = W"
    using refine_leaf_ok [OF rec node N r Cons.prems(1) lf, of path_prob ?info col] by (auto elim!: ok_E)
  have upd: "leaves_ok junk L W ws X b v rs (lfs[i := lf'])"
  proof -
    have "list_all2 (\<lambda>r lf. leaf_found junk L b v ws r (lf_state lf) \<and> leaf_ok W (val_prob W ws X v) r lf) (rs[i := ?r]) (lfs[i := lf'])"
      using Cons.prems(2) rf(2) lf(1) unfolding leaves_ok_def by (intro list_all2_update_cong) (auto simp: refined_def)
    then show ?thesis by (simp add: leaves_ok_def)
  qed
  have stop: "second_round rec g junk L b wo v rs info pru prl path_prob col (i # js) lfs False ws s =
      (if node_stop g info pru prl lfs then Inr ((lfs, True), ws, s)
       else if ?cl then second_round rec g junk L b wo v rs info pru prl path_prob col js lfs False ws s
       else if fl then Inr ((lfs[i := lf'], fl), ws, t)
       else second_round rec g junk L b wo v rs info pru prl path_prob col js (lfs[i := lf']) False ws t)"
    using i rf(1) by (simp add: Let_def node_stop_def)
  have IH: "ok (second_round rec g junk L b wo v rs info pru prl path_prob col js lfs' False ws s') (\<lambda>((lfs', fl), us, t).
      leaves_ok junk L W ws X b v rs lfs' \<and> (fl \<longrightarrow> node_stop g info pru prl lfs') \<and> us = ws \<and> wt_dist t = W)"
    if "wt_dist s' = W" "leaves_ok junk L W ws X b v rs lfs'" for lfs' s'
    using Cons.IH [OF that] Cons.prems(3) by simp
  have "node_stop g info pru prl (lfs[i := lf'])" if "fl" using refined_stop [OF _ i(2) refl] rf(2) that by simp
  then show ?case unfolding stop using IH [OF Cons.prems(1,2)] IH [OF rf(3) upd] Cons.prems(1,2) upd rf(3) by simp
qed simp

section \<open>The tree\<close>

lemma leaves_ok_bounds:
  assumes "leaves_ok junk L W ws X b v rs lfs"
  shows "list_all2 (leaf_ok W (val_prob W ws X v)) rs lfs"
  using assms unfolding leaves_ok_def by (rule list_all2_mono) simp

lemma approx_left_ok:
  assumes rec: "approximates g rec N L W" and L: "0 < L" and W: "wt_ok W" "wt_rngs_ok W" and pre: "dt_pre L W ws X" and N: "tree_size ws X \<le> N"
    and b: "bs_inv b (length ws)" "bset b = X" "X \<noteq> {}" and s: "wt_dist s = W"
  shows "ok (approx_left rec g junk L b info pru prl path_prob col False ws s) (\<lambda>((res, fl), us, t). us = ws \<and> wt_dist t = W \<and>
    (case res of None \<Rightarrow> Pr W (dnf ws X) = 1 \<and> \<not> fl
     | Some (l, u) \<Rightarrow> 0 \<le> l \<and> l \<le> Pr W (dnf ws X) \<and> Pr W (dnf ws X) \<le> u \<and> u \<le> 1 \<and>
         (fl \<longrightarrow> stop_reached g (whole_bound (coefficient_upper info) (constant_upper info) u pru)
                               (whole_bound (coefficient_lower info) (constant_lower info) l prl))))"
proof -
  let ?n = "length ws"
  have tp: "tree_pre L W ws X" "entries_at W ws" using pre by (simp_all add: dt_pre_def)
  have inv: "\<And>i. i < ?n \<Longrightarrow> wsd_inv L W (ws ! i)" using tp(1) by (auto simp: tree_pre_def)
  have raw: "bs_raw b ?n" using b by simp
  show ?thesis
  proof (cases "card X = 1")
    case True
    then obtain k where "k < ?n" "bitset_test_singleton (Some b) = Inr (int k)" "Pr W (dnf ws X) = d_prob (ws ! k)"
      using single_wsd [OF W(1) tp(1) raw b(2)] by auto
    then show ?thesis using s Pr_nonneg [OF W(1), of "dnf ws X"] Pr_le_1 [OF W(1), of "dnf ws X"] by (simp add: approx_left_def)
  next
    case False
    have ts: "bitset_test_singleton (Some b) = Inr (- 1)" using bitset_test_singleton_eq [OF raw] b(2) False by simp
    obtain t res col' where ch: "choose_var_max_occur_same_column L ws b col s = Inr (t, res, col')" "wt_dist t = W"
      "case res of None \<Rightarrow> \<forall>i \<in> X. lvars (ws ! i) = {}
       | Some k \<Rightarrow> col' \<noteq> None \<and> k < length (wt_entries t) \<and> (\<exists>i \<in> X. we_var (wt_entries t ! k) \<in> lvars (ws ! i))"
      using choose_max_ok [OF inv tp(2) raw s, of col] b(2) by (auto elim!: ok_E)
    show ?thesis
    proof (cases res)
      case None
      then show ?thesis using ts ch no_live_var [OF b(3) _ W(1)] by (simp add: approx_left_def)
    next
      case (Some k)
      let ?e = "wt_entries t ! k"
      let ?v = "we_var ?e" and ?rs = "rng_entries ?e"
      have k: "k < length (wt_entries t)" "\<exists>i0 \<in> X. ?v \<in> lvars (ws ! i0)" using ch(3) Some by auto
      note e = chosen_var [OF W ch(2) k(1)]
      have rs: "\<forall>r \<in> set ?rs. re_rng r \<noteq> - 1 \<and> 0 \<le> re_p r" using e(1,3) by (auto simp: dist_ok_def)
      have tot: "(\<Sum>r\<leftarrow>?rs. re_p r) = 1" using e(3) by (simp add: dist_ok_def comp_def)
      obtain wo where wo: "find_wsds_without_var junk L ws b ?v = Inr wo" "grown ?n wo {i \<in> X. ?v \<notin> allvars (ws ! i)}"
        using find_wsds_without_var_ok [of ws L b junk ?v] inv raw b(2) by (auto simp: wsd_inv_def elim!: ok_E)
      have node: "node_ok L W ws X b wo ?v" using L W(1) pre raw b(2) wo(2) k(2) by (simp add: node_ok_def)
      obtain lfs where f: "first_round junk L b wo ?v ?rs (- 1, - 1) ws = Inr (lfs, ws)" "leaves_ok junk L W ws X b ?v ?rs lfs"
        using first_round_ok [OF node rs, of "(- 1, - 1)" junk] by (auto simp: without_ok_def elim!: ok_E)
      obtain lfs' fl t' where sr: "second_round rec g junk L b wo ?v ?rs info pru prl path_prob col [0..<length ?rs] lfs False ws t =
          Inr ((lfs', fl), ws, t')" "leaves_ok junk L W ws X b ?v ?rs lfs'" "fl \<longrightarrow> node_stop g info pru prl lfs'" "wt_dist t' = W"
        using second_round_ok [OF rec node N rs ch(2) f(2), of "[0..<length ?rs]" info pru prl path_prob col] by (auto elim!: ok_E)
      note S = leaves_sum [OF leaves_ok_bounds [OF sr(2)], unfolded e(2) tot]
      have "approx_left rec g junk L b info pru prl path_prob col False ws s =
          Inr ((Some (aggregate_lower lfs', aggregate_upper lfs'), fl), ws, t')"
        using ts ch(1) Some k(1) wo(1) f(1) sr(1) by (simp add: approx_left_def)
      then show ?thesis using S sr(3,4) by (simp add: node_stop_def)
    qed
  qed
qed

text \<open>The bounds of two independent parts combine to bounds of their union.\<close>

lemma approx_post_or:
  assumes W: "wt_ok W"
    and split: "Pr W (dnf ws X) = Pr W (dnf ws Y) + Pr W (dnf ws Z) - Pr W (dnf ws Y) * Pr W (dnf ws Z)"
    and pl: "0 \<le> pll" "pll \<le> Pr W (dnf ws Y)" "Pr W (dnf ws Y) \<le> plu" "plu \<le> 1"
    and pr: "0 \<le> prl" "prl \<le> Pr W (dnf ws Z)" "Pr W (dnf ws Z) \<le> pru" "pru \<le> 1"
    and fl: "fl \<longrightarrow> stop_reached g (whole_bound (coefficient_upper info) (constant_upper info) plu pru)
              (whole_bound (coefficient_lower info) (constant_lower info) pll prl)"
  shows "approx_post g W ws X info ((pll + prl - pll * prl, plu + pru - plu * pru), fl)"
proof -
  have p1: "Pr W (dnf ws Y) \<le> 1" "Pr W (dnf ws Z) \<le> 1" "0 \<le> Pr W (dnf ws Y)" "0 \<le> Pr W (dnf ws Z)"
    by (rule Pr_le_1 [OF W] Pr_nonneg [OF W])+
  show ?thesis
    using or_mono [OF pl(1,2) p1(1) pr(1,2) p1(2)] or_mono [OF p1(3) pl(3,4) p1(4) pr(3,4)] fl
    unfolding approx_post_def split by (simp add: whole_bound_def)
qed

lemma approx_right_ok:
  assumes rec: "approximates g rec N L W" and W: "wt_ok W" and pre: "dt_pre L W ws Z" and N: "tree_size ws Z < N"
    and split: "Pr W (dnf ws X) = Pr W (dnf ws Y) + Pr W (dnf ws Z) - Pr W (dnf ws Y) * Pr W (dnf ws Z)"
    and neg: "ok (bitset_negate b sub) (\<lambda>d. bs_inv d (length ws) \<and> bset d = Z)" and s: "wt_dist s = W"
    and pl: "0 \<le> pll" "pll \<le> Pr W (dnf ws Y)" "Pr W (dnf ws Y) \<le> plu" "plu \<le> 1"
    and pr: "0 \<le> prl" "prl \<le> Pr W (dnf ws Z)" "Pr W (dnf ws Z) \<le> pru" "pru \<le> 1"
    and fl: "fl \<longrightarrow> stop_reached g (whole_bound (coefficient_upper info) (constant_upper info) plu pru)
              (whole_bound (coefficient_lower info) (constant_lower info) pll prl)"
  shows "ok (approx_right rec g b sub info (pll, plu) (prl, pru) path_prob col fl ws s)
    (\<lambda>(r, us, t). approx_post g W ws X info r \<and> us = ws \<and> wt_dist t = W)"
proof (cases "\<not> (fl \<or> stop_reached g (whole_bound (coefficient_upper info) (constant_upper info) plu pru)
    (whole_bound (coefficient_lower info) (constant_lower info) pll prl)) \<and> prl \<noteq> 0")
  case False
  note post = approx_post_or [OF W split pl pr, of _ g info]
  show ?thesis unfolding approx_right_def using post fl s False by (auto simp: Let_def)
next
  case True
  obtain d where d: "bitset_negate b sub = Inr d" "bs_inv d (length ws)" "bset d = Z" using neg by (auto elim!: ok_E)
  have "ok (rec (Some d) path_prob (right_info info plu pll) col False ws s)
      (\<lambda>(r, us, t). approx_post g W ws Z (right_info info plu pll) r \<and> us = ws \<and> wt_dist t = W)"
    by (rule approximatesD [OF rec]) (use d N s pre in \<open>auto simp: oset_def\<close>)
  then obtain lo up f t where rr: "rec (Some d) path_prob (right_info info plu pll) col False ws s = Inr (((lo, up), f), ws, t)"
    "approx_post g W ws Z (right_info info plu pll) ((lo, up), f)" "wt_dist t = W" by (auto elim!: ok_E)
  have "approx_post g W ws X info ((pll + lo - pll * lo, plu + up - plu * up), f)"
    by (rule approx_post_or [OF W split pl]) (use rr(2) in \<open>simp_all add: approx_post_def right_info_whole\<close>)
  then show ?thesis unfolding approx_right_def using True d(1) rr(1,3) by (simp add: Let_def)
qed

lemma dt_approx_bounds:
  assumes W: "wt_ok W" "wt_rngs_ok W" and L: "0 < L"
  shows "approximates g (decomposition_tree_approximate fuel g junk L) fuel L W"
proof (induction fuel)
  case 0
  show ?case by (simp add: approximates_def)
next
  case (Suc fuel)
  show ?case unfolding approximates_def
  proof (intro allI impI)
    fix bs path_prob info col ws s X
    assume bs: "oset (length ws) bs X" and pre: "dt_pre L W ws X" and s: "wt_dist s = W" and N: "tree_size ws X < Suc fuel"
    let ?rec = "decomposition_tree_approximate fuel g junk L"
    let ?post = "\<lambda>(r, us, t). approx_post g W ws X info r \<and> us = ws \<and> wt_dist t = W"
    have te: "bitset_test_empty bs = Inr (X = {})" by (rule oset_test_empty [OF bs])
    have tp: "tree_pre L W ws X" using pre by (simp add: dt_pre_def)
    have inv: "\<And>i. i < length ws \<Longrightarrow> wsd_inv L W (ws ! i)" using tp by (simp add: tree_pre_def)
    show "ok (decomposition_tree_approximate (Suc fuel) g junk L bs path_prob info col False ws s) ?post"
    proof (cases "X = {}")
      case True
      then show ?thesis using te s by (simp add: approx_post_def)
    next
      case False
      obtain b c where c: "bs = Some b" "bset b = X" "bs_raw b (length ws)"
        "find_independent_split junk L ws bs = Inr (Some c)" "bs_inv c (length ws)" "bset c \<subseteq> X" "bset c \<noteq> {}"
        "tree_size ws (bset c) \<le> tree_size ws X" "tree_size ws (X - bset c) < tree_size ws X"
        "Pr W (dnf ws X) = Pr W (dnf ws (bset c)) + Pr W (dnf ws (X - bset c)) - Pr W (dnf ws (bset c)) * Pr W (dnf ws (X - bset c))"
        "\<forall>c'. bs_inv c' (length ws) \<longrightarrow> bset c' \<subseteq> X \<longrightarrow> ok (bitset_negate b c') (\<lambda>d. bs_inv d (length ws) \<and> bset d = X - bset c')"
        by (rule split_off [OF W(1) bs tp False, of junk])
      let ?Z = "X - bset c"
      obtain d where d: "bitset_negate b c = Inr d" "bs_inv d (length ws)" "bset d = ?Z" using c(5,6,11) by (auto elim!: ok_E)
      obtain c2 where c2: "bitset_negate b d = Inr c2" "bs_inv c2 (length ws)" "bset c2 = bset c"
        using c(11) d(2,3) c(6) by (auto simp: double_diff elim!: ok_E)
      have d2: "ok (bitset_negate b c2) (\<lambda>d. bs_inv d (length ws) \<and> bset d = ?Z)"
        using c(11) [rule_format, OF c2(2)] c2(3) c(6) by simp
      have "oset (length ws) (Some d) ?Z" using d by (simp add: oset_def)
      from compute_upper_and_lower_bounds_ok [OF W(1) inv this L]
      obtain pru prl where pr: "compute_upper_and_lower_bounds L ws (Some d) = Inr (pru, prl)" "0 \<le> prl" "prl \<le> Pr W (dnf ws ?Z)"
        "Pr W (dnf ws ?Z) \<le> pru" "pru \<le> 1" by (auto elim!: ok_E)
      have sz: "tree_size ws (bset c) \<le> fuel" "tree_size ws ?Z < fuel" using N c(8,9) by simp_all
      note step = te False c(1,4) d(1) c2(1) pr(1)
      have "ok (approx_left ?rec g junk L c2 info pru prl path_prob col False ws s) (\<lambda>((res, fl), us, t). us = ws \<and> wt_dist t = W \<and>
        (case res of None \<Rightarrow> Pr W (dnf ws (bset c)) = 1 \<and> \<not> fl
         | Some (l, u) \<Rightarrow> 0 \<le> l \<and> l \<le> Pr W (dnf ws (bset c)) \<and> Pr W (dnf ws (bset c)) \<le> u \<and> u \<le> 1 \<and>
            (fl \<longrightarrow> stop_reached g (whole_bound (coefficient_upper info) (constant_upper info) u pru)
                               (whole_bound (coefficient_lower info) (constant_lower info) l prl))))"
        by (rule approx_left_ok [OF Suc.IH L W dt_pre_subset [OF pre c(6)] sz(1) c2(2,3) c(7) s])
      then obtain res fl t where l: "approx_left ?rec g junk L c2 info pru prl path_prob col False ws s = Inr ((res, fl), ws, t)"
        "wt_dist t = W" "case res of None \<Rightarrow> Pr W (dnf ws (bset c)) = 1 \<and> \<not> fl
         | Some (l, u) \<Rightarrow> 0 \<le> l \<and> l \<le> Pr W (dnf ws (bset c)) \<and> Pr W (dnf ws (bset c)) \<le> u \<and> u \<le> 1 \<and>
            (fl \<longrightarrow> stop_reached g (whole_bound (coefficient_upper info) (constant_upper info) u pru)
                               (whole_bound (coefficient_lower info) (constant_lower info) l prl))"
        by (auto elim!: ok_E)
      show ?thesis
      proof (cases res)
        case None
        then show ?thesis using step l certain_part [OF W(1) c(6)] by (simp add: approx_post_def)
      next
        case (Some lu)
        then show ?thesis
          using step l(1) approx_right_ok [OF Suc.IH W(1) dt_pre_subset [OF pre Diff_subset] sz(2) c(10) d2 l(2) _ _ _ _ pr(2-5),
            of "fst lu" "snd lu" fl info path_prob col] l(3)
          by (simp add: split_beta)
      qed
    qed
  qed
qed

section \<open>Properties\<close>



end
