(* ===== verification/ApproConf.thy ===== *)
theory ApproConf
  imports DApprox
begin

text \<open>
  The aggregate over the approximate decomposition tree: the transition functions
  \<open>conf_appro_accum1_ge\<close> to \<open>conf_appro_accum10_ge\<close> of \<^verbatim>\<open>backend/maybms/d-tree.c\<close> with
  the macro \<open>conf_appro_accum\<close> of \<^verbatim>\<open>include/maybms/localcond.h\<close>, and the final function
  \<open>conf_appro_final_ge\<close>.

  The globals \<open>appro_approach\<close> and \<open>appro_epsilon\<close>, which every transition sets from its first
  two arguments, are the record \<open>appro_args\<close>. The final function deletes the lineage before it
  raises its error, so its result pairs the value, or the error raised, with the state it
  leaves.
\<close>

section \<open>The aggregate\<close>

record appro_args =
  appro_approach :: string
  appro_epsilon :: real

type_synonym appro_state = "appro_args \<times> lineage \<times> generalState"

definition conf_appro_accum :: "nat \<Rightarrow> string \<Rightarrow> real \<Rightarrow> (int \<times> int \<times> real) list \<Rightarrow> appro_state \<Rightarrow> appro_state res" where
  "conf_appro_accum n source epsilon args = (\<lambda>(g, l, s).
     let g = g\<lparr>appro_approach := source, appro_epsilon := epsilon\<rparr>
     in rbind (accum n args l s) (\<lambda>(l, s). Inr (g, l, s)))"

definition conf_appro_accum1_ge where "conf_appro_accum1_ge = conf_appro_accum 1"
definition conf_appro_accum2_ge where "conf_appro_accum2_ge = conf_appro_accum 2"
definition conf_appro_accum3_ge where "conf_appro_accum3_ge = conf_appro_accum 3"
definition conf_appro_accum4_ge where "conf_appro_accum4_ge = conf_appro_accum 4"
definition conf_appro_accum5_ge where "conf_appro_accum5_ge = conf_appro_accum 5"
definition conf_appro_accum6_ge where "conf_appro_accum6_ge = conf_appro_accum 6"
definition conf_appro_accum7_ge where "conf_appro_accum7_ge = conf_appro_accum 7"
definition conf_appro_accum8_ge where "conf_appro_accum8_ge = conf_appro_accum 8"
definition conf_appro_accum9_ge where "conf_appro_accum9_ge = conf_appro_accum 9"
definition conf_appro_accum10_ge where "conf_appro_accum10_ge = conf_appro_accum 10"

text \<open>The stopping number; \<open>2 * e / (1 - e)\<close> is an infinity for \<open>e = 1\<close>.\<close>

definition set_stopping_number :: "bool \<Rightarrow> real \<Rightarrow> approach" where
  "set_stopping_number relative epsilon =
     \<lparr>is_relative = relative,
      stopping_number = (if relative then if epsilon = 1 then None else Some (2 * epsilon / (1 - epsilon))
                         else Some (2 * epsilon))\<rparr>"

definition initial_bound_info :: bound_information where
  "initial_bound_info = \<lparr>coefficient_upper = 1, constant_upper = 0, coefficient_lower = 1, constant_lower = 0,
     condition_coefficient_upper = 1, condition_constant_upper = 0\<rparr>"

definition appro_result :: "bool \<Rightarrow> real \<Rightarrow> real \<Rightarrow> real \<Rightarrow> real" where
  "appro_result relative epsilon lower upper =
     (if relative then (upper * (1 - epsilon) + lower * (1 + epsilon)) / 2 else (upper + lower) / 2)"

text \<open>The world table is completed, the pointers are computed, and all clauses are put in a set.\<close>

definition appro_input :: "junk \<Rightarrow> lineage \<Rightarrow> generalState \<Rightarrow> (bitset \<times> WSD list \<times> generalState) res" where
  "appro_input junk l s =
     rbind (getMissingRngs s) (\<lambda>s.
     rbind (deref (S l)) (\<lambda>ws.
     rbind (computeEntryPointers (WSD_LEN l) s ws) (\<lambda>ws.
     rbind (bitset_set (bitset_init junk (length ws))) (\<lambda>b.
     Inr (b, ws, s)))))"

text \<open>
  The branch for a positive error: sort, bound, and build the tree when the bounds are too far apart.
  The second result is the global flag \<open>has_satisfied_stopping_condition\<close>.
\<close>

definition appro_bounds :: "approach \<Rightarrow> junk \<Rightarrow> nat \<Rightarrow> bitset \<Rightarrow> ((real \<times> real) \<times> bool) comp" where
  "appro_bounds g junk L b ws s =
     rbind (quicksort (Suc (length ws)) ws 0 (int (length ws) - 1)) (\<lambda>ws.
     rbind (compute_upper_and_lower_bounds L ws (Some b)) (\<lambda>(upper, lower).
     if stop_reached g upper lower then Inr (((lower, upper), True), ws, s)
     else decomposition_tree_approximate (TREE_FUEL (length ws) L) g junk L (Some b) 1 initial_bound_info (- 1) False ws s))"

text \<open>The branch for error zero.\<close>

definition appro_exact :: "junk \<Rightarrow> nat \<Rightarrow> bitset \<Rightarrow> real comp" where
  "appro_exact junk L b ws s =
     rbind (compute_upper_and_lower_bounds L ws (Some b)) (\<lambda>(upper, lower).
     if upper - lower > 0 then decomposition_tree_exact (TREE_FUEL (length ws) L) junk L (Some b) (- 1) ws s
     else Inr (upper, ws, s))"

definition conf_appro_final_ge :: "junk \<Rightarrow> appro_state \<Rightarrow> (real res \<times> lineage \<times> generalState) res" where
  "conf_appro_final_ge junk = (\<lambda>(g, l, s).
     if \<not> groupcxt l then Inr (Inr 0, l, s)
     else
       rbind (aread (appro_approach g) 0) (\<lambda>c.
       if c \<noteq> CHR ''R'' \<and> c \<noteq> CHR ''A'' then
         Inr (Inl (Elog ''The approximation approach can only be 'R' (relative approximation) or 'A' (absolute approximation).''),
              l\<lparr>S := None, groupcxt := False\<rparr>, s)
       else
         rbind (appro_input junk l s) (\<lambda>(b, ws, s).
         rbind (if appro_epsilon g > 0
                then rbind (appro_bounds (set_stopping_number (c = CHR ''R'') (appro_epsilon g)) junk (WSD_LEN l) b ws s)
                       (\<lambda>(((lower, upper), flag), ws, s). Inr (appro_result (c = CHR ''R'') (appro_epsilon g) lower upper, ws, s))
                else appro_exact junk (WSD_LEN l) b ws s) (\<lambda>(result, ws, s).
         Inr (Inr result, l\<lparr>S := None, groupcxt := False\<rparr>, s)))))"

section \<open>The guarantee\<close>

text \<open>When the bounds meet the stopping condition, their combination is within the error.\<close>

lemma relative_guarantee:
  assumes e: "0 < e" "e < 1" and b: "0 \<le> l" "l \<le> p" "p \<le> u"
    and stop: "stop_reached (set_stopping_number True e) u l"
  shows "\<bar>appro_result True e l u - p\<bar> \<le> e * p"
proof -
  have l: "l \<noteq> 0" "(u - l) / l \<le> 2 * e / (1 - e)"
    using stop e b by (auto simp: stop_reached_def set_stopping_number_def quot_le_def le_num_def split: if_splits)
  then have "(u - l) * (1 - e) \<le> 2 * e * l" using b e by (simp add: divide_le_eq pos_le_divide_eq mult.commute mult.left_commute)
  then have *: "u * (1 - e) \<le> l * (1 + e)" by (simp add: algebra_simps)
  have "p * (1 - e) \<le> u * (1 - e)" "l * (1 + e) \<le> p * (1 + e)" using b e by (simp_all add: mult_right_mono)
  then have "p * (1 - e) \<le> appro_result True e l u" "appro_result True e l u \<le> p * (1 + e)"
    using * unfolding appro_result_def by simp_all
  then show ?thesis by (simp add: abs_le_iff algebra_simps)
qed

lemma absolute_guarantee:
  assumes "l \<le> p" "p \<le> u" "stop_reached (set_stopping_number False e) u l"
  shows "\<bar>appro_result False e l u - p\<bar> \<le> e"
  using assms by (simp add: stop_reached_def set_stopping_number_def le_num_def appro_result_def abs_le_iff field_simps)

text \<open>Without the stopping condition the distance of the bounds limits the error.\<close>

lemma bounds_error:
  assumes "l \<le> p" "p \<le> u" "0 \<le> e"
  shows "\<bar>appro_result True e l u - p\<bar> \<le> (1 + e) * (u - l) / 2" "\<bar>appro_result False e l u - p\<bar> \<le> (u - l) / 2"
proof -
  have "0 \<le> e * (u - l)" using assms by simp
  then show "\<bar>appro_result True e l u - p\<bar> \<le> (1 + e) * (u - l) / 2"
    using assms(1,2) unfolding appro_result_def if_True abs_le_iff by (simp add: field_simps)
  show "\<bar>appro_result False e l u - p\<bar> \<le> (u - l) / 2"
    using assms(1,2) unfolding appro_result_def if_False abs_le_iff by (simp add: field_simps)
qed

section \<open>Sorting the descriptors\<close>

text \<open>The preconditions of the tree speak of the descriptors, not of their order.\<close>

lemma dnf_all: "dnf ws {..<length ws} \<tau> \<longleftrightarrow> (\<exists>d \<in> set ws. sat d \<tau>)"
  unfolding dnf_def in_set_conv_nth Bex_def by auto

lemma permuted_nth:
  assumes "mset us = mset ws" "i < length us"
  obtains k where "k < length ws" "us ! i = ws ! k"
  using assms(2) nth_mem [OF assms(2)] mset_eq_setD [OF assms(1)] by (metis in_set_conv_nth)

lemma sorted_wsds:
  assumes pre: "dt_pre L W ws {..<length ws}" and us: "mset us = mset ws"
  shows "dt_pre L W us {..<length us}" "dnf us {..<length us} = dnf ws {..<length ws}" "length us = length ws"
proof -
  have inv: "wsd_inv L W (us ! i)" if "i < length us" for i
    using permuted_nth [OF us that] pre unfolding dt_pre_def tree_pre_def by metis
  have uni: "lvars (us ! i) \<inter> allvars (us ! j) \<subseteq> lvars (us ! j)" if ij: "i < length us" "j < length us" for i j
  proof -
    obtain k m where "k < length ws" "us ! i = ws ! k" "m < length ws" "us ! j = ws ! m"
      using permuted_nth [OF us] ij by metis
    then show ?thesis using pre by (simp add: dt_pre_def tree_pre_def uniform_def)
  qed
  have sgl: "single us {..<length us}"
    unfolding single_def
  proof (intro ballI impI)
    fix i j mp mq
    assume ij: "i \<in> {..<length us}" "j \<in> {..<length us}" and m: "mp \<in> set (d_data (us ! i))" "mq \<in> set (d_data (us ! j))"
      "live mp" "live mq" "m_var mp = m_var mq"
    obtain k h where "k < length ws" "us ! i = ws ! k" "h < length ws" "us ! j = ws ! h"
      using permuted_nth [OF us] ij by (metis lessThan_iff)
    then show "m_rng mp = m_rng mq" using pre m unfolding dt_pre_def single_def by (metis lessThan_iff)
  qed
  show "dt_pre L W us {..<length us}"
    using inv uni sgl pre mset_eq_setD [OF us] by (simp add: dt_pre_def tree_pre_def uniform_def entries_at_def)
  show "dnf us {..<length us} = dnf ws {..<length ws}" using mset_eq_setD [OF us] by (simp add: fun_eq_iff dnf_all)
  show "length us = length ws" using us by (rule mset_eq_length)
qed

section \<open>Correctness of the aggregate\<close>

lemma tree_fuel_all: "tree_pre L W ws {..<length ws} \<Longrightarrow> tree_size ws {..<length ws} < TREE_FUEL (length ws) L"
  by (rule tree_size_bound) (simp add: tree_pre_def wsd_inv_def)

lemma appro_bounds_ok:
  assumes W: "wt_ok W" "wt_rngs_ok W" and pre: "dt_pre L W ws {..<length ws}" and L: "0 < L" and s: "wt_dist s = W"
    and b: "oset (length ws) (Some b) {..<length ws}"
  shows "ok (appro_bounds g junk L b ws s) (\<lambda>(((lower, upper), flag), us, t). 0 \<le> lower \<and> lower \<le> Pr W (dnf ws {..<length ws}) \<and>
    Pr W (dnf ws {..<length ws}) \<le> upper \<and> upper \<le> 1 \<and> (flag \<longrightarrow> stop_reached g upper lower))"
proof -
  obtain us where q: "quicksort (Suc (length ws)) ws 0 (int (length ws) - 1) = Inr us" "mset us = mset ws"
    using quicksort_whole [of ws] by (elim ok_E) blast
  note u = sorted_wsds [OF pre q(2)]
  have os: "oset (length us) (Some b) {..<length us}" using b u(3) by simp
  have tp: "tree_pre L W us {..<length us}" using u(1) by (simp add: dt_pre_def)
  have "ok (compute_upper_and_lower_bounds L us (Some b)) (\<lambda>(upper, lower). 0 \<le> lower \<and> lower \<le> Pr W (dnf us {..<length us}) \<and>
      Pr W (dnf us {..<length us}) \<le> upper \<and> upper \<le> 1)"
    by (rule compute_upper_and_lower_bounds_ok [OF W(1) _ os L]) (use tp in \<open>simp add: tree_pre_def\<close>)
  moreover have "ok (decomposition_tree_approximate (TREE_FUEL (length us) L) g junk L (Some b) 1 initial_bound_info (- 1) False us s)
      (\<lambda>(r, vs, t). approx_post g W us {..<length us} initial_bound_info r \<and> vs = us \<and> wt_dist t = W)"
    by (rule approximatesD [OF dt_approx_bounds [OF W L] os u(1) s tree_fuel_all [OF tp]])
  ultimately show ?thesis
    using q(1) unfolding appro_bounds_def u(2) [symmetric] by (auto simp: approx_post_def initial_bound_info_def simp del: quicksort.simps elim!: ok_E ok_mono)
qed

lemma appro_exact_ok:
  assumes W: "wt_ok W" "wt_rngs_ok W" and pre: "dt_pre L W ws {..<length ws}" and L: "0 < L" and s: "wt_dist s = W"
    and b: "oset (length ws) (Some b) {..<length ws}"
  shows "ok (appro_exact junk L b ws s) (\<lambda>(p, us, t). p = Pr W (dnf ws {..<length ws}))"
proof -
  have tp: "tree_pre L W ws {..<length ws}" using pre by (simp add: dt_pre_def)
  have "ok (compute_upper_and_lower_bounds L ws (Some b)) (\<lambda>(upper, lower). 0 \<le> lower \<and> lower \<le> Pr W (dnf ws {..<length ws}) \<and>
      Pr W (dnf ws {..<length ws}) \<le> upper \<and> upper \<le> 1)"
    by (rule compute_upper_and_lower_bounds_ok [OF W(1) _ b L]) (use tp in \<open>simp add: tree_pre_def\<close>)
  moreover have "ok (decomposition_tree_exact (TREE_FUEL (length ws) L) junk L (Some b) (- 1) ws s)
      (\<lambda>(p, us, t). p = Pr W (dnf ws {..<length ws}) \<and> us = ws \<and> wt_dist t = W)"
    by (rule dt_solvesD [OF dt_exact_solves [OF W] b pre s tree_fuel_all [OF tp]])
  ultimately show ?thesis unfolding appro_exact_def by (auto elim!: ok_E ok_mono)
qed

text \<open>No variable of the lineage is compared with two values.\<close>

definition one_valued :: "lit list list \<Rightarrow> bool" where
  "one_valued cs \<longleftrightarrow> (\<forall>c \<in> set cs. \<forall>c' \<in> set cs. \<forall>x \<in> set c. \<forall>y \<in> set c'.
     fst x = fst y \<longrightarrow> fst (snd x) = fst (snd y))"

lemma prepared_dt_pre:
  assumes "prepared W n cs t ws" "one_valued cs"
  shows "dt_pre n (wt_dist t) ws {..<length ws}"
proof -
  have p: "tree_pre n (wt_dist t) ws {..<length ws}" "entries_at (wt_dist t) ws" "map lits_of ws = cs"
    using assms(1) unfolding prepared_def by blast+
  have "m_rng mp = m_rng mq" if "i < length ws" "j < length ws" "mp \<in> set (d_data (ws ! i))" "mq \<in> set (d_data (ws ! j))"
    "m_var mp = m_var mq" for i j mp mq
  proof -
    have "(m_var mp, m_rng mp, m_prob mp) \<in> set (lits_of (ws ! i))" "(m_var mq, m_rng mq, m_prob mq) \<in> set (lits_of (ws ! j))"
      using that(3,4) by (auto simp: lits_of_def)
    moreover have "lits_of (ws ! i) \<in> set cs" "lits_of (ws ! j) \<in> set cs" using that(1,2) unfolding p(3) [symmetric] by simp_all
    ultimately show ?thesis using assms(2) that(5) unfolding one_valued_def by (metis fst_conv snd_conv)
  qed
  then have "single ws {..<length ws}" unfolding single_def lessThan_iff by blast
  then show ?thesis using p(1,2) by (simp add: dt_pre_def)
qed

lemma appro_input_ok:
  assumes lin: "lin_inv (wt_prob W) n V cs (l, s)" and ok: "lineage_ok W n cs" "one_valued cs" and ne: "cs \<noteq> []" "0 < n"
  obtains b ws t where "appro_input junk l s = Inr (b, ws, t)" "WSD_LEN l = n" "groupcxt l"
    "\<forall>g. ok (appro_bounds g junk n b ws t) (\<lambda>(((lower, upper), flag), us, t'). 0 \<le> lower \<and> lower \<le> Pr W (lineage_holds cs) \<and>
      Pr W (lineage_holds cs) \<le> upper \<and> upper \<le> 1 \<and> (flag \<longrightarrow> stop_reached g upper lower))"
    "ok (appro_exact junk n b ws t) (\<lambda>(p, us, t'). p = Pr W (lineage_holds cs))"
proof -
  obtain t ws0 ws where prep: "getMissingRngs s = Inr t" "S l = Some ws0" "computeEntryPointers n t ws0 = Inr ws"
    "prepared W n cs t ws" and l: "WSD_LEN l = n" "groupcxt l"
    by (rule prepared_group [OF lin ok(1)])
  have p: "wt_ok (wt_dist t)" "wt_rngs_ok (wt_dist t)" "length ws = length cs"
    "dnf ws {..<length ws} = lineage_holds cs" "Pr (wt_dist t) (lineage_holds cs) = Pr W (lineage_holds cs)"
    using prep(4) unfolding prepared_def by blast+
  note pre = prepared_dt_pre [OF prep(4) ok(2)]
  obtain b where b: "bitset_set (bitset_init junk (length ws)) = Inr b" "oset (length ws) (Some b) {..<length ws}"
    using bitset_set_ok [OF bs_raw_init [of junk "length ws"]] p(3) ne(1) by (auto simp: oset_def elim!: ok_E)
  show thesis
  proof (rule that)
    show "appro_input junk l s = Inr (b, ws, t)" using prep(1-3) l b(1) by (simp add: appro_input_def)
  qed (fact l, fact l, (rule allI appro_bounds_ok [OF p(1,2) pre ne(2) refl b(2), unfolded p(4,5)]
      appro_exact_ok [OF p(1,2) pre ne(2) refl b(2), unfolded p(4,5)])+)
qed

definition appro_accum_all :: "nat \<Rightarrow> string \<Rightarrow> real \<Rightarrow> lit list list \<Rightarrow> appro_state \<Rightarrow> appro_state res" where
  "appro_accum_all n a e cs st = fold_res (conf_appro_accum n a e) cs st"

text \<open>One group of the aggregate: its clauses are accumulated, then it is finished.\<close>

definition appro_group :: "junk \<Rightarrow> nat \<Rightarrow> string \<Rightarrow> real \<Rightarrow> lit list list \<Rightarrow> appro_state \<Rightarrow> (real res \<times> lineage \<times> generalState) res" where
  "appro_group junk n a e cs st = rbind (appro_accum_all n a e cs st) (conf_appro_final_ge junk)"

lemma appro_accum_all_eq:
  "cs \<noteq> [] \<Longrightarrow> appro_accum_all n a e cs (g, l, s) =
    rbind (accum_all n cs (l, s)) (\<lambda>(l, s). Inr (g\<lparr>appro_approach := a, appro_epsilon := e\<rparr>, l, s))"
proof (induction cs arbitrary: g l s)
  case (Cons c cs)
  show ?case
  proof (cases "cs = []")
    case False
    have "g\<lparr>appro_approach := a, appro_epsilon := e, appro_approach := a, appro_epsilon := e\<rparr> = g\<lparr>appro_approach := a, appro_epsilon := e\<rparr>"
      by simp
    then show ?thesis using Cons.IH [OF False]
      by (auto simp: appro_accum_all_def accum_all_def conf_appro_accum_def Let_def rbind_assoc rbind_def split: sum.splits)
  qed (auto simp: appro_accum_all_def accum_all_def conf_appro_accum_def Let_def rbind_def split: sum.splits)
qed simp

lemma final_bounds:
  assumes "groupcxt l" "appro_approach g = c # cr" "c = (if rel then CHR ''R'' else CHR ''A'')" "appro_epsilon g > 0"
    "appro_input junk l s = Inr (b, ws, t)" "appro_bounds (set_stopping_number rel (appro_epsilon g)) junk (WSD_LEN l) b ws t = Inr (((lower, upper), flag), us, t')"
  shows "conf_appro_final_ge junk (g, l, s) = Inr (Inr (appro_result rel (appro_epsilon g) lower upper), l\<lparr>S := None, groupcxt := False\<rparr>, t')"
proof -
  have "(c = CHR ''R'') = rel" "\<not> (c \<noteq> CHR ''R'' \<and> c \<noteq> CHR ''A'')" "aread (appro_approach g) 0 = Inr c" using assms(2,3) by (cases rel; simp)+
  then show ?thesis using assms(1,4-6) unfolding conf_appro_final_ge_def by simp
qed

lemma final_exact:
  assumes "groupcxt l" "appro_approach g = c # cr" "c = CHR ''R'' \<or> c = CHR ''A''" "\<not> appro_epsilon g > 0"
    "appro_input junk l s = Inr (b, ws, t)" "appro_exact junk (WSD_LEN l) b ws t = Inr (p, us, t')"
  shows "conf_appro_final_ge junk (g, l, s) = Inr (Inr p, l\<lparr>S := None, groupcxt := False\<rparr>, t')"
proof -
  have "\<not> (c \<noteq> CHR ''R'' \<and> c \<noteq> CHR ''A'')" "aread (appro_approach g) 0 = Inr c" using assms(2,3) by auto
  then show ?thesis using assms(1,4-6) unfolding conf_appro_final_ge_def by simp
qed

lemma appro_group_bounds:
  assumes "lineage_ok W n cs" "one_valued cs" "cs \<noteq> []" "0 < n" "S l = None" and c: "c = (if rel then CHR ''R'' else CHR ''A'')" and e: "0 < e"
  obtains l1 s1 b ws t lower upper flag us t' l' where "accum_all n cs (l, s) = Inr (l1, s1)" "appro_input junk l1 s1 = Inr (b, ws, t)"
    "appro_bounds (set_stopping_number rel e) junk n b ws t = Inr (((lower, upper), flag), us, t')"
    "appro_group junk n (c # cr) e cs (g, l, s) = Inr (Inr (appro_result rel e lower upper), l', t')" "S l' = None"
    "0 \<le> lower" "lower \<le> Pr W (lineage_holds cs)" "Pr W (lineage_holds cs) \<le> upper" "upper \<le> 1"
    "flag \<longrightarrow> stop_reached (set_stopping_number rel e) upper lower"
proof -
  obtain l1 s1 where a: "accum_all n cs (l, s) = Inr (l1, s1)" "lin_inv (wt_prob W) n (\<Union>c\<in>set cs. fst ` set c) cs (l1, s1)"
    by (rule accumulated_group [OF assms(1,3,5)])
  obtain b ws t where i: "appro_input junk l1 s1 = Inr (b, ws, t)" "WSD_LEN l1 = n" "groupcxt l1"
    and bd: "\<forall>g. ok (appro_bounds g junk n b ws t) (\<lambda>(((lower, upper), flag), us, t'). 0 \<le> lower \<and> lower \<le> Pr W (lineage_holds cs) \<and>
      Pr W (lineage_holds cs) \<le> upper \<and> upper \<le> 1 \<and> (flag \<longrightarrow> stop_reached g upper lower))"
    and ex: "ok (appro_exact junk n b ws t) (\<lambda>(p, us, t'). p = Pr W (lineage_holds cs))"
    by (rule appro_input_ok [where junk = junk, OF a(2) assms(1-4)])
  obtain lower upper flag us t' where r: "appro_bounds (set_stopping_number rel e) junk n b ws t = Inr (((lower, upper), flag), us, t')"
    and q: "0 \<le> lower" "lower \<le> Pr W (lineage_holds cs)" "Pr W (lineage_holds cs) \<le> upper" "upper \<le> 1"
      "flag \<longrightarrow> stop_reached (set_stopping_number rel e) upper lower"
    using bd [THEN spec, of "set_stopping_number rel e"] by (auto elim!: ok_E)
  have "appro_group junk n (c # cr) e cs (g, l, s) = Inr (Inr (appro_result rel e lower upper), l1\<lparr>S := None, groupcxt := False\<rparr>, t')"
    using final_bounds [of l1 "g\<lparr>appro_approach := c # cr, appro_epsilon := e\<rparr>", OF i(3) _ c _ i(1)] i(2) r e a(1)
    unfolding appro_group_def appro_accum_all_eq [OF assms(3)] by simp
  then show thesis using a(1) i(1) r q by (intro that) auto
qed

lemma appro_group_exact:
  assumes "lineage_ok W n cs" "one_valued cs" "cs \<noteq> []" "0 < n" "S l = None" and c: "c = CHR ''R'' \<or> c = CHR ''A''" and e: "e \<le> 0"
  obtains l' s' where "appro_group junk n (c # cr) e cs (g, l, s) = Inr (Inr (Pr W (lineage_holds cs)), l', s')" "S l' = None"
proof -
  obtain l1 s1 where a: "accum_all n cs (l, s) = Inr (l1, s1)" "lin_inv (wt_prob W) n (\<Union>c\<in>set cs. fst ` set c) cs (l1, s1)"
    by (rule accumulated_group [OF assms(1,3,5)])
  obtain b ws t where i: "appro_input junk l1 s1 = Inr (b, ws, t)" "WSD_LEN l1 = n" "groupcxt l1"
    and bd: "\<forall>g. ok (appro_bounds g junk n b ws t) (\<lambda>(((lower, upper), flag), us, t'). 0 \<le> lower \<and> lower \<le> Pr W (lineage_holds cs) \<and>
      Pr W (lineage_holds cs) \<le> upper \<and> upper \<le> 1 \<and> (flag \<longrightarrow> stop_reached g upper lower))"
    and ex: "ok (appro_exact junk n b ws t) (\<lambda>(p, us, t'). p = Pr W (lineage_holds cs))"
    by (rule appro_input_ok [where junk = junk, OF a(2) assms(1-4)])
  obtain us t' where "appro_exact junk n b ws t = Inr (Pr W (lineage_holds cs), us, t')" using ex by (auto elim!: ok_E)
  then have "appro_group junk n (c # cr) e cs (g, l, s) = Inr (Inr (Pr W (lineage_holds cs)), l1\<lparr>S := None, groupcxt := False\<rparr>, t')"
    using final_exact [of l1 "g\<lparr>appro_approach := c # cr, appro_epsilon := e\<rparr>", OF i(3) _ c _ i(1)] i(2) e a(1)
    unfolding appro_group_def appro_accum_all_eq [OF assms(3)] by simp
  then show thesis by (rule that) simp
qed

section \<open>Properties\<close>

text \<open>A lineage of three clauses whose bucketing bounds are apart.\<close>

definition shared_clauses :: "lit list list" where
  "shared_clauses = [[(1, 1, 1/2), (2, 1, 1/4)], [(3, 1, 1/3), (2, 1, 1/4)], [(1, 1, 1/2), (3, 1, 1/3)]]"

lemma shared_clauses_ok: "lineage_ok three_coins 2 shared_clauses" "one_valued shared_clauses" "shared_clauses \<noteq> []"
proof -
  have "fits {1, 2, 3}" by (rule fits_small) (simp_all add: LIST_INIT_SIZE_def)
  then show "lineage_ok three_coins 2 shared_clauses"
    using three_coins_ok(1) by (simp add: lineage_ok_def in_wt_def shared_clauses_def three_coins_def RESERVED_VAR_def insert_commute)
qed (simp_all add: one_valued_def shared_clauses_def)

lemma shared_clauses_prob: "Pr three_coins (lineage_holds shared_clauses) = 7/24"
  by (simp add: three_coins_def Pr_Cons lineage_holds_def shared_clauses_def)

text \<open>
  C14. The relative approximation, for a lineage in which no variable is compared with two values
  and an error between zero and one. \<open>appro_bounds\<close>, run on the accumulated lineage, returns a lower
  and an upper bound of the probability, and the aggregate returns the mean of the two, weighted by
  one plus and one minus the error. The result differs from the probability by at most half the
  distance of the bounds times one plus the error; and when the code has set its flag
  \<open>has_satisfied_stopping_condition\<close>, by at most the error times the probability.
\<close>

theorem appro_relative:
  assumes "lineage_ok W n cs" "one_valued cs" "cs \<noteq> []" "0 < n" "S l = None" "0 < e" "e < 1"
  shows "\<exists>l1 s1 b ws t lower upper flag us t' r l'. accum_all n cs (l, s) = Inr (l1, s1) \<and> appro_input junk l1 s1 = Inr (b, ws, t) \<and>
    appro_bounds (set_stopping_number True e) junk n b ws t = Inr (((lower, upper), flag), us, t') \<and>
    appro_group junk n (CHR ''R'' # cr) e cs (g, l, s) = Inr (Inr r, l', t') \<and> S l' = None \<and>
    r = (upper * (1 - e) + lower * (1 + e)) / 2 \<and> 0 \<le> lower \<and> lower \<le> Pr W (lineage_holds cs) \<and> Pr W (lineage_holds cs) \<le> upper \<and> upper \<le> 1 \<and>
    \<bar>r - Pr W (lineage_holds cs)\<bar> \<le> (1 + e) * (upper - lower) / 2 \<and>
    (flag \<longrightarrow> \<bar>r - Pr W (lineage_holds cs)\<bar> \<le> e * Pr W (lineage_holds cs))"
proof -
  have c: "CHR ''R'' = (if True then CHR ''R'' else CHR ''A'')" by simp
  obtain l1 s1 b ws t lower upper flag us t' l' where r: "accum_all n cs (l, s) = Inr (l1, s1)" "appro_input junk l1 s1 = Inr (b, ws, t)"
    "appro_bounds (set_stopping_number True e) junk n b ws t = Inr (((lower, upper), flag), us, t')"
    "appro_group junk n (CHR ''R'' # cr) e cs (g, l, s) = Inr (Inr (appro_result True e lower upper), l', t')" "S l' = None"
    and b: "0 \<le> lower" "lower \<le> Pr W (lineage_holds cs)" "Pr W (lineage_holds cs) \<le> upper" "upper \<le> 1"
    and f: "flag \<longrightarrow> stop_reached (set_stopping_number True e) upper lower"
    by (rule appro_group_bounds [OF assms(1-5) c assms(6)])
  have "appro_result True e lower upper = (upper * (1 - e) + lower * (1 + e)) / 2" by (simp add: appro_result_def)
  moreover have "flag \<longrightarrow> \<bar>appro_result True e lower upper - Pr W (lineage_holds cs)\<bar> \<le> e * Pr W (lineage_holds cs)"
    using relative_guarantee [OF assms(6,7) b(1-3)] f by blast
  ultimately show ?thesis using r b bounds_error(1) [OF b(2,3), of e] assms(6) by fastforce
qed

theorem appro_relative_witness:
  "\<exists>lower upper r l' t'. appro_group (\<lambda>_. 0) 2 ''R'' (1/10) shared_clauses
      (\<lparr>appro_approach = [], appro_epsilon = 0\<rparr>, empty_lineage, empty_table 10) = Inr (Inr r, l', t') \<and>
    r = (upper * (9/10) + lower * (11/10)) / 2 \<and> lower \<le> 7/24 \<and> 7/24 \<le> upper \<and> \<bar>r - 7/24\<bar> \<le> 7/240"
proof -
  let ?e = "1/10 :: real" and ?st = "(\<lparr>appro_approach = [], appro_epsilon = 0\<rparr>, empty_lineage, empty_table 10)"
  obtain l1 s1 b ws t lower upper flag us t' r l' where *: "accum_all 2 shared_clauses (empty_lineage, empty_table 10) = Inr (l1, s1)"
    "appro_input (\<lambda>_. 0) l1 s1 = Inr (b, ws, t)" "appro_bounds (set_stopping_number True ?e) (\<lambda>_. 0) 2 b ws t = Inr (((lower, upper), flag), us, t')"
    and r: "appro_group (\<lambda>_. 0) 2 ''R'' ?e shared_clauses ?st = Inr (Inr r, l', t')" "r = (upper * (1 - ?e) + lower * (1 + ?e)) / 2"
      "lower \<le> 7/24" "7/24 \<le> upper" "flag \<longrightarrow> \<bar>r - 7/24\<bar> \<le> ?e * (7/24)"
    using appro_relative [OF shared_clauses_ok _ S_empty_lineage, of ?e "empty_table 10" "\<lambda>_. 0" "[]" "\<lparr>appro_approach = [], appro_epsilon = 0\<rparr>"]
    unfolding shared_clauses_prob by auto
  have "case rbind (accum_all 2 shared_clauses (empty_lineage, empty_table 10)) (\<lambda>(l, s). rbind (appro_input (\<lambda>_. 0) l s) (\<lambda>(b, ws, t).
      appro_bounds (set_stopping_number True ?e) (\<lambda>_. 0) 2 b ws t)) of Inl _ \<Rightarrow> False | Inr ((bounds, flag), us, t) \<Rightarrow> flag" by code_simp
  then have flag using * by simp
  then show ?thesis using r by (intro exI conjI; (assumption)?) auto
qed

text \<open>
  C15. The absolute approximation, for a lineage in which no variable is compared with two values
  and a positive error: the aggregate returns the middle of the bounds that \<open>appro_bounds\<close> returns on
  the accumulated lineage. They enclose the probability, so that the result differs from it by at
  most half their distance; and when the code has set its flag, by at most the error.
\<close>

theorem appro_absolute:
  assumes "lineage_ok W n cs" "one_valued cs" "cs \<noteq> []" "0 < n" "S l = None" "0 < e"
  shows "\<exists>l1 s1 b ws t lower upper flag us t' r l'. accum_all n cs (l, s) = Inr (l1, s1) \<and> appro_input junk l1 s1 = Inr (b, ws, t) \<and>
    appro_bounds (set_stopping_number False e) junk n b ws t = Inr (((lower, upper), flag), us, t') \<and>
    appro_group junk n (CHR ''A'' # cr) e cs (g, l, s) = Inr (Inr r, l', t') \<and> S l' = None \<and>
    r = (lower + upper) / 2 \<and> 0 \<le> lower \<and> lower \<le> Pr W (lineage_holds cs) \<and> Pr W (lineage_holds cs) \<le> upper \<and> upper \<le> 1 \<and>
    \<bar>r - Pr W (lineage_holds cs)\<bar> \<le> (upper - lower) / 2 \<and> (flag \<longrightarrow> \<bar>r - Pr W (lineage_holds cs)\<bar> \<le> e)"
proof -
  have c: "CHR ''A'' = (if False then CHR ''R'' else CHR ''A'')" by simp
  obtain l1 s1 b ws t lower upper flag us t' l' where r: "accum_all n cs (l, s) = Inr (l1, s1)" "appro_input junk l1 s1 = Inr (b, ws, t)"
    "appro_bounds (set_stopping_number False e) junk n b ws t = Inr (((lower, upper), flag), us, t')"
    "appro_group junk n (CHR ''A'' # cr) e cs (g, l, s) = Inr (Inr (appro_result False e lower upper), l', t')" "S l' = None"
    and b: "0 \<le> lower" "lower \<le> Pr W (lineage_holds cs)" "Pr W (lineage_holds cs) \<le> upper" "upper \<le> 1"
    and f: "flag \<longrightarrow> stop_reached (set_stopping_number False e) upper lower"
    by (rule appro_group_bounds [OF assms(1-5) c assms(6)])
  have "appro_result False e lower upper = (lower + upper) / 2" by (simp add: appro_result_def)
  moreover have "flag \<longrightarrow> \<bar>appro_result False e lower upper - Pr W (lineage_holds cs)\<bar> \<le> e"
    using absolute_guarantee [OF b(2,3)] f by blast
  ultimately show ?thesis using r b bounds_error(2) [OF b(2,3), of e] assms(6) by fastforce
qed

theorem appro_absolute_witness:
  "\<exists>lower upper r l' t'. appro_group (\<lambda>_. 0) 2 ''A'' (1/100) shared_clauses
      (\<lparr>appro_approach = [], appro_epsilon = 0\<rparr>, empty_lineage, empty_table 10) = Inr (Inr r, l', t') \<and>
    r = (lower + upper) / 2 \<and> lower \<le> 7/24 \<and> 7/24 \<le> upper \<and> \<bar>r - 7/24\<bar> \<le> 1/100"
proof -
  let ?e = "1/100 :: real" and ?st = "(\<lparr>appro_approach = [], appro_epsilon = 0\<rparr>, empty_lineage, empty_table 10)"
  obtain l1 s1 b ws t lower upper flag us t' r l' where *: "accum_all 2 shared_clauses (empty_lineage, empty_table 10) = Inr (l1, s1)"
    "appro_input (\<lambda>_. 0) l1 s1 = Inr (b, ws, t)" "appro_bounds (set_stopping_number False ?e) (\<lambda>_. 0) 2 b ws t = Inr (((lower, upper), flag), us, t')"
    and r: "appro_group (\<lambda>_. 0) 2 ''A'' ?e shared_clauses ?st = Inr (Inr r, l', t')" "r = (lower + upper) / 2"
      "lower \<le> 7/24" "7/24 \<le> upper" "flag \<longrightarrow> \<bar>r - 7/24\<bar> \<le> ?e"
    using appro_absolute [OF shared_clauses_ok _ S_empty_lineage, of ?e "empty_table 10" "\<lambda>_. 0" "[]" "\<lparr>appro_approach = [], appro_epsilon = 0\<rparr>"]
    unfolding shared_clauses_prob by auto
  have "case rbind (accum_all 2 shared_clauses (empty_lineage, empty_table 10)) (\<lambda>(l, s). rbind (appro_input (\<lambda>_. 0) l s) (\<lambda>(b, ws, t).
      appro_bounds (set_stopping_number False ?e) (\<lambda>_. 0) 2 b ws t)) of Inl _ \<Rightarrow> False | Inr ((bounds, flag), us, t) \<Rightarrow> flag" by code_simp
  then have flag using * by simp
  then show ?thesis using r by (intro exI conjI; (assumption)?) auto
qed

text \<open>
  With an error that is not positive both approaches return the exact probability.
\<close>

theorem appro_zero_error_exact:
  assumes "lineage_ok W n cs" "one_valued cs" "cs \<noteq> []" "0 < n" "S l = None" "e \<le> 0" "c = CHR ''R'' \<or> c = CHR ''A''"
  shows "\<exists>l' s'. appro_group junk n (c # cr) e cs (g, l, s) = Inr (Inr (Pr W (lineage_holds cs)), l', s') \<and> S l' = None"
  using appro_group_exact [OF assms(1-5,7,6), of junk cr g s] by blast

theorem appro_zero_error_exact_witness:
  "\<exists>l' s'. appro_group (\<lambda>_. 0) 2 ''A'' 0 shared_clauses
      (\<lparr>appro_approach = [], appro_epsilon = 0\<rparr>, empty_lineage, empty_table 10) = Inr (Inr (7/24), l', s')"
  using appro_zero_error_exact [OF shared_clauses_ok _ S_empty_lineage, of 0 "CHR ''A''" "\<lambda>_. 0" "[]"
    "\<lparr>appro_approach = [], appro_epsilon = 0\<rparr>" "empty_table 10"]
  unfolding shared_clauses_prob by auto

text \<open>
  An approach that starts with neither letter is refused: the final function raises the
  error, after it has emptied the lineage, so that the next group starts afresh.
\<close>

theorem appro_invalid_approach:
  assumes "groupcxt l" "appro_approach g = c # cr" "c \<noteq> CHR ''R''" "c \<noteq> CHR ''A''"
  shows "\<exists>msg l'. conf_appro_final_ge junk (g, l, s) = Inr (Inl (Elog msg), l', s) \<and> S l' = None \<and> \<not> groupcxt l'"
  using assms by (auto simp: conf_appro_final_ge_def)

theorem appro_invalid_approach_witness:
  "\<exists>msg l'. conf_appro_final_ge (\<lambda>_. 0) (\<lparr>appro_approach = ''X'', appro_epsilon = 1\<rparr>,
      \<lparr>S = Some [], current_size = 1, WSD_LEN = 1, groupcxt = True\<rparr>, empty_table 10) = Inr (Inl (Elog msg), l', empty_table 10)"
  using appro_invalid_approach [of "\<lparr>S = Some [], current_size = 1, WSD_LEN = 1, groupcxt = True\<rparr>"
    "\<lparr>appro_approach = ''X'', appro_epsilon = 1\<rparr>" "CHR ''X''" "[]" "\<lambda>_. 0" "empty_table 10"] by auto

end
