(* ===== verification/TupleConf.thy ===== *)
theory TupleConf
  imports Localcond
begin

text \<open>
  The tuple confidence \<open>tconf()\<close> of \<^verbatim>\<open>backend/maybms/tupleconf.c\<close>: the product of the
  probabilities of the conditions of one tuple. The macro \<open>product\<close> serves tuple-independent
  relations. The macro \<open>product_ge\<close> first resolves conditions on the same variable: a repeated
  condition becomes the reserved condition with probability one, a contradictory one the
  reserved condition with the negative range and probability zero.

  The main fact is \<open>product_ge_ok\<close>: the result is the probability that all conditions of the
  tuple hold, also when they repeat or contradict each other.
\<close>

section \<open>The functions\<close>

definition RNG_FOR_RESERVED_VAR_NEGATIVE :: int where "RNG_FOR_RESERVED_VAR_NEGATIVE = 0"

definition product :: "nat \<Rightarrow> real list \<Rightarrow> real res" where
  "product n args = for_upto n (\<lambda>i result. rbind (aread args i) (\<lambda>p. Inr (result * p))) 1"

text \<open>The body of the inner loop, for the maps \<open>i\<close> and \<open>j\<close>.\<close>

definition resolve :: "Map_t \<Rightarrow> Map_t \<Rightarrow> Map_t" where
  "resolve mi mj =
     (if m_var mi = m_var mj then
        if m_rng mi = m_rng mj then mj\<lparr>m_var := RESERVED_VAR, m_rng := RNG_FOR_RESERVED_VAR, m_prob := 1\<rparr>
        else mj\<lparr>m_var := RESERVED_VAR, m_rng := RNG_FOR_RESERVED_VAR_NEGATIVE, m_prob := 0\<rparr>
      else mj)"

definition resolve_loop :: "nat \<Rightarrow> Map_t list \<Rightarrow> Map_t list res" where
  "resolve_loop n data =
     for_upto (n - 1) (\<lambda>i data.
       fold_res (\<lambda>j data.
         rbind (aread data i) (\<lambda>mi.
         rbind (aread data j) (\<lambda>mj.
         awrite data j (resolve mi mj)))) [Suc i..<n] data) data"

definition product_ge :: "nat \<Rightarrow> (int \<times> int \<times> real) list \<Rightarrow> lineage \<Rightarrow> (real \<times> lineage) res" where
  "product_ge n args l =
     (let l = l\<lparr>groupcxt := True\<rparr> in
      rbind (for_upto n (\<lambda>j data. rbind (aread args j) (\<lambda>(v, r, p). Inr (data @ [create_map v r 0 p]))) []) (\<lambda>data.
      rbind (resolve_loop n data) (\<lambda>data.
      rbind (for_upto n (\<lambda>i result. rbind (aread data i) (\<lambda>mp. Inr (result * m_prob mp))) 1) (\<lambda>result.
      Inr (result, l\<lparr>groupcxt := False\<rparr>)))))"

definition product0 :: "real res" where "product0 = Inr 1"

definition product1_ge :: "(int \<times> int \<times> real) list \<Rightarrow> lineage \<Rightarrow> (real \<times> lineage) res" where
  "product1_ge args l = rbind (aread args 0) (\<lambda>(v, r, p). Inr (p, l))"

definition product2_ge where "product2_ge = product_ge 2"
definition product3_ge where "product3_ge = product_ge 3"
definition product4_ge where "product4_ge = product_ge 4"
definition product5_ge where "product5_ge = product_ge 5"
definition product6_ge where "product6_ge = product_ge 6"
definition product7_ge where "product7_ge = product_ge 7"
definition product8_ge where "product8_ge = product_ge 8"
definition product9_ge where "product9_ge = product_ge 9"
definition product10_ge where "product10_ge = product_ge 10"

definition product1 :: "real list \<Rightarrow> real res" where "product1 args = aread args 0"
definition product2 where "product2 = product 2"
definition product3 where "product3 = product 3"
definition product4 where "product4 = product 4"
definition product5 where "product5 = product 5"
definition product6 where "product6 = product 6"
definition product7 where "product7 = product 7"
definition product8 where "product8 = product 8"
definition product9 where "product9 = product 9"
definition product10 where "product10 = product 10"

section \<open>The product\<close>

lemma product_loop:
  assumes "n \<le> length xs"
  shows "for_upto n (\<lambda>i q. rbind (aread xs i) (\<lambda>x. Inr (q * f x))) 1 = Inr (prod_list (map f (take n xs)) :: real)"
proof -
  have "ok (for_upto n (\<lambda>i q. rbind (aread xs i) (\<lambda>x. Inr (q * f x))) 1) (\<lambda>q. q = prod_list (map f (take n xs)))"
    by (rule ok_for_upto [where I = "\<lambda>i q. q = prod_list (map f (take i xs))"]) (use assms in \<open>auto simp: take_Suc_conv_app_nth\<close>)
  then show ?thesis by (auto simp: ok_def)
qed

lemma product_eq: "n \<le> length args \<Longrightarrow> product n args = Inr (prod_list (take n args))"
  using product_loop [of n args "\<lambda>p. p"] by (simp add: product_def)

section \<open>Resolving repeated variables\<close>

text \<open>
  The condition a map stands for: a probability of zero marks a contradiction, and the reserved
  variable otherwise has its only value.
\<close>

definition cond :: "Map_t \<Rightarrow> world \<Rightarrow> bool" where
  "cond mp \<tau> \<longleftrightarrow> m_prob mp \<noteq> 0 \<and> (m_var mp = RESERVED_VAR \<or> \<tau> (m_var mp) = m_rng mp)"

text \<open>The maps that occur: conditions on other variables, and the two reserved ones.\<close>

definition cond_ok :: "Map_t \<Rightarrow> bool" where
  "cond_ok mp \<longleftrightarrow> (if m_var mp = RESERVED_VAR
     then m_rng mp = RNG_FOR_RESERVED_VAR \<and> m_prob mp = 1 \<or> m_rng mp = RNG_FOR_RESERVED_VAR_NEGATIVE \<and> m_prob mp = 0
     else m_prob mp \<noteq> 0)"

lemma resolve_cond:
  assumes "cond_ok mi" "cond_ok mj"
  shows "cond_ok (resolve mi mj)" "cond mi \<tau> \<and> cond (resolve mi mj) \<tau> \<longleftrightarrow> cond mi \<tau> \<and> cond mj \<tau>"
  using assms by (auto simp: cond_ok_def cond_def resolve_def RNG_FOR_RESERVED_VAR_def RNG_FOR_RESERVED_VAR_NEGATIVE_def split: if_splits)

lemma resolve_var: "m_var (resolve mi mj) = RESERVED_VAR \<or> resolve mi mj = mj \<and> m_var mi \<noteq> m_var mj"
  by (simp add: resolve_def)

definition separated :: "nat \<Rightarrow> Map_t list \<Rightarrow> bool" where
  "separated k d \<longleftrightarrow> (\<forall>i j. i < k \<longrightarrow> i < j \<longrightarrow> j < length d \<longrightarrow> m_var (d ! i) = m_var (d ! j) \<longrightarrow> m_var (d ! j) = RESERVED_VAR)"

text \<open>What the maps stand for together is kept, and so is every map that was not reserved.\<close>

definition same_conds :: "Map_t list \<Rightarrow> Map_t list \<Rightarrow> bool" where
  "same_conds data d \<longleftrightarrow> length d = length data \<and> (\<forall>mp \<in> set d. cond_ok mp) \<and>
     (\<forall>\<tau>. (\<forall>mp \<in> set d. cond mp \<tau>) \<longleftrightarrow> (\<forall>mp \<in> set data. cond mp \<tau>)) \<and>
     (\<forall>j < length data. m_var (d ! j) = RESERVED_VAR \<or> d ! j = data ! j)"

lemma same_conds_resolve:
  assumes d: "same_conds data d" and ij: "i < j" "j < length data"
  shows "same_conds data (d[j := resolve (d ! i) (d ! j)])"
proof -
  let ?r = "resolve (d ! i) (d ! j)" and ?d = "d[j := resolve (d ! i) (d ! j)]"
  have len: "length d = length data" and c: "cond_ok (d ! i)" "cond_ok (d ! j)" using d ij by (auto simp: same_conds_def)
  note r = resolve_cond [OF c]
  have "(\<forall>mp \<in> set ?d. cond mp \<tau>) \<longleftrightarrow> (\<forall>mp \<in> set d. cond mp \<tau>)" for \<tau>
  proof -
    have "(\<forall>mp \<in> set ?d. cond mp \<tau>) \<longleftrightarrow> (\<forall>k < length d. cond (?d ! k) \<tau>)" by (simp add: all_set_conv_all_nth)
    also have "\<dots> \<longleftrightarrow> (\<forall>k < length d. k \<noteq> j \<longrightarrow> cond (d ! k) \<tau>) \<and> cond ?r \<tau>" using ij len by (auto simp: nth_list_update)
    also have "\<dots> \<longleftrightarrow> (\<forall>k < length d. k \<noteq> j \<longrightarrow> cond (d ! k) \<tau>) \<and> cond (d ! j) \<tau>" using r(2) [of \<tau>] ij len by auto
    also have "\<dots> \<longleftrightarrow> (\<forall>k < length d. cond (d ! k) \<tau>)" using ij len by auto
    finally show ?thesis by (simp add: all_set_conv_all_nth)
  qed
  moreover have "\<forall>mp \<in> set ?d. cond_ok mp" using d r(1) set_update_subset_insert [of d j ?r] by (auto simp: same_conds_def)
  moreover have "m_var (?d ! k) = RESERVED_VAR \<or> ?d ! k = data ! k" if "k < length data" for k
    using d that len ij resolve_var [of "d ! i" "d ! j"] by (cases "k = j") (auto simp: same_conds_def)
  ultimately show ?thesis using d by (simp add: same_conds_def)
qed

lemma resolve_loop_ok:
  assumes "length data = n" "\<forall>mp \<in> set data. cond_ok mp"
  shows "ok (resolve_loop n data) (\<lambda>d. same_conds data d \<and> separated n d)"
proof -
  let ?I = "\<lambda>k d. same_conds data d \<and> separated k d"
  let ?J = "\<lambda>i k d. same_conds data d \<and> separated i d \<and>
    (\<forall>j. i < j \<longrightarrow> j < k \<longrightarrow> m_var (d ! i) = m_var (d ! j) \<longrightarrow> m_var (d ! j) = RESERVED_VAR)"
  have "ok (resolve_loop n data) (?I (n - 1))"
    unfolding resolve_loop_def
  proof (rule ok_for_upto [where I = ?I])
    show "?I 0 data" using assms(2) by (simp add: same_conds_def separated_def)
  next
    fix i d assume i: "i < n - 1" and I: "?I i d"
    have "ok (fold_res (\<lambda>j data. rbind (aread data i) (\<lambda>mi. rbind (aread data j) (\<lambda>mj. awrite data j (resolve mi mj)))) [Suc i..<n] d)
        (?J i n)"
    proof (rule ok_fold_upt [where I = "?J i"])
      show "Suc i \<le> n" using i by simp
      show "?J i (Suc i) d" using I by simp
    next
      fix j d assume j: "Suc i \<le> j" "j < n" and J: "?J i j d"
      let ?d = "d[j := resolve (d ! i) (d ! j)]"
      have len: "length d = n" using J assms(1) by (simp add: same_conds_def)
      have "same_conds data ?d" using same_conds_resolve [of data d i j] J j assms(1) by simp
      moreover have nth: "?d ! h = (if h = j then resolve (d ! i) (d ! j) else d ! h)" for h using j len by simp
      have "m_var (?d ! b) = RESERVED_VAR" if "a < i" "a < b" "b < length ?d" "m_var (?d ! a) = m_var (?d ! b)" for a b
        using that J j resolve_var [of "d ! i" "d ! j"] unfolding nth separated_def by (cases "b = j") auto
      then have "separated i ?d" unfolding separated_def by blast
      moreover have "m_var (?d ! h) = RESERVED_VAR" if "i < h" "h < Suc j" "m_var (?d ! i) = m_var (?d ! h)" for h
        using that J j len resolve_var [of "d ! i" "d ! j"] unfolding nth by (cases "h = j") (auto simp: less_Suc_eq)
      ultimately show "ok (rbind (aread d i) (\<lambda>mi. rbind (aread d j) (\<lambda>mj. awrite d j (resolve mi mj)))) (?J i (Suc j))"
        using i j len by simp
    qed
    then show "ok (fold_res (\<lambda>j data. rbind (aread data i) (\<lambda>mi. rbind (aread data j) (\<lambda>mj. awrite data j (resolve mi mj)))) [Suc i..<n] d)
        (?I (Suc i))" using assms(1) by (elim ok_mono) (auto simp: separated_def same_conds_def less_Suc_eq)
  qed
  moreover have "separated n d" if "separated (n - 1) d" "length d = n" for d
    unfolding separated_def
  proof (intro allI impI)
    fix i j assume "i < n" "i < j" "j < length d" "m_var (d ! i) = m_var (d ! j)"
    moreover from this have "i < n - 1" using that(2) by simp
    ultimately show "m_var (d ! j) = RESERVED_VAR" using that(1) unfolding separated_def by blast
  qed
  ultimately show ?thesis using assms(1) by (elim ok_mono) (auto simp: same_conds_def)
qed

section \<open>The confidence of a tuple\<close>

lemma separated_probability:
  assumes W: "wt_ok W" and d: "\<forall>mp \<in> set d. cond_ok mp" "separated (length d) d"
    and lits: "\<forall>mp \<in> set d. m_var mp \<noteq> RESERVED_VAR \<longrightarrow> (\<exists>e. (m_var mp, e) \<in> set W \<and> (m_rng mp, m_prob mp) \<in> set e)"
  shows "Pr W (\<lambda>\<tau>. \<forall>mp \<in> set d. cond mp \<tau>) = prod_list (map m_prob d)"
proof (cases "\<exists>mp \<in> set d. m_prob mp = 0")
  case True
  then have "(\<lambda>\<tau>. \<forall>mp \<in> set d. cond mp \<tau>) = (\<lambda>_. False)" by (auto simp: cond_def)
  moreover have "prod_list (map m_prob d) = 0" using True by (auto simp: prod_list_zero_iff)
  ultimately show ?thesis by simp
next
  case False
  let ?fr = "filter (\<lambda>mp. m_var mp \<noteq> RESERVED_VAR) d"
  let ?ls = "map (\<lambda>mp. (m_var mp, m_rng mp, m_prob mp)) ?fr"
  have "distinct (map m_var ?fr)"
    using d(2)
  proof (induction d)
    case (Cons a d)
    have "separated (length d) d" using Cons.prems unfolding separated_def
      by (metis Suc_less_eq length_Cons nth_Cons_Suc)
    moreover have "m_var a \<noteq> m_var x" if "x \<in> set d" "m_var x \<noteq> RESERVED_VAR" for x
      using that Cons.prems unfolding separated_def in_set_conv_nth
      by (metis Suc_less_eq length_Cons nth_Cons_0 nth_Cons_Suc zero_less_Suc)
    ultimately show ?case using Cons.IH by auto
  qed simp
  then have ds: "distinct (map fst ?ls)" by (simp add: comp_def)
  have "(\<lambda>\<tau>. \<forall>mp \<in> set d. cond mp \<tau>) = (\<lambda>\<tau>. \<forall>(v, r, p) \<in> set ?ls. \<tau> v = r)" using False by (auto simp: cond_def fun_eq_iff)
  moreover have "Pr W (\<lambda>\<tau>. \<forall>(v, r, p) \<in> set ?ls. \<tau> v = r) = prod_list (map (\<lambda>(v, r, p). p) ?ls)"
    by (rule Pr_conj [OF W ds]) (use lits in auto)
  moreover have "prod_list (map m_prob ?fr) = prod_list (map m_prob d)"
    using False d(1) by (induction d) (auto simp: cond_ok_def split: if_splits)
  ultimately show ?thesis by (simp add: comp_def)
qed

text \<open>The conditions of a tuple: taken from the world table, not impossible, and the reserved one certain.\<close>

definition tuple_ok :: "wtable \<Rightarrow> lit list \<Rightarrow> bool" where
  "tuple_ok W c \<longleftrightarrow> wt_ok W \<and> in_wt W c \<and>
     (\<forall>(v, r, p) \<in> set c. p \<noteq> 0 \<and> (v = RESERVED_VAR \<longrightarrow> r = RNG_FOR_RESERVED_VAR \<and> p = 1))"

lemma Pr_sure:
  assumes "wt_ok W" "Pr W A = 1" "\<And>\<tau>. A \<tau> \<Longrightarrow> E \<tau> = F \<tau>"
  shows "Pr W E = Pr W F"
proof -
  have "Pr W G = Pr W (\<lambda>\<tau>. A \<tau> \<and> G \<tau>)" for G
  proof -
    have "Pr W (\<lambda>\<tau>. A \<tau> \<or> G \<tau>) = 1"
      using Pr_mono [OF assms(1), of A "\<lambda>\<tau>. A \<tau> \<or> G \<tau>"] Pr_le_1 [OF assms(1), of "\<lambda>\<tau>. A \<tau> \<or> G \<tau>"] assms(2) by auto
    then show ?thesis using Pr_add [of W A G] assms(2) by simp
  qed
  moreover have "Pr W (\<lambda>\<tau>. A \<tau> \<and> E \<tau>) = Pr W (\<lambda>\<tau>. A \<tau> \<and> F \<tau>)" by (rule Pr_cong) (use assms(3) in blast)
  ultimately show ?thesis by metis
qed

lemma conds_holds:
  assumes c: "tuple_ok W c"
  shows "Pr W (\<lambda>\<tau>. \<forall>mp \<in> set (map (\<lambda>(v, r, p). create_map v r 0 p) c). cond mp \<tau>) = Pr W (holds c)"
proof -
  have ev: "(\<forall>mp \<in> set (map (\<lambda>(v, r, p). create_map v r 0 p) c). cond mp \<tau>) = holds c \<tau>"
    if "RESERVED_VAR \<in> fst ` set c \<longrightarrow> \<tau> RESERVED_VAR = RNG_FOR_RESERVED_VAR" for \<tau>
  proof -
    have "cond (create_map v r 0 p) \<tau> \<longleftrightarrow> \<tau> v = r" if m: "(v, r, p) \<in> set c" for v r p
    proof (cases "v = RESERVED_VAR")
      case True
      then have "r = RNG_FOR_RESERVED_VAR" "p \<noteq> 0" "\<tau> RESERVED_VAR = RNG_FOR_RESERVED_VAR"
        using c m \<open>RESERVED_VAR \<in> fst ` set c \<longrightarrow> _\<close> by (force simp: tuple_ok_def)+
      then show ?thesis using True by (simp add: cond_def create_map_def)
    qed (use c m in \<open>force simp: tuple_ok_def cond_def create_map_def\<close>)
    then show ?thesis by (auto simp: holds_def)
  qed
  show ?thesis
  proof (cases "RESERVED_VAR \<in> fst ` set c")
    case False
    then show ?thesis by (intro Pr_cong) (use ev in blast)
  next
    case True
    then have "\<exists>d. (RESERVED_VAR, d) \<in> set W \<and> (RNG_FOR_RESERVED_VAR, 1) \<in> set d"
      using c by (fastforce simp: tuple_ok_def in_wt_def)
    then have "Pr W (\<lambda>\<tau>. \<tau> RESERVED_VAR = RNG_FOR_RESERVED_VAR) = 1"
      using Pr_assign [of W RESERVED_VAR _ RNG_FOR_RESERVED_VAR 1 "\<lambda>_. True"] Pr_True [of W] c by (auto simp: tuple_ok_def)
    then show ?thesis by (rule Pr_sure [rotated]) (use c ev in \<open>auto simp: tuple_ok_def\<close>)
  qed
qed

lemma product_ge_ok:
  assumes c: "tuple_ok W c"
  shows "product_ge (length c) c l = Inr (Pr W (holds c), l\<lparr>groupcxt := False\<rparr>)"
proof -
  let ?data = "map (\<lambda>(v, r, p). create_map v r 0 p) c"
  have lit: "cond_ok (create_map v r 0 p)" "\<exists>e. (v, e) \<in> set W \<and> (r, p) \<in> set e" if "(v, r, p) \<in> set c" for v r p
    using c that by (fastforce simp: tuple_ok_def in_wt_def cond_ok_def create_map_def)+
  have ok: "\<forall>mp \<in> set ?data. cond_ok mp" using lit(1) by auto
  obtain d where d: "resolve_loop (length c) ?data = Inr d" "same_conds ?data d" "separated (length c) d"
    using resolve_loop_ok [OF _ ok] by (auto elim!: ok_E)
  have len: "length d = length c" using d(2) by (simp add: same_conds_def)
  have "\<exists>e. (m_var mp, e) \<in> set W \<and> (m_rng mp, m_prob mp) \<in> set e" if mp: "mp \<in> set d" "m_var mp \<noteq> RESERVED_VAR" for mp
  proof -
    obtain j where j: "j < length c" "mp = d ! j" using mp(1) len by (auto simp: in_set_conv_nth)
    then have "mp = ?data ! j" using d(2) mp(2) by (auto simp: same_conds_def)
    then have "mp \<in> set ?data" using nth_mem [of j ?data] j by simp
    then show ?thesis using lit(2) by (auto simp: create_map_def)
  qed
  then have "Pr W (\<lambda>\<tau>. \<forall>mp \<in> set d. cond mp \<tau>) = prod_list (map m_prob d)"
    by (intro separated_probability) (use c d(2,3) len in \<open>auto simp: same_conds_def tuple_ok_def\<close>)
  moreover have "(\<lambda>\<tau>. \<forall>mp \<in> set d. cond mp \<tau>) = (\<lambda>\<tau>. \<forall>mp \<in> set ?data. cond mp \<tau>)" using d(2) unfolding same_conds_def fun_eq_iff by blast
  ultimately have "prod_list (map m_prob d) = Pr W (holds c)" using conds_holds [OF c] by simp
  then show ?thesis using create_maps [of c] d(1) product_loop [of "length c" d m_prob] len by (simp add: product_ge_def Let_def)
qed

section \<open>Properties\<close>

text \<open>
  C22. The tuple confidence of a tuple with any number of conditions is the probability that all
  of them hold, also when conditions on one variable are repeated or contradict each other; the
  function leaves no group open.
\<close>

theorem tconf_correct:
  assumes "tuple_ok W c"
  shows "product_ge (length c) c l = Inr (Pr W (holds c), l\<lparr>groupcxt := False\<rparr>)"
  by (rule product_ge_ok [OF assms])

theorem tconf_correct_witness:
  "product_ge 3 [(1, 1, 1/2), (2, 1, 1/4), (1, 1, 1/2)] \<lparr>S = None, current_size = 0, WSD_LEN = 0, groupcxt = False\<rparr> =
     Inr (1/8, \<lparr>S = None, current_size = 0, WSD_LEN = 0, groupcxt = False\<rparr>) \<and>
   product_ge 2 [(1, 1, 1/2), (1, 2, 1/2)] \<lparr>S = None, current_size = 0, WSD_LEN = 0, groupcxt = False\<rparr> =
     Inr (0, \<lparr>S = None, current_size = 0, WSD_LEN = 0, groupcxt = False\<rparr>)"
proof -
  let ?W = "[(1, [(1, 1/2), (2, 1/2)]), (2, [(1, 1/4), (2, 3/4)])] :: wtable"
  let ?l = "\<lparr>S = None, current_size = 0, WSD_LEN = 0, groupcxt = False\<rparr>"
  have ok: "tuple_ok ?W [(1, 1, 1/2), (2, 1, 1/4), (1, 1, 1/2)]" "tuple_ok ?W [(1, 1, 1/2), (1, 2, 1/2)]"
    by (simp_all add: tuple_ok_def wt_ok_def dist_ok_def in_wt_def RESERVED_VAR_def)
  have pr: "Pr ?W (holds [(1, 1, 1/2), (2, 1, 1/4), (1, 1, 1/2)]) = 1/8" "Pr ?W (holds [(1, 1, 1/2), (1, 2, 1/2)]) = 0"
    by (simp_all add: Pr_Cons)
  show ?thesis using tconf_correct [OF ok(1), of ?l] tconf_correct [OF ok(2), of ?l] unfolding pr by (simp add: numeral_2_eq_2 numeral_3_eq_3)
qed

end
