(* ===== verification/Argmax.thy ===== *)
theory Argmax
  imports Prelude
begin

text \<open>
  The aggregate \<open>argmax(value, weight)\<close> of \<^verbatim>\<open>backend/maybms/argmax.c\<close> and the argument
  tests of the same file. A transition receives the value kept so far, a new value and its
  weight; the largest weight so far is kept outside the transition value, in the
  \<open>argmaxState\<close> of the executor (\<^verbatim>\<open>include/nodes/execnodes.h\<close>), which starts at zero.

  Floats are reals, the infinities and not-a-number, since the comparison treats the latter
  specially. The values of the first argument are passed through, so their type is a parameter.

  The transitions share one contract, the locale \<open>weight_order\<close>: a comparison that orders the
  weights linearly up to ties. A run over a group keeps the last of the rows with the greatest
  weight, if this weight is not below the initial one (\<open>run_best\<close>), and the value it started
  with otherwise (\<open>run_below\<close>). Each comparison of the code interprets the locale.
\<close>

section \<open>Comparisons\<close>

datatype cfloat = NaN | NInf | Fin real | PInf

text \<open>The operators \<^verbatim>\<open>>\<close> and \<^verbatim>\<open><\<close> of C on floats that are not NaN.\<close>

fun fgreater :: "cfloat \<Rightarrow> cfloat \<Rightarrow> bool" where
  "fgreater NaN b = False"
| "fgreater a NaN = False"
| "fgreater NInf b = False"
| "fgreater a NInf = True"
| "fgreater PInf PInf = False"
| "fgreater PInf b = True"
| "fgreater (Fin x) PInf = False"
| "fgreater (Fin x) (Fin y) = (x > y)"

definition float4_cmp_internal :: "cfloat \<Rightarrow> cfloat \<Rightarrow> int" where
  "float4_cmp_internal a b =
     (if a = NaN then if b = NaN then 0 else 1
      else if b = NaN then - 1
      else if fgreater a b then 1 else if fgreater b a then - 1 else 0)"

definition float8_cmp_internal :: "cfloat \<Rightarrow> cfloat \<Rightarrow> int" where
  "float8_cmp_internal a b =
     (if a = NaN then if b = NaN then 0 else 1
      else if b = NaN then - 1
      else if fgreater a b then 1 else if fgreater b a then - 1 else 0)"

section \<open>Transitions\<close>

record argmaxState =
  float8MAX :: cfloat
  float4MAX :: cfloat
  int16MAX :: int
  int32MAX :: int
  int64MAX :: int

text \<open>The state allocated with \<open>palloc0\<close>.\<close>

definition argmax_init :: argmaxState where
  "argmax_init = \<lparr>float8MAX = Fin 0, float4MAX = Fin 0, int16MAX = 0, int32MAX = 0, int64MAX = 0\<rparr>"

text \<open>
  The macros. The arguments of the transition are the value kept, the new value and the weight;
  \<open>getm\<close> and \<open>setm\<close> access the field that the macro's argument names.
\<close>

definition argmax_float :: "(argmaxState \<Rightarrow> cfloat) \<Rightarrow> (cfloat \<Rightarrow> argmaxState \<Rightarrow> argmaxState) \<Rightarrow> (cfloat \<Rightarrow> cfloat \<Rightarrow> int) \<Rightarrow>
    'v \<Rightarrow> 'v \<Rightarrow> cfloat \<Rightarrow> argmaxState \<Rightarrow> 'v \<times> argmaxState" where
  "argmax_float getm setm cmp kept new weight state =
     (let arg1 = getm state; arg2 = weight
      in if cmp arg1 arg2 > 0 then (kept, setm arg1 state) else (new, setm arg2 state))"

definition argmax_int :: "(argmaxState \<Rightarrow> int) \<Rightarrow> (int \<Rightarrow> argmaxState \<Rightarrow> argmaxState) \<Rightarrow>
    'v \<Rightarrow> 'v \<Rightarrow> int \<Rightarrow> argmaxState \<Rightarrow> 'v \<times> argmaxState" where
  "argmax_int getm setm kept new weight state =
     (let arg1 = getm state; arg2 = weight
      in if arg1 > arg2 then (kept, setm arg1 state) else (new, setm arg2 state))"

definition argmax_int4_int2_accum :: "int \<Rightarrow> int \<Rightarrow> int \<Rightarrow> argmaxState \<Rightarrow> int \<times> argmaxState" where
  "argmax_int4_int2_accum = argmax_int int16MAX (\<lambda>m s. s\<lparr>int16MAX := m\<rparr>)"

definition argmax_int4_int4_accum :: "int \<Rightarrow> int \<Rightarrow> int \<Rightarrow> argmaxState \<Rightarrow> int \<times> argmaxState" where
  "argmax_int4_int4_accum = argmax_int int32MAX (\<lambda>m s. s\<lparr>int32MAX := m\<rparr>)"

definition argmax_int4_int8_accum :: "int \<Rightarrow> int \<Rightarrow> int \<Rightarrow> argmaxState \<Rightarrow> int \<times> argmaxState" where
  "argmax_int4_int8_accum = argmax_int int64MAX (\<lambda>m s. s\<lparr>int64MAX := m\<rparr>)"

definition argmax_int4_float4_accum :: "int \<Rightarrow> int \<Rightarrow> cfloat \<Rightarrow> argmaxState \<Rightarrow> int \<times> argmaxState" where
  "argmax_int4_float4_accum = argmax_float float4MAX (\<lambda>m s. s\<lparr>float4MAX := m\<rparr>) float4_cmp_internal"

definition argmax_int4_float8_accum :: "int \<Rightarrow> int \<Rightarrow> cfloat \<Rightarrow> argmaxState \<Rightarrow> int \<times> argmaxState" where
  "argmax_int4_float8_accum = argmax_float float8MAX (\<lambda>m s. s\<lparr>float8MAX := m\<rparr>) float8_cmp_internal"

text \<open>A \<open>varchar\<close> is passed as a datum, a pointer that is null for the value before the first row.\<close>

definition argmax_varchar_int2_accum :: "string option \<Rightarrow> string option \<Rightarrow> int \<Rightarrow> argmaxState \<Rightarrow> string option \<times> argmaxState" where
  "argmax_varchar_int2_accum = argmax_int int16MAX (\<lambda>m s. s\<lparr>int16MAX := m\<rparr>)"

definition argmax_varchar_int4_accum :: "string option \<Rightarrow> string option \<Rightarrow> int \<Rightarrow> argmaxState \<Rightarrow> string option \<times> argmaxState" where
  "argmax_varchar_int4_accum = argmax_int int32MAX (\<lambda>m s. s\<lparr>int32MAX := m\<rparr>)"

definition argmax_varchar_int8_accum :: "string option \<Rightarrow> string option \<Rightarrow> int \<Rightarrow> argmaxState \<Rightarrow> string option \<times> argmaxState" where
  "argmax_varchar_int8_accum = argmax_int int64MAX (\<lambda>m s. s\<lparr>int64MAX := m\<rparr>)"

definition argmax_varchar_float4_accum :: "string option \<Rightarrow> string option \<Rightarrow> cfloat \<Rightarrow> argmaxState \<Rightarrow> string option \<times> argmaxState" where
  "argmax_varchar_float4_accum = argmax_float float4MAX (\<lambda>m s. s\<lparr>float4MAX := m\<rparr>) float4_cmp_internal"

definition argmax_varchar_float8_accum :: "string option \<Rightarrow> string option \<Rightarrow> cfloat \<Rightarrow> argmaxState \<Rightarrow> string option \<times> argmaxState" where
  "argmax_varchar_float8_accum = argmax_float float8MAX (\<lambda>m s. s\<lparr>float8MAX := m\<rparr>) float8_cmp_internal"

section \<open>Tests of arguments\<close>

definition test_negative :: "cfloat \<Rightarrow> cfloat res" where
  "test_negative weight =
     (if float4_cmp_internal weight (Fin 0) < 0 then Inl (Elog ''Negative weight:%f. Weight must have a non-negative value'') else Inr weight)"

definition test_from_0_to_1 :: "cfloat \<Rightarrow> cfloat res" where
  "test_from_0_to_1 weight =
     (if float4_cmp_internal weight (Fin 0) < 0 \<or> float4_cmp_internal weight (Fin 1) > 0
      then Inl (Elog ''Invalid probability:%f. The probability must be from (0,1]. '') else Inr weight)"

section \<open>The contract of a comparison\<close>

locale weight_order =
  fixes greater :: "'w \<Rightarrow> 'w \<Rightarrow> bool"
  assumes asym: "greater a b \<Longrightarrow> \<not> greater b a"
    and negtrans: "\<not> greater a b \<Longrightarrow> \<not> greater b c \<Longrightarrow> \<not> greater a c"
begin

text \<open>One transition over the value kept and the largest weight, and a run over the rows of a group.\<close>

definition step :: "'v \<times> 'w \<Rightarrow> 'v \<times> 'w \<Rightarrow> 'v \<times> 'w" where
  "step row st = (case row of (v, w) \<Rightarrow> case st of (kept, m) \<Rightarrow> if greater m w then (kept, m) else (v, w))"

definition run :: "('v \<times> 'w) list \<Rightarrow> 'v \<times> 'w \<Rightarrow> 'v \<times> 'w" where
  "run rows st = fold step rows st"

lemma refl_not: "\<not> greater a a"
  using asym by blast

text \<open>The last row whose weight no row exceeds.\<close>

definition last_best :: "('v \<times> 'w) list \<Rightarrow> 'v \<times> 'w \<Rightarrow> bool" where
  "last_best rows row \<longleftrightarrow> (\<exists>xs ys. rows = xs @ row # ys \<and> (\<forall>x \<in> set xs. \<not> greater (snd x) (snd row)) \<and>
     (\<forall>y \<in> set ys. greater (snd row) (snd y)))"

lemma greater_trans: "greater a b \<Longrightarrow> greater b c \<Longrightarrow> greater a c"
  using asym negtrans by blast

lemma run_snoc: "run (rows @ [row]) st = step row (run rows st)"
  by (simp add: run_def)

lemma run_cases:
  "(run rows (kept, m) = (kept, m) \<and> (\<forall>row \<in> set rows. greater m (snd row))) \<or>
   (last_best rows (run rows (kept, m)) \<and> \<not> greater m (snd (run rows (kept, m))))"
proof (induction rows rule: rev_induct)
  case Nil
  show ?case by (simp add: run_def)
next
  case (snoc row rows)
  obtain v w where row: "row = (v, w)" by (cases row)
  obtain k b where st: "run rows (kept, m) = (k, b)" by (cases "run rows (kept, m)")
  have next_st: "run (rows @ [row]) (kept, m) = (if greater b w then (k, b) else (v, w))"
    by (simp add: run_snoc step_def row st)
  show ?case
  proof (cases "greater b w")
    case True
    from snoc.IH show ?thesis
    proof
      assume "run rows (kept, m) = (kept, m) \<and> (\<forall>row \<in> set rows. greater m (snd row))"
      then show ?thesis using next_st True st row by auto
    next
      assume l: "last_best rows (run rows (kept, m)) \<and> \<not> greater m (snd (run rows (kept, m)))"
      then obtain xs ys where "rows = xs @ (k, b) # ys" "\<forall>x \<in> set xs. \<not> greater (snd x) b" "\<forall>y \<in> set ys. greater b (snd y)"
        using st by (auto simp: last_best_def)
      then have "last_best (rows @ [row]) (k, b)" unfolding last_best_def
        by (intro exI [of _ xs] exI [of _ "ys @ [row]"]) (use True row in auto)
      then show ?thesis using l next_st True st by simp
    qed
  next
    case False
    have "\<not> greater (snd x) w" if "x \<in> set rows" for x
    proof -
      have "\<not> greater (snd x) b" using snoc.IH st that refl_not asym by (fastforce simp: last_best_def)
      then show ?thesis using False negtrans by blast
    qed
    moreover have "\<not> greater m w" using snoc.IH st False negtrans by auto
    ultimately show ?thesis using next_st False row unfolding last_best_def
      by (intro disjI2 conjI exI [of _ rows] exI [of _ "[]"]) auto
  qed
qed

lemma run_best:
  assumes "\<exists>row \<in> set rows. \<not> greater m (snd row)"
  shows "last_best rows (run rows (kept, m))"
  using run_cases [of rows kept m] assms by blast

lemma run_below: "\<forall>row \<in> set rows. greater m (snd row) \<Longrightarrow> run rows (kept, m) = (kept, m)"
  using run_cases [of rows kept m] unfolding last_best_def by (metis in_set_conv_decomp)

end

lemma float_order:
  "float4_cmp_internal a b > 0 \<Longrightarrow> \<not> float4_cmp_internal b a > 0"
  "\<not> float4_cmp_internal a b > 0 \<Longrightarrow> \<not> float4_cmp_internal b c > 0 \<Longrightarrow> \<not> float4_cmp_internal a c > 0"
proof -
  show "float4_cmp_internal a b > 0 \<Longrightarrow> \<not> float4_cmp_internal b a > 0"
    by (cases a; cases b) (auto simp: float4_cmp_internal_def split: if_splits)
  show "\<not> float4_cmp_internal a b > 0 \<Longrightarrow> \<not> float4_cmp_internal b c > 0 \<Longrightarrow> \<not> float4_cmp_internal a c > 0"
    by (cases a; cases b; cases c) (auto simp: float4_cmp_internal_def split: if_splits)
qed

lemma float8_eq_float4: "float8_cmp_internal = float4_cmp_internal"
  by (simp add: fun_eq_iff float8_cmp_internal_def float4_cmp_internal_def)

interpretation ints: weight_order "(>) :: int \<Rightarrow> int \<Rightarrow> bool"
  by unfold_locales auto

interpretation floats: weight_order "\<lambda>a b. float4_cmp_internal a b > 0"
  by unfold_locales (rule float_order; assumption)+

text \<open>
  A transition function over the executor's state: it acts on the value kept and on one field
  of the state as a step does. A group is a run of the transition over its rows.
\<close>

definition argmax_group :: "('v \<Rightarrow> 'v \<Rightarrow> 'w \<Rightarrow> argmaxState \<Rightarrow> 'v \<times> argmaxState) \<Rightarrow> ('v \<times> 'w) list \<Rightarrow> 'v \<times> argmaxState \<Rightarrow> 'v \<times> argmaxState" where
  "argmax_group accum rows st = fold (\<lambda>(v, w) (kept, s). accum kept v w s) rows st"

locale transition = weight_order greater for greater :: "'w \<Rightarrow> 'w \<Rightarrow> bool" +
  fixes accum :: "'v \<Rightarrow> 'v \<Rightarrow> 'w \<Rightarrow> argmaxState \<Rightarrow> 'v \<times> argmaxState" and getm :: "argmaxState \<Rightarrow> 'w"
  assumes accum_step: "accum kept v w s = (k, t) \<Longrightarrow> (k, getm t) = step (v, w) (kept, getm s)"
begin

lemma group_run: "argmax_group accum rows (kept, s) = (k, t) \<Longrightarrow> run rows (kept, getm s) = (k, getm t)"
proof (induction rows arbitrary: k t rule: rev_induct)
  case Nil
  then show ?case by (simp add: argmax_group_def run_def)
next
  case (snoc row rows)
  obtain v w where row: "row = (v, w)" by (cases row)
  obtain k' t' where st: "argmax_group accum rows (kept, s) = (k', t')" by (cases "argmax_group accum rows (kept, s)")
  have "accum k' v w t' = (k, t)" using snoc.prems st row by (simp add: argmax_group_def)
  then show ?case using accum_step snoc.IH [OF st] row by (simp add: run_snoc)
qed

lemma group_best:
  assumes "argmax_group accum rows (kept, s) = (k, t)" "\<exists>row \<in> set rows. \<not> greater (getm s) (snd row)"
  shows "last_best rows (k, getm t)"
  using run_best [OF assms(2), of kept] group_run [OF assms(1)] by simp

lemma group_below:
  assumes "argmax_group accum rows (kept, s) = (k, t)" "\<forall>row \<in> set rows. greater (getm s) (snd row)"
  shows "k = kept" "getm t = getm s"
  using run_below [OF assms(2), of kept] group_run [OF assms(1)] by simp_all

end

text \<open>Every transition function of the file meets the contract.\<close>

lemmas argmax_defs = argmax_int_def argmax_float_def ints.step_def floats.step_def Let_def

interpretation int4_int2: transition "(>)" argmax_int4_int2_accum int16MAX
  by unfold_locales (auto simp: argmax_int4_int2_accum_def argmax_defs split: if_splits)

interpretation int4_int4: transition "(>)" argmax_int4_int4_accum int32MAX
  by unfold_locales (auto simp: argmax_int4_int4_accum_def argmax_defs split: if_splits)

interpretation int4_int8: transition "(>)" argmax_int4_int8_accum int64MAX
  by unfold_locales (auto simp: argmax_int4_int8_accum_def argmax_defs split: if_splits)

interpretation int4_float4: transition "\<lambda>a b. float4_cmp_internal a b > 0" argmax_int4_float4_accum float4MAX
  by unfold_locales (auto simp: argmax_int4_float4_accum_def argmax_defs split: if_splits)

interpretation int4_float8: transition "\<lambda>a b. float4_cmp_internal a b > 0" argmax_int4_float8_accum float8MAX
  by unfold_locales (auto simp: argmax_int4_float8_accum_def float8_eq_float4 argmax_defs split: if_splits)

interpretation varchar_int2: transition "(>)" argmax_varchar_int2_accum int16MAX
  by unfold_locales (auto simp: argmax_varchar_int2_accum_def argmax_defs split: if_splits)

interpretation varchar_int4: transition "(>)" argmax_varchar_int4_accum int32MAX
  by unfold_locales (auto simp: argmax_varchar_int4_accum_def argmax_defs split: if_splits)

interpretation varchar_int8: transition "(>)" argmax_varchar_int8_accum int64MAX
  by unfold_locales (auto simp: argmax_varchar_int8_accum_def argmax_defs split: if_splits)

interpretation varchar_float4: transition "\<lambda>a b. float4_cmp_internal a b > 0" argmax_varchar_float4_accum float4MAX
  by unfold_locales (auto simp: argmax_varchar_float4_accum_def argmax_defs split: if_splits)

interpretation varchar_float8: transition "\<lambda>a b. float4_cmp_internal a b > 0" argmax_varchar_float8_accum float8MAX
  by unfold_locales (auto simp: argmax_varchar_float8_accum_def float8_eq_float4 argmax_defs split: if_splits)

section \<open>Properties\<close>

text \<open>
  C37. Over a group with a weight that is not negative, started in the zero state, \<open>argmax\<close> with
  integer weights returns the value of the last row among those with the greatest weight, and
  the state holds this weight.
\<close>

theorem argmax_int_correct:
  assumes "argmax_group argmax_int4_int4_accum rows (kept, argmax_init) = (k, t)" "\<exists>row \<in> set rows. 0 \<le> snd row"
  shows "\<exists>xs ys. rows = xs @ (k, int32MAX t) # ys \<and> (\<forall>x \<in> set xs. snd x \<le> int32MAX t) \<and> (\<forall>y \<in> set ys. snd y < int32MAX t)"
  using int4_int4.group_best [OF assms(1)] assms(2) by (auto simp: ints.last_best_def argmax_init_def not_less)

theorem argmax_int_correct_witness:
  "fst (argmax_group argmax_int4_int4_accum [(10, 3), (20, 7), (30, 7), (40, 2)] (0, argmax_init)) = 30"
proof -
  obtain k t where kt: "argmax_group argmax_int4_int4_accum [(10, 3), (20, 7), (30, 7), (40, 2)] (0, argmax_init) = (k, t)"
    by (cases "argmax_group argmax_int4_int4_accum [(10, 3), (20, 7), (30, 7), (40, 2)] (0, argmax_init)")
  from argmax_int_correct [OF kt] have "k = 30" by (auto simp: Cons_eq_append_conv)
  then show ?thesis using kt by simp
qed

text \<open>
  With float weights the same holds for the order in which not-a-number is above every
  number: a group with such a weight returns the value of the last row that has it.
\<close>

theorem argmax_float_nan:
  assumes "argmax_group argmax_varchar_float8_accum rows (kept, argmax_init) = (k, t)" "NaN \<in> snd ` set rows"
  shows "float8MAX t = NaN \<and> (\<exists>xs ys. rows = xs @ (k, NaN) # ys \<and> NaN \<notin> snd ` set ys)"
proof -
  have "\<exists>row \<in> set rows. \<not> 0 < float4_cmp_internal (float8MAX argmax_init) (snd row)"
    using assms(2) by (force simp: float4_cmp_internal_def argmax_init_def)
  from varchar_float8.group_best [OF assms(1) this]
  obtain xs ys where r: "rows = xs @ (k, float8MAX t) # ys" "\<forall>x \<in> set xs. \<not> 0 < float4_cmp_internal (snd x) (float8MAX t)"
    "\<forall>y \<in> set ys. 0 < float4_cmp_internal (float8MAX t) (snd y)" by (auto simp: floats.last_best_def)
  then have "NaN \<notin> snd ` set ys" by (auto simp: float4_cmp_internal_def split: if_splits)
  moreover have "float8MAX t = NaN"
    using assms(2) r by (auto simp: float4_cmp_internal_def split: if_splits)
  ultimately show ?thesis using r(1) by auto
qed

theorem argmax_float_nan_witness:
  "fst (argmax_group argmax_varchar_float8_accum [(Some ''a'', NaN), (Some ''b'', PInf)] (None, argmax_init)) = Some ''a''"
proof -
  obtain k t where kt: "argmax_group argmax_varchar_float8_accum [(Some ''a'', NaN), (Some ''b'', PInf)] (None, argmax_init) = (k, t)"
    by (cases "argmax_group argmax_varchar_float8_accum [(Some ''a'', NaN), (Some ''b'', PInf)] (None, argmax_init)")
  from argmax_float_nan [OF kt] have "k = Some ''a''" by (auto simp: Cons_eq_append_conv)
  then show ?thesis using kt by simp
qed

text \<open>
  C38. The state outlives a group when the executor does not clear it: if every weight of a group
  is below the largest weight left from before - zero at first, so already for a first group of
  negative weights - no row is returned, but the value the group was started with.
\<close>

theorem argmax_below_stale_maximum:
  assumes "argmax_group argmax_int4_int4_accum rows (kept, s) = (k, t)" "\<forall>row \<in> set rows. snd row < int32MAX s"
  shows "k = kept \<and> int32MAX t = int32MAX s"
  using int4_int4.group_below [OF assms(1)] assms(2) by simp

theorem argmax_below_stale_maximum_witness:
  "fst (argmax_group argmax_int4_int4_accum [(10, - 3), (20, - 7)] (0, argmax_init)) = 0"
proof -
  obtain k t where kt: "argmax_group argmax_int4_int4_accum [(10, - 3), (20, - 7)] (0, argmax_init) = (k, t)"
    by (cases "argmax_group argmax_int4_int4_accum [(10, - 3), (20, - 7)] (0, argmax_init)")
  from argmax_below_stale_maximum [OF kt] have "k = 0" by (simp add: argmax_init_def)
  then show ?thesis using kt by simp
qed

text \<open>
  The test of a probability accepts exactly the numbers from zero to one, both ends included,
  and raises an error otherwise, also for not-a-number, which orders above one.
\<close>

lemma test_from_0_to_1_accepts:
  "test_from_0_to_1 w = (case w of Fin x \<Rightarrow> if 0 \<le> x \<and> x \<le> 1 then Inr w else Inl (Elog ''Invalid probability:%f. The probability must be from (0,1]. '')
     | _ \<Rightarrow> Inl (Elog ''Invalid probability:%f. The probability must be from (0,1]. ''))"
  by (cases w) (auto simp: test_from_0_to_1_def float4_cmp_internal_def)

end
