(* ===== verification/Aconf.thy ===== *)
theory Aconf
  imports WSTree
begin

text \<open>
  Monte Carlo approximation of confidence, \<open>aconf(epsilon, delta)\<close>, in
  \<^verbatim>\<open>backend/maybms/aconf.c\<close>: the Karp-Luby estimator in the version that returns the
  inverse of the number of satisfied clauses (\<open>compute_estimator\<close>) and the algorithm of Dagum,
  Karp, Luby and Ross that decides how often to run it (\<open>AA_algorithm\<close>).

  The values of the successive calls of \<^verbatim>\<open>rand()\<close>, converted to a probability, are a function
  \<open>rnd\<close> of the number of the call; the model threads this number. The loops of
  \<open>AA_algorithm\<close> count in a 32-bit \<open>int\<close>, whose overflow is the error \<open>Overflow\<close>.

  The main facts: the estimator lies between the inverse of the number of clauses and one for
  every sequence of random numbers, it is unbiased (\<open>compute_estimator_unbiased\<close>), and the algorithm
  ends. The contract between the two is the locale \<open>estimator\<close>.
\<close>

section \<open>Sampling\<close>

definition RAND_MAX :: real where "RAND_MAX = 2147483647"

fun choose_loop :: "real \<Rightarrow> real \<Rightarrow> real list \<Rightarrow> nat \<Rightarrow> nat option" where
  "choose_loop pick offset [] i = None"
| "choose_loop pick offset (p # ps) i =
     (let offset = offset + p * RAND_MAX in if pick \<le> offset then Some i else choose_loop pick offset ps (Suc i))"

definition choose_with_distribution :: "real list \<Rightarrow> real \<Rightarrow> int" where
  "choose_with_distribution distrib pick =
     (case choose_loop pick 0 distrib 0 of Some i \<Rightarrow> int i | None \<Rightarrow> int (length distrib) - 1)"

definition choose_with_distribution_2 :: "worldTableEntry \<Rightarrow> real \<Rightarrow> int res" where
  "choose_with_distribution_2 entry pick =
     rbind (iread (rng_entries entry) (choose_with_distribution (map re_p (rng_entries entry)) pick)) (\<lambda>r. Inr (re_rng r))"

section \<open>The estimator\<close>

type_synonym draws = "nat \<Rightarrow> real"

text \<open>\<open>Cij\<close>: the value the clause gives the variable, minus one for none.\<close>

definition clause_value :: "nat \<Rightarrow> WSD \<Rightarrow> int \<Rightarrow> int res" where
  "clause_value L d var =
     for_upto L (\<lambda>k Cij. rbind (aread (d_data d) k) (\<lambda>mp. Inr (if m_var mp = var then m_rng mp else Cij))) (- 1)"

definition set_tau :: "nat \<Rightarrow> int \<Rightarrow> generalState \<Rightarrow> generalState" where
  "set_tau j t s = s\<lparr>wt_entries := (wt_entries s)[j := (wt_entries s ! j)\<lparr>tau := t\<rparr>]\<rparr>"

definition pick_tau :: "draws \<Rightarrow> nat \<Rightarrow> WSD \<Rightarrow> generalState \<times> nat \<Rightarrow> (generalState \<times> nat) res" where
  "pick_tau rnd L d st =
     for_upto (length (wt_entries (fst st))) (\<lambda>j (s, pos).
       rbind (aread (wt_entries s) j) (\<lambda>entry.
       rbind (clause_value L d (we_var entry)) (\<lambda>Cij.
       if Cij = - 1 then
         rbind (choose_with_distribution_2 entry (rnd pos)) (\<lambda>t. Inr (set_tau j t s, Suc pos))
       else Inr (set_tau j Cij s, pos)))) st"

definition count_satisfied :: "nat \<Rightarrow> WSD list \<Rightarrow> generalState \<Rightarrow> nat res" where
  "count_satisfied L ws s =
     for_upto (length ws) (\<lambda>i c_tau.
       rbind (aread ws i) (\<lambda>d.
       rbind (first_index L (\<lambda>k.
         rbind (aread (d_data d) k) (\<lambda>mp.
         rbind (deref (wt_entry mp)) (\<lambda>e.
         rbind (aread (wt_entries s) e) (\<lambda>entry.
         Inr (tau entry \<noteq> m_rng mp))))) 0) (\<lambda>k.
       Inr (if k < L then c_tau else Suc c_tau)))) 0"

text \<open>The count is never zero (\<open>compute_estimator_ok\<close>), so the quotient is that of C.\<close>

definition compute_estimator :: "draws \<Rightarrow> nat \<Rightarrow> WSD list \<Rightarrow> real list \<Rightarrow> generalState \<times> nat \<Rightarrow> (real \<times> generalState \<times> nat) res" where
  "compute_estimator rnd L ws clause_bag_prob = (\<lambda>(s, pos).
     rbind (iread ws (choose_with_distribution clause_bag_prob (rnd pos))) (\<lambda>d.
     rbind (pick_tau rnd L d (s, Suc pos)) (\<lambda>(s, pos).
     rbind (count_satisfied L ws s) (\<lambda>c_tau.
     Inr (1 / real c_tau, s, pos)))))"

section \<open>The number of steps\<close>

text \<open>The constants of the algorithm; \<open>euler\<close> is its approximation of the base of the logarithm.\<close>

definition euler :: real where "euler = 2718281828459 / 1000000000000"

definition upsilon :: "real \<Rightarrow> real \<Rightarrow> real" where
  "upsilon epsilon delta = 4 * (euler - 2) * ln (2 / delta) / (epsilon * epsilon)"

definition upsilon2 :: "real \<Rightarrow> real \<Rightarrow> real" where
  "upsilon2 epsilon delta =
     2 * (1 + sqrt epsilon) * (1 + 2 * sqrt epsilon) * (1 + ln (3/2)) / ln (2 / delta) * upsilon epsilon delta"

definition epsilon_sra :: "real \<Rightarrow> real" where
  "epsilon_sra epsilon = (if 1/2 < sqrt epsilon then 1/2 else sqrt epsilon)"

definition upsilon1_sra :: "real \<Rightarrow> real \<Rightarrow> real" where
  "upsilon1_sra epsilon delta =
     (let delta_sra = delta / 3;
          upsilon_sra = 4 * (euler - 2) * ln (2 / delta_sra) / (epsilon_sra epsilon * epsilon_sra epsilon)
      in 1 + (1 + epsilon_sra epsilon) * upsilon_sra)"

text \<open>
  The loops, over any estimator \<open>est\<close>. The first one has fuel, which \<open>sra_loop_ok\<close> shows to be
  enough; \<open>N\<close> and \<open>i\<close> are of type \<open>int\<close>.
\<close>

primrec sra_loop :: "nat \<Rightarrow> ('s \<Rightarrow> (real \<times> 's) res) \<Rightarrow> real \<Rightarrow> int \<Rightarrow> real \<Rightarrow> 's \<Rightarrow> (int \<times> 's) res" where
  "sra_loop 0 = (\<lambda>est bound N S st. Inl OutOfFuel)"
| "sra_loop (Suc fuel) = (\<lambda>est bound N S st.
     if S < bound then
       if N + 1 < 2 ^ 31 then rbind (est st) (\<lambda>(x, st). sra_loop fuel est bound (N + 1) (S + x) st)
       else Inl Overflow
     else Inr (N, st))"

definition SRA_FUEL :: "real \<Rightarrow> nat \<Rightarrow> nat" where
  "SRA_FUEL bound n = nat \<lceil>bound * real n\<rceil> + 3"

definition variance_loop :: "('s \<Rightarrow> (real \<times> 's) res) \<Rightarrow> real \<Rightarrow> 's \<Rightarrow> (real \<times> 's) res" where
  "variance_loop est N st =
     (if N \<ge> 2 ^ 31 - 1 then Inl Overflow
      else for_upto (nat \<lfloor>N\<rfloor>) (\<lambda>_ (S, st).
        rbind (est st) (\<lambda>(x, st).
        rbind (est st) (\<lambda>(y, st).
        let kl2 = x - y in Inr (S + kl2 * kl2 / 2, st)))) (0, st))"

definition mean_loop :: "('s \<Rightarrow> (real \<times> 's) res) \<Rightarrow> real \<Rightarrow> 's \<Rightarrow> (real \<times> 's) res" where
  "mean_loop est N st =
     (if N > 2 ^ 31 - 1 then Inl Overflow
      else for_upto (nat \<lceil>N\<rceil>) (\<lambda>_ (S, st). rbind (est st) (\<lambda>(x, st). Inr (S + x, st))) (0, st))"

definition AA_algorithm :: "('s \<Rightarrow> (real \<times> 's) res) \<Rightarrow> nat \<Rightarrow> real \<Rightarrow> real \<Rightarrow> 's \<Rightarrow> (real \<times> 's) res" where
  "AA_algorithm est n epsilon delta st =
     (let bound = upsilon1_sra epsilon delta in
      rbind (sra_loop (SRA_FUEL bound n) est bound 0 0 st) (\<lambda>(N, st).
      let mu_hat = bound / real_of_int N;
          N = real_of_int \<lceil>upsilon2 epsilon delta * epsilon / mu_hat\<rceil> in
      rbind (variance_loop est N st) (\<lambda>(S, st).
      let rho_hat = (if S / N > epsilon * mu_hat then S / N else epsilon * mu_hat);
          N = upsilon2 epsilon delta * rho_hat / (mu_hat * mu_hat) in
      rbind (mean_loop est N st) (\<lambda>(S, st).
      Inr (S / N, st)))))"

section \<open>The aggregate\<close>

record aconf_args =
  epsilon :: real
  delta :: real

type_synonym aconf_state = "aconf_args \<times> lineage \<times> generalState"

definition aconf_accum :: "nat \<Rightarrow> real \<Rightarrow> real \<Rightarrow> (int \<times> int \<times> real) list \<Rightarrow> aconf_state \<Rightarrow> aconf_state res" where
  "aconf_accum n e d args = (\<lambda>(g, l, s).
     let g = g\<lparr>epsilon := e, delta := d\<rparr> in rbind (accum n args l s) (\<lambda>(l, s). Inr (g, l, s)))"

definition aconf_accum0 :: "aconf_state \<Rightarrow> aconf_state res" where "aconf_accum0 st = Inr st"
definition aconf_accum1 where "aconf_accum1 = aconf_accum 1"
definition aconf_accum2 where "aconf_accum2 = aconf_accum 2"
definition aconf_accum3 where "aconf_accum3 = aconf_accum 3"
definition aconf_accum4 where "aconf_accum4 = aconf_accum 4"
definition aconf_accum5 where "aconf_accum5 = aconf_accum 5"
definition aconf_accum6 where "aconf_accum6 = aconf_accum 6"
definition aconf_accum7 where "aconf_accum7 = aconf_accum 7"
definition aconf_accum8 where "aconf_accum8 = aconf_accum 8"
definition aconf_accum9 where "aconf_accum9 = aconf_accum 9"
definition aconf_accum10 where "aconf_accum10 = aconf_accum 10"

definition aconf_final :: "draws \<Rightarrow> nat \<Rightarrow> aconf_state \<Rightarrow> (real \<times> lineage \<times> generalState \<times> nat) res" where
  "aconf_final rnd pos = (\<lambda>(g, l, s).
     if \<not> groupcxt l then Inr (0, l, s, pos)
     else
       rbind (getMissingRngs s) (\<lambda>s.
       rbind (deref (S l)) (\<lambda>ws.
       rbind (computeEntryPointers (WSD_LEN l) s ws) (\<lambda>ws.
       let nM = (\<Sum>d\<leftarrow>ws. d_prob d);
           clause_bag_prob = map (\<lambda>d. d_prob d / nM) ws in
       rbind (AA_algorithm (compute_estimator rnd (WSD_LEN l) ws clause_bag_prob) (length ws) (epsilon g) (delta g) (s, pos))
         (\<lambda>(result, s, pos).
       Inr (result * nM, l\<lparr>S := None, groupcxt := False\<rparr>, s, pos))))))"

section \<open>The contract of an estimator\<close>

text \<open>
  A state invariant under which every call returns a number between \<open>1 / n\<close> and one and keeps
  the invariant.
\<close>

text \<open>The counts of the algorithm stay within an \<open>int\<close>.\<close>

definition aa_fits :: "nat \<Rightarrow> real \<Rightarrow> real \<Rightarrow> bool" where
  "aa_fits n e d \<longleftrightarrow> upsilon1_sra e d * real n + 2 \<le> 2 ^ 31 \<and> upsilon2 e d * (real n + 1)\<^sup>2 \<le> 2 ^ 31 - 1"

lemma upsilon2_eq:
  assumes "0 < d" "d < 1" "0 < e"
  shows "upsilon2 e d = 8 * (euler - 2) * (1 + sqrt e) * (1 + 2 * sqrt e) * (1 + ln (3/2)) / (e * e)"
proof -
  have "0 < ln (2 / d)" using assms by simp
  then show ?thesis using assms(3) by (simp add: upsilon2_def upsilon_def field_simps)
qed

lemma constants_ok:
  assumes e: "0 < e" "e \<le> 1" and d: "0 < d" "d < 1"
  shows "1 \<le> upsilon1_sra e d" "1 \<le> upsilon2 e d * e" "1 \<le> upsilon2 e d"
proof -
  have sra: "0 < epsilon_sra e" using e by (simp add: epsilon_sra_def)
  have "0 \<le> ln (2 / (d / 3))" using d by (intro ln_ge_zero) (simp add: field_simps)
  then show "1 \<le> upsilon1_sra e d" using sra by (simp add: upsilon1_sra_def Let_def euler_def)
  let ?c = "(1 + sqrt e) * (1 + 2 * sqrt e) * (1 + ln (3/2))"
  have "1 * 1 * 1 \<le> ?c" using e by (intro mult_mono) (auto intro!: ln_ge_zero)
  then have "1 \<le> 8 * (euler - 2) * ?c" by (simp add: euler_def)
  moreover have "upsilon2 e d * e = 8 * (euler - 2) * ?c / e" using upsilon2_eq [OF d e(1)] e(1) by simp
  ultimately show *: "1 \<le> upsilon2 e d * e" using e by (simp add: pos_le_divide_eq)
  show "1 \<le> upsilon2 e d"
  proof (rule ccontr)
    assume "\<not> 1 \<le> upsilon2 e d"
    then have "upsilon2 e d * e < 1 * e" using e by (intro mult_strict_right_mono) auto
    then show False using * e by linarith
  qed
qed

locale estimator =
  fixes est :: "'s \<Rightarrow> (real \<times> 's) res" and n :: nat and inv :: "'s \<Rightarrow> bool"
  assumes est_ok: "inv st \<Longrightarrow> ok (est st) (\<lambda>(x, st'). 1 / real n \<le> x \<and> x \<le> 1 \<and> inv st')"
    and n_pos: "inv st \<Longrightarrow> 0 < n"
begin

lemma sra_loop_ok:
  assumes "inv st" "0 \<le> N" "real_of_int N / real n \<le> q" "q \<le> real_of_int N" "real_of_int N < bound * real n + 1"
    "bound * real n + 2 \<le> 2 ^ 31" "bound * real n - real_of_int N + 1 < real fuel"
  shows "ok (sra_loop fuel est bound N q st) (\<lambda>(N', st'). inv st' \<and> bound \<le> real_of_int N' \<and> real_of_int N' < bound * real n + 1)"
  using assms
proof (induction fuel arbitrary: N q st)
  case (Suc fuel)
  have n: "0 < real n" using n_pos [OF Suc.prems(1)] by simp
  show ?case
  proof (cases "q < bound")
    case False
    then show ?thesis using Suc.prems by simp
  next
    case True
    then have "real_of_int N / real n < bound" using Suc.prems(3) by simp
    then have lt: "real_of_int N < bound * real n" using n by (simp add: pos_divide_less_eq)
    then have "real_of_int (N + 1) < real_of_int (2 ^ 31)" using Suc.prems(6) by simp
    then have "N + 1 < 2 ^ 31" by (simp only: of_int_less_iff)
    moreover have "ok (est st) (\<lambda>(x, st). ok (sra_loop fuel est bound (N + 1) (q + x) st)
        (\<lambda>(N', st'). inv st' \<and> bound \<le> real_of_int N' \<and> real_of_int N' < bound * real n + 1))"
    proof (rule ok_mono [OF est_ok [OF Suc.prems(1)]], clarify)
      fix x st' assume x: "1 / real n \<le> x" "x \<le> 1" "inv st'"
      have "real_of_int (N + 1) / real n = real_of_int N / real n + 1 / real n" by (simp add: add_divide_distrib)
      then show "ok (sra_loop fuel est bound (N + 1) (q + x) st')
          (\<lambda>(N', st'). inv st' \<and> bound \<le> real_of_int N' \<and> real_of_int N' < bound * real n + 1)"
        using x Suc.prems lt by (intro Suc.IH) (assumption | linarith)+
    qed
    ultimately show ?thesis using True by (auto elim!: ok_mono)
  qed
qed simp

lemma sum_loop_ok:
  assumes "inv st"
  shows "ok (for_upto m (\<lambda>_ (q, st). rbind (est st) (\<lambda>(x, st). Inr (q + x, st))) (0, st))
    (\<lambda>(q, st'). inv st' \<and> real m / real n \<le> q \<and> q \<le> real m)"
proof (rule ok_for_upto [where I = "\<lambda>k (q, st'). inv st' \<and> real k / real n \<le> q \<and> q \<le> real k"])
  fix i t assume t: "case t of (q, st') \<Rightarrow> inv st' \<and> real i / real n \<le> q \<and> q \<le> real i"
  obtain q0 s0 where [simp]: "t = (q0, s0)" by (cases t)
  obtain x s1 where "est s0 = Inr (x, s1)" "1 / real n \<le> x" "x \<le> 1" "inv s1" using est_ok [of s0] t by (auto elim!: ok_E)
  then show "ok (case t of (q, st) \<Rightarrow> rbind (est st) (\<lambda>(x, st). Inr (q + x, st)))
      (\<lambda>(q, st'). inv st' \<and> real (Suc i) / real n \<le> q \<and> q \<le> real (Suc i))"
    using t by (simp add: add_divide_distrib)
qed (use assms in simp)

lemma square_loop_ok:
  assumes "inv st"
  shows "ok (for_upto m (\<lambda>_ (q, st). rbind (est st) (\<lambda>(x, st). rbind (est st) (\<lambda>(y, st).
      let kl2 = x - y in Inr (q + kl2 * kl2 / 2, st)))) (0, st))
    (\<lambda>(q, st'). inv st' \<and> 0 \<le> q \<and> q \<le> real m / 2)"
proof (rule ok_for_upto [where I = "\<lambda>k (q, st'). inv st' \<and> 0 \<le> q \<and> q \<le> real k / 2"])
  fix i t assume t: "case t of (q, st') \<Rightarrow> inv st' \<and> 0 \<le> q \<and> q \<le> real i / 2"
  obtain S0 s0 where [simp]: "t = (S0, s0)" by (cases t)
  obtain x s1 where x: "est s0 = Inr (x, s1)" "1 / real n \<le> x" "x \<le> 1" "inv s1" using est_ok [of s0] t by (auto elim!: ok_E)
  obtain y s2 where y: "est s1 = Inr (y, s2)" "1 / real n \<le> y" "y \<le> 1" "inv s2" using est_ok [of s1] x(4) by (auto elim!: ok_E)
  have "0 \<le> 1 / real n" by simp
  then have "\<bar>x - y\<bar> \<le> 1" using x y by linarith
  then have "(x - y) * (x - y) \<le> 1" using abs_le_square_iff [of "x - y" 1] by (simp add: power2_eq_square)
  moreover have "0 \<le> (x - y) * (x - y)" by simp
  ultimately show "ok (case t of (q, st) \<Rightarrow> rbind (est st) (\<lambda>(x, st). rbind (est st) (\<lambda>(y, st).
      let kl2 = x - y in Inr (q + kl2 * kl2 / 2, st)))) (\<lambda>(q, st'). inv st' \<and> 0 \<le> q \<and> q \<le> real (Suc i) / 2)"
    using x(1) y(1,4) t by (simp add: Let_def add_divide_distrib)
qed (use assms in simp)

text \<open>The three steps of the algorithm.\<close>

lemma step1_ok:
  assumes st: "inv st" and e: "0 < e" "e \<le> 1" and d: "0 < d" "d < 1" and fits: "aa_fits n e d"
  shows "ok (sra_loop (SRA_FUEL (upsilon1_sra e d) n) est (upsilon1_sra e d) 0 0 st) (\<lambda>(N, st').
    inv st' \<and> 0 < upsilon1_sra e d / real_of_int N \<and> upsilon1_sra e d / real_of_int N \<le> 1 \<and>
    1 \<le> upsilon1_sra e d / real_of_int N * (real n + 1))"
proof -
  let ?b = "upsilon1_sra e d"
  note c = constants_ok [OF e d]
  have n: "1 \<le> real n" using n_pos [OF st] by simp
  have "ok (sra_loop (SRA_FUEL ?b n) est ?b 0 0 st) (\<lambda>(N, st'). inv st' \<and> ?b \<le> real_of_int N \<and> real_of_int N < ?b * real n + 1)"
  proof (rule sra_loop_ok [OF st])
    have "?b * real n \<le> real (nat \<lceil>?b * real n\<rceil>)" by linarith
    then show "?b * real n - real_of_int 0 + 1 < real (SRA_FUEL ?b n)" by (simp add: SRA_FUEL_def)
    show "real_of_int 0 < ?b * real n + 1" using c(1) n by (simp add: add_pos_nonneg)
  qed (use fits in \<open>simp_all add: aa_fits_def\<close>)
  moreover have "0 < ?b / real_of_int N \<and> ?b / real_of_int N \<le> 1 \<and> 1 \<le> ?b / real_of_int N * (real n + 1)"
    if "?b \<le> real_of_int N" "real_of_int N < ?b * real n + 1" for N
  proof -
    have N: "1 \<le> real_of_int N" using that(1) c(1) by linarith
    have "real_of_int N \<le> ?b * (real n + 1)" using that(2) c(1) by (simp add: algebra_simps)
    then show ?thesis using N that(1) c(1) by (simp add: pos_le_divide_eq)
  qed
  ultimately show ?thesis by (auto elim!: ok_mono)
qed

lemma step2_ok:
  assumes "inv st" "1 \<le> N" "N < 2 ^ 31 - 1" "N = real_of_int k"
  shows "ok (variance_loop est N st) (\<lambda>(q, st'). inv st' \<and> 0 \<le> q / N \<and> q / N \<le> 1)"
proof -
  have "q / N \<le> 1" if "q \<le> real (nat \<lfloor>N\<rfloor>) / 2" for q using that assms(2,4) by (simp add: divide_le_eq)
  then show ?thesis
    using square_loop_ok [OF assms(1), of "nat \<lfloor>N\<rfloor>"] assms(2,3) by (auto simp: variance_loop_def elim!: ok_mono)
qed

lemma step3_ok:
  assumes "inv st" "1 \<le> N" "N \<le> 2 ^ 31 - 1"
  shows "ok (mean_loop est N st) (\<lambda>(p, st'). inv st' \<and> 1 / real n \<le> p / N \<and> p / N \<le> 2)"
proof -
  have c: "N \<le> real (nat \<lceil>N\<rceil>)" "real (nat \<lceil>N\<rceil>) \<le> 2 * N" using assms(2) by linarith+
  have "N / real n \<le> real (nat \<lceil>N\<rceil>) / real n" using c(1) by (intro divide_right_mono) auto
  then have "1 / real n \<le> p / N \<and> p / N \<le> 2" if "real (nat \<lceil>N\<rceil>) / real n \<le> p" "p \<le> real (nat \<lceil>N\<rceil>)" for p
  proof -
    have "N / real n \<le> p" "p \<le> 2 * N" using that c(2) \<open>N / real n \<le> _\<close> by linarith+
    then have "N / real n / N \<le> p / N" "p / N \<le> 2 * N / N" using assms(2) by (intro divide_right_mono; simp)+
    then show ?thesis using assms(2) by simp
  qed
  then show ?thesis using sum_loop_ok [OF assms(1), of "nat \<lceil>N\<rceil>"] assms(3) by (auto simp: mean_loop_def elim!: ok_mono)
qed

end

text \<open>The counts of the second and third step for a mean \<open>mu\<close> and a variance \<open>rho\<close>.\<close>

lemma step_counts:
  assumes e: "0 < e" "e \<le> 1" and d: "0 < d" "d < 1" and fits: "aa_fits n e d" and n: "1 \<le> real n"
    and mu: "0 < mu" "mu \<le> 1" "1 \<le> mu * (real n + 1)"
  shows "1 \<le> upsilon2 e d * e / mu" "upsilon2 e d * e / mu + 1 \<le> 2 ^ 31 - 1"
    and "e * mu \<le> rho \<Longrightarrow> 1 \<le> upsilon2 e d * rho / (mu * mu)"
    and "0 \<le> rho \<Longrightarrow> rho \<le> 1 \<Longrightarrow> upsilon2 e d * rho / (mu * mu) \<le> 2 ^ 31 - 1"
proof -
  let ?u = "upsilon2 e d"
  note c = constants_ok [OF e d]
  have f: "?u * (real n + 1)\<^sup>2 \<le> 2 ^ 31 - 1" using fits by (simp add: aa_fits_def)
  have inv_mu: "1 / mu \<le> real n + 1" using mu by (simp add: divide_le_eq mult.commute)
  show ue: "1 \<le> ?u * e / mu" using c(2) mu by (simp add: pos_le_divide_eq)
  have "?u * e * (1 / mu) \<le> ?u * 1 * (real n + 1)" using inv_mu e c(3) mu n by (intro mult_mono) auto
  moreover have "1 * 1 * 1 \<le> ?u * (real n + 1) * real n" using c(3) n by (intro mult_mono) auto
  then have "?u * (real n + 1) + 1 \<le> ?u * (real n + 1)\<^sup>2" by (simp add: power2_eq_square algebra_simps)
  ultimately show "?u * e / mu + 1 \<le> 2 ^ 31 - 1" using f by simp
  show "1 \<le> ?u * rho / (mu * mu)" if "e * mu \<le> rho"
  proof -
    have "?u * (e * mu) / (mu * mu) \<le> ?u * rho / (mu * mu)" using that c(3) mu by (intro divide_right_mono mult_left_mono) auto
    moreover have "?u * (e * mu) / (mu * mu) = ?u * e / mu" using mu by simp
    ultimately show ?thesis using ue by linarith
  qed
  show "?u * rho / (mu * mu) \<le> 2 ^ 31 - 1" if "0 \<le> rho" "rho \<le> 1"
  proof -
    have "?u * rho * ((1 / mu) * (1 / mu)) \<le> ?u * 1 * ((real n + 1) * (real n + 1))"
      using inv_mu c(3) that mu n by (intro mult_mono) auto
    then show ?thesis using f by (simp add: power2_eq_square)
  qed
qed

context estimator
begin

lemma AA_ok:
  assumes st: "inv st" and e: "0 < e" "e \<le> 1" and d: "0 < d" "d < 1" and fits: "aa_fits n e d"
  shows "ok (AA_algorithm est n e d st) (\<lambda>(r, st'). inv st' \<and> 1 / real n \<le> r \<and> r \<le> 2)"
proof -
  have n: "1 \<le> real n" using n_pos [OF st] by simp
  obtain N s1 where N: "sra_loop (SRA_FUEL (upsilon1_sra e d) n) est (upsilon1_sra e d) 0 0 st = Inr (N, s1)" "inv s1"
    and mu0: "0 < upsilon1_sra e d / real_of_int N" "upsilon1_sra e d / real_of_int N \<le> 1"
      "1 \<le> upsilon1_sra e d / real_of_int N * (real n + 1)"
    using step1_ok [OF assms] by (auto elim!: ok_E)
  define mu where "mu = upsilon1_sra e d / real_of_int N"
  note mu = mu0 [folded mu_def]
  note cnt = step_counts [OF e d fits n mu]
  define N2 where "N2 = real_of_int \<lceil>upsilon2 e d * e / mu\<rceil>"
  have "1 \<le> N2" "N2 < 2 ^ 31 - 1" using cnt(1,2) unfolding N2_def by linarith+
  then obtain q s2 where v: "variance_loop est N2 s1 = Inr (q, s2)" "inv s2" "0 \<le> q / N2" "q / N2 \<le> 1"
    using step2_ok [OF N(2) _ _ N2_def] by (auto elim!: ok_E)
  define rho where "rho = (if q / N2 > e * mu then q / N2 else e * mu)"
  have "e * mu \<le> 1 * 1" using e mu by (intro mult_mono) auto
  then have rho: "e * mu \<le> rho" "0 \<le> rho" "rho \<le> 1" using v(3,4) e mu unfolding rho_def by auto
  define N3 where "N3 = upsilon2 e d * rho / (mu * mu)"
  have "1 \<le> N3" "N3 \<le> 2 ^ 31 - 1" unfolding N3_def using cnt(3) [OF rho(1)] cnt(4) [OF rho(2,3)] by simp_all
  then obtain p s3 where m: "mean_loop est N3 s2 = Inr (p, s3)" "inv s3" "1 / real n \<le> p / N3" "p / N3 \<le> 2"
    using step3_ok [OF v(2), of N3] by (auto elim!: ok_E)
  have "AA_algorithm est n e d st = Inr (p / N3, s3)"
    unfolding AA_algorithm_def Let_def N(1) rbind_simps prod.case mu_def [symmetric] N2_def [symmetric] v(1) rho_def [symmetric]
      N3_def [symmetric] m(1) by (rule refl)
  then show ?thesis using m(2-4) by simp
qed

end

section \<open>Sampling\<close>

text \<open>
  The choice returns a valid index; the picks that lead to index \<open>i\<close> are those between the
  sums of the distribution before and after it.
\<close>

lemma choose_loop_cases:
  "case choose_loop pick off ps i of
     Some k \<Rightarrow> i \<le> k \<and> k < i + length ps \<and> pick \<le> off + sum_list (take (Suc (k - i)) ps) * RAND_MAX \<and>
       (i < k \<longrightarrow> off + sum_list (take (k - i) ps) * RAND_MAX < pick)
   | None \<Rightarrow> ps \<noteq> [] \<longrightarrow> off + sum_list ps * RAND_MAX < pick"
proof (induction ps arbitrary: off i)
  case (Cons p ps)
  show ?case
  proof (cases "pick \<le> off + p * RAND_MAX")
    case False
    note IH = Cons.IH [of "off + p * RAND_MAX" "Suc i"]
    show ?thesis
    proof (cases "choose_loop pick (off + p * RAND_MAX) ps (Suc i)")
      case None
      then show ?thesis using IH False by (cases "ps = []") (auto simp: Let_def algebra_simps)
    next
      case (Some k)
      then have k: "Suc i \<le> k" "k < Suc i + length ps"
        "pick \<le> off + p * RAND_MAX + sum_list (take (Suc (k - Suc i)) ps) * RAND_MAX"
        "Suc i < k \<longrightarrow> off + p * RAND_MAX + sum_list (take (k - Suc i) ps) * RAND_MAX < pick" using IH by simp_all
      have ki: "k - i = Suc (k - Suc i)" using k(1) by simp
      have "off + sum_list (take (k - i) (p # ps)) * RAND_MAX < pick"
        using k(1,4) False by (cases "k = Suc i") (simp_all add: ki algebra_simps)
      then show ?thesis using Some False k by (simp add: Let_def ki algebra_simps)
    qed
  qed (simp add: Let_def)
qed simp

lemma choose_index:
  assumes "distrib \<noteq> []"
  shows "0 \<le> choose_with_distribution distrib pick" "choose_with_distribution distrib pick < int (length distrib)"
  using choose_loop_cases [where pick = pick and off = 0 and ps = distrib and i = 0] assms by (auto simp: choose_with_distribution_def split: option.splits)

section \<open>The assignment of a run\<close>

text \<open>The value a clause gives a variable, and the world it makes of another one.\<close>

definition value_in :: "WSD \<Rightarrow> int \<Rightarrow> int option" where
  "value_in d = map_of (map (\<lambda>mp. (m_var mp, m_rng mp)) (d_data d))"

definition override :: "WSD \<Rightarrow> world \<Rightarrow> world" where
  "override d \<tau> v = (case value_in d v of None \<Rightarrow> \<tau> v | Some r \<Rightarrow> r)"

definition wsat :: "WSD \<Rightarrow> world \<Rightarrow> bool" where
  "wsat d \<tau> \<longleftrightarrow> (\<forall>mp \<in> set (d_data d). \<tau> (m_var mp) = m_rng mp)"

definition count_of :: "WSD list \<Rightarrow> world \<Rightarrow> nat" where
  "count_of ws \<tau> = length (filter (\<lambda>d. wsat d \<tau>) ws)"

text \<open>The clauses as they are prepared for the algorithm.\<close>

definition ready :: "nat \<Rightarrow> wtable \<Rightarrow> WSD \<Rightarrow> bool" where
  "ready L W d \<longleftrightarrow> length (d_data d) = L \<and> distinct (map m_var (d_data d)) \<and>
     (\<forall>mp \<in> set (d_data d). m_rng mp \<noteq> - 1 \<and> entry_at W mp \<and> (\<exists>e. (m_var mp, e) \<in> set W \<and> (m_rng mp, m_prob mp) \<in> set e))"

lemma value_in_map:
  assumes "distinct (map m_var (d_data d))" "mp \<in> set (d_data d)"
  shows "value_in d (m_var mp) = Some (m_rng mp)"
  using assms unfolding value_in_def by (intro map_of_is_SomeI) (auto simp: comp_def)

lemma value_in_None: "value_in d v = None \<longleftrightarrow> v \<notin> m_var ` set (d_data d)"
  by (simp add: value_in_def map_of_eq_None_iff image_image)

lemma wsat_override: "distinct (map m_var (d_data d)) \<Longrightarrow> wsat d (override d \<tau>)"
  by (simp add: wsat_def override_def value_in_map)

lemma clause_value_ok:
  assumes "ready L W d"
  shows "clause_value L d v = Inr (case value_in d v of None \<Rightarrow> - 1 | Some r \<Rightarrow> r)"
proof -
  let ?kv = "\<lambda>k. map_of (map (\<lambda>mp. (m_var mp, m_rng mp)) (take k (d_data d)))"
  have L: "length (d_data d) = L" and ds: "distinct (map m_var (d_data d))" using assms by (simp_all add: ready_def)
  have "ok (clause_value L d v) (\<lambda>c. c = (case ?kv L v of None \<Rightarrow> - 1 | Some r \<Rightarrow> r))"
    unfolding clause_value_def
  proof (rule ok_for_upto [where I = "\<lambda>k c. c = (case ?kv k v of None \<Rightarrow> - 1 | Some r \<Rightarrow> r)"])
    fix k c assume k: "k < L" and c: "c = (case ?kv k v of None \<Rightarrow> - 1 | Some r \<Rightarrow> r)"
    have "distinct (take (Suc k) (map m_var (d_data d)))" using ds by (rule distinct_take)
    then have "m_var (d_data d ! k) \<notin> m_var ` set (take k (d_data d))"
      using k L by (simp add: take_map take_Suc_conv_app_nth)
    then have "?kv k v = None" if "m_var (d_data d ! k) = v" using that by (simp add: map_of_eq_None_iff image_image)
    then show "ok (rbind (aread (d_data d) k) (\<lambda>mp. Inr (if m_var mp = v then m_rng mp else c)))
        (\<lambda>c. c = (case ?kv (Suc k) v of None \<Rightarrow> - 1 | Some r \<Rightarrow> r))"
      using k L c by (auto simp: take_Suc_conv_app_nth map_add_def split: option.splits)
  qed simp
  then show ?thesis using L by (auto simp: ok_def value_in_def)
qed

lemma wt_dist_set_tau [simp]: "j < length (wt_entries s) \<Longrightarrow> wt_dist (set_tau j t s) = wt_dist s"
  by (rule nth_equalityI) (auto simp: wt_dist_def set_tau_def nth_list_update)

lemma drawn_value:
  assumes "dist_ok (map (\<lambda>r. (re_rng r, re_p r)) (rng_entries e))"
  shows "ok (choose_with_distribution_2 e pick) (\<lambda>t. t \<in> re_rng ` set (rng_entries e))"
proof -
  have ne: "map re_p (rng_entries e) \<noteq> []" using assms by (auto simp: dist_ok_def)
  note c = choose_index [OF ne, of pick]
  have "rng_entries e ! nat (choose_with_distribution (map re_p (rng_entries e)) pick) \<in> set (rng_entries e)"
    using c by (intro nth_mem) (simp add: nat_less_iff)
  then show ?thesis using c unfolding choose_with_distribution_2_def by simp
qed

text \<open>
  What the loop over the world table leaves in the \<open>tau\<close> of entry \<open>j\<close>: the value of the
  clause, or a range value when the clause does not determine the variable.
\<close>

definition tau_good :: "WSD \<Rightarrow> wtable \<Rightarrow> generalState \<Rightarrow> nat \<Rightarrow> bool" where
  "tau_good d W s j \<longleftrightarrow> (case value_in d (fst (W ! j)) of Some r \<Rightarrow> tau (wt_entries s ! j) = r
     | None \<Rightarrow> tau (wt_entries s ! j) \<in> fst ` set (snd (W ! j)))"

lemma tau_good_set:
  assumes "wt_dist s = W" "k < length (wt_entries s)" "\<forall>j < k. tau_good d W s j"
    and "case value_in d (we_var (wt_entries s ! k)) of Some r \<Rightarrow> t = r | None \<Rightarrow> t \<in> re_rng ` set (rng_entries (wt_entries s ! k))"
  shows "wt_dist (set_tau k t s) = W" "\<forall>j < Suc k. tau_good d W (set_tau k t s) j"
proof -
  show "wt_dist (set_tau k t s) = W" using assms(1,2) by simp
  have Wk: "W ! k = (we_var (wt_entries s ! k), map (\<lambda>r. (re_rng r, re_p r)) (rng_entries (wt_entries s ! k)))"
    using wt_dist_nth [OF assms(2)] assms(1) by simp
  have "tau_good d W (set_tau k t s) k" using assms(2,4) by (auto simp: tau_good_def Wk set_tau_def image_image split: option.splits)
  moreover have "tau_good d W (set_tau k t s) j" if "j < k" for j
    using assms(3) that by (auto simp: tau_good_def set_tau_def split: option.splits)
  ultimately show "\<forall>j < Suc k. tau_good d W (set_tau k t s) j" by (simp add: less_Suc_eq)
qed

lemma pick_tau_loop:
  assumes W: "wt_ok W" "wt_dist s = W" and d: "ready L W d"
  shows "ok (pick_tau rnd L d (s, pos)) (\<lambda>(s', pos'). wt_dist s' = W \<and> (\<forall>j < length W. tau_good d W s' j))"
proof -
  let ?n = "length (wt_entries s)"
  let ?I = "\<lambda>k (s', pos' :: nat). wt_dist s' = W \<and> (\<forall>j < k. tau_good d W s' j)"
  have neg: "value_in d v = Some r \<Longrightarrow> r \<noteq> - 1" for v r
    using d unfolding value_in_def ready_def by (force dest!: map_of_SomeD)
  have "ok (pick_tau rnd L d (s, pos)) (?I ?n)"
    unfolding pick_tau_def fst_conv
  proof (rule ok_for_upto [where I = ?I])
    fix k st assume k: "k < ?n" and I: "?I k st"
    obtain s1 p1 where st: "st = (s1, p1)" by (cases st)
    have W1: "wt_dist s1 = W" "\<forall>j < k. tau_good d W s1 j" and k1: "k < length (wt_entries s1)"
      using I st k W(2) wt_dist_length [of s] wt_dist_length [of s1] by auto
    let ?e = "wt_entries s1 ! k"
    have "W ! k \<in> set W" using k1 W1(1) wt_dist_length [of s1] by auto
    then have de: "dist_ok (map (\<lambda>r. (re_rng r, re_p r)) (rng_entries ?e))"
      using W(1) W1(1) wt_dist_nth [OF k1] by (auto simp: wt_ok_def)
    note upd = tau_good_set [OF W1(1) k1 W1(2)] and cv = clause_value_ok [OF d, of "we_var ?e"]
    show "ok (case st of (s, pos) \<Rightarrow> rbind (aread (wt_entries s) k) (\<lambda>entry. rbind (clause_value L d (we_var entry)) (\<lambda>Cij.
        if Cij = - 1 then rbind (choose_with_distribution_2 entry (rnd pos)) (\<lambda>t. Inr (set_tau k t s, Suc pos))
        else Inr (set_tau k Cij s, pos)))) (?I (Suc k))"
    proof (cases "value_in d (we_var ?e)")
      case None
      then have "ok (choose_with_distribution_2 ?e (rnd p1)) (\<lambda>t. ?I (Suc k) (set_tau k t s1, Suc p1))"
        using drawn_value [OF de, of "rnd p1"] upd by (auto elim!: ok_mono)
      then show ?thesis using None k1 cv by (simp add: st)
    next
      case (Some r)
      then show ?thesis using k1 cv neg [OF Some] upd [of r] by (simp add: st)
    qed
  qed (use W(2) in simp)
  then show ?thesis using W(2) wt_dist_length [of s] by simp
qed

text \<open>These values form a world in which the clause holds.\<close>

lemma tau_world:
  assumes W: "wt_ok W" "wt_dist s = W" and d: "ready L W d" and good: "\<forall>j < length W. tau_good d W s j"
  obtains \<tau> where "wsat d \<tau>" "\<forall>(v, e) \<in> set W. \<tau> v \<in> fst ` set e" "\<forall>j < length W. tau (wt_entries s ! j) = \<tau> (fst (W ! j))"
proof
  define \<tau> where "\<tau> v = the (map_of (zip (map fst W) (map tau (wt_entries s))) v)" for v
  have len: "length (wt_entries s) = length W" using W(2) wt_dist_length [of s] by simp
  show tj: "\<forall>j < length W. tau (wt_entries s ! j) = \<tau> (fst (W ! j))"
  proof (intro allI impI)
    fix j assume j: "j < length W"
    have "map_of (zip (map fst W) (map tau (wt_entries s))) (map fst W ! j) = Some (map tau (wt_entries s) ! j)"
      by (rule map_of_zip_nth) (use W(1) len j in \<open>auto simp: wt_ok_def\<close>)
    then show "tau (wt_entries s ! j) = \<tau> (fst (W ! j))" using j len by (simp add: \<tau>_def)
  qed
  have val: "\<tau> (m_var mp) = m_rng mp" if mp: "mp \<in> set (d_data d)" for mp
  proof -
    obtain k where k: "k < length W" "fst (W ! k) = m_var mp" using d mp by (auto simp: ready_def entry_at_def)
    then have "tau_good d W s k" using good by simp
    moreover have "value_in d (m_var mp) = Some (m_rng mp)" using value_in_map [OF _ mp] d by (simp add: ready_def)
    ultimately show ?thesis using tj k by (simp add: tau_good_def)
  qed
  then show "wsat d \<tau>" by (simp add: wsat_def)
  show "\<forall>(v, e) \<in> set W. \<tau> v \<in> fst ` set e"
  proof clarify
    fix v e assume ve: "(v, e) \<in> set W"
    then obtain j where j: "j < length W" "W ! j = (v, e)" by (auto simp: in_set_conv_nth)
    show "\<tau> v \<in> fst ` set e"
    proof (cases "v \<in> m_var ` set (d_data d)")
      case False
      then have "value_in d v = None" by (simp add: value_in_None)
      moreover have "tau_good d W s j" using good j(1) by simp
      ultimately show ?thesis using tj j by (simp add: tau_good_def)
    next
      case True
      then obtain mp where mp: "mp \<in> set (d_data d)" "m_var mp = v" by auto
      then obtain e' where e': "(v, e') \<in> set W" "(m_rng mp, m_prob mp) \<in> set e'" using d by (auto simp: ready_def)
      then have "e' = e" using ve W(1) by (auto simp: wt_ok_def dest: eq_key_imp_eq_value)
      then show ?thesis using val [OF mp(1)] mp(2) e'(2) by force
    qed
  qed
qed

lemma pick_tau_ok:
  assumes W: "wt_ok W" "wt_dist s = W" and d: "ready L W d"
  shows "ok (pick_tau rnd L d (s, pos)) (\<lambda>(s', pos'). wt_dist s' = W \<and>
    (\<exists>\<tau>. wsat d \<tau> \<and> (\<forall>(v, e) \<in> set W. \<tau> v \<in> fst ` set e) \<and> (\<forall>j < length W. tau (wt_entries s' ! j) = \<tau> (fst (W ! j)))))"
proof (rule ok_mono [OF pick_tau_loop [OF assms]], clarify)
  fix s' assume s': "W = wt_dist s'" "\<forall>j < length (wt_dist s'). tau_good d (wt_dist s') s' j"
  show "wt_dist s' = wt_dist s' \<and> (\<exists>\<tau>. wsat d \<tau> \<and> (\<forall>(v, e) \<in> set (wt_dist s'). \<tau> v \<in> fst ` set e) \<and>
      (\<forall>j < length (wt_dist s'). tau (wt_entries s' ! j) = \<tau> (fst (wt_dist s' ! j))))"
    by (rule tau_world [OF W(1) s'(1) [symmetric] d]) (use s' in blast)+
qed

section \<open>Counting satisfied clauses\<close>

lemma count_satisfied_ok:
  assumes W: "wt_dist s = W" and ws: "\<forall>d \<in> set ws. ready L W d" and tau: "\<forall>j < length W. tau (wt_entries s ! j) = \<tau> (fst (W ! j))"
  shows "count_satisfied L ws s = Inr (count_of ws \<tau>)"
proof -
  have len: "length (wt_entries s) = length W" using W wt_dist_length [of s] by simp
  have "ok (count_satisfied L ws s) (\<lambda>c. c = count_of (take (length ws) ws) \<tau>)"
    unfolding count_satisfied_def
  proof (rule ok_for_upto [where I = "\<lambda>k c. c = count_of (take k ws) \<tau>"])
    fix i c assume i: "i < length ws" and c: "c = count_of (take i ws) \<tau>"
    let ?d = "ws ! i"
    have d: "ready L W ?d" using ws i by simp
    let ?P = "\<lambda>k. rbind (aread (d_data ?d) k) (\<lambda>mp. rbind (deref (wt_entry mp)) (\<lambda>e.
      rbind (aread (wt_entries s) e) (\<lambda>entry. Inr (tau entry \<noteq> m_rng mp))))"
    have P: "?P k = Inr (\<tau> (m_var (d_data ?d ! k)) \<noteq> m_rng (d_data ?d ! k))" if k: "k < L" for k
    proof -
      have "d_data ?d ! k \<in> set (d_data ?d)" using d k by (simp add: ready_def)
      then have "entry_at W (d_data ?d ! k)" using d unfolding ready_def by blast
      then obtain e where "wt_entry (d_data ?d ! k) = Some e" "e < length W" "fst (W ! e) = m_var (d_data ?d ! k)"
        by (auto simp: entry_at_def)
      then show ?thesis using d k len tau by (simp add: ready_def)
    qed
    obtain k where k: "first_index L ?P 0 = Inr k" "k \<le> L" "\<forall>j < k. \<tau> (m_var (d_data ?d ! j)) = m_rng (d_data ?d ! j)"
      "k < L \<longrightarrow> \<tau> (m_var (d_data ?d ! k)) \<noteq> m_rng (d_data ?d ! k)"
      using first_index_ok [where n = L and P = ?P and Q = "\<lambda>k. \<tau> (m_var (d_data ?d ! k)) \<noteq> m_rng (d_data ?d ! k)" and i = 0, OF P]
      by (auto elim!: ok_E)
    have "wsat ?d \<tau> \<longleftrightarrow> \<not> k < L"
      using k(2-4) d unfolding wsat_def ready_def by (metis in_set_conv_nth le_neq_implies_less)
    then show "ok (rbind (aread ws i) (\<lambda>d. rbind (first_index L (\<lambda>k. rbind (aread (d_data d) k) (\<lambda>mp. rbind (deref (wt_entry mp)) (\<lambda>e.
      rbind (aread (wt_entries s) e) (\<lambda>entry. Inr (tau entry \<noteq> m_rng mp))))) 0) (\<lambda>k. Inr (if k < L then c else Suc c))))
      (\<lambda>c. c = count_of (take (Suc i) ws) \<tau>)"
      using i k(1) c by (simp add: count_of_def take_Suc_conv_app_nth)
  qed (simp add: count_of_def)
  then show ?thesis by (auto simp: ok_def)
qed

section \<open>The estimator\<close>

text \<open>The estimate from a clause and a world: the world is changed to satisfy the clause.\<close>

definition estimate :: "WSD list \<Rightarrow> WSD \<Rightarrow> world \<Rightarrow> real" where
  "estimate ws d \<tau> = 1 / real (count_of ws (override d \<tau>))"

definition est_inv :: "wtable \<Rightarrow> nat \<Rightarrow> WSD list \<Rightarrow> real list \<Rightarrow> generalState \<times> nat \<Rightarrow> bool" where
  "est_inv W L ws cbp st \<longleftrightarrow> wt_ok W \<and> ws \<noteq> [] \<and> length cbp = length ws \<and> (\<forall>d \<in> set ws. ready L W d) \<and> wt_dist (fst st) = W"

lemma override_sat: "wsat d \<tau> \<Longrightarrow> override d \<tau> = \<tau>"
  unfolding override_def value_in_def wsat_def by (rule ext) (force split: option.splits dest!: map_of_SomeD)

lemma compute_estimator_ok:
  assumes inv: "est_inv W L ws cbp (s, pos)"
  shows "ok (compute_estimator rnd L ws cbp (s, pos)) (\<lambda>(x, st'). est_inv W L ws cbp st' \<and>
    (\<exists>\<tau>. (\<forall>(v, e) \<in> set W. \<tau> v \<in> fst ` set e) \<and> x = estimate ws (ws ! nat (choose_with_distribution cbp (rnd pos))) \<tau>))"
proof -
  have I: "wt_ok W" "cbp \<noteq> []" "length cbp = length ws" "\<forall>d \<in> set ws. ready L W d" "wt_dist s = W"
    using inv by (auto simp: est_inv_def)
  note ch = choose_index [OF I(2), of "rnd pos"]
  let ?i = "nat (choose_with_distribution cbp (rnd pos))"
  have i: "?i < length ws" using ch I(3) by (simp add: nat_less_iff)
  then have d: "ready L W (ws ! ?i)" using I(4) by simp
  obtain s' p' \<tau> where t: "pick_tau rnd L (ws ! ?i) (s, Suc pos) = Inr (s', p')" "wt_dist s' = W" "wsat (ws ! ?i) \<tau>"
    "\<forall>(v, e) \<in> set W. \<tau> v \<in> fst ` set e" "\<forall>j < length W. tau (wt_entries s' ! j) = \<tau> (fst (W ! j))"
    using pick_tau_ok [OF I(1,5) d, of rnd "Suc pos"] by (auto elim!: ok_E)
  have "compute_estimator rnd L ws cbp (s, pos) = Inr (estimate ws (ws ! ?i) \<tau>, s', p')"
    using ch I(3) t(1) count_satisfied_ok [OF t(2) I(4) t(5)] by (simp add: compute_estimator_def estimate_def override_sat [OF t(3)])
  then show ?thesis using t(2,4) inv by (auto simp: est_inv_def)
qed

lemma estimate_bounds:
  assumes "d \<in> set ws" "distinct (map m_var (d_data d))"
  shows "1 / real (length ws) \<le> estimate ws d \<tau>" "estimate ws d \<tau> \<le> 1"
proof -
  have "wsat d (override d \<tau>)" by (rule wsat_override [OF assms(2)])
  then have "filter (\<lambda>d'. wsat d' (override d \<tau>)) ws \<noteq> []" using assms(1) by (auto simp: filter_empty_conv)
  then have "0 < count_of ws (override d \<tau>)" by (simp add: count_of_def)
  moreover have "count_of ws (override d \<tau>) \<le> length ws" by (simp add: count_of_def)
  ultimately show "1 / real (length ws) \<le> estimate ws d \<tau>" "estimate ws d \<tau> \<le> 1" by (simp_all add: estimate_def frac_le)
qed

interpretation kl: estimator "compute_estimator rnd L ws cbp" "length ws" "est_inv W L ws cbp" for rnd L ws cbp W
proof unfold_locales
  fix st assume inv: "est_inv W L ws cbp st"
  obtain s pos where st: "st = (s, pos)" by (cases st)
  have ne: "cbp \<noteq> []" "length cbp = length ws" "\<forall>d \<in> set ws. ready L W d" using inv by (auto simp: est_inv_def)
  then have "ws ! nat (choose_with_distribution cbp (rnd pos)) \<in> set ws"
    using choose_index [OF ne(1), of "rnd pos"] by (intro nth_mem) (simp add: nat_less_iff)
  then show "ok (compute_estimator rnd L ws cbp st) (\<lambda>(x, st'). 1 / real (length ws) \<le> x \<and> x \<le> 1 \<and> est_inv W L ws cbp st')"
    using compute_estimator_ok [of W L ws cbp s pos rnd] inv st estimate_bounds ne(3) by (auto simp: ready_def elim!: ok_mono)
next
  fix st assume "est_inv W L ws cbp st"
  then show "0 < length ws" by (simp add: est_inv_def)
qed

section \<open>The estimator is unbiased\<close>

lemma Expect_conj:
  assumes W: "wt_ok W"
  shows "distinct (map m_var mps) \<Longrightarrow> \<forall>mp \<in> set mps. \<exists>e. (m_var mp, e) \<in> set W \<and> (m_rng mp, m_prob mp) \<in> set e \<Longrightarrow>
    prod_list (map m_prob mps) * Expect W (\<lambda>\<tau>. f (\<lambda>v. case map_of (map (\<lambda>mp. (m_var mp, m_rng mp)) mps) v of None \<Rightarrow> \<tau> v | Some r \<Rightarrow> r)) =
    Expect W (\<lambda>\<tau>. if \<forall>mp \<in> set mps. \<tau> (m_var mp) = m_rng mp then f \<tau> else 0)"
proof (induction mps arbitrary: f)
  case (Cons mp mps)
  let ?v = "m_var mp" and ?r = "m_rng mp"
  let ?sat = "\<lambda>mps \<tau>. \<forall>mp \<in> set mps. \<tau> (m_var mp) = m_rng mp"
  let ?ov = "\<lambda>mps \<tau> v. case map_of (map (\<lambda>mp. (m_var mp, m_rng mp)) mps) v of None \<Rightarrow> \<tau> v | Some r \<Rightarrow> r"
  obtain e where e: "(?v, e) \<in> set W" "(?r, m_prob mp) \<in> set e" using Cons.prems(2) by auto
  have fresh: "?v \<notin> m_var ` set mps" using Cons.prems(1) by simp
  then have "m_var m \<noteq> ?v" if "m \<in> set mps" for m using that by (metis imageI)
  then have sat: "?sat mps (\<tau>(?v := ?r)) \<longleftrightarrow> ?sat mps \<tau>" for \<tau> :: world by simp
  have ov: "(?ov mps \<tau>)(?v := ?r) = ?ov (mp # mps) \<tau>" for \<tau> by (simp add: fun_eq_iff)
  have "Expect W (\<lambda>\<tau>. if ?sat (mp # mps) \<tau> then f \<tau> else 0) = Expect W (\<lambda>\<tau>. if \<tau> ?v = ?r then if ?sat mps \<tau> then f \<tau> else 0 else 0)"
    by (rule Expect_cong) simp
  also have "\<dots> = m_prob mp * Expect W (\<lambda>\<tau>. if ?sat mps \<tau> then f (\<tau>(?v := ?r)) else 0)"
    unfolding Expect_assign [OF W e] sat ..
  also have "Expect W (\<lambda>\<tau>. if ?sat mps \<tau> then f (\<tau>(?v := ?r)) else 0) = prod_list (map m_prob mps) * Expect W (\<lambda>\<tau>. f ((?ov mps \<tau>)(?v := ?r)))"
    using Cons.IH [of "\<lambda>\<tau>. f (\<tau>(?v := ?r))"] Cons.prems by simp
  finally show ?case unfolding ov by (simp add: mult.assoc)
qed simp

lemma Expect_override:
  assumes "wt_ok W" "ready L W d" "d_prob d = prod_list (map m_prob (d_data d))"
  shows "d_prob d * Expect W (\<lambda>\<tau>. f (override d \<tau>)) = Expect W (\<lambda>\<tau>. if wsat d \<tau> then f \<tau> else 0)"
proof -
  have "override d \<tau> = (\<lambda>v. case map_of (map (\<lambda>mp. (m_var mp, m_rng mp)) (d_data d)) v of None \<Rightarrow> \<tau> v | Some r \<Rightarrow> r)" for \<tau>
    by (simp add: fun_eq_iff override_def value_in_def)
  then show ?thesis using Expect_conj [OF assms(1), of "d_data d" f] assms(2,3) by (simp add: ready_def wsat_def)
qed

lemma count_sum: "(\<Sum>i<length ws. if wsat (ws ! i) \<tau> then c else 0) = real (count_of ws \<tau>) * c"
proof -
  have "(\<Sum>d\<leftarrow>ws. if wsat d \<tau> then c else 0) = real (count_of ws \<tau>) * c"
    unfolding count_of_def by (induction ws) (auto simp: algebra_simps)
  then show ?thesis by (simp add: sum_list_sum_nth atLeast0LessThan)
qed

lemma estimate_mean:
  assumes W: "wt_ok W" and ws: "\<forall>d \<in> set ws. ready L W d \<and> d_prob d = prod_list (map m_prob (d_data d))"
  shows "(\<Sum>i<length ws. d_prob (ws ! i) * Expect W (estimate ws (ws ! i))) = Pr W (\<lambda>\<tau>. \<exists>d \<in> set ws. wsat d \<tau>)"
proof -
  have "d_prob (ws ! i) * Expect W (estimate ws (ws ! i)) = Expect W (\<lambda>\<tau>. if wsat (ws ! i) \<tau> then 1 / real (count_of ws \<tau>) else 0)" if "i < length ws" for i
    using Expect_override [OF W, of L "ws ! i" "\<lambda>\<tau>. 1 / real (count_of ws \<tau>)"] ws that by (simp add: estimate_def [abs_def])
  then have "(\<Sum>i<length ws. d_prob (ws ! i) * Expect W (estimate ws (ws ! i))) =
      (\<Sum>i<length ws. Expect W (\<lambda>\<tau>. if wsat (ws ! i) \<tau> then 1 / real (count_of ws \<tau>) else 0))" by (intro sum.cong) auto
  also have "\<dots> = Expect W (\<lambda>\<tau>. \<Sum>i<length ws. if wsat (ws ! i) \<tau> then 1 / real (count_of ws \<tau>) else 0)" by (simp only: Expect_sum)
  also have "\<dots> = Expect W (\<lambda>\<tau>. if \<exists>d \<in> set ws. wsat d \<tau> then 1 else 0)"
  proof (rule Expect_cong)
    fix \<tau>
    have "count_of ws \<tau> = 0 \<longleftrightarrow> \<not> (\<exists>d \<in> set ws. wsat d \<tau>)" by (auto simp: count_of_def filter_empty_conv)
    then show "(\<Sum>i<length ws. if wsat (ws ! i) \<tau> then 1 / real (count_of ws \<tau>) else 0) = (if \<exists>d \<in> set ws. wsat d \<tau> then 1 else 0)"
      unfolding count_sum by auto
  qed
  finally show ?thesis by (simp add: Pr_Expect)
qed

section \<open>The mean over the random numbers\<close>

text \<open>
  The slot of index \<open>i\<close>: the numbers of the generator between the sums of the distribution before
  and after \<open>i\<close>, and its share of all numbers. A list of distributions divides the sequences of
  uniform random numbers into boxes, one slot for every draw; the share of a box is the product of
  the shares of its slots.
\<close>

definition slot :: "real list \<Rightarrow> nat \<Rightarrow> real \<Rightarrow> bool" where
  "slot ps i x \<longleftrightarrow> sum_list (take i ps) * RAND_MAX < x \<and> x \<le> sum_list (take (Suc i) ps) * RAND_MAX"

definition width :: "real list \<Rightarrow> nat \<Rightarrow> real" where
  "width ps i = (sum_list (take (Suc i) ps) * RAND_MAX - sum_list (take i ps) * RAND_MAX) / RAND_MAX"

definition boxes :: "real list list \<Rightarrow> nat list list" where
  "boxes pss = product_lists (map (\<lambda>ps. [0..<length ps]) pss)"

definition in_box :: "real list list \<Rightarrow> nat list \<Rightarrow> draws \<Rightarrow> nat \<Rightarrow> bool" where
  "in_box pss ks rnd pos \<longleftrightarrow> (\<forall>m < length pss. slot (pss ! m) (ks ! m) (rnd (pos + m)))"

definition volume :: "real list list \<Rightarrow> nat list \<Rightarrow> real" where
  "volume pss ks = prod_list (map2 width pss ks)"

text \<open>The variables a clause leaves open, for which the code draws a value, and their distributions.\<close>

definition open_vars :: "wtable \<Rightarrow> WSD \<Rightarrow> wtable" where
  "open_vars W d = filter (\<lambda>(v, e). value_in d v = None) W"

definition open_dists :: "wtable \<Rightarrow> WSD \<Rightarrow> real list list" where
  "open_dists W d = map (\<lambda>(v, e). map snd e) (open_vars W d)"

text \<open>The world of a box.\<close>

definition box_world :: "wtable \<Rightarrow> nat list \<Rightarrow> world" where
  "box_world U ks v = (case map_of (map2 (\<lambda>(v, e) k. (v, fst (e ! k))) U ks) v of None \<Rightarrow> 0 | Some r \<Rightarrow> r)"

definition outcome :: "(real \<times> 'a) res \<Rightarrow> real" where
  "outcome r = (case r of Inl _ \<Rightarrow> 0 | Inr (x, _) \<Rightarrow> x)"

lemma width_nth: "i < length ps \<Longrightarrow> width ps i = ps ! i"
  by (simp add: width_def take_Suc_conv_app_nth RAND_MAX_def)

lemma choose_loop_slot:
  assumes "\<forall>p \<in> set ps. 0 \<le> p" "k < length ps" "off + sum_list (take k ps) * RAND_MAX < pick"
    "pick \<le> off + sum_list (take (Suc k) ps) * RAND_MAX"
  shows "choose_loop pick off ps i = Some (i + k)"
  using assms
proof (induction ps arbitrary: off i k)
  case (Cons p ps)
  show ?case
  proof (cases k)
    case (Suc m)
    have "0 \<le> sum_list (take m ps)" using Cons.prems(1) by (intro sum_list_nonneg) (auto dest: in_set_takeD)
    then have "0 \<le> sum_list (take m ps) * RAND_MAX" by (simp add: RAND_MAX_def)
    then have "\<not> pick \<le> off + p * RAND_MAX" using Cons.prems(3) Suc by (simp add: algebra_simps)
    moreover have "choose_loop pick (off + p * RAND_MAX) ps (Suc i) = Some (Suc i + m)"
      using Cons.prems Suc by (intro Cons.IH) (auto simp: algebra_simps)
    ultimately show ?thesis using Suc by simp
  qed (use Cons.prems in simp)
qed simp

lemma choose_slot:
  "\<forall>p \<in> set ps. 0 \<le> p \<Longrightarrow> k < length ps \<Longrightarrow> slot ps k pick \<Longrightarrow> choose_with_distribution ps pick = int k"
  using choose_loop_slot [of ps k 0 pick 0] by (simp add: choose_with_distribution_def slot_def)

lemma drawn_slot:
  assumes "dist_ok (map (\<lambda>r. (re_rng r, re_p r)) (rng_entries e))" "k < length (rng_entries e)" "slot (map re_p (rng_entries e)) k pick"
  shows "choose_with_distribution_2 e pick = Inr (re_rng (rng_entries e ! k))"
proof -
  have "\<forall>p \<in> set (map re_p (rng_entries e)). 0 \<le> p" using assms(1) by (auto simp: dist_ok_def)
  then have "choose_with_distribution (map re_p (rng_entries e)) pick = int k" using assms(2,3) by (intro choose_slot) auto
  then show ?thesis using assms(2) by (simp add: choose_with_distribution_2_def)
qed

lemma box_world_nth:
  assumes "distinct (map fst U)" "length ks = length U" "m < length U"
  shows "box_world U ks (fst (U ! m)) = fst (snd (U ! m) ! (ks ! m))"
proof -
  have "map fst (map2 (\<lambda>(v, e) k. (v, fst (e ! k))) U ks) = map fst U"
    using assms(2) by (intro nth_equalityI) (auto simp: case_prod_unfold)
  moreover have "(U ! m, ks ! m) \<in> set (zip U ks)" using assms by (auto simp: in_set_zip)
  ultimately have "map_of (map2 (\<lambda>(v, e) k. (v, fst (e ! k))) U ks) (fst (U ! m)) = Some (fst (snd (U ! m) ! (ks ! m)))"
    using assms(1) by (intro map_of_is_SomeI) (force simp: case_prod_unfold)+
  then show ?thesis by (simp add: box_world_def)
qed

text \<open>With draws from a box the loop over the world table leaves the world of the box, changed to satisfy the clause.\<close>

lemma pick_tau_box:
  assumes W: "wt_ok W" "wt_dist s = W" and d: "ready L W d" and ks: "ks \<in> set (boxes (open_dists W d))"
    and box: "in_box (open_dists W d) ks rnd pos"
  shows "ok (pick_tau rnd L d (s, pos)) (\<lambda>(s', pos'). wt_dist s' = W \<and>
    (\<forall>j < length W. tau (wt_entries s' ! j) = override d (box_world (open_vars W d) ks) (fst (W ! j))))"
proof -
  let ?U = "open_vars W d" and ?n = "length (wt_entries s)"
  let ?\<tau> = "override d (box_world ?U ks)"
  let ?P = "\<lambda>(v, e). value_in d v = None"
  let ?I = "\<lambda>k (s', pos'). wt_dist s' = W \<and> pos' = pos + length (filter ?P (take k W)) \<and> (\<forall>j < k. tau (wt_entries s' ! j) = ?\<tau> (fst (W ! j)))"
  have dU: "distinct (map fst ?U)" using W(1) by (auto simp: wt_ok_def open_vars_def distinct_map intro: inj_on_subset)
  have kU: "length ks = length ?U" "\<And>m. m < length ?U \<Longrightarrow> ks ! m < length (snd (?U ! m))"
    using ks by (auto simp: boxes_def product_lists_set open_dists_def list_all2_conv_all_nth case_prod_unfold)
  have neg: "value_in d v = Some r \<Longrightarrow> r \<noteq> - 1" for v r
    using d unfolding value_in_def ready_def by (force dest!: map_of_SomeD)
  have "ok (pick_tau rnd L d (s, pos)) (?I ?n)"
    unfolding pick_tau_def fst_conv
  proof (rule ok_for_upto [where I = ?I])
    fix k st assume k: "k < ?n" and I: "?I k st"
    obtain s1 p1 where st: "st = (s1, p1)" by (cases st)
    have W1: "wt_dist s1 = W" "\<forall>j < k. tau (wt_entries s1 ! j) = ?\<tau> (fst (W ! j))" and p1: "p1 = pos + length (filter ?P (take k W))"
      using I st by auto
    have k1: "k < length (wt_entries s1)" "k < length W" using k W(2) W1(1) wt_dist_length [of s] wt_dist_length [of s1] by auto
    let ?e = "wt_entries s1 ! k" and ?m = "length (filter ?P (take k W))"
    have Wk: "W ! k = (we_var ?e, map (\<lambda>r. (re_rng r, re_p r)) (rng_entries ?e))" using wt_dist_nth [OF k1(1)] W1(1) by simp
    have set: "?I (Suc k) (set_tau k t s1, p)"
      if "t = ?\<tau> (we_var ?e)" "p = pos + length (filter ?P (take (Suc k) W))" for t p
    proof -
      have "tau (wt_entries (set_tau k t s1) ! j) = ?\<tau> (fst (W ! j))" if "j < Suc k" for j
        using that \<open>t = _\<close> W1(2) k1 Wk by (cases "j = k") (simp_all add: set_tau_def)
      then show ?thesis using that(2) W1(1) k1(1) by simp
    qed
    have cv: "clause_value L d (we_var ?e) = Inr (case value_in d (we_var ?e) of None \<Rightarrow> - 1 | Some r \<Rightarrow> r)" by (rule clause_value_ok [OF d])
    show "ok (case st of (s, pos) \<Rightarrow> rbind (aread (wt_entries s) k) (\<lambda>entry. rbind (clause_value L d (we_var entry)) (\<lambda>Cij.
        if Cij = - 1 then rbind (choose_with_distribution_2 entry (rnd pos)) (\<lambda>t. Inr (set_tau k t s, Suc pos))
        else Inr (set_tau k Cij s, pos)))) (?I (Suc k))"
    proof (cases "value_in d (we_var ?e)")
      case None
      have "filter ?P (take (Suc k) W) = filter ?P (take k W) @ [W ! k]" using k1(2) None Wk by (simp add: take_Suc_conv_app_nth)
      moreover from this have "?U = filter ?P (take k W) @ W ! k # filter ?P (drop (Suc k) W)"
        unfolding open_vars_def using id_take_nth_drop [OF k1(2)] None Wk by (metis (no_types, lifting) append.assoc append_Cons append_Nil filter_append append_take_drop_id)
      ultimately have m: "?m < length ?U" "?U ! ?m = W ! k" "length (filter ?P (take (Suc k) W)) = Suc ?m" by (simp_all add: nth_append)
      have "W ! k \<in> set W" using k1(2) by simp
      then have "dist_ok (map (\<lambda>r. (re_rng r, re_p r)) (rng_entries ?e))" using W(1) Wk by (auto simp: wt_ok_def)
      moreover have "open_dists W d ! ?m = map re_p (rng_entries ?e)" using m Wk by (simp add: open_dists_def comp_def)
      then have "slot (map re_p (rng_entries ?e)) (ks ! ?m) (rnd p1)" using box m(1) p1 by (auto simp: in_box_def open_dists_def)
      ultimately have "choose_with_distribution_2 ?e (rnd p1) = Inr (re_rng (rng_entries ?e ! (ks ! ?m)))"
        using kU(2) [OF m(1)] m(2) Wk by (intro drawn_slot) auto
      moreover have "re_rng (rng_entries ?e ! (ks ! ?m)) = ?\<tau> (we_var ?e)"
        using box_world_nth [OF dU kU(1) m(1)] kU(2) [OF m(1)] m(2) Wk None by (simp add: override_def)
      ultimately show ?thesis using None k1 cv set [of _ "Suc p1"] m(3) p1 by (simp add: st)
    next
      case (Some r)
      have "length (filter ?P (take (Suc k) W)) = ?m" using k1(2) Some Wk by (simp add: take_Suc_conv_app_nth)
      then show ?thesis using Some k1 cv neg [OF Some] set [of r p1] p1 by (simp add: st override_def)
    qed
  qed (use W(2) in simp)
  then show ?thesis using W(2) wt_dist_length [of s] by (auto elim!: ok_mono)
qed

lemma compute_estimator_box:
  assumes inv: "est_inv W L ws cbp (s, pos)" and cbp: "\<forall>p \<in> set cbp. 0 \<le> p" and i: "i < length ws"
    and ks: "ks \<in> set (boxes (open_dists W (ws ! i)))" and box: "in_box (cbp # open_dists W (ws ! i)) (i # ks) rnd pos"
  shows "outcome (compute_estimator rnd L ws cbp (s, pos)) = estimate ws (ws ! i) (box_world (open_vars W (ws ! i)) ks)"
proof -
  have I: "wt_ok W" "length cbp = length ws" "\<forall>d \<in> set ws. ready L W d" "wt_dist s = W" using inv by (auto simp: est_inv_def)
  then have d: "ready L W (ws ! i)" using i by simp
  have "slot cbp i (rnd pos)" using box by (force simp: in_box_def dest: spec [of _ 0])
  then have ch: "choose_with_distribution cbp (rnd pos) = int i" using choose_slot [OF cbp] i I(2) by simp
  have "in_box (open_dists W (ws ! i)) ks rnd (Suc pos)"
    unfolding in_box_def
  proof (intro allI impI)
    fix m assume "m < length (open_dists W (ws ! i))"
    then show "slot (open_dists W (ws ! i) ! m) (ks ! m) (rnd (Suc pos + m))"
      using box [unfolded in_box_def, THEN spec [of _ "Suc m"]] by simp
  qed
  then obtain s' p' where t: "pick_tau rnd L (ws ! i) (s, Suc pos) = Inr (s', p')" "wt_dist s' = W"
    "\<forall>j < length W. tau (wt_entries s' ! j) = override (ws ! i) (box_world (open_vars W (ws ! i)) ks) (fst (W ! j))"
    using pick_tau_box [OF I(1,4) d ks, of rnd "Suc pos"] by (auto elim!: ok_E)
  show ?thesis using ch i t(1) count_satisfied_ok [OF t(2) I(3) t(3)] by (simp add: compute_estimator_def estimate_def outcome_def)
qed

text \<open>The mean over the boxes is the expectation over the worlds.\<close>

lemma boxes_Cons: "boxes (ps # pss) = concat (map (\<lambda>k. map ((#) k) (boxes pss)) [0..<length ps])"
  by (simp add: boxes_def)

lemma volume_Cons: "volume (ps # pss) (k # ks) = width ps k * volume pss ks"
  by (simp add: volume_def)

lemma sum_list_nth_upt: "(\<Sum>x\<leftarrow>xs. f x) = (\<Sum>k\<leftarrow>[0..<length xs]. f (xs ! k))"
  by (metis (no_types) map_map map_nth comp_apply list.map_cong0)

lemma sum_list_blocks: "sum_list (concat xss) = (\<Sum>xs\<leftarrow>xss. sum_list xs)"
  by (induction xss) auto

lemma box_world_Cons: "box_world ((v, e) # U) (k # ks) = (box_world U ks)(v := fst (e ! k))"
  by (rule ext) (simp add: box_world_def)

lemma boxes_Expect:
  "(\<Sum>ks\<leftarrow>boxes (map (\<lambda>(v, e). map snd e) U). volume (map (\<lambda>(v, e). map snd e) U) ks * f (box_world U ks)) = Expect U f"
proof (induction U arbitrary: f)
  case Nil
  have "box_world [] [] = (\<lambda>_. 0)" by (simp add: fun_eq_iff box_world_def)
  then show ?case by (simp add: boxes_def volume_def)
next
  case (Cons ve U)
  obtain v e where ve: "ve = (v, e)" by (cases ve)
  let ?D = "map (\<lambda>(v, e). map snd e) U"
  have "(\<Sum>ks\<leftarrow>boxes ?D. volume (map snd e # ?D) (k # ks) * f (box_world ((v, e) # U) (k # ks))) =
      snd (e ! k) * Expect U (\<lambda>\<tau>. f (\<tau>(v := fst (e ! k))))" if "k < length e" for k
    using Cons.IH [of "\<lambda>\<tau>. f (\<tau>(v := fst (e ! k)))"] that
    by (simp add: volume_Cons width_nth box_world_Cons mult.assoc sum_list_const_mult)
  then have "(\<Sum>k\<leftarrow>[0..<length e]. \<Sum>ks\<leftarrow>boxes ?D. volume (map snd e # ?D) (k # ks) * f (box_world ((v, e) # U) (k # ks))) =
      (\<Sum>k\<leftarrow>[0..<length e]. snd (e ! k) * Expect U (\<lambda>\<tau>. f (\<tau>(v := fst (e ! k)))))"
    by (intro arg_cong [where f = sum_list] map_cong) auto
  also have "\<dots> = (\<Sum>(r, p)\<leftarrow>e. p * Expect U (\<lambda>\<tau>. f (\<tau>(v := r))))"
    using sum_list_nth_upt [of "\<lambda>(r, p). p * Expect U (\<lambda>\<tau>. f (\<tau>(v := r)))" e] by (simp add: case_prod_unfold)
  finally show ?case by (simp add: ve boxes_Cons Expect_Cons map_concat sum_list_blocks comp_def)
qed

text \<open>A function that ignores the variables a filter removes has the same expectation.\<close>

lemma Expect_filter:
  assumes "wt_ok W" "\<And>\<tau> v r. \<not> P v \<Longrightarrow> f (\<tau>(v := r)) = f \<tau>"
  shows "Expect (filter (\<lambda>(v, e). P v) W) f = Expect W f"
  using assms
proof (induction W arbitrary: f)
  case (Cons ve W)
  obtain v e where ve: "ve = (v, e)" by (cases ve)
  have W: "wt_ok W" and e: "(\<Sum>(r, p)\<leftarrow>e. p) = 1" using Cons.prems(1) by (auto simp: ve wt_ok_def dist_ok_def)
  show ?case
  proof (cases "P v")
    case True
    have IH: "Expect (filter (\<lambda>(v, e). P v) W) (\<lambda>\<tau>. f (\<tau>(v := r))) = Expect W (\<lambda>\<tau>. f (\<tau>(v := r)))" for r
    proof (rule Cons.IH [OF W])
      fix \<tau> :: world and u q assume u: "\<not> P u"
      have "(\<tau>(u := q))(v := r) = (\<tau>(v := r))(u := q)" using u True by (intro fun_upd_twist) auto
      show "f ((\<tau>(u := q))(v := r)) = f (\<tau>(v := r))" unfolding \<open>(\<tau>(u := q))(v := r) = _\<close> by (rule Cons.prems(2) [OF u])
    qed
    show ?thesis using True by (simp add: ve Expect_Cons IH)
  next
    case False
    have "Expect W (\<lambda>\<tau>. f (\<tau>(v := r))) = Expect W f" for r by (rule Expect_cong) (rule Cons.prems(2) [OF False])
    then have "Expect ((v, e) # W) f = (\<Sum>(r, p)\<leftarrow>e. p) * Expect W f"
      by (simp add: Expect_Cons sum_list_mult_const case_prod_unfold)
    then show ?thesis using False Cons.IH [OF W Cons.prems(2)] e by (simp add: ve)
  qed
qed simp

lemma boxes_estimate:
  assumes "wt_ok W"
  shows "(\<Sum>ks\<leftarrow>boxes (open_dists W d). volume (open_dists W d) ks * estimate ws d (box_world (open_vars W d) ks)) = Expect W (estimate ws d)"
proof -
  have "override d (\<tau>(v := r)) = override d \<tau>" if "value_in d v \<noteq> None" for \<tau> v r
    using that by (auto simp: fun_eq_iff override_def split: option.splits)
  then have "Expect (open_vars W d) (estimate ws d) = Expect W (estimate ws d)"
    unfolding open_vars_def by (intro Expect_filter [OF assms]) (simp add: estimate_def)
  then show ?thesis unfolding open_dists_def boxes_Expect .
qed

lemma clause_distribution:
  assumes "wt_ok W" "\<forall>d \<in> set ws. ready L W d \<and> d_prob d = prod_list (map m_prob (d_data d))" "nM = (\<Sum>d\<leftarrow>ws. d_prob d)" "0 < nM"
    "cbp = map (\<lambda>d. d_prob d / nM) ws"
  shows "\<forall>p \<in> set cbp. 0 \<le> p" "sum_list cbp = 1"
proof -
  have m: "0 \<le> m_prob mp" if d: "d \<in> set ws" and mp: "mp \<in> set (d_data d)" for d mp
  proof -
    obtain e where "(m_var mp, e) \<in> set W" "(m_rng mp, m_prob mp) \<in> set e" using assms(2) d mp unfolding ready_def by blast
    then show ?thesis using assms(1) unfolding wt_ok_def dist_ok_def by blast
  qed
  have "0 \<le> prod_list (map m_prob ms)" if "\<forall>mp \<in> set ms. 0 \<le> m_prob mp" for ms using that by (induction ms) auto
  then have "0 \<le> d_prob d" if "d \<in> set ws" for d using assms(2) m that by metis
  then show "\<forall>p \<in> set cbp. 0 \<le> p" using assms(4,5) by auto
  have "sum_list cbp = (\<Sum>d\<leftarrow>ws. d_prob d) / nM" unfolding assms(5) by (induction ws) (auto simp: add_divide_distrib)
  then show "sum_list cbp = 1" using assms(3,4) by simp
qed

lemma boxes_share:
  assumes "wt_ok W"
  shows "(\<Sum>ks\<leftarrow>boxes (open_dists W d). volume (open_dists W d) ks) = 1"
proof -
  have "wt_ok (open_vars W d)" using assms by (auto simp: wt_ok_def open_vars_def distinct_map intro: inj_on_subset)
  then have "Expect (open_vars W d) (\<lambda>_. 1) = 1" using Pr_True [of "open_vars W d"] by (simp add: Pr_Expect)
  then show ?thesis using boxes_Expect [of "open_vars W d" "\<lambda>_. 1"] by (simp add: open_dists_def)
qed

lemma box_volume:
  assumes W: "wt_ok W" and ps: "\<forall>p \<in> set ps. 0 \<le> p" and ks: "ks \<in> set (boxes (open_dists W d))"
  shows "i < length ps \<Longrightarrow> 0 \<le> volume (ps # open_dists W d) (i # ks)"
proof -
  have "0 \<le> width (open_dists W d ! m) (ks ! m)" if m: "m < length (open_dists W d)" for m
  proof -
    have "open_vars W d ! m \<in> set (open_vars W d)" using m by (intro nth_mem) (simp add: open_dists_def)
    then have "\<forall>p \<in> set (open_dists W d ! m). 0 \<le> p"
      using W m by (fastforce simp: open_dists_def open_vars_def wt_ok_def dist_ok_def case_prod_unfold)
    moreover have "ks ! m < length (open_dists W d ! m)" using ks m by (auto simp: boxes_def product_lists_set list_all2_conv_all_nth)
    ultimately show ?thesis by (simp add: width_nth)
  qed
  then have "0 \<le> volume (open_dists W d) ks" unfolding volume_def by (intro prod_list_nonneg) (auto simp: in_set_conv_nth)
  then show "i < length ps \<Longrightarrow> 0 \<le> volume (ps # open_dists W d) (i # ks)" using ps by (simp add: volume_Cons width_nth)
qed

section \<open>The aggregate\<close>

text \<open>The sum of the probabilities of the clauses.\<close>

definition bag_sum :: "lit list list \<Rightarrow> real" where
  "bag_sum cs = (\<Sum>c\<leftarrow>cs. prod_list (map (\<lambda>(v, r, p). p) c))"

lemma clause_prob:
  assumes "lineage_ok W n cs" "c \<in> set cs"
  shows "Pr W (holds c) = prod_list (map (\<lambda>(v, r, p). p) c)"
proof -
  have "wt_ok W" "distinct (map fst c)" "in_wt W c" using assms by (auto simp: lineage_ok_def)
  then show ?thesis using Pr_conj [of W c] by (fastforce simp: holds_def [abs_def] in_wt_def)
qed

lemma bag_sum_bounds:
  assumes ok: "lineage_ok W n cs"
  shows "Pr W (lineage_holds cs) \<le> bag_sum cs" "bag_sum cs \<le> real (length cs) * Pr W (lineage_holds cs)"
proof -
  have W: "wt_ok W" using ok by (simp add: lineage_ok_def)
  have bag: "bag_sum cs = (\<Sum>c\<leftarrow>cs. Pr W (holds c))" unfolding bag_sum_def using clause_prob [OF ok] by (intro arg_cong [where f = sum_list]) simp
  have "Pr W (lineage_holds ds) \<le> (\<Sum>c\<leftarrow>ds. Pr W (holds c))" for ds
  proof (induction ds)
    case Nil
    then show ?case by (simp add: lineage_holds_def [abs_def])
  next
    case (Cons c ds)
    have "Pr W (lineage_holds (c # ds)) = Pr W (\<lambda>\<tau>. holds c \<tau> \<or> lineage_holds ds \<tau>)" by (rule Pr_cong) (simp add: lineage_holds_def)
    also have "\<dots> \<le> Pr W (holds c) + Pr W (lineage_holds ds)"
      using Pr_add [of W "holds c" "lineage_holds ds"] Pr_nonneg [OF W, of "\<lambda>\<tau>. holds c \<tau> \<and> lineage_holds ds \<tau>"] by simp
    finally show ?case using Cons.IH by simp
  qed
  then show "Pr W (lineage_holds cs) \<le> bag_sum cs" unfolding bag .
  have "(\<Sum>c\<leftarrow>ds. Pr W (holds c)) \<le> real (length ds) * Pr W (lineage_holds cs)" if "set ds \<subseteq> set cs" for ds
    using that
  proof (induction ds)
    case (Cons c ds)
    have "Pr W (holds c) \<le> Pr W (lineage_holds cs)" using Cons.prems by (intro Pr_mono [OF W]) (auto simp: lineage_holds_def)
    then show ?case using Cons by (simp add: algebra_simps)
  qed simp
  then show "bag_sum cs \<le> real (length cs) * Pr W (lineage_holds cs)" unfolding bag by simp
qed

lemma prepared_ready:
  assumes "prepared W n cs t ws"
  shows "\<forall>d \<in> set ws. ready n (wt_dist t) d \<and> d_prob d = prod_list (map m_prob (d_data d))"
    "(\<Sum>d\<leftarrow>ws. d_prob d) = bag_sum cs"
proof -
  have p: "tree_pre n (wt_dist t) ws {..<length ws}" "entries_at (wt_dist t) ws" "map lits_of ws = cs"
    "\<forall>i < length ws. \<forall>mp \<in> set (d_data (ws ! i)). live mp"
    using assms unfolding prepared_def by blast+
  have all: "live mp" "entry_at (wt_dist t) mp" if "d \<in> set ws" "mp \<in> set (d_data d)" for d mp
    using p(2,4) that unfolding entries_at_def by (metis in_set_conv_nth)+
  have inv: "wsd_inv n (wt_dist t) d" if "d \<in> set ws" for d using p(1) that by (auto simp: tree_pre_def in_set_conv_nth)
  have lit: "\<exists>e. (m_var mp, e) \<in> set (wt_dist t) \<and> (m_rng mp, m_prob mp) \<in> set e" if "d \<in> set ws" "mp \<in> set (d_data d)" for d mp
  proof -
    have "lit_at (wt_dist t) mp" using inv [OF that(1)] all(1) [OF that] that(2) by (auto simp: wsd_inv_def map_inv_def)
    then obtain k j where "k < length (wt_dist t)" "fst (wt_dist t ! k) = m_var mp" "j < length (snd (wt_dist t ! k))"
      "snd (wt_dist t ! k) ! j = (m_rng mp, m_prob mp)" by (auto simp: lit_at_def)
    then show ?thesis by (metis nth_mem prod.collapse)
  qed
  show one: "\<forall>d \<in> set ws. ready n (wt_dist t) d \<and> d_prob d = prod_list (map m_prob (d_data d))"
  proof
    fix d assume d: "d \<in> set ws"
    have "filter live (d_data d) = d_data d" using all(1) [OF d] by simp
    then show "ready n (wt_dist t) d \<and> d_prob d = prod_list (map m_prob (d_data d))"
      using inv [OF d] all [OF d] lit [OF d] by (simp add: wsd_inv_def ready_def live_def)
  qed
  have "map d_prob ws = map (\<lambda>d. prod_list (map (\<lambda>(v, r, p). p) (lits_of d))) ws"
    using one by (simp add: lits_of_def comp_def)
  then have "(\<Sum>d\<leftarrow>ws. d_prob d) = (\<Sum>d\<leftarrow>ws. prod_list (map (\<lambda>(v, r, p). p) (lits_of d)))" by (rule arg_cong)
  then show "(\<Sum>d\<leftarrow>ws. d_prob d) = bag_sum cs" unfolding bag_sum_def p(3) [symmetric] map_map comp_def .
qed

lemma aconf_final_ok:
  assumes lin: "lin_inv (wt_prob W) n V cs (l, s)" and ok: "lineage_ok W n cs" and ne: "cs \<noteq> []"
    and e: "0 < epsilon g" "epsilon g \<le> 1" and d: "0 < delta g" "delta g < 1" and fits: "aa_fits (length cs) (epsilon g) (delta g)"
  shows "ok (aconf_final rnd pos (g, l, s)) (\<lambda>(r, l', s', pos'). S l' = None \<and> \<not> groupcxt l' \<and>
    Pr W (lineage_holds cs) / real (length cs) \<le> r \<and> r \<le> 2 * real (length cs) * Pr W (lineage_holds cs))"
proof -
  obtain t ws0 ws where prep: "getMissingRngs s = Inr t" "S l = Some ws0" "computeEntryPointers n t ws0 = Inr ws"
    "prepared W n cs t ws" and l: "WSD_LEN l = n" "groupcxt l"
    by (rule prepared_group [OF lin ok])
  have p: "wt_ok (wt_dist t)" "length ws = length cs" using prep(4) unfolding prepared_def by blast+
  note r = prepared_ready [OF prep(4)]
  let ?cbp = "map (\<lambda>d. d_prob d / (\<Sum>d\<leftarrow>ws. d_prob d)) ws" and ?p = "Pr W (lineage_holds cs)" and ?n = "real (length cs)"
  have inv: "est_inv (wt_dist t) n ws ?cbp (t, pos)" using p ne r(1) by (auto simp: est_inv_def)
  obtain q s' p' where q: "AA_algorithm (compute_estimator rnd n ws ?cbp) (length ws) (epsilon g) (delta g) (t, pos) = Inr (q, s', p')"
    "1 / ?n \<le> q" "q \<le> 2"
    using kl.AA_ok [OF inv e d, of rnd] fits p(2) by (auto elim!: ok_E)
  note b = bag_sum_bounds [OF ok]
  have nM: "0 \<le> bag_sum cs" using b(1) Pr_nonneg [of W "lineage_holds cs"] ok by (simp add: lineage_ok_def)
  have "1 / ?n * bag_sum cs \<le> q * bag_sum cs" "q * bag_sum cs \<le> 2 * bag_sum cs"
    using q(2,3) nM by (intro mult_right_mono; simp)+
  moreover have "?p / ?n \<le> 1 / ?n * bag_sum cs" using b(1) by (simp add: divide_right_mono)
  ultimately have "?p / ?n \<le> q * bag_sum cs" "q * bag_sum cs \<le> 2 * ?n * ?p" using b(2) by linarith+
  then show ?thesis using prep(1-3) l q(1) r(2) p(2) by (simp add: aconf_final_def Let_def)
qed

text \<open>One group of the aggregate.\<close>

definition aconf_group :: "draws \<Rightarrow> nat \<Rightarrow> nat \<Rightarrow> real \<Rightarrow> real \<Rightarrow> lit list list \<Rightarrow> aconf_state \<Rightarrow> (real \<times> lineage \<times> generalState \<times> nat) res" where
  "aconf_group rnd pos n e d cs st = rbind (fold_res (aconf_accum n e d) cs st) (aconf_final rnd pos)"

lemma aconf_accum_all:
  "cs \<noteq> [] \<Longrightarrow> fold_res (aconf_accum n e d) cs (g, l, s) = rbind (accum_all n cs (l, s)) (\<lambda>(l, s). Inr (g\<lparr>epsilon := e, delta := d\<rparr>, l, s))"
proof (induction cs arbitrary: g l s)
  case (Cons c cs)
  then show ?case
    by (cases "cs = []") (auto simp: accum_all_def aconf_accum_def Let_def rbind_assoc rbind_def split: sum.splits)
qed simp

section \<open>Properties\<close>

text \<open>
  C27. The Monte Carlo approximation ends, for every sequence of random numbers: with an error of
  at most one, a probability of failure below one and step counts within an \<open>int\<close>, the
  aggregate returns a number between the probability of the lineage divided by the number of
  clauses and twice the probability times this number, and empties the accumulator.
\<close>

theorem aconf_terminates:
  assumes "lineage_ok W n cs" "cs \<noteq> []" "S l = None" "0 < e" "e \<le> 1" "0 < d" "d < 1" "aa_fits (length cs) e d"
  shows "\<exists>r l' s' pos'. aconf_group rnd pos n e d cs (g, l, s) = Inr (r, l', s', pos') \<and> S l' = None \<and>
    Pr W (lineage_holds cs) / real (length cs) \<le> r \<and> r \<le> 2 * real (length cs) * Pr W (lineage_holds cs)"
proof -
  obtain l' s' where a: "accum_all n cs (l, s) = Inr (l', s')" "lin_inv (wt_prob W) n (\<Union>c\<in>set cs. fst ` set c) cs (l', s')"
    by (rule accumulated_group [OF assms(1-3)])
  show ?thesis
    using aconf_final_ok [OF a(2) assms(1,2), of "g\<lparr>epsilon := e, delta := d\<rparr>" rnd pos] assms(4-8) a(1)
    unfolding aconf_group_def aconf_accum_all [OF assms(2)] by (auto simp: ok_def)
qed

lemma small_fits: "aa_fits 1 1 (1/2)"
proof -
  have "ln (3/2) \<le> (1 :: real)" using ln_le_minus_one [of "3/2 :: real"] by simp
  then have "(1 + ln (3/2)) * (24 * (euler - 2)) \<le> 2 * (24 * (euler - 2))" by (intro mult_right_mono) (simp_all add: euler_def)
  then have "upsilon2 1 (1/2) \<le> 1000" by (simp add: upsilon2_eq euler_def)
  moreover have "ln 12 \<le> (11 :: real)" using ln_le_minus_one [of "12 :: real"] by simp
  then have "upsilon1_sra 1 (1/2) \<le> 1000" by (simp add: upsilon1_sra_def epsilon_sra_def euler_def)
  ultimately show ?thesis by (simp add: aa_fits_def)
qed

theorem aconf_terminates_witness:
  "\<exists>r l' s' pos'. aconf_group (\<lambda>k. real (k mod 7) * 1000) 0 1 1 (1/2) [[(1, 1, 1/2)]] (\<lparr>epsilon = 0, delta = 0\<rparr>, empty_lineage, empty_table 10) =
    Inr (r, l', s', pos') \<and> 1/2 \<le> r \<and> r \<le> 1"
proof -
  have pr: "Pr two_coins (lineage_holds [[(1, 1, 1/2)]]) = 1/2" by (simp add: two_coins_def Pr_Cons lineage_holds_def)
  have fits: "aa_fits (length [[(1, 1, 1/2)] :: lit list]) 1 (1/2)" using small_fits by simp
  from aconf_terminates [OF one_clause_ok _ S_empty_lineage _ _ _ _ fits, of "\<lambda>k. real (k mod 7) * 1000" 0 "\<lparr>epsilon = 0, delta = 0\<rparr>" "empty_table 10"]
  show ?thesis unfolding pr by auto
qed

text \<open>
  C13. The estimator is unbiased, for clauses prepared for a proper world table, with the
  probabilities of the clauses divided by their sum \<open>nM\<close> as the distribution of the first draw. The
  sequences of uniform random numbers fall into boxes: the slot of a clause for the first draw and,
  for every variable the clause leaves open, the slot of one of its values. The shares of the boxes
  add up to one, and the mean of the results of \<open>compute_estimator\<close>, one run for every box with any
  random numbers \<open>D\<close> from it, each weighted with the share of its box, is the probability that a
  clause holds divided by \<open>nM\<close>.
\<close>

theorem compute_estimator_unbiased:
  assumes "wt_ok W" "ws \<noteq> []" "\<forall>d \<in> set ws. ready L W d \<and> d_prob d = prod_list (map m_prob (d_data d))" "wt_dist s = W"
    "nM = (\<Sum>d\<leftarrow>ws. d_prob d)" "0 < nM" "cbp = map (\<lambda>d. d_prob d / nM) ws"
    and D: "\<And>i ks. i < length ws \<Longrightarrow> ks \<in> set (boxes (open_dists W (ws ! i))) \<Longrightarrow> 0 < volume (cbp # open_dists W (ws ! i)) (i # ks) \<Longrightarrow>
      in_box (cbp # open_dists W (ws ! i)) (i # ks) (D i ks) pos"
  shows "(\<Sum>i<length ws. \<Sum>ks\<leftarrow>boxes (open_dists W (ws ! i)). volume (cbp # open_dists W (ws ! i)) (i # ks)) = 1 \<and>
    (\<Sum>i<length ws. \<Sum>ks\<leftarrow>boxes (open_dists W (ws ! i)). volume (cbp # open_dists W (ws ! i)) (i # ks) *
      outcome (compute_estimator (D i ks) L ws cbp (s, pos))) = Pr W (\<lambda>\<tau>. \<exists>d \<in> set ws. wsat d \<tau>) / nM"
proof
  note c = clause_distribution [OF assms(1,3,5,6,7)]
  have share: "(\<Sum>ks\<leftarrow>boxes (open_dists W (ws ! i)). volume (cbp # open_dists W (ws ! i)) (i # ks) * x) = cbp ! i * x"
    if "i < length ws" for i x
  proof -
    have "width cbp i = cbp ! i" using that assms(7) by (simp add: width_nth)
    then show ?thesis using boxes_share [OF assms(1), of "ws ! i"] by (simp add: volume_Cons sum_list_mult_const sum_list_const_mult)
  qed
  have "(\<Sum>i<length ws. \<Sum>ks\<leftarrow>boxes (open_dists W (ws ! i)). volume (cbp # open_dists W (ws ! i)) (i # ks)) = (\<Sum>i<length ws. cbp ! i)"
    using share [of _ 1] by (intro sum.cong) auto
  then show "(\<Sum>i<length ws. \<Sum>ks\<leftarrow>boxes (open_dists W (ws ! i)). volume (cbp # open_dists W (ws ! i)) (i # ks)) = 1"
    using c(2) assms(7) by (simp add: sum_list_sum_nth atLeast0LessThan)
  have inv: "est_inv W L ws cbp (s, pos)" using assms(1-4,7) by (simp add: est_inv_def)
  have run: "(\<Sum>ks\<leftarrow>boxes (open_dists W (ws ! i)). volume (cbp # open_dists W (ws ! i)) (i # ks) * outcome (compute_estimator (D i ks) L ws cbp (s, pos))) =
      d_prob (ws ! i) * Expect W (estimate ws (ws ! i)) / nM" if i: "i < length ws" for i
  proof -
    have "volume (cbp # open_dists W (ws ! i)) (i # ks) * outcome (compute_estimator (D i ks) L ws cbp (s, pos)) =
        cbp ! i * (volume (open_dists W (ws ! i)) ks * estimate ws (ws ! i) (box_world (open_vars W (ws ! i)) ks))"
      if ks: "ks \<in> set (boxes (open_dists W (ws ! i)))" for ks
      using compute_estimator_box [OF inv c(1) i ks D [OF i ks]] box_volume [OF assms(1) c(1) ks, of i] i assms(7)
      by (cases "0 < volume (cbp # open_dists W (ws ! i)) (i # ks)") (auto simp: volume_Cons width_nth)
    then have "(\<Sum>ks\<leftarrow>boxes (open_dists W (ws ! i)). volume (cbp # open_dists W (ws ! i)) (i # ks) * outcome (compute_estimator (D i ks) L ws cbp (s, pos))) =
        (\<Sum>ks\<leftarrow>boxes (open_dists W (ws ! i)). cbp ! i * (volume (open_dists W (ws ! i)) ks * estimate ws (ws ! i) (box_world (open_vars W (ws ! i)) ks)))"
      by (intro arg_cong [where f = sum_list] map_cong) auto
    also have "\<dots> = cbp ! i * Expect W (estimate ws (ws ! i))" by (simp only: sum_list_const_mult boxes_estimate [OF assms(1)])
    finally show ?thesis using i assms(7) by simp
  qed
  then show "(\<Sum>i<length ws. \<Sum>ks\<leftarrow>boxes (open_dists W (ws ! i)). volume (cbp # open_dists W (ws ! i)) (i # ks) *
      outcome (compute_estimator (D i ks) L ws cbp (s, pos))) = Pr W (\<lambda>\<tau>. \<exists>d \<in> set ws. wsat d \<tau>) / nM"
    unfolding estimate_mean [OF assms(1,3), symmetric] by (simp add: sum_divide_distrib)
qed

text \<open>Two clauses that leave a variable open each, and the last draws of a box.\<close>

definition two_wsds :: "WSD list" where
  "two_wsds = [\<lparr>d_data = [map_of_entry 1 1 (1/2) 0 0], d_prob = 1/2\<rparr>, \<lparr>d_data = [map_of_entry 2 1 (1/4) 1 0], d_prob = 1/4\<rparr>]"

definition box_top :: "real list list \<Rightarrow> nat list \<Rightarrow> draws" where
  "box_top pss ks n = sum_list (take (Suc (ks ! n)) (pss ! n)) * RAND_MAX"

lemma two_wsds_ready: "\<forall>d \<in> set two_wsds. ready 1 two_coins d \<and> d_prob d = prod_list (map m_prob (d_data d))"
  by (auto simp: two_wsds_def two_coins_def ready_def map_of_entry_def create_map_def entry_at_def)

theorem compute_estimator_unbiased_witness:
  "(\<Sum>i<2. \<Sum>ks\<leftarrow>boxes (open_dists two_coins (two_wsds ! i)). volume ([2/3, 1/3] # open_dists two_coins (two_wsds ! i)) (i # ks) *
     outcome (compute_estimator (box_top ([2/3, 1/3] # open_dists two_coins (two_wsds ! i)) (i # ks)) 1 two_wsds [2/3, 1/3] (state_of two_coins, 0))) = 5/6"
proof -
  have pr: "Pr two_coins (\<lambda>\<tau>. \<exists>d \<in> set two_wsds. wsat d \<tau>) = 5/8"
    by (simp add: two_coins_def Pr_Cons wsat_def two_wsds_def map_of_entry_def create_map_def)
  have ws: "two_wsds \<noteq> []" "length two_wsds = 2" "map (\<lambda>d. d_prob d / (3/4)) two_wsds = [2/3, 1/3]" "(\<Sum>d\<leftarrow>two_wsds. d_prob d) = 3/4"
    by (simp_all add: two_wsds_def)
  have box: "in_box ([2/3, 1/3] # open_dists two_coins (two_wsds ! i)) (i # ks) (box_top ([2/3, 1/3] # open_dists two_coins (two_wsds ! i)) (i # ks)) 0"
    if "i < 2" "ks \<in> set (boxes (open_dists two_coins (two_wsds ! i)))" for i ks
    using that by (auto simp: less_2_cases_iff boxes_def open_dists_def open_vars_def two_coins_def two_wsds_def value_in_def map_of_entry_def
        create_map_def in_box_def slot_def box_top_def RAND_MAX_def less_Suc_eq)
  then show ?thesis
    using compute_estimator_unbiased [OF two_coins_ok(1) ws(1) two_wsds_ready wt_dist_state_of ws(4) [symmetric] _ ws(3) [symmetric],
        of "\<lambda>i ks. box_top ([2/3, 1/3] # open_dists two_coins (two_wsds ! i)) (i # ks)" 0] ws(2)
    unfolding pr by simp
qed

text \<open>
  The sampling of an index: the numbers of the random generator that lead to index \<open>i\<close> are
  those above the sum of the distribution before it and at most the sum that includes it, scaled
  to the range of the generator, so that their share is the \<open>i\<close>-th probability.
\<close>

theorem choose_with_distribution_interval:
  assumes "distrib \<noteq> []" "sum_list distrib = 1" "pick \<le> RAND_MAX"
  shows "\<exists>i < length distrib. choose_with_distribution distrib pick = int i \<and>
    pick \<le> sum_list (take (Suc i) distrib) * RAND_MAX \<and> (0 < i \<longrightarrow> sum_list (take i distrib) * RAND_MAX < pick)"
proof -
  note c = choose_loop_cases [where pick = pick and off = 0 and ps = distrib and i = 0]
  show ?thesis
  proof (cases "choose_loop pick 0 distrib 0")
    case None
    then show ?thesis using c assms by simp
  next
    case (Some i)
    then show ?thesis using c by (auto simp: choose_with_distribution_def intro!: exI [of _ i])
  qed
qed

theorem choose_with_distribution_interval_witness:
  "choose_with_distribution [1/4, 3/4] (RAND_MAX / 2) = 1"
proof -
  obtain i where i: "i < 2" "choose_with_distribution [1/4, 3/4] (RAND_MAX / 2) = int i"
    "RAND_MAX / 2 \<le> sum_list (take (Suc i) [1/4, 3/4]) * RAND_MAX"
    using choose_with_distribution_interval [of "[1/4, 3/4]" "RAND_MAX / 2"] by (auto simp: RAND_MAX_def)
  moreover have "i \<noteq> 0" using i(3) by (cases i) (simp_all add: RAND_MAX_def)
  ultimately show ?thesis by simp
qed

end
