(* ===== verification/SigTree.thy ===== *)
theory SigTree
  imports Worlds
begin

text \<open>
  The signature of a hierarchical query as a tree (\<^verbatim>\<open>signature.h\<close> and the tree functions of
  \<^verbatim>\<open>signature.c\<close>). A \<open>sigNode\<close> of C points to its first child and to its right sibling; here a
  node has the list of its children. The flag \<open>isLeaf\<close> is a field of its own, because the
  aggregation of \<^verbatim>\<open>SPROUT.c\<close> turns an inner node into a leaf and leaves its children in place.

  The lemmas relate the fields that \<open>calSib\<close>, \<open>calDomain\<close> and \<open>derivePos\<close> fill in to the shape of
  the tree, as the one-scan algorithm reads them from the array of \<open>fillLeafNode\<close>.
\<close>

section \<open>Data\<close>

text \<open>The parts of a range variable and of a from-clause item that the code reads.\<close>

record RangeVar =
  catalogname :: "string option"
  schemaname :: "string option"
  relname :: string
  rv_alias :: "string option"

datatype from_item =
    RangeVarNode RangeVar
  | RangeSubselectNode string    \<comment> \<open>the name of its alias\<close>
  | OtherNode

record subGoal =
  sg_fields :: "string list"
  sg_relation :: "from_item option"

record probTableEntry =
  repre :: int
  probability :: real

text \<open>
  A node; the field \<^verbatim>\<open>rel\<close> of the source is never used. The table \<open>pt\<close> is the list from its
  \<^verbatim>\<open>head\<close> on.
\<close>

record sigInfo =
  isLeaf :: bool
  withStar :: bool
  si_sg :: "subGoal option"
  si_type :: int
  si_pos :: nat
  si_domain :: nat
  varsToCombine :: nat
  pt :: "probTableEntry list option"

definition palloc0_sigNode :: sigInfo where
  "palloc0_sigNode = \<lparr>isLeaf = False, withStar = False, si_sg = None, si_type = 0, si_pos = 0, si_domain = 0, varsToCombine = 0, pt = None\<rparr>"

datatype sigNode = SigNode (node_info: sigInfo) (node_children: "sigNode list")

text \<open>A change of the first child, where there is one.\<close>

fun upd_first :: "('a \<Rightarrow> 'a) \<Rightarrow> 'a list \<Rightarrow> 'a list" where
  "upd_first f [] = []"
| "upd_first f (x # xs) = f x # xs"

fun upd_info :: "(sigInfo \<Rightarrow> sigInfo) \<Rightarrow> sigNode \<Rightarrow> sigNode" where
  "upd_info f (SigNode i cs) = SigNode (f i) cs"

section \<open>Operations\<close>

primrec leafDescendentCount :: "sigNode \<Rightarrow> nat" where
  "leafDescendentCount (SigNode i cs) = (if isLeaf i then 1 else sum_list (map leafDescendentCount cs))"

text \<open>
  The recursive calls change fields below a child only, so the fields of the first child may be
  set before or after them.
\<close>

primrec calSib :: "sigNode \<Rightarrow> sigNode" where
  "calSib (SigNode i cs) =
     SigNode i (upd_first (upd_info (\<lambda>j. if isLeaf j then j\<lparr>varsToCombine := length (tl cs)\<rparr> else j)) (map calSib cs))"

primrec calDomain :: "sigNode \<Rightarrow> sigNode" where
  "calDomain (SigNode i cs) =
     SigNode i (upd_first (upd_info (\<lambda>j. if isLeaf j then j\<lparr>si_domain := sum_list (map leafDescendentCount (tl cs))\<rparr> else j))
       (map calDomain cs))"

text \<open>\<^verbatim>\<open>while (child != NULL) { if (!P(child)) return false; ... }\<close>\<close>

fun all_res :: "('a \<Rightarrow> bool res) \<Rightarrow> 'a list \<Rightarrow> bool res" where
  "all_res P [] = Inr True"
| "all_res P (x # xs) = rbind (P x) (\<lambda>b. if b then all_res P xs else Inr False)"

lemma all_res_cong [fundef_cong]:
  "xs = ys \<Longrightarrow> (\<And>x. x \<in> set ys \<Longrightarrow> P x = Q x) \<Longrightarrow> all_res P xs = all_res Q ys"
  by (induction ys arbitrary: xs) (auto intro!: rbind_cong)

fun is1Scan :: "sigNode \<Rightarrow> bool res" where
  "is1Scan (SigNode i cs) =
     (if isLeaf i then Inr True
      else
        rbind (all_res is1Scan cs) (\<lambda>b.
        if \<not> b then Inr False
        else
          case cs of
            [] \<Rightarrow> Inl NullPointer
          | c # _ \<Rightarrow> Inr (isLeaf (node_info c) \<and> \<not> withStar (node_info c))))"

text \<open>The array of leaves; the caller allocates it with \<open>leafDescendentCount\<close> elements.\<close>

primrec fillLeafNode :: "sigNode \<Rightarrow> sigInfo list" where
  "fillLeafNode (SigNode i cs) = (if isLeaf i then [i] else concat (map fillLeafNode cs))"

fun derivePos :: "sigNode \<Rightarrow> nat \<Rightarrow> nat \<times> sigNode"
  and derivePos_children :: "sigNode list \<Rightarrow> nat \<Rightarrow> nat \<times> sigNode list" where
  "derivePos (SigNode i cs) n =
     (if isLeaf i then (n + 1, SigNode (i\<lparr>si_pos := n\<rparr>) cs)
      else let (count, cs') = derivePos_children cs n in (count, SigNode i cs'))"
| "derivePos_children [] n = (n, [])"
| "derivePos_children (c # cs) n =
     (let (count, c') = derivePos c n; (count, cs') = derivePos_children cs count in (count, c' # cs'))"

primrec getVarOrder :: "sigNode \<Rightarrow> string list list \<Rightarrow> string list list res" where
  "getVarOrder (SigNode i cs) list =
     (if isLeaf i then rbind (deref (si_sg i)) (\<lambda>sg. Inr (list @ [sg_fields sg]))
      else fold_res (\<lambda>f result. f result) (map getVarOrder cs) list)"

fun get1stLeafChild :: "sigNode \<Rightarrow> sigInfo res" where
  "get1stLeafChild (SigNode i cs) =
     (if isLeaf i then Inr i else case cs of [] \<Rightarrow> Inl NullPointer | c # _ \<Rightarrow> get1stLeafChild c)"

section \<open>The leaves\<close>

lemma length_fillLeafNode: "length (fillLeafNode t) = leafDescendentCount t"
  by (induction t) (auto simp: length_concat comp_def intro!: arg_cong [where f = sum_list])

lemma leafDescendentCount_calSib [simp]: "leafDescendentCount (calSib t) = leafDescendentCount t"
proof (induction t)
  case (SigNode i cs)
  have "map leafDescendentCount (upd_first (upd_info (\<lambda>j. if isLeaf j then j\<lparr>varsToCombine := n\<rparr> else j)) xs) =
    map leafDescendentCount xs" for n xs
    by (cases xs; cases "hd xs") auto
  with SigNode show ?case by (auto simp: comp_def intro!: arg_cong [where f = sum_list])
qed

text \<open>The leaves carry the positions \<open>n, n + 1, ...\<close> in order and are otherwise unchanged.\<close>

lemma derivePos_leaves:
  "fst (derivePos t n) = n + leafDescendentCount t \<and>
   map si_pos (fillLeafNode (snd (derivePos t n))) = [n..<n + leafDescendentCount t] \<and>
   map (si_pos_update (\<lambda>_. 0)) (fillLeafNode (snd (derivePos t n))) = map (si_pos_update (\<lambda>_. 0)) (fillLeafNode t)"
  "fst (derivePos_children ts n) = n + sum_list (map leafDescendentCount ts) \<and>
   map si_pos (concat (map fillLeafNode (snd (derivePos_children ts n)))) = [n..<n + sum_list (map leafDescendentCount ts)] \<and>
   map (si_pos_update (\<lambda>_. 0)) (concat (map fillLeafNode (snd (derivePos_children ts n)))) =
     map (si_pos_update (\<lambda>_. 0)) (concat (map fillLeafNode ts))"
proof (induction t n and ts n rule: derivePos_derivePos_children.induct)
  case (3 c cs n)
  have "[n..<n + (a + b)] = [n..<n + a] @ [n + a..<n + (a + b)]" for a b
    using upt_add_eq_append [of n "n + a" b] by (simp add: add.assoc)
  then show ?case using 3(1) 3(2) [OF refl surjective_pairing [symmetric]] by (simp add: split_beta Let_def add.assoc)
qed (auto simp: split_beta Let_def)

section \<open>The shape of a one-scan signature\<close>

text \<open>
  In a signature with the one-scan property every inner node starts with a leaf that heads it.
  Its shape is a tree over the columns: a column with the shapes of what it heads. \<open>tcols\<close> lists
  for every column, in order, the number of columns it heads and the number of their groups.
\<close>

datatype shape = Col "shape list"

primrec tcols :: "shape \<Rightarrow> (nat \<times> nat) list" where
  "tcols (Col ts) = (sum_list (map length (map tcols ts)), length ts) # concat (map tcols ts)"

primrec shape_of :: "sigNode \<Rightarrow> shape" where
  "shape_of (SigNode i cs) = (if isLeaf i then Col [] else Col (tl (map shape_of cs)))"

definition col :: "sigInfo \<Rightarrow> nat \<times> nat" where
  "col i = (si_domain i, varsToCombine i)"

text \<open>A signature as \<open>buildSigTree\<close> makes it: fields not yet filled in, leaves without children.\<close>

primrec fresh :: "sigNode \<Rightarrow> bool" where
  "fresh (SigNode i cs) \<longleftrightarrow> si_domain i = 0 \<and> varsToCombine i = 0 \<and> si_type i = 0 \<and> (isLeaf i \<longrightarrow> cs = []) \<and> list_all id (map fresh cs)"

lemma fresh_types: "fresh t \<Longrightarrow> i \<in> set (fillLeafNode t) \<Longrightarrow> si_type i = 0"
  by (induction t) (auto simp: list_all_iff split: if_splits)

lemma all_res_True: "all_res P xs = Inr True \<longleftrightarrow> (\<forall>x \<in> set xs. P x = Inr True)"
  by (induction xs) (auto simp: rbind_eq_Inr_iff split: if_splits)

lemma is1Scan_inner:
  assumes "is1Scan (SigNode i cs) = Inr True" "fresh (SigNode i cs)" "\<not> isLeaf i"
  obtains j rest where "cs = SigNode j [] # rest" "isLeaf j" "\<not> withStar j" "\<forall>c \<in> set rest. is1Scan c = Inr True \<and> fresh c"
    "si_domain j = 0" "varsToCombine j = 0"
proof (cases cs)
  case Nil
  then show ?thesis using assms(1,3) by simp
next
  case (Cons c rest)
  then show ?thesis using assms that by (cases c) (auto simp: rbind_eq_Inr_iff all_res_True list_all_iff split: if_splits)
qed

lemma tcols_length: "length (tcols (Col ts)) = Suc (sum_list (map (length \<circ> tcols) ts))"
  by (simp add: length_concat)

lemma length_tcols_shape:
  assumes "is1Scan t = Inr True" "fresh t"
  shows "length (tcols (shape_of t)) = leafDescendentCount t"
  using assms
proof (induction t)
  case (SigNode i cs)
  show ?case
  proof (cases "isLeaf i")
    case False
    obtain j rest where *: "cs = SigNode j [] # rest" "isLeaf j" "\<forall>c \<in> set rest. is1Scan c = Inr True \<and> fresh c"
      by (rule is1Scan_inner [OF SigNode.prems False])
    have "(\<Sum>c\<leftarrow>rest. length (tcols (shape_of c))) = sum_list (map leafDescendentCount rest)"
      by (rule arg_cong [where f = sum_list], rule map_cong) (use SigNode.IH * in auto)
    then show ?thesis unfolding *(1) using *(2) False by (simp add: length_concat comp_def)
  qed simp
qed

text \<open>What the passes \<open>calSib\<close> and \<open>calDomain\<close> leave in the array of leaves.\<close>

lemma calDomain_leaves:
  assumes "is1Scan t = Inr True" "fresh t"
  shows "map col (fillLeafNode (calDomain (calSib t))) = tcols (shape_of t)"
  using assms
proof (induction t)
  case (SigNode i cs)
  show ?case
  proof (cases "isLeaf i")
    case True
    then show ?thesis using SigNode.prems by (simp add: col_def)
  next
    case False
    obtain j rest where *: "cs = SigNode j [] # rest" "isLeaf j" "\<forall>c \<in> set rest. is1Scan c = Inr True \<and> fresh c"
      by (rule is1Scan_inner [OF SigNode.prems False])
    have "concat (map (\<lambda>c. map col (fillLeafNode (calDomain (calSib c)))) rest) = concat (map (\<lambda>c. tcols (shape_of c)) rest)"
      by (rule arg_cong [where f = concat], rule map_cong) (use SigNode.IH * in auto)
    moreover have "(\<Sum>c\<leftarrow>rest. length (tcols (shape_of c))) = sum_list (map leafDescendentCount rest)"
      by (rule arg_cong [where f = sum_list], rule map_cong) (use length_tcols_shape * in auto)
    ultimately show ?thesis unfolding *(1) using *(2) False
      by (simp add: col_def [of "j\<lparr>varsToCombine := n, si_domain := m\<rparr>" for n m] map_concat comp_def)
  qed
qed

end
