(* ===== verification/FactLin.thy ===== *)
theory FactLin
  imports SigTree
begin

text \<open>
  Lineages that factorise along a signature. An entry of a column is a variable with its
  probability and, for every group of columns it heads, the lineage below it; a tuple of the
  lineage takes one entry of every column. This is the shape the tuples of a hierarchical query
  have once they are sorted by the columns of its signature. \<open>lin_prob_Pr\<close> gives the probability
  of such a lineage when no variable occurs twice.
\<close>

section \<open>Lineages and their tuples\<close>

text \<open>
  An entry of a column is a variable with its probability and, for every group of columns it
  heads, the lineage below it. The tuples are enumerated in nested loops, the last column varying
  fastest, which is the order of the sort.
\<close>

datatype lin = Lin "(int \<times> real \<times> lin list) list"

primrec entries :: "lin \<Rightarrow> (int \<times> real \<times> lin list) list" where
  "entries (Lin es) = es"

primrec lsize :: "lin \<Rightarrow> nat" where
  "lsize (Lin es) = Suc (sum_list (map (\<lambda>(x, p, subs). sum_list subs) (map (map_prod id (map_prod id (map lsize))) es)))"

lemma lsize_entry: "(x, p, subs) \<in> set es \<Longrightarrow> sum_list (map lsize subs) < lsize (Lin es)"
proof -
  assume "(x, p, subs) \<in> set es"
  then have "sum_list (map lsize subs) \<in> set (map (\<lambda>(x, p, subs). sum_list subs) (map (map_prod id (map_prod id (map lsize))) es))"
    by force
  from member_le_sum_list [OF this] show ?thesis by simp
qed

type_synonym tuple = "(int \<times> real) list"

function enum_lin :: "lin list \<Rightarrow> tuple list" where
  "enum_lin [] = [[]]"
| "enum_lin (Lin es # R) = concat (map (\<lambda>(x, p, subs). map ((#) (x, p)) (enum_lin (subs @ R))) es)"
  by pat_completeness auto
termination
  by (relation "measure (\<lambda>Ls. sum_list (map lsize Ls))") (auto simp: lsize_entry simp del: lsize.simps)

fun lin_prob :: "lin \<Rightarrow> real" where
  "lin_prob (Lin es) = 1 - prod_list (map (\<lambda>(x, p, subs). 1 - p * prod_list (map lin_prob subs)) es)"

text \<open>The lineage has the shape of the columns, and no column repeats a variable.\<close>

fun conforms :: "shape \<Rightarrow> lin \<Rightarrow> bool" where
  "conforms (Col ts) (Lin es) \<longleftrightarrow> es \<noteq> [] \<and> distinct (map fst es) \<and> (\<forall>(x, p, subs) \<in> set es. list_all2 conforms ts subs)"

declare lsize.simps [simp del]

lemma bex_entry: "(\<exists>(x, p, subs) \<in> A. P x p subs) \<longleftrightarrow> (\<exists>x p subs. (x, p, subs) \<in> A \<and> P x p subs)"
  by auto

lemma ball_entry: "(\<forall>(x, p, subs) \<in> A. P x p subs) \<longleftrightarrow> (\<forall>x p subs. (x, p, subs) \<in> A \<longrightarrow> P x p subs)"
  by auto

abbreviation fsize :: "shape list \<Rightarrow> nat" where
  "fsize ts \<equiv> length (concat (map tcols ts))"

lemma fsize_0: "fsize ts = 0 \<longleftrightarrow> ts = []"
proof -
  have "tcols t \<noteq> []" for t by (cases t) simp
  then show ?thesis by (cases ts) auto
qed

lemma conforms_Cons:
  assumes "list_all2 conforms TS (Lin es # Ls)"
  obtains ts TS' where "TS = Col ts # TS'" "es \<noteq> []" "distinct (map fst es)" "\<forall>(x, p, subs) \<in> set es. list_all2 conforms ts subs"
    "list_all2 conforms TS' Ls"
proof (cases TS)
  case (Cons t TS')
  obtain ts where "t = Col ts" by (cases t)
  then show ?thesis using that assms Cons by auto
qed (use assms in simp)

lemma enum_length: "list_all2 conforms TS Ls \<Longrightarrow> u \<in> set (enum_lin Ls) \<Longrightarrow> length u = fsize TS"
proof (induction Ls arbitrary: TS u rule: enum_lin.induct)
  case (2 es R)
  obtain ts TS' where TS: "TS = Col ts # TS'" "es \<noteq> []" "distinct (map fst es)" "\<forall>(x, p, subs) \<in> set es. list_all2 conforms ts subs" "list_all2 conforms TS' R"
    by (rule conforms_Cons [OF 2(2)])
  from 2(3) obtain x p subs w where e: "(x, p, subs) \<in> set es" "w \<in> set (enum_lin (subs @ R))" "u = (x, p) # w" by auto
  then have "list_all2 conforms (ts @ TS') (subs @ R)" using TS by (auto intro: list_all2_appendI)
  with 2(1) [OF e(1) refl refl this e(2)] show ?case by (simp add: e(3) TS(1) length_concat)
qed simp

lemma enum_nonempty: "list_all2 conforms TS Ls \<Longrightarrow> enum_lin Ls \<noteq> []"
proof (induction Ls arbitrary: TS rule: enum_lin.induct)
  case (2 es R)
  obtain ts TS' where TS: "TS = Col ts # TS'" "es \<noteq> []" "distinct (map fst es)" "\<forall>(x, p, subs) \<in> set es. list_all2 conforms ts subs" "list_all2 conforms TS' R"
    by (rule conforms_Cons [OF 2(2)])
  obtain x p subs where e: "(x, p, subs) \<in> set es" using TS(2) by (cases es) auto
  then have "list_all2 conforms (ts @ TS') (subs @ R)" using TS by (auto intro: list_all2_appendI)
  with 2(1) [OF e refl refl this] e show ?case by force
qed simp

section \<open>The probability of a factorised lineage\<close>

primrec lin_holds :: "lin \<Rightarrow> world \<Rightarrow> bool" where
  "lin_holds (Lin es) = (\<lambda>\<tau>. \<exists>(x, p, subs) \<in> set (map (map_prod id (map_prod id (map lin_holds))) es). \<tau> x = 1 \<and> (\<forall>E \<in> set subs. E \<tau>))"

primrec lin_vars :: "lin \<Rightarrow> int list" where
  "lin_vars (Lin es) = concat (map (\<lambda>(x, p, subs). x # concat subs) (map (map_prod id (map_prod id (map lin_vars))) es))"

primrec lin_in :: "wtable \<Rightarrow> lin \<Rightarrow> bool" where
  "lin_in W (Lin es) \<longleftrightarrow> (\<forall>(x, p, subs) \<in> set (map (map_prod id (map_prod id (map (lin_in W)))) es). (\<exists>d. (x, d) \<in> set W \<and> (1, p) \<in> set d) \<and> list_all id subs)"

definition clause_of :: "tuple \<Rightarrow> lit list" where
  "clause_of t = map (\<lambda>(x, p). (x, 1, p)) t"

lemma lin_holds_iff: "lin_holds (Lin es) \<tau> \<longleftrightarrow> (\<exists>(x, p, subs) \<in> set es. \<tau> x = 1 \<and> (\<forall>L \<in> set subs. lin_holds L \<tau>))"
  by (auto simp: Bex_def)

lemma enum_holds: "(\<exists>u \<in> set (enum_lin Ls). holds (clause_of u) \<tau>) \<longleftrightarrow> (\<forall>L \<in> set Ls. lin_holds L \<tau>)"
proof (induction Ls rule: enum_lin.induct)
  case (2 es R)
  have "(\<exists>u \<in> set (enum_lin (Lin es # R)). holds (clause_of u) \<tau>) \<longleftrightarrow>
      (\<exists>(x, p, subs) \<in> set es. \<tau> x = 1 \<and> (\<exists>u \<in> set (enum_lin (subs @ R)). holds (clause_of u) \<tau>))"
    by (fastforce simp: clause_of_def)
  also have "\<dots> \<longleftrightarrow> (\<exists>(x, p, subs) \<in> set es. \<tau> x = 1 \<and> (\<forall>L \<in> set (subs @ R). lin_holds L \<tau>))"
    using 2 by (auto split: prod.splits)
  also have "\<dots> \<longleftrightarrow> (\<forall>L \<in> set (Lin es # R). lin_holds L \<tau>)" unfolding list.set ball_simps lin_holds_iff bex_entry set_append ball_Un by blast
  finally show ?case .
qed (simp add: clause_of_def)

lemma depends_all: "(\<And>x. x \<in> set xs \<Longrightarrow> depends (set (V x)) (f x)) \<Longrightarrow> depends (set (concat (map V xs))) (\<lambda>\<tau>. \<forall>x \<in> set xs. f x \<tau>)"
  unfolding depends_def by (metis UN_I set_concat set_map image_eqI)

lemma depends_ex: "(\<And>x. x \<in> set xs \<Longrightarrow> depends (set (V x)) (f x)) \<Longrightarrow> depends (set (concat (map V xs))) (\<lambda>\<tau>. \<exists>x \<in> set xs. f x \<tau>)"
  unfolding depends_def by (metis UN_I set_concat set_map image_eqI)

lemma Pr_all_indep:
  assumes "wt_ok W" "distinct (concat (map V xs))" "\<And>x. x \<in> set xs \<Longrightarrow> depends (set (V x)) (f x)"
  shows "Pr W (\<lambda>\<tau>. \<forall>x \<in> set xs. f x \<tau>) = (\<Prod>x\<leftarrow>xs. Pr W (f x))"
  using assms(2,3)
proof (induction xs)
  case Nil
  then show ?case using Pr_True [OF assms(1)] by simp
next
  case (Cons x xs)
  have "Pr W (\<lambda>\<tau>. f x \<tau> \<and> (\<forall>y \<in> set xs. f y \<tau>)) = Pr W (f x) * Pr W (\<lambda>\<tau>. \<forall>y \<in> set xs. f y \<tau>)"
    by (rule Pr_indep [OF assms(1) _ depends_all [of xs V]]) (use Cons.prems in auto)
  then show ?case using Cons by simp
qed

lemma Pr_ex_indep:
  assumes "wt_ok W" "distinct (concat (map V xs))" "\<And>x. x \<in> set xs \<Longrightarrow> depends (set (V x)) (f x)"
  shows "Pr W (\<lambda>\<tau>. \<exists>x \<in> set xs. f x \<tau>) = 1 - (\<Prod>x\<leftarrow>xs. 1 - Pr W (f x))"
  using assms(2,3)
proof (induction xs)
  case Nil
  then show ?case by simp
next
  case (Cons x xs)
  have "Pr W (\<lambda>\<tau>. f x \<tau> \<or> (\<exists>y \<in> set xs. f y \<tau>)) = Pr W (f x) + Pr W (\<lambda>\<tau>. \<exists>y \<in> set xs. f y \<tau>) - Pr W (f x) * Pr W (\<lambda>\<tau>. \<exists>y \<in> set xs. f y \<tau>)"
    by (rule Pr_disj_indep [OF assms(1) _ depends_ex [of xs V]]) (use Cons.prems in auto)
  then have "Pr W (\<lambda>\<tau>. \<exists>y \<in> set (x # xs). f y \<tau>) = 1 - (1 - Pr W (f x)) * (1 - Pr W (\<lambda>\<tau>. \<exists>y \<in> set xs. f y \<tau>))" by (simp add: algebra_simps)
  then show ?case using Cons by simp
qed

lemma lin_vars_simps: "lin_vars (Lin es) = concat (map (\<lambda>(x, p, subs). x # concat (map lin_vars subs)) es)"
  by (auto intro!: arg_cong [where f = concat])

lemma lin_depends: "depends (set (lin_vars L)) (lin_holds L)"
proof (induction L rule: lin_prob.induct)
  case (1 es)
  let ?V = "\<lambda>(x, p, subs). x # concat (map lin_vars subs)" and ?f = "\<lambda>(x, p, subs) \<tau>. \<tau> x = 1 \<and> (\<forall>L \<in> set subs. lin_holds L \<tau>)"
  have "depends (set (?V e)) (?f e)" if "e \<in> set es" for e
  proof -
    obtain x p subs where e: "e = (x, p, subs)" by (cases e)
    have "depends (set (concat (map lin_vars subs))) (\<lambda>\<tau>. \<forall>L \<in> set subs. lin_holds L \<tau>)"
      by (rule depends_all) (use 1 that e in blast)
    then show ?thesis by (auto simp: e depends_def)
  qed
  then have "depends (set (concat (map ?V es))) (\<lambda>\<tau>. \<exists>e \<in> set es. ?f e \<tau>)" by (rule depends_ex)
  moreover have "lin_holds (Lin es) = (\<lambda>\<tau>. \<exists>e \<in> set es. ?f e \<tau>)" by (auto simp: fun_eq_iff lin_holds_iff bex_entry simp del: lin_holds.simps)
  ultimately show ?case unfolding lin_vars_simps by simp
qed

lemma lin_in_iff: "lin_in W (Lin es) \<longleftrightarrow> (\<forall>(x, p, subs) \<in> set es. (\<exists>d. (x, d) \<in> set W \<and> (1, p) \<in> set d) \<and> (\<forall>L \<in> set subs. lin_in W L))"
  by (simp add: list_all_iff split_beta map_prod_def)

lemma lin_prob_Pr:
  assumes W: "wt_ok W"
  shows "lin_in W L \<Longrightarrow> distinct (lin_vars L) \<Longrightarrow> Pr W (lin_holds L) = lin_prob L"
proof (induction L rule: lin_prob.induct)
  case (1 es)
  let ?V = "\<lambda>(x, p, subs). x # concat (map lin_vars subs)" and ?f = "\<lambda>(x, p, subs) \<tau>. \<tau> x = 1 \<and> (\<forall>L \<in> set subs. lin_holds L \<tau>)"
  have dist: "distinct (concat (map ?V es))" using 1(3) unfolding lin_vars_simps .
  have dep: "depends (set (?V e)) (?f e)" if "e \<in> set es" for e
  proof -
    obtain x p subs where e: "e = (x, p, subs)" by (cases e)
    show ?thesis using depends_all [of subs lin_vars lin_holds] lin_depends by (auto simp: e depends_def)
  qed
  have "Pr W (?f e) = (\<lambda>(x, p, subs). p * prod_list (map lin_prob subs)) e" if "e \<in> set es" for e
  proof -
    obtain x p subs where e: "e = (x, p, subs)" by (cases e)
    obtain d where d: "(x, d) \<in> set W" "(1, p) \<in> set d" and sub: "\<forall>L \<in> set subs. lin_in W L" 
      using bspec [OF 1(2) [unfolded lin_in_iff] \<open>e \<in> set es\<close>] by (auto simp: e)
    have "distinct (?V e)" using dist that by (simp add: distinct_concat_iff)
    then have dx: "x \<notin> set (concat (map lin_vars subs))" "distinct (concat (map lin_vars subs))" by (simp_all add: e)
    then have "distinct (lin_vars L)" if "L \<in> set subs" for L using that by (simp add: distinct_concat_iff)
    then have IH: "Pr W (lin_holds L) = lin_prob L" if "L \<in> set subs" for L using 1(1) [OF \<open>e \<in> set es\<close> e [symmetric] refl that] sub that by auto
    have "Pr W (\<lambda>\<tau>. \<tau> x = 1 \<and> (\<forall>L \<in> set subs. lin_holds L \<tau>)) = p * Pr W (\<lambda>\<tau>. \<forall>L \<in> set subs. lin_holds L (\<tau>(x := 1)))"
      by (rule Pr_assign [OF W d])
    also have "(\<lambda>\<tau>. \<forall>L \<in> set subs. lin_holds L (\<tau>(x := 1))) = (\<lambda>\<tau>. \<forall>L \<in> set subs. lin_holds L \<tau>)"
      using depends_upd [OF depends_all [of subs lin_vars lin_holds, OF lin_depends] dx(1)] by (simp add: fun_eq_iff del: fun_upd_apply)
    also have "Pr W \<dots> = (\<Prod>L\<leftarrow>subs. Pr W (lin_holds L))" by (rule Pr_all_indep [OF W dx(2) lin_depends])
    also have "\<dots> = prod_list (map lin_prob subs)" using IH by (auto intro!: arg_cong [where f = prod_list])
    finally show ?thesis by (simp add: e)
  qed
  then have "(\<Prod>e\<leftarrow>es. 1 - Pr W (?f e)) = (\<Prod>(x, p, subs)\<leftarrow>es. 1 - p * prod_list (map lin_prob subs))"
    by (intro arg_cong [where f = prod_list] map_cong) (auto split: prod.splits)
  moreover have "lin_holds (Lin es) = (\<lambda>\<tau>. \<exists>e \<in> set es. ?f e \<tau>)" by (auto simp: fun_eq_iff lin_holds_iff bex_entry simp del: lin_holds.simps)
  ultimately show ?case using Pr_ex_indep [OF W dist dep] by simp
qed

end
