(* ===== verification/OneScan.thy ===== *)
theory OneScan
  imports FactLin
begin

text \<open>
  The one-scan algorithm of \<^verbatim>\<open>SPROUT.c\<close>: a sorted lineage is read once and its confidence is
  computed on the fly (\<open>processTuple\<close>, \<open>oneScan\<close>). The state is the structure \<open>stateData\<close> of
  \<^verbatim>\<open>execnodes.h\<close>. For every column, \<open>sd_sum\<close> holds the probability of the open entry,
  \<open>tempSum\<close> that of the closed ones; \<open>sd_cursor\<close> is the last column that is still open, and the
  stack \<open>readySumList\<close> has the finished probabilities of the groups right of it.

  The gotos of \<open>processTuple\<close> are written out: \<open>new_block\<close> is the code from the label
  \<^verbatim>\<open>newBlock\<close> to its return, \<open>finish\<close> the code from the label \<^verbatim>\<open>finish\<close> to the end of the loop
  body. The parameter \<^verbatim>\<open>blockProb\<close> is a null pointer in every call and is left out.

  A lineage that factorises along the signature is a value of \<open>lin\<close>; \<open>enum_lin\<close> lists its tuples in
  the order of the sort and \<open>lin_prob\<close> is its probability. The theorem \<open>one_scan_lin\<close> says that the
  algorithm computes \<open>lin_prob\<close>, \<open>lin_prob_Pr\<close> that this is the probability of the lineage.
\<close>

section \<open>State\<close>

record stateData =
  NoOfVars :: nat
  sd_vars :: "sigInfo list ptr"
  counter :: int
  calculating :: bool
  curTuple :: "int list"
  curTupleProb :: "real list"
  sd_sum :: "real list"
  tempSum :: "real list"
  preTuple :: "int list"
  sd_cursor :: nat
  readySumList :: "real list"

definition palloc0_stateData :: stateData where
  "palloc0_stateData = \<lparr>NoOfVars = 0, sd_vars = Null, counter = 0, calculating = False, curTuple = [], curTupleProb = [],
     sd_sum = [], tempSum = [], preTuple = [], sd_cursor = 0, readySumList = []\<rparr>"

definition NOTAGGREGATED :: int where "NOTAGGREGATED = 0"
definition AGGREGATED :: int where "AGGREGATED = 1"

section \<open>Helpers\<close>

definition indeEventConjunc :: "real \<Rightarrow> real \<Rightarrow> real" where
  "indeEventConjunc a b = 1 - (1 - a) * (1 - b)"

definition isAValidVar :: "sigInfo \<Rightarrow> int \<Rightarrow> bool res" where
  "isAValidVar info var =
     (if si_type info = NOTAGGREGATED then Inr True
      else rbind (deref (pt info)) (\<lambda>t. case t of [] \<Rightarrow> Inr False | e # _ \<Rightarrow> Inr (repre e = var)))"

text \<open>
  The messages of the sanity checks are left out; after the first one an empty table is
  dereferenced.
\<close>

definition lookup :: "sigInfo \<Rightarrow> int \<Rightarrow> real \<Rightarrow> (real \<times> sigInfo) res" where
  "lookup info var p =
     (if si_type info = NOTAGGREGATED then Inr (p, info)
      else rbind (deref (pt info)) (\<lambda>t. case t of [] \<Rightarrow> Inl NullPointer
        | e # es \<Rightarrow> Inr (probability e, info\<lparr>pt := Some es\<rparr>)))"

fun product_loop :: "nat \<Rightarrow> real \<Rightarrow> real list \<Rightarrow> (real \<times> real list) res" where
  "product_loop 0 result plist = Inr (result, plist)"
| "product_loop (Suc n) result [] = Inl NullPointer"
| "product_loop (Suc n) result (s # plist) = product_loop n (result * s) plist"

definition getProduct :: "sigInfo \<Rightarrow> real \<Rightarrow> real list \<Rightarrow> (real \<times> real list) res" where
  "getProduct info p plist = product_loop (varsToCombine info) p plist"

definition insertIntoReadySumList :: "real list \<Rightarrow> real \<Rightarrow> real list" where
  "insertIntoReadySumList head s = s # head"

text \<open>\<^verbatim>\<open>s->vars[i]\<close>, \<^verbatim>\<open>lookup(s->vars[j], s->curTuple[j], s->curTupleProb[j])\<close>, and the copy of the tuple.\<close>

definition var_at :: "stateData \<Rightarrow> nat \<Rightarrow> sigInfo res" where
  "var_at s i = rbind (pread (sd_vars s)) (\<lambda>vs. aread vs i)"

definition lookup_at :: "nat \<Rightarrow> stateData \<Rightarrow> (real \<times> stateData) res" where
  "lookup_at j s =
     rbind (pread (sd_vars s)) (\<lambda>vs.
     rbind (aread vs j) (\<lambda>info.
     rbind (aread (curTuple s) j) (\<lambda>v.
     rbind (aread (curTupleProb s) j) (\<lambda>p.
     rbind (lookup info v p) (\<lambda>(r, info').
     Inr (r, s\<lparr>sd_vars := Ptr (vs[j := info'])\<rparr>))))))"

definition load_sum :: "nat \<Rightarrow> stateData \<Rightarrow> stateData res" where
  "load_sum j s = rbind (lookup_at j s) (\<lambda>(r, s). rbind (awrite (sd_sum s) j r) (\<lambda>xs. Inr (s\<lparr>sd_sum := xs\<rparr>)))"

definition conj_sum :: "nat \<Rightarrow> stateData \<Rightarrow> stateData res" where
  "conj_sum i s =
     rbind (aread (sd_sum s) i) (\<lambda>a.
     rbind (lookup_at i s) (\<lambda>(r, s).
     rbind (awrite (sd_sum s) i (indeEventConjunc a r)) (\<lambda>xs. Inr (s\<lparr>sd_sum := xs\<rparr>))))"

definition memcpy_tuple :: "stateData \<Rightarrow> stateData res" where
  "memcpy_tuple s =
     (if NoOfVars s \<le> length (curTuple s) \<and> NoOfVars s \<le> length (preTuple s)
      then Inr (s\<lparr>preTuple := take (NoOfVars s) (curTuple s) @ drop (NoOfVars s) (preTuple s)\<rparr>)
      else Inl OutOfBounds)"

section \<open>One tuple\<close>

definition new_block :: "stateData \<Rightarrow> stateData res" where
  "new_block s =
     rbind (for_upto (NoOfVars s) load_sum s) (\<lambda>s.
     memcpy_tuple (s\<lparr>calculating := True, sd_cursor := NoOfVars s - 1\<rparr>))"

text \<open>The body of the loop from the cursor column to the first column of change.\<close>

definition close_col :: "nat \<Rightarrow> stateData \<Rightarrow> stateData res" where
  "close_col j s =
     rbind (var_at s j) (\<lambda>info.
     rbind (aread (sd_sum s) j) (\<lambda>sj.
     if si_domain info = 0 then Inr (s\<lparr>readySumList := insertIntoReadySumList (readySumList s) sj\<rparr>)
     else
       rbind (getProduct info sj (readySumList s)) (\<lambda>(product, plist).
       rbind (aread (tempSum s) j) (\<lambda>tj.
       rbind (awrite (tempSum s) j 0) (\<lambda>ts.
       Inr (s\<lparr>readySumList := insertIntoReadySumList plist (indeEventConjunc tj product), tempSum := ts\<rparr>))))))"

definition close_cols :: "nat \<Rightarrow> stateData \<Rightarrow> stateData res" where
  "close_cols i s = fold_res close_col (rev [Suc i..<Suc (sd_cursor s)]) s"

text \<open>The final probability is a value when it is set, which returns at once.\<close>

definition finish :: "nat \<Rightarrow> bool \<Rightarrow> stateData \<Rightarrow> (real option \<times> stateData) res" where
  "finish i final s =
     rbind (close_cols i s) (\<lambda>s.
     rbind (var_at s i) (\<lambda>info.
     if si_domain info > 0 \<or> NoOfVars s = 1 then
       rbind (aread (sd_sum s) i) (\<lambda>si.
       rbind (getProduct info si (readySumList s)) (\<lambda>(product, plist).
       rbind (aread (tempSum s) i) (\<lambda>ti.
       rbind (awrite (tempSum s) i (indeEventConjunc ti product)) (\<lambda>ts.
       let s = s\<lparr>readySumList := plist, tempSum := ts\<rparr> in
       if final then rbind (aread (tempSum s) 0) (\<lambda>p. Inr (Some p, s))
       else
         let s = s\<lparr>sd_cursor := i + si_domain info\<rparr> in
         rbind (if calculating s then fold_res load_sum [i..<Suc (sd_cursor s)] s else Inr s) (\<lambda>s.
         rbind (memcpy_tuple s) (\<lambda>s. Inr (None, s)))))))
     else
       rbind (conj_sum i s) (\<lambda>s.
       rbind (memcpy_tuple (s\<lparr>sd_cursor := i\<rparr>)) (\<lambda>s. Inr (None, s)))))"

text \<open>The loop that looks for the first column of change.\<close>

definition change_at :: "stateData \<Rightarrow> nat \<Rightarrow> bool res" where
  "change_at s i =
     rbind (aread (curTuple s) i) (\<lambda>c.
     rbind (aread (preTuple s) i) (\<lambda>p.
     if c \<noteq> p then rbind (var_at s i) (\<lambda>info. isAValidVar info c) else Inr False))"

definition scan_columns :: "stateData \<Rightarrow> (real option \<times> stateData) res" where
  "scan_columns s =
     rbind (first_index (Suc (sd_cursor s)) (change_at s) 0) (\<lambda>i.
     if i > sd_cursor s then rbind (memcpy_tuple s) (\<lambda>s. Inr (None, s))
     else if i = sd_cursor s then rbind (conj_sum i s) (\<lambda>s. rbind (memcpy_tuple s) (\<lambda>s. Inr (None, s)))
     else finish i False s)"

definition processTuple :: "stateData \<Rightarrow> bool \<Rightarrow> (real option \<times> stateData) res" where
  "processTuple s final =
     (if final then
        if calculating s then finish 0 True s
        else rbind (aread (tempSum s) 0) (\<lambda>p. Inr (Some p, s))
      else
        let s = s\<lparr>counter := counter s + 1\<rparr> in
        if counter s = 1 then
          rbind (new_block (s\<lparr>sd_sum := replicate (NoOfVars s) 0, tempSum := replicate (NoOfVars s) 0,
            preTuple := replicate (NoOfVars s) 0, readySumList := []\<rparr>)) (\<lambda>s. Inr (None, s))
        else
          rbind (aread (curTuple s) 0) (\<lambda>c.
          rbind (aread (preTuple s) 0) (\<lambda>p.
          if c \<noteq> p then
            rbind (var_at s 0) (\<lambda>info.
            rbind (isAValidVar info c) (\<lambda>valid.
            if valid then
              if calculating s then scan_columns s
              else rbind (new_block s) (\<lambda>s. Inr (None, s))
            else
              if calculating s then finish 0 False (s\<lparr>calculating := False\<rparr>)
              else Inr (None, s)))
          else if \<not> calculating s then Inr (None, s)
          else scan_columns s)))"

section \<open>The scan of a stored lineage\<close>

text \<open>
  A stored tuple (\<^verbatim>\<open>varprob\<close>) is the pair of its variables and probabilities, the lineage the
  list of them; the scan reads it from its cursor to the end. \<open>finalProb\<close> keeps the value
  \<open>1\<close> of its declaration when it is not set.
\<close>

type_synonym varprob = "int list \<times> real list"

definition gather :: "nat list \<Rightarrow> 'a list \<Rightarrow> 'a list res" where
  "gather pos xs = fold_res (\<lambda>p ys. rbind (aread xs p) (\<lambda>x. Inr (ys @ [x]))) pos []"

definition oneScan :: "stateData \<Rightarrow> sigNode \<Rightarrow> varprob list \<Rightarrow> (real \<times> stateData) res" where
  "oneScan state rt lineage =
     (let sig = fillLeafNode rt;
          pos = map si_pos sig;
          state = state\<lparr>counter := 0, sd_vars := Ptr sig, NoOfVars := leafDescendentCount rt\<rparr>
      in
      rbind (fold_res (\<lambda>(vs, ps) state.
        rbind (gather pos vs) (\<lambda>cur.
        rbind (gather pos ps) (\<lambda>curp.
        rbind (processTuple (state\<lparr>curTuple := cur, curTupleProb := curp\<rparr>) False) (\<lambda>(_, state). Inr state)))) lineage state) (\<lambda>state.
      rbind (processTuple state True) (\<lambda>(p, state). Inr (case p of None \<Rightarrow> 1 | Some r \<Rightarrow> r, state))))"

section \<open>Closing columns\<close>

lemma product_loop_append: "product_loop (length vs) p (vs @ rest) = Inr (p * prod_list vs, rest)"
  by (induction vs arbitrary: p) (simp_all add: mult.assoc)

lemma getProduct_append: "varsToCombine info = length vs \<Longrightarrow> getProduct info p (vs @ rest) = Inr (p * prod_list vs, rest)"
  by (simp add: getProduct_def product_loop_append)

text \<open>The effect of \<open>close_col\<close> on the fields it changes.\<close>

definition pclose :: "sigInfo list \<Rightarrow> real list \<Rightarrow> nat \<Rightarrow> real list \<times> real list \<Rightarrow> (real list \<times> real list) res" where
  "pclose vs xs j = (\<lambda>(ready, ts).
     rbind (aread vs j) (\<lambda>info.
     rbind (aread xs j) (\<lambda>sj.
     if si_domain info = 0 then Inr (sj # ready, ts)
     else
       rbind (getProduct info sj ready) (\<lambda>(product, plist).
       rbind (aread ts j) (\<lambda>tj.
       rbind (awrite ts j 0) (\<lambda>ts.
       Inr (indeEventConjunc tj product # plist, ts)))))))"

lemma stateData_id [simp]:
  "sd_vars s = Ptr vs \<Longrightarrow> s\<lparr>sd_vars := Ptr vs\<rparr> = s"
  "s\<lparr>readySumList := readySumList s\<rparr> = s" "s\<lparr>tempSum := tempSum s\<rparr> = s"
  by (cases s; simp)+

lemma close_col_pclose:
  assumes "sd_vars s = Ptr vs"
  shows "close_col j s = rbind (pclose vs (sd_sum s) j (readySumList s, tempSum s)) (\<lambda>(r, t). Inr (s\<lparr>readySumList := r, tempSum := t\<rparr>))"
  using assms by (simp add: close_col_def pclose_def var_at_def insertIntoReadySumList_def rbind_def split: sum.splits prod.splits)

lemma close_fold_pclose:
  assumes "sd_vars s = Ptr vs"
  shows "fold_res close_col js s =
    rbind (fold_res (pclose vs (sd_sum s)) js (readySumList s, tempSum s)) (\<lambda>(r, t). Inr (s\<lparr>readySumList := r, tempSum := t\<rparr>))"
  using assms
proof (induction js arbitrary: s)
  case (Cons j js)
  show ?case
  proof (cases "pclose vs (sd_sum s) j (readySumList s, tempSum s)")
    case (Inr rt)
    obtain r t where rt: "rt = (r, t)" by (cases rt)
    show ?thesis using Inr Cons.IH [of "s\<lparr>readySumList := r, tempSum := t\<rparr>"] Cons.prems
      by (simp add: close_col_pclose rt)
  qed (simp add: close_col_pclose [OF Cons.prems])
qed simp

text \<open>
  Closing the columns from the cursor down to \<open>c\<close> gives the probabilities \<open>rs\<close> and empties the
  closed entries of these columns.
\<close>

definition pending :: "sigInfo list \<Rightarrow> nat \<Rightarrow> real list \<Rightarrow> stateData \<Rightarrow> bool" where
  "pending vs c rs s \<longleftrightarrow> fold_res (pclose vs (sd_sum s)) (rev [c..<Suc (sd_cursor s)]) (readySumList s, tempSum s) =
     Inr (rs, take c (tempSum s) @ replicate (length vs - c) 0)"

definition scanning :: "sigInfo list \<Rightarrow> stateData \<Rightarrow> bool" where
  "scanning vs s \<longleftrightarrow> sd_vars s = Ptr vs \<and> NoOfVars s = length vs \<and> length (sd_sum s) = length vs \<and> length (tempSum s) = length vs \<and>
     length (preTuple s) = length vs \<and> calculating s \<and> 1 \<le> counter s \<and> sd_cursor s < length vs"

lemma close_cols_pending:
  assumes "sd_vars s = Ptr vs" "pending vs (Suc c) rs s"
  shows "close_cols c s = Inr (s\<lparr>readySumList := rs, tempSum := take (Suc c) (tempSum s) @ replicate (length vs - Suc c) 0\<rparr>)"
  using assms by (simp add: close_cols_def close_fold_pclose pending_def)

lemma pending_empty:
  assumes "sd_cursor s < c" "drop c (tempSum s) = replicate (length vs - c) 0" "readySumList s = rs"
  shows "pending vs c rs s"
proof -
  have "tempSum s = take c (tempSum s) @ replicate (length vs - c) 0" unfolding assms(2) [symmetric] by simp
  then show ?thesis using assms(1,3) by (simp add: pending_def)
qed

lemma pending_Suc:
  assumes "c \<le> sd_cursor s" "pending vs (Suc c) rs s"
    and "pclose vs (sd_sum s) c (rs, take (Suc c) (tempSum s) @ replicate (length vs - Suc c) 0) =
      Inr (rs', take c (tempSum s) @ replicate (length vs - c) 0)"
  shows "pending vs c rs' s"
proof -
  have "rev [c..<Suc (sd_cursor s)] = rev [Suc c..<Suc (sd_cursor s)] @ [c]" using assms(1) by (simp add: upt_rec [of c])
  then show ?thesis using assms(2,3) unfolding pending_def by (simp add: fold_res_append)
qed

lemma take_Suc_zero:
  "c < length ts \<Longrightarrow> ts ! c = (0 :: real) \<Longrightarrow> take (Suc c) ts @ replicate (length ts - Suc c) 0 = take c ts @ replicate (length ts - c) 0"
  by (simp add: take_Suc_conv_app_nth Suc_diff_Suc [symmetric])

lemma take_Suc_zeroed:
  "c < length ts \<Longrightarrow> (take (Suc c) ts @ replicate (length ts - Suc c) (0 :: real))[c := 0] = take c ts @ replicate (length ts - c) 0"
  by (simp add: take_Suc_conv_app_nth list_update_append Suc_diff_Suc [symmetric])

lemma pending_leaf:
  assumes "scanning vs s" "c \<le> sd_cursor s" "pending vs (Suc c) rs s" "si_domain (vs ! c) = 0" "tempSum s ! c = 0"
  shows "pending vs c (sd_sum s ! c # rs) s"
proof (rule pending_Suc [OF assms(2,3)])
  have "c < length vs" using assms(1,2) by (simp add: scanning_def)
  then show "pclose vs (sd_sum s) c (rs, take (Suc c) (tempSum s) @ replicate (length vs - Suc c) 0) =
      Inr (sd_sum s ! c # rs, take c (tempSum s) @ replicate (length vs - c) 0)"
    using assms(1,4,5) take_Suc_zero [of c "tempSum s"] by (simp add: pclose_def scanning_def)
qed

lemma pending_head:
  assumes "scanning vs s" "c \<le> sd_cursor s" "pending vs (Suc c) (us @ rs) s" "si_domain (vs ! c) \<noteq> 0" "varsToCombine (vs ! c) = length us"
  shows "pending vs c (indeEventConjunc (tempSum s ! c) (sd_sum s ! c * prod_list us) # rs) s"
proof (rule pending_Suc [OF assms(2,3)])
  have c: "c < length vs" using assms(1,2) by (simp add: scanning_def)
  moreover have "(take (Suc c) (tempSum s) @ replicate (length vs - Suc c) 0) ! c = tempSum s ! c"
    using c assms(1) by (simp add: scanning_def nth_append)
  ultimately show "pclose vs (sd_sum s) c (us @ rs, take (Suc c) (tempSum s) @ replicate (length vs - Suc c) 0) =
      Inr (indeEventConjunc (tempSum s ! c) (sd_sum s ! c * prod_list us) # rs, take c (tempSum s) @ replicate (length vs - c) 0)"
    using assms(1,4,5) take_Suc_zeroed [of c "tempSum s"] by (simp add: pclose_def scanning_def getProduct_append)
qed

section \<open>One step of the scan\<close>

definition hq_step :: "tuple \<Rightarrow> stateData \<Rightarrow> stateData res" where
  "hq_step t s = rbind (processTuple (s\<lparr>curTuple := map fst t, curTupleProb := map snd t\<rparr>) False) (\<lambda>(_, s). Inr s)"

definition plain :: "sigInfo list \<Rightarrow> bool" where
  "plain vs \<longleftrightarrow> (\<forall>j < length vs. 1 \<le> j \<longrightarrow> si_type (vs ! j) = NOTAGGREGATED)"

definition fetch :: "tuple \<Rightarrow> stateData \<Rightarrow> stateData" where
  "fetch t s = s\<lparr>curTuple := map fst t, curTupleProb := map snd t, counter := counter s + 1\<rparr>"

lemma fetch_simps [simp]:
  "sd_vars (fetch t s) = sd_vars s" "NoOfVars (fetch t s) = NoOfVars s" "sd_sum (fetch t s) = sd_sum s" "tempSum (fetch t s) = tempSum s"
  "preTuple (fetch t s) = preTuple s" "calculating (fetch t s) = calculating s" "counter (fetch t s) = counter s + 1"
  "sd_cursor (fetch t s) = sd_cursor s" "readySumList (fetch t s) = readySumList s" "curTuple (fetch t s) = map fst t"
  "curTupleProb (fetch t s) = map snd t"
  by (simp_all add: fetch_def)

lemma scanning_fetch [simp]: "scanning vs s \<Longrightarrow> scanning vs (fetch t s)"
  by (simp add: scanning_def)

lemma pending_fetch [simp]: "pending vs c rs (fetch t s) = pending vs c rs s"
  by (simp add: pending_def)

lemma lookup_at_plain:
  assumes "sd_vars s = Ptr vs" "j < length vs" "si_type (vs ! j) = NOTAGGREGATED" "j < length (curTuple s)" "j < length (curTupleProb s)"
  shows "lookup_at j s = Inr (curTupleProb s ! j, s)"
  using assms by (simp add: lookup_at_def lookup_def)

lemma load_sums:
  assumes "sd_vars s = Ptr vs" "length (curTuple s) = length vs" "length (curTupleProb s) = length vs" "length (sd_sum s) = length vs"
    and "a \<le> b" "b \<le> length vs" "\<And>j. a \<le> j \<Longrightarrow> j < b \<Longrightarrow> si_type (vs ! j) = NOTAGGREGATED"
  obtains xs where "fold_res load_sum [a..<b] s = Inr (s\<lparr>sd_sum := xs\<rparr>)" "length xs = length vs" "take a xs = take a (sd_sum s)"
    "\<And>j. a \<le> j \<Longrightarrow> j < b \<Longrightarrow> xs ! j = curTupleProb s ! j"
proof -
  have "ok (fold_res load_sum [a..<b] s) (\<lambda>t. \<exists>xs. t = s\<lparr>sd_sum := xs\<rparr> \<and> length xs = length vs \<and> take a xs = take a (sd_sum s) \<and>
      (\<forall>j. a \<le> j \<and> j < b \<longrightarrow> xs ! j = curTupleProb s ! j))"
  proof (rule ok_fold_upt [OF assms(5)])
    show "\<exists>xs. s = s\<lparr>sd_sum := xs\<rparr> \<and> length xs = length vs \<and> take a xs = take a (sd_sum s) \<and>
        (\<forall>j. a \<le> j \<and> j < a \<longrightarrow> xs ! j = curTupleProb s ! j)"
      by (rule exI [where x = "sd_sum s"]) (use assms(4) in \<open>cases s; simp\<close>)
  next
    fix i t
    assume i: "a \<le> i" "i < b" and "\<exists>xs. t = s\<lparr>sd_sum := xs\<rparr> \<and> length xs = length vs \<and> take a xs = take a (sd_sum s) \<and>
        (\<forall>j. a \<le> j \<and> j < i \<longrightarrow> xs ! j = curTupleProb s ! j)"
    then obtain xs where xs: "t = s\<lparr>sd_sum := xs\<rparr>" "length xs = length vs" "take a xs = take a (sd_sum s)"
      "\<forall>j. a \<le> j \<and> j < i \<longrightarrow> xs ! j = curTupleProb s ! j" by blast
    have "load_sum i t = Inr (s\<lparr>sd_sum := xs[i := curTupleProb s ! i]\<rparr>)"
      using i assms xs(1,2) lookup_at_plain [of t vs i] by (simp add: load_sum_def)
    moreover have "\<forall>j. a \<le> j \<and> j < Suc i \<longrightarrow> xs[i := curTupleProb s ! i] ! j = curTupleProb s ! j"
      using xs(2,4) i assms(6) by (auto simp: nth_list_update less_Suc_eq)
    ultimately show "ok (load_sum i t) (\<lambda>t. \<exists>xs. t = s\<lparr>sd_sum := xs\<rparr> \<and> length xs = length vs \<and> take a xs = take a (sd_sum s) \<and>
        (\<forall>j. a \<le> j \<and> j < Suc i \<longrightarrow> xs ! j = curTupleProb s ! j))"
      using i(1) xs(2,3) by auto
  qed
  then show thesis using that by (auto elim!: ok_E)
qed

lemma memcpy_tuple_ok:
  "NoOfVars s = length (curTuple s) \<Longrightarrow> NoOfVars s = length (preTuple s) \<Longrightarrow> memcpy_tuple s = Inr (s\<lparr>preTuple := curTuple s\<rparr>)"
  by (simp add: memcpy_tuple_def)

text \<open>Below the first column the scan looks for the first column of change.\<close>

lemma hq_step_scan:
  assumes "scanning vs s" "length t = length vs" "fst (t ! 0) = preTuple s ! 0"
  shows "hq_step t s = rbind (scan_columns (fetch t s)) (\<lambda>(_, s). Inr s)"
proof -
  have "0 < length vs" using assms(1) by (auto simp: scanning_def)
  moreover from this have "map fst t ! 0 = preTuple s ! 0" using assms(2,3) by simp
  ultimately show ?thesis using assms(1,2) by (simp add: hq_step_def processTuple_def scanning_def fetch_def Let_def)
qed

lemma change_at_plain:
  assumes "scanning vs s" "plain vs" "length t = length vs" "i \<le> sd_cursor s" "i = 0 \<Longrightarrow> fst (t ! 0) = preTuple s ! 0"
  shows "change_at (fetch t s) i = Inr (fst (t ! i) \<noteq> preTuple s ! i)"
proof -
  have "i < length vs" using assms(1,4) by (simp add: scanning_def)
  then show ?thesis
    using assms by (cases "i = 0") (auto simp: change_at_def scanning_def plain_def var_at_def isAValidVar_def)
qed

lemma hq_step_ignored:
  assumes "scanning vs s" "plain vs" "length t = length vs" "\<And>j. j \<le> sd_cursor s \<Longrightarrow> fst (t ! j) = preTuple s ! j"
  shows "hq_step t s = Inr ((fetch t s)\<lparr>preTuple := map fst t\<rparr>)"
proof -
  have "ok (first_index (Suc (sd_cursor s)) (change_at (fetch t s)) 0) (\<lambda>k. 0 \<le> k \<and> k \<le> Suc (sd_cursor s) \<and>
      (\<forall>j. 0 \<le> j \<and> j < k \<longrightarrow> \<not> fst (t ! j) \<noteq> preTuple s ! j) \<and> (k < Suc (sd_cursor s) \<longrightarrow> fst (t ! k) \<noteq> preTuple s ! k))"
    by (rule first_index_ok) (use change_at_plain [OF assms(1-3)] assms(4) in auto)
  then have "first_index (Suc (sd_cursor s)) (change_at (fetch t s)) 0 = Inr (Suc (sd_cursor s))"
    using assms(4) by (auto elim!: ok_E)
  then show ?thesis using assms(1,3) hq_step_scan [OF assms(1,3) assms(4) [of 0]] by (simp add: scan_columns_def scanning_def memcpy_tuple_def)
qed

lemma hq_step_change:
  assumes "scanning vs s" "plain vs" "length t = length vs" "\<And>j. j < c \<Longrightarrow> fst (t ! j) = preTuple s ! j" "1 \<le> c" "c \<le> sd_cursor s"
    and "fst (t ! c) \<noteq> preTuple s ! c"
  shows "hq_step t s = (if c = sd_cursor s then Inr ((fetch t s)\<lparr>sd_sum := (sd_sum s)[c := indeEventConjunc (sd_sum s ! c) (snd (t ! c))], preTuple := map fst t\<rparr>)
    else rbind (finish c False (fetch t s)) (\<lambda>(_, s). Inr s))"
proof -
  have "ok (first_index (Suc (sd_cursor s)) (change_at (fetch t s)) 0) (\<lambda>k. 0 \<le> k \<and> k \<le> Suc (sd_cursor s) \<and>
      (\<forall>j. 0 \<le> j \<and> j < k \<longrightarrow> \<not> fst (t ! j) \<noteq> preTuple s ! j) \<and> (k < Suc (sd_cursor s) \<longrightarrow> fst (t ! k) \<noteq> preTuple s ! k))"
    by (rule first_index_ok) (use change_at_plain [OF assms(1-3)] assms(4,5) in auto)
  then have fi: "first_index (Suc (sd_cursor s)) (change_at (fetch t s)) 0 = Inr c"
    using assms(4,6,7) by (auto elim!: ok_E) (metis le_imp_less_Suc less_trans_Suc nat_neq_iff not_less_eq)
  have c: "c < length vs" "si_type (vs ! c) = NOTAGGREGATED" using assms(1,2,5,6) by (simp_all add: scanning_def plain_def)
  have t0: "fst (t ! 0) = preTuple s ! 0" using assms(4,5) by simp
  show ?thesis
  proof (cases "c = sd_cursor s")
    case True
    have "lookup_at c (fetch t s) = Inr (snd (t ! c), fetch t s)"
      using lookup_at_plain [of "fetch t s" vs c] c assms(1,3) by (simp add: scanning_def)
    then show ?thesis using True assms(1,3) c fi t0
      by (simp add: hq_step_scan scan_columns_def conj_sum_def scanning_def memcpy_tuple_def)
  next
    case False
    then show ?thesis using assms(1,3,6) fi t0 by (simp add: hq_step_scan scan_columns_def)
  qed
qed

text \<open>The end of an entry of column \<open>c\<close>: a column that heads no other, and one that does.\<close>

lemma finish_leaf:
  assumes "scanning vs s" "plain vs" "length t = length vs" "pending vs (Suc c) rs s" "1 \<le> c" "c \<le> sd_cursor s" "si_domain (vs ! c) = 0"
  shows "finish c False (fetch t s) = Inr (None, (fetch t s)\<lparr>readySumList := rs,
    tempSum := take (Suc c) (tempSum s) @ replicate (length vs - Suc c) 0,
    sd_sum := (sd_sum s)[c := indeEventConjunc (sd_sum s ! c) (snd (t ! c))], sd_cursor := c, preTuple := map fst t\<rparr>)"
proof -
  let ?s = "(fetch t s)\<lparr>readySumList := rs, tempSum := take (Suc c) (tempSum s) @ replicate (length vs - Suc c) 0\<rparr>"
  have c: "c < length vs" "si_type (vs ! c) = NOTAGGREGATED" "length vs \<noteq> 1" using assms(1,2,5,6) by (auto simp: scanning_def plain_def)
  have cl: "close_cols c (fetch t s) = Inr ?s" using close_cols_pending [of "fetch t s" vs c rs] assms(1,4) by (simp add: scanning_def)
  have "lookup_at c ?s = Inr (snd (t ! c), ?s)" using lookup_at_plain [of ?s vs c] c assms(1,3) by (simp add: scanning_def)
  then show ?thesis using c assms(1,3,7) unfolding finish_def cl by (simp add: var_at_def scanning_def conj_sum_def memcpy_tuple_def)
qed

lemma finish_head:
  assumes "sd_vars s = Ptr vs" "NoOfVars s = length vs" "length (sd_sum s) = length vs" "length (tempSum s) = length vs" "c < length vs"
    and "pending vs (Suc c) (us @ rs) s" "si_domain (vs ! c) \<noteq> 0 \<or> length vs = 1" "varsToCombine (vs ! c) = length us"
  shows "finish c final s =
    (let ts = take c (tempSum s) @ indeEventConjunc (tempSum s ! c) (sd_sum s ! c * prod_list us) # replicate (length vs - Suc c) 0;
         s' = s\<lparr>readySumList := rs, tempSum := ts\<rparr>
     in if final then Inr (Some (ts ! 0), s')
        else rbind (if calculating s then fold_res load_sum [c..<Suc (c + si_domain (vs ! c))] (s'\<lparr>sd_cursor := c + si_domain (vs ! c)\<rparr>)
            else Inr (s'\<lparr>sd_cursor := c + si_domain (vs ! c)\<rparr>))
          (\<lambda>s. rbind (memcpy_tuple s) (\<lambda>s. Inr (None, s))))"
proof -
  let ?ts = "take (Suc c) (tempSum s) @ replicate (length vs - Suc c) 0"
  have ts: "?ts ! c = tempSum s ! c" "?ts[c := v] = take c (tempSum s) @ v # replicate (length vs - Suc c) 0" "c < length ?ts" for v
    using assms(4,5) by (simp_all add: nth_append take_Suc_conv_app_nth list_update_append)
  show ?thesis
    using assms(2-5,7,8) ts close_cols_pending [OF assms(1,6)] getProduct_append [OF assms(8)]
    unfolding finish_def by (simp add: var_at_def assms(1) Let_def)
qed

section \<open>The columns below a position\<close>

definition cols_from :: "sigInfo list \<Rightarrow> nat \<Rightarrow> shape list \<Rightarrow> bool" where
  "cols_from vs c ts \<longleftrightarrow> c \<le> length vs \<and> map col (drop c vs) = concat (map tcols ts)"

lemma cols_from_length: "cols_from vs c ts \<Longrightarrow> length vs = c + fsize ts"
  by (auto simp: cols_from_def dest!: arg_cong [where f = length])

lemma cols_from_Col:
  assumes "cols_from vs c (Col ts # us)"
  shows "c < length vs" "si_domain (vs ! c) = fsize ts" "varsToCombine (vs ! c) = length ts" "cols_from vs (Suc c) (ts @ us)"
proof -
  show c: "c < length vs" using cols_from_length [OF assms] by simp
  have "map col (drop c vs) = col (vs ! c) # map col (drop (Suc c) vs)" using c by (simp add: Cons_nth_drop_Suc [symmetric])
  then show "si_domain (vs ! c) = fsize ts" "varsToCombine (vs ! c) = length ts" "cols_from vs (Suc c) (ts @ us)"
    using assms c by (auto simp: cols_from_def col_def length_concat)
qed

lemma lin_prob_snoc:
  "lin_prob (Lin (es @ [(x, p, subs)])) = indeEventConjunc (lin_prob (Lin es)) (p * prod_list (map lin_prob subs))"
  by (simp add: indeEventConjunc_def)

lemma hq_steps_ignored:
  assumes "scanning vs s" "plain vs" "\<forall>t \<in> set ts. length t = length vs \<and> (\<forall>j \<le> sd_cursor s. fst (t ! j) = preTuple s ! j)"
  shows "ok (fold_res hq_step ts s) (\<lambda>s'. scanning vs s' \<and> sd_sum s' = sd_sum s \<and> tempSum s' = tempSum s \<and> sd_cursor s' = sd_cursor s \<and>
    readySumList s' = readySumList s \<and> (\<forall>j \<le> sd_cursor s. preTuple s' ! j = preTuple s ! j))"
  using assms(1,3)
proof (induction ts arbitrary: s)
  case (Cons t ts)
  let ?s = "(fetch t s)\<lparr>preTuple := map fst t\<rparr>"
  have t: "length t = length vs" "\<And>j. j \<le> sd_cursor s \<Longrightarrow> fst (t ! j) = preTuple s ! j" using Cons.prems(2) by auto
  have len: "sd_cursor s < length vs" using Cons.prems(1) by (simp add: scanning_def)
  have "hq_step t s = Inr ?s" by (rule hq_step_ignored [OF Cons.prems(1) assms(2) t(1)]) (simp add: t(2))
  moreover have s: "scanning vs ?s" using Cons.prems(1) t(1) by (simp add: scanning_def)
  moreover have pre: "\<And>j. j \<le> sd_cursor s \<Longrightarrow> preTuple ?s ! j = preTuple s ! j" using t len by simp
  have "ok (fold_res hq_step ts ?s) (\<lambda>s'. scanning vs s' \<and> sd_sum s' = sd_sum ?s \<and> tempSum s' = tempSum ?s \<and> sd_cursor s' = sd_cursor ?s \<and>
    readySumList s' = readySumList ?s \<and> (\<forall>j \<le> sd_cursor ?s. preTuple s' ! j = preTuple ?s ! j))"
    by (rule Cons.IH [OF s]) (use Cons.prems(2) pre in simp)
  ultimately show ?case using pre by (auto elim!: ok_mono)
qed simp

section \<open>The scan of a forest\<close>

text \<open>
  \<open>loaded\<close>: the first tuple \<open>t\<close> has just been read into the \<open>d\<close> columns from \<open>c\<close> on; what is right
  of them is finished. \<open>swept\<close>: all tuples have been read and closing the columns from \<open>c\<close> on gives
  \<open>rs\<close>; the columns left of \<open>c\<close> are as they were.
\<close>

definition loaded :: "sigInfo list \<Rightarrow> nat \<Rightarrow> nat \<Rightarrow> real list \<Rightarrow> tuple \<Rightarrow> stateData \<Rightarrow> bool" where
  "loaded vs c d rs t s \<longleftrightarrow> scanning vs s \<and> Suc (sd_cursor s) = c + d \<and> readySumList s = rs \<and> drop c (tempSum s) = replicate (length vs - c) 0 \<and>
     (\<forall>j. c \<le> j \<and> j \<le> sd_cursor s \<longrightarrow> sd_sum s ! j = snd (t ! j)) \<and> preTuple s = map fst t"

definition swept :: "sigInfo list \<Rightarrow> nat \<Rightarrow> real list \<Rightarrow> bool \<Rightarrow> tuple \<Rightarrow> stateData \<Rightarrow> stateData \<Rightarrow> bool" where
  "swept vs c rs ne pre s s' \<longleftrightarrow> scanning vs s' \<and> pending vs c rs s' \<and> c \<le> Suc (sd_cursor s') \<and> (ne \<longrightarrow> c \<le> sd_cursor s') \<and>
     take c (sd_sum s') = take c (sd_sum s) \<and> take c (tempSum s') = take c (tempSum s) \<and> take c (preTuple s') = map fst pre"

definition sweeps :: "sigInfo list \<Rightarrow> nat \<Rightarrow> bool" where
  "sweeps vs m \<longleftrightarrow> (\<forall>TA A TR R c pre t0 ts s. sum_list (map lsize A) < m \<longrightarrow> list_all2 conforms TA A \<longrightarrow> list_all2 conforms TR R \<longrightarrow>
     cols_from vs c (TA @ TR) \<longrightarrow> 1 \<le> c \<longrightarrow> length pre = c \<longrightarrow> enum_lin (A @ R) = t0 # ts \<longrightarrow>
     loaded vs c (fsize TA) (map lin_prob R) (pre @ t0) s \<longrightarrow>
     ok (fold_res hq_step (map ((@) pre) ts) s) (swept vs c (map lin_prob (A @ R)) (A \<noteq> []) pre s))"

text \<open>Column \<open>c\<close> after the entries \<open>es\<close>, the last of which is still open.\<close>

definition col_inv :: "sigInfo list \<Rightarrow> nat \<Rightarrow> shape list \<Rightarrow> real list \<Rightarrow> (int \<times> real \<times> lin list) list \<Rightarrow> tuple \<Rightarrow> stateData \<Rightarrow> stateData \<Rightarrow> bool" where
  "col_inv vs c ts V es pre s s' \<longleftrightarrow> scanning vs s' \<and> take c (sd_sum s') = take c (sd_sum s) \<and> take c (tempSum s') = take c (tempSum s) \<and>
     take c (preTuple s') = map fst pre \<and> preTuple s' ! c = fst (last es) \<and>
     (if ts = [] then pending vs (Suc c) V s' \<and> sd_sum s' ! c = lin_prob (Lin es) \<and> tempSum s' ! c = 0 \<and> c \<le> sd_cursor s'
      else pending vs (Suc c) (map lin_prob (snd (snd (last es))) @ V) s' \<and> sd_sum s' ! c = fst (snd (last es)) \<and>
        tempSum s' ! c = lin_prob (Lin (butlast es)) \<and> c < sd_cursor s')"

lemma take_nth_eq: "take c xs = ys \<Longrightarrow> j < c \<Longrightarrow> c \<le> length xs \<Longrightarrow> xs ! j = ys ! j"
  by auto

lemma col_inv_swept:
  assumes "col_inv vs c ts V es pre s s'" "es \<noteq> []" "si_domain (vs ! c) = fsize ts" "varsToCombine (vs ! c) = length ts"
    and "\<forall>(x, p, subs) \<in> set es. length subs = length ts"
  shows "swept vs c (lin_prob (Lin es) # V) True pre s s'"
proof (cases "ts = []")
  case True
  then show ?thesis using assms(1,3) pending_leaf [of vs s' c V] by (simp add: col_inv_def swept_def)
next
  case False
  obtain x p subs where l: "last es = (x, p, subs)" by (cases "last es")
  have es: "es = butlast es @ [(x, p, subs)]" using append_butlast_last_id [OF assms(2)] l by simp
  have "length subs = length ts" using assms(5) last_in_set [OF assms(2)] l by force
  then have "pending vs c (indeEventConjunc (tempSum s' ! c) (sd_sum s' ! c * prod_list (map lin_prob subs)) # V) s'"
    using assms(1,3,4) False l fsize_0 [of ts] by (intro pending_head) (simp_all add: col_inv_def)
  moreover have "lin_prob (Lin es) = indeEventConjunc (tempSum s' ! c) (sd_sum s' ! c * prod_list (map lin_prob subs))"
    using assms(1) False l by (subst es, unfold lin_prob_snoc) (simp add: col_inv_def)
  ultimately show ?thesis using assms(1) False by (simp add: col_inv_def swept_def)
qed

lemma pending_all_closed:
  assumes "pending vs (Suc (sd_cursor s)) rs s"
  shows "readySumList s = rs" "tempSum s = take (Suc (sd_cursor s)) (tempSum s) @ replicate (length vs - Suc (sd_cursor s)) 0"
  using assms by (simp_all add: pending_def)

text \<open>The next entry of a column that heads no other column.\<close>

lemma entry_leaf:
  assumes vs: "plain vs" "cols_from vs c (Col [] # TR)" "1 \<le> c" and R: "list_all2 conforms TR R" and pre: "length pre = c"
    and inv: "col_inv vs c [] (map lin_prob R) es pre s s1" and x: "x \<noteq> fst (last es)"
  shows "ok (fold_res hq_step (map (\<lambda>u. pre @ (x, p) # u) (enum_lin R)) s1) (col_inv vs c [] (map lin_prob R) (es @ [(x, p, [])]) pre s)"
proof -
  let ?V = "map lin_prob R"
  obtain u0 us where en: "enum_lin R = u0 # us" using enum_nonempty [OF R] by (cases "enum_lin R") auto
  have c: "c < length vs" "si_domain (vs ! c) = 0" "length vs = Suc c + fsize TR"
    using cols_from_Col [OF vs(2)] cols_from_length [OF vs(2)] by simp_all
  have len: "length (pre @ (x, p) # u) = length vs" if "u \<in> set (enum_lin R)" for u
    using enum_length [OF R that] c(3) pre by simp
  let ?t = "pre @ (x, p) # u0"
  have s1: "scanning vs s1" "pending vs (Suc c) ?V s1" "c \<le> sd_cursor s1" "take c (preTuple s1) = map fst pre" "preTuple s1 ! c = fst (last es)"
    using inv by (simp_all add: col_inv_def)
  have lens: "length (sd_sum s1) = length vs" "length (tempSum s1) = length vs" "length (preTuple s1) = length vs" using s1(1) by (simp_all add: scanning_def)
  define s2 where "s2 = (fetch ?t s1)\<lparr>readySumList := ?V, tempSum := take (Suc c) (tempSum s1) @ replicate (length vs - Suc c) 0,
    sd_sum := (sd_sum s1)[c := indeEventConjunc (sd_sum s1 ! c) p], sd_cursor := c, preTuple := map fst ?t\<rparr>"
  have "hq_step ?t s1 = Inr s2"
  proof -
    have *: "hq_step ?t s1 = (if c = sd_cursor s1 then Inr ((fetch ?t s1)\<lparr>sd_sum := (sd_sum s1)[c := indeEventConjunc (sd_sum s1 ! c) (snd (?t ! c))], preTuple := map fst ?t\<rparr>)
        else rbind (finish c False (fetch ?t s1)) (\<lambda>(_, s). Inr s))"
    proof (rule hq_step_change [OF s1(1) vs(1) len])
      show "fst (?t ! j) = preTuple s1 ! j" if "j < c" for j
        using take_nth_eq [OF s1(4) that] c(1) lens(3) that pre by (simp add: nth_append)
    qed (use en vs(3) s1(3,5) x pre in \<open>simp_all add: nth_append\<close>)
    show ?thesis
    proof (cases "c = sd_cursor s1")
      case True
      then have "readySumList s1 = ?V" "tempSum s1 = take (Suc c) (tempSum s1) @ replicate (length vs - Suc c) 0"
        using pending_all_closed s1(2) by simp_all
      then have "s2 = (fetch ?t s1)\<lparr>sd_sum := (sd_sum s1)[c := indeEventConjunc (sd_sum s1 ! c) p], preTuple := map fst ?t\<rparr>"
        unfolding s2_def using True by (cases s1) (simp add: fetch_def)
      then show ?thesis using * True pre by (simp add: nth_append)
    next
      case False
      then show ?thesis using * finish_leaf [OF s1(1) vs(1) len s1(2) vs(3) s1(3) c(2), of u0] en pre by (simp add: s2_def nth_append)
    qed
  qed
  moreover have s2: "scanning vs s2" "sd_cursor s2 = c" "readySumList s2 = ?V" "sd_sum s2 = (sd_sum s1)[c := indeEventConjunc (sd_sum s1 ! c) p]"
    "tempSum s2 = take (Suc c) (tempSum s1) @ replicate (length vs - Suc c) 0" "preTuple s2 = map fst ?t"
    using s1(1) c(1) len [of u0] en by (simp_all add: s2_def scanning_def)
  have "ok (fold_res hq_step (map (\<lambda>u. pre @ (x, p) # u) us) s2) (\<lambda>s'. scanning vs s' \<and> sd_sum s' = sd_sum s2 \<and> tempSum s' = tempSum s2 \<and>
      sd_cursor s' = sd_cursor s2 \<and> readySumList s' = readySumList s2 \<and> (\<forall>j \<le> sd_cursor s2. preTuple s' ! j = preTuple s2 ! j))"
    by (rule hq_steps_ignored [OF s2(1) vs(1)]) (use len en pre s2(2,6) in \<open>auto simp: nth_append\<close>)
  then have "ok (fold_res hq_step (map (\<lambda>u. pre @ (x, p) # u) us) s2) (col_inv vs c [] ?V (es @ [(x, p, [])]) pre s)"
  proof (rule ok_mono)
    fix s' assume "scanning vs s' \<and> sd_sum s' = sd_sum s2 \<and> tempSum s' = tempSum s2 \<and> sd_cursor s' = sd_cursor s2 \<and> readySumList s' = readySumList s2 \<and>
      (\<forall>j \<le> sd_cursor s2. preTuple s' ! j = preTuple s2 ! j)"
    then have s': "scanning vs s'" "sd_sum s' = sd_sum s2" "tempSum s' = tempSum s2" "sd_cursor s' = c" "readySumList s' = ?V"
      "\<And>j. j \<le> c \<Longrightarrow> preTuple s' ! j = map fst ?t ! j" using s2 by auto
    have "take c (preTuple s') = map fst pre"
      using s'(1,6) c(1) pre by (intro nth_equalityI) (auto simp: scanning_def nth_append)
    moreover have "preTuple s' ! c = x" using s'(6) [of c] pre by (simp add: nth_append)
    moreover have "pending vs (Suc c) ?V s'" by (rule pending_empty) (use s' s2 c lens in simp_all)
    moreover have "take c (tempSum s') = take c (tempSum s)" "tempSum s' ! c = 0" "take c (sd_sum s') = take c (sd_sum s)"
      using s' s2 c inv lens by (simp_all add: col_inv_def nth_append)
    moreover have "sd_sum s' ! c = lin_prob (Lin (es @ [(x, p, [])]))"
      using s' s2 c inv lens unfolding lin_prob_snoc by (simp add: col_inv_def del: lin_prob.simps)
    ultimately show "col_inv vs c [] ?V (es @ [(x, p, [])]) pre s s'" using s'(1,4) by (simp add: col_inv_def del: lin_prob.simps)
  qed
  ultimately show ?thesis using en by simp
qed

text \<open>The next entry of a column that heads others.\<close>

lemma entry_head:
  assumes vs: "plain vs" "cols_from vs c (Col ts # TR)" "1 \<le> c" "ts \<noteq> []" and R: "list_all2 conforms TR R" "list_all2 conforms ts subs"
    and rec: "sweeps vs m" "sum_list (map lsize subs) < m" and pre: "length pre = c"
    and inv: "col_inv vs c ts (map lin_prob R) es pre s s1" and x: "x \<noteq> fst (last es)" and es: "es \<noteq> []" "\<forall>(x, p, subs) \<in> set es. length subs = length ts"
  shows "ok (fold_res hq_step (map (\<lambda>u. pre @ (x, p) # u) (enum_lin (subs @ R))) s1) (col_inv vs c ts (map lin_prob R) (es @ [(x, p, subs)]) pre s)"
proof -
  let ?V = "map lin_prob R"
  obtain x' p' subs' where l: "last es = (x', p', subs')" by (cases "last es")
  have l': "length subs' = length ts" using es last_in_set [OF es(1)] l by force
  have sR: "list_all2 conforms (ts @ TR) (subs @ R)" using R by (auto intro: list_all2_appendI)
  obtain u0 us where en: "enum_lin (subs @ R) = u0 # us" using enum_nonempty [OF sR] by (cases "enum_lin (subs @ R)") auto
  have c: "c < length vs" "si_domain (vs ! c) = fsize ts" "varsToCombine (vs ! c) = length ts" "cols_from vs (Suc c) (ts @ TR)"
    "length vs = Suc c + fsize (ts @ TR)" "fsize ts \<noteq> 0"
    using cols_from_Col [OF vs(2)] cols_from_length [OF cols_from_Col(4) [OF vs(2)]] fsize_0 [of ts] vs(4) by simp_all
  have len: "length (pre @ (x, p) # u0) = length vs" using enum_length [OF sR, of u0] en c(5) pre by simp
  let ?t = "pre @ (x, p) # u0"
  have s1: "scanning vs s1" "pending vs (Suc c) (map lin_prob subs' @ ?V) s1" "c < sd_cursor s1" "take c (preTuple s1) = map fst pre"
    "preTuple s1 ! c = fst (last es)" "sd_sum s1 ! c = p'" "tempSum s1 ! c = lin_prob (Lin (butlast es))"
    using inv vs(4) l by (simp_all add: col_inv_def del: lin_prob.simps)
  have lens: "length (sd_sum s1) = length vs" "length (tempSum s1) = length vs" "length (preTuple s1) = length vs" using s1(1) by (simp_all add: scanning_def)
  define v where "v = indeEventConjunc (tempSum s1 ! c) (sd_sum s1 ! c * prod_list (map lin_prob subs'))"
  define s2 where "s2 = (fetch ?t s1)\<lparr>readySumList := ?V, tempSum := take c (tempSum s1) @ v # replicate (length vs - Suc c) 0, sd_cursor := c + fsize ts\<rparr>"
  obtain xs where xs: "fold_res load_sum [c..<Suc (c + fsize ts)] s2 = Inr (s2\<lparr>sd_sum := xs\<rparr>)" "length xs = length vs"
    "take c xs = take c (sd_sum s2)" "\<And>j. c \<le> j \<Longrightarrow> j < Suc (c + fsize ts) \<Longrightarrow> xs ! j = curTupleProb s2 ! j"
  proof (rule load_sums [of s2 vs c "Suc (c + fsize ts)"])
    show "si_type (vs ! j) = NOTAGGREGATED" if "c \<le> j" "j < Suc (c + fsize ts)" for j
      using that vs(1,3) c(5) by (simp add: plain_def)
  qed (use s1(1) len lens c(5) in \<open>simp_all add: s2_def scanning_def\<close>)
  define s3 where "s3 = s2\<lparr>sd_sum := xs, preTuple := map fst ?t\<rparr>"
  have "hq_step ?t s1 = rbind (finish c False (fetch ?t s1)) (\<lambda>(_, s). Inr s)"
  proof -
    have "hq_step ?t s1 = (if c = sd_cursor s1 then Inr ((fetch ?t s1)\<lparr>sd_sum := (sd_sum s1)[c := indeEventConjunc (sd_sum s1 ! c) (snd (?t ! c))], preTuple := map fst ?t\<rparr>)
        else rbind (finish c False (fetch ?t s1)) (\<lambda>(_, s). Inr s))"
    proof (rule hq_step_change [OF s1(1) vs(1) len])
      show "fst (?t ! j) = preTuple s1 ! j" if "j < c" for j
        using take_nth_eq [OF s1(4) that] c(1) lens(3) that pre by (simp add: nth_append)
    qed (use en vs(3) s1(3,5) x pre in \<open>simp_all add: nth_append\<close>)
    then show ?thesis using s1(3) by simp
  qed
  also have "\<dots> = Inr s3"
  proof -
    have "finish c False (fetch ?t s1) = rbind (fold_res load_sum [c..<Suc (c + fsize ts)] s2) (\<lambda>s. rbind (memcpy_tuple s) (\<lambda>s. Inr (None, s)))"
      using finish_head [of "fetch ?t s1" vs c "map lin_prob subs'" ?V False] s1(1,2) c l'
      by (simp add: scanning_def s2_def v_def Let_def del: upt_Suc)
    moreover have "memcpy_tuple (s2\<lparr>sd_sum := xs\<rparr>) = Inr s3"
      using s1(1) len by (simp add: memcpy_tuple_def s2_def s3_def scanning_def)
    ultimately show ?thesis using xs(1) by simp
  qed
  finally have step: "hq_step ?t s1 = Inr s3" .
  have s3: "take c (sd_sum s3) = take c (sd_sum s1)" "take c (tempSum s3) = take c (tempSum s1)" "sd_sum s3 ! c = p" "tempSum s3 ! c = v"
    using xs(3) xs(4) [of c] lens c(1) pre by (simp_all add: s3_def s2_def nth_append)
  have "xs ! j = snd (((pre @ [(x, p)]) @ u0) ! j)" if "Suc c \<le> j" "j \<le> c + fsize ts" for j
  proof -
    have "j < length ?t" using that len c(5) by simp
    then show ?thesis using xs(4) [of j] that nth_map [of j ?t snd] by (simp add: s2_def del: map_append)
  qed
  then have "loaded vs (Suc c) (fsize ts) ?V ((pre @ [(x, p)]) @ u0) s3"
    using s1(1) len xs(2) lens c(1,5) by (auto simp: loaded_def s3_def s2_def scanning_def)
  then have "ok (fold_res hq_step (map ((@) (pre @ [(x, p)])) us) s3) (swept vs (Suc c) (map lin_prob (subs @ R)) (subs \<noteq> []) (pre @ [(x, p)]) s3)"
    using rec R c(4) vs(3) pre en unfolding sweeps_def by auto
  then have "ok (fold_res hq_step (map ((@) (pre @ [(x, p)])) us) s3) (col_inv vs c ts ?V (es @ [(x, p, subs)]) pre s)"
  proof (rule ok_mono)
    fix s'
    assume sw: "swept vs (Suc c) (map lin_prob (subs @ R)) (subs \<noteq> []) (pre @ [(x, p)]) s3 s'"
    have s': "scanning vs s'" "take (Suc c) (sd_sum s') = take (Suc c) (sd_sum s3)" "take (Suc c) (tempSum s') = take (Suc c) (tempSum s3)"
      "take (Suc c) (preTuple s') = map fst (pre @ [(x, p)])" "pending vs (Suc c) (map lin_prob subs @ ?V) s'"
      "c < sd_cursor s'" using sw R(2) vs(4) by (auto simp: swept_def)
    have ls: "length (sd_sum s') = length vs" "length (tempSum s') = length vs" "length (preTuple s') = length vs" using s'(1) by (simp_all add: scanning_def)
    have at: "ys ! c = zs ! c" "take c ys = take c zs" if "take (Suc c) ys = take (Suc c) zs" "c < length ys" "c < length zs" for ys zs :: "real list"
      using that by (auto simp: take_Suc_conv_app_nth)
    have "take c (preTuple s') = map fst pre" "preTuple s' ! c = x" using s'(4) ls(3) c(1) pre by (simp_all add: take_Suc_conv_app_nth)
    moreover have "sd_sum s' ! c = p" "tempSum s' ! c = v" "take c (sd_sum s') = take c (sd_sum s)" "take c (tempSum s') = take c (tempSum s)"
      using at [OF s'(2)] at [OF s'(3)] ls c(1) s3 xs(2) lens inv by (simp_all add: s3_def s2_def col_inv_def)
    moreover have "v = lin_prob (Lin es)"
      using lin_prob_snoc [of "butlast es" x' p' subs'] append_butlast_last_id [OF es(1)] l s1(6,7) by (simp add: v_def del: lin_prob.simps)
    ultimately show "col_inv vs c ts ?V (es @ [(x, p, subs)]) pre s s'" using s' vs(4) by (simp add: col_inv_def del: lin_prob.simps)
  qed
  moreover have "(@) (pre @ [(x, p)]) = (\<lambda>u. pre @ (x, p) # u)" by (simp add: fun_eq_iff)
  ultimately show ?thesis using step en by simp
qed

lemma entry_step:
  assumes vs: "plain vs" "cols_from vs c (Col ts # TR)" "1 \<le> c" and R: "list_all2 conforms TR R" "list_all2 conforms ts subs"
    and rec: "sweeps vs m" "sum_list (map lsize subs) < m" and pre: "length pre = c"
    and inv: "col_inv vs c ts (map lin_prob R) es pre s s1" and x: "x \<noteq> fst (last es)" and es: "es \<noteq> []" "\<forall>(x, p, subs) \<in> set es. length subs = length ts"
  shows "ok (fold_res hq_step (map (\<lambda>u. pre @ (x, p) # u) (enum_lin (subs @ R))) s1) (col_inv vs c ts (map lin_prob R) (es @ [(x, p, subs)]) pre s)"
proof (cases "ts = []")
  case True
  then have "subs = []" using R(2) by simp
  then show ?thesis using entry_leaf [OF vs(1) _ vs(3) R(1) pre, of es s s1 x p] vs(2) inv x True by simp
next
  case False
  show ?thesis by (rule entry_head [OF vs False R rec pre inv x es])
qed

lemma entries_steps:
  assumes vs: "plain vs" "cols_from vs c (Col ts # TR)" "1 \<le> c" and R: "list_all2 conforms TR R" and rec: "sweeps vs m" and pre: "length pre = c"
    and es: "es \<noteq> []" "distinct (map fst (es @ es'))" "\<forall>(x, p, subs) \<in> set (es @ es'). list_all2 conforms ts subs \<and> sum_list (map lsize subs) < m"
    and inv: "col_inv vs c ts (map lin_prob R) es pre s s1"
  shows "ok (fold_res hq_step (map ((@) pre) (concat (map (\<lambda>(x, p, subs). map ((#) (x, p)) (enum_lin (subs @ R))) es'))) s1)
    (col_inv vs c ts (map lin_prob R) (es @ es') pre s)"
  using es inv
proof (induction es' arbitrary: es s1)
  case (Cons e es')
  obtain x p subs where e: "e = (x, p, subs)" by (cases e)
  have "length (snd (snd a)) = length ts" if "a \<in> set es" for a
    using bspec [OF Cons.prems(3), of a] that by (cases a) (auto dest: list_all2_lengthD)
  then have lens: "\<forall>(x, p, subs) \<in> set es. length subs = length ts" by force
  have ne: "x \<noteq> fst (last es)" using Cons.prems(1,2) last_in_set [of es] e by force
  have "ok (fold_res hq_step (map (\<lambda>u. pre @ (x, p) # u) (enum_lin (subs @ R))) s1) (col_inv vs c ts (map lin_prob R) (es @ [(x, p, subs)]) pre s)"
    by (rule entry_step [OF vs R _ rec _ pre Cons.prems(4) ne Cons.prems(1) lens]) (use Cons.prems(3) e in auto)
  moreover have "ok (fold_res hq_step (map ((@) pre) (concat (map (\<lambda>(x, p, subs). map ((#) (x, p)) (enum_lin (subs @ R))) es'))) s2)
      (col_inv vs c ts (map lin_prob R) ((es @ [e]) @ es') pre s)" if "col_inv vs c ts (map lin_prob R) (es @ [e]) pre s s2" for s2
    by (rule Cons.IH) (use Cons.prems that in auto)
  ultimately show ?case by (simp add: e fold_res_append comp_def) (auto elim!: ok_mono)
qed simp

lemma sweeps_all: "plain vs \<Longrightarrow> sweeps vs m"
proof (induction m)
  case 0
  then show ?case by (simp add: sweeps_def)
next
  case (Suc m)
  show ?case unfolding sweeps_def
  proof (intro allI impI)
    fix TA A TR R c pre t0 ts s
    assume A: "sum_list (map lsize A) < Suc m" "list_all2 conforms TA A" and R: "list_all2 conforms TR R" and vs: "cols_from vs c (TA @ TR)" "1 \<le> c"
      and pre: "length pre = c" and en: "enum_lin (A @ R) = t0 # ts" and ld: "loaded vs c (fsize TA) (map lin_prob R) (pre @ t0) s"
    have AR: "list_all2 conforms (TA @ TR) (A @ R)" using A(2) R by (rule list_all2_appendI)
    have len: "length (pre @ u) = length vs" if "u \<in> set (t0 # ts)" for u
      using enum_length [OF AR, of u] that en cols_from_length [OF vs(1)] pre by simp
    have s: "scanning vs s" using ld by (simp add: loaded_def)
    show "ok (fold_res hq_step (map ((@) pre) ts) s) (swept vs c (map lin_prob (A @ R)) (A \<noteq> []) pre s)"
    proof (cases A)
      case Nil
      then have cur: "Suc (sd_cursor s) = c" using ld A(2) by (simp add: loaded_def)
      have "ok (fold_res hq_step (map ((@) pre) ts) s) (\<lambda>s'. scanning vs s' \<and> sd_sum s' = sd_sum s \<and> tempSum s' = tempSum s \<and> sd_cursor s' = sd_cursor s \<and>
          readySumList s' = readySumList s \<and> (\<forall>j \<le> sd_cursor s. preTuple s' ! j = preTuple s ! j))"
        by (rule hq_steps_ignored [OF s Suc.prems]) (use len cur ld pre in \<open>auto simp: loaded_def nth_append\<close>)
      then show ?thesis
      proof (rule ok_mono)
        fix s'
        assume s': "scanning vs s' \<and> sd_sum s' = sd_sum s \<and> tempSum s' = tempSum s \<and> sd_cursor s' = sd_cursor s \<and>
          readySumList s' = readySumList s \<and> (\<forall>j \<le> sd_cursor s. preTuple s' ! j = preTuple s ! j)"
        then have "take c (preTuple s') = map fst pre"
          using ld cur pre by (intro nth_equalityI) (auto simp: loaded_def scanning_def nth_append)
        moreover have "pending vs c (map lin_prob R) s'" by (rule pending_empty) (use s' ld cur in \<open>auto simp: loaded_def\<close>)
        ultimately show "swept vs c (map lin_prob (A @ R)) (A \<noteq> []) pre s s'" using s' Nil cur by (simp add: swept_def)
      qed
    next
      case (Cons L A')
      obtain es where L: "L = Lin es" by (cases L)
      obtain us TA' where TA: "TA = Col us # TA'" "es \<noteq> []" "distinct (map fst es)" "\<forall>(x, p, subs) \<in> set es. list_all2 conforms us subs" "list_all2 conforms TA' A'"
        by (rule conforms_Cons [OF A(2) [unfolded Cons L]])
      obtain x p subs es' where es: "es = (x, p, subs) # es'" using TA(2) by (cases es) auto
      have AR': "list_all2 conforms (TA' @ TR) (A' @ R)" using TA(5) R by (rule list_all2_appendI)
      have subs: "list_all2 conforms (us @ TA') (subs @ A')" "list_all2 conforms (us @ TA' @ TR) (subs @ A' @ R)"
        using TA(4,5) AR' es by (auto intro: list_all2_appendI)
      obtain u0 ws where en': "enum_lin (subs @ A' @ R) = u0 # ws" using enum_nonempty [OF subs(2)] by (cases "enum_lin (subs @ A' @ R)") auto
      have t: "t0 = (x, p) # u0" "ts = map ((#) (x, p)) ws @ concat (map (\<lambda>(x, p, subs). map ((#) (x, p)) (enum_lin (subs @ A' @ R))) es')"
        using en en' by (simp_all add: Cons L es)
      have vs': "cols_from vs c (Col us # TA' @ TR)" using vs(1) TA(1) by simp
      note c = cols_from_Col [OF vs']
      have m: "sum_list (map lsize q) < m" if "(y, b, q) \<in> set es" for y b q using lsize_entry [OF that] A(1) by (simp add: Cons L)
      have m1: "sum_list (map lsize (subs @ A')) < m" using lsize_entry [of x p subs es] A(1) by (simp add: Cons L es)
      have dr: "drop (Suc c) (tempSum s) = replicate (length vs - Suc c) 0" "tempSum s ! c = 0"
      proof -
        have "drop c (tempSum s) = replicate (length vs - c) 0" "c < length (tempSum s)" using ld c(1) by (simp_all add: loaded_def scanning_def)
        then show "drop (Suc c) (tempSum s) = replicate (length vs - Suc c) 0" "tempSum s ! c = 0"
          using c(1) by (simp_all add: Cons_nth_drop_Suc [symmetric] Suc_diff_Suc [symmetric])
      qed
      have "loaded vs (Suc c) (fsize (us @ TA')) (map lin_prob R) ((pre @ [(x, p)]) @ u0) s"
        using ld dr by (auto simp: loaded_def t(1) TA(1) length_concat)
      then have 1: "ok (fold_res hq_step (map ((@) (pre @ [(x, p)])) ws) s)
          (swept vs (Suc c) (map lin_prob ((subs @ A') @ R)) (subs @ A' \<noteq> []) (pre @ [(x, p)]) s)"
        using Suc.IH [OF Suc.prems] m1 subs(1) R c(4) vs(2) pre en' unfolding sweeps_def by (metis append.assoc le_SucI length_append_singleton)
      have 2: "col_inv vs c us (map lin_prob (A' @ R)) [(x, p, subs)] pre s s1"
        if "swept vs (Suc c) (map lin_prob ((subs @ A') @ R)) (subs @ A' \<noteq> []) (pre @ [(x, p)]) s s1" for s1
      proof -
        have s1: "scanning vs s1" "take (Suc c) (sd_sum s1) = take (Suc c) (sd_sum s)" "take (Suc c) (tempSum s1) = take (Suc c) (tempSum s)"
          "take (Suc c) (preTuple s1) = map fst (pre @ [(x, p)])" "pending vs (Suc c) (map lin_prob (subs @ A' @ R)) s1"
          "c \<le> sd_cursor s1" "subs \<noteq> [] \<Longrightarrow> c < sd_cursor s1" using that by (auto simp: swept_def)
        have ls: "c < length (sd_sum s1)" "c < length (tempSum s1)" "c < length (preTuple s1)" "c < length (sd_sum s)" "c < length (tempSum s)"
          using s1(1) s c(1) by (simp_all add: scanning_def)
        have "sd_sum s ! c = p" using ld pre t(1) TA(1) by (auto simp: loaded_def)
        then have "take c (preTuple s1) = map fst pre" "preTuple s1 ! c = x" "take c (sd_sum s1) = take c (sd_sum s)" "sd_sum s1 ! c = p"
          "take c (tempSum s1) = take c (tempSum s)" "tempSum s1 ! c = 0"
          using s1(2-4) dr(2) ls pre by (simp_all add: take_Suc_conv_app_nth)
        moreover have "us = [] \<longleftrightarrow> subs = []" using TA(4) es by auto
        ultimately show ?thesis using s1 by (auto simp: col_inv_def)
      qed
      have 3: "ok (fold_res hq_step (map ((@) pre) (concat (map (\<lambda>(x, p, subs). map ((#) (x, p)) (enum_lin (subs @ A' @ R))) es'))) s1)
          (col_inv vs c us (map lin_prob (A' @ R)) ([(x, p, subs)] @ es') pre s)"
        if "col_inv vs c us (map lin_prob (A' @ R)) [(x, p, subs)] pre s s1" for s1
        by (rule entries_steps [OF Suc.prems vs' vs(2) AR' Suc.IH [OF Suc.prems] pre _ _ _ that]) (use TA m es in auto)
      have 4: "swept vs c (map lin_prob (A @ R)) (A \<noteq> []) pre s s2" if "col_inv vs c us (map lin_prob (A' @ R)) es pre s s2" for s2
        using col_inv_swept [OF that TA(2) c(2,3)] TA(4) by (fastforce simp: Cons L dest: list_all2_lengthD)
      have "map ((@) pre) ts = map ((@) (pre @ [(x, p)])) ws @ map ((@) pre) (concat (map (\<lambda>(x, p, subs). map ((#) (x, p)) (enum_lin (subs @ A' @ R))) es'))"
        by (simp add: t(2))
      then show ?thesis using 1 2 3 4 by (simp add: fold_res_append es del: lin_prob.simps) (blast intro: ok_mono)
    qed
  qed
qed

lemma sweep:
  assumes "plain vs" "list_all2 conforms TA A" "list_all2 conforms TR R" "cols_from vs c (TA @ TR)" "1 \<le> c" "length pre = c"
    "enum_lin (A @ R) = t0 # ts" "loaded vs c (fsize TA) (map lin_prob R) (pre @ t0) s"
  shows "ok (fold_res hq_step (map ((@) pre) ts) s) (swept vs c (map lin_prob (A @ R)) (A \<noteq> []) pre s)"
  using sweeps_all [OF assms(1), of "Suc (sum_list (map lsize A))"] assms(2-) unfolding sweeps_def by blast

section \<open>The first column\<close>

text \<open>
  The first column may have been aggregated: its node then carries a table of representatives
  with their probabilities, and an entry counts only if it is the next representative.
  \<open>valid_entries\<close> are the entries that count, with the probabilities they count with.
\<close>

fun valid_entries :: "sigInfo \<Rightarrow> (int \<times> real \<times> lin list) list \<Rightarrow> (int \<times> real \<times> lin list) list" where
  "valid_entries info [] = []"
| "valid_entries info ((x, p, subs) # es) =
     (if isAValidVar info x = Inr True
      then case lookup info x p of Inr (q, info') \<Rightarrow> (x, q, subs) # valid_entries info' es | Inl _ \<Rightarrow> []
      else valid_entries info es)"

definition has_table :: "sigInfo \<Rightarrow> bool" where
  "has_table info \<longleftrightarrow> si_type info = NOTAGGREGATED \<or> pt info \<noteq> None"

lemma isAValidVar_total: "has_table info \<Longrightarrow> \<exists>b. isAValidVar info x = Inr b"
  by (auto simp: has_table_def isAValidVar_def split: list.split)

lemma lookup_valid:
  assumes "has_table info" "isAValidVar info x = Inr True"
  obtains q info' where "lookup info x p = Inr (q, info')" "has_table info'" "col info' = col info"
  using assms by (auto simp: has_table_def isAValidVar_def lookup_def col_def split: list.splits if_splits)

definition top_col :: "sigInfo list \<Rightarrow> shape list \<Rightarrow> bool" where
  "top_col vs ts \<longleftrightarrow> plain vs \<and> cols_from vs 0 [Col ts] \<and> ts \<noteq> [] \<and> has_table (vs ! 0)"

lemma top_col_simps:
  assumes "top_col vs ts"
  shows "length vs = Suc (fsize ts)" "si_domain (vs ! 0) = fsize ts" "varsToCombine (vs ! 0) = length ts" "cols_from vs 1 ts" "fsize ts \<noteq> 0" "plain vs"
    "has_table (vs ! 0)"
  using assms cols_from_Col [of vs 0 ts "[]"] cols_from_length [of vs 0 "[Col ts]"] fsize_0 [of ts] by (auto simp: top_col_def length_concat)

lemma top_col_update:
  assumes "top_col vs ts" "has_table info'" "col info' = col (vs ! 0)"
  shows "top_col (vs[0 := info']) ts"
proof -
  have "0 < length vs" using top_col_simps(1) [OF assms(1)] by simp
  moreover have "map col (vs[0 := info']) = map col vs" using assms(3) calculation by (simp add: map_update list_update_same_conv)
  ultimately show ?thesis using assms by (auto simp: top_col_def plain_def cols_from_def nth_list_update)
qed

text \<open>Between two tuples: an entry of the first column is open, or the last one has been closed.\<close>

definition top_open :: "sigInfo list \<Rightarrow> (int \<times> real \<times> lin list) list \<Rightarrow> stateData \<Rightarrow> bool" where
  "top_open vs es s \<longleftrightarrow> scanning vs s \<and> es \<noteq> [] \<and> pending vs 1 (map lin_prob (snd (snd (last es)))) s \<and> sd_sum s ! 0 = fst (snd (last es)) \<and>
     tempSum s ! 0 = lin_prob (Lin (butlast es)) \<and> 0 < sd_cursor s"

definition top_closed :: "sigInfo list \<Rightarrow> (int \<times> real \<times> lin list) list \<Rightarrow> stateData \<Rightarrow> bool" where
  "top_closed vs es s \<longleftrightarrow> scanning vs (s\<lparr>calculating := True\<rparr>) \<and> \<not> calculating s \<and> readySumList s = [] \<and>
     tempSum s = lin_prob (Lin es) # replicate (length vs - 1) 0"

definition top_inv :: "sigInfo list \<Rightarrow> (int \<times> real \<times> lin list) list \<Rightarrow> int set \<Rightarrow> stateData \<Rightarrow> bool" where
  "top_inv vs es seen s \<longleftrightarrow> (top_open vs es s \<or> top_closed vs es s) \<and> preTuple s ! 0 \<in> seen"

lemma load_all:
  assumes "top_col vs ts" "sd_vars s = Ptr vs" "length (curTuple s) = length vs" "length (curTupleProb s) = length vs" "length (sd_sum s) = length vs"
    and "lookup (vs ! 0) (curTuple s ! 0) (curTupleProb s ! 0) = Inr (q, info')" "col info' = col (vs ! 0)" "has_table info'"
  obtains xs where "fold_res load_sum [0..<length vs] s = Inr (s\<lparr>sd_vars := Ptr (vs[0 := info']), sd_sum := xs\<rparr>)" "length xs = length vs"
    "xs ! 0 = q" "\<And>j. 1 \<le> j \<Longrightarrow> j < length vs \<Longrightarrow> xs ! j = curTupleProb s ! j"
proof -
  note vs = top_col_simps [OF assms(1)] and vs' = top_col_simps [OF top_col_update [OF assms(1,8,7)]]
  let ?s = "s\<lparr>sd_vars := Ptr (vs[0 := info']), sd_sum := (sd_sum s)[0 := q]\<rparr>"
  have z: "0 < length vs" "1 \<le> length vs" using vs(1) by simp_all
  have "load_sum 0 s = Inr ?s" using assms(2-6) z by (simp add: load_sum_def lookup_at_def)
  moreover obtain xs where xs: "fold_res load_sum [1..<length vs] ?s = Inr (?s\<lparr>sd_sum := xs\<rparr>)" "length xs = length (vs[0 := info'])"
    "take 1 xs = take 1 (sd_sum ?s)" "\<And>j. 1 \<le> j \<Longrightarrow> j < length vs \<Longrightarrow> xs ! j = curTupleProb ?s ! j"
    by (rule load_sums [of ?s "vs[0 := info']" 1 "length vs"]) (use assms(3-5) z vs'(6) in \<open>auto simp: plain_def nth_list_update\<close>)
  moreover have "xs ! 0 = q" using take_nth_eq [OF xs(3), of 0] xs(2) assms(5) z by simp
  moreover have "[0..<length vs] = 0 # [1..<length vs]" using z by (simp add: upt_rec [of 0])
  ultimately show thesis using that [of xs] by simp
qed

lemma top_first_tuple:
  assumes vs: "top_col vs ts" and subs: "list_all2 conforms ts subs" and en: "enum_lin subs = u0 # us"
    and ld: "loaded vs 1 (fsize ts) [] ((x, p) # u0) s" "sd_sum s ! 0 = q" "tempSum s ! 0 = lin_prob (Lin es)"
  shows "ok (fold_res hq_step (map ((#) (x, p)) us) s) (\<lambda>s'. top_open vs (es @ [(x, q, subs)]) s' \<and> preTuple s' ! 0 = x)"
proof -
  note v = top_col_simps [OF vs]
  have "ok (fold_res hq_step (map ((@) [(x, p)]) us) s) (swept vs 1 (map lin_prob (subs @ [])) (subs \<noteq> []) [(x, p)] s)"
    by (rule sweep [OF v(6) subs, of "[]"]) (use v(4) en ld(1) in simp_all)
  moreover have "(@) [(x, p)] = (#) (x, p)" by (simp add: fun_eq_iff)
  ultimately have "ok (fold_res hq_step (map ((#) (x, p)) us) s) (swept vs 1 (map lin_prob subs) (subs \<noteq> []) [(x, p)] s)" by simp
  then show ?thesis
  proof (rule ok_mono)
    fix s'
    assume sw: "swept vs 1 (map lin_prob subs) (subs \<noteq> []) [(x, p)] s s'"
    have "subs \<noteq> []" using subs vs by (auto simp: top_col_def)
    then have s': "scanning vs s'" "pending vs 1 (map lin_prob subs) s'" "0 < sd_cursor s'" "take 1 (sd_sum s') = take 1 (sd_sum s)"
      "take 1 (tempSum s') = take 1 (tempSum s)" "take 1 (preTuple s') = [x]" using sw by (auto simp: swept_def)
    have hd: "ys ! 0 = zs ! 0" if "take 1 ys = take 1 zs" "ys \<noteq> []" "zs \<noteq> []" for ys zs :: "real list" using that by (cases ys; cases zs) auto
    have "sd_sum s' \<noteq> []" "sd_sum s \<noteq> []" "tempSum s' \<noteq> []" "tempSum s \<noteq> []" "preTuple s' \<noteq> []"
      using s'(1) ld(1) v(1) by (auto simp: scanning_def loaded_def)
    then have "sd_sum s' ! 0 = q" "tempSum s' ! 0 = lin_prob (Lin es)" "preTuple s' ! 0 = x"
      using hd [OF s'(4)] hd [OF s'(5)] ld(2,3) s'(6) by (simp_all del: lin_prob.simps) (cases "preTuple s'"; simp)
    then show "top_open vs (es @ [(x, q, subs)]) s' \<and> preTuple s' ! 0 = x" using s' by (simp add: top_open_def del: lin_prob.simps)
  qed
qed

text \<open>A valid entry is opened, from an open entry or from a closed one.\<close>

definition fresh_block :: "sigInfo list \<Rightarrow> (int \<times> real \<times> lin list) list \<Rightarrow> stateData \<Rightarrow> bool" where
  "fresh_block vs es s \<longleftrightarrow> sd_vars s = Ptr vs \<and> NoOfVars s = length vs \<and> length (sd_sum s) = length vs \<and> length (preTuple s) = length vs \<and>
     readySumList s = [] \<and> tempSum s = lin_prob (Lin es) # replicate (length vs - 1) 0 \<and> 1 \<le> counter s"

lemma open_block:
  assumes vs: "top_col vs ts" and s: "fresh_block vs es s" "curTuple s = map fst ((x, p) # u0)" "curTupleProb s = map snd ((x, p) # u0)"
    and len: "length u0 = fsize ts" and look: "lookup (vs ! 0) x p = Inr (q, info')" "col info' = col (vs ! 0)" "has_table info'"
  obtains s' where "rbind (fold_res load_sum [0..<length vs] s) (\<lambda>s. memcpy_tuple (s\<lparr>calculating := True, sd_cursor := NoOfVars s - 1\<rparr>)) = Inr s'"
    "calculating s \<Longrightarrow> sd_cursor s = length vs - 1 \<Longrightarrow> rbind (fold_res load_sum [0..<length vs] s) memcpy_tuple = Inr s'"
    "loaded (vs[0 := info']) 1 (fsize ts) [] ((x, p) # u0) s'" "sd_sum s' ! 0 = q" "tempSum s' ! 0 = lin_prob (Lin es)"
proof -
  note v = top_col_simps [OF vs]
  obtain xs where xs: "fold_res load_sum [0..<length vs] s = Inr (s\<lparr>sd_vars := Ptr (vs[0 := info']), sd_sum := xs\<rparr>)" "length xs = length vs"
    "xs ! 0 = q" "\<And>j. 1 \<le> j \<Longrightarrow> j < length vs \<Longrightarrow> xs ! j = curTupleProb s ! j"
  proof (rule load_all [OF vs])
    show "sd_vars s = Ptr vs" "length (curTuple s) = length vs" "length (curTupleProb s) = length vs" "length (sd_sum s) = length vs"
      "lookup (vs ! 0) (curTuple s ! 0) (curTupleProb s ! 0) = Inr (q, info')"
      using s len v(1) look(1) by (simp_all add: fresh_block_def)
  qed (use look in auto)
  have "xs ! j = snd (((x, p) # u0) ! j)" if "1 \<le> j" "j < length vs" for j
    using xs(4) [OF that] that len v(1) nth_map [of j "(x, p) # u0" snd] by (simp add: s(3) del: list.map)
  note xsj = this
  let ?s = "s\<lparr>sd_vars := Ptr (vs[0 := info']), sd_sum := xs, calculating := True, sd_cursor := length vs - 1, preTuple := curTuple s\<rparr>"
  show thesis
  proof (rule that [of ?s])
    show "rbind (fold_res load_sum [0..<length vs] s) (\<lambda>s. memcpy_tuple (s\<lparr>calculating := True, sd_cursor := NoOfVars s - 1\<rparr>)) = Inr ?s"
      using s len v(1) unfolding xs(1) by (simp add: memcpy_tuple_def fresh_block_def)
    show "rbind (fold_res load_sum [0..<length vs] s) memcpy_tuple = Inr ?s" if "calculating s" "sd_cursor s = length vs - 1"
      using s len v(1) that unfolding xs(1) by (cases s) (simp add: memcpy_tuple_def fresh_block_def)
    show "loaded (vs[0 := info']) 1 (fsize ts) [] ((x, p) # u0) ?s" using s len v(1,5) xs(2) xsj
      by (auto simp: loaded_def scanning_def fresh_block_def simp del: lin_prob.simps)
  qed (use s(1) xs(3) in \<open>simp_all add: fresh_block_def del: lin_prob.simps\<close>)
qed

lemma top_valid:
  assumes vs: "top_col vs ts" and subs: "list_all2 conforms ts subs" and inv: "top_inv vs es seen s" "\<forall>(x, p, subs) \<in> set es. length subs = length ts"
    and x: "x \<notin> seen" and valid: "isAValidVar (vs ! 0) x = Inr True" and look: "lookup (vs ! 0) x p = Inr (q, info')" "col info' = col (vs ! 0)" "has_table info'"
  shows "ok (fold_res hq_step (map ((#) (x, p)) (enum_lin subs)) s) (top_inv (vs[0 := info']) (es @ [(x, q, subs)]) (insert x seen))"
proof -
  note v = top_col_simps [OF vs]
  obtain u0 us where en: "enum_lin subs = u0 # us" using enum_nonempty [OF subs] by (cases "enum_lin subs") auto
  have len: "length u0 = fsize ts" using enum_length [OF subs, of u0] en by simp
  let ?t = "(x, p) # u0"
  have ne: "x \<noteq> preTuple s ! 0" using inv(1) x by (auto simp: top_inv_def)
  have "\<exists>s'. hq_step ?t s = Inr s' \<and> loaded (vs[0 := info']) 1 (fsize ts) [] ?t s' \<and> sd_sum s' ! 0 = q \<and> tempSum s' ! 0 = lin_prob (Lin es)"
  proof (cases "top_open vs es s")
    case True
    obtain x' p' subs' where l: "last es = (x', p', subs')" by (cases "last es")
    have o: "scanning vs s" "es \<noteq> []" "pending vs 1 (map lin_prob subs') s" "sd_sum s ! 0 = p'" "tempSum s ! 0 = lin_prob (Lin (butlast es))" "0 < sd_cursor s"
      using True l by (simp_all add: top_open_def del: lin_prob.simps)
    have l': "length subs' = length ts" using inv(2) last_in_set [OF o(2)] l by force
    have e: "lin_prob (Lin es) = indeEventConjunc (tempSum s ! 0) (sd_sum s ! 0 * prod_list (map lin_prob subs'))"
      using lin_prob_snoc [of "butlast es" x' p' subs'] append_butlast_last_id [OF o(2)] l o(4,5) by (simp del: lin_prob.simps)
    define s1 where "s1 = (fetch ?t s)\<lparr>readySumList := [], tempSum := lin_prob (Lin es) # replicate (length vs - 1) 0, sd_cursor := length vs - 1\<rparr>"
    have "change_at (fetch ?t s) 0 = Inr True"
      using o(1) v(1) ne valid by (simp add: change_at_def var_at_def scanning_def)
    then have "scan_columns (fetch ?t s) = finish 0 False (fetch ?t s)"
      using o(6) by (simp add: scan_columns_def first_index.simps [of _ _ 0])
    then have step: "hq_step ?t s = rbind (finish 0 False (fetch ?t s)) (\<lambda>(_, s). Inr s)"
      using o(1) v(1) ne valid by (simp add: hq_step_def processTuple_def scanning_def fetch_def [symmetric] var_at_def Let_def)
        (simp add: fetch_def var_at_def)
    have fin: "finish 0 False (fetch ?t s) = rbind (fold_res load_sum [0..<length vs] s1) (\<lambda>s. rbind (memcpy_tuple s) (\<lambda>s. Inr (None, s)))"
      using finish_head [of "fetch ?t s" vs 0 "map lin_prob subs'" "[]" False] o(1,3) v l' e
      by (simp add: scanning_def s1_def Let_def del: upt_Suc lin_prob.simps)
    obtain s' where s': "calculating s1 \<Longrightarrow> sd_cursor s1 = length vs - 1 \<Longrightarrow> rbind (fold_res load_sum [0..<length vs] s1) memcpy_tuple = Inr s'"
      "loaded (vs[0 := info']) 1 (fsize ts) [] ?t s'" "sd_sum s' ! 0 = q" "tempSum s' ! 0 = lin_prob (Lin es)"
    proof (rule open_block [OF vs _ _ _ len look])
      show "fresh_block vs es s1" "curTuple s1 = map fst ?t" "curTupleProb s1 = map snd ?t"
        using o(1) by (simp_all add: s1_def fresh_block_def scanning_def del: lin_prob.simps)
    qed (rule that)
    have "rbind (fold_res load_sum [0..<length vs] s1) memcpy_tuple = Inr s'" by (rule s'(1)) (use o(1) in \<open>simp_all add: s1_def scanning_def\<close>)
    then have "hq_step ?t s = Inr s'" unfolding step fin by (auto simp: rbind_eq_Inr_iff)
    then show ?thesis using s' by blast
  next
    case False
    then have cl: "top_closed vs es s" using inv(1) by (simp add: top_inv_def)
    obtain s' where s': "rbind (fold_res load_sum [0..<length vs] (fetch ?t s)) (\<lambda>s. memcpy_tuple (s\<lparr>calculating := True, sd_cursor := NoOfVars s - 1\<rparr>)) = Inr s'"
      "loaded (vs[0 := info']) 1 (fsize ts) [] ?t s'" "sd_sum s' ! 0 = q" "tempSum s' ! 0 = lin_prob (Lin es)"
    proof (rule open_block [OF vs _ _ _ len look])
      show "fresh_block vs es (fetch ?t s)" "curTuple (fetch ?t s) = map fst ?t" "curTupleProb (fetch ?t s) = map snd ?t"
        using cl by (simp_all add: top_closed_def fresh_block_def scanning_def del: lin_prob.simps)
    qed (rule that)
    have "hq_step ?t s = rbind (new_block (fetch ?t s)) Inr"
      using cl v(1) ne valid by (simp add: hq_step_def processTuple_def top_closed_def scanning_def var_at_def Let_def rbind_assoc)
        (simp add: fetch_def)
    also have "new_block (fetch ?t s) = Inr s'"
      using s'(1) cl by (simp add: new_block_def for_upto_def top_closed_def scanning_def)
    finally show ?thesis using s' by simp
  qed
  then obtain s' where s': "hq_step ?t s = Inr s'" "loaded (vs[0 := info']) 1 (fsize ts) [] ?t s'" "sd_sum s' ! 0 = q" "tempSum s' ! 0 = lin_prob (Lin es)"
    by blast
  have "ok (fold_res hq_step (map ((#) (x, p)) us) s') (\<lambda>s'. top_open (vs[0 := info']) (es @ [(x, q, subs)]) s' \<and> preTuple s' ! 0 = x)"
    by (rule top_first_tuple [OF top_col_update [OF vs look(3,2)] subs en s'(2-4)])
  then show ?thesis using s'(1) en by (auto simp: top_inv_def elim!: ok_mono)
qed

text \<open>An entry that is not the next representative closes the open one and is skipped.\<close>

lemma top_skip_tuples:
  assumes vs: "top_col vs ts" and "top_closed vs es s" "x \<noteq> preTuple s ! 0 \<Longrightarrow> isAValidVar (vs ! 0) x = Inr False" "\<forall>u \<in> set us. length u = fsize ts"
  shows "ok (fold_res hq_step (map ((#) (x, p)) us) s) (\<lambda>s'. top_closed vs es s' \<and> preTuple s' = preTuple s)"
  using assms(2-)
proof (induction us arbitrary: s)
  case (Cons u us)
  note v = top_col_simps [OF vs]
  have "hq_step ((x, p) # u) s = Inr (fetch ((x, p) # u) s)"
    using Cons.prems v(1)
    by (cases "x = preTuple s ! 0") (auto simp: hq_step_def processTuple_def top_closed_def scanning_def var_at_def Let_def fetch_def)
  moreover have "ok (fold_res hq_step (map ((#) (x, p)) us) (fetch ((x, p) # u) s)) (\<lambda>s'. top_closed vs es s' \<and> preTuple s' = preTuple (fetch ((x, p) # u) s))"
    by (rule Cons.IH) (use Cons.prems in \<open>auto simp: top_closed_def scanning_def\<close>)
  ultimately show ?case by simp
qed simp

lemma close_block:
  assumes vs: "top_col vs ts" and s: "top_open vs es s" "\<forall>(x, p, subs) \<in> set es. length subs = length ts"
  shows "finish 0 True s = Inr (Some (lin_prob (Lin es)), s\<lparr>readySumList := [], tempSum := lin_prob (Lin es) # replicate (length vs - 1) 0\<rparr>)"
    "length (curTuple s) = length vs \<Longrightarrow> finish 0 False (s\<lparr>calculating := False\<rparr>) = Inr (None, s\<lparr>calculating := False, readySumList := [], tempSum := lin_prob (Lin es) # replicate (length vs - 1) 0,
      sd_cursor := length vs - 1, preTuple := curTuple s\<rparr>)"
proof -
  note v = top_col_simps [OF vs]
  obtain x p subs where l: "last es = (x, p, subs)" by (cases "last es")
  have o: "scanning vs s" "es \<noteq> []" "pending vs 1 (map lin_prob subs @ []) s" "sd_sum s ! 0 = p" "tempSum s ! 0 = lin_prob (Lin (butlast es))"
    using s(1) l by (simp_all add: top_open_def del: lin_prob.simps)
  have l': "length subs = length ts" using s(2) last_in_set [OF o(2)] l by force
  have e: "lin_prob (Lin es) = indeEventConjunc (tempSum s ! 0) (sd_sum s ! 0 * prod_list (map lin_prob subs))"
    using lin_prob_snoc [of "butlast es" x p subs] append_butlast_last_id [OF o(2)] l o(4,5) by (simp del: lin_prob.simps)
  show "finish 0 True s = Inr (Some (lin_prob (Lin es)), s\<lparr>readySumList := [], tempSum := lin_prob (Lin es) # replicate (length vs - 1) 0\<rparr>)"
    using finish_head [of s vs 0 "map lin_prob subs" "[]" True] o(1,3) v l' e by (simp add: scanning_def Let_def del: lin_prob.simps)
  show "finish 0 False (s\<lparr>calculating := False\<rparr>) = Inr (None, s\<lparr>calculating := False, readySumList := [], tempSum := lin_prob (Lin es) # replicate (length vs - 1) 0,
      sd_cursor := length vs - 1, preTuple := curTuple s\<rparr>)" if "length (curTuple s) = length vs"
    using finish_head [of "s\<lparr>calculating := False\<rparr>" vs 0 "map lin_prob subs" "[]" False] o(1,3) v l' e that
    by (simp add: scanning_def Let_def pending_def memcpy_tuple_def del: lin_prob.simps)
qed

lemma top_invalid:
  assumes vs: "top_col vs ts" and subs: "list_all2 conforms ts subs" and inv: "top_inv vs es seen s" "\<forall>(x, p, subs) \<in> set es. length subs = length ts"
    and x: "x \<notin> seen" and invalid: "isAValidVar (vs ! 0) x = Inr False"
  shows "ok (fold_res hq_step (map ((#) (x, p)) (enum_lin subs)) s) (top_inv vs es (insert x seen))"
proof -
  note v = top_col_simps [OF vs]
  obtain u0 us where en: "enum_lin subs = u0 # us" using enum_nonempty [OF subs] by (cases "enum_lin subs") auto
  have len: "\<forall>u \<in> set (u0 # us). length u = fsize ts" using enum_length [OF subs] en by simp
  have ne: "x \<noteq> preTuple s ! 0" using inv(1) x by (auto simp: top_inv_def)
  show ?thesis
  proof (cases "top_open vs es s")
    case True
    let ?t = "(x, p) # u0"
    let ?s = "(fetch ?t s)\<lparr>calculating := False, readySumList := [], tempSum := lin_prob (Lin es) # replicate (length vs - 1) 0,
      sd_cursor := length vs - 1, preTuple := map fst ?t\<rparr>"
    have o: "top_open vs es (fetch ?t s)" using True by (simp add: top_open_def)
    have "hq_step ?t s = rbind (finish 0 False ((fetch ?t s)\<lparr>calculating := False\<rparr>)) (\<lambda>(_, s). Inr s)"
      using True v(1) ne invalid by (simp add: hq_step_def processTuple_def top_open_def scanning_def var_at_def Let_def fetch_def)
    also have "\<dots> = Inr ?s" using close_block(2) [OF vs o inv(2)] len v(1) by simp
    finally have step: "hq_step ?t s = Inr ?s" .
    have "top_closed vs es ?s" using True len v(1) by (auto simp: top_closed_def top_open_def scanning_def)
    then have "ok (fold_res hq_step (map ((#) (x, p)) us) ?s) (\<lambda>s'. top_closed vs es s' \<and> preTuple s' = preTuple ?s)"
      by (rule top_skip_tuples [OF vs]) (use len in auto)
    then show ?thesis using step en by (auto simp: top_inv_def elim!: ok_mono)
  next
    case False
    then have cl: "top_closed vs es s" using inv(1) by (simp add: top_inv_def)
    have "ok (fold_res hq_step (map ((#) (x, p)) (enum_lin subs)) s) (\<lambda>s'. top_closed vs es s' \<and> preTuple s' = preTuple s)"
      by (rule top_skip_tuples [OF vs cl]) (use invalid len en in auto)
    then show ?thesis using inv(1) by (auto simp: top_inv_def elim!: ok_mono)
  qed
qed

text \<open>All entries of the first column.\<close>

lemma top_entries:
  assumes "top_col vs ts" "top_inv vs es seen s" "\<forall>(x, p, subs) \<in> set es. length subs = length ts"
    and "\<forall>(x, p, subs) \<in> set es'. list_all2 conforms ts subs" "distinct (map fst es')" "seen \<inter> fst ` set es' = {}"
  shows "ok (fold_res hq_step (concat (map (\<lambda>(x, p, subs). map ((#) (x, p)) (enum_lin subs)) es')) s)
    (\<lambda>s'. \<exists>vs' seen'. top_col vs' ts \<and> top_inv vs' (es @ valid_entries (vs ! 0) es') seen' s' \<and> (\<forall>(x, p, subs) \<in> set (es @ valid_entries (vs ! 0) es'). length subs = length ts))"
  using assms
proof (induction es' arbitrary: vs es seen s)
  case (Cons e es')
  obtain x p subs where e: "e = (x, p, subs)" by (cases e)
  note v = top_col_simps [OF Cons.prems(1)]
  have subs: "list_all2 conforms ts subs" and x: "x \<notin> seen" using Cons.prems(4,6) e by auto
  let ?run = "fold_res hq_step (map ((#) (x, p)) (enum_lin subs)) s"
  let ?rest = "fold_res hq_step (concat (map (\<lambda>(x, p, subs). map ((#) (x, p)) (enum_lin subs)) es'))"
  let ?P = "\<lambda>s'. \<exists>vs' seen'. top_col vs' ts \<and> top_inv vs' (es @ valid_entries (vs ! 0) (e # es')) seen' s' \<and>
    (\<forall>(x, p, subs) \<in> set (es @ valid_entries (vs ! 0) (e # es')). length subs = length ts)"
  obtain b where b: "isAValidVar (vs ! 0) x = Inr b" using isAValidVar_total [OF v(7)] by blast
  have "ok ?run (\<lambda>s1. ok (?rest s1) ?P)"
  proof (cases b)
    case True
    obtain q info' where look: "lookup (vs ! 0) x p = Inr (q, info')" "has_table info'" "col info' = col (vs ! 0)"
      using lookup_valid [OF v(7)] b True by metis
    have "ok ?run (top_inv (vs[0 := info']) (es @ [(x, q, subs)]) (insert x seen))"
      by (rule top_valid [OF Cons.prems(1) subs Cons.prems(2,3) x _ look(1,3,2)]) (use b True in simp)
    then show ?thesis
    proof (rule ok_mono)
      fix s1
      assume s1: "top_inv (vs[0 := info']) (es @ [(x, q, subs)]) (insert x seen) s1"
      have "length subs = length ts" using subs by (auto dest: list_all2_lengthD)
      then have *: "\<forall>(x, p, subs) \<in> set (es @ [(x, q, subs)]). length subs = length ts" using Cons.prems(3) by auto
      show "ok (?rest s1) ?P"
        using Cons.IH [OF top_col_update [OF Cons.prems(1) look(2,3)] s1 *] Cons.prems(4-6) v(1) b True look(1)
        by (auto simp: e)
    qed
  next
    case False
    have "ok ?run (top_inv vs es (insert x seen))"
      by (rule top_invalid [OF Cons.prems(1) subs Cons.prems(2,3) x]) (use b False in simp)
    then show ?thesis
    proof (rule ok_mono)
      fix s1
      assume s1: "top_inv vs es (insert x seen) s1"
      show "ok (?rest s1) ?P" using Cons.IH [OF Cons.prems(1) s1 Cons.prems(3)] Cons.prems(4-6) b False by (auto simp: e)
    qed
  qed
  then show ?case by (simp add: e fold_res_append)
qed auto

section \<open>The whole scan\<close>

lemma hq_first_tuple:
  assumes vs: "top_col vs ts" and subs: "list_all2 conforms ts subs" and s: "counter s = 0" "sd_vars s = Ptr vs" "NoOfVars s = length vs"
    and look: "lookup (vs ! 0) x p = Inr (q, info')" "col info' = col (vs ! 0)" "has_table info'"
  shows "ok (fold_res hq_step (map ((#) (x, p)) (enum_lin subs)) s) (top_inv (vs[0 := info']) [(x, q, subs)] {x})"
proof -
  note v = top_col_simps [OF vs]
  obtain u0 us where en: "enum_lin subs = u0 # us" using enum_nonempty [OF subs] by (cases "enum_lin subs") auto
  have len: "length u0 = fsize ts" using enum_length [OF subs, of u0] en by simp
  let ?t = "(x, p) # u0"
  let ?s = "(fetch ?t s)\<lparr>sd_sum := replicate (length vs) 0, tempSum := replicate (length vs) 0, preTuple := replicate (length vs) 0, readySumList := []\<rparr>"
  obtain s' where s': "rbind (fold_res load_sum [0..<length vs] ?s) (\<lambda>s. memcpy_tuple (s\<lparr>calculating := True, sd_cursor := NoOfVars s - 1\<rparr>)) = Inr s'"
    "loaded (vs[0 := info']) 1 (fsize ts) [] ?t s'" "sd_sum s' ! 0 = q" "tempSum s' ! 0 = lin_prob (Lin [])"
  proof (rule open_block [OF vs _ _ _ len look])
    show "fresh_block vs [] ?s" "curTuple ?s = map fst ?t" "curTupleProb ?s = map snd ?t" using s v(1) by (simp_all add: fresh_block_def)
  qed (rule that)
  have "hq_step ?t s = rbind (new_block ?s) Inr"
    using s by (simp add: hq_step_def processTuple_def Let_def rbind_assoc) (simp add: fetch_def)
  also have "new_block ?s = Inr s'" using s'(1) s by (simp add: new_block_def for_upto_def)
  finally have step: "hq_step ?t s = Inr s'" by simp
  have "ok (fold_res hq_step (map ((#) (x, p)) us) s') (\<lambda>s'. top_open (vs[0 := info']) ([] @ [(x, q, subs)]) s' \<and> preTuple s' ! 0 = x)"
    by (rule top_first_tuple [OF top_col_update [OF vs look(3,2)] subs en s'(2-4)])
  then show ?thesis using step en by (auto simp: top_inv_def elim!: ok_mono)
qed

theorem one_scan_lin:
  assumes vs: "top_col vs ts" and lin: "conforms (Col ts) (Lin es)" and s: "counter s = 0" "sd_vars s = Ptr vs" "NoOfVars s = length vs"
    and first: "isAValidVar (vs ! 0) (fst (hd es)) = Inr True"
  shows "ok (rbind (fold_res hq_step (enum_lin [Lin es]) s) (\<lambda>s. processTuple s True)) (\<lambda>(p, s'). p = Some (lin_prob (Lin (valid_entries (vs ! 0) es))))"
proof -
  note v = top_col_simps [OF vs]
  obtain x p subs es' where es: "es = (x, p, subs) # es'" using lin by (cases es) auto
  have subs: "list_all2 conforms ts subs" using lin es by simp
  obtain q info' where look: "lookup (vs ! 0) x p = Inr (q, info')" "has_table info'" "col info' = col (vs ! 0)"
    using lookup_valid [OF v(7)] first es by (metis fst_conv list.sel(1))
  have 1: "ok (fold_res hq_step (map ((#) (x, p)) (enum_lin subs)) s) (top_inv (vs[0 := info']) [(x, q, subs)] {x})"
    by (rule hq_first_tuple [OF vs subs s look(1,3,2)])
  have eff: "valid_entries (vs ! 0) es = [(x, q, subs)] @ valid_entries (vs[0 := info'] ! 0) es'" using first look(1) v(1) by (simp add: es)
  have 2: "ok (fold_res hq_step (concat (map (\<lambda>(x, p, subs). map ((#) (x, p)) (enum_lin subs)) es')) s1) (\<lambda>s'. \<exists>vs' seen'. top_col vs' ts \<and>
      top_inv vs' (valid_entries (vs ! 0) es) seen' s' \<and> (\<forall>(x, p, subs) \<in> set (valid_entries (vs ! 0) es). length subs = length ts))"
    if "top_inv (vs[0 := info']) [(x, q, subs)] {x} s1" for s1
    unfolding eff
    by (rule top_entries [OF top_col_update [OF vs look(2,3)] that]) (use lin es subs in \<open>auto dest: list_all2_lengthD\<close>)
  have 3: "ok (processTuple s' True) (\<lambda>(p, s'). p = Some (lin_prob (Lin (valid_entries (vs ! 0) es))))"
    if "top_col vs' ts" "top_inv vs' (valid_entries (vs ! 0) es) seen' s'" "\<forall>(x, p, subs) \<in> set (valid_entries (vs ! 0) es). length subs = length ts" for vs' seen' s'
  proof (cases "top_open vs' (valid_entries (vs ! 0) es) s'")
    case True
    then have "calculating s'" by (simp add: top_open_def scanning_def)
    then show ?thesis using close_block(1) [OF that(1) True that(3)] by (simp add: processTuple_def)
  next
    case False
    then have "top_closed vs' (valid_entries (vs ! 0) es) s'" using that(2) by (simp add: top_inv_def)
    then show ?thesis by (simp add: processTuple_def top_closed_def del: lin_prob.simps)
  qed
  have "enum_lin [Lin es] = map ((#) (x, p)) (enum_lin subs) @ concat (map (\<lambda>(x, p, subs). map ((#) (x, p)) (enum_lin subs)) es')" by (simp add: es)
  then show ?thesis using 1 2 3 by (simp add: fold_res_append del: lin_prob.simps) (blast intro: ok_mono)
qed

end
