(* ===== verification/Aggregation.thy ===== *)
theory Aggregation
  imports OneScan HashTable
begin

text \<open>
  The aggregations of \<^verbatim>\<open>SPROUT.c\<close> that give a signature the one-scan property. A starred first
  child is aggregated away: the variables of its column that occur with the same variables of the
  next column form a partition, the first of them represents it, and the probability table of the
  node lists the representatives with the probabilities of their partitions, in the order in
  which the lineage meets them (\<open>simpleAggregation\<close> for a leaf, \<open>complexAggregation\<close> for a
  subtree). \<open>schedule\<close> applies them bottom-up.

  A pointer to an entry of the probability table under construction is its index. The hash
  tables map variables to such pointers; a variable may be stored with a null pointer. The array
  of column nodes is passed and returned, since \<open>lookup\<close> consumes the tables of aggregated
  columns. Both loops compare with a previous tuple that is not initialised before the first
  one: its contents are the parameter \<open>junk\<close>.
\<close>

section \<open>Hash tables\<close>

definition HASHTABLESIZE :: int where "HASHTABLESIZE = 10000000"

text \<open>The remainder of C has the sign of the dividend.\<close>

definition hashFunction :: "int \<Rightarrow> int" where
  "hashFunction var = (if 0 \<le> var then var mod HASHTABLESIZE else - ((- var) mod HASHTABLESIZE))"

type_synonym vtable = "nat \<Rightarrow> (int \<times> nat option) list"

definition empty_vtable :: vtable where
  "empty_vtable = (\<lambda>_. [])"

definition vt_slot :: "int \<Rightarrow> nat res" where
  "vt_slot var = (if 0 \<le> hashFunction var then Inr (nat (hashFunction var)) else Inl OutOfBounds)"

fun find_pte :: "(int \<times> nat option) list \<Rightarrow> int \<Rightarrow> nat option" where
  "find_pte [] var = None"
| "find_pte ((v, pte) # list) var = (if v = var then pte else find_pte list var)"

definition getPTEFromHT :: "vtable \<Rightarrow> int \<Rightarrow> nat option res" where
  "getPTEFromHT ht var = rbind (vt_slot var) (\<lambda>i. Inr (find_pte (ht i) var))"

definition newVarEntry :: "int \<Rightarrow> nat option \<Rightarrow> vtable \<Rightarrow> vtable res" where
  "newVarEntry var pte ht = rbind (vt_slot var) (\<lambda>i. Inr (ht(i := ht i @ [(var, pte)])))"

definition insertIntoProbTable :: "probTableEntry list \<Rightarrow> probTableEntry \<Rightarrow> probTableEntry list" where
  "insertIntoProbTable t e = t @ [e]"

section \<open>Aggregation of a leaf\<close>

record aggState =
  ag_first :: bool                 \<comment> \<open>the counter is at the first tuple\<close>
  ag_pre :: "int list"
  ag_pt :: "probTableEntry list"
  ag_ht0 :: vtable
  ag_ht1 :: vtable

definition new_flag :: "bool \<Rightarrow> sigInfo \<Rightarrow> int \<Rightarrow> int \<Rightarrow> vtable \<Rightarrow> bool res" where
  "new_flag first info c p ht =
     rbind (if c \<noteq> p then
              rbind (isAValidVar info c) (\<lambda>valid.
              if valid then rbind (getPTEFromHT ht c) (\<lambda>pte. Inr (pte = None)) else Inr False)
            else Inr False) (\<lambda>new. Inr (first \<or> new))"

definition conj_entry :: "probTableEntry list \<Rightarrow> nat option \<Rightarrow> real \<Rightarrow> probTableEntry list res" where
  "conj_entry t pte q =
     rbind (deref pte) (\<lambda>k.
     rbind (aread t k) (\<lambda>e.
     awrite t k (e\<lparr>probability := indeEventConjunc (probability e) q\<rparr>)))"

definition simple_step :: "nat \<Rightarrow> nat \<Rightarrow> sigInfo \<Rightarrow> varprob \<Rightarrow> aggState \<times> sigInfo \<Rightarrow> (aggState \<times> sigInfo) res" where
  "simple_step pos0 pos1 info1 = (\<lambda>(vs, ps) (a, info0).
     rbind (aread vs pos0) (\<lambda>c0.
     rbind (aread ps pos0) (\<lambda>p0.
     rbind (aread vs pos1) (\<lambda>c1.
     rbind (aread (ag_pre a) 0) (\<lambda>pre0.
     rbind (aread (ag_pre a) 1) (\<lambda>pre1.
     rbind (new_flag (ag_first a) info0 c0 pre0 (ag_ht0 a)) (\<lambda>newX.
     rbind (new_flag (ag_first a) info1 c1 pre1 (ag_ht1 a)) (\<lambda>newY.
     rbind (if newX \<and> newY then
              rbind (lookup info0 c0 p0) (\<lambda>(q, info0).
              rbind (newVarEntry c1 (Some (length (ag_pt a))) (ag_ht1 a)) (\<lambda>ht1.
              rbind (newVarEntry c0 (Some (length (ag_pt a))) (ag_ht0 a)) (\<lambda>ht0.
              Inr (a\<lparr>ag_pt := insertIntoProbTable (ag_pt a) \<lparr>repre = c0, probability = q\<rparr>, ag_ht0 := ht0, ag_ht1 := ht1\<rparr>, info0))))
            else if newX then
              rbind (getPTEFromHT (ag_ht1 a) c1) (\<lambda>pte.
              rbind (newVarEntry c0 pte (ag_ht0 a)) (\<lambda>ht0.
              rbind (lookup info0 c0 p0) (\<lambda>(q, info0).
              rbind (conj_entry (ag_pt a) pte q) (\<lambda>t.
              Inr (a\<lparr>ag_pt := t, ag_ht0 := ht0\<rparr>, info0)))))
            else if newY then
              rbind (getPTEFromHT (ag_ht0 a) c0) (\<lambda>pte.
              rbind (newVarEntry c1 pte (ag_ht1 a)) (\<lambda>ht1.
              Inr (a\<lparr>ag_ht1 := ht1\<rparr>, info0)))
            else Inr (a, info0)) (\<lambda>(a, info0).
     Inr (a\<lparr>ag_first := False, ag_pre := [c0, c1]\<rparr>, info0))))))))))"

text \<open>The first argument is the leaf that is aggregated, the second the node its partitions are read off from.\<close>

definition simpleAggregation :: "(nat \<Rightarrow> int) \<Rightarrow> sigInfo \<Rightarrow> sigInfo \<Rightarrow> varprob list \<Rightarrow> sigInfo res" where
  "simpleAggregation junk info0 info1 lineage =
     rbind (fold_res (simple_step (si_pos info0) (si_pos info1) info1) lineage
       (\<lparr>ag_first = True, ag_pre = map junk [0..<2], ag_pt = [], ag_ht0 = empty_vtable, ag_ht1 = empty_vtable\<rparr>, info0)) (\<lambda>(a, info0).
     Inr (info0\<lparr>pt := Some (ag_pt a)\<rparr>))"

section \<open>Aggregation of a subtree\<close>

text \<open>
  The columns are those of the subtree followed by the node its partitions are read off from
  (column \<open>posY\<close>). The fields that the code shares with \<open>processTuple\<close> are a \<open>stateData\<close>:
  \<open>close_cols\<close>, \<open>load_sum\<close>, \<open>conj_sum\<close> and \<open>change_at\<close> are the same statements.
\<close>

record caState =
  ca_s :: stateData
  ca_pt :: "probTableEntry list"
  ca_ht0 :: vtable
  ca_ht1 :: vtable

definition reload :: "nat \<Rightarrow> stateData \<Rightarrow> stateData res" where
  "reload posY s = for_upto posY (\<lambda>i s. rbind (load_sum i s) (\<lambda>s. rbind (awrite (tempSum s) i 0) (\<lambda>ts. Inr (s\<lparr>tempSum := ts\<rparr>)))) s"

text \<open>
  The code from the label \<^verbatim>\<open>insert\<close> on, for the first column of change \<open>i\<close>; \<open>at_end\<close> says that
  there is no tuple left. A first column that heads no other is not closed at the end: the
  code then asks for the next tuple for ever.
\<close>

definition ca_insert :: "nat \<Rightarrow> bool \<Rightarrow> caState \<Rightarrow> caState res" where
  "ca_insert i at_end a =
     rbind (close_cols i (ca_s a)) (\<lambda>s.
     rbind (var_at s i) (\<lambda>info.
     if si_domain info > 0 \<or> NoOfVars s = 1 then
       rbind (aread (sd_sum s) i) (\<lambda>si.
       rbind (getProduct info si (readySumList s)) (\<lambda>(product, plist).
       rbind (if i \<noteq> 0 then
                rbind (aread (tempSum s) i) (\<lambda>ti.
                rbind (awrite (tempSum s) i (indeEventConjunc ti product)) (\<lambda>ts.
                Inr (a\<lparr>ca_s := s\<lparr>readySumList := plist, tempSum := ts\<rparr>\<rparr>)))
              else
                rbind (aread (preTuple s) 0) (\<lambda>p.
                rbind (getPTEFromHT (ca_ht0 a) p) (\<lambda>pte.
                rbind (conj_entry (ca_pt a) pte product) (\<lambda>t.
                Inr (a\<lparr>ca_s := s\<lparr>readySumList := plist\<rparr>, ca_pt := t\<rparr>))))) (\<lambda>a.
       if at_end then Inr a
       else
         let s = (ca_s a)\<lparr>sd_cursor := i + si_domain info\<rparr> in
         rbind (fold_res load_sum [i..<Suc (sd_cursor s)] s) (\<lambda>s. Inr (a\<lparr>ca_s := s\<rparr>)))))
     else if at_end then Inl OutOfFuel
     else rbind (conj_sum i s) (\<lambda>s. Inr (a\<lparr>ca_s := s\<lparr>sd_cursor := i\<rparr>\<rparr>))))"

definition ca_tables :: "bool \<Rightarrow> bool \<Rightarrow> int \<Rightarrow> int \<Rightarrow> caState \<Rightarrow> caState res" where
  "ca_tables newX newY c0 cY a =
     (if newX \<and> newY then
        rbind (newVarEntry cY (Some (length (ca_pt a))) (ca_ht1 a)) (\<lambda>ht1.
        rbind (newVarEntry c0 (Some (length (ca_pt a))) (ca_ht0 a)) (\<lambda>ht0.
        Inr (a\<lparr>ca_pt := insertIntoProbTable (ca_pt a) \<lparr>repre = c0, probability = 0\<rparr>, ca_ht0 := ht0, ca_ht1 := ht1\<rparr>)))
      else if newX then
        rbind (getPTEFromHT (ca_ht1 a) cY) (\<lambda>pte.
        rbind (newVarEntry c0 pte (ca_ht0 a)) (\<lambda>ht0. Inr (a\<lparr>ca_ht0 := ht0\<rparr>)))
      else if newY then
        rbind (getPTEFromHT (ca_ht0 a) c0) (\<lambda>pte.
        rbind (newVarEntry cY pte (ca_ht1 a)) (\<lambda>ht1. Inr (a\<lparr>ca_ht1 := ht1\<rparr>)))
      else Inr a)"

definition ca_columns :: "caState \<Rightarrow> caState res" where
  "ca_columns a =
     (let s = ca_s a in
      rbind (first_index (Suc (sd_cursor s)) (change_at s) 0) (\<lambda>i.
      if i > sd_cursor s then Inr a
      else if i = sd_cursor s then rbind (conj_sum i s) (\<lambda>s. Inr (a\<lparr>ca_s := s\<rparr>))
      else ca_insert i False a))"

definition complex_step :: "nat list \<Rightarrow> varprob \<Rightarrow> caState \<Rightarrow> caState res" where
  "complex_step pos = (\<lambda>(vs, ps) a.
     rbind (gather pos vs) (\<lambda>cur.
     rbind (gather pos ps) (\<lambda>curp.
     let s = (ca_s a)\<lparr>counter := counter (ca_s a) + 1, curTuple := cur, curTupleProb := curp\<rparr>;
         first = (counter s = 1); posY = NoOfVars s - 1 in
     rbind (aread cur 0) (\<lambda>c0.
     rbind (aread cur posY) (\<lambda>cY.
     rbind (aread (preTuple s) 0) (\<lambda>pre0.
     rbind (aread (preTuple s) posY) (\<lambda>preY.
     rbind (var_at s 0) (\<lambda>info0.
     rbind (var_at s posY) (\<lambda>infoY.
     rbind (new_flag first info0 c0 pre0 (ca_ht0 a)) (\<lambda>newX.
     rbind (new_flag first infoY cY preY (ca_ht1 a)) (\<lambda>newY.
     rbind (ca_tables newX newY c0 cY a) (\<lambda>a.
     rbind (if first then
              rbind (reload posY (s\<lparr>calculating := True\<rparr>)) (\<lambda>s.
              rbind (memcpy_tuple s) (\<lambda>s. ca_columns (a\<lparr>ca_s := s\<rparr>)))
            else if c0 \<noteq> pre0 \<and> calculating s then ca_insert 0 False (a\<lparr>ca_s := s\<rparr>)
            else
              let s = (if c0 \<noteq> pre0 then s\<lparr>calculating := newX\<rparr> else s) in
              if calculating s then ca_columns (a\<lparr>ca_s := s\<rparr>) else Inr (a\<lparr>ca_s := s\<rparr>)) (\<lambda>a.
     rbind (if newX then reload posY (ca_s a) else Inr (ca_s a)) (\<lambda>s.
     rbind (memcpy_tuple s) (\<lambda>s. Inr (a\<lparr>ca_s := s\<rparr>))))))))))))))))"

text \<open>
  The local list of sums is not initialised before the first insertion; the model starts with the
  empty list, whose head and tail are an error to read.
\<close>

definition complexAggregation :: "(nat \<Rightarrow> int) \<Rightarrow> sigInfo list \<Rightarrow> varprob list \<Rightarrow> sigInfo list res" where
  "complexAggregation junk vars lineage =
     (let n = length vars;
          s = palloc0_stateData\<lparr>NoOfVars := n, sd_vars := Ptr vars, sd_sum := replicate n 0, tempSum := replicate n 0,
            preTuple := map junk [0..<n], sd_cursor := n - 2\<rparr>
      in
      rbind (fold_res (complex_step (map si_pos vars)) lineage
        \<lparr>ca_s = s, ca_pt = [], ca_ht0 = empty_vtable, ca_ht1 = empty_vtable\<rparr>) (\<lambda>a.
      if lineage = [] then Inr vars
      else
        rbind (ca_insert 0 True a) (\<lambda>a.
        rbind (pread (sd_vars (ca_s a))) (\<lambda>vs.
        Inr (upd_first (\<lambda>info. info\<lparr>pt := Some (ca_pt a)\<rparr>) vs)))))"

section \<open>The schedule\<close>

text \<open>The nodes of the array are those of the tree: \<open>put_leaves\<close> writes the array back.\<close>

fun put_leaves :: "sigNode \<Rightarrow> sigInfo list \<Rightarrow> sigNode \<times> sigInfo list"
  and put_leaves_children :: "sigNode list \<Rightarrow> sigInfo list \<Rightarrow> sigNode list \<times> sigInfo list" where
  "put_leaves (SigNode i cs) vs =
     (if isLeaf i then case vs of [] \<Rightarrow> (SigNode i cs, []) | v # vs \<Rightarrow> (SigNode v cs, vs)
      else let (cs', vs) = put_leaves_children cs vs in (SigNode i cs', vs))"
| "put_leaves_children [] vs = ([], vs)"
| "put_leaves_children (c # cs) vs =
     (let (c', vs) = put_leaves c vs; (cs', vs) = put_leaves_children cs vs in (c' # cs', vs))"

text \<open>The last step of \<open>schedule\<close>, for a node whose children have the one-scan property.\<close>

definition aggregate_first :: "(nat \<Rightarrow> int) \<Rightarrow> varprob list \<Rightarrow> sigInfo \<Rightarrow> sigNode list \<Rightarrow> sigNode res" where
  "aggregate_first junk lineage i cs =
     (case cs of
        [] \<Rightarrow> Inl NullPointer
      | child # sibs \<Rightarrow>
          rbind (case sibs of [] \<Rightarrow> Inl NullPointer | sib # _ \<Rightarrow> get1stLeafChild sib) (\<lambda>infoY.
          rbind (if isLeaf (node_info child) then
                   rbind (simpleAggregation junk (node_info child) infoY lineage) (\<lambda>info. Inr (upd_info (\<lambda>_. info) child))
                 else
                   rbind (complexAggregation junk (fillLeafNode child @ [infoY]) lineage) (\<lambda>vs.
                   let child = fst (put_leaves child vs) in
                   rbind (get1stLeafChild child) (\<lambda>firstDesc.
                   Inr (upd_info (\<lambda>info. info\<lparr>si_pos := si_pos firstDesc, si_type := si_type firstDesc, pt := pt firstDesc,
                     si_domain := si_domain firstDesc, varsToCombine := si_domain firstDesc\<rparr>) child)))) (\<lambda>child.
          let child = upd_info (\<lambda>info. info\<lparr>isLeaf := True, withStar := False, si_type := AGGREGATED\<rparr>) child in
          Inr (calDomain (calSib (SigNode i (child # sibs)))))))"

fun schedule :: "(nat \<Rightarrow> int) \<Rightarrow> varprob list \<Rightarrow> sigNode \<Rightarrow> sigNode res"
  and schedule_children :: "(nat \<Rightarrow> int) \<Rightarrow> varprob list \<Rightarrow> sigNode list \<Rightarrow> sigNode list res" where
  "schedule junk lineage (SigNode i cs) =
     rbind (is1Scan (SigNode i cs)) (\<lambda>b.
     if b then Inr (SigNode i cs)
     else
       rbind (schedule_children junk lineage cs) (\<lambda>cs.
       rbind (is1Scan (SigNode i cs)) (\<lambda>b.
       if b then Inr (SigNode i cs) else aggregate_first junk lineage i cs)))"
| "schedule_children junk lineage [] = Inr []"
| "schedule_children junk lineage (c # cs) =
     rbind (is1Scan c) (\<lambda>b.
     rbind (if b then Inr c else schedule junk lineage c) (\<lambda>c'.
     rbind (schedule_children junk lineage cs) (\<lambda>cs'. Inr (c' # cs'))))"

section \<open>The tables are finite maps\<close>

text \<open>
  Variables are identifiers of the sequence \<^verbatim>\<open>varid\<close> and thus natural numbers; a table whose
  pointers are not null implements the interface \<open>var_index\<close>.
\<close>

definition vt_inv :: "vtable \<Rightarrow> bool" where
  "vt_inv ht \<longleftrightarrow> (\<forall>i. \<forall>(v, pte) \<in> set (ht i). pte \<noteq> None)"

definition vt_lookup :: "vtable \<Rightarrow> nat \<Rightarrow> nat option" where
  "vt_lookup ht v = find_pte (ht (nat (hashFunction (int v)))) (int v)"

lemma hashFunction_nat: "0 \<le> hashFunction (int v)"
  by (simp add: hashFunction_def HASHTABLESIZE_def)

lemma find_pte_append:
  "find_pte (xs @ [(u, Some i)]) v = (if find_pte xs v = None \<and> u = v \<and> (\<forall>(w, p) \<in> set xs. p \<noteq> None) then Some i else find_pte xs v)"
  if "\<forall>(w, p) \<in> set xs. p \<noteq> None" for u v
  using that by (induction xs) auto

lemma find_pte_new:
  "\<forall>(w, p) \<in> set xs. p \<noteq> None \<Longrightarrow> find_pte xs u = None \<Longrightarrow> find_pte (xs @ [(u, Some i)]) = (find_pte xs)(u := Some i)"
  by (rule ext) (simp add: find_pte_append)

interpretation vt: var_index vt_inv vt_lookup "\<lambda>_ _. True" "\<lambda>ht v. getPTEFromHT ht (int v)" "\<lambda>ht v i. newVarEntry (int v) (Some i) ht"
proof unfold_locales
  fix s v
  show "getPTEFromHT s (int v) = Inr (vt_lookup s v)" by (simp add: getPTEFromHT_def vt_slot_def hashFunction_nat vt_lookup_def)
next
  fix s v i t
  assume s: "vt_inv s" "vt_lookup s v = None" "newVarEntry (int v) (Some i) s = Inr t"
  then have t: "t = s(nat (hashFunction (int v)) := s (nat (hashFunction (int v))) @ [(int v, Some i)])"
    by (simp add: newVarEntry_def vt_slot_def hashFunction_nat)
  have "vt_inv t" using s(1) by (auto simp: t vt_inv_def)
  moreover have "vt_lookup t u = ((vt_lookup s)(v \<mapsto> i)) u" for u
    using s(1,2) by (auto simp: t vt_lookup_def vt_inv_def find_pte_append)
  ultimately show "vt_inv t \<and> vt_lookup t = (vt_lookup s)(v \<mapsto> i)" by blast
next
  fix s v i
  show "\<exists>t. newVarEntry (int v) (Some i) s = Inr t" by (simp add: newVarEntry_def vt_slot_def hashFunction_nat)
qed

lemma vt_put:
  assumes "vt_inv s" "vt_lookup s v = None"
  obtains t where "newVarEntry (int v) (Some i) s = Inr t" "vt_inv t" "vt_lookup t = (vt_lookup s)(v \<mapsto> i)"
  using vt.insert_sound [OF assms] by (auto simp: newVarEntry_def vt_slot_def hashFunction_nat)

section \<open>Partitions\<close>

text \<open>
  Entries of the first column that head the same lineage form a partition; \<open>grouped\<close> lists the
  partitions in the order of their first entries, each with the probability that one of its
  entries holds.
\<close>

fun group_add :: "int \<times> real \<times> lin list \<Rightarrow> (int \<times> real \<times> lin list) list \<Rightarrow> (int \<times> real \<times> lin list) list" where
  "group_add (x, p, subs) [] = [(x, p, subs)]"
| "group_add (x, p, subs) ((r, q, s) # gs) =
     (if s = subs then (r, indeEventConjunc q p, s) # gs else (r, q, s) # group_add (x, p, subs) gs)"

definition grouped :: "(int \<times> real \<times> lin list) list \<Rightarrow> (int \<times> real \<times> lin list) list" where
  "grouped es = foldl (\<lambda>gs e. group_add e gs) [] es"

definition rep_table :: "(int \<times> real \<times> lin list) list \<Rightarrow> probTableEntry list" where
  "rep_table gs = map (\<lambda>(r, q, s). \<lparr>repre = r, probability = q\<rparr>) gs"

abbreviation subs_of :: "int \<times> real \<times> lin list \<Rightarrow> lin list" where
  "subs_of e \<equiv> snd (snd e)"

lemma grouped_snoc: "grouped (es @ [e]) = group_add e (grouped es)"
  by (simp add: grouped_def)

lemma group_add_new: "subs \<notin> subs_of ` set gs \<Longrightarrow> group_add (x, p, subs) gs = gs @ [(x, p, subs)]"
  by (induction gs) auto

lemma group_add_old:
  assumes "distinct (map subs_of gs)" "k < length gs" "subs_of (gs ! k) = subs"
  shows "group_add (x, p, subs) gs = gs[k := (fst (gs ! k), indeEventConjunc (fst (snd (gs ! k))) p, subs)]"
  using assms
proof (induction gs arbitrary: k)
  case (Cons g gs)
  obtain r q s where g: "g = (r, q, s)" by (cases g)
  show ?case
  proof (cases k)
    case 0
    then show ?thesis using Cons.prems by (simp add: g)
  next
    case (Suc j)
    then have "s \<noteq> subs" using Cons.prems by (auto simp: g)
    then show ?thesis using Cons.IH [of j] Cons.prems Suc by (simp add: g)
  qed
qed simp

abbreviation rep_of :: "int \<times> real \<times> lin list \<Rightarrow> int \<times> lin list" where
  "rep_of e \<equiv> (fst e, subs_of e)"

lemma group_add_reps:
  assumes "distinct (map subs_of gs)"
  shows "map rep_of (group_add e gs) = (if subs_of e \<in> subs_of ` set gs then map rep_of gs else map rep_of gs @ [rep_of e])"
proof (cases "subs_of e \<in> subs_of ` set gs")
  case True
  then obtain k where "k < length gs" "subs_of (gs ! k) = subs_of e" by (auto simp: in_set_conv_nth)
  then show ?thesis using True group_add_old [OF assms, of k "subs_of e" "fst e" "fst (snd e)"] by (simp add: map_update list_update_same_conv)
next
  case False
  then show ?thesis using group_add_new [of "subs_of e" gs "fst e" "fst (snd e)"] by simp
qed

lemma group_add_subs:
  assumes "distinct (map subs_of gs)"
  shows "map subs_of (group_add e gs) = (if subs_of e \<in> subs_of ` set gs then map subs_of gs else map subs_of gs @ [subs_of e])"
  using arg_cong [OF group_add_reps [OF assms, of e], where f = "map snd"] by (auto simp: comp_def split: if_splits)

lemma grouped_subs: "distinct (map subs_of (grouped es)) \<and> subs_of ` set (grouped es) = subs_of ` set es"
proof (induction es rule: rev_induct)
  case (snoc e es)
  have "subs_of ` set (group_add e (grouped es)) = subs_of ` set (es @ [e])"
    unfolding set_map [symmetric] using group_add_subs [of "grouped es" e] snoc by auto
  moreover have "distinct (map subs_of (group_add e (grouped es)))" using group_add_subs [of "grouped es" e] snoc by auto
  ultimately show ?case by (simp only: grouped_snoc)
qed (simp add: grouped_def)

section \<open>The aggregation of a leaf builds the partitions\<close>

definition stored :: "tuple \<Rightarrow> varprob" where
  "stored t = (map fst t, map snd t)"

text \<open>The variables of the second column that occur with an entry.\<close>

definition partners :: "lin list \<Rightarrow> int list" where
  "partners subs = map (\<lambda>u. fst (hd u)) (enum_lin subs)"

text \<open>Two lineages below entries are the same or share no partner; all variables are natural numbers.\<close>

definition partitioned :: "(int \<times> real \<times> lin list) list \<Rightarrow> bool" where
  "partitioned es \<longleftrightarrow> distinct (map fst es) \<and> (\<forall>e \<in> set es. 0 \<le> fst e \<and> (\<forall>y \<in> set (partners (subs_of e)). 0 \<le> y)) \<and>
     (\<forall>e \<in> set es. \<forall>e' \<in> set es. subs_of e \<noteq> subs_of e' \<longrightarrow> set (partners (subs_of e)) \<inter> set (partners (subs_of e')) = {})"

text \<open>\<open>part es k s\<close>: partition \<open>k\<close> is that of the lineage \<open>s\<close>.\<close>

definition part :: "(int \<times> real \<times> lin list) list \<Rightarrow> nat \<Rightarrow> lin list \<Rightarrow> bool" where
  "part es k s \<longleftrightarrow> k < length (grouped es) \<and> subs_of (grouped es ! k) = s"

lemma part_ex: "s \<in> subs_of ` set es \<Longrightarrow> \<exists>k. part es k s"
proof -
  assume "s \<in> subs_of ` set es"
  then have "s \<in> subs_of ` set (grouped es)" using grouped_subs [of es] by simp
  then show ?thesis unfolding part_def by (metis image_iff in_set_conv_nth)
qed

lemma part_in: "part es k s \<Longrightarrow> s \<in> subs_of ` set es"
  using grouped_subs [of es] nth_mem by (fastforce simp: part_def)

lemma part_unique: "part es k s \<Longrightarrow> part es j s \<Longrightarrow> k = j"
  using grouped_subs [of es] distinct_map_nth_eq by (fastforce simp: part_def)

lemma map_nth_part: "part es k s \<longleftrightarrow> k < length (map subs_of (grouped es)) \<and> map subs_of (grouped es) ! k = s"
  by (auto simp: part_def)

lemma part_snoc:
  "part (es @ [e]) k s \<longleftrightarrow> part es k s \<or> subs_of e \<notin> subs_of ` set es \<and> k = length (grouped es) \<and> s = subs_of e"
  unfolding map_nth_part grouped_snoc using group_add_subs [of "grouped es" e] grouped_subs [of es] by (auto simp: nth_append less_Suc_eq)

text \<open>
  The tables hold exactly the variables seen, each with the number of its partition; \<open>sy\<close> has the
  variables seen in the second column, each with the lineage it belongs to.
\<close>

definition agg_inv :: "(int \<times> real \<times> lin list) list \<Rightarrow> (int \<times> lin list) set \<Rightarrow> aggState \<Rightarrow> bool" where
  "agg_inv es sy a \<longleftrightarrow> es \<noteq> [] \<and> \<not> ag_first a \<and> (\<exists>y s. ag_pre a = [fst (last es), y] \<and> (y, s) \<in> sy) \<and>
     ag_pt a = rep_table (grouped es) \<and> vt_inv (ag_ht0 a) \<and> vt_inv (ag_ht1 a) \<and>
     (\<forall>x k. vt_lookup (ag_ht0 a) x = Some k \<longleftrightarrow> (\<exists>e \<in> set es. fst e = int x \<and> part es k (subs_of e))) \<and>
     (\<forall>y k. vt_lookup (ag_ht1 a) y = Some k \<longleftrightarrow> (\<exists>s. (int y, s) \<in> sy \<and> part es k s)) \<and>
     (\<forall>y s. (y, s) \<in> sy \<longrightarrow> s \<in> subs_of ` set es)"

lemma new_flag_plain:
  assumes "si_type info = NOTAGGREGATED" "vt_inv ht"
  shows "new_flag first info (int c) p ht = Inr (first \<or> int c \<noteq> p \<and> vt_lookup ht c = None)"
  using assms vt.find_eq [OF assms(2), of c] by (simp add: new_flag_def isAValidVar_def)

lemma agg_lookup1:
  assumes "agg_inv es sy a" "\<And>s. (int y, s) \<in> sy \<Longrightarrow> False"
  shows "vt_lookup (ag_ht1 a) y = None"
  using assms by (cases "vt_lookup (ag_ht1 a) y") (auto simp: agg_inv_def)

lemma agg_known1:
  assumes "agg_inv es sy a" "(int y, s) \<in> sy"
  obtains k where "vt_lookup (ag_ht1 a) y = Some k" "part es k s"
proof -
  have "s \<in> subs_of ` set es" using assms unfolding agg_inv_def by blast
  then obtain k where k: "part es k s" using part_ex by blast
  then have "vt_lookup (ag_ht1 a) y = Some k" using assms unfolding agg_inv_def by blast
  with k that show thesis by blast
qed

lemma agg_known0:
  assumes "agg_inv es sy a" "e \<in> set es" "fst e = int x"
  obtains k where "vt_lookup (ag_ht0 a) x = Some k" "part es k (subs_of e)"
proof -
  obtain k where k: "part es k (subs_of e)" using part_ex assms(2) by blast
  then have "vt_lookup (ag_ht0 a) x = Some k" using assms unfolding agg_inv_def by blast
  with k that show thesis by blast
qed

text \<open>A further tuple of the last entry.\<close>

lemma simple_step_same:
  assumes inv: "agg_inv es sy a" and i: "si_type info0 = NOTAGGREGATED" "si_type info1 = NOTAGGREGATED"
    and e: "last es = (int x, p, subs)" and y: "\<And>s. (int y, s) \<in> sy \<Longrightarrow> s = subs"
  shows "ok (simple_step 0 1 info1 (stored ((int x, p) # (int y, q) # w)) (a, info0)) (\<lambda>(a', info'). agg_inv es (insert (int y, subs) sy) a' \<and> info' = info0)"
proof -
  have ne: "es \<noteq> []" using inv by (simp add: agg_inv_def)
  have le: "(int x, p, subs) \<in> set es" using last_in_set [OF ne] e by simp
  obtain pre1 s1 where pre: "ag_pre a = [int x, pre1]" "(pre1, s1) \<in> sy" using inv e by (auto simp: agg_inv_def)
  have v: "vt_inv (ag_ht0 a)" "vt_inv (ag_ht1 a)" "\<not> ag_first a" using inv by (simp_all add: agg_inv_def)
  have X: "new_flag (ag_first a) info0 (int x) (int x) (ag_ht0 a) = Inr False" using v by (simp add: new_flag_def)
  show ?thesis
  proof (cases "(int y, subs) \<in> sy")
    case True
    then obtain k where "vt_lookup (ag_ht1 a) y = Some k" using agg_known1 [OF inv] by metis
    then have "simple_step 0 1 info1 (stored ((int x, p) # (int y, q) # w)) (a, info0) = Inr (a\<lparr>ag_first := False, ag_pre := [int x, int y]\<rparr>, info0)"
      using pre X new_flag_plain [OF i(2) v(2), of "ag_first a" y pre1] v(3) by (simp add: simple_step_def stored_def)
    then show ?thesis using inv True e by (auto simp: agg_inv_def insert_absorb)
  next
    case False
    then have no: "vt_lookup (ag_ht1 a) y = None" using agg_lookup1 [OF inv, of y] y by blast
    have "pre1 \<noteq> int y" using pre(2) y False by auto
    then have Y: "new_flag (ag_first a) info1 (int y) pre1 (ag_ht1 a) = Inr True" using new_flag_plain [OF i(2) v(2), of "ag_first a" y pre1] no by simp
    obtain k where k: "vt_lookup (ag_ht0 a) x = Some k" "part es k subs" using agg_known0 [OF inv le] by auto
    obtain ht where ht: "newVarEntry (int y) (Some k) (ag_ht1 a) = Inr ht" "vt_inv ht" "vt_lookup ht = (vt_lookup (ag_ht1 a))(y \<mapsto> k)"
      by (rule vt_put [OF v(2) no])
    have "simple_step 0 1 info1 (stored ((int x, p) # (int y, q) # w)) (a, info0) =
        Inr (a\<lparr>ag_ht1 := ht, ag_first := False, ag_pre := [int x, int y]\<rparr>, info0)"
      using pre X Y k(1) ht(1) vt.find_eq [OF v(1), of x] by (simp add: simple_step_def stored_def)
    moreover have "vt_lookup ht z = Some j \<longleftrightarrow> (\<exists>s. (int z, s) \<in> insert (int y, subs) sy \<and> part es j s)" for z j
      using inv ht(3) k(2) part_unique [of es k subs j] no y by (auto simp: agg_inv_def)
    moreover have "subs \<in> subs_of ` set es" using le by force
    ultimately show ?thesis using inv e ht(2) by (auto simp: agg_inv_def)
  qed
qed

lemma rep_table_old:
  assumes "part es k subs"
  shows "conj_entry (rep_table (grouped es)) (Some k) p = Inr (rep_table (grouped (es @ [(x, p, subs)])))"
proof -
  have k: "k < length (grouped es)" "subs_of (grouped es ! k) = subs" using assms by (simp_all add: part_def)
  obtain r q where g: "grouped es ! k = (r, q, subs)" using k(2) by (cases "grouped es ! k") auto
  have "grouped (es @ [(x, p, subs)]) = (grouped es)[k := (r, indeEventConjunc q p, subs)]"
    using group_add_old [OF conjunct1 [OF grouped_subs] k] by (simp add: grouped_snoc g)
  then show ?thesis using k(1) by (simp add: conj_entry_def rep_table_def g map_update)
qed

lemma rep_table_new:
  assumes "subs \<notin> subs_of ` set es"
  shows "insertIntoProbTable (rep_table (grouped es)) \<lparr>repre = x, probability = p\<rparr> = rep_table (grouped (es @ [(x, p, subs)]))"
    "length (rep_table (grouped es)) = length (grouped es)"
  using group_add_new [of subs "grouped es" x p] grouped_subs [of es] assms
  by (simp_all add: insertIntoProbTable_def rep_table_def grouped_snoc)

text \<open>The first tuple of an entry, in a partition that is known or a new one.\<close>

lemma simple_step_old:
  assumes inv: "agg_inv es sy a" and i: "si_type info0 = NOTAGGREGATED" "si_type info1 = NOTAGGREGATED"
    and x: "int x \<notin> fst ` set es" and y: "(int y, subs) \<in> sy"
  shows "ok (simple_step 0 1 info1 (stored ((int x, p) # (int y, q) # w)) (a, info0))
    (\<lambda>(a', info'). agg_inv (es @ [(int x, p, subs)]) sy a' \<and> info' = info0)"
proof -
  let ?e = "(int x, p, subs)"
  have ne: "es \<noteq> []" and pt: "ag_pt a = rep_table (grouped es)" using inv by (simp_all add: agg_inv_def)
  obtain pre1 s1 where pre: "ag_pre a = [fst (last es), pre1]" "(pre1, s1) \<in> sy" using inv by (auto simp: agg_inv_def)
  have v: "vt_inv (ag_ht0 a)" "vt_inv (ag_ht1 a)" "\<not> ag_first a" using inv by (simp_all add: agg_inv_def)
  have no: "vt_lookup (ag_ht0 a) x = None" using inv x by (cases "vt_lookup (ag_ht0 a) x") (auto simp: agg_inv_def image_iff)
  have "int x \<noteq> fst (last es)" using x last_in_set [OF ne] by auto
  then have X: "new_flag (ag_first a) info0 (int x) (fst (last es)) (ag_ht0 a) = Inr True" using new_flag_plain [OF i(1) v(1)] no by simp
  obtain k where k: "vt_lookup (ag_ht1 a) y = Some k" "part es k subs" using agg_known1 [OF inv y] .
  then have Y: "new_flag (ag_first a) info1 (int y) pre1 (ag_ht1 a) = Inr False" using new_flag_plain [OF i(2) v(2)] v(3) by simp
  obtain ht where ht: "newVarEntry (int x) (Some k) (ag_ht0 a) = Inr ht" "vt_inv ht" "vt_lookup ht = (vt_lookup (ag_ht0 a))(x \<mapsto> k)"
    by (rule vt_put [OF v(1) no])
  have old: "subs \<in> subs_of ` set es" by (rule part_in [OF k(2)])
  have "simple_step 0 1 info1 (stored ((int x, p) # (int y, q) # w)) (a, info0) =
      Inr (a\<lparr>ag_pt := rep_table (grouped (es @ [?e])), ag_ht0 := ht, ag_first := False, ag_pre := [int x, int y]\<rparr>, info0)"
    using pre X Y k(1) ht(1) vt.find_eq [OF v(2), of y] i(1) rep_table_old [OF k(2), of p "int x"] pt by (simp add: simple_step_def stored_def lookup_def)
  moreover have "vt_lookup ht z = Some j \<longleftrightarrow> (\<exists>e \<in> set (es @ [?e]). fst e = int z \<and> part (es @ [?e]) j (subs_of e))" for z j
  proof -
    have "part es k subs \<Longrightarrow> part es j subs \<Longrightarrow> k = j" by (rule part_unique)
    moreover have "vt_lookup (ag_ht0 a) z = Some j \<longleftrightarrow> (\<exists>e \<in> set es. fst e = int z \<and> part es j (subs_of e))" using inv unfolding agg_inv_def by blast
    moreover have "part (es @ [?e]) j s \<longleftrightarrow> part es j s" for s using old by (simp add: part_snoc)
    ultimately show ?thesis using k(2) x ht(3) by (auto simp: image_iff)
  qed
  moreover have "vt_lookup (ag_ht1 a) z = Some j \<longleftrightarrow> (\<exists>s. (int z, s) \<in> sy \<and> part (es @ [?e]) j s)" for z j
    using inv old by (simp add: agg_inv_def part_snoc)
  moreover have "\<forall>y s. (y, s) \<in> sy \<longrightarrow> s \<in> subs_of ` set (es @ [?e])" using inv by (simp add: agg_inv_def)
  ultimately show ?thesis using v ht(2) y ne by (auto simp: agg_inv_def)
qed

definition agg_start :: "aggState \<Rightarrow> bool" where
  "agg_start a \<longleftrightarrow> ag_first a \<and> length (ag_pre a) = 2 \<and> ag_pt a = [] \<and> ag_ht0 a = empty_vtable \<and> ag_ht1 a = empty_vtable"

lemma simple_step_new:
  assumes inv: "if es = [] then agg_start a \<and> sy = {} else agg_inv es sy a"
    and i: "si_type info0 = NOTAGGREGATED" "si_type info1 = NOTAGGREGATED"
    and x: "int x \<notin> fst ` set es" and new: "subs \<notin> subs_of ` set es" and y: "\<And>s. (int y, s) \<notin> sy"
  shows "ok (simple_step 0 1 info1 (stored ((int x, p) # (int y, q) # w)) (a, info0))
    (\<lambda>(a', info'). agg_inv (es @ [(int x, p, subs)]) (insert (int y, subs) sy) a' \<and> info' = info0)"
proof -
  let ?e = "(int x, p, subs)" and ?k = "length (grouped es)"
  have v: "vt_inv (ag_ht0 a)" "vt_inv (ag_ht1 a)" "ag_pt a = rep_table (grouped es)" "length (ag_pre a) = 2"
    using inv by (auto simp: agg_inv_def agg_start_def vt_inv_def empty_vtable_def rep_table_def grouped_def split: if_splits)
  have t0: "vt_lookup (ag_ht0 a) z = Some j \<longleftrightarrow> (\<exists>e \<in> set es. fst e = int z \<and> part es j (subs_of e))" for z j
    using inv by (auto simp: agg_inv_def agg_start_def vt_lookup_def empty_vtable_def split: if_splits)
  have t1: "vt_lookup (ag_ht1 a) z = Some j \<longleftrightarrow> (\<exists>s. (int z, s) \<in> sy \<and> part es j s)" for z j
    using inv by (auto simp: agg_inv_def agg_start_def vt_lookup_def empty_vtable_def split: if_splits)
  have sy: "s \<in> subs_of ` set es" if "(z, s) \<in> sy" for z s using inv that by (auto simp: agg_inv_def split: if_splits)
  have no: "vt_lookup (ag_ht0 a) x = None" "vt_lookup (ag_ht1 a) y = None"
    using t0 [of x] t1 [of y] x y by (auto simp: image_iff not_Some_eq [symmetric] simp del: not_Some_eq)
  have X: "new_flag (ag_first a) info0 (int x) (ag_pre a ! 0) (ag_ht0 a) = Inr True"
    using inv x no(1) last_in_set [of es] new_flag_plain [OF i(1) v(1)]
    by (cases "es = []") (auto simp: agg_start_def agg_inv_def new_flag_plain)
  have Y: "new_flag (ag_first a) info1 (int y) (ag_pre a ! 1) (ag_ht1 a) = Inr True"
    using inv y no(2) new_flag_plain [OF i(2) v(2)] by (cases "es = []") (auto simp: agg_start_def agg_inv_def)
  obtain h0 where h0: "newVarEntry (int x) (Some ?k) (ag_ht0 a) = Inr h0" "vt_inv h0" "vt_lookup h0 = (vt_lookup (ag_ht0 a))(x \<mapsto> ?k)"
    by (rule vt_put [OF v(1) no(1)])
  obtain h1 where h1: "newVarEntry (int y) (Some ?k) (ag_ht1 a) = Inr h1" "vt_inv h1" "vt_lookup h1 = (vt_lookup (ag_ht1 a))(y \<mapsto> ?k)"
    by (rule vt_put [OF v(2) no(2)])
  have "simple_step 0 1 info1 (stored ((int x, p) # (int y, q) # w)) (a, info0) =
      Inr (a\<lparr>ag_pt := rep_table (grouped (es @ [?e])), ag_ht0 := h0, ag_ht1 := h1, ag_first := False, ag_pre := [int x, int y]\<rparr>, info0)"
    using X Y h0(1) h1(1) i(1) rep_table_new(1) [OF new, of "int x" p] rep_table_new(2) [OF new] v(3,4) by (simp add: simple_step_def stored_def lookup_def)
  moreover have ps: "part (es @ [?e]) j s \<longleftrightarrow> part es j s \<or> j = ?k \<and> s = subs" for j s using new by (simp add: part_snoc)
  have pin: "part es j s \<Longrightarrow> s \<in> subs_of ` set es \<and> j < ?k" for j s using part_in by (auto simp: part_def)
  have "vt_lookup h0 z = Some j \<longleftrightarrow> (\<exists>e \<in> set (es @ [?e]). fst e = int z \<and> part (es @ [?e]) j (subs_of e))" for z j
    using t0 [of z j] x new pin [of j subs] unfolding ps by (auto simp: h0(3) image_iff)
  moreover have "vt_lookup h1 z = Some j \<longleftrightarrow> (\<exists>s. (int z, s) \<in> insert (int y, subs) sy \<and> part (es @ [?e]) j s)" for z j
    using t1 [of z j] y new sy pin [of j subs] unfolding ps by (auto simp: h1(3))
  moreover have "\<forall>z s. (z, s) \<in> insert (int y, subs) sy \<longrightarrow> s \<in> subs_of ` set (es @ [?e])" using sy by auto
  ultimately show ?thesis using h0(2) h1(2) by (auto simp: agg_inv_def)
qed

lemma simple_steps_same:
  assumes "agg_inv es sy a" "si_type info0 = NOTAGGREGATED" "si_type info1 = NOTAGGREGATED" "last es = (int x, p, subs)"
    and "\<forall>u \<in> set us. u \<noteq> [] \<and> 0 \<le> fst (hd u) \<and> (\<forall>s. (fst (hd u), s) \<in> sy \<longrightarrow> s = subs)"
  shows "ok (fold_res (simple_step 0 1 info1) (map (\<lambda>u. stored ((int x, p) # u)) us) (a, info0))
    (\<lambda>(a', info'). agg_inv es (sy \<union> (\<lambda>u. (fst (hd u), subs)) ` set us) a' \<and> info' = info0)"
  using assms(1,5)
proof (induction us arbitrary: a sy)
  case (Cons u us)
  obtain y q w where u: "u = (int y, q) # w" using Cons.prems(2) by (cases u) (auto, metis nonneg_int_cases)
  have "ok (simple_step 0 1 info1 (stored ((int x, p) # u)) (a, info0)) (\<lambda>(a', info'). agg_inv es (insert (int y, subs) sy) a' \<and> info' = info0)"
    unfolding u by (rule simple_step_same [OF Cons.prems(1) assms(2-4)]) (use Cons.prems(2) u in auto)
  then obtain a' where a': "simple_step 0 1 info1 (stored ((int x, p) # u)) (a, info0) = Inr (a', info0)" "agg_inv es (insert (int y, subs) sy) a'"
    by (auto elim!: ok_E)
  have "ok (fold_res (simple_step 0 1 info1) (map (\<lambda>u. stored ((int x, p) # u)) us) (a', info0))
    (\<lambda>(a', info'). agg_inv es (insert (int y, subs) sy \<union> (\<lambda>u. (fst (hd u), subs)) ` set us) a' \<and> info' = info0)"
    by (rule Cons.IH [OF a'(2)]) (use Cons.prems(2) u in auto)
  then show ?case using a'(1) by (simp add: u)
qed simp

definition seen_pairs :: "(int \<times> real \<times> lin list) list \<Rightarrow> (int \<times> lin list) set" where
  "seen_pairs es = {(y, s). s \<in> subs_of ` set es \<and> y \<in> set (partners s)}"

definition agg_ok :: "(int \<times> real \<times> lin list) list \<Rightarrow> aggState \<Rightarrow> bool" where
  "agg_ok es a \<longleftrightarrow> (if es = [] then agg_start a else agg_inv es (seen_pairs es) a)"

lemma seen_pairs_snoc: "seen_pairs (es @ [(x, p, subs)]) = seen_pairs es \<union> (\<lambda>u. (fst (hd u), subs)) ` set (enum_lin subs)"
  by (auto simp: seen_pairs_def partners_def)

lemma simple_entry:
  assumes inv: "agg_ok es a" and i: "si_type info0 = NOTAGGREGATED" "si_type info1 = NOTAGGREGATED"
    and p: "partitioned (es @ [(x, p, subs)])" and ne: "enum_lin subs \<noteq> []" "[] \<notin> set (enum_lin subs)"
  shows "ok (fold_res (simple_step 0 1 info1) (map (\<lambda>u. stored ((x, p) # u)) (enum_lin subs)) (a, info0))
    (\<lambda>(a', info'). agg_ok (es @ [(x, p, subs)]) a' \<and> info' = info0)"
proof -
  let ?e = "(x, p, subs)"
  obtain u0 us where en: "enum_lin subs = u0 # us" using ne(1) by (cases "enum_lin subs") auto
  obtain n where n: "x = int n" using p by (auto simp: partitioned_def) (metis nonneg_int_cases)
  have pos: "0 \<le> fst (hd u)" if "u \<in> set (enum_lin subs)" for u using p that by (auto simp: partitioned_def partners_def)
  obtain y q w where u0: "u0 = (int y, q) # w" using ne(2) en pos [of u0] by (cases u0) (auto, metis nonneg_int_cases)
  have x: "int n \<notin> fst ` set es" using p by (auto simp: partitioned_def n)
  have uniq: "s = subs" if "(fst (hd u), s) \<in> seen_pairs es" "u \<in> set (enum_lin subs)" for u s
  proof (rule ccontr)
    assume "s \<noteq> subs"
    moreover have "s \<in> subs_of ` set es" "fst (hd u) \<in> set (partners s)" using that(1) by (auto simp: seen_pairs_def)
    ultimately have "set (partners s) \<inter> set (partners subs) = {}" using p by (force simp: partitioned_def)
    then show False using that by (auto simp: seen_pairs_def partners_def)
  qed
  have "ok (simple_step 0 1 info1 (stored ((x, p) # u0)) (a, info0)) (\<lambda>(a', info'). agg_inv (es @ [?e]) (insert (int y, subs) (seen_pairs es)) a' \<and> info' = info0)"
  proof (cases "subs \<in> subs_of ` set es")
    case True
    have y: "(int y, subs) \<in> seen_pairs es" using True en u0 by (force simp: seen_pairs_def partners_def)
    have "agg_inv es (seen_pairs es) a" using inv True by (auto simp: agg_ok_def split: if_splits)
    from simple_step_old [OF this i x y, of p q w] show ?thesis using y by (simp add: n u0 insert_absorb)
  next
    case False
    have inv': "if es = [] then agg_start a \<and> seen_pairs es = {} else agg_inv es (seen_pairs es) a"
      using inv by (auto simp: agg_ok_def seen_pairs_def split: if_splits)
    have y: "(int y, s) \<notin> seen_pairs es" for s using uniq [of u0 s] False en u0 by (auto simp: seen_pairs_def)
    show ?thesis using simple_step_new [OF inv' i x False y, of p q w] by (simp add: n u0)
  qed
  then obtain a' where a': "simple_step 0 1 info1 (stored ((x, p) # u0)) (a, info0) = Inr (a', info0)" "agg_inv (es @ [?e]) (insert (int y, subs) (seen_pairs es)) a'"
    by (auto elim!: ok_E)
  have "ok (fold_res (simple_step 0 1 info1) (map (\<lambda>u. stored ((int n, p) # u)) us) (a', info0))
    (\<lambda>(a', info'). agg_inv (es @ [?e]) (insert (int y, subs) (seen_pairs es) \<union> (\<lambda>u. (fst (hd u), subs)) ` set us) a' \<and> info' = info0)"
    by (rule simple_steps_same [OF a'(2) i]) (use ne(2) en pos uniq in \<open>auto simp: n\<close>)
  then show ?thesis using a'(1) by (simp add: en n u0 agg_ok_def seen_pairs_snoc)
qed

theorem simpleAggregation_ok:
  assumes i: "si_type info0 = NOTAGGREGATED" "si_type info1 = NOTAGGREGATED" "si_pos info0 = 0" "si_pos info1 = 1"
    and p: "partitioned es" "\<forall>e \<in> set es. enum_lin (subs_of e) \<noteq> [] \<and> [] \<notin> set (enum_lin (subs_of e))"
  shows "simpleAggregation junk info0 info1 (map stored (enum_lin [Lin es])) = Inr (info0\<lparr>pt := Some (rep_table (grouped es))\<rparr>)"
proof -
  have part: "partitioned ds" if "es = ds @ ds'" for ds ds' using p(1) by (auto simp: partitioned_def that)
  have run: "ok (fold_res (simple_step 0 1 info1) (concat (map (\<lambda>(x, p, subs). map (\<lambda>u. stored ((x, p) # u)) (enum_lin subs)) es2)) (a, info0))
      (\<lambda>(a', info'). agg_ok es a' \<and> info' = info0)" if "agg_ok es1 a" "es = es1 @ es2" for es1 es2 a
    using that
  proof (induction es2 arbitrary: es1 a)
    case (Cons e es2)
    obtain x q subs where e: "e = (x, q, subs)" by (cases e)
    have "partitioned (es1 @ [e])" using part [of "es1 @ [e]" es2] Cons.prems(2) by simp
    then have "ok (fold_res (simple_step 0 1 info1) (map (\<lambda>u. stored ((x, q) # u)) (enum_lin subs)) (a, info0))
        (\<lambda>(a', info'). agg_ok (es1 @ [e]) a' \<and> info' = info0)"
      unfolding e by (intro simple_entry [OF Cons.prems(1) i(1,2)]) (use p(2) Cons.prems(2) e in auto)
    then show ?case using Cons.IH [of "es1 @ [e]"] Cons.prems(2) by (auto simp: e fold_res_append elim!: ok_mono)
  qed simp
  have "map stored (enum_lin [Lin es]) = concat (map (\<lambda>(x, p, subs). map (\<lambda>u. stored ((x, p) # u)) (enum_lin subs)) es)"
    by (simp add: map_concat comp_def split_def)
  moreover have "ag_pt a = rep_table (grouped es)" if "agg_ok es a" for a
    using that by (auto simp: agg_ok_def agg_inv_def agg_start_def rep_table_def grouped_def split: if_splits)
  moreover have "agg_ok [] \<lparr>ag_first = True, ag_pre = map junk [0..<2], ag_pt = [], ag_ht0 = empty_vtable, ag_ht1 = empty_vtable\<rparr>"
    by (simp add: agg_ok_def agg_start_def)
  moreover from this have "ok (fold_res (simple_step 0 1 info1) (concat (map (\<lambda>(x, p, subs). map (\<lambda>u. stored ((x, p) # u)) (enum_lin subs)) es))
      (\<lparr>ag_first = True, ag_pre = map junk [0..<2], ag_pt = [], ag_ht0 = empty_vtable, ag_ht1 = empty_vtable\<rparr>, info0))
      (\<lambda>(a', info'). agg_ok es a' \<and> info' = info0)"
    by (rule run) simp
  ultimately show ?thesis using i(3,4) unfolding simpleAggregation_def by (auto elim!: ok_E simp del: enum_lin.simps)
qed

section \<open>The representatives are the partitions\<close>

lemma grouped_reps_snoc:
  "map rep_of (grouped (es @ [e])) = map rep_of (grouped es) @ (if subs_of e \<in> subs_of ` set es then [] else [rep_of e])"
  using group_add_reps [of "grouped es" e] grouped_subs [of es] by (simp add: grouped_snoc)

lemma grouped_reps_append:
  "\<exists>rs. map rep_of (grouped (es @ ds)) = map rep_of (grouped es) @ rs \<and> set rs \<subseteq> rep_of ` {e \<in> set ds. subs_of e \<notin> subs_of ` set es}"
proof (induction ds rule: rev_induct)
  case (snoc d ds)
  then obtain rs where rs: "map rep_of (grouped (es @ ds)) = map rep_of (grouped es) @ rs" "set rs \<subseteq> rep_of ` {e \<in> set ds. subs_of e \<notin> subs_of ` set es}" by blast
  have "map rep_of (grouped (es @ ds @ [d])) = map rep_of (grouped es) @ rs @ (if subs_of d \<in> subs_of ` set (es @ ds) then [] else [rep_of d])"
    using grouped_reps_snoc [of "es @ ds" d] rs(1) by simp
  then show ?case using rs(2) by (intro exI conjI) (assumption, auto)
qed simp

definition rep_info :: "sigInfo \<Rightarrow> (int \<times> real \<times> lin list) list \<Rightarrow> sigInfo" where
  "rep_info info gs = info\<lparr>si_type := AGGREGATED, pt := Some (rep_table gs)\<rparr>"

lemma rep_info_valid:
  "isAValidVar (rep_info info gs) x = Inr (case gs of [] \<Rightarrow> False | g # _ \<Rightarrow> fst g = x)"
  by (auto simp: isAValidVar_def rep_info_def rep_table_def AGGREGATED_def NOTAGGREGATED_def split: list.split)

lemma rep_info_lookup: "lookup (rep_info info ((r, q, s) # gs)) x p = Inr (q, rep_info info gs)"
  by (simp add: lookup_def rep_info_def rep_table_def AGGREGATED_def NOTAGGREGATED_def)

lemma valid_entries_suffix:
  assumes "distinct (map fst (es @ ds))" "G = drop (length (grouped es)) (grouped (es @ ds))"
  shows "valid_entries (rep_info info G) ds = G"
  using assms
proof (induction ds arbitrary: es G)
  case (Cons d ds)
  obtain x p s where d: "d = (x, p, s)" by (cases d)
  let ?n = "length (grouped es)"
  obtain rs where rs: "map rep_of (grouped (es @ d # ds)) = map rep_of (grouped (es @ [d])) @ rs"
    "set rs \<subseteq> rep_of ` {e \<in> set ds. subs_of e \<notin> subs_of ` set (es @ [d])}" using grouped_reps_append [of "es @ [d]" ds] by auto
  have IH: "valid_entries (rep_info info (drop (length (grouped (es @ [d]))) (grouped (es @ d # ds)))) ds = drop (length (grouped (es @ [d]))) (grouped (es @ d # ds))"
    using Cons.IH [of "es @ [d]"] Cons.prems(1) by simp
  show ?case
  proof (cases "s \<in> subs_of ` set es")
    case True
    then have r: "map rep_of (grouped (es @ [d])) = map rep_of (grouped es)" by (simp add: grouped_reps_snoc d)
    have len: "length (grouped (es @ [d])) = ?n" using arg_cong [OF r, of length] by simp
    have "map rep_of G = rs" using rs(1) r Cons.prems(2) by (simp add: drop_map [symmetric])
    have "fst g \<noteq> x" if "g \<in> set G" for g
    proof -
      have "rep_of g \<in> set rs" unfolding \<open>map rep_of G = rs\<close> [symmetric] set_map using that by (rule imageI)
      then obtain e where "e \<in> set ds" "fst g = fst e" using rs(2) by auto
      then show ?thesis using Cons.prems(1) by (auto simp: d)
    qed
    then have "isAValidVar (rep_info info G) x = Inr False" by (cases G) (auto simp: rep_info_valid)
    then show ?thesis using IH len Cons.prems(2) by (simp add: d)
  next
    case False
    then have r: "map rep_of (grouped (es @ [d])) = map rep_of (grouped es) @ [(x, s)]" by (simp add: grouped_reps_snoc d)
    have len: "length (grouped (es @ [d])) = Suc ?n" using arg_cong [OF r, of length] by simp
    have "map rep_of G = (x, s) # rs" using rs(1) r Cons.prems(2) by (simp add: drop_map [symmetric])
    then obtain q G' where G: "G = (x, q, s) # G'" by (cases G) auto
    have "tl G = drop (length (grouped (es @ [d]))) (grouped (es @ d # ds))" unfolding Cons.prems(2) len by (simp add: drop_Suc tl_drop)
    then have "valid_entries (rep_info info G') ds = G'" using IH by (simp add: G)
    then show ?thesis by (simp add: d G rep_info_valid rep_info_lookup)
  qed
qed simp

corollary valid_entries_grouped: "distinct (map fst es) \<Longrightarrow> valid_entries (rep_info info (grouped es)) es = grouped es"
  using valid_entries_suffix [of "[]" es] by (simp add: grouped_def)

section \<open>The probability of the partitions\<close>

lemma grouped_prob:
  "g \<in> set (grouped es) \<Longrightarrow> fst (snd g) = 1 - (\<Prod>e\<leftarrow>filter (\<lambda>e. subs_of e = subs_of g) es. 1 - fst (snd e))"
proof (induction es arbitrary: g rule: rev_induct)
  case (snoc e es)
  obtain x p s where e: "e = (x, p, s)" by (cases e)
  show ?case
  proof (cases "s \<in> subs_of ` set (grouped es)")
    case True
    then obtain k where k: "k < length (grouped es)" "subs_of (grouped es ! k) = s" by (auto simp: in_set_conv_nth)
    have g: "grouped (es @ [e]) = (grouped es)[k := (fst (grouped es ! k), indeEventConjunc (fst (snd (grouped es ! k))) p, s)]"
      using group_add_old [OF conjunct1 [OF grouped_subs] k] by (simp add: grouped_snoc e)
    obtain j where j: "j < length (grouped es)" "g = grouped (es @ [e]) ! j" using snoc.prems k(1) by (auto simp: g in_set_conv_nth)
    show ?thesis
    proof (cases "j = k")
      case True
      then have "g = (fst (grouped es ! k), indeEventConjunc (fst (snd (grouped es ! k))) p, s)" using j k(1) by (simp add: g)
      then show ?thesis using snoc.IH [OF nth_mem [OF k(1)]] k(2) by (simp add: e indeEventConjunc_def)
    next
      case False
      then have "subs_of (grouped es ! j) \<noteq> s" using distinct_map_nth_eq [OF conjunct1 [OF grouped_subs]] j(1) k by blast
      moreover have "g = grouped es ! j" using j False by (simp add: g)
      ultimately show ?thesis using snoc.IH [OF nth_mem [OF j(1)]] by (simp add: e)
    qed
  next
    case False
    then have g: "grouped (es @ [e]) = grouped es @ [e]" using group_add_new [OF False, of x p] by (simp add: grouped_snoc e)
    have "filter (\<lambda>e. subs_of e = s) es = []" using False grouped_subs [of es] by (auto simp: filter_empty_conv)
    moreover have "subs_of g' \<noteq> s" if "g' \<in> set (grouped es)" for g' using False that by blast
    moreover have "g = e \<or> g \<in> set (grouped es)" using snoc.prems by (auto simp: g)
    ultimately show ?thesis
    proof (cases "g = e")
      case False
      then have "g \<in> set (grouped es)" "subs_of g \<noteq> s" using \<open>g = e \<or> g \<in> set (grouped es)\<close> \<open>\<And>g'. g' \<in> set (grouped es) \<Longrightarrow> subs_of g' \<noteq> s\<close> by blast+
      then show ?thesis using snoc.IH [of g] by (auto simp: e)
    qed (simp add: e)
  qed
qed (simp add: grouped_def)

lemma distinct_concat_map:
  assumes "distinct xs" "\<And>x. x \<in> set xs \<Longrightarrow> distinct (V x)" "\<And>x y. x \<in> set xs \<Longrightarrow> y \<in> set xs \<Longrightarrow> x \<noteq> y \<Longrightarrow> set (V x) \<inter> set (V y) = {}"
  shows "distinct (concat (map V xs))"
  using assms
proof (induction xs)
  case (Cons x xs)
  have "set (V x) \<inter> set (V y) = {}" if "y \<in> set xs" for y using Cons.prems(1) Cons.prems(3) [of x y] that by auto
  then show ?case using Cons by auto
qed simp

text \<open>No variable occurs twice, apart from the lineages that entries of a partition share.\<close>

definition shared_distinct :: "(int \<times> real \<times> lin list) list \<Rightarrow> bool" where
  "shared_distinct es \<longleftrightarrow> distinct (map fst es) \<and>
     (\<forall>e \<in> set es. distinct (concat (map lin_vars (subs_of e))) \<and> (\<forall>e' \<in> set es. fst e' \<notin> set (concat (map lin_vars (subs_of e))) \<and>
       (subs_of e \<noteq> subs_of e' \<longrightarrow> set (concat (map lin_vars (subs_of e))) \<inter> set (concat (map lin_vars (subs_of e'))) = {})))"

lemma depends_conj: "depends X A \<Longrightarrow> depends Y B \<Longrightarrow> depends (X \<union> Y) (\<lambda>\<tau>. A \<tau> \<and> B \<tau>)"
  unfolding depends_def by (metis UnCI)

lemma Pr_var:
  assumes "wt_ok W" "(x, d) \<in> set W" "(1, p) \<in> set d"
  shows "Pr W (\<lambda>\<tau>. \<tau> x = 1) = p"
  using Pr_assign [OF assms, of "\<lambda>_. True"] Pr_True [OF assms(1)] by simp

lemma lin_prob_grouped:
  assumes W: "wt_ok W" "lin_in W (Lin es)" and sd: "shared_distinct es"
  shows "Pr W (lin_holds (Lin es)) = lin_prob (Lin (grouped es))"
proof -
  let ?mem = "\<lambda>g. filter (\<lambda>e. subs_of e = subs_of g) es" and ?sv = "\<lambda>g. concat (map lin_vars (subs_of g))"
  let ?A = "\<lambda>g \<tau>. \<exists>e \<in> set (?mem g). \<tau> (fst e) = 1" and ?B = "\<lambda>g \<tau>. \<forall>L \<in> set (subs_of g). lin_holds L \<tau>"
  let ?V = "\<lambda>g. map fst (?mem g) @ ?sv g"
  have gs: "subs_of ` set (grouped es) = subs_of ` set es" "distinct (map subs_of (grouped es))" using grouped_subs [of es] by simp_all
  have ent: "\<exists>e \<in> set es. subs_of e = subs_of g" if "g \<in> set (grouped es)" for g 
    using imageI [OF that, of subs_of] unfolding gs(1) by (rule imageE) (metis (no_types))
  have split: "lin_holds (Lin es) = (\<lambda>\<tau>. \<exists>g \<in> set (grouped es). ?A g \<tau> \<and> ?B g \<tau>)"
  proof
    fix \<tau>
    have "lin_holds (Lin es) \<tau> \<longleftrightarrow> (\<exists>e \<in> set es. \<tau> (fst e) = 1 \<and> ?B e \<tau>)" unfolding lin_holds_iff by (simp add: split_beta)
    also have "\<dots> \<longleftrightarrow> (\<exists>g \<in> set (grouped es). ?A g \<tau> \<and> ?B g \<tau>)"
    proof
      assume "\<exists>e \<in> set es. \<tau> (fst e) = 1 \<and> ?B e \<tau>"
      then obtain e where e: "e \<in> set es" "\<tau> (fst e) = 1" "?B e \<tau>" by blast
      have "subs_of e \<in> subs_of ` set (grouped es)" unfolding gs(1) using e(1) by (rule imageI)
      then obtain g where g: "subs_of e = subs_of g" "g \<in> set (grouped es)" by (rule imageE)
      have "?A g \<tau>" using e(1,2) g(1) by (intro bexI [of _ e]) simp_all
      moreover have "?B g \<tau>" using e(3) g(1) by simp
      ultimately show "\<exists>g \<in> set (grouped es). ?A g \<tau> \<and> ?B g \<tau>" using g(2) by blast
    next
      assume "\<exists>g \<in> set (grouped es). ?A g \<tau> \<and> ?B g \<tau>"
      then obtain g e where "e \<in> set es" "subs_of e = subs_of g" "\<tau> (fst e) = 1" "?B g \<tau>" by auto
      then show "\<exists>e \<in> set es. \<tau> (fst e) = 1 \<and> ?B e \<tau>" by (intro bexI [of _ e]) simp_all
    qed
    finally show "lin_holds (Lin es) \<tau> \<longleftrightarrow> (\<exists>g \<in> set (grouped es). ?A g \<tau> \<and> ?B g \<tau>)" .
  qed
  have sd1: "fst e' \<notin> set (?sv e)" if "e \<in> set es" "e' \<in> set es" for e e' using sd that unfolding shared_distinct_def by blast
  have sd2: "set (?sv e) \<inter> set (?sv e') = {}" if "e \<in> set es" "e' \<in> set es" "subs_of e \<noteq> subs_of e'" for e e'
    using sd that unfolding shared_distinct_def by blast
  have sd3: "distinct (?sv e)" if "e \<in> set es" for e using sd that unfolding shared_distinct_def by blast
  have dA: "depends (set (concat (map (\<lambda>e. [fst e]) (?mem g)))) (?A g)" for g by (rule depends_ex) (simp add: depends_def)
  have dB: "depends (set (?sv g)) (?B g)" for g by (rule depends_all) (rule lin_depends)
  have cm: "concat (map (\<lambda>e. [fst e]) xs) = map fst xs" for xs :: "(int \<times> real \<times> lin list) list" by (induction xs) auto
  have disj: "set (map fst (?mem g)) \<inter> set (?sv g) = {}" "distinct (?sv g)" "distinct (map fst (?mem g))" if "g \<in> set (grouped es)" for g
  proof -
    from ent [OF that] obtain e where e: "e \<in> set es" "subs_of e = subs_of g" ..
    show "set (map fst (?mem g)) \<inter> set (?sv g) = {}" using sd1 [OF e(1)] e(2) by auto
    show "distinct (?sv g)" using sd3 [OF e(1)] e(2) by simp
    show "distinct (map fst (?mem g))" using sd by (simp add: shared_distinct_def distinct_map_filter)
  qed
  have dist: "distinct (concat (map ?V (grouped es)))"
  proof (rule distinct_concat_map)
    show "distinct (grouped es)" using gs(2) by (simp add: distinct_map)
    show "distinct (?V g)" if "g \<in> set (grouped es)" for g using disj [OF that] by simp
    fix g h assume gh: "g \<in> set (grouped es)" "h \<in> set (grouped es)" "g \<noteq> h"
    then have ne: "subs_of g \<noteq> subs_of h" using gs(2) by (auto simp: distinct_map dest: inj_onD)
    obtain e f where ef: "e \<in> set es" "subs_of e = subs_of g" "f \<in> set es" "subs_of f = subs_of h" using ent gh by meson
    have "set (?sv g) \<inter> set (?sv h) = {}" using sd2 [OF ef(1,3)] ef(2,4) ne by simp
    moreover have "fst ` set es \<inter> set (?sv g) = {}" using sd1 [OF ef(1)] ef(2) by auto
    moreover have "fst ` set es \<inter> set (?sv h) = {}" using sd1 [OF ef(3)] ef(4) by auto
    moreover have "fst ` set (?mem g) \<inter> fst ` set (?mem h) = {}"
      using sd ne by (auto simp: shared_distinct_def distinct_map dest: inj_onD)
    moreover have "fst ` set (?mem k) \<subseteq> fst ` set es" for k by auto
    ultimately show "set (?V g) \<inter> set (?V h) = {}" by (simp add: Int_Un_distrib Int_Un_distrib2) blast
  qed
  have pr: "Pr W (\<lambda>\<tau>. ?A g \<tau> \<and> ?B g \<tau>) = fst (snd g) * prod_list (map lin_prob (subs_of g))" if g: "g \<in> set (grouped es)" for g
  proof -
    have var: "Pr W (\<lambda>\<tau>. \<tau> (fst e) = 1) = fst (snd e)" if "e \<in> set es" for e
      using bspec [OF W(2) [unfolded lin_in_iff] that] Pr_var [OF W(1)] by (cases e) auto
    have "Pr W (?A g) = 1 - (\<Prod>e\<leftarrow>?mem g. 1 - Pr W (\<lambda>\<tau>. \<tau> (fst e) = 1))"
      by (rule Pr_ex_indep [OF W(1), of "\<lambda>e. [fst e]"]) (use disj [OF g] in \<open>simp_all add: cm depends_def\<close>)
    also have "(\<Prod>e\<leftarrow>?mem g. 1 - Pr W (\<lambda>\<tau>. \<tau> (fst e) = 1)) = (\<Prod>e\<leftarrow>?mem g. 1 - fst (snd e))"
      using var by (auto intro!: arg_cong [where f = prod_list])
    finally have A: "Pr W (?A g) = fst (snd g)" using grouped_prob [OF g] by simp
    obtain e where e: "e \<in> set es" "subs_of e = subs_of g" using ent [OF g] by blast
    have "Pr W (?B g) = (\<Prod>L\<leftarrow>subs_of g. Pr W (lin_holds L))" by (rule Pr_all_indep [OF W(1) disj(2) [OF g] lin_depends])
    also have "\<dots> = prod_list (map lin_prob (subs_of g))"
    proof (rule arg_cong [where f = prod_list], rule map_cong [OF refl])
      fix L assume L: "L \<in> set (subs_of g)"
      have "distinct (lin_vars L)" using disj(2) [OF g] L by (simp add: distinct_concat_iff)
      moreover have "lin_in W L" using bspec [OF W(2) [unfolded lin_in_iff] e(1)] e(2) L by (cases e) auto
      ultimately show "Pr W (lin_holds L) = lin_prob L" by (intro lin_prob_Pr [OF W(1)])
    qed
    finally show ?thesis using Pr_indep [OF W(1) dA dB, of g g] disj(1) [OF g] A by (simp add: cm)
  qed
  have "depends (set (?V g)) (\<lambda>\<tau>. ?A g \<tau> \<and> ?B g \<tau>)" for g 
    using depends_conj [OF dA [of g, unfolded cm] dB [of g]] by simp
  from Pr_ex_indep [OF W(1) dist this] have "Pr W (lin_holds (Lin es)) = 1 - (\<Prod>g\<leftarrow>grouped es. 1 - Pr W (\<lambda>\<tau>. ?A g \<tau> \<and> ?B g \<tau>))"
    unfolding split .
  also have "(\<Prod>g\<leftarrow>grouped es. 1 - Pr W (\<lambda>\<tau>. ?A g \<tau> \<and> ?B g \<tau>)) = (\<Prod>g\<leftarrow>grouped es. 1 - fst (snd g) * prod_list (map lin_prob (subs_of g)))"
    using pr by (auto intro!: arg_cong [where f = prod_list])
  finally show ?thesis by (simp add: split_def)
qed

end
