(* ===== verification/Signature.thy ===== *)
theory Signature
  imports SigTree
begin

text \<open>
  Signatures of hierarchical queries (\<^verbatim>\<open>signature.c\<close>). \<open>geneSGList\<close> reads the equalities of the
  where clause and collects, for every join attribute, the list of its subgoals, that is the
  relations it joins. The query is hierarchical (\<open>isHQ\<close>) if any two of these lists are nested
  or disjoint. \<open>buildSGTree\<close> orders the lists by inclusion in a tree, \<open>buildSigTree\<close> turns it
  into the signature and \<open>addNonJoinedRelation\<close> adds the relations without a join;
  \<open>ProcessSignature\<close> does all of it.

  A list of subgoals (\<^verbatim>\<open>sgList\<close>, \<^verbatim>\<open>subGoal\<close>) is a list, the null pointer the empty one. The system
  catalog is a parameter: the attributes of a relation and its primary-key constraints.

  The lemmas show that the comparison of two subgoal lists is the comparison of their sets of
  relations, that \<open>isHQ\<close> decides the hierarchy, that the tree of \<open>buildSGTree\<close> has every list
  exactly once, and which signature \<open>ProcessSignature\<close> hands to the confidence computation.
\<close>

section \<open>Data\<close>

type_synonym sgList = "subGoal list list"

datatype A_Expr_Kind = AEXPR_OP | AEXPR_AND | AEXPR_OR | AEXPR_NOT | AEXPR_OP_ANY | AEXPR_OP_ALL | AEXPR_DISTINCT
  | AEXPR_NULLIF | AEXPR_OF | AEXPR_IN

datatype expr_node =
    A_Expr A_Expr_Kind "string list" "expr_node option" "expr_node option"    \<comment> \<open>kind, name, \<open>lexpr\<close>, \<open>rexpr\<close>\<close>
  | ColumnRef "string list"
  | OtherExpr

record sgInfo =
  sgn_isLeaf :: bool
  attrCount :: nat
  sglist :: sgList

datatype sgTreeNode = SgTreeNode (sgn_info: sgInfo) (sgn_children: "sgTreeNode list")

text \<open>
  What the catalog knows of a relation: its attributes, the columns of its primary-key
  constraints and its identifier.
\<close>

record cat_entry =
  cat_attrs :: "string list"
  cat_pkeys :: "string list list"
  rd_id :: nat

type_synonym catalog = "RangeVar \<Rightarrow> cat_entry option"

definition relation_openrv :: "catalog \<Rightarrow> RangeVar \<Rightarrow> cat_entry res" where
  "relation_openrv cat rv = (case cat rv of None \<Rightarrow> Inl (Elog ''relation does not exist'') | Some e \<Rightarrow> Inr e)"

section \<open>Lists\<close>

definition llast :: "'a list \<Rightarrow> 'a res" where
  "llast xs = (if xs = [] then Inl NullPointer else Inr (last xs))"

text \<open>\<^verbatim>\<open>strcmp(p, s) == 0\<close> for a pointer that may be null.\<close>

definition strcmp0 :: "string option \<Rightarrow> string \<Rightarrow> bool res" where
  "strcmp0 p s = rbind (deref p) (\<lambda>q. Inr (q = s))"

fun any_res :: "('a \<Rightarrow> bool res) \<Rightarrow> 'a list \<Rightarrow> bool res" where
  "any_res P [] = Inr False"
| "any_res P (x # xs) = rbind (P x) (\<lambda>b. if b then Inr True else any_res P xs)"

fun map_res :: "('a \<Rightarrow> 'b res) \<Rightarrow> 'a list \<Rightarrow> 'b list res" where
  "map_res f [] = Inr []"
| "map_res f (x # xs) = rbind (f x) (\<lambda>y. rbind (map_res f xs) (\<lambda>ys. Inr (y # ys)))"

lemma any_res_cong [fundef_cong]:
  "xs = ys \<Longrightarrow> (\<And>x. x \<in> set ys \<Longrightarrow> P x = Q x) \<Longrightarrow> any_res P xs = any_res Q ys"
  by (induction ys arbitrary: xs) (auto intro!: rbind_cong)

lemma map_res_cong [fundef_cong]:
  "xs = ys \<Longrightarrow> (\<And>x. x \<in> set ys \<Longrightarrow> f x = g x) \<Longrightarrow> map_res f xs = map_res g ys"
  by (induction ys arbitrary: xs) (auto intro!: rbind_cong)

section \<open>Subgoals of the where clause\<close>

text \<open>
  The relation an attribute comes from, with the attribute's name qualified when it was not. A
  relation of the wrong name is passed over; a comparison with an absent schema or catalog name
  dereferences a null pointer.
\<close>

fun getRelation :: "catalog \<Rightarrow> string list \<Rightarrow> from_item list \<Rightarrow> (from_item option \<times> string list) res" where
  "getRelation cat fs [] = Inr (None, fs)"
| "getRelation cat fs (RangeVarNode rv # rest) =
     (if length fs = 2 then
        if (case rv_alias rv of Some a \<Rightarrow> a | None \<Rightarrow> relname rv) = fs ! 0 then Inr (Some (RangeVarNode rv), fs)
        else getRelation cat fs rest
      else if length fs = 3 then
        rbind (strcmp0 (schemaname rv) (fs ! 0)) (\<lambda>b.
        if b \<and> relname rv = fs ! 1 then Inr (Some (RangeVarNode rv), fs) else getRelation cat fs rest)
      else if length fs = 4 then
        rbind (strcmp0 (catalogname rv) (fs ! 0)) (\<lambda>b.
        rbind (if b then strcmp0 (schemaname rv) (fs ! 1) else Inr False) (\<lambda>b.
        if b \<and> relname rv = fs ! 2 then Inr (Some (RangeVarNode rv), fs) else getRelation cat fs rest))
      else
        rbind (relation_openrv cat rv) (\<lambda>rel.
        rbind (any_res (\<lambda>a. rbind (llast fs) (\<lambda>f. Inr (a = f))) (cat_attrs rel)) (\<lambda>b.
        if b then
          Inr (Some (RangeVarNode rv),
            (case catalogname rv of None \<Rightarrow> [] | Some c \<Rightarrow> [c]) @ (case schemaname rv of None \<Rightarrow> [] | Some s \<Rightarrow> [s]) @ relname rv # fs)
        else getRelation cat fs rest)))"
| "getRelation cat fs (RangeSubselectNode _ # rest) = getRelation cat fs rest"
| "getRelation cat fs (OtherNode # rest) = getRelation cat fs rest"

definition newSubGoal :: "catalog \<Rightarrow> from_item list \<Rightarrow> string list \<Rightarrow> subGoal res" where
  "newSubGoal cat fromClause fs =
     rbind (getRelation cat fs fromClause) (\<lambda>(rel, fs'). Inr \<lparr>sg_fields = fs', sg_relation = rel\<rparr>)"

definition addNewSG :: "catalog \<Rightarrow> from_item list \<Rightarrow> subGoal list \<Rightarrow> string list \<Rightarrow> subGoal list res" where
  "addNewSG cat fromClause list fs =
     rbind (newSubGoal cat fromClause fs) (\<lambda>new. if list = [] then Inl NullPointer else Inr (list @ [new]))"

definition isSameAttr :: "subGoal list \<Rightarrow> string list \<Rightarrow> bool res" where
  "isSameAttr list fs =
     any_res (\<lambda>temp.
       if length (sg_fields temp) = length fs then Inr (sg_fields temp = fs)
       else rbind (llast (sg_fields temp)) (\<lambda>a. rbind (llast fs) (\<lambda>b. Inr (a = b)))) list"

text \<open>The loop over the subgoal lists; the flag is \<^verbatim>\<open>new_sgList\<close>.\<close>

fun add_to_list :: "catalog \<Rightarrow> from_item list \<Rightarrow> string list \<Rightarrow> string list \<Rightarrow> sgList \<Rightarrow> (bool \<times> sgList) res" where
  "add_to_list cat fromClause lf rf [] = Inr (True, [])"
| "add_to_list cat fromClause lf rf (temp # rest) =
     rbind (isSameAttr temp lf) (\<lambda>lIsSame.
     rbind (isSameAttr temp rf) (\<lambda>rIsSame.
     if lIsSame \<or> rIsSame then
       rbind (if lIsSame \<and> \<not> rIsSame then addNewSG cat fromClause temp rf
              else if \<not> lIsSame \<and> rIsSame then addNewSG cat fromClause temp lf
              else Inr temp) (\<lambda>temp'.
       Inr (False, temp' # rest))
     else rbind (add_to_list cat fromClause lf rf rest) (\<lambda>(new, rest'). Inr (new, temp # rest'))))"

definition add_equality :: "catalog \<Rightarrow> from_item list \<Rightarrow> string list \<Rightarrow> string list \<Rightarrow> sgList \<Rightarrow> sgList res" where
  "add_equality cat fromClause lf rf list =
     rbind (add_to_list cat fromClause lf rf list) (\<lambda>(new_sgList, list).
     if new_sgList then
       rbind (newSubGoal cat fromClause lf) (\<lambda>lnew.
       rbind (newSubGoal cat fromClause rf) (\<lambda>rnew. Inr ([lnew, rnew] # list)))
     else Inr list)"

text \<open>The node is cast to \<^verbatim>\<open>A_Expr\<close> unseen; an expression without a name is a connective.\<close>

fun geneSGList :: "catalog \<Rightarrow> from_item list \<Rightarrow> expr_node option \<Rightarrow> sgList \<Rightarrow> sgList res" where
  "geneSGList cat fromClause None sg_list = Inr []"
| "geneSGList cat fromClause (Some (A_Expr kind [] lexpr rexpr)) sg_list =
     rbind (geneSGList cat fromClause lexpr sg_list) (\<lambda>list. geneSGList cat fromClause rexpr list)"
| "geneSGList cat fromClause (Some (A_Expr kind (op # _) lexpr rexpr)) sg_list =
     (if op = ''='' then
        rbind (deref lexpr) (\<lambda>l.
        case l of
          ColumnRef lf \<Rightarrow>
            rbind (deref rexpr) (\<lambda>r.
            case r of ColumnRef rf \<Rightarrow> add_equality cat fromClause lf rf sg_list | _ \<Rightarrow> Inr sg_list)
        | _ \<Rightarrow> Inr sg_list)
      else Inr sg_list)"
| "geneSGList cat fromClause (Some (ColumnRef _)) sg_list = Inl BadCast"
| "geneSGList cat fromClause (Some OtherExpr) sg_list = Inl BadCast"

section \<open>Comparison of subgoal lists\<close>

text \<open>Two subgoals have the same relation if their names differ in the attribute at most.\<close>

definition sgInsgList :: "subGoal \<Rightarrow> subGoal list \<Rightarrow> bool" where
  "sgInsgList sg list \<longleftrightarrow>
     list_ex (\<lambda>temp. length (sg_fields temp) = length (sg_fields sg) \<and>
       list_all (\<lambda>i. sg_fields sg ! i = sg_fields temp ! i) [0..<length (sg_fields temp) - 1]) list"

definition sgListCount :: "sgList \<Rightarrow> nat" where
  "sgListCount list = length list"

definition sgCount :: "subGoal list \<Rightarrow> nat" where
  "sgCount list = length list"

datatype sgcmp = SG_EQUAL | SG_GREAT | SG_LESS | SG_DISJOINT | SG_INTERSECT | SG_UNKNOWCMP

definition sgListcmp :: "subGoal list \<Rightarrow> subGoal list \<Rightarrow> sgcmp" where
  "sgListcmp l1 l2 =
     (let joint = length (filter (\<lambda>temp. sgInsgList temp l2) l1); c1 = sgCount l1; c2 = sgCount l2 in
      if joint = c1 \<and> joint = c2 then SG_EQUAL
      else if joint = c1 \<and> joint < c2 then SG_LESS
      else if joint = c2 \<and> joint < c1 then SG_GREAT
      else if joint = 0 then SG_DISJOINT
      else if joint \<noteq> c2 \<and> joint \<noteq> c1 then SG_INTERSECT
      else SG_UNKNOWCMP)"

text \<open>A walk past the end of the list dereferences a null pointer.\<close>

fun getNthList :: "sgList \<Rightarrow> nat \<Rightarrow> subGoal list res" where
  "getNthList [] n = Inl NullPointer"
| "getNthList (l # list) 0 = Inr l"
| "getNthList (l # list) (Suc n) = getNthList list n"

fun rmNthList :: "sgList \<Rightarrow> nat \<Rightarrow> sgList res" where
  "rmNthList [] n = Inl NullPointer"
| "rmNthList (l # list) 0 = Inr list"
| "rmNthList (l # list) (Suc n) = rbind (rmNthList list n) (\<lambda>list'. Inr (l # list'))"

definition rmNthLists :: "sgList \<Rightarrow> bool list \<Rightarrow> nat \<Rightarrow> sgList res" where
  "rmNthLists list rm n =
     rbind (for_upto n (\<lambda>i (count, list).
       rbind (aread rm i) (\<lambda>b.
       if b then rbind (rmNthList list (i - count)) (\<lambda>list. Inr (count + 1, list)) else Inr (count, list))) (0, list)) (\<lambda>(_, list).
     Inr list)"

text \<open>\<^verbatim>\<open>for (i = 0; i < count - 1; i++) for (j = i + 1; j < count; j++) if (!P) return false;\<close>\<close>

definition all_pairs :: "(sgcmp \<Rightarrow> bool) \<Rightarrow> sgList \<Rightarrow> bool res" where
  "all_pairs P list =
     (let count = sgListCount list in
      all_res (\<lambda>i.
        rbind (getNthList list i) (\<lambda>l1.
        all_res (\<lambda>j. rbind (getNthList list j) (\<lambda>l2. Inr (P (sgListcmp l1 l2)))) [i + 1..<count])) [0..<count - 1])"

definition sameLists :: "sgList \<Rightarrow> bool res" where
  "sameLists list = (if sgListCount list = 1 then Inr True else all_pairs (\<lambda>c. c = SG_EQUAL) list)"

definition isHQ :: "sgList \<Rightarrow> bool res" where
  "isHQ list = all_pairs (\<lambda>c. c \<noteq> SG_INTERSECT) list"

section \<open>The tree of subgoal lists\<close>

definition findDisjoint :: "sgList \<Rightarrow> (sgList \<times> sgList) res" where
  "findDisjoint list =
     (case list of [] \<Rightarrow> Inl NullPointer
      | first # _ \<Rightarrow>
          let count = sgListCount list in
          rbind (fold_res (\<lambda>i (result, rm).
            rbind (getNthList list i) (\<lambda>cmp.
            if sgListcmp first cmp \<noteq> SG_DISJOINT then rbind (awrite rm i True) (\<lambda>rm. Inr (cmp # result, rm))
            else Inr (result, rm))) [1..<count] ([first], True # replicate (count - 1) False)) (\<lambda>(result, rm).
          rbind (rmNthLists list rm count) (\<lambda>newList. Inr (result, newList))))"

text \<open>A list is maximal if the comparison with none of the lists says \<open>SG_LESS\<close>.\<close>

definition is_maximal :: "sgList \<Rightarrow> nat \<Rightarrow> subGoal list \<Rightarrow> bool res" where
  "is_maximal list n l1 =
     for_upto n (\<lambda>j isMaximal. rbind (getNthList list j) (\<lambda>l2. Inr (if sgListcmp l1 l2 = SG_LESS then False else isMaximal))) True"

definition findMax :: "sgList \<Rightarrow> (sgList \<times> sgList) res" where
  "findMax list =
     (let count = sgListCount list in
      rbind (for_upto count (\<lambda>i (result, rm).
        rbind (getNthList list i) (\<lambda>l1.
        rbind (is_maximal list count l1) (\<lambda>isMaximal.
        if isMaximal then rbind (awrite rm i True) (\<lambda>rm. Inr (l1 # result, rm)) else Inr (result, rm))))
        ([], replicate count False)) (\<lambda>(result, rm).
      rbind (rmNthLists list rm count) (\<lambda>newList. Inr (result, newList))))"

section \<open>What the list operations return\<close>

lemma getNthList_in [simp]: "n < length list \<Longrightarrow> getNthList list n = Inr (list ! n)"
  by (induction list n rule: getNthList.induct) auto

lemma rmNthList_append: "rmNthList (xs @ l # ys) (length xs) = Inr (xs @ ys)"
  by (induction xs) auto

text \<open>The lists that are not marked.\<close>

definition kept :: "sgList \<Rightarrow> bool list \<Rightarrow> sgList" where
  "kept list rm = map fst (filter (\<lambda>(l, b). \<not> b) (zip list rm))"

lemma kept_Suc:
  "i < length list \<Longrightarrow> i < length rm \<Longrightarrow>
   kept (take (Suc i) list) (take (Suc i) rm) = kept (take i list) (take i rm) @ (if rm ! i then [] else [list ! i])"
  by (simp add: kept_def take_Suc_conv_app_nth)

lemma kept_length: "length rm = length list \<Longrightarrow> length (kept list rm) + length (filter id rm) = length list"
  by (induction rm list rule: list_induct2) (auto simp: kept_def)

lemma rmNthLists_eq:
  assumes "length rm = length list" "n = length list"
  shows "rmNthLists list rm n = Inr (kept list rm)"
proof -
  let ?I = "\<lambda>i (cnt, xs). cnt = length (filter id (take i rm)) \<and> xs = kept (take i list) (take i rm) @ drop i list"
  have "ok (for_upto n (\<lambda>i (cnt, list).
       rbind (aread rm i) (\<lambda>b.
       if b then rbind (rmNthList list (i - cnt)) (\<lambda>list. Inr (cnt + 1, list)) else Inr (cnt, list))) (0, list)) (?I n)"
  proof (rule ok_for_upto)
    fix i s
    assume i: "i < n" and I: "?I i s"
    obtain cnt xs where s: "s = (cnt, xs)" by (cases s)
    have "length (kept (take i list) (take i rm)) + length (filter id (take i rm)) = i"
      using kept_length [of "take i rm" "take i list"] assms i by simp
    then have "i - cnt = length (kept (take i list) (take i rm))" using I s by simp
    moreover have "xs = kept (take i list) (take i rm) @ list ! i # drop (Suc i) list"
      using I s i assms by (simp add: Cons_nth_drop_Suc)
    ultimately have "rmNthList xs (i - cnt) = Inr (kept (take i list) (take i rm) @ drop (Suc i) list)"
      using rmNthList_append by simp
    moreover have filter_take: "length (filter id (take (Suc i) rm)) = length (filter id (take i rm)) + (if rm ! i then 1 else 0)"
      using i assms by (simp add: take_Suc_conv_app_nth)
    ultimately show "ok (case s of (cnt, list) \<Rightarrow> rbind (aread rm i) (\<lambda>b.
        if b then rbind (rmNthList list (i - cnt)) (\<lambda>list. Inr (cnt + 1, list)) else Inr (cnt, list))) (?I (Suc i))"
      using i I assms by (simp add: s kept_Suc filter_take Cons_nth_drop_Suc)
  qed (simp add: kept_def)
  then show ?thesis using assms by (auto simp: rmNthLists_def elim!: ok_E)
qed

lemma kept_map: "kept list (map Q list) = filter (\<lambda>l. \<not> Q l) list"
  by (induction list) (auto simp: kept_def)

text \<open>A loop that collects the lists with a property and marks them.\<close>

definition marks :: "(subGoal list \<Rightarrow> bool) \<Rightarrow> sgList \<Rightarrow> nat \<Rightarrow> sgList \<times> bool list \<Rightarrow> bool" where
  "marks Q list i = (\<lambda>(result, rm). result = rev (filter Q (take i list)) \<and> rm = map Q (take i list) @ replicate (length list - i) False)"

lemma marks_step:
  assumes "marks Q list i (result, rm)" "i < length list"
  shows "Q (list ! i) \<Longrightarrow> i < length rm \<and> marks Q list (Suc i) (list ! i # result, rm[i := True])"
    and "\<not> Q (list ! i) \<Longrightarrow> marks Q list (Suc i) (result, rm)"
  using assms Suc_diff_Suc [OF assms(2)]
  by (auto simp: marks_def take_Suc_conv_app_nth list_update_append replicate_Suc [symmetric] simp del: replicate_Suc
      split: nat.splits) (auto simp: Suc_diff_Suc [symmetric])

definition below :: "sgList \<Rightarrow> subGoal list \<Rightarrow> bool" where
  "below list l \<longleftrightarrow> (\<exists>l2 \<in> set list. sgListcmp l l2 = SG_LESS)"

lemma is_maximal_eq:
  assumes "n = length list"
  shows "is_maximal list n l = Inr (\<not> below list l)"
proof -
  have "ok (is_maximal list n l) (\<lambda>b. b \<longleftrightarrow> (\<forall>l2 \<in> set (take n list). sgListcmp l l2 \<noteq> SG_LESS))"
    unfolding is_maximal_def by (rule ok_for_upto) (use assms in \<open>auto simp: take_Suc_conv_app_nth\<close>)
  then show ?thesis using assms by (auto simp: below_def elim!: ok_E)
qed

lemma findMax_eq: "findMax list = Inr (rev (filter (\<lambda>l. \<not> below list l) list), filter (below list) list)"
proof -
  let ?Q = "\<lambda>l. \<not> below list l"
  let ?f = "\<lambda>i (result, rm). rbind (getNthList list i) (\<lambda>l1.
        rbind (is_maximal list (length list) l1) (\<lambda>isMaximal.
        if isMaximal then rbind (awrite rm i True) (\<lambda>rm. Inr (l1 # result, rm)) else Inr (result, rm)))"
  have "ok (for_upto (length list) ?f ([], replicate (length list) False)) (marks ?Q list (length list))"
  proof (rule ok_for_upto)
    fix i s
    assume "i < length list" "marks ?Q list i s"
    then show "ok (?f i s) (marks ?Q list (Suc i))"
      using marks_step [of ?Q list i "fst s" "snd s"] by (cases s) (auto simp: is_maximal_eq)
  qed (simp add: marks_def)
  then show ?thesis
    by (auto simp: findMax_def sgListCount_def marks_def rmNthLists_eq kept_map comp_def elim!: ok_E)
qed

lemma sgInsgList_self: "sg \<in> set list \<Longrightarrow> sgInsgList sg list"
  by (auto simp: sgInsgList_def list_ex_iff list_all_iff)

lemma sgListcmp_self: "sgListcmp l l = SG_EQUAL"
  by (simp add: sgListcmp_def sgCount_def sgInsgList_self cong: filter_cong)

lemma findDisjoint_eq:
  "findDisjoint (l # list) = Inr (rev (l # filter (\<lambda>c. sgListcmp l c \<noteq> SG_DISJOINT) list), filter (\<lambda>c. sgListcmp l c = SG_DISJOINT) list)"
proof -
  let ?L = "l # list" and ?Q = "\<lambda>c. sgListcmp l c \<noteq> SG_DISJOINT"
  let ?f = "\<lambda>i (result, rm). rbind (getNthList ?L i) (\<lambda>cmp.
            if sgListcmp l cmp \<noteq> SG_DISJOINT then rbind (awrite rm i True) (\<lambda>rm. Inr (cmp # result, rm)) else Inr (result, rm))"
  have "ok (fold_res ?f [1..<length ?L] ([l], True # replicate (length ?L - 1) False)) (marks ?Q ?L (length ?L))"
  proof (rule ok_fold_upt)
    fix i s
    assume "i < length ?L" "marks ?Q ?L i s"
    then show "ok (?f i s) (marks ?Q ?L (Suc i))"
      using marks_step [of ?Q ?L i "fst s" "snd s"] by (cases s) auto
  qed (auto simp: marks_def sgListcmp_self)
  moreover have "kept ?L (True # map ?Q list) = filter (\<lambda>c. sgListcmp l c = SG_DISJOINT) list"
    using kept_map [of ?L ?Q] by (simp add: sgListcmp_self)
  ultimately show ?thesis
    by (auto simp: findDisjoint_def sgListCount_def marks_def rmNthLists_eq sgListcmp_self elim!: ok_E)
qed

section \<open>Building the trees\<close>

text \<open>A longest list is maximal, so the lists that remain for the children are fewer.\<close>

lemma below_length: "sgListcmp l1 l2 = SG_LESS \<Longrightarrow> length l1 < length l2"
  by (auto simp: sgListcmp_def Let_def sgCount_def split: if_splits)

lemma ex_maximal:
  assumes "list \<noteq> []"
  obtains l where "l \<in> set list" "\<not> below list l"
proof -
  have "Max (length ` set list) \<in> length ` set list" using assms by (intro Max_in) auto
  then obtain l where l: "l \<in> set list" "length l = Max (length ` set list)" by (metis imageE)
  moreover have "length l2 \<le> length l" if "l2 \<in> set list" for l2 unfolding l(2) using that by (intro Max_ge) auto
  then have "\<not> below list l" using below_length by (fastforce simp: below_def)
  ultimately show ?thesis using that by blast
qed

lemma findMax_shorter: "findMax list = Inr (mx, rest) \<Longrightarrow> list \<noteq> [] \<Longrightarrow> length rest < length list"
  using ex_maximal [of list] by (auto simp: findMax_eq intro: length_filter_less)

text \<open>\<^verbatim>\<open>while (list != NULL) { disjointSet = findDisjoint(list, &list); ... }\<close>\<close>

function disjoint_sets :: "sgList \<Rightarrow> sgList list res" where
  "disjoint_sets list =
     (if list = [] then Inr []
      else
        rbind (findDisjoint list) (\<lambda>(disjointSet, list').
        rbind (disjoint_sets list') (\<lambda>sets. Inr (disjointSet # sets))))"
  by pat_completeness auto
termination
proof (relation "measure length", simp)
  fix list x and d list' :: sgList
  assume "list \<noteq> []" "findDisjoint list = Inr x" "(d, list') = x"
  then show "(list', list) \<in> measure length"
    by (cases list) (auto simp: findDisjoint_eq less_Suc_eq_le)
qed

declare disjoint_sets.simps [simp del]

lemma disjoint_sets_eq:
  "disjoint_sets [] = Inr []"
  "disjoint_sets (l # list) =
     rbind (disjoint_sets (filter (\<lambda>c. sgListcmp l c = SG_DISJOINT) list)) (\<lambda>sets.
     Inr (rev (l # filter (\<lambda>c. sgListcmp l c \<noteq> SG_DISJOINT) list) # sets))"
  by (simp_all add: disjoint_sets.simps [of "[]"] disjoint_sets.simps [of "l # list"] findDisjoint_eq)

lemma disjoint_sets_mset:
  "\<exists>sets. disjoint_sets list = Inr sets \<and> mset (concat sets) = mset list"
proof (induction list rule: length_induct)
  case (1 list)
  show ?case
  proof (cases list)
    case (Cons l ls)
    let ?D = "\<lambda>c. sgListcmp l c = SG_DISJOINT"
    have "length (filter ?D ls) < length list" using Cons by (simp add: less_Suc_eq_le)
    then obtain sets where "disjoint_sets (filter ?D ls) = Inr sets" "mset (concat sets) = mset (filter ?D ls)" using 1 by blast
    moreover have "filter_mset (\<lambda>c. \<not> ?D c) (mset ls) + filter_mset ?D (mset ls) = mset ls"
      using multiset_partition [of "mset ls" ?D] by (simp add: union_commute)
    ultimately show ?thesis by (simp add: Cons disjoint_sets_eq)
  qed (simp add: disjoint_sets_eq)
qed

lemma disjoint_sets_le: "disjoint_sets list = Inr sets \<Longrightarrow> d \<in> set sets \<Longrightarrow> length d \<le> length list"
proof -
  assume "disjoint_sets list = Inr sets" and d: "d \<in> set sets"
  then have "mset (concat sets) = mset list" using disjoint_sets_mset [of list] by simp
  then have "sum_list (map length sets) = length list" by (metis length_concat mset_eq_length)
  moreover have "length d \<le> sum_list (map length sets)" using d by (intro member_le_sum_list) auto
  ultimately show ?thesis by simp
qed

text \<open>
  The tree below a node; the node that is passed has no field set but its subgoal lists, the
  children are built with the attribute count of their parent.
\<close>

function buildSGTree :: "sgList \<Rightarrow> nat \<Rightarrow> sgTreeNode res" where
  "buildSGTree list parentSGListCount =
     rbind (sameLists list) (\<lambda>same.
     if same then
       Inr (SgTreeNode \<lparr>sgn_isLeaf = True, attrCount = sgListCount list + parentSGListCount, sglist = list\<rparr> [])
     else
       rbind (findMax list) (\<lambda>(mx, list').
       let ac = sgListCount mx + parentSGListCount in
       rbind (disjoint_sets list') (\<lambda>sets.
       rbind (map_res (\<lambda>d. buildSGTree d ac) sets) (\<lambda>children.
       Inr (SgTreeNode \<lparr>sgn_isLeaf = False, attrCount = ac, sglist = mx\<rparr> children)))))"
  by pat_completeness auto
termination
proof (relation "measure (length \<circ> fst)", simp)
  fix list x mx list' sets d and p q :: nat and same
  assume *: "sameLists list = Inr same" "\<not> same" "findMax list = Inr x" "(mx, list') = x" "disjoint_sets list' = Inr sets" "d \<in> set sets"
  have "list \<noteq> []" using *(1,2) by (auto simp: sameLists_def all_pairs_def sgListCount_def)
  then have "length list' < length list" using findMax_shorter *(3,4) by auto
  then show "((d, q), list, p) \<in> measure (length \<circ> fst)"
    using disjoint_sets_le [OF *(5,6)] by simp
qed

declare buildSGTree.simps [simp del]

definition IsPK :: "catalog \<Rightarrow> subGoal \<Rightarrow> bool res" where
  "IsPK cat sg =
     rbind (llast (sg_fields sg)) (\<lambda>attr.
     rbind (deref (sg_relation sg)) (\<lambda>node.
     case node of
       RangeVarNode rv \<Rightarrow> rbind (relation_openrv cat rv) (\<lambda>rel. Inr (list_ex (list_ex (\<lambda>colName. colName = attr)) (cat_pkeys rel)))
     | _ \<Rightarrow> Inr False))"

definition nattr :: "catalog \<Rightarrow> subGoal \<Rightarrow> int res" where
  "nattr cat sg =
     rbind (deref (sg_relation sg)) (\<lambda>node.
     case node of
       RangeVarNode rv \<Rightarrow> rbind (relation_openrv cat rv) (\<lambda>rel. Inr (int (length (cat_attrs rel))))
     | _ \<Rightarrow> Inr (- 1))"

definition sgInChildSGLists :: "subGoal \<Rightarrow> sgTreeNode list \<Rightarrow> bool res" where
  "sgInChildSGLists sg children =
     any_res (\<lambda>child. case sglist (sgn_info child) of [] \<Rightarrow> Inl NullPointer | l # _ \<Rightarrow> Inr (sgInsgList sg l)) children"

text \<open>
  The loop over the subgoals links the previous child again when a subgoal has no node of its
  own, which makes that child its own sibling for the moment; a child of the subgoal tree then
  exists, and its node replaces the link.
\<close>

definition leaf_node :: "catalog \<Rightarrow> sgTreeNode \<Rightarrow> subGoal \<Rightarrow> sigNode list \<Rightarrow> sigNode list res" where
  "leaf_node cat sgNode sg nodes =
     rbind (sgInChildSGLists sg (sgn_children sgNode)) (\<lambda>b.
     if b then Inr nodes
     else
       rbind (nattr cat sg) (\<lambda>n.
       rbind (if int (attrCount (sgn_info sgNode)) = n then Inr True else IsPK cat sg) (\<lambda>key.
       Inr (nodes @ [SigNode (palloc0_sigNode\<lparr>isLeaf := True, withStar := \<not> key, si_sg := Some sg\<rparr>) []]))))"

fun buildSigTree :: "catalog \<Rightarrow> sgTreeNode \<Rightarrow> sigNode res" where
  "buildSigTree cat (SgTreeNode i cs) =
     (case sglist i of
        [] \<Rightarrow> Inr (SigNode palloc0_sigNode [])
      | sgs # _ \<Rightarrow>
          rbind (fold_res (leaf_node cat (SgTreeNode i cs)) sgs []) (\<lambda>leaves.
          rbind (map_res (buildSigTree cat) cs) (\<lambda>children.
          Inr (SigNode palloc0_sigNode (leaves @ children)))))"

section \<open>Relations without a join\<close>

fun sameRel :: "from_item \<Rightarrow> from_item \<Rightarrow> bool" where
  "sameRel (RangeVarNode rv1) (RangeVarNode rv2) =
     (case (rv_alias rv1, rv_alias rv2) of
        (None, Some _) \<Rightarrow> False
      | (Some _, None) \<Rightarrow> False
      | (Some a1, Some a2) \<Rightarrow> a1 = a2
      | (None, None) \<Rightarrow> catalogname rv1 = catalogname rv2 \<and> schemaname rv1 = schemaname rv2 \<and> relname rv1 = relname rv2)"
| "sameRel (RangeSubselectNode a1) (RangeSubselectNode a2) = (a1 = a2)"
| "sameRel _ _ = False"

fun relIsJoined :: "from_item \<Rightarrow> sgTreeNode \<Rightarrow> bool res" where
  "relIsJoined rel (SgTreeNode i cs) =
     (case sglist i of
        [] \<Rightarrow> any_res (relIsJoined rel) cs
      | sgs # _ \<Rightarrow> any_res (\<lambda>sg. rbind (deref (sg_relation sg)) (\<lambda>r. Inr (sameRel r rel))) sgs)"

text \<open>The grammar gives a catalog name only together with a schema name; the last case does not occur.\<close>

definition nodeGetFields :: "from_item \<Rightarrow> string list" where
  "nodeGetFields node =
     (case node of
        RangeVarNode rv \<Rightarrow>
          (case rv_alias rv of
             Some a \<Rightarrow> [a]
           | None \<Rightarrow>
               (case (catalogname rv, schemaname rv) of
                  (None, None) \<Rightarrow> [relname rv]
                | (None, Some s) \<Rightarrow> [s, relname rv]
                | (Some c, Some s) \<Rightarrow> [c, s, relname rv]
                | (Some c, None) \<Rightarrow> [c, [], relname rv]))
      | RangeSubselectNode a \<Rightarrow> [a]
      | OtherNode \<Rightarrow> []) @ [''fake'']"

definition copyFromList :: "from_item list \<Rightarrow> from_item list" where
  "copyFromList list = fold (\<lambda>node result. result @ [node]) list []"

definition non_joined_leaf :: "from_item \<Rightarrow> sigNode" where
  "non_joined_leaf node =
     SigNode (palloc0_sigNode\<lparr>isLeaf := True, withStar := True,
       si_sg := Some \<lparr>sg_fields = nodeGetFields node, sg_relation = Some node\<rparr>\<rparr>) []"

definition addNonJoinedRelation :: "sgTreeNode \<Rightarrow> sigNode \<Rightarrow> from_item list \<Rightarrow> sigNode res" where
  "addNonJoinedRelation sgRoot oldRoot frlist =
     rbind (fold_res (\<lambda>node nodes.
       rbind (relIsJoined node sgRoot) (\<lambda>b. Inr (if b then nodes else nodes @ [non_joined_leaf node]))) frlist []) (\<lambda>nodes.
     if nodes = [] then Inr oldRoot
     else
       let result = (if attrCount (sgn_info sgRoot) \<noteq> 0 then SigNode palloc0_sigNode [oldRoot] else oldRoot) in
       Inr (SigNode (node_info result) (nodes @ node_children result)))"

text \<open>The global variables of \<^verbatim>\<open>signature.h\<close>.\<close>

record sigGlobals =
  sgTreeRoot :: sgTreeNode
  sigTreeRoot :: sigNode
  isOneScan :: bool
  relList :: "from_item list"

text \<open>The signature with the fields of its leaves; \<open>conf_final\<close> builds it anew with the same calls.\<close>

definition new_signature :: "catalog \<Rightarrow> sgTreeNode \<Rightarrow> from_item list \<Rightarrow> sigNode res" where
  "new_signature cat sgt rels =
     rbind (buildSigTree cat sgt) (\<lambda>t.
     rbind (addNonJoinedRelation sgt t rels) (\<lambda>t.
     Inr (calDomain (calSib (snd (derivePos t 0))))))"

definition ProcessSignature :: "catalog \<Rightarrow> from_item list \<Rightarrow> sgList \<Rightarrow> sigGlobals res" where
  "ProcessSignature cat fromClause list =
     rbind (buildSGTree list 0) (\<lambda>sgt.
     let rels = copyFromList fromClause in
     rbind (new_signature cat sgt rels) (\<lambda>t.
     rbind (is1Scan t) (\<lambda>b.
     Inr \<lparr>sgTreeRoot = sgt, sigTreeRoot = t, isOneScan = b, relList = rels\<rparr>)))"

section \<open>Comparison as sets of relations\<close>

definition rel_of :: "subGoal \<Rightarrow> nat \<times> string list" where
  "rel_of sg = (length (sg_fields sg), butlast (sg_fields sg))"

definition rels :: "subGoal list \<Rightarrow> (nat \<times> string list) set" where
  "rels l = rel_of ` set l"

lemma rels_simps [simp]: "rels [] = {}" "rels (sg # l) = insert (rel_of sg) (rels l)"
  by (simp_all add: rels_def)

lemma sgInsgList_iff: "sgInsgList sg l \<longleftrightarrow> rel_of sg \<in> rels l"
proof -
  have "(length (sg_fields x) = length (sg_fields sg) \<and> (\<forall>i \<in> set [0..<length (sg_fields x) - 1]. sg_fields sg ! i = sg_fields x ! i)) \<longleftrightarrow> rel_of sg = rel_of x" for x
    by (auto simp: rel_of_def list_eq_iff_nth_eq nth_butlast)
  then show ?thesis unfolding sgInsgList_def list_ex_iff list_all_iff rels_def by blast
qed

lemma sgListcmp_sets:
  assumes "distinct (map rel_of l1)" "distinct (map rel_of l2)"
  shows "sgListcmp l1 l2 =
    (if rels l1 = rels l2 then SG_EQUAL else if rels l1 \<subset> rels l2 then SG_LESS else if rels l2 \<subset> rels l1 then SG_GREAT
     else if rels l1 \<inter> rels l2 = {} then SG_DISJOINT else SG_INTERSECT)"
proof -
  let ?A = "rels l1" and ?B = "rels l2"
  have fin: "finite ?A" "finite ?B" by (simp_all add: rels_def)
  have len: "length l1 = card ?A" "length l2 = card ?B"
    using distinct_card [OF assms(1)] distinct_card [OF assms(2)] by (simp_all add: rels_def)
  have "length (filter (\<lambda>x. rel_of x \<in> ?B) l1) = length (filter (\<lambda>r. r \<in> ?B) (map rel_of l1))" by (simp add: filter_map comp_def)
  also have "\<dots> = card (set (filter (\<lambda>r. r \<in> ?B) (map rel_of l1)))"
    by (rule distinct_card [symmetric]) (rule distinct_filter [OF assms(1)])
  also have "set (filter (\<lambda>r. r \<in> ?B) (map rel_of l1)) = ?A \<inter> ?B" by (auto simp: rels_def)
  finally have "length (filter (\<lambda>x. rel_of x \<in> ?B) l1) = card (?A \<inter> ?B)" .
  moreover have "card (?A \<inter> ?B) = card ?A \<longleftrightarrow> ?A \<subseteq> ?B" using fin by (metis Int_lower1 card_subset_eq inf.absorb_iff1)
  moreover have "card (?A \<inter> ?B) = card ?B \<longleftrightarrow> ?B \<subseteq> ?A" using fin by (metis Int_lower2 card_subset_eq inf.absorb_iff2)
  moreover have "card (?A \<inter> ?B) \<le> card ?A" "card (?A \<inter> ?B) \<le> card ?B" using fin by (auto intro: card_mono)
  moreover have "card (?A \<inter> ?B) = 0 \<longleftrightarrow> ?A \<inter> ?B = {}" using fin by simp
  ultimately show ?thesis unfolding sgListcmp_def Let_def sgCount_def sgInsgList_iff len by (auto simp: psubset_eq)
qed

lemma all_res_Inr: "(\<And>x. x \<in> set xs \<Longrightarrow> P x = Inr (Q x)) \<Longrightarrow> all_res P xs = Inr (\<forall>x \<in> set xs. Q x)"
  by (induction xs) auto

lemma all_pairs_eq: "all_pairs P list = Inr (\<forall>i j. i < j \<and> j < length list \<longrightarrow> P (sgListcmp (list ! i) (list ! j)))"
proof -
  have "all_pairs P list = Inr (\<forall>i \<in> set [0..<length list - 1]. \<forall>j \<in> set [i + 1..<length list]. P (sgListcmp (list ! i) (list ! j)))"
    unfolding all_pairs_def Let_def sgListCount_def by (intro all_res_Inr) (simp, rule all_res_Inr [THEN trans], auto)
  then show ?thesis by auto
qed

text \<open>Two lists are nested or disjoint.\<close>

definition hier_pair :: "subGoal list \<Rightarrow> subGoal list \<Rightarrow> bool" where
  "hier_pair l1 l2 \<longleftrightarrow> rels l1 \<subseteq> rels l2 \<or> rels l2 \<subseteq> rels l1 \<or> rels l1 \<inter> rels l2 = {}"

lemma isHQ_iff:
  assumes "\<forall>l \<in> set list. distinct (map rel_of l)"
  shows "isHQ list = Inr (\<forall>l1 \<in> set list. \<forall>l2 \<in> set list. hier_pair l1 l2)"
proof -
  have "sgListcmp (list ! i) (list ! j) \<noteq> SG_INTERSECT \<longleftrightarrow> hier_pair (list ! i) (list ! j)" if "i < length list" "j < length list" for i j
    using sgListcmp_sets [of "list ! i" "list ! j"] assms that by (auto simp: hier_pair_def)
  then have "isHQ list = Inr (\<forall>i j. i < j \<and> j < length list \<longrightarrow> hier_pair (list ! i) (list ! j))"
    unfolding isHQ_def all_pairs_eq by simp
  moreover have "(\<forall>i j. i < j \<and> j < length list \<longrightarrow> hier_pair (list ! i) (list ! j)) \<longleftrightarrow> (\<forall>l1 \<in> set list. \<forall>l2 \<in> set list. hier_pair l1 l2)"
    (is "?l \<longleftrightarrow> ?r")
  proof
    assume ?l
    have "hier_pair (list ! i) (list ! j)" if "i < length list" "j < length list" for i j
      using \<open>?l\<close> that by (cases i j rule: linorder_cases) (auto simp: hier_pair_def)
    then show ?r by (metis in_set_conv_nth)
  qed simp
  ultimately show ?thesis by simp
qed

section \<open>The tree has every list once\<close>

primrec tree_lists :: "sgTreeNode \<Rightarrow> sgList" where
  "tree_lists (SgTreeNode i cs) = sglist i @ concat (map tree_lists cs)"

text \<open>Every list below a node is below one of the node's lists.\<close>

primrec sg_ordered :: "sgTreeNode \<Rightarrow> bool" where
  "sg_ordered (SgTreeNode i cs) \<longleftrightarrow> list_all id (map sg_ordered cs) \<and>
     (\<forall>l \<in> set (concat (map tree_lists cs)). below (sglist i) l) \<and> (\<forall>l \<in> set (sglist i). \<not> below (sglist i) l)"

lemma map_res_Inr: "map_res f xs = Inr ys \<longleftrightarrow> list_all2 (\<lambda>x y. f x = Inr y) xs ys"
  by (induction xs arbitrary: ys) (auto simp: rbind_eq_Inr_iff list_all2_Cons1)

lemma map_res_all2: "map_res f xs = Inr ys \<Longrightarrow> (\<And>x y. x \<in> set xs \<Longrightarrow> f x = Inr y \<Longrightarrow> R x y) \<Longrightarrow> list_all2 R xs ys"
  unfolding map_res_Inr by (rule list.rel_mono_strong)

lemma map_res_mem: "map_res f xs = Inr ys \<Longrightarrow> y \<in> set ys \<Longrightarrow> \<exists>x \<in> set xs. f x = Inr y"
  by (induction xs arbitrary: ys) (auto simp: rbind_eq_Inr_iff)

lemma below_max:
  assumes wf: "\<forall>l \<in> set list. distinct (map rel_of l)" and l: "l \<in> set list" "below list l"
  shows "\<exists>m \<in> set list. \<not> below list m \<and> sgListcmp l m = SG_LESS"
proof -
  have less: "sgListcmp a b = SG_LESS \<longleftrightarrow> rels a \<subset> rels b" if "a \<in> set list" "b \<in> set list" for a b
    using sgListcmp_sets [of a b] wf that by auto
  let ?S = "{m \<in> set list. rels l \<subset> rels m}"
  have fin: "finite (rels ` ?S)" "rels ` ?S \<noteq> {}" using l less by (auto simp: below_def)
  obtain A where A: "A \<in> rels ` ?S" "\<forall>B \<in> rels ` ?S. A \<subseteq> B \<longrightarrow> A = B" using finite_has_maximal [OF fin] by (elim bexE)
  then obtain m where m: "m \<in> set list" "rels l \<subset> rels m" "A = rels m" by auto
  have "\<not> rels m \<subset> rels x" if "x \<in> set list" for x
  proof
    assume mx: "rels m \<subset> rels x"
    then have "rels x \<in> rels ` ?S" using that m(2) by (intro imageI) auto
    from bspec [OF A(2) this] mx show False by (auto simp: m(3))
  qed
  then have "\<not> below list m" using m(1) less by (auto simp: below_def)
  then show ?thesis using m l(1) less by blast
qed

lemma map_res_total: "(\<And>x. x \<in> set xs \<Longrightarrow> \<exists>y. f x = Inr y) \<Longrightarrow> \<exists>ys. map_res f xs = Inr ys"
  by (induction xs) force+

lemma sameLists_total: "\<exists>b. sameLists list = Inr b"
proof (cases "sgListCount list = 1")
  case True
  then show ?thesis by (auto simp: sameLists_def)
next
  case False
  then show ?thesis unfolding sameLists_def all_pairs_eq by (simp only: if_False) blast
qed

lemma buildSGTree_mset: "\<exists>t. buildSGTree list n = Inr t \<and> mset (tree_lists t) = mset list"
proof (induction list n rule: buildSGTree.induct)
  case (1 list n)
  obtain same where same: "sameLists list = Inr same" using sameLists_total by blast
  show ?case
  proof (cases same)
    case True
    then show ?thesis using same by (simp add: buildSGTree.simps [of list])
  next
    case False
    let ?mx = "rev (filter (\<lambda>l. \<not> below list l) list)" and ?rest = "filter (below list) list"
    obtain sets where sets: "disjoint_sets ?rest = Inr sets" "mset (concat sets) = mset ?rest" using disjoint_sets_mset by blast
    have IH: "\<exists>t. buildSGTree d (sgListCount ?mx + n) = Inr t \<and> mset (tree_lists t) = mset d" if "d \<in> set sets" for d
      using 1 [OF same False findMax_eq refl refl sets(1) that] .
    then obtain children where ch: "map_res (\<lambda>d. buildSGTree d (sgListCount ?mx + n)) sets = Inr children" using map_res_total by meson
    have "list_all2 (\<lambda>d t. mset (tree_lists t) = mset d) sets children"
      by (rule map_res_all2 [OF ch]) (use IH in fastforce)
    then have "mset (concat (map tree_lists children)) = mset (concat sets)"
      by (induction rule: list_all2_induct) simp_all
    then show ?thesis using same False ch sets multiset_partition [of "mset list" "below list"]
      by (simp add: buildSGTree.simps [of list] findMax_eq union_commute)
  qed
qed

lemma sameLists_maximal:
  assumes wf: "\<forall>l \<in> set list. distinct (map rel_of l)" and "sameLists list = Inr True"
  shows "\<forall>l \<in> set list. \<forall>l' \<in> set list. rels l = rels l'"
proof -
  have "sgListcmp (list ! i) (list ! j) = SG_EQUAL" if "i < j" "j < length list" for i j
    using assms(2) that by (auto simp: sameLists_def all_pairs_eq sgListCount_def split: if_splits)
  then have "rels (list ! i) = rels (list ! j)" if "i < j" "j < length list" for i j
    using that sgListcmp_sets [of "list ! i" "list ! j"] wf by (auto split: if_splits)
  then have "rels (list ! i) = rels (list ! j)" if "i < length list" "j < length list" for i j
    using that linorder_less_linear [of i j] by metis
  then show ?thesis by (metis in_set_conv_nth)
qed

lemma below_cong:
  assumes "\<forall>l \<in> set list. distinct (map rel_of l)" "l \<in> set list" "below list l"
  shows "below (rev (filter (\<lambda>l. \<not> below list l) list)) l"
  using below_max [OF assms] by (auto simp: below_def [of "rev _"])

lemma buildSGTree_ordered:
  "buildSGTree list n = Inr t \<Longrightarrow> \<forall>l \<in> set list. distinct (map rel_of l) \<Longrightarrow> sg_ordered t"
proof (induction list n arbitrary: t rule: buildSGTree.induct)
  case (1 list n)
  obtain same where same: "sameLists list = Inr same" using sameLists_total by blast
  show ?case
  proof (cases same)
    case True
    then have "sameLists list = Inr True" using same by simp
    note eq = sameLists_maximal [OF 1(3) this]
    have "sgListcmp l l' \<noteq> SG_LESS" if "l \<in> set list" "l' \<in> set list" for l l'
      using bspec [OF bspec [OF eq that(1)] that(2)] sgListcmp_sets [of l l'] 1(3) that by simp
    then have "\<not> below list l" if "l \<in> set list" for l using that unfolding below_def by blast
    then show ?thesis using 1(2) same True by (auto simp: buildSGTree.simps [of list])
  next
    case False
    let ?mx = "rev (filter (\<lambda>l. \<not> below list l) list)" and ?rest = "filter (below list) list"
    obtain sets where sets: "disjoint_sets ?rest = Inr sets" "mset (concat sets) = mset ?rest" using disjoint_sets_mset by blast
    have sub: "set d \<subseteq> set ?rest" if "d \<in> set sets" for d using that mset_eq_setD [OF sets(2)] by auto
    obtain children where ch: "map_res (\<lambda>d. buildSGTree d (sgListCount ?mx + n)) sets = Inr children"
      and t: "t = SgTreeNode \<lparr>sgn_isLeaf = False, attrCount = sgListCount ?mx + n, sglist = ?mx\<rparr> children"
      using 1(2) same False sets(1) by (auto simp: buildSGTree.simps [of list] findMax_eq rbind_eq_Inr_iff Let_def)
    have child: "sg_ordered c \<and> set (tree_lists c) \<subseteq> set ?rest" if "c \<in> set children" for c
    proof -
      from map_res_mem [OF ch that] obtain d where d: "d \<in> set sets" "buildSGTree d (sgListCount ?mx + n) = Inr c" by blast
      then have "mset (tree_lists c) = mset d" using buildSGTree_mset [of d "sgListCount ?mx + n"] by simp
      then have "set (tree_lists c) = set d" by (rule mset_eq_setD)
      moreover have "sg_ordered c" by (rule 1(1) [OF same False findMax_eq refl refl sets(1) d]) (use sub [OF d(1)] 1(3) in auto)
      ultimately show ?thesis using sub [OF d(1)] by simp
    qed
    have "below ?mx l" if "l \<in> set ?rest" for l using that below_cong [OF 1(3)] by simp
    moreover have "\<not> below ?mx l" if "l \<in> set ?mx" for l using that by (auto simp: below_def)
    ultimately show ?thesis using child by (auto simp: t list_all_iff)
  qed
qed

section \<open>The signature\<close>

lemma leaf_node_eq:
  "leaf_node cat sgNode sg nodes = Inr nodes' \<Longrightarrow>
   nodes' = nodes \<and> sgInChildSGLists sg (sgn_children sgNode) = Inr True \<or>
   (\<exists>b. nodes' = nodes @ [SigNode (palloc0_sigNode\<lparr>isLeaf := True, withStar := b, si_sg := Some sg\<rparr>) []]) \<and>
     sgInChildSGLists sg (sgn_children sgNode) = Inr False"
  by (auto simp: leaf_node_def rbind_eq_Inr_iff split: if_splits)

lemma fold_leaf_nodes:
  "fold_res (leaf_node cat sgNode) sgs nodes = Inr nodes' \<Longrightarrow>
   \<exists>bs. length bs = length (filter (\<lambda>sg. sgInChildSGLists sg (sgn_children sgNode) = Inr False) sgs) \<and>
     nodes' = nodes @ map2 (\<lambda>b sg. SigNode (palloc0_sigNode\<lparr>isLeaf := True, withStar := b, si_sg := Some sg\<rparr>) [])
       bs (filter (\<lambda>sg. sgInChildSGLists sg (sgn_children sgNode) = Inr False) sgs)"
proof (induction sgs arbitrary: nodes)
  case (Cons sg sgs)
  then obtain nodes1 where n: "leaf_node cat sgNode sg nodes = Inr nodes1" "fold_res (leaf_node cat sgNode) sgs nodes1 = Inr nodes'"
    by (auto simp: rbind_eq_Inr_iff)
  show ?case using leaf_node_eq [OF n(1)] Cons.IH [OF n(2)]
  proof (elim disjE conjE exE)
    fix b bs
    assume a: "nodes1 = nodes @ [SigNode (palloc0_sigNode\<lparr>isLeaf := True, withStar := b, si_sg := Some sg\<rparr>) []]"
      "sgInChildSGLists sg (sgn_children sgNode) = Inr False"
      "length bs = length (filter (\<lambda>sg. sgInChildSGLists sg (sgn_children sgNode) = Inr False) sgs)"
      "nodes' = nodes1 @ map2 (\<lambda>b sg. SigNode (palloc0_sigNode\<lparr>isLeaf := True, withStar := b, si_sg := Some sg\<rparr>) [])
       bs (filter (\<lambda>sg. sgInChildSGLists sg (sgn_children sgNode) = Inr False) sgs)"
    then show ?thesis by (intro exI [of _ "b # bs"]) simp
  qed auto
qed simp

lemma palloc0_sigNode_fields [simp]:
  "si_domain palloc0_sigNode = 0" "varsToCombine palloc0_sigNode = 0" "\<not> isLeaf palloc0_sigNode" "si_type palloc0_sigNode = 0"
  by (simp_all add: palloc0_sigNode_def)

lemma buildSigTree_fresh: "buildSigTree cat t = Inr s \<Longrightarrow> fresh s \<and> node_info s = palloc0_sigNode"
proof (induction cat t arbitrary: s rule: buildSigTree.induct)
  case (1 cat i cs)
  show ?case
  proof (cases "sglist i")
    case (Cons sgs ls)
    then obtain leaves children where *: "fold_res (leaf_node cat (SgTreeNode i cs)) sgs [] = Inr leaves" "map_res (buildSigTree cat) cs = Inr children"
      "s = SigNode palloc0_sigNode (leaves @ children)" using 1(2) by (auto simp: rbind_eq_Inr_iff)
    have "fresh c" if "c \<in> set children" for c using map_res_mem [OF *(2) that] 1(1) [OF Cons *(1)] by blast
    moreover have "fresh c" if "c \<in> set leaves" for c using fold_leaf_nodes [OF *(1)] that by (auto simp: set_zip)
    ultimately show ?thesis by (auto simp: *(3) list_all_iff)
  qed (use 1(2) in auto)
qed

lemma non_joined_leaves: 
  "fold_res (\<lambda>node nodes. rbind (relIsJoined node t) (\<lambda>b. Inr (if b then nodes else nodes @ [non_joined_leaf node]))) frlist nodes = Inr nodes' \<Longrightarrow>
   nodes' = nodes @ map non_joined_leaf (filter (\<lambda>node. relIsJoined node t = Inr False) frlist)"
proof (induction frlist arbitrary: nodes)
  case (Cons node frlist)
  then obtain b where b: "relIsJoined node t = Inr b" by (auto simp: rbind_eq_Inr_iff)
  show ?case using Cons.prems Cons.IH [of "if b then nodes else nodes @ [non_joined_leaf node]"] b by simp
qed simp

lemma addNonJoinedRelation_fresh:
  assumes "addNonJoinedRelation sgt s rs = Inr s'" "fresh s" "node_info s = palloc0_sigNode"
  shows "fresh s'"
proof -
  have leaf: "fresh (non_joined_leaf node)" for node by (simp add: non_joined_leaf_def)
  obtain cs where s: "s = SigNode palloc0_sigNode cs" using assms(3) by (cases s) simp
  show ?thesis using assms(1,2) leaf
    by (auto simp: addNonJoinedRelation_def s rbind_eq_Inr_iff Let_def list_all_iff dest!: non_joined_leaves split: if_splits)
qed

text \<open>Forgetting a field that the passes fill in.\<close>

primrec map_node :: "(sigInfo \<Rightarrow> sigInfo) \<Rightarrow> sigNode \<Rightarrow> sigNode" where
  "map_node f (SigNode i cs) = SigNode (f i) (map (map_node f) cs)"

lemma node_info_map_node [simp]: "node_info (map_node f t) = f (node_info t)"
  by (cases t) simp

lemma all_res_map: "all_res P (map f xs) = all_res (P \<circ> f) xs"
  by (induction xs) (auto intro!: rbind_cong)

lemma map_node_is1Scan:
  assumes "\<And>i. isLeaf (f i) = isLeaf i" "\<And>i. withStar (f i) = withStar i"
  shows "is1Scan (map_node f t) = is1Scan t"
proof (induction t)
  case (SigNode i cs)
  have "all_res is1Scan (map (map_node f) cs) = all_res is1Scan cs"
    unfolding all_res_map using SigNode by (intro all_res_cong) auto
  moreover have "(case map (map_node f) cs of [] \<Rightarrow> Inl NullPointer | c # _ \<Rightarrow> Inr (isLeaf (node_info c) \<and> \<not> withStar (node_info c))) =
      (case cs of [] \<Rightarrow> Inl NullPointer | c # _ \<Rightarrow> Inr (isLeaf (node_info c) \<and> \<not> withStar (node_info c)))"
    by (cases cs) (simp_all add: assms)
  ultimately show ?case by (simp only: map_node.simps is1Scan.simps assms)
qed

lemma map_node_shape: "(\<And>i. isLeaf (f i) = isLeaf i) \<Longrightarrow> shape_of (map_node f t) = shape_of t"
  by (induction t) (auto simp: comp_def intro!: arg_cong [where f = tl])

lemma map_node_count: "(\<And>i. isLeaf (f i) = isLeaf i) \<Longrightarrow> leafDescendentCount (map_node f t) = leafDescendentCount t"
  by (induction t) (auto simp: comp_def intro!: arg_cong [where f = sum_list])

lemma map_node_fresh:
  assumes "\<And>i. isLeaf (f i) = isLeaf i" "\<And>i. si_domain (f i) = si_domain i" "\<And>i. varsToCombine (f i) = varsToCombine i" "\<And>i. si_type (f i) = si_type i"
  shows "fresh (map_node f t) = fresh t"
  by (induction t) (auto simp: assms list_all_iff)

lemma map_node_derivePos:
  "map_node (si_pos_update (\<lambda>_. 0)) (snd (derivePos t n)) = map_node (si_pos_update (\<lambda>_. 0)) t"
  "map (map_node (si_pos_update (\<lambda>_. 0))) (snd (derivePos_children ts n)) = map (map_node (si_pos_update (\<lambda>_. 0))) ts"
proof (induction t n and ts n rule: derivePos_derivePos_children.induct)
  case (3 c cs n)
  show ?case using 3(1) 3(2) [OF refl surjective_pairing [symmetric]] by (simp add: split_beta Let_def)
qed (auto simp: split_beta Let_def)

lemma derivePos_fresh:
  "fresh (snd (derivePos t n)) = fresh t" "is1Scan (snd (derivePos t n)) = is1Scan t" "shape_of (snd (derivePos t n)) = shape_of t"
proof -
  let ?f = "si_pos_update (\<lambda>_. 0)"
  note e = map_node_derivePos(1) [of t n]
  show "fresh (snd (derivePos t n)) = fresh t" using map_node_fresh [of ?f "snd (derivePos t n)"] map_node_fresh [of ?f t] by (simp add: e)
  show "is1Scan (snd (derivePos t n)) = is1Scan t" using map_node_is1Scan [of ?f "snd (derivePos t n)"] map_node_is1Scan [of ?f t] by (simp add: e)
  show "shape_of (snd (derivePos t n)) = shape_of t" using map_node_shape [of ?f "snd (derivePos t n)"] map_node_shape [of ?f t] by (simp add: e)
qed

lemma map_node_upd_first:
  "(\<And>i. f (g i) = f i) \<Longrightarrow> map (map_node f) (upd_first (upd_info g) ts) = map (map_node f) ts"
  by (cases ts; cases "hd ts") auto

lemma map_node_calSib: "map_node (varsToCombine_update (\<lambda>_. 0)) (calSib t) = map_node (varsToCombine_update (\<lambda>_. 0)) t"
  by (induction t) (auto simp: map_node_upd_first)

lemma map_node_calDomain: "map_node (si_domain_update (\<lambda>_. 0)) (calDomain t) = map_node (si_domain_update (\<lambda>_. 0)) t"
  by (induction t) (auto simp: map_node_upd_first)

lemma is1Scan_calSib: "is1Scan (calSib t) = is1Scan t"
  using map_node_is1Scan [of "varsToCombine_update (\<lambda>_. 0)" "calSib t"] map_node_is1Scan [of "varsToCombine_update (\<lambda>_. 0)" t]
  by (simp add: map_node_calSib)

lemma is1Scan_calDomain: "is1Scan (calDomain t) = is1Scan t"
  using map_node_is1Scan [of "si_domain_update (\<lambda>_. 0)" "calDomain t"] map_node_is1Scan [of "si_domain_update (\<lambda>_. 0)" t]
  by (simp add: map_node_calDomain)

lemma shape_passes: "shape_of (calDomain (calSib t)) = shape_of t"
proof -
  have "shape_of (calDomain u) = shape_of u" for u
    using map_node_shape [of "si_domain_update (\<lambda>_. 0)" "calDomain u"] map_node_shape [of "si_domain_update (\<lambda>_. 0)" u]
    by (simp add: map_node_calDomain)
  moreover have "shape_of (calSib u) = shape_of u" for u
    using map_node_shape [of "varsToCombine_update (\<lambda>_. 0)" "calSib u"] map_node_shape [of "varsToCombine_update (\<lambda>_. 0)" u]
    by (simp add: map_node_calSib)
  ultimately show ?thesis by simp
qed

lemma count_calDomain [simp]: "leafDescendentCount (calDomain t) = leafDescendentCount t"
  using map_node_count [of "si_domain_update (\<lambda>_. 0)" "calDomain t"] map_node_count [of "si_domain_update (\<lambda>_. 0)" t]
  by (simp add: map_node_calDomain)

lemma map_fill_map_node: "(\<And>i. isLeaf (f i) = isLeaf i) \<Longrightarrow> map g (fillLeafNode (map_node f t)) = map (g \<circ> f) (fillLeafNode t)"
  by (induction t) (auto simp: map_concat comp_def intro!: arg_cong [where f = concat])

text \<open>What the passes keep of the leaves.\<close>

lemma passes_leaves:
  assumes "\<And>i n. g (i\<lparr>varsToCombine := n\<rparr>) = g i" "\<And>i n. g (i\<lparr>si_domain := n\<rparr>) = g i"
  shows "map g (fillLeafNode (calDomain (calSib t))) = map g (fillLeafNode t)"
proof -
  let ?f = "varsToCombine_update (\<lambda>_. 0)" and ?h = "si_domain_update (\<lambda>_. 0)"
  have g: "g \<circ> ?f = g" "g \<circ> ?h = g" by (auto simp: fun_eq_iff assms)
  show ?thesis
    using map_fill_map_node [of ?h g "calDomain (calSib t)"] map_fill_map_node [of ?h g "calSib t"]
      map_fill_map_node [of ?f g "calSib t"] map_fill_map_node [of ?f g t] by (simp add: map_node_calSib map_node_calDomain g)
qed

lemma new_signature_tree:
  assumes "new_signature cat sgt rs = Inr t"
  obtains t0 where "fresh t0" "t = calDomain (calSib (snd (derivePos t0 0)))"
proof -
  obtain s t0 where *: "buildSigTree cat sgt = Inr s" "addNonJoinedRelation sgt s rs = Inr t0" "t = calDomain (calSib (snd (derivePos t0 0)))"
    using assms by (auto simp: new_signature_def rbind_eq_Inr_iff)
  then have "fresh t0" using buildSigTree_fresh addNonJoinedRelation_fresh by blast
  then show ?thesis using that *(3) by blast
qed

text \<open>
  The signature of a query: its leaves are numbered from the left, nothing is aggregated yet, the
  flag is that of the tree, and in a one-scan signature the columns describe its shape.
\<close>

lemma new_signature_leaves:
  assumes "new_signature cat sgt rs = Inr t"
  shows "map si_pos (fillLeafNode t) = [0..<length (fillLeafNode t)]" "\<forall>i \<in> set (fillLeafNode t). si_type i = 0"
    "is1Scan t = Inr True \<Longrightarrow> map col (fillLeafNode t) = tcols (shape_of t)"
proof -
  obtain t0 where t0: "fresh t0" "t = calDomain (calSib (snd (derivePos t0 0)))" by (rule new_signature_tree [OF assms])
  let ?u = "snd (derivePos t0 0)"
  have "map si_pos (fillLeafNode t) = map si_pos (fillLeafNode ?u)" unfolding t0(2) by (rule passes_leaves) simp_all
  then have pos: "map si_pos (fillLeafNode t) = [0..<leafDescendentCount t0]" using derivePos_leaves(1) [of t0 0] by simp
  have "length (fillLeafNode t) = leafDescendentCount t0" using arg_cong [OF pos, of length] by (simp only: length_map length_upt diff_zero)
  then show "map si_pos (fillLeafNode t) = [0..<length (fillLeafNode t)]" using pos by simp
  have "map si_type (fillLeafNode t) = map si_type (fillLeafNode ?u)" unfolding t0(2) by (rule passes_leaves) simp_all
  moreover have "fresh ?u" using t0(1) by (simp add: derivePos_fresh)
  ultimately show "\<forall>i \<in> set (fillLeafNode t). si_type i = 0" using fresh_types by (metis (no_types, lifting) image_iff set_map)
  show "map col (fillLeafNode t) = tcols (shape_of t)" if "is1Scan t = Inr True"
  proof -
    have "is1Scan ?u = Inr True" using that by (simp add: t0(2) is1Scan_calDomain is1Scan_calSib)
    from calDomain_leaves [OF this \<open>fresh ?u\<close>] show ?thesis by (simp add: t0(2) shape_passes)
  qed
qed

section \<open>One leaf for every relation\<close>

definition head_list :: "sgTreeNode \<Rightarrow> subGoal list" where
  "head_list t = (case sglist (sgn_info t) of [] \<Rightarrow> [] | l # _ \<Rightarrow> l)"

text \<open>
  The first list of a node has the relations of the first lists of its children, which share none
  of them.
\<close>

fun proper :: "sgTreeNode \<Rightarrow> bool" where
  "proper (SgTreeNode i cs) \<longleftrightarrow>
     sglist i \<noteq> [] \<and> (\<forall>c \<in> set cs. proper c) \<and> distinct (map rel_of (hd (sglist i))) \<and>
     (\<forall>c \<in> set cs. rels (head_list c) \<subseteq> rels (hd (sglist i))) \<and> distinct (concat (map (map rel_of \<circ> head_list) cs))"

definition leaf_rels :: "sigNode \<Rightarrow> (nat \<times> string list) list" where
  "leaf_rels t = map (\<lambda>i. case si_sg i of None \<Rightarrow> (0, []) | Some sg \<Rightarrow> rel_of sg) (fillLeafNode t)"

lemma any_res_Inr: "(\<And>x. x \<in> set xs \<Longrightarrow> P x = Inr (Q x)) \<Longrightarrow> any_res P xs = Inr (\<exists>x \<in> set xs. Q x)"
  by (induction xs) auto

lemma sgInChildSGLists_eq:
  assumes "\<forall>c \<in> set cs. sglist (sgn_info c) \<noteq> []"
  shows "sgInChildSGLists sg cs = Inr (\<exists>c \<in> set cs. rel_of sg \<in> rels (head_list c))"
  unfolding sgInChildSGLists_def
  by (rule any_res_Inr) (use assms in \<open>auto simp: head_list_def sgInsgList_iff split: list.split\<close>)

lemma proper_lists: "proper t \<Longrightarrow> sglist (sgn_info t) \<noteq> []"
  by (cases t) simp

lemma leaf_rels_inner [simp]: "leaf_rels (SigNode palloc0_sigNode cs) = concat (map leaf_rels cs)"
  by (simp add: leaf_rels_def [abs_def] map_concat comp_def)

lemma leaf_rels_leaf [simp]: "leaf_rels (SigNode (palloc0_sigNode\<lparr>isLeaf := True, withStar := b, si_sg := Some sg\<rparr>) []) = [rel_of sg]"
  by (simp add: leaf_rels_def)

lemma leaf_rels_leaves:
  "length bs = length sgs \<Longrightarrow>
   concat (map leaf_rels (map2 (\<lambda>b sg. SigNode (palloc0_sigNode\<lparr>isLeaf := True, withStar := b, si_sg := Some sg\<rparr>) []) bs sgs)) = map rel_of sgs"
  by (induction bs sgs rule: list_induct2) simp_all

lemma mset_map_filter_split: "mset (map f (filter (\<lambda>x. \<not> P x) xs)) + mset (map f (filter P xs)) = mset (map f xs)"
  by (induction xs) auto

lemma buildSigTree_rels:
  "proper t \<Longrightarrow> buildSigTree cat t = Inr s \<Longrightarrow> mset (leaf_rels s) = mset (map rel_of (head_list t))"
proof (induction cat t arbitrary: s rule: buildSigTree.induct)
  case (1 cat i cs)
  obtain sgs ls where i: "sglist i = sgs # ls" using 1(2) by (cases "sglist i") auto
  let ?in = "\<lambda>sg. \<exists>c \<in> set cs. rel_of sg \<in> rels (head_list c)"
  obtain leaves children where *: "fold_res (leaf_node cat (SgTreeNode i cs)) sgs [] = Inr leaves" "map_res (buildSigTree cat) cs = Inr children"
      "s = SigNode palloc0_sigNode (leaves @ children)" using 1(3) i by (auto simp: rbind_eq_Inr_iff)
  have "(sgInChildSGLists sg cs = Inr False) \<longleftrightarrow> \<not> ?in sg" for sg using sgInChildSGLists_eq [of cs sg] 1(2) proper_lists by auto
  then obtain bs where "length bs = length (filter (\<lambda>sg. \<not> ?in sg) sgs)"
    "leaves = map2 (\<lambda>b sg. SigNode (palloc0_sigNode\<lparr>isLeaf := True, withStar := b, si_sg := Some sg\<rparr>) []) bs (filter (\<lambda>sg. \<not> ?in sg) sgs)"
    using fold_leaf_nodes [OF *(1)] by auto
  then have "concat (map leaf_rels leaves) = map rel_of (filter (\<lambda>sg. \<not> ?in sg) sgs)" by (simp only: leaf_rels_leaves)
  moreover have "list_all2 (\<lambda>t s. mset (leaf_rels s) = mset (map rel_of (head_list t))) cs children"
    by (rule map_res_all2 [OF *(2)]) (use 1(1) [OF i *(1)] 1(2) in auto)
  then have "mset (concat (map leaf_rels children)) = mset (concat (map (map rel_of \<circ> head_list) cs))"
    by (induction rule: list_all2_induct) simp_all
  moreover have "mset (concat (map (map rel_of \<circ> head_list) cs)) = mset (map rel_of (filter ?in sgs))"
    (is "mset ?l = mset ?r")
  proof (rule set_eq_iff_mset_eq_distinct [THEN iffD1])
    show "distinct ?l" using 1(2) by simp
    show "distinct ?r" using 1(2) i by (auto simp: distinct_map intro: inj_on_subset)
    have "set ?l = (\<Union>c \<in> set cs. rels (head_list c))" by (simp add: rels_def)
    moreover have "(\<Union>c \<in> set cs. rels (head_list c)) \<subseteq> rels sgs" by (rule UN_least) (use 1(2) i in simp)
    moreover have "set ?r = rels sgs \<inter> (\<Union>c \<in> set cs. rels (head_list c))" unfolding set_map set_filter rels_def [of sgs] by blast
    ultimately show "set ?l = set ?r" by (simp only: Int_absorb1)
  qed
  ultimately have "mset (leaf_rels s) = mset (map rel_of (filter (\<lambda>sg. \<not> ?in sg) sgs)) + mset (map rel_of (filter ?in sgs))"
    by (simp only: *(3) leaf_rels_inner map_append concat_append mset_append)
  then show ?case by (simp only: mset_map_filter_split) (simp add: i head_list_def)
qed

lemma new_signature_rels:
  assumes "proper sgt" "new_signature cat sgt rs = Inr t"
  shows "mset (leaf_rels t) = mset (map rel_of (head_list sgt)) +
    mset (map (\<lambda>node. rel_of \<lparr>sg_fields = nodeGetFields node, sg_relation = Some node\<rparr>) (filter (\<lambda>node. relIsJoined node sgt = Inr False) rs))"
proof -
  let ?g = "\<lambda>i. case si_sg i of None \<Rightarrow> (0, []) | Some sg \<Rightarrow> rel_of sg"
  let ?N = "filter (\<lambda>node. relIsJoined node sgt = Inr False) rs"
  obtain s t0 where *: "buildSigTree cat sgt = Inr s" "addNonJoinedRelation sgt s rs = Inr t0" "t = calDomain (calSib (snd (derivePos t0 0)))"
    using assms(2) by (auto simp: new_signature_def rbind_eq_Inr_iff)
  have "leaf_rels t = leaf_rels (snd (derivePos t0 0))" unfolding *(3) leaf_rels_def by (rule passes_leaves) simp_all
  also have "\<dots> = leaf_rels t0"
    using arg_cong [OF derivePos_leaves(1) [of t0 0, THEN conjunct2, THEN conjunct2], of "map ?g"] by (simp add: leaf_rels_def comp_def)
  finally have t: "leaf_rels t = leaf_rels t0" .
  obtain cs where s: "s = SigNode palloc0_sigNode cs" using buildSigTree_fresh [OF *(1)] by (cases s) simp
  have leaf: "leaf_rels (non_joined_leaf node) = [rel_of \<lparr>sg_fields = nodeGetFields node, sg_relation = Some node\<rparr>]" for node
    by (simp add: non_joined_leaf_def)
  have "leaf_rels t0 = map (\<lambda>node. rel_of \<lparr>sg_fields = nodeGetFields node, sg_relation = Some node\<rparr>) ?N @ leaf_rels s"
    using *(2) by (auto simp: addNonJoinedRelation_def s rbind_eq_Inr_iff Let_def comp_def leaf dest!: non_joined_leaves split: if_splits)
  then show ?thesis using buildSigTree_rels [OF assms(1) *(1)] by (simp add: t)
qed

section \<open>Results\<close>

text \<open>Relations that are named by single letters, with five columns; the columns of the key of \<open>R\<close> are a parameter.\<close>

definition table_var :: "string \<Rightarrow> RangeVar" where
  "table_var n = \<lparr>catalogname = None, schemaname = None, relname = n, rv_alias = None\<rparr>"

definition tables :: "string \<Rightarrow> from_item list" where
  "tables names = map (\<lambda>c. RangeVarNode (table_var [c])) names"

definition equality :: "string list \<Rightarrow> string list \<Rightarrow> expr_node" where
  "equality l r = A_Expr AEXPR_OP [''=''] (Some (ColumnRef l)) (Some (ColumnRef r))"

definition keyed :: "string list \<Rightarrow> catalog" where
  "keyed key rv = Some \<lparr>cat_attrs = [''a'', ''b'', ''_v0'', ''_d0'', ''_p0''], cat_pkeys = (if relname rv = ''R'' then [key] else []), rd_id = 0\<rparr>"

definition R_join_S :: sgList where
  "R_join_S = [[\<lparr>sg_fields = [''R'', ''a''], sg_relation = Some (RangeVarNode (table_var ''R''))\<rparr>,
     \<lparr>sg_fields = [''S'', ''a''], sg_relation = Some (RangeVarNode (table_var ''S''))\<rparr>]]"

lemma R_join_S_gene: "geneSGList (keyed key) (tables ''RS'') (Some (equality [''R'', ''a''] [''S'', ''a''])) [] = Inr R_join_S"
  by (simp add: equality_def add_equality_def newSubGoal_def tables_def R_join_S_def table_var_def)

text \<open>
  C8. When no subgoal list names a relation twice, \<open>isHQ\<close> decides whether a query is hierarchical:
  the sets of relations of any two join attributes are nested or disjoint. A list with a repeated
  relation, which \<open>geneSGList\<close> makes of two joins of one column with two columns of a relation, is
  outside the claim (\<open>repeated_relation_accepted\<close>).
\<close>

theorem isHQ_decides:
  assumes "\<forall>l \<in> set list. distinct (map rel_of l)"
  shows "isHQ list = Inr (\<forall>l1 \<in> set list. \<forall>l2 \<in> set list. rels l1 \<subseteq> rels l2 \<or> rels l2 \<subseteq> rels l1 \<or> rels l1 \<inter> rels l2 = {})"
  using isHQ_iff [OF assms] by (simp only: hier_pair_def)

theorem isHQ_decides_witness:
  "\<exists>list. (\<forall>l \<in> set list. distinct (map rel_of l)) \<and> isHQ list = Inr False"
proof -
  let ?sg = "\<lambda>r. \<lparr>sg_fields = [r, ''a''], sg_relation = None\<rparr>"
  let ?l = "[[?sg ''R'', ?sg ''S''], [?sg ''S'', ?sg ''T'']]"
  have wf: "\<forall>l \<in> set ?l. distinct (map rel_of l)" by (simp add: rel_of_def)
  from isHQ_decides [OF wf] have "isHQ ?l = Inr False" by (simp add: rel_of_def)
  then show ?thesis using wf by blast
qed

text \<open>
  The comparison of two subgoal lists counts entries, not relations. For a query that joins \<open>R\<close> and
  \<open>S\<close> on \<open>b\<close> and two columns of \<open>R\<close> with \<open>T.a\<close> it takes a list with \<open>R\<close> twice and the list of \<open>R\<close> and
  \<open>S\<close> for nested, and \<open>isHQ\<close> accepts the query, although the sets \<open>{R, T}\<close> and \<open>{R, S}\<close> of its
  relations are neither nested nor disjoint.
\<close>

theorem repeated_relation_accepted:
  "\<exists>l. geneSGList (keyed []) (tables ''RST'')
      (Some (A_Expr AEXPR_AND []
        (Some (A_Expr AEXPR_AND [] (Some (equality [''R'', ''b''] [''S'', ''b''])) (Some (equality [''R'', ''a''] [''T'', ''a'']))))
        (Some (equality [''R'', ''c''] [''T'', ''a''])))) [] = Inr l \<and> isHQ l = Inr True \<and>
    set (map rels l) = {{(2, [''R'']), (2, [''S''])}, {(2, [''R'']), (2, [''T''])}}"
proof -
  let ?q = "Some (A_Expr AEXPR_AND []
        (Some (A_Expr AEXPR_AND [] (Some (equality [''R'', ''b''] [''S'', ''b''])) (Some (equality [''R'', ''a''] [''T'', ''a'']))))
        (Some (equality [''R'', ''c''] [''T'', ''a''])))"
  have "case geneSGList (keyed []) (tables ''RST'') ?q [] of Inl _ \<Rightarrow> False
    | Inr l \<Rightarrow> isHQ l = Inr True \<and> set (map (\<lambda>l. set (map rel_of l)) l) = {{(2, [''R'']), (2, [''S''])}, {(2, [''R'']), (2, [''T''])}}" by code_simp
  then show ?thesis unfolding rels_def [abs_def] set_map by (auto split: sum.splits)
qed

text \<open>
  C9. \<open>buildSGTree\<close> returns for every list of subgoal lists of which none names a relation twice, and
  its tree has every subgoal list exactly once, below a list with strictly more relations.
\<close>

theorem subgoal_tree_sound:
  assumes "\<forall>l \<in> set list. distinct (map rel_of l)"
  shows "\<exists>t. buildSGTree list n = Inr t \<and> mset (tree_lists t) = mset list \<and> sg_ordered t"
  using buildSGTree_mset [of list n] buildSGTree_ordered [OF _ assms] by blast

theorem subgoal_tree_sound_witness: "\<exists>t. buildSGTree R_join_S 0 = Inr t \<and> tree_lists t = R_join_S"
proof -
  have wf: "\<forall>l \<in> set R_join_S. distinct (map rel_of l)" by (simp add: R_join_S_def rel_of_def)
  from subgoal_tree_sound [OF wf, of 0] show ?thesis by (auto simp: R_join_S_def)
qed

text \<open>
  C20. What \<open>ProcessSignature\<close> hands to the confidence computation: the leaves are numbered from
  left to right, no column is aggregated, the flag says whether the tree has the one-scan
  property, and then every column carries the number of columns and of groups it heads.
\<close>

theorem ProcessSignature_leaves:
  assumes "ProcessSignature cat fromClause list = Inr g"
  shows "map si_pos (fillLeafNode (sigTreeRoot g)) = [0..<leafDescendentCount (sigTreeRoot g)] \<and>
    (\<forall>i \<in> set (fillLeafNode (sigTreeRoot g)). si_type i = 0) \<and> is1Scan (sigTreeRoot g) = Inr (isOneScan g) \<and>
    (isOneScan g \<longrightarrow> map col (fillLeafNode (sigTreeRoot g)) = tcols (shape_of (sigTreeRoot g)))"
proof -
  have new: "new_signature cat (sgTreeRoot g) (relList g) = Inr (sigTreeRoot g)" and b: "is1Scan (sigTreeRoot g) = Inr (isOneScan g)"
    using assms by (auto simp: ProcessSignature_def rbind_eq_Inr_iff Let_def)
  show ?thesis using new_signature_leaves [OF new] b by (simp add: length_fillLeafNode)
qed

theorem ProcessSignature_leaves_witness:
  "\<exists>g. ProcessSignature (keyed [''a'']) (tables ''RS'') R_join_S = Inr g \<and> map si_pos (fillLeafNode (sigTreeRoot g)) = [0, 1]"
proof -
  have "case ProcessSignature (keyed [''a'']) (tables ''RS'') R_join_S of Inl _ \<Rightarrow> False | Inr g \<Rightarrow> leafDescendentCount (sigTreeRoot g) = 2" by code_simp
  then obtain g where g: "ProcessSignature (keyed [''a'']) (tables ''RS'') R_join_S = Inr g" "leafDescendentCount (sigTreeRoot g) = 2" by (auto split: sum.splits)
  then show ?thesis using ProcessSignature_leaves [OF g(1)] by (auto simp: upt_rec)
qed

text \<open>
  C19. The signature has one leaf for every relation: when the children of every node of the
  subgoal tree have disjoint sets of relations, which their parent contains, the leaves are the
  relations of the first list of the root and those relations of the from clause that are not
  joined.
\<close>

theorem signature_relations:
  assumes "proper (sgTreeRoot g)" "ProcessSignature cat fromClause list = Inr g"
  shows "mset (leaf_rels (sigTreeRoot g)) = mset (map rel_of (head_list (sgTreeRoot g))) +
    mset (map (\<lambda>node. rel_of \<lparr>sg_fields = nodeGetFields node, sg_relation = Some node\<rparr>)
      (filter (\<lambda>node. relIsJoined node (sgTreeRoot g) = Inr False) (relList g)))"
  by (rule new_signature_rels [OF assms(1)]) (use assms(2) in \<open>auto simp: ProcessSignature_def rbind_eq_Inr_iff Let_def\<close>)

theorem signature_relations_witness:
  "\<exists>g. ProcessSignature (keyed [''a'']) (tables ''RST'') R_join_S = Inr g \<and> mset (leaf_rels (sigTreeRoot g)) = {#(2, [''R'']), (2, [''S'']), (2, [''T''])#}"
proof -
  have "case ProcessSignature (keyed [''a'']) (tables ''RST'') R_join_S of Inl _ \<Rightarrow> False
    | Inr g \<Rightarrow> proper (sgTreeRoot g) \<and> map rel_of (head_list (sgTreeRoot g)) = [(2, [''R'']), (2, [''S''])] \<and>
        map (\<lambda>node. rel_of \<lparr>sg_fields = nodeGetFields node, sg_relation = Some node\<rparr>)
          (filter (\<lambda>node. relIsJoined node (sgTreeRoot g) = Inr False) (relList g)) = [(2, [''T''])]" by code_simp
  then obtain g where g: "proper (sgTreeRoot g)" "ProcessSignature (keyed [''a'']) (tables ''RST'') R_join_S = Inr g"
    "map rel_of (head_list (sgTreeRoot g)) = [(2, [''R'']), (2, [''S''])]"
    "map (\<lambda>node. rel_of \<lparr>sg_fields = nodeGetFields node, sg_relation = Some node\<rparr>)
          (filter (\<lambda>node. relIsJoined node (sgTreeRoot g) = Inr False) (relList g)) = [(2, [''T''])]" by (auto split: sum.splits)
  have "mset (leaf_rels (sigTreeRoot g)) = {#(2, [''R'']), (2, [''S'']), (2, [''T''])#}" using signature_relations [OF g(1,2)] unfolding g(3,4) by simp
  then show ?thesis using g(2) by blast
qed

text \<open>
  The grouping of the subgoal lists below a node compares them with the first list of a group
  only. For a hierarchical query over five relations, joined on \<open>a\<close> all together and on other
  attributes in the sets \<open>RS\<close>, \<open>RSTU\<close> and \<open>TU\<close>, two sibling nodes overlap and the signature has
  the relations \<open>T\<close> and \<open>U\<close> twice.
\<close>

theorem overlapping_siblings:
  "let sg = (\<lambda>a r. \<lparr>sg_fields = [[r], a], sg_relation = Some (RangeVarNode (table_var [r]))\<rparr>);
       list = [map (sg ''a'') ''RSTUV'', map (sg ''d'') ''RS'', map (sg ''b'') ''RSTU'', map (sg ''c'') ''TU''] in
   isHQ list = Inr True \<and>
   rbind (ProcessSignature (keyed []) (tables ''RSTUV'') list) (\<lambda>g. Inr (map (hd \<circ> snd) (leaf_rels (sigTreeRoot g)))) =
     Inr [''V'', ''T'', ''U'', ''R'', ''S'', ''T'', ''U'']"
  by code_simp

end
