(* ===== verification/Sprout.thy ===== *)
theory Sprout
  imports Aggregation Signature
begin

text \<open>
  The aggregate \<open>conf()\<close> for hierarchical queries over tuple-independent relations
  (\<^verbatim>\<open>SPROUT.c\<close>): the transition functions and the final function, over the one-scan algorithm
  (\<open>OneScan\<close>), the aggregations (\<open>Aggregation\<close>) and the signature (\<open>Signature\<close>).

  The structure \<^verbatim>\<open>AggState\<close> of the executor keeps one state and one lineage, and with the hashed
  strategy one more pair in the current hash entry; the signature, the flag of its one-scan
  property and the memory context of a group are global variables. Deleting the context frees
  the array of columns; the other arrays of the state are replaced before they are read again.

  For a lineage that factorises along the signature, \<open>one_scan_conf\<close> shows that the result is
  the probability of the lineage when the signature has the one-scan property, and
  \<open>scheduled_conf\<close> when its first column has to be aggregated.
\<close>

section \<open>State\<close>

record AggState =
  agg_hashed :: bool                  \<comment> \<open>\<open>aggstrategy == AGG_HASHED\<close>\<close>
  entry_state :: stateData            \<comment> \<open>of \<open>currentEntry\<close>\<close>
  entry_lineage :: "varprob list"
  agg_state :: stateData
  agg_lineage :: "varprob list"

record sproutState =
  sp_groupcxt :: bool                 \<comment> \<open>the context exists\<close>
  sp_sig :: sigGlobals
  sp_agg :: AggState

definition getStateAndLineage :: "AggState \<Rightarrow> stateData \<times> varprob list" where
  "getStateAndLineage a = (if agg_hashed a then (entry_state a, entry_lineage a) else (agg_state a, agg_lineage a))"

text \<open>Both are pointers; a change through them is a change of the structure they come from.\<close>

definition putStateAndLineage :: "stateData \<times> varprob list \<Rightarrow> AggState \<Rightarrow> AggState" where
  "putStateAndLineage = (\<lambda>(s, l) a. if agg_hashed a then a\<lparr>entry_state := s, entry_lineage := l\<rparr> else a\<lparr>agg_state := s, agg_lineage := l\<rparr>)"

definition init_agg :: "bool \<Rightarrow> AggState" where
  "init_agg hashed = \<lparr>agg_hashed = hashed, entry_state = palloc0_stateData, entry_lineage = [], agg_state = palloc0_stateData, agg_lineage = []\<rparr>"

section \<open>Transition functions\<close>

definition addVarProb :: "varprob \<Rightarrow> varprob list \<Rightarrow> varprob list" where
  "addVarProb vp lineage = lineage @ [vp]"

definition storeLineage :: "varprob list \<Rightarrow> int list \<Rightarrow> real list \<Rightarrow> varprob list" where
  "storeLineage lineage vs ps = addVarProb (vs, ps) lineage"

definition hq_advance :: "nat \<Rightarrow> int list \<Rightarrow> real list \<Rightarrow> sproutState \<Rightarrow> sproutState res" where
  "hq_advance n vs ps st =
     (let (state, lineage) = getStateAndLineage (sp_agg st) in
      if isOneScan (sp_sig st) then
        let state = (if NoOfVars state = 0 then state\<lparr>sd_vars := Ptr (fillLeafNode (sigTreeRoot (sp_sig st))), NoOfVars := n\<rparr> else state) in
        rbind (processTuple (state\<lparr>curTuple := vs, curTupleProb := ps\<rparr>) False) (\<lambda>(_, state).
        Inr (st\<lparr>sp_agg := putStateAndLineage (state, lineage) (sp_agg st)\<rparr>))
      else Inr (st\<lparr>sp_agg := putStateAndLineage (state, storeLineage lineage vs ps) (sp_agg st)\<rparr>))"

text \<open>The macro; the arguments are the pairs of condition columns.\<close>

definition accumulate :: "nat \<Rightarrow> (int \<times> real) list \<Rightarrow> sproutState \<Rightarrow> sproutState res" where
  "accumulate n args st =
     (let st = st\<lparr>sp_groupcxt := True\<rparr> in
      rbind (gather [0..<n] (map fst args)) (\<lambda>vs.
      rbind (gather [0..<n] (map snd args)) (\<lambda>ps.
      hq_advance n vs ps st)))"

definition conf_accum0 :: real where "conf_accum0 = 1"

definition conf_accum1 :: "real \<Rightarrow> int \<times> real \<Rightarrow> real" where
  "conf_accum1 a arg = (let b = snd arg in a + b - a * b)"

definition conf_accum2 where "conf_accum2 = accumulate 2"
definition conf_accum3 where "conf_accum3 = accumulate 3"
definition conf_accum4 where "conf_accum4 = accumulate 4"
definition conf_accum5 where "conf_accum5 = accumulate 5"
definition conf_accum6 where "conf_accum6 = accumulate 6"
definition conf_accum7 where "conf_accum7 = accumulate 7"
definition conf_accum8 where "conf_accum8 = accumulate 8"
definition conf_accum9 where "conf_accum9 = accumulate 9"
definition conf_accum10 where "conf_accum10 = accumulate 10"

section \<open>Final function\<close>

definition free_vars :: "stateData \<Rightarrow> stateData" where
  "free_vars s = s\<lparr>sd_vars := (case sd_vars s of Null \<Rightarrow> Null | _ \<Rightarrow> Freed)\<rparr>"

definition delete_groupcxt :: "sproutState \<Rightarrow> sproutState" where
  "delete_groupcxt st =
     st\<lparr>sp_groupcxt := False, sp_agg := (sp_agg st)\<lparr>entry_state := free_vars (entry_state (sp_agg st)), agg_state := free_vars (agg_state (sp_agg st))\<rparr>\<rparr>"

definition conf_final :: "(nat \<Rightarrow> int) \<Rightarrow> catalog \<Rightarrow> sproutState \<Rightarrow> (real \<times> sproutState) res" where
  "conf_final junk cat st =
     (if \<not> sp_groupcxt st then Inr (0, st)
      else
        let (state, lineage) = getStateAndLineage (sp_agg st); g = sp_sig st in
        if isOneScan g then
          rbind (processTuple state True) (\<lambda>(p, state).
          Inr (case p of None \<Rightarrow> 1 | Some r \<Rightarrow> r,
            delete_groupcxt (st\<lparr>sp_agg := putStateAndLineage (state\<lparr>counter := 0\<rparr>, lineage) (sp_agg st)\<rparr>)))
        else
          rbind (schedule junk lineage (sigTreeRoot g)) (\<lambda>t.
          rbind (oneScan state t lineage) (\<lambda>(result, state).
          rbind (new_signature cat (sgTreeRoot g) (relList g)) (\<lambda>t.
          Inr (result,
            delete_groupcxt (st\<lparr>sp_agg := putStateAndLineage (state, []) (sp_agg st), sp_sig := g\<lparr>sigTreeRoot := t\<rparr>\<rparr>))))))"

section \<open>A group of the sorted input\<close>

definition conf_group_HQ :: "(nat \<Rightarrow> int) \<Rightarrow> catalog \<Rightarrow> nat \<Rightarrow> tuple list \<Rightarrow> sproutState \<Rightarrow> (real \<times> sproutState) res" where
  "conf_group_HQ junk cat n ts st = rbind (fold_res (accumulate n) ts st) (conf_final junk cat)"

lemma gather_snoc: "gather (ps @ [p]) xs = rbind (gather ps xs) (\<lambda>ys. rbind (aread xs p) (\<lambda>x. Inr (ys @ [x])))"
proof -
  have "fold_res (\<lambda>p ys. rbind (aread xs p) (\<lambda>x. Inr (ys @ [x]))) [p] = (\<lambda>ys. rbind (aread xs p) (\<lambda>x. Inr (ys @ [x])))"
    by (auto simp: fun_eq_iff rbind_def split: sum.split)
  then show ?thesis by (simp only: gather_def fold_res_append)
qed

lemma gather_upt: "n \<le> length xs \<Longrightarrow> gather [0..<n] xs = Inr (take n xs)"
  by (induction n) (simp_all add: gather_snoc take_Suc_conv_app_nth, simp add: gather_def)

lemma gather_all: "length xs = n \<Longrightarrow> gather [0..<n] xs = Inr xs"
  by (simp add: gather_upt)

section \<open>One relation\<close>

text \<open>\<open>conf_accum1\<close> folds the probabilities of independent tuples.\<close>

lemma conf_accum1_fold: "foldl conf_accum1 a args = 1 - (1 - a) * (\<Prod>(v, p)\<leftarrow>args. 1 - p)"
proof (induction args arbitrary: a)
  case (Cons x args)
  have "conf_accum1 a x = 1 - (1 - a) * (1 - snd x)" by (simp add: conf_accum1_def Let_def algebra_simps)
  then show ?case using Cons by (cases x) (simp add: mult.assoc)
qed simp

lemma conf_accum1_Pr:
  assumes "wt_ok W" "distinct (map fst args)" "\<forall>(v, p) \<in> set args. \<exists>d. (v, d) \<in> set W \<and> (1, p) \<in> set d"
  shows "foldl conf_accum1 0 args = Pr W (lineage_holds (map (\<lambda>a. clause_of [a]) args))"
proof -
  let ?es = "map (\<lambda>(v, p). (v, p, [])) args"
  have "lin_in W (Lin ?es)" unfolding lin_in_iff using assms(3) by auto
  moreover have "distinct (lin_vars (Lin ?es))" unfolding lin_vars_simps using assms(2)
    by (simp add: comp_def split_beta)
  ultimately have "Pr W (lin_holds (Lin ?es)) = lin_prob (Lin ?es)" by (rule lin_prob_Pr [OF assms(1)])
  moreover have "lin_holds (Lin ?es) = lineage_holds (map (\<lambda>a. clause_of [a]) args)"
    unfolding fun_eq_iff lin_holds_iff by (auto simp: lineage_holds_def clause_of_def split_beta)
  moreover have "lin_prob (Lin ?es) = foldl conf_accum1 0 args" by (simp add: conf_accum1_fold comp_def case_prod_unfold)
  ultimately show ?thesis by simp
qed

section \<open>The one-scan case\<close>

text \<open>In the scan of a group every transition is a step of the one-scan algorithm.\<close>

lemma put_get [simp]:
  "getStateAndLineage (putStateAndLineage (s, l) a) = (s, l)"
  "putStateAndLineage (s', l') (putStateAndLineage (s, l) a) = putStateAndLineage (s', l') a"
  by (simp_all add: getStateAndLineage_def putStateAndLineage_def)

lemma accumulate_step:
  assumes "isOneScan (sp_sig st)" "length u = n" "getStateAndLineage (sp_agg st) = (s, l)" "NoOfVars s \<noteq> 0"
  shows "accumulate n u st = rbind (hq_step u s) (\<lambda>s'. Inr (st\<lparr>sp_groupcxt := True, sp_agg := putStateAndLineage (s', l) (sp_agg st)\<rparr>))"
  using assms by (simp add: accumulate_def hq_advance_def gather_all hq_step_def rbind_assoc) (auto simp: rbind_def split: sum.split)

text \<open>What a step keeps of the state.\<close>

definition keeps :: "stateData \<Rightarrow> stateData \<Rightarrow> bool" where
  "keeps s s' \<longleftrightarrow> NoOfVars s' = NoOfVars s \<and> (sd_vars s' = Null \<longleftrightarrow> sd_vars s = Null)"

lemma pread_not_Null: "pread p = Inr x \<Longrightarrow> p \<noteq> Null"
  by (cases p) simp_all

lemma fold_keeps:
  "fold_res f xs s = Inr s' \<Longrightarrow> (\<And>x u v. f x u = Inr v \<Longrightarrow> keeps u v) \<Longrightarrow> keeps s s'"
  by (rule fold_res_rel [where R = "\<lambda>u v. keeps u v"]) (auto simp: keeps_def intro: reflpI transpI)

lemma lookup_at_keeps: "lookup_at j s = Inr (r, s') \<Longrightarrow> keeps s s'"
  by (auto simp: keeps_def lookup_at_def rbind_eq_Inr_iff dest: pread_not_Null)

lemma load_sum_keeps: "load_sum j s = Inr s' \<Longrightarrow> keeps s s'"
  by (auto simp: keeps_def load_sum_def rbind_eq_Inr_iff dest: lookup_at_keeps)

lemma conj_sum_keeps: "conj_sum j s = Inr s' \<Longrightarrow> keeps s s'"
  by (auto simp: keeps_def conj_sum_def rbind_eq_Inr_iff dest: lookup_at_keeps)

lemma memcpy_keeps: "memcpy_tuple s = Inr s' \<Longrightarrow> keeps s s'"
  by (auto simp: keeps_def memcpy_tuple_def split: if_splits)

lemma close_col_keeps: "close_col j s = Inr s' \<Longrightarrow> keeps s s'"
  by (auto simp: keeps_def close_col_def rbind_eq_Inr_iff split: if_splits)

lemma close_cols_keeps: "close_cols i s = Inr s' \<Longrightarrow> keeps s s'"
  unfolding close_cols_def by (rule fold_keeps [OF _ close_col_keeps])

lemma new_block_keeps: "new_block s = Inr s' \<Longrightarrow> keeps s s'"
  by (auto simp: keeps_def new_block_def rbind_eq_Inr_iff for_upto_def dest!: memcpy_keeps fold_keeps [OF _ load_sum_keeps])

lemma finish_keeps: "finish i f s = Inr (p, s') \<Longrightarrow> keeps s s'"
  by (auto simp: keeps_def finish_def rbind_eq_Inr_iff Let_def split: if_splits
      dest!: memcpy_keeps fold_keeps [OF _ load_sum_keeps] conj_sum_keeps close_cols_keeps)

lemma scan_columns_keeps: "scan_columns s = Inr (p, s') \<Longrightarrow> keeps s s'"
  by (auto simp: keeps_def scan_columns_def rbind_eq_Inr_iff split: if_splits dest!: memcpy_keeps conj_sum_keeps finish_keeps)

lemma processTuple_keeps: "processTuple s f = Inr (p, s') \<Longrightarrow> keeps s s'"
  by (auto simp: keeps_def processTuple_def rbind_eq_Inr_iff Let_def split: if_splits
      dest!: scan_columns_keeps new_block_keeps finish_keeps)

lemma hq_step_keeps: "hq_step u s = Inr s' \<Longrightarrow> keeps s s'"
  by (auto simp: keeps_def hq_step_def rbind_eq_Inr_iff dest!: processTuple_keeps)

lemma accumulate_steps:
  assumes "isOneScan (sp_sig st)" "\<forall>u \<in> set us. length u = n" "getStateAndLineage (sp_agg st) = (s, l)" "NoOfVars s \<noteq> 0"
    and "sp_groupcxt st"
  shows "fold_res (accumulate n) us st = rbind (fold_res hq_step us s) (\<lambda>s'. Inr (st\<lparr>sp_agg := putStateAndLineage (s', l) (sp_agg st)\<rparr>))"
  using assms
proof (induction us arbitrary: s st)
  case Nil
  have "putStateAndLineage (s, l) (sp_agg st) = sp_agg st"
    using Nil.prems(3) by (auto simp: putStateAndLineage_def getStateAndLineage_def split: if_splits)
  then show ?case by simp
next
  case (Cons u us)
  have st: "st\<lparr>sp_groupcxt := True, sp_agg := a\<rparr> = st\<lparr>sp_agg := a\<rparr>" for a using Cons.prems(5) by (cases st) simp
  note step = accumulate_step [OF Cons.prems(1) _ Cons.prems(3,4), of u n, unfolded st]
  show ?case
  proof (cases "hq_step u s")
    case (Inr s1)
    let ?st = "st\<lparr>sp_agg := putStateAndLineage (s1, l) (sp_agg st)\<rparr>"
    have "fold_res (accumulate n) us ?st = rbind (fold_res hq_step us s1) (\<lambda>s'. Inr (?st\<lparr>sp_agg := putStateAndLineage (s', l) (sp_agg ?st)\<rparr>))"
      by (rule Cons.IH) (use Cons.prems hq_step_keeps [OF Inr] in \<open>simp_all add: keeps_def\<close>)
    then show ?thesis using step Cons.prems(2) Inr by simp
  qed (use step Cons.prems(2) in simp)
qed

text \<open>The scan of the whole group, from the state the executor allocates.\<close>

lemma one_scan_group:
  assumes g: "isOneScan (sp_sig st)" "getStateAndLineage (sp_agg st) = (s, l)" "NoOfVars s = 0" "us \<noteq> []" "0 < n" "\<forall>u \<in> set us. length u = n"
  shows "conf_group_HQ junk cat n us st =
    rbind (fold_res hq_step us (s\<lparr>sd_vars := Ptr (fillLeafNode (sigTreeRoot (sp_sig st))), NoOfVars := n\<rparr>)) (\<lambda>s.
    rbind (processTuple s True) (\<lambda>(p, s).
    Inr (case p of None \<Rightarrow> 1 | Some r \<Rightarrow> r,
      delete_groupcxt (st\<lparr>sp_groupcxt := True, sp_agg := putStateAndLineage (s\<lparr>counter := 0\<rparr>, l) (sp_agg st)\<rparr>))))"
proof -
  let ?s = "s\<lparr>sd_vars := Ptr (fillLeafNode (sigTreeRoot (sp_sig st))), NoOfVars := n\<rparr>"
  let ?st = "st\<lparr>sp_groupcxt := True, sp_agg := putStateAndLineage (?s, l) (sp_agg st)\<rparr>"
  obtain u us' where us: "us = u # us'" using g(4) by (cases us) auto
  have "accumulate n u st = accumulate n u ?st"
    using g us by (simp add: accumulate_def hq_advance_def gather_all Let_def)
  then have "fold_res (accumulate n) us st = fold_res (accumulate n) us ?st" by (simp add: us)
  also have "\<dots> = rbind (fold_res hq_step us ?s) (\<lambda>s'. Inr (?st\<lparr>sp_agg := putStateAndLineage (s', l) (sp_agg ?st)\<rparr>))"
    by (rule accumulate_steps) (use g in simp_all)
  finally show ?thesis using g(1) by (simp add: conf_group_HQ_def rbind_assoc conf_final_def)
qed

lemma valid_entries_plain: "si_type info = NOTAGGREGATED \<Longrightarrow> valid_entries info es = es"
  by (induction es) (auto simp: isAValidVar_def lookup_def)

lemma ProcessSignature_new:
  assumes "ProcessSignature cat fromClause list = Inr g"
  shows "new_signature cat (sgTreeRoot g) (relList g) = Inr (sigTreeRoot g)" "is1Scan (sigTreeRoot g) = Inr (isOneScan g)"
  using assms by (auto simp: ProcessSignature_def rbind_eq_Inr_iff Let_def)

lemma one_scan_top_col:
  assumes "new_signature cat sgt rs = Inr t" "is1Scan t = Inr True" "shape_of t = Col ts" "ts \<noteq> []"
  shows "top_col (fillLeafNode t) ts" "length (fillLeafNode t) = Suc (fsize ts)" "si_type (fillLeafNode t ! 0) = NOTAGGREGATED"
proof -
  note s = new_signature_leaves [OF assms(1)]
  have cols: "map col (fillLeafNode t) = tcols (Col ts)" using s(3) [OF assms(2)] assms(3) by simp
  show len: "length (fillLeafNode t) = Suc (fsize ts)" using arg_cong [OF cols, of length] by (simp only: length_map tcols.simps list.size)
  then have ty: "si_type (fillLeafNode t ! j) = NOTAGGREGATED" if "j < length (fillLeafNode t)" for j
    using s(2) nth_mem [OF that] by (simp add: NOTAGGREGATED_def)
  then show "si_type (fillLeafNode t ! 0) = NOTAGGREGATED" using len by simp
  show "top_col (fillLeafNode t) ts" using cols assms(4) ty len by (simp add: top_col_def plain_def cols_from_def has_table_def)
qed

lemma lin_holds_lineage: "lin_holds L = lineage_holds (map clause_of (enum_lin [L]))"
  using enum_holds [of "[L]"] by (auto simp: fun_eq_iff lineage_holds_def)

lemma enum_lin_group:
  assumes "conforms (Col ts) (Lin es)"
  shows "enum_lin [Lin es] \<noteq> []" "\<forall>u \<in> set (enum_lin [Lin es]). length u = Suc (fsize ts)"
  using enum_nonempty [of "[Col ts]" "[Lin es]"] enum_length [of "[Col ts]" "[Lin es]"] assms
  by (auto simp: length_concat simp del: enum_lin.simps)

lemma one_scan_conf_group:
  assumes sig: "new_signature cat sgt rs = Inr (sigTreeRoot (sp_sig st))" "is1Scan (sigTreeRoot (sp_sig st)) = Inr True" "isOneScan (sp_sig st)"
    and shape: "shape_of (sigTreeRoot (sp_sig st)) = Col ts" "ts \<noteq> []" and lin: "conforms (Col ts) (Lin es)"
    and st: "getStateAndLineage (sp_agg st) = (s, l)" "NoOfVars s = 0" "counter s = 0"
  shows "ok (conf_group_HQ junk cat (Suc (fsize ts)) (enum_lin [Lin es]) st) (\<lambda>(p, st'). p = lin_prob (Lin es) \<and>
    (\<exists>s'. NoOfVars s' = Suc (fsize ts) \<and> sd_vars s' \<noteq> Null \<and>
      st' = delete_groupcxt (st\<lparr>sp_groupcxt := True, sp_agg := putStateAndLineage (s'\<lparr>counter := 0\<rparr>, l) (sp_agg st)\<rparr>)))"
proof -
  let ?vs = "fillLeafNode (sigTreeRoot (sp_sig st))"
  note top = one_scan_top_col [OF sig(1,2) shape]
  let ?s = "s\<lparr>sd_vars := Ptr ?vs, NoOfVars := Suc (fsize ts)\<rparr>"
  have "ok (rbind (fold_res hq_step (enum_lin [Lin es]) ?s) (\<lambda>s. processTuple s True))
      (\<lambda>(p, s'). p = Some (lin_prob (Lin (valid_entries (?vs ! 0) es))))"
    by (rule one_scan_lin [OF top(1) lin]) (use st top in \<open>simp_all add: isAValidVar_def\<close>)
  then obtain s1 s2 where *: "fold_res hq_step (enum_lin [Lin es]) ?s = Inr s1" "processTuple s1 True = Inr (Some (lin_prob (Lin es)), s2)"
    by (auto simp: ok_def rbind_eq_Inr_iff valid_entries_plain [OF top(3)] simp del: enum_lin.simps lin_prob.simps)
  moreover have "NoOfVars s2 = Suc (fsize ts)" "sd_vars s2 \<noteq> Null"
    using fold_keeps [OF *(1) hq_step_keeps] processTuple_keeps [OF *(2)] by (simp_all add: keeps_def)
  ultimately show ?thesis unfolding one_scan_group [OF sig(3) st(1,2) enum_lin_group(1) [OF lin] zero_less_Suc enum_lin_group(2) [OF lin]]
    by (auto simp del: enum_lin.simps lin_prob.simps)
qed

section \<open>A starred first column\<close>

text \<open>The passes on a node that a leaf heads, and their repetition.\<close>

lemma passes_leaf_head:
  assumes "isLeaf j"
  shows "calDomain (calSib (SigNode i (SigNode j [] # sibs))) =
    SigNode i (SigNode (j\<lparr>varsToCombine := length sibs, si_domain := sum_list (map leafDescendentCount sibs)\<rparr>) [] # map (calDomain \<circ> calSib) sibs)"
  using assms by (simp add: comp_def)

abbreviation passes :: "sigNode \<Rightarrow> sigNode" where
  "passes t \<equiv> calDomain (calSib t)"

definition head_fields :: "sigNode list \<Rightarrow> sigInfo \<Rightarrow> sigInfo" where
  "head_fields cs j =
     (if isLeaf j then j\<lparr>varsToCombine := length (tl cs), si_domain := sum_list (map leafDescendentCount (tl cs))\<rparr> else j)"

lemma upd_info_passes: "passes (upd_info f t) = upd_info f (passes t)"
  by (cases t) simp

lemma passes_node: "passes (SigNode i cs) = SigNode i (upd_first (upd_info (head_fields cs)) (map passes cs))"
proof (cases cs)
  case (Cons c sibs)
  obtain j ds where "c = SigNode j ds" by (cases c)
  then show ?thesis using Cons by (simp add: head_fields_def comp_def)
qed simp

lemma passes_idem: "passes (passes t) = passes t"
proof (induction t)
  case (SigNode i cs)
  show ?case
  proof (cases cs)
    case Nil
    then show ?thesis by simp
  next
    case (Cons c sibs)
    have "map passes (map passes sibs) = map passes sibs" "passes (passes c) = passes c" using SigNode Cons by simp_all
    moreover have "head_fields (x # map passes sibs) = head_fields (c # sibs)" for x
      by (simp add: fun_eq_iff head_fields_def comp_def)
    moreover have "upd_info (head_fields cs) (upd_info (head_fields cs) x) = upd_info (head_fields cs) x" for x
      by (cases x) (simp add: head_fields_def)
    ultimately show ?thesis unfolding passes_node Cons by (simp add: upd_info_passes Cons comp_def)
  qed
qed

lemma get1stLeafChild_eq:
  "is1Scan t = Inr True \<Longrightarrow> fillLeafNode t \<noteq> [] \<and> get1stLeafChild t = Inr (hd (fillLeafNode t))"
proof (induction t rule: get1stLeafChild.induct)
  case (1 i cs)
  show ?case
  proof (cases "isLeaf i")
    case False
    then obtain c sibs where cs: "cs = c # sibs" using 1(2) by (cases cs) auto
    then have "is1Scan c = Inr True" using 1(2) False by (auto simp: rbind_eq_Inr_iff split: if_splits)
    then show ?thesis using 1(1) [OF False cs] cs False by simp
  qed simp
qed

text \<open>
  A signature whose first column is a starred leaf and whose other groups have the one-scan
  property: the schedule aggregates the first column and nothing else.
\<close>

lemma schedule_simple:
  assumes t: "t = SigNode i (SigNode j [] # sibs)" "\<not> isLeaf i" "isLeaf j" "withStar j" "passes t = t"
    and sibs: "sibs \<noteq> []" "\<forall>c \<in> set sibs. is1Scan c = Inr True"
    and agg: "simpleAggregation junk j (hd (fillLeafNode (hd sibs))) lineage = Inr (j\<lparr>pt := Some tab\<rparr>)"
  shows "schedule junk lineage t = Inr (SigNode i (SigNode (j\<lparr>isLeaf := True, withStar := False, si_type := AGGREGATED, pt := Some tab\<rparr>) [] # sibs))"
proof -
  let ?j = "j\<lparr>pt := Some tab\<rparr>\<lparr>isLeaf := True, withStar := False, si_type := AGGREGATED\<rparr>"
  have ch: "schedule_children junk lineage cs = Inr cs" if "\<forall>c \<in> set cs. is1Scan c = Inr True" for cs
    using that by (induction cs) simp_all
  have sibs1: "all_res is1Scan sibs = Inr True" using sibs(2) by (simp add: all_res_True)
  obtain sib rest where sr: "sibs = sib # rest" using sibs(1) by (cases sibs) auto
  have not1: "is1Scan t = Inr False" using t(1-4) sibs1 by simp
  have "map passes sibs = sibs" and j: "j\<lparr>varsToCombine := length sibs, si_domain := sum_list (map leafDescendentCount sibs)\<rparr> = j"
    using t(5) passes_leaf_head [OF t(3), of i sibs] by (simp_all add: t(1) comp_def)
  then have "passes (SigNode i (SigNode ?j [] # sibs)) = SigNode i (SigNode ?j [] # sibs)"
    using passes_leaf_head [of ?j i sibs] arg_cong [OF j, of varsToCombine] arg_cong [OF j, of si_domain] by (simp add: comp_def)
  then have "aggregate_first junk lineage i (SigNode j [] # sibs) = Inr (SigNode i (SigNode ?j [] # sibs))"
    using agg get1stLeafChild_eq [of sib] sibs(2) t(3) by (simp add: aggregate_first_def sr)
  then show ?thesis using not1 ch [of sibs] sibs(2) t(1,3) by (simp add: all_res_True)
qed

lemma starred_leaves:
  assumes "new_signature cat sgt rs = Inr t" "t = SigNode i (SigNode j [] # sibs)" "\<not> isLeaf i" "isLeaf j" "\<forall>c \<in> set sibs. is1Scan c = Inr True"
  shows "passes t = t" "map col (fillLeafNode t) = tcols (Col (map shape_of sibs))"
proof -
  obtain t0 where t0: "fresh t0" "t = passes (snd (derivePos t0 0))" by (rule new_signature_tree [OF assms(1)])
  then show "passes t = t" by (simp add: passes_idem)
  obtain i' cs0 where u: "snd (derivePos t0 0) = SigNode i' cs0" by (cases "snd (derivePos t0 0)")
  then obtain c0 sibs0 where cs0: "cs0 = c0 # sibs0" "i' = i" "upd_info (head_fields cs0) (passes c0) = SigNode j []" "map passes sibs0 = sibs"
    using t0(2) unfolding assms(2) u passes_node by (cases cs0) auto
  obtain j0 ds0 where c0: "c0 = SigNode j0 ds0" by (cases c0)
  have j: "j = head_fields cs0 j0" using cs0(3) by (simp add: c0)
  then have leaf: "isLeaf j0" using assms(4) by (simp add: head_fields_def split: if_splits)
  have fresh: "fresh (SigNode i (SigNode j0 ds0 # sibs0))" using t0(1) derivePos_fresh(1) [of t0 0] by (simp add: u cs0 c0)
  then have ds0: "ds0 = []" using leaf by simp
  let ?u = "SigNode i (SigNode (j0\<lparr>withStar := False\<rparr>) [] # sibs0)"
  have "is1Scan c = Inr True" if "c \<in> set sibs0" for c
    using that assms(5) unfolding cs0(4) [symmetric] by (auto simp: is1Scan_calSib is1Scan_calDomain)
  then have "all_res is1Scan sibs0 = Inr True" by (simp add: all_res_True)
  then have "is1Scan ?u = Inr True" using leaf assms(3) by simp
  moreover have "fresh ?u" using fresh ds0 by simp
  ultimately have "map col (fillLeafNode (passes ?u)) = tcols (shape_of ?u)" by (rule calDomain_leaves)
  moreover have "map shape_of sibs = map shape_of sibs0" by (simp add: cs0(4) [symmetric] shape_passes)
  moreover have "col (j0\<lparr>withStar := False, varsToCombine := n, si_domain := m\<rparr>) = col (j0\<lparr>varsToCombine := n, si_domain := m\<rparr>)" for n m
    by (simp add: col_def)
  ultimately show "map col (fillLeafNode t) = tcols (Col (map shape_of sibs))"
    using assms(3) leaf by (simp add: t0(2) u cs0(1,2) c0 ds0 comp_def)
qed

text \<open>The scan of a stored lineage whose columns are in the order of the signature.\<close>

lemma oneScan_stored:
  assumes "map si_pos (fillLeafNode t) = [0..<n]" "\<forall>u \<in> set us. length u = n"
  shows "oneScan s t (map stored us) =
    rbind (fold_res hq_step us (s\<lparr>counter := 0, sd_vars := Ptr (fillLeafNode t), NoOfVars := n\<rparr>)) (\<lambda>s.
    rbind (processTuple s True) (\<lambda>(p, s). Inr (case p of None \<Rightarrow> 1 | Some r \<Rightarrow> r, s)))"
proof -
  have "leafDescendentCount t = n" using arg_cong [OF assms(1), of length] by (simp add: length_fillLeafNode)
  moreover have "fold_res (\<lambda>(vs, ps) state.
        rbind (gather [0..<n] vs) (\<lambda>cur.
        rbind (gather [0..<n] ps) (\<lambda>curp.
        rbind (processTuple (state\<lparr>curTuple := cur, curTupleProb := curp\<rparr>) False) (\<lambda>(_, state). Inr state)))) (map stored us) s' = fold_res hq_step us s'" for s'
    unfolding fold_res_map by (rule fold_res_cong) (use assms(2) in \<open>auto simp: stored_def gather_all hq_step_def\<close>)
  ultimately show ?thesis by (simp add: oneScan_def Let_def assms(1))
qed

lemma accumulate_store:
  assumes "\<not> isOneScan (sp_sig st)" "\<forall>u \<in> set us. length u = n" "us \<noteq> []" "getStateAndLineage (sp_agg st) = (s, l)"
  shows "fold_res (accumulate n) us st = Inr (st\<lparr>sp_groupcxt := True, sp_agg := putStateAndLineage (s, l @ map stored us) (sp_agg st)\<rparr>)"
  using assms
proof (induction us arbitrary: st l)
  case (Cons u us)
  let ?st = "st\<lparr>sp_groupcxt := True, sp_agg := putStateAndLineage (s, l @ [stored u]) (sp_agg st)\<rparr>"
  have step: "accumulate n u st = Inr ?st"
    using Cons.prems by (simp add: accumulate_def hq_advance_def gather_all storeLineage_def addVarProb_def stored_def)
  show ?case
  proof (cases "us = []")
    case False
    have "fold_res (accumulate n) us ?st = Inr (?st\<lparr>sp_groupcxt := True, sp_agg := putStateAndLineage (s, (l @ [stored u]) @ map stored us) (sp_agg ?st)\<rparr>)"
      by (rule Cons.IH) (use Cons.prems False in simp_all)
    then show ?thesis using step by simp
  qed (use step in simp)
qed simp

lemma grouped_first:
  assumes "es \<noteq> []"
  obtains g gs where "grouped es = g # gs" "fst g = fst (hd es)"
proof -
  obtain e es' where e: "es = e # es'" using assms by (cases es) auto
  obtain rs where "map rep_of (grouped ([e] @ es')) = map rep_of (grouped [e]) @ rs" using grouped_reps_append [of "[e]" es'] by auto
  then have "map rep_of (grouped es) = rep_of e # rs" by (cases e) (simp add: e grouped_def)
  then show ?thesis using that e by (cases "grouped es") auto
qed

lemma scheduled_scan:
  assumes sig: "new_signature cat sgt rs = Inr t" "t = SigNode i (SigNode j [] # sibs)" "\<not> isLeaf i" "isLeaf j" "withStar j"
    and sibs: "sibs \<noteq> []" "\<forall>c \<in> set sibs. is1Scan c = Inr True"
    and lin: "conforms (Col (map shape_of sibs)) (Lin es)" "partitioned es"
  shows "ok (rbind (schedule junk (map stored (enum_lin [Lin es])) t) (\<lambda>t. oneScan s t (map stored (enum_lin [Lin es])))) (\<lambda>(p, s'). p = lin_prob (Lin (grouped es)))"
proof -
  let ?ts = "map shape_of sibs" and ?us = "enum_lin [Lin es]"
  note leaves = new_signature_leaves(1,2) [OF sig(1)] and st = starred_leaves [OF sig(1-4) sibs(2)]
  have fill: "fillLeafNode t = j # concat (map fillLeafNode sibs)" using sig(2-4) by simp
  obtain sib rest where sr: "sibs = sib # rest" using sibs(1) by (cases sibs) auto
  have sib: "fillLeafNode sib \<noteq> []" using get1stLeafChild_eq [of sib] sibs(2) sr by simp
  then obtain y ys where y: "fillLeafNode sib = y # ys" by (cases "fillLeafNode sib") auto
  have pos: "si_pos j = 0" "si_pos y = 1" using leaves(1) by (auto simp: fill sr y upt_conv_Cons simp del: upt_Suc)
  have ty: "si_type j = NOTAGGREGATED" "si_type y = NOTAGGREGATED" using leaves(2) by (simp_all add: fill sr y NOTAGGREGATED_def)
  have len: "length (fillLeafNode t) = Suc (fsize ?ts)" using arg_cong [OF st(2), of length] by (simp only: length_map tcols.simps list.size)
  have sub: "\<forall>e \<in> set es. enum_lin (subs_of e) \<noteq> [] \<and> [] \<notin> set (enum_lin (subs_of e))"
  proof
    fix e assume "e \<in> set es"
    then have c: "list_all2 conforms ?ts (subs_of e)" using lin(1) by fastforce
    have "fsize ?ts \<noteq> 0" using sibs(1) fsize_0 [of ?ts] by simp
    then show "enum_lin (subs_of e) \<noteq> [] \<and> [] \<notin> set (enum_lin (subs_of e))" using enum_nonempty [OF c] enum_length [OF c, of "[]"] by auto
  qed
  let ?j = "rep_info (j\<lparr>isLeaf := True, withStar := False\<rparr>) (grouped es)"
  let ?t = "SigNode i (SigNode ?j [] # sibs)"
  have "simpleAggregation junk j y (map stored ?us) = Inr (j\<lparr>pt := Some (rep_table (grouped es))\<rparr>)"
    by (rule simpleAggregation_ok [OF ty pos lin(2) sub])
  then have sched: "schedule junk (map stored ?us) t = Inr ?t"
    using schedule_simple [OF sig(2-5) st(1) sibs, of junk "map stored ?us" "rep_table (grouped es)"] by (simp add: sr y rep_info_def del: enum_lin.simps)
  let ?vs = "fillLeafNode ?t"
  have vs: "?vs = ?j # concat (map fillLeafNode sibs)" using sig(3) by (simp add: rep_info_def)
  have "map col ?vs = tcols (Col ?ts)" "map si_pos ?vs = [0..<Suc (fsize ?ts)]"
    using st(2) leaves(1) unfolding vs len unfolding fill by (simp_all add: col_def rep_info_def del: upt_Suc)
  moreover have "\<forall>i \<in> set (concat (map fillLeafNode sibs)). si_type i = NOTAGGREGATED" using leaves(2) by (auto simp: fill NOTAGGREGATED_def)
  then have "\<forall>k < length ?vs. 1 \<le> k \<longrightarrow> si_type (?vs ! k) = NOTAGGREGATED" using nth_mem [of _ "concat (map fillLeafNode sibs)"]
    unfolding vs by (auto simp: nth_Cons' simp del: set_concat length_concat)
  ultimately have top: "top_col ?vs ?ts" using sibs(1,2) sig(3) by (simp add: top_col_def plain_def cols_from_def has_table_def vs rep_info_def)
  have "es \<noteq> []" using lin(1) by simp
  then obtain g gs where g: "grouped es = g # gs" "fst g = fst (hd es)" by (rule grouped_first)
  have len_vs: "length ?vs = Suc (fsize ?ts)" using len unfolding vs fill by simp
  have valid0: "isAValidVar (?vs ! 0) (fst (hd es)) = Inr True" unfolding vs by (simp add: rep_info_valid g)
  have scan: "ok (rbind (fold_res hq_step ?us (s\<lparr>counter := 0, sd_vars := Ptr ?vs, NoOfVars := Suc (fsize ?ts)\<rparr>)) (\<lambda>s. processTuple s True))
      (\<lambda>(p, s'). p = Some (lin_prob (Lin (valid_entries (?vs ! 0) es))))"
    by (rule one_scan_lin [OF top lin(1) _ _ _ valid0]) (simp_all add: len_vs del: fillLeafNode.simps)
  have "valid_entries ?j es = grouped es" by (rule valid_entries_grouped) (use lin(2) in \<open>simp add: partitioned_def\<close>)
  with scan show ?thesis
    unfolding sched using oneScan_stored [OF \<open>map si_pos ?vs = _\<close> enum_lin_group(2) [OF lin(1)], of s]
    by (auto simp: vs simp del: enum_lin.simps lin_prob.simps fillLeafNode.simps elim!: ok_mono)
qed

lemma delete_groupcxt_simps [simp]:
  "sp_groupcxt (delete_groupcxt st) = False" "sp_sig (delete_groupcxt st) = sp_sig st"
  "snd (getStateAndLineage (sp_agg (delete_groupcxt st))) = snd (getStateAndLineage (sp_agg st))"
  by (simp_all add: delete_groupcxt_def getStateAndLineage_def)

text \<open>A group of a query whose signature is scheduled; the signature and the empty lineage are back at the end.\<close>

fun starred :: "sigNode \<Rightarrow> bool" where
  "starred (SigNode i (SigNode j [] # sibs)) \<longleftrightarrow>
     \<not> isLeaf i \<and> isLeaf j \<and> withStar j \<and> sibs \<noteq> [] \<and> (\<forall>c \<in> set sibs. is1Scan c = Inr True)"
| "starred _ \<longleftrightarrow> False"

lemma starred_E:
  assumes "starred t"
  obtains i j sibs where "t = SigNode i (SigNode j [] # sibs)" "\<not> isLeaf i" "isLeaf j" "withStar j" "sibs \<noteq> []" "\<forall>c \<in> set sibs. is1Scan c = Inr True"
  using assms that by (cases t rule: starred.cases) auto

definition starred_signature :: "catalog \<Rightarrow> sigGlobals \<Rightarrow> shape list \<Rightarrow> bool" where
  "starred_signature cat g ts \<longleftrightarrow> \<not> isOneScan g \<and> new_signature cat (sgTreeRoot g) (relList g) = Inr (sigTreeRoot g) \<and>
     starred (sigTreeRoot g) \<and> ts = map shape_of (tl (node_children (sigTreeRoot g)))"

lemma scheduled_group:
  assumes sig: "starred_signature cat (sp_sig st) ts" and lin: "conforms (Col ts) (Lin es)" "partitioned es"
    and st: "snd (getStateAndLineage (sp_agg st)) = []"
  shows "ok (conf_group_HQ junk cat (Suc (fsize ts)) (enum_lin [Lin es]) st) (\<lambda>(p, st').
    p = lin_prob (Lin (grouped es)) \<and> sp_sig st' = sp_sig st \<and> snd (getStateAndLineage (sp_agg st')) = [])"
proof -
  let ?us = "enum_lin [Lin es]" and ?g = "sp_sig st"
  obtain s where s: "getStateAndLineage (sp_agg st) = (s, [])" using st by (metis prod.collapse)
  have new: "new_signature cat (sgTreeRoot ?g) (relList ?g) = Inr (sigTreeRoot ?g)" and star: "starred (sigTreeRoot ?g)"
    using sig by (simp_all add: starred_signature_def)
  obtain i j sibs where t: "sigTreeRoot ?g = SigNode i (SigNode j [] # sibs)" "\<not> isLeaf i" "isLeaf j" "withStar j" "sibs \<noteq> []"
    "\<forall>c \<in> set sibs. is1Scan c = Inr True" by (rule starred_E [OF star])
  have ts: "ts = map shape_of sibs" using sig by (simp add: starred_signature_def t(1))
  have one: "\<not> isOneScan ?g" using sig by (simp add: starred_signature_def)
  have acc: "fold_res (accumulate (Suc (fsize ts))) ?us st = Inr (st\<lparr>sp_groupcxt := True, sp_agg := putStateAndLineage (s, map stored ?us) (sp_agg st)\<rparr>)"
    using accumulate_store [OF one enum_lin_group(2) [OF lin(1)] enum_lin_group(1) [OF lin(1)] s] by simp
  have scan: "ok (rbind (schedule junk (map stored ?us) (sigTreeRoot ?g)) (\<lambda>t. oneScan s t (map stored ?us))) (\<lambda>(p, s'). p = lin_prob (Lin (grouped es)))"
    by (rule scheduled_scan [OF new t lin [unfolded ts]])
  then obtain t' s' where *: "schedule junk (map stored ?us) (sigTreeRoot ?g) = Inr t'" "oneScan s t' (map stored ?us) = Inr (lin_prob (Lin (grouped es)), s')"
    by (auto simp: ok_def rbind_eq_Inr_iff simp del: enum_lin.simps lin_prob.simps)
  show ?thesis using one new unfolding conf_group_HQ_def acc by (simp add: conf_final_def Let_def * del: enum_lin.simps lin_prob.simps)
qed

text \<open>The groups of the sorted input, one after the other.\<close>

fun conf_groups_HQ :: "(nat \<Rightarrow> int) \<Rightarrow> catalog \<Rightarrow> nat \<Rightarrow> tuple list list \<Rightarrow> sproutState \<Rightarrow> (real list \<times> sproutState) res" where
  "conf_groups_HQ junk cat n [] st = Inr ([], st)"
| "conf_groups_HQ junk cat n (ts # groups) st =
     rbind (conf_group_HQ junk cat n ts st) (\<lambda>(p, st).
     rbind (conf_groups_HQ junk cat n groups st) (\<lambda>(ps, st). Inr (p # ps, st)))"

lemma scheduled_groups:
  assumes "starred_signature cat (sp_sig st) ts" "\<forall>es \<in> set ess. conforms (Col ts) (Lin es) \<and> partitioned es"
    and "snd (getStateAndLineage (sp_agg st)) = []"
  shows "ok (conf_groups_HQ junk cat (Suc (fsize ts)) (map (\<lambda>es. enum_lin [Lin es]) ess) st) (\<lambda>(ps, st'). ps = map (\<lambda>es. lin_prob (Lin (grouped es))) ess)"
  using assms
proof (induction ess arbitrary: st)
  case (Cons es ess)
  have "ok (conf_group_HQ junk cat (Suc (fsize ts)) (enum_lin [Lin es]) st) (\<lambda>(p, st').
    p = lin_prob (Lin (grouped es)) \<and> sp_sig st' = sp_sig st \<and> snd (getStateAndLineage (sp_agg st')) = [])"
    by (rule scheduled_group) (use Cons.prems in simp_all)
  then obtain st' where st': "conf_group_HQ junk cat (Suc (fsize ts)) (enum_lin [Lin es]) st = Inr (lin_prob (Lin (grouped es)), st')"
    "sp_sig st' = sp_sig st" "snd (getStateAndLineage (sp_agg st')) = []"
    by (auto simp: ok_def simp del: enum_lin.simps lin_prob.simps)
  have "ok (conf_groups_HQ junk cat (Suc (fsize ts)) (map (\<lambda>es. enum_lin [Lin es]) ess) st') (\<lambda>(ps, st'). ps = map (\<lambda>es. lin_prob (Lin (grouped es))) ess)"
    by (rule Cons.IH) (use Cons.prems st' in simp_all)
  then show ?case by (auto simp: st'(1) elim!: ok_mono simp del: enum_lin.simps lin_prob.simps)
qed simp

text \<open>In the one-scan mode the second group reads the columns that were freed with the first one.\<close>

lemma one_scan_freed:
  assumes "isOneScan (sp_sig st)" "getStateAndLineage (sp_agg st) = (s, l)" "sd_vars s = Freed" "NoOfVars s = n" "0 < n" "counter s = 0" "length u = n"
  shows "conf_group_HQ junk cat n (u # us) st = Inl UseAfterFree"
proof -
  have "fold_res load_sum [0..<n] s' = Inl UseAfterFree" if "sd_vars s' = Freed" for s'
    using that assms(5) by (simp add: upt_conv_Cons load_sum_def lookup_at_def)
  then have "hq_step u s = Inl UseAfterFree" using assms(3-6)
    by (simp add: hq_step_def processTuple_def Let_def new_block_def for_upto_def)
  then show ?thesis using accumulate_step [OF assms(1,7,2)] assms(4,5) by (simp add: conf_group_HQ_def)
qed

section \<open>Results\<close>

definition hq_start :: "sigGlobals \<Rightarrow> bool \<Rightarrow> sproutState" where
  "hq_start g hashed = \<lparr>sp_groupcxt = False, sp_sig = g, sp_agg = init_agg hashed\<rparr>"

lemma hq_start_simps [simp]:
  "sp_sig (hq_start g h) = g" "getStateAndLineage (sp_agg (hq_start g h)) = (palloc0_stateData, [])"
  by (simp_all add: hq_start_def init_agg_def getStateAndLineage_def)

lemma palloc0_stateData_fields [simp]: "NoOfVars palloc0_stateData = 0" "counter palloc0_stateData = 0"
  by (simp_all add: palloc0_stateData_def)

lemma leaf_count: "length (fillLeafNode t) = n \<Longrightarrow> leafDescendentCount t = n"
  by (simp add: length_fillLeafNode)

text \<open>Worlds of fair coins.\<close>

definition coins :: "int list \<Rightarrow> wtable" where
  "coins vs = map (\<lambda>v. (v, [(1, 1/2), (2, 1/2)])) vs"

lemma coins_ok: "distinct vs \<Longrightarrow> wt_ok (coins vs)"
  by (auto simp: coins_def wt_ok_def dist_ok_def comp_def)

lemma one_scan_Pr:
  assumes sig: "ProcessSignature cat fromClause list = Inr g" "isOneScan g" "shape_of (sigTreeRoot g) = Col ts" "ts \<noteq> []"
    and lin: "conforms (Col ts) (Lin es)" and W: "wt_ok W" "lin_in W (Lin es)" "distinct (lin_vars (Lin es))"
  shows "ok (conf_group_HQ junk cat (leafDescendentCount (sigTreeRoot g)) (enum_lin [Lin es]) (hq_start g hashed))
    (\<lambda>(p, st). p = Pr W (lineage_holds (map clause_of (enum_lin [Lin es]))))"
proof -
  note new = ProcessSignature_new [OF sig(1)]
  have n: "leafDescendentCount (sigTreeRoot g) = Suc (fsize ts)"
    by (rule leaf_count, rule one_scan_top_col(2) [OF new(1)]) (use new(2) sig in simp_all)
  have "ok (conf_group_HQ junk cat (Suc (fsize ts)) (enum_lin [Lin es]) (hq_start g hashed)) (\<lambda>(p, st'). p = lin_prob (Lin es) \<and>
    (\<exists>s'. NoOfVars s' = Suc (fsize ts) \<and> sd_vars s' \<noteq> Null \<and> st' = delete_groupcxt (hq_start g hashed\<lparr>sp_groupcxt := True,
      sp_agg := putStateAndLineage (s'\<lparr>counter := 0\<rparr>, []) (sp_agg (hq_start g hashed))\<rparr>)))"
    by (rule one_scan_conf_group [where s = palloc0_stateData and l = "[]", OF _ _ _ _ sig(4) lin]) (use new sig in simp_all)
  then show ?thesis unfolding n using lin_prob_Pr [OF W] lin_holds_lineage [of "Lin es"]
    by (auto elim!: ok_mono simp del: enum_lin.simps lin_prob.simps lin_holds.simps)
qed

text \<open>
  C4. The confidence of a hierarchical query whose signature has the one-scan property: for a
  lineage that has the shape of the signature, sorted by its columns, the transition calls and
  the final call return the probability of the lineage.
\<close>

theorem one_scan_conf:
  assumes sig: "ProcessSignature cat fromClause list = Inr g" "isOneScan g" "shape_of (sigTreeRoot g) = Col ts" "ts \<noteq> []"
    and lin: "conforms (Col ts) (Lin es)" and W: "wt_ok W" "lin_in W (Lin es)" "distinct (lin_vars (Lin es))"
  shows "ok (conf_group_HQ junk cat (leafDescendentCount (sigTreeRoot g)) (enum_lin [Lin es]) (hq_start g hashed))
    (\<lambda>(p, st). p = Pr W (lineage_holds (map clause_of (enum_lin [Lin es]))))"
  by (rule one_scan_Pr [OF assms])

theorem one_scan_conf_witness:
  "\<exists>g. ProcessSignature (keyed [''a'']) (tables ''RS'') R_join_S = Inr g \<and>
    ok (conf_group_HQ (\<lambda>_. 0) (keyed [''a'']) 2 (enum_lin [Lin [(1, 1/2, [Lin [(3, 1/2, []), (4, 1/2, [])]]), (2, 1/2, [Lin [(5, 1/2, [])]])]]) (hq_start g False))
      (\<lambda>(p, st). p = 17/32)"
proof -
  let ?es = "[(1, 1/2, [Lin [(3, 1/2, []), (4, 1/2, [])]]), (2, 1/2, [Lin [(5, 1/2, [])]])]" and ?W = "coins [1, 2, 3, 4, 5]"
  have "case ProcessSignature (keyed [''a'']) (tables ''RS'') R_join_S of Inl _ \<Rightarrow> False
      | Inr g \<Rightarrow> isOneScan g \<and> shape_of (sigTreeRoot g) = Col [Col []] \<and> leafDescendentCount (sigTreeRoot g) = 2" by code_simp
  then obtain g where g: "ProcessSignature (keyed [''a'']) (tables ''RS'') R_join_S = Inr g" "isOneScan g" "shape_of (sigTreeRoot g) = Col [Col []]"
    "leafDescendentCount (sigTreeRoot g) = 2" by (auto split: sum.splits)
  have lin: "lin_in ?W (Lin ?es)" "distinct (lin_vars (Lin ?es))" by (auto simp: coins_def)
  have W: "wt_ok ?W" by (rule coins_ok) simp
  have "Pr ?W (lin_holds (Lin ?es)) = 17/32" by (simp add: lin_prob_Pr [OF W lin] del: lin_holds.simps)
  moreover have "ok (conf_group_HQ (\<lambda>_. 0) (keyed [''a'']) (leafDescendentCount (sigTreeRoot g)) (enum_lin [Lin ?es]) (hq_start g False))
      (\<lambda>(p, st). p = Pr ?W (lineage_holds (map clause_of (enum_lin [Lin ?es]))))"
    by (rule one_scan_conf [OF g(1-3) _ _ W lin]) simp_all
  ultimately show ?thesis using g by (simp only: lin_holds_lineage) blast
qed

text \<open>
  C5. The confidences of a query whose signature starts with a starred column, such as
  \<open>(A*B*)*\<close>: for every group of the input, the aggregation of the first column followed by the
  scan of the stored lineage returns the probability of the lineage of the group. The entries of
  the first column fall into partitions that have their partners in common and share no other.
\<close>

theorem scheduled_conf:
  assumes sig: "ProcessSignature cat fromClause list = Inr g" "starred_signature cat g ts"
    and lin: "\<forall>es \<in> set ess. conforms (Col ts) (Lin es) \<and> partitioned es \<and> lin_in W (Lin es) \<and> shared_distinct es" and W: "wt_ok W"
  shows "ok (conf_groups_HQ junk cat (leafDescendentCount (sigTreeRoot g)) (map (\<lambda>es. enum_lin [Lin es]) ess) (hq_start g hashed))
    (\<lambda>(ps, st). ps = map (\<lambda>es. Pr W (lineage_holds (map clause_of (enum_lin [Lin es])))) ess)"
proof -
  have new: "new_signature cat (sgTreeRoot g) (relList g) = Inr (sigTreeRoot g)" and star: "starred (sigTreeRoot g)"
    using sig(2) by (simp_all add: starred_signature_def)
  obtain i j sibs where t: "sigTreeRoot g = SigNode i (SigNode j [] # sibs)" "\<not> isLeaf i" "isLeaf j" "\<forall>c \<in> set sibs. is1Scan c = Inr True"
    by (rule starred_E [OF star])
  have ts: "ts = map shape_of sibs" using sig(2) by (simp add: starred_signature_def t(1))
  have n: "leafDescendentCount (sigTreeRoot g) = Suc (fsize ts)"
    using arg_cong [OF starred_leaves(2) [OF new t], of length] unfolding ts [symmetric] length_map length_fillLeafNode by simp
  have "ok (conf_groups_HQ junk cat (Suc (fsize ts)) (map (\<lambda>es. enum_lin [Lin es]) ess) (hq_start g hashed)) (\<lambda>(ps, st'). ps = map (\<lambda>es. lin_prob (Lin (grouped es))) ess)"
    by (rule scheduled_groups) (use sig(2) lin in simp_all)
  moreover have "map (\<lambda>es. lin_prob (Lin (grouped es))) ess = map (\<lambda>es. Pr W (lin_holds (Lin es))) ess"
    using lin lin_prob_grouped [OF W] by (simp del: lin_prob.simps lin_holds.simps)
  ultimately show ?thesis unfolding n lin_holds_lineage by (simp del: enum_lin.simps lin_prob.simps)
qed

theorem scheduled_conf_witness:
  "\<exists>g. ProcessSignature (keyed []) (tables ''RS'') R_join_S = Inr g \<and>
    ok (conf_groups_HQ (\<lambda>_. 0) (keyed []) 2 [enum_lin [Lin [(1, 1/2, [Lin [(3, 1/2, [])]]), (2, 1/2, [Lin [(3, 1/2, [])]])]], enum_lin [Lin [(4, 1/2, [Lin [(5, 1/2, [])]])]]] (hq_start g False))
      (\<lambda>(ps, st). ps = [3/8, 1/4])"
proof -
  let ?es = "[(1, 1/2, [Lin [(3, 1/2, [])]]), (2, 1/2, [Lin [(3, 1/2, [])]])]" and ?es' = "[(4, 1/2, [Lin [(5, 1/2, [])]])]" and ?W = "coins [1, 2, 3, 4, 5]"
  have "case ProcessSignature (keyed []) (tables ''RS'') R_join_S of Inl _ \<Rightarrow> False
      | Inr g \<Rightarrow> \<not> isOneScan g \<and> leafDescendentCount (sigTreeRoot g) = 2 \<and> starred (sigTreeRoot g) \<and> map shape_of (tl (node_children (sigTreeRoot g))) = [Col []]"
    by code_simp
  then obtain g where g: "ProcessSignature (keyed []) (tables ''RS'') R_join_S = Inr g" "\<not> isOneScan g" "leafDescendentCount (sigTreeRoot g) = 2"
    "starred (sigTreeRoot g)" "map shape_of (tl (node_children (sigTreeRoot g))) = [Col []]"
    by (auto split: sum.splits)
  have sig: "starred_signature (keyed []) g [Col []]"
    using g ProcessSignature_new(1) [OF g(1)] by (simp add: starred_signature_def)
  have W: "wt_ok ?W" by (rule coins_ok) simp
  have lin: "\<forall>es \<in> set [?es, ?es']. conforms (Col [Col []]) (Lin es) \<and> partitioned es \<and> lin_in ?W (Lin es) \<and> shared_distinct es"
    by (auto simp: coins_def partitioned_def partners_def shared_distinct_def)
  have "lin_in ?W (Lin ?es)" "shared_distinct ?es" "lin_in ?W (Lin ?es')" "shared_distinct ?es'" using lin by simp_all
  then have "Pr ?W (lin_holds (Lin ?es)) = 3/8" "Pr ?W (lin_holds (Lin ?es')) = 1/4"
    by (simp_all only: lin_prob_grouped [OF W]) (simp_all add: grouped_def indeEventConjunc_def)
  moreover have "ok (conf_groups_HQ (\<lambda>_. 0) (keyed []) (leafDescendentCount (sigTreeRoot g)) (map (\<lambda>es. enum_lin [Lin es]) [?es, ?es']) (hq_start g False))
      (\<lambda>(ps, st). ps = map (\<lambda>es. Pr ?W (lineage_holds (map clause_of (enum_lin [Lin es])))) [?es, ?es'])"
    by (rule scheduled_conf [OF g(1) sig lin W])
  ultimately have "ok (conf_groups_HQ (\<lambda>_. 0) (keyed []) 2 [enum_lin [Lin ?es], enum_lin [Lin ?es']] (hq_start g False)) (\<lambda>(ps, st). ps = [3/8, 1/4])"
    by (simp only: lin_holds_lineage list.map g(3))
  then show ?thesis by (intro exI [of _ g] conjI g(1))
qed

text \<open>
  C39. With a one-scan signature and the sorted strategy, the second group reads the array of
  columns that was freed together with the first group: the array is allocated in the memory
  context of the first group and kept for all others.
\<close>

theorem one_scan_second_group:
  assumes sig: "ProcessSignature cat fromClause list = Inr g" "isOneScan g" "shape_of (sigTreeRoot g) = Col ts" "ts \<noteq> []"
    and lin: "conforms (Col ts) (Lin es)" and u: "length u = leafDescendentCount (sigTreeRoot g)"
  shows "conf_groups_HQ junk cat (leafDescendentCount (sigTreeRoot g)) [enum_lin [Lin es], u # us] (hq_start g False) = Inl UseAfterFree"
proof -
  note new = ProcessSignature_new [OF sig(1)]
  have n: "leafDescendentCount (sigTreeRoot g) = Suc (fsize ts)"
    by (rule leaf_count, rule one_scan_top_col(2) [OF new(1)]) (use new(2) sig in simp_all)
  have "ok (conf_group_HQ junk cat (Suc (fsize ts)) (enum_lin [Lin es]) (hq_start g False)) (\<lambda>(p, st'). p = lin_prob (Lin es) \<and>
    (\<exists>s'. NoOfVars s' = Suc (fsize ts) \<and> sd_vars s' \<noteq> Null \<and> st' = delete_groupcxt (hq_start g False\<lparr>sp_groupcxt := True,
      sp_agg := putStateAndLineage (s'\<lparr>counter := 0\<rparr>, []) (sp_agg (hq_start g False))\<rparr>)))"
    by (rule one_scan_conf_group [where s = palloc0_stateData and l = "[]", OF _ _ _ _ sig(4) lin]) (use new sig in simp_all)
  then obtain p s' where first: "conf_group_HQ junk cat (Suc (fsize ts)) (enum_lin [Lin es]) (hq_start g False) = Inr (p, delete_groupcxt (hq_start g False\<lparr>sp_groupcxt := True,
      sp_agg := putStateAndLineage (s'\<lparr>counter := 0\<rparr>, []) (sp_agg (hq_start g False))\<rparr>))" (is "_ = Inr (p, ?st)") "NoOfVars s' = Suc (fsize ts)" "sd_vars s' \<noteq> Null"
    by (auto simp: ok_def simp del: enum_lin.simps lin_prob.simps)
  have "getStateAndLineage (sp_agg ?st) = (free_vars (s'\<lparr>counter := 0\<rparr>), [])"
    by (simp add: delete_groupcxt_def hq_start_def init_agg_def putStateAndLineage_def getStateAndLineage_def)
  moreover have "sd_vars (free_vars (s'\<lparr>counter := 0\<rparr>)) = Freed" using first(3) by (auto simp: free_vars_def split: ptr.split)
  ultimately have "conf_group_HQ junk cat (Suc (fsize ts)) (u # us) ?st = Inl UseAfterFree"
    by (rule one_scan_freed [rotated 1]) (use sig(2) first(2) u n in \<open>simp_all add: free_vars_def\<close>)
  then show ?thesis by (simp add: n first(1) del: enum_lin.simps)
qed

theorem one_scan_second_group_witness:
  "\<exists>g. ProcessSignature (keyed [''a'']) (tables ''RS'') R_join_S = Inr g \<and>
    conf_groups_HQ (\<lambda>_. 0) (keyed [''a'']) 2 [enum_lin [Lin [(1, 1/2, [Lin [(3, 1/2, [])]])]], [[(2, 1/2), (4, 1/2)]]] (hq_start g False) = Inl UseAfterFree"
proof -
  have "case ProcessSignature (keyed [''a'']) (tables ''RS'') R_join_S of Inl _ \<Rightarrow> False
      | Inr g \<Rightarrow> isOneScan g \<and> shape_of (sigTreeRoot g) = Col [Col []] \<and> leafDescendentCount (sigTreeRoot g) = 2" by code_simp
  then obtain g where g: "ProcessSignature (keyed [''a'']) (tables ''RS'') R_join_S = Inr g" "isOneScan g" "shape_of (sigTreeRoot g) = Col [Col []]"
    "leafDescendentCount (sigTreeRoot g) = 2" by (auto split: sum.splits)
  have "conf_groups_HQ (\<lambda>_. 0) (keyed [''a'']) (leafDescendentCount (sigTreeRoot g)) [enum_lin [Lin [(1, 1/2, [Lin [(3, 1/2, [])]])]], [[(2, 1/2), (4, 1/2)]]] (hq_start g False) = Inl UseAfterFree"
    by (rule one_scan_second_group [OF g(1-3)]) (simp_all add: g(4))
  then show ?thesis using g(1,4) by (simp only: exI [of _ g])
qed

text \<open>
  C21. The transition function for a single tuple-independent relation: folding the probabilities
  of the tuples of a group gives the probability that one of them is present.
\<close>

theorem conf_accum1_correct:
  assumes "wt_ok W" "distinct (map fst args)" "\<forall>(v, p) \<in> set args. \<exists>d. (v, d) \<in> set W \<and> (1, p) \<in> set d"
  shows "foldl conf_accum1 0 args = Pr W (lineage_holds (map (\<lambda>a. clause_of [a]) args))"
  by (rule conf_accum1_Pr [OF assms])

theorem conf_accum1_correct_witness:
  "foldl conf_accum1 0 [(1, 1/2), (2, 1/2)] = 3/4 \<and>
   Pr (coins [1, 2]) (lineage_holds [clause_of [(1, 1/2)], clause_of [(2, 1/2)]]) = 3/4"
proof -
  have "foldl conf_accum1 0 [(1, 1/2), (2, 1/2)] = Pr (coins [1, 2]) (lineage_holds (map (\<lambda>a. clause_of [a]) [(1, 1/2), (2, 1/2)]))"
    by (rule conf_accum1_correct [OF coins_ok]) (auto simp: coins_def)
  then show ?thesis by (simp add: conf_accum1_def)
qed

text \<open>
  An attribute that is only a part of the primary key of a relation counts as its key, so that
  the relation loses its star. For \<open>R\<close> with the key \<open>(a, b)\<close>, the query that joins \<open>R\<close> and \<open>S\<close> on
  \<open>a\<close> gets a one-scan signature; on two tuples of \<open>R\<close> that join the same tuple of \<open>S\<close>, all of
  probability \<open>1/2\<close>, it returns \<open>7/16\<close> while the probability is \<open>3/8\<close>.
\<close>

theorem composite_key_wrong:
  "rbind (geneSGList (keyed [''a'', ''b'']) (tables ''RS'') (Some (equality [''R'', ''a''] [''S'', ''a''])) []) (\<lambda>l.
     rbind (ProcessSignature (keyed [''a'', ''b'']) (tables ''RS'') l) (\<lambda>g.
     rbind (conf_group_HQ (\<lambda>_. 0) (keyed [''a'', ''b'']) 2 [[(1, 1/2), (3, 1/2)], [(2, 1/2), (3, 1/2)]] (hq_start g False)) (\<lambda>(p, st).
     Inr (isOneScan g, p)))) = Inr (True, 7/16) \<and>
   Pr (coins [1, 2, 3]) (lineage_holds (map clause_of [[(1, 1/2), (3, 1/2)], [(2, 1/2), (3, 1/2)]])) = 3/8"
proof
  show "rbind (geneSGList (keyed [''a'', ''b'']) (tables ''RS'') (Some (equality [''R'', ''a''] [''S'', ''a''])) []) (\<lambda>l.
     rbind (ProcessSignature (keyed [''a'', ''b'']) (tables ''RS'') l) (\<lambda>g.
     rbind (conf_group_HQ (\<lambda>_. 0) (keyed [''a'', ''b'']) 2 [[(1, 1/2), (3, 1/2)], [(2, 1/2), (3, 1/2)]] (hq_start g False)) (\<lambda>(p, st).
     Inr (isOneScan g, p)))) = Inr (True, 7/16)" by code_simp
qed (simp add: coins_def Pr_Cons lineage_holds_def clause_of_def)

text \<open>
  Only the first of several maximal subgoal lists becomes part of the signature; the relations
  of the others count as not joined. For \<open>R\<close>, \<open>S\<close> joined on \<open>a\<close> and \<open>T\<close>, \<open>U\<close> joined on \<open>b\<close>, a
  hierarchical query, the two aggregated columns of the signature make the scan run past the end
  of a table of representatives.
\<close>

theorem two_components_crash:
  "rbind (geneSGList (keyed []) (tables ''RSTU'')
       (Some (A_Expr AEXPR_AND [] (Some (equality [''R'', ''a''] [''S'', ''a''])) (Some (equality [''T'', ''b''] [''U'', ''b''])))) []) (\<lambda>l.
     rbind (isHQ l) (\<lambda>hq.
     rbind (ProcessSignature (keyed []) (tables ''RSTU'') l) (\<lambda>g.
     if hq then rbind (conf_group_HQ (\<lambda>_. 0) (keyed []) 4
       [[(1, 1/2), (2, 1/2), (3, 1/2), (4, 1/2)], [(5, 1/2), (6, 1/2), (3, 1/2), (4, 1/2)]] (hq_start g False)) (\<lambda>(p, st). Inr p)
     else Inr 0))) = Inl NullPointer"
  by code_simp

text \<open>
  A negation in the where clause makes \<open>geneSGList\<close> forget the joins it has read: the absent
  left operand of \<open>NOT\<close> resets the list. A query that joins \<open>R\<close> and \<open>S\<close> on \<open>a\<close> and \<open>S\<close> and \<open>T\<close> on
  \<open>b\<close>, which is not hierarchical, is then computed as a product of relations: \<open>3/16\<close> for the
  probability \<open>7/32\<close>.
\<close>

theorem negation_loses_joins:
  "rbind (geneSGList (keyed []) (tables ''RST'')
       (Some (A_Expr AEXPR_AND []
         (Some (A_Expr AEXPR_AND [] (Some (equality [''R'', ''a''] [''S'', ''a''])) (Some (equality [''S'', ''b''] [''T'', ''b'']))))
         (Some (A_Expr AEXPR_NOT [] None (Some (A_Expr AEXPR_OP [''=''] (Some (ColumnRef [''R'', ''b''])) (Some OtherExpr))))))) []) (\<lambda>l.
     rbind (isHQ l) (\<lambda>hq.
     rbind (ProcessSignature (keyed []) (tables ''RST'') l) (\<lambda>g.
     rbind (conf_group_HQ (\<lambda>_. 0) (keyed []) 3 [[(1, 1/2), (2, 1/2), (3, 1/2)], [(1, 1/2), (4, 1/2), (5, 1/2)]] (hq_start g False)) (\<lambda>(p, st).
     Inr (hq, p))))) = Inr (True, 3/16) \<and>
   Pr (coins [1, 2, 3, 4, 5]) (lineage_holds (map clause_of [[(1, 1/2), (2, 1/2), (3, 1/2)], [(1, 1/2), (4, 1/2), (5, 1/2)]])) = 7/32"
proof
  show "rbind (geneSGList (keyed []) (tables ''RST'')
       (Some (A_Expr AEXPR_AND []
         (Some (A_Expr AEXPR_AND [] (Some (equality [''R'', ''a''] [''S'', ''a''])) (Some (equality [''S'', ''b''] [''T'', ''b'']))))
         (Some (A_Expr AEXPR_NOT [] None (Some (A_Expr AEXPR_OP [''=''] (Some (ColumnRef [''R'', ''b''])) (Some OtherExpr))))))) []) (\<lambda>l.
     rbind (isHQ l) (\<lambda>hq.
     rbind (ProcessSignature (keyed []) (tables ''RST'') l) (\<lambda>g.
     rbind (conf_group_HQ (\<lambda>_. 0) (keyed []) 3 [[(1, 1/2), (2, 1/2), (3, 1/2)], [(1, 1/2), (4, 1/2), (5, 1/2)]] (hq_start g False)) (\<lambda>(p, st).
     Inr (hq, p))))) = Inr (True, 3/16)" by code_simp
qed (simp add: coins_def Pr_Cons lineage_holds_def clause_of_def)

end
