(* ===== verification/ParseNodes.thy ===== *)
theory ParseNodes
  imports Signature "HOL-Library.Signed_Division"
begin

text \<open>
  The parse tree of a statement and the functions that build pieces of it (\<^verbatim>\<open>parsenodes.h\<close>,
  \<^verbatim>\<open>primnodes.h\<close>, \<^verbatim>\<open>rewrite_utils.c\<close>). A node is a value of the datatype \<open>node\<close>, with the constructors
  named by the tags of the C structures; a structure with many fields, the select statement, is a
  constructor with selectors, its scalar fields a record. A null pointer is \<open>None\<close>, a null list
  \<open>[]\<close>. A function that changes a node in place returns the changed node.

  The condition columns of a relation are named \<open>_v0\<close>, \<open>_d0\<close>, \<open>_p0\<close>, \<open>_v1\<close> and so on. The names
  are printed into a buffer of five characters (\<open>catStrInt\<close>): the lemmas show that this succeeds
  below ten thousand, that distinct columns get distinct names, and that it is out of bounds
  beyond.
\<close>

named_theorems select_simps

section \<open>Nodes\<close>

datatype Value = T_Integer int | T_Float string | T_String string

datatype SetOperation = SETOP_NONE | SETOP_UNION | SETOP_INTERSECT | SETOP_EXCEPT

datatype SubLinkType = EXISTS_SUBLINK | ALL_SUBLINK | ANY_SUBLINK | ROWCOMPARE_SUBLINK | EXPR_SUBLINK | ARRAY_SUBLINK

record IntoClause =
  into_rel :: RangeVar
  into_tabletype :: char

text \<open>The scalar fields of a select statement.\<close>

record select_info =
  intoClause :: "IntoClause option"
  possible :: bool
  tabletype :: char
  dimension :: int
  isFromRepairKey :: "bool list"
  pickingType :: char
  setop :: SetOperation
  set_all :: bool

datatype node =
    T_RangeVar RangeVar
  | T_RangeSubselect "string option" node              \<comment> \<open>name of the alias, \<open>subquery\<close>\<close>
  | T_JoinExpr bool node node                          \<comment> \<open>\<open>isNatural\<close>, \<open>larg\<close>, \<open>rarg\<close>\<close>
  | T_RangeFunction
  | T_ColumnRef "string list"                          \<comment> \<open>\<open>fields\<close>\<close>
  | T_A_Const Value "string list option"               \<comment> \<open>\<open>val\<close>, names of the type\<close>
  | T_A_Expr A_Expr_Kind "string list" "node option" "node option"
  | T_FuncCall "string list" "node list" bool bool     \<comment> \<open>\<open>funcname\<close>, \<open>args\<close>, \<open>agg_star\<close>, \<open>agg_distinct\<close>\<close>
  | T_TypeCast node "string list"                      \<comment> \<open>\<open>arg\<close>, names of the type\<close>
  | T_ResTarget "string option" "node option"          \<comment> \<open>\<open>name\<close>, \<open>val\<close>\<close>
  | T_SortBy node
  | T_SubLink SubLinkType "node option" node           \<comment> \<open>type, \<open>testexpr\<close>, \<open>subselect\<close>\<close>
  | T_CaseExpr
  | T_NullTest node
  | T_BooleanTest node
  | T_CoalesceExpr "node list"
  | T_ArrayExpr
  | T_RowExpr "node list"
  | T_XmlExpr
  | T_XmlSerialize node
  | T_A_Indirection node
  | T_CurrentOfExpr
  | T_SelectStmt SelectStmt
  | T_InsertStmt RangeVar "node list" "node option"    \<comment> \<open>\<open>relation\<close>, \<open>cols\<close>, \<open>selectStmt\<close>\<close>
  | T_UpdateStmt RangeVar "node list" "node option" "node list"    \<comment> \<open>\<open>relation\<close>, \<open>targetList\<close>, \<open>whereClause\<close>, \<open>fromClause\<close>\<close>
  | T_DeleteStmt RangeVar "node list" "node option"    \<comment> \<open>\<open>relation\<close>, \<open>usingClause\<close>, \<open>whereClause\<close>\<close>
  | T_ViewStmt "node option"                           \<comment> \<open>\<open>query\<close>\<close>
  | T_CreateStmt char                                  \<comment> \<open>\<open>tabletype\<close>\<close>
  | T_AlterTableStmt RangeVar
  | T_UtilityStmt                                      \<comment> \<open>a statement that \<open>requiresRewriting\<close> lists as never rewritten\<close>
  | T_OtherNode
and SelectStmt = SelectStmt
    (sel_info: select_info)
    (distinctClause: "node option list")
    (targetList: "node list")
    (fromClause: "node list")
    (whereClause: "node option")
    (groupClause: "node list")
    (havingClause: "node option")
    (valuesLists: "node list list")
    (sortClause: "node list")
    (limitOffset: "node option")
    (limitCount: "node option")
    (repairkey: "node list")
    (weightby: "node option")
    (sel_prob: "node option")
    (larg: "SelectStmt option")
    (rarg: "SelectStmt option")

definition no_select_info :: select_info where
  "no_select_info = \<lparr>intoClause = None, possible = False, tabletype = CHR 0x00, dimension = 0, isFromRepairKey = [],
     pickingType = CHR 0x00, setop = SETOP_NONE, set_all = False\<rparr>"

text \<open>\<^verbatim>\<open>makeNode(SelectStmt)\<close>: every field is zero.\<close>

definition make_SelectStmt :: SelectStmt where
  "make_SelectStmt = SelectStmt no_select_info [] [] [] None [] None [] [] None None [] None None None None"

text \<open>Assignments to the fields.\<close>

definition set_sel_info :: "select_info \<Rightarrow> SelectStmt \<Rightarrow> SelectStmt" where [select_simps]:
  "set_sel_info x s = SelectStmt x (distinctClause s) (targetList s) (fromClause s) (whereClause s) (groupClause s) (havingClause
    s) (valuesLists s) (sortClause s) (limitOffset s) (limitCount s) (repairkey s) (weightby s) (sel_prob s) (larg s) (rarg s)"

definition set_distinctClause :: "node option list \<Rightarrow> SelectStmt \<Rightarrow> SelectStmt" where [select_simps]:
  "set_distinctClause x s = SelectStmt (sel_info s) x (targetList s) (fromClause s) (whereClause s) (groupClause s) (havingClause
    s) (valuesLists s) (sortClause s) (limitOffset s) (limitCount s) (repairkey s) (weightby s) (sel_prob s) (larg s) (rarg s)"

definition set_targetList :: "node list \<Rightarrow> SelectStmt \<Rightarrow> SelectStmt" where [select_simps]:
  "set_targetList x s = SelectStmt (sel_info s) (distinctClause s) x (fromClause s) (whereClause s) (groupClause s) (havingClause
    s) (valuesLists s) (sortClause s) (limitOffset s) (limitCount s) (repairkey s) (weightby s) (sel_prob s) (larg s) (rarg s)"

definition set_fromClause :: "node list \<Rightarrow> SelectStmt \<Rightarrow> SelectStmt" where [select_simps]:
  "set_fromClause x s = SelectStmt (sel_info s) (distinctClause s) (targetList s) x (whereClause s) (groupClause s) (havingClause
    s) (valuesLists s) (sortClause s) (limitOffset s) (limitCount s) (repairkey s) (weightby s) (sel_prob s) (larg s) (rarg s)"

definition set_whereClause :: "node option \<Rightarrow> SelectStmt \<Rightarrow> SelectStmt" where [select_simps]:
  "set_whereClause x s = SelectStmt (sel_info s) (distinctClause s) (targetList s) (fromClause s) x (groupClause s) (havingClause
    s) (valuesLists s) (sortClause s) (limitOffset s) (limitCount s) (repairkey s) (weightby s) (sel_prob s) (larg s) (rarg s)"

definition set_groupClause :: "node list \<Rightarrow> SelectStmt \<Rightarrow> SelectStmt" where [select_simps]:
  "set_groupClause x s = SelectStmt (sel_info s) (distinctClause s) (targetList s) (fromClause s) (whereClause s) x (havingClause
    s) (valuesLists s) (sortClause s) (limitOffset s) (limitCount s) (repairkey s) (weightby s) (sel_prob s) (larg s) (rarg s)"

definition set_valuesLists :: "node list list \<Rightarrow> SelectStmt \<Rightarrow> SelectStmt" where [select_simps]:
  "set_valuesLists x s = SelectStmt (sel_info s) (distinctClause s) (targetList s) (fromClause s) (whereClause s) (groupClause s)
    (havingClause s) x (sortClause s) (limitOffset s) (limitCount s) (repairkey s) (weightby s) (sel_prob s) (larg s) (rarg s)"

definition set_sortClause :: "node list \<Rightarrow> SelectStmt \<Rightarrow> SelectStmt" where [select_simps]:
  "set_sortClause x s = SelectStmt (sel_info s) (distinctClause s) (targetList s) (fromClause s) (whereClause s) (groupClause s)
    (havingClause s) (valuesLists s) x (limitOffset s) (limitCount s) (repairkey s) (weightby s) (sel_prob s) (larg s) (rarg s)"

definition set_repairkey :: "node list \<Rightarrow> SelectStmt \<Rightarrow> SelectStmt" where [select_simps]:
  "set_repairkey x s = SelectStmt (sel_info s) (distinctClause s) (targetList s) (fromClause s) (whereClause s) (groupClause s)
    (havingClause s) (valuesLists s) (sortClause s) (limitOffset s) (limitCount s) x (weightby s) (sel_prob s) (larg s) (rarg s)"

definition set_weightby :: "node option \<Rightarrow> SelectStmt \<Rightarrow> SelectStmt" where [select_simps]:
  "set_weightby x s = SelectStmt (sel_info s) (distinctClause s) (targetList s) (fromClause s) (whereClause s) (groupClause s)
    (havingClause s) (valuesLists s) (sortClause s) (limitOffset s) (limitCount s) (repairkey s) x (sel_prob s) (larg s) (rarg s)"

definition set_sel_prob :: "node option \<Rightarrow> SelectStmt \<Rightarrow> SelectStmt" where [select_simps]:
  "set_sel_prob x s = SelectStmt (sel_info s) (distinctClause s) (targetList s) (fromClause s) (whereClause s) (groupClause s)
    (havingClause s) (valuesLists s) (sortClause s) (limitOffset s) (limitCount s) (repairkey s) (weightby s) x (larg s) (rarg s)"

definition set_larg :: "SelectStmt option \<Rightarrow> SelectStmt \<Rightarrow> SelectStmt" where [select_simps]:
  "set_larg x s = SelectStmt (sel_info s) (distinctClause s) (targetList s) (fromClause s) (whereClause s) (groupClause s)
    (havingClause s) (valuesLists s) (sortClause s) (limitOffset s) (limitCount s) (repairkey s) (weightby s) (sel_prob s) x (rarg
    s)"

definition set_rarg :: "SelectStmt option \<Rightarrow> SelectStmt \<Rightarrow> SelectStmt" where [select_simps]:
  "set_rarg x s = SelectStmt (sel_info s) (distinctClause s) (targetList s) (fromClause s) (whereClause s) (groupClause s)
    (havingClause s) (valuesLists s) (sortClause s) (limitOffset s) (limitCount s) (repairkey s) (weightby s) (sel_prob s) (larg
    s) x"


definition set_limitCount :: "node option \<Rightarrow> SelectStmt \<Rightarrow> SelectStmt" where [select_simps]:
  "set_limitCount x s = SelectStmt (sel_info s) (distinctClause s) (targetList s) (fromClause s) (whereClause s) (groupClause s)
    (havingClause s) (valuesLists s) (sortClause s) (limitOffset s) x (repairkey s) (weightby s) (sel_prob s) (larg s) (rarg s)"

lemmas [select_simps] = make_SelectStmt_def no_select_info_def

lemma set_sel_info_sel [simp]:
  "sel_info (set_sel_info x s) = x" "distinctClause (set_sel_info x s) = distinctClause s" "targetList (set_sel_info x s) = targetList s"
  "fromClause (set_sel_info x s) = fromClause s" "whereClause (set_sel_info x s) = whereClause s" "groupClause (set_sel_info x s) = groupClause s"
  "havingClause (set_sel_info x s) = havingClause s" "valuesLists (set_sel_info x s) = valuesLists s" "sortClause (set_sel_info x s) = sortClause s"
  "limitOffset (set_sel_info x s) = limitOffset s" "limitCount (set_sel_info x s) = limitCount s" "repairkey (set_sel_info x s) = repairkey s"
  "weightby (set_sel_info x s) = weightby s" "sel_prob (set_sel_info x s) = sel_prob s" "larg (set_sel_info x s) = larg s"
  "rarg (set_sel_info x s) = rarg s"
  by (simp_all add: set_sel_info_def)

lemma set_distinctClause_sel [simp]:
  "sel_info (set_distinctClause x s) = sel_info s" "distinctClause (set_distinctClause x s) = x" "targetList (set_distinctClause x s) = targetList s"
  "fromClause (set_distinctClause x s) = fromClause s" "whereClause (set_distinctClause x s) = whereClause s" "groupClause (set_distinctClause x s) = groupClause s"
  "havingClause (set_distinctClause x s) = havingClause s" "valuesLists (set_distinctClause x s) = valuesLists s" "sortClause (set_distinctClause x s) = sortClause s"
  "limitOffset (set_distinctClause x s) = limitOffset s" "limitCount (set_distinctClause x s) = limitCount s" "repairkey (set_distinctClause x s) = repairkey s"
  "weightby (set_distinctClause x s) = weightby s" "sel_prob (set_distinctClause x s) = sel_prob s" "larg (set_distinctClause x s) = larg s"
  "rarg (set_distinctClause x s) = rarg s"
  by (simp_all add: set_distinctClause_def)

lemma set_targetList_sel [simp]:
  "sel_info (set_targetList x s) = sel_info s" "distinctClause (set_targetList x s) = distinctClause s" "targetList (set_targetList x s) = x"
  "fromClause (set_targetList x s) = fromClause s" "whereClause (set_targetList x s) = whereClause s" "groupClause (set_targetList x s) = groupClause s"
  "havingClause (set_targetList x s) = havingClause s" "valuesLists (set_targetList x s) = valuesLists s" "sortClause (set_targetList x s) = sortClause s"
  "limitOffset (set_targetList x s) = limitOffset s" "limitCount (set_targetList x s) = limitCount s" "repairkey (set_targetList x s) = repairkey s"
  "weightby (set_targetList x s) = weightby s" "sel_prob (set_targetList x s) = sel_prob s" "larg (set_targetList x s) = larg s"
  "rarg (set_targetList x s) = rarg s"
  by (simp_all add: set_targetList_def)

lemma set_fromClause_sel [simp]:
  "sel_info (set_fromClause x s) = sel_info s" "distinctClause (set_fromClause x s) = distinctClause s" "targetList (set_fromClause x s) = targetList s"
  "fromClause (set_fromClause x s) = x" "whereClause (set_fromClause x s) = whereClause s" "groupClause (set_fromClause x s) = groupClause s"
  "havingClause (set_fromClause x s) = havingClause s" "valuesLists (set_fromClause x s) = valuesLists s" "sortClause (set_fromClause x s) = sortClause s"
  "limitOffset (set_fromClause x s) = limitOffset s" "limitCount (set_fromClause x s) = limitCount s" "repairkey (set_fromClause x s) = repairkey s"
  "weightby (set_fromClause x s) = weightby s" "sel_prob (set_fromClause x s) = sel_prob s" "larg (set_fromClause x s) = larg s"
  "rarg (set_fromClause x s) = rarg s"
  by (simp_all add: set_fromClause_def)

lemma set_whereClause_sel [simp]:
  "sel_info (set_whereClause x s) = sel_info s" "distinctClause (set_whereClause x s) = distinctClause s" "targetList (set_whereClause x s) = targetList s"
  "fromClause (set_whereClause x s) = fromClause s" "whereClause (set_whereClause x s) = x" "groupClause (set_whereClause x s) = groupClause s"
  "havingClause (set_whereClause x s) = havingClause s" "valuesLists (set_whereClause x s) = valuesLists s" "sortClause (set_whereClause x s) = sortClause s"
  "limitOffset (set_whereClause x s) = limitOffset s" "limitCount (set_whereClause x s) = limitCount s" "repairkey (set_whereClause x s) = repairkey s"
  "weightby (set_whereClause x s) = weightby s" "sel_prob (set_whereClause x s) = sel_prob s" "larg (set_whereClause x s) = larg s"
  "rarg (set_whereClause x s) = rarg s"
  by (simp_all add: set_whereClause_def)

lemma set_groupClause_sel [simp]:
  "sel_info (set_groupClause x s) = sel_info s" "distinctClause (set_groupClause x s) = distinctClause s" "targetList (set_groupClause x s) = targetList s"
  "fromClause (set_groupClause x s) = fromClause s" "whereClause (set_groupClause x s) = whereClause s" "groupClause (set_groupClause x s) = x"
  "havingClause (set_groupClause x s) = havingClause s" "valuesLists (set_groupClause x s) = valuesLists s" "sortClause (set_groupClause x s) = sortClause s"
  "limitOffset (set_groupClause x s) = limitOffset s" "limitCount (set_groupClause x s) = limitCount s" "repairkey (set_groupClause x s) = repairkey s"
  "weightby (set_groupClause x s) = weightby s" "sel_prob (set_groupClause x s) = sel_prob s" "larg (set_groupClause x s) = larg s"
  "rarg (set_groupClause x s) = rarg s"
  by (simp_all add: set_groupClause_def)

lemma set_valuesLists_sel [simp]:
  "sel_info (set_valuesLists x s) = sel_info s" "distinctClause (set_valuesLists x s) = distinctClause s" "targetList (set_valuesLists x s) = targetList s"
  "fromClause (set_valuesLists x s) = fromClause s" "whereClause (set_valuesLists x s) = whereClause s" "groupClause (set_valuesLists x s) = groupClause s"
  "havingClause (set_valuesLists x s) = havingClause s" "valuesLists (set_valuesLists x s) = x" "sortClause (set_valuesLists x s) = sortClause s"
  "limitOffset (set_valuesLists x s) = limitOffset s" "limitCount (set_valuesLists x s) = limitCount s" "repairkey (set_valuesLists x s) = repairkey s"
  "weightby (set_valuesLists x s) = weightby s" "sel_prob (set_valuesLists x s) = sel_prob s" "larg (set_valuesLists x s) = larg s"
  "rarg (set_valuesLists x s) = rarg s"
  by (simp_all add: set_valuesLists_def)

lemma set_sortClause_sel [simp]:
  "sel_info (set_sortClause x s) = sel_info s" "distinctClause (set_sortClause x s) = distinctClause s" "targetList (set_sortClause x s) = targetList s"
  "fromClause (set_sortClause x s) = fromClause s" "whereClause (set_sortClause x s) = whereClause s" "groupClause (set_sortClause x s) = groupClause s"
  "havingClause (set_sortClause x s) = havingClause s" "valuesLists (set_sortClause x s) = valuesLists s" "sortClause (set_sortClause x s) = x"
  "limitOffset (set_sortClause x s) = limitOffset s" "limitCount (set_sortClause x s) = limitCount s" "repairkey (set_sortClause x s) = repairkey s"
  "weightby (set_sortClause x s) = weightby s" "sel_prob (set_sortClause x s) = sel_prob s" "larg (set_sortClause x s) = larg s"
  "rarg (set_sortClause x s) = rarg s"
  by (simp_all add: set_sortClause_def)

lemma set_repairkey_sel [simp]:
  "sel_info (set_repairkey x s) = sel_info s" "distinctClause (set_repairkey x s) = distinctClause s" "targetList (set_repairkey x s) = targetList s"
  "fromClause (set_repairkey x s) = fromClause s" "whereClause (set_repairkey x s) = whereClause s" "groupClause (set_repairkey x s) = groupClause s"
  "havingClause (set_repairkey x s) = havingClause s" "valuesLists (set_repairkey x s) = valuesLists s" "sortClause (set_repairkey x s) = sortClause s"
  "limitOffset (set_repairkey x s) = limitOffset s" "limitCount (set_repairkey x s) = limitCount s" "repairkey (set_repairkey x s) = x"
  "weightby (set_repairkey x s) = weightby s" "sel_prob (set_repairkey x s) = sel_prob s" "larg (set_repairkey x s) = larg s"
  "rarg (set_repairkey x s) = rarg s"
  by (simp_all add: set_repairkey_def)

lemma set_weightby_sel [simp]:
  "sel_info (set_weightby x s) = sel_info s" "distinctClause (set_weightby x s) = distinctClause s" "targetList (set_weightby x s) = targetList s"
  "fromClause (set_weightby x s) = fromClause s" "whereClause (set_weightby x s) = whereClause s" "groupClause (set_weightby x s) = groupClause s"
  "havingClause (set_weightby x s) = havingClause s" "valuesLists (set_weightby x s) = valuesLists s" "sortClause (set_weightby x s) = sortClause s"
  "limitOffset (set_weightby x s) = limitOffset s" "limitCount (set_weightby x s) = limitCount s" "repairkey (set_weightby x s) = repairkey s"
  "weightby (set_weightby x s) = x" "sel_prob (set_weightby x s) = sel_prob s" "larg (set_weightby x s) = larg s"
  "rarg (set_weightby x s) = rarg s"
  by (simp_all add: set_weightby_def)

lemma set_sel_prob_sel [simp]:
  "sel_info (set_sel_prob x s) = sel_info s" "distinctClause (set_sel_prob x s) = distinctClause s" "targetList (set_sel_prob x s) = targetList s"
  "fromClause (set_sel_prob x s) = fromClause s" "whereClause (set_sel_prob x s) = whereClause s" "groupClause (set_sel_prob x s) = groupClause s"
  "havingClause (set_sel_prob x s) = havingClause s" "valuesLists (set_sel_prob x s) = valuesLists s" "sortClause (set_sel_prob x s) = sortClause s"
  "limitOffset (set_sel_prob x s) = limitOffset s" "limitCount (set_sel_prob x s) = limitCount s" "repairkey (set_sel_prob x s) = repairkey s"
  "weightby (set_sel_prob x s) = weightby s" "sel_prob (set_sel_prob x s) = x" "larg (set_sel_prob x s) = larg s"
  "rarg (set_sel_prob x s) = rarg s"
  by (simp_all add: set_sel_prob_def)

lemma set_larg_sel [simp]:
  "sel_info (set_larg x s) = sel_info s" "distinctClause (set_larg x s) = distinctClause s" "targetList (set_larg x s) = targetList s"
  "fromClause (set_larg x s) = fromClause s" "whereClause (set_larg x s) = whereClause s" "groupClause (set_larg x s) = groupClause s"
  "havingClause (set_larg x s) = havingClause s" "valuesLists (set_larg x s) = valuesLists s" "sortClause (set_larg x s) = sortClause s"
  "limitOffset (set_larg x s) = limitOffset s" "limitCount (set_larg x s) = limitCount s" "repairkey (set_larg x s) = repairkey s"
  "weightby (set_larg x s) = weightby s" "sel_prob (set_larg x s) = sel_prob s" "larg (set_larg x s) = x"
  "rarg (set_larg x s) = rarg s"
  by (simp_all add: set_larg_def)

lemma set_rarg_sel [simp]:
  "sel_info (set_rarg x s) = sel_info s" "distinctClause (set_rarg x s) = distinctClause s" "targetList (set_rarg x s) = targetList s"
  "fromClause (set_rarg x s) = fromClause s" "whereClause (set_rarg x s) = whereClause s" "groupClause (set_rarg x s) = groupClause s"
  "havingClause (set_rarg x s) = havingClause s" "valuesLists (set_rarg x s) = valuesLists s" "sortClause (set_rarg x s) = sortClause s"
  "limitOffset (set_rarg x s) = limitOffset s" "limitCount (set_rarg x s) = limitCount s" "repairkey (set_rarg x s) = repairkey s"
  "weightby (set_rarg x s) = weightby s" "sel_prob (set_rarg x s) = sel_prob s" "larg (set_rarg x s) = larg s"
  "rarg (set_rarg x s) = x"
  by (simp_all add: set_rarg_def)

section \<open>Lists and casts\<close>

definition as_SelectStmt :: "node \<Rightarrow> SelectStmt res" where
  "as_SelectStmt n = (case n of T_SelectStmt s \<Rightarrow> Inr s | _ \<Rightarrow> Inl BadCast)"

definition as_ResTarget :: "node \<Rightarrow> (string option \<times> node option) res" where
  "as_ResTarget n = (case n of T_ResTarget nm v \<Rightarrow> Inr (nm, v) | _ \<Rightarrow> Inl BadCast)"

lemma as_node_simps [simp]:
  "as_SelectStmt (T_SelectStmt s) = Inr s" "as_ResTarget (T_ResTarget nm v) = Inr (nm, v)"
  by (simp_all add: as_SelectStmt_def as_ResTarget_def)

definition list_nth :: "'a list \<Rightarrow> nat \<Rightarrow> 'a res" where
  "list_nth xs n = (if n < length xs then Inr (xs ! n) else Inl OutOfBounds)"

lemma list_nth_in [simp]: "n < length xs \<Longrightarrow> list_nth xs n = Inr (xs ! n)"
  by (simp add: list_nth_def)

section \<open>The catalog\<close>

definition TABLETYPE_CERTAIN :: char where [code_unfold]: "TABLETYPE_CERTAIN = CHR ''C''"
definition TABLETYPE_INDEPENDENT :: char where [code_unfold]: "TABLETYPE_INDEPENDENT = CHR ''I''"
definition TABLETYPE_URELATION :: char where [code_unfold]: "TABLETYPE_URELATION = CHR ''U''"

lemma tabletype_distinct [simp]:
  "TABLETYPE_CERTAIN \<noteq> TABLETYPE_INDEPENDENT" "TABLETYPE_CERTAIN \<noteq> TABLETYPE_URELATION" "TABLETYPE_INDEPENDENT \<noteq> TABLETYPE_URELATION"
  "TABLETYPE_INDEPENDENT \<noteq> TABLETYPE_CERTAIN" "TABLETYPE_URELATION \<noteq> TABLETYPE_CERTAIN" "TABLETYPE_URELATION \<noteq> TABLETYPE_INDEPENDENT"
  by (simp_all add: TABLETYPE_CERTAIN_def TABLETYPE_INDEPENDENT_def TABLETYPE_URELATION_def)

text \<open>The entry of a relation with its type.\<close>

record rel_entry = cat_entry +
  rd_tabletype :: char

type_synonym rel_catalog = "RangeVar \<Rightarrow> rel_entry option"

definition open_rel :: "rel_catalog \<Rightarrow> RangeVar \<Rightarrow> rel_entry res" where
  "open_rel cat rv = (case cat rv of None \<Rightarrow> Inl (Elog ''relation does not exist'') | Some e \<Rightarrow> Inr e)"

text \<open>The catalog as the signatures see it.\<close>

definition sig_catalog :: "rel_catalog \<Rightarrow> catalog" where
  "sig_catalog cat rv = map_option cat_entry.truncate (cat rv)"

section \<open>Names of condition columns\<close>

definition VARNAME :: string where "VARNAME = ''_v''"
definition PROBNAME :: string where "PROBNAME = ''_p''"
definition DOMAINNAME :: string where "DOMAINNAME = ''_d''"

definition isConditionAttribute :: "string \<Rightarrow> bool" where
  "isConditionAttribute nm \<longleftrightarrow>
     take (length VARNAME) nm = VARNAME \<or> take (length PROBNAME) nm = PROBNAME \<or> take (length DOMAINNAME) nm = DOMAINNAME"

text \<open>The length of a string in an array of characters; without a terminator the search leaves it.\<close>

function strlen_from :: "char list \<Rightarrow> nat \<Rightarrow> nat res" where
  "strlen_from s i = rbind (aread s i) (\<lambda>c. if c = CHR 0x00 then Inr i else strlen_from s (i + 1))"
  by auto
termination
  by (relation "measure (\<lambda>(s, i). length s - i)") (auto simp: aread_def split: if_splits)

declare strlen_from.simps [simp del]

definition strlen :: "char list \<Rightarrow> nat res" where
  "strlen s = strlen_from s 0"

definition reverse_step :: "nat \<Rightarrow> nat \<Rightarrow> char list \<Rightarrow> char list res" where
  "reverse_step i j s =
     rbind (aread s i) (\<lambda>c. rbind (aread s j) (\<lambda>d. rbind (awrite s i d) (\<lambda>s. awrite s j c)))"

function reverse_loop :: "int \<Rightarrow> int \<Rightarrow> char list \<Rightarrow> char list res" where
  "reverse_loop i j s =
     (if i < j then rbind (reverse_step (nat i) (nat j) s) (\<lambda>s. reverse_loop (i + 1) (j - 1) s) else Inr s)"
  by auto
termination
  by (relation "measure (\<lambda>(i, j, s). nat (j - i))") auto

declare reverse_loop.simps [simp del]

definition reverse :: "char list \<Rightarrow> char list res" where
  "reverse s = rbind (strlen s) (\<lambda>l. reverse_loop 0 (int l - 1) s)"

text \<open>The loop that prints the digits, the last one first.\<close>

function itoa_digits :: "int \<Rightarrow> nat \<Rightarrow> char list \<Rightarrow> (nat \<times> char list) res" where
  "itoa_digits n i s =
     rbind (awrite s i (char_of (n smod 10 + 48))) (\<lambda>s.
     if n sdiv 10 > 0 then itoa_digits (n sdiv 10) (i + 1) s else Inr (i + 1, s))"
  by auto
termination
  by (relation "measure (\<lambda>(n, i, s). length s - i)") (auto simp: awrite_def split: if_splits)

declare itoa_digits.simps [simp del]

definition my_itoa :: "int \<Rightarrow> char list \<Rightarrow> char list res" where
  "my_itoa n s =
     rbind (itoa_digits (if n < 0 then wrap32 (- n) else n) 0 s) (\<lambda>(i, s).
     rbind (if n < 0 then rbind (awrite s i (CHR ''-'')) (\<lambda>s. Inr (i + 1, s)) else Inr (i, s)) (\<lambda>(i, s).
     rbind (awrite s i (CHR 0x00)) reverse))"

text \<open>
  The buffer \<^verbatim>\<open>s2\<close> has five characters; the name and the number go to an array
  of twenty.
\<close>

definition ITOA_BUF :: nat where "ITOA_BUF = 5"
definition NAME_BUF :: nat where "NAME_BUF = 20"

definition catStrInt :: "string \<Rightarrow> int \<Rightarrow> string res" where
  "catStrInt str number =
     (if length str < NAME_BUF then
        rbind (my_itoa number (replicate ITOA_BUF (CHR 0x00))) (\<lambda>s2.
        rbind (strlen s2) (\<lambda>l.
        if length str + l < NAME_BUF then Inr (str @ take l s2) else Inl OutOfBounds))
      else Inl OutOfBounds)"

subsection \<open>Decimal numbers\<close>

definition digit :: "nat \<Rightarrow> char" where
  "digit d = char_of (d + 48)"

fun digits :: "nat \<Rightarrow> string" where
  "digits n = (if n < 10 then [digit n] else digits (n div 10) @ [digit (n mod 10)])"

declare digits.simps [simp del]

definition num_of :: "string \<Rightarrow> nat" where
  "num_of s = foldl (\<lambda>n c. 10 * n + (of_char c - 48)) 0 s"

lemma of_char_digit [simp]: "d < 10 \<Longrightarrow> (of_char (digit d) :: nat) = d + 48"
  by (simp add: digit_def)

lemma digit_nonzero [simp]: "d < 10 \<Longrightarrow> digit d \<noteq> CHR 0x00"
proof
  assume d: "d < 10" "digit d = CHR 0x00"
  then have "of_char (CHR 0x00) = d + (48::nat)" using of_char_digit [OF d(1)] by simp
  then show False by simp
qed

lemma num_of_digits [simp]: "num_of (digits n) = n"
  by (induction n rule: digits.induct) (subst digits.simps, auto simp: num_of_def)

lemma digits_nonzero: "CHR 0x00 \<notin> set (digits n)"
  by (induction n rule: digits.induct) (subst digits.simps, auto simp: eq_commute [of "CHR 0x00"])

lemma digits_inj: "digits m = digits n \<longleftrightarrow> m = n"
  by (metis num_of_digits)

lemma length_digits: "0 < k \<Longrightarrow> length (digits n) \<le> k \<longleftrightarrow> n < 10 ^ k"
proof (induction n arbitrary: k rule: digits.induct)
  case (1 n)
  show ?case
  proof (cases "n < 10")
    case True
    have "(10::nat) ^ 1 \<le> 10 ^ k" using 1(2) by (intro power_increasing) auto
    then show ?thesis using True 1(2) by (subst digits.simps) auto
  next
    case False
    then obtain j where k: "k = Suc j" using 1(2) by (cases k) auto
    have "length (digits n) \<le> k \<longleftrightarrow> length (digits (n div 10)) \<le> j" using False k by (subst digits.simps) auto
    also have "\<dots> \<longleftrightarrow> n div 10 < 10 ^ j"
    proof (cases j)
      case 0
      have "digits (n div 10) \<noteq> []" by (subst digits.simps) auto
      then show ?thesis using 0 False by auto
    qed (use 1(1) [OF False, of j] in auto)
    also have "\<dots> \<longleftrightarrow> n < 10 ^ k" using k by (simp add: less_mult_imp_div_less div_less_iff_less_mult mult.commute)
    finally show ?thesis .
  qed
qed

subsection \<open>Printing a number into a buffer\<close>

lemma smod_nat: "int m smod 10 = int (m mod 10)" "int m sdiv 10 = int (m div 10)"
  by (simp_all add: signed_modulo_int_def signed_divide_int_def zmod_int zdiv_int sgn_if)

lemma itoa_digits_eq:
  "itoa_digits (int m) i s =
     (if i + length (digits m) \<le> length s then
        Inr (i + length (digits m), take i s @ rev (digits m) @ drop (i + length (digits m)) s)
      else Inl OutOfBounds)"
proof (induction m arbitrary: i s rule: digits.induct)
  case (1 m)
  have ch: "(char_of (int (m mod 10) + 48) :: char) = digit (m mod 10)"
    by (simp add: digit_def) (metis of_nat_add of_nat_numeral char_of_def char_of_nat)
  show ?case
  proof (cases "i < length s")
    case False
    moreover have "0 < length (digits m)" by (subst digits.simps) auto
    ultimately have "\<not> i + length (digits m) \<le> length s" by linarith
    then show ?thesis using False by (subst itoa_digits.simps) (auto simp: awrite_def)
  next
    case True
    have s: "take (Suc i) (s[i := c]) = take i s @ [c]" "drop (Suc i + k) (s[i := c]) = drop (Suc i + k) s" for c k
      using True by (simp_all add: take_Suc_conv_app_nth)
    show ?thesis
    proof (cases "m < 10")
      case m: True
      have "digits m = [digit m]" using m by (subst digits.simps) auto
      then show ?thesis using True m ch s(1) s(2) [of 0]
        by (subst itoa_digits.simps) (auto simp: awrite_def smod_nat upd_conv_take_nth_drop)
    next
      case m: False
      have "digits m = digits (m div 10) @ [digit (m mod 10)]" using m by (subst digits.simps) auto
      then show ?thesis using True m ch 1 [OF m, of "Suc i" "s[i := digit (m mod 10)]"] s
        by (subst itoa_digits.simps) (auto simp: awrite_def smod_nat)
    qed
  qed
qed

lemma strlen_append: "CHR 0x00 \<notin> set t \<Longrightarrow> strlen (t @ CHR 0x00 # u) = Inr (length t)"
proof -
  assume t: "CHR 0x00 \<notin> set t"
  have "i \<le> length t \<Longrightarrow> strlen_from (t @ CHR 0x00 # u) i = Inr (length t)" for i
  proof (induction "length t - i" arbitrary: i)
    case 0
    then show ?case by (subst strlen_from.simps) (auto simp: aread_def)
  next
    case (Suc k)
    then have "t ! i \<noteq> CHR 0x00" using t by (metis Suc_leI diff_is_0_eq nat.distinct(1) not_less nth_mem)
    with Suc show ?case by (subst strlen_from.simps) (auto simp: aread_def nth_append)
  qed
  from this [of 0] show ?thesis by (simp add: strlen_def)
qed

definition flip :: "nat \<Rightarrow> nat \<Rightarrow> char list \<Rightarrow> char list" where
  "flip i l s = map (\<lambda>k. if i \<le> k \<and> k + i < l then s ! (l - 1 - k) else s ! k) [0..<length s]"

lemma reverse_loop_eq: "l \<le> length s \<Longrightarrow> reverse_loop (int i) (int l - 1 - int i) s = Inr (flip i l s)"
proof (induction "l - 2 * i" arbitrary: i s rule: less_induct)
  case less
  show ?case
  proof (cases "2 * i + 1 < l")
    case False
    then have "flip i l s = s" by (auto simp: flip_def intro!: nth_equalityI arg_cong [where f = "nth s"])
    then show ?thesis using False by (subst reverse_loop.simps) auto
  next
    case True
    let ?s = "s[i := s ! (l - 1 - i), l - 1 - i := s ! i]"
    have j: "int l - 1 - int i = int (l - Suc i)" "int (l - Suc i) - 1 = int l - 1 - int (Suc i)" "int i + 1 = int (Suc i)" "i < l - Suc i"
      using True by auto
    have "reverse_loop (int (Suc i)) (int l - 1 - int (Suc i)) ?s = Inr (flip (Suc i) l ?s)"
      using True less(2) by (intro less(1)) auto
    moreover have "flip (Suc i) l ?s = flip i l s"
      using True less(2) by (auto simp: flip_def nth_list_update intro!: nth_equalityI)
    moreover have "reverse_step i (l - 1 - i) s = Inr ?s" using True less(2) by (simp add: reverse_step_def aread_def awrite_def)
    ultimately show ?thesis using True unfolding j(1) by (subst reverse_loop.simps) (simp add: j(2-4) del: of_nat_Suc of_nat_diff)
  qed
qed

lemma reverse_eq: "CHR 0x00 \<notin> set t \<Longrightarrow> reverse (t @ CHR 0x00 # u) = Inr (rev t @ CHR 0x00 # u)"
proof -
  have "flip 0 (length t) (t @ CHR 0x00 # u) = rev t @ CHR 0x00 # u"
    by (rule nth_equalityI) (simp_all add: flip_def nth_append rev_nth less_Suc_eq, auto)
  then show "CHR 0x00 \<notin> set t \<Longrightarrow> ?thesis"
    using reverse_loop_eq [of "length t" "t @ CHR 0x00 # u" 0] by (simp add: reverse_def strlen_append)
qed

text \<open>Whatever the buffer held before.\<close>

lemma my_itoa_eq:
  "my_itoa (int m) s =
     (if length (digits m) < length s then Inr (digits m @ CHR 0x00 # drop (Suc (length (digits m))) s) else Inl OutOfBounds)"
proof (cases "length (digits m) < length s")
  case True
  let ?l = "length (digits m)"
  have "drop ?l s = s ! ?l # drop (Suc ?l) s" using True by (simp add: Cons_nth_drop_Suc)
  then have "(rev (digits m) @ drop ?l s)[?l := CHR 0x00] = rev (digits m) @ CHR 0x00 # drop (Suc ?l) s"
    by (simp add: list_update_append)
  then show ?thesis using True digits_nonzero [of m]
    by (simp add: my_itoa_def itoa_digits_eq awrite_def reverse_eq)
next
  case False
  then show ?thesis by (auto simp: my_itoa_def itoa_digits_eq awrite_def)
qed

text \<open>The name of a column of a given number.\<close>

abbreviation col :: "string \<Rightarrow> nat \<Rightarrow> string" where
  "col nm n \<equiv> nm @ digits n"

lemma catStrInt_eq:
  assumes "length nm \<le> 15"
  shows "catStrInt nm (int n) = (if n < 10000 then Inr (col nm n) else Inl OutOfBounds)"
proof -
  have l: "length (digits n) < 5 \<longleftrightarrow> n < 10000" using length_digits [of 4 n] by auto
  show ?thesis
    using assms l digits_nonzero [of n]
    by (auto simp: catStrInt_def my_itoa_eq ITOA_BUF_def NAME_BUF_def strlen_append)
qed

lemma VAR_names [simp]: "length VARNAME = 2" "length DOMAINNAME = 2" "length PROBNAME = 2"
  "VARNAME \<noteq> DOMAINNAME" "VARNAME \<noteq> PROBNAME" "DOMAINNAME \<noteq> PROBNAME"
  "DOMAINNAME \<noteq> VARNAME" "PROBNAME \<noteq> VARNAME" "PROBNAME \<noteq> DOMAINNAME"
  by (simp_all add: VARNAME_def DOMAINNAME_def PROBNAME_def)

lemma col_inj: "length a = length b \<Longrightarrow> col a m = col b n \<longleftrightarrow> a = b \<and> m = n"
  by (simp add: digits_inj)

lemma catStrInt_col:
  "n < 10000 \<Longrightarrow> catStrInt VARNAME (int n) = Inr (col VARNAME n)"
  "n < 10000 \<Longrightarrow> catStrInt DOMAINNAME (int n) = Inr (col DOMAINNAME n)"
  "n < 10000 \<Longrightarrow> catStrInt PROBNAME (int n) = Inr (col PROBNAME n)"
  by (simp_all add: catStrInt_eq)

section \<open>Building nodes\<close>

definition makeResTargetWithColumnRef :: "string option \<Rightarrow> string \<Rightarrow> node" where
  "makeResTargetWithColumnRef resname columnname = T_ResTarget resname (Some (T_ColumnRef [columnname]))"

definition makeRangeSubselect :: "string \<Rightarrow> SelectStmt \<Rightarrow> node" where
  "makeRangeSubselect alias sel = T_RangeSubselect (Some alias) (T_SelectStmt sel)"

definition makeNextValFuncCall :: "string \<Rightarrow> node" where
  "makeNextValFuncCall seqname = T_FuncCall [''nextval''] [T_A_Const (T_String seqname) None] False False"

definition makeFloatConst :: "string \<Rightarrow> node" where
  "makeFloatConst v = T_A_Const (T_Float v) None"

definition type_cast_to_int4 :: "node \<Rightarrow> node res" where
  "type_cast_to_int4 res =
     rbind (as_ResTarget res) (\<lambda>(nm, v).
     rbind (deref v) (\<lambda>a. Inr (T_ResTarget nm (Some (T_TypeCast a [''pg_catalog'', ''int4''])))))"

definition type_cast_weight_by :: "node \<Rightarrow> node res" where
  "type_cast_weight_by w =
     rbind (as_ResTarget w) (\<lambda>(nm, v).
     rbind (deref v) (\<lambda>a. Inr (T_ResTarget nm (Some (T_TypeCast a [''pg_catalog'', ''float4''])))))"

definition make_ResTarget_with_func_char :: "string \<Rightarrow> string \<Rightarrow> string \<Rightarrow> node" where
  "make_ResTarget_with_func_char resname funcname constname =
     T_ResTarget (Some resname) (Some (T_FuncCall [funcname] [T_A_Const (T_String constname) None] False False))"

definition make_ResTarget_with_float :: "string \<Rightarrow> string \<Rightarrow> node" where
  "make_ResTarget_with_float resname con = T_ResTarget (Some resname) (Some (T_A_Const (T_Float con) None))"

definition make_ResTarget_with_int :: "string \<Rightarrow> int \<Rightarrow> node" where
  "make_ResTarget_with_int resname con = T_ResTarget (Some resname) (Some (T_A_Const (T_Integer con) None))"

definition delLastAppendOne :: "string list \<Rightarrow> string \<Rightarrow> string list" where
  "delLastAppendOne list p = butlast list @ [p]"

definition makeColumnRef :: "string \<Rightarrow> int \<Rightarrow> string list \<Rightarrow> node res" where
  "makeColumnRef attr number rel = rbind (catStrInt attr number) (\<lambda>att. Inr (T_ColumnRef (delLastAppendOne rel att)))"

text \<open>If there is no where clause, it becomes the constant true.\<close>

definition true_node :: node where
  "true_node = T_A_Const (T_String ''t'') (Some [''pg_catalog'', ''bool''])"

definition fill_where_clause :: "SelectStmt \<Rightarrow> SelectStmt" where
  "fill_where_clause sel = (if whereClause sel = None then set_whereClause (Some true_node) sel else sel)"

section \<open>Reading nodes\<close>

definition from_item_of :: "node \<Rightarrow> from_item" where
  "from_item_of n =
     (case n of
        T_RangeVar rv \<Rightarrow> RangeVarNode rv
      | T_RangeSubselect (Some a) _ \<Rightarrow> RangeSubselectNode a
      | _ \<Rightarrow> OtherNode)"

text \<open>\<open>nodeGetFields\<close> on a node: it reads the alias of a subquery.\<close>

definition node_fields :: "node \<Rightarrow> string list res" where
  "node_fields n = (case n of T_RangeSubselect None _ \<Rightarrow> Inl NullPointer | _ \<Rightarrow> Inr (nodeGetFields (from_item_of n)))"

fun expr_node_of :: "node \<Rightarrow> expr_node" where
  "expr_node_of (T_A_Expr kind nm l r) = A_Expr kind nm (map_option expr_node_of l) (map_option expr_node_of r)"
| "expr_node_of (T_ColumnRef fs) = ColumnRef fs"
| "expr_node_of _ = OtherExpr"

definition select_triples :: "SelectStmt \<Rightarrow> int" where
  "select_triples sel =
     (if tabletype (sel_info sel) = TABLETYPE_URELATION then dimension (sel_info sel)
      else if tabletype (sel_info sel) = TABLETYPE_INDEPENDENT then 1 else 0)"

definition relation_triples :: "rel_entry \<Rightarrow> int" where
  "relation_triples rel =
     (if rd_tabletype rel = TABLETYPE_INDEPENDENT then 1
      else if rd_tabletype rel = TABLETYPE_URELATION then int (length (filter isConditionAttribute (cat_attrs rel))) sdiv 3
      else 0)"

definition getTripleCounts :: "rel_catalog \<Rightarrow> node list \<Rightarrow> int list res" where
  "getTripleCounts cat flist =
     map_res (\<lambda>n.
       case n of
         T_RangeVar rv \<Rightarrow> rbind (open_rel cat rv) (\<lambda>rel. Inr (relation_triples rel))
       | T_SelectStmt sel \<Rightarrow> Inr (select_triples sel)
       | T_RangeSubselect _ sub \<Rightarrow> rbind (as_SelectStmt sub) (\<lambda>sel. Inr (select_triples sel))
       | _ \<Rightarrow> Inr 0) flist"

section \<open>Set operations and relation references\<close>

text \<open>The targets of the select on top of a set operation.\<close>

definition get_targets_from_set_operation :: "node list \<Rightarrow> node list res" where
  "get_targets_from_set_operation old =
     map_res (\<lambda>n.
       rbind (as_ResTarget n) (\<lambda>(nm, v).
       case nm of
         Some s \<Rightarrow> Inr (makeResTargetWithColumnRef None s)
       | None \<Rightarrow>
           rbind (deref v) (\<lambda>a.
           case a of
             T_ColumnRef fs \<Rightarrow> Inr (if length fs > 1 then T_ResTarget None (Some (T_ColumnRef [last fs])) else n)
           | _ \<Rightarrow> Inl (Elog ''Name the column with an alias'')))) old"

text \<open>The into clause of the left argument moves to the new select on top.\<close>

definition rewrite_set_operation :: "SelectStmt \<Rightarrow> SelectStmt res" where
  "rewrite_set_operation sel =
     (if setop (sel_info sel) \<noteq> SETOP_NONE then
        rbind (deref (larg sel)) (\<lambda>l.
        rbind (get_targets_from_set_operation (targetList l)) (\<lambda>targets.
        let l' = set_sel_info ((sel_info l)\<lparr>intoClause := None\<rparr>) l;
            info = no_select_info \<lparr>
              intoClause := intoClause (sel_info l),
              pickingType := (if repairkey sel = [] \<and> pickingType (sel_info sel) \<noteq> CHR '' '' then pickingType (sel_info sel) else CHR 0x00),
              tabletype := tabletype (sel_info l),
              dimension := dimension (sel_info l)\<rparr>
        in Inr (set_sel_info info (set_repairkey (repairkey sel) (set_targetList targets
             (set_fromClause [makeRangeSubselect ''temp'' (set_larg (Some l') sel)] make_SelectStmt))))))
      else Inr sel)"

text \<open>\<open>R.att\<close> becomes \<open>att\<close> in the targets without a name.\<close>

definition remove_relation_reference :: "node list \<Rightarrow> node list res" where
  "remove_relation_reference targets =
     map_res (\<lambda>n.
       rbind (as_ResTarget n) (\<lambda>(nm, v).
       rbind (deref v) (\<lambda>a.
       Inr (case a of
              T_ColumnRef fs \<Rightarrow> if nm = None \<and> length fs > 1 then T_ResTarget nm (Some (T_ColumnRef [last fs])) else n
            | _ \<Rightarrow> n)))) targets"

section \<open>The where clause\<close>

text \<open>
  Every subquery of a where clause is processed; \<open>proc\<close> is the dispatcher \<open>process\<close>, which may
  replace the signature, a global variable.
\<close>

type_synonym process_fn = "node \<Rightarrow> sigGlobals option \<Rightarrow> (node \<times> sigGlobals option) res"

fun processWhereClause :: "process_fn \<Rightarrow> node option \<Rightarrow> sigGlobals option \<Rightarrow> (node option \<times> sigGlobals option) res" where
  "processWhereClause proc None g = Inr (None, g)"
| "processWhereClause proc (Some (T_A_Expr kind nm l r)) g =
     (if kind = AEXPR_OP \<or> kind = AEXPR_AND \<or> kind = AEXPR_OR then
        rbind (processWhereClause proc l g) (\<lambda>(l', g).
        rbind (processWhereClause proc r g) (\<lambda>(r', g). Inr (Some (T_A_Expr kind nm l' r'), g)))
      else if kind = AEXPR_NOT then rbind (processWhereClause proc r g) (\<lambda>(r', g). Inr (Some (T_A_Expr kind nm l r'), g))
      else Inr (Some (T_A_Expr kind nm l r), g))"
| "processWhereClause proc (Some (T_SubLink ty test sub)) g = rbind (proc sub g) (\<lambda>(s, g). Inr (Some (T_SubLink ty test s), g))"
| "processWhereClause proc (Some n) g = Inr (Some n, g)"

text \<open>Without a subquery it is unchanged.\<close>

fun no_sublink :: "node option \<Rightarrow> bool" where
  "no_sublink (Some (T_A_Expr kind nm l r)) \<longleftrightarrow> no_sublink l \<and> no_sublink r"
| "no_sublink (Some (T_SubLink ty test sub)) \<longleftrightarrow> False"
| "no_sublink _ \<longleftrightarrow> True"

lemma processWhereClause_id: "no_sublink w \<Longrightarrow> processWhereClause proc w g = Inr (w, g)"
  by (induction proc w g rule: processWhereClause.induct) auto

section \<open>Property\<close>

text \<open>
  C34. The name of a numbered column is the name followed by the number in decimal notation, so
  that it can be read back, as long as the number has at most four digits. From ten thousand on
  the digits are written beyond the buffer.
\<close>

theorem catStrInt_bounds:
  assumes "length nm \<le> 15"
  shows "if n < 10000 then \<exists>c. catStrInt nm (int n) = Inr c \<and> take (length nm) c = nm \<and> num_of (drop (length nm) c) = n
    else catStrInt nm (int n) = Inl OutOfBounds"
  using catStrInt_eq [OF assms, of n] by simp

theorem catStrInt_bounds_witness:
  "(\<exists>c. catStrInt ''_v'' 42 = Inr c \<and> take 2 c = ''_v'' \<and> num_of (drop 2 c) = 42) \<and> catStrInt ''_v'' 10000 = Inl OutOfBounds"
  using catStrInt_bounds [of "''_v''" 42] catStrInt_bounds [of "''_v''" 10000] by (simp add: numeral_2_eq_2)

end
