(* ===== verification/Rewrite.thy ===== *)
theory Rewrite
  imports ParseNodes
begin

text \<open>
  Rewriting of select statements (\<^verbatim>\<open>rewrite.c\<close>). A query with \<open>conf()\<close> over U-relations becomes an
  aggregation over an inner select that returns the grouping columns and the condition columns
  of all joined tuples, renamed, and that keeps only the consistent combinations
  (\<open>generalRewrite\<close>); for a hierarchical query the inner select returns the variables and
  probabilities in the order of the signature and is sorted by them (\<open>HQ_rewriting\<close>).

  A pointer to a function call of the target list is its number in the order in which the
  functions look for it. Stars are expanded to column references, which have no calls, so the
  numbers stay valid.
\<close>

definition TUPLECONF :: string where "TUPLECONF = ''tconf''"
definition CONF :: string where "CONF = ''conf''"
definition ACONF :: string where "ACONF = ''aconf''"
definition ARGMAX :: string where "ARGMAX = ''argmax''"
definition ESUM :: string where "ESUM = ''esum''"
definition ECOUNT :: string where "ECOUNT = ''ecount''"
definition TESTNEGATIVE :: string where "TESTNEGATIVE = ''test_negative''"
definition TESTFROMZEROTOONE :: string where "TESTFROMZEROTOONE = ''test_from_0_to_1''"
definition DOMAINIDSEQ :: string where "DOMAINIDSEQ = ''domid''"
definition VARIDSEQ :: string where "VARIDSEQ = ''varid''"

section \<open>Looking up functions\<close>

text \<open>The calls of a node in the order of the search.\<close>

fun funcs :: "node \<Rightarrow> node list" where
  "funcs (T_FuncCall fn args star dis) = T_FuncCall fn args star dis # concat (map funcs args)"
| "funcs (T_ResTarget nm v) = (case v of None \<Rightarrow> [] | Some a \<Rightarrow> funcs a)"
| "funcs (T_A_Expr kind nm l r) =
     (case l of None \<Rightarrow> [] | Some a \<Rightarrow> funcs a) @ (case r of None \<Rightarrow> [] | Some a \<Rightarrow> funcs a)"
| "funcs (T_TypeCast a ty) = funcs a"
| "funcs _ = []"

abbreviation funcs_opt :: "node option \<Rightarrow> node list" where
  "funcs_opt v \<equiv> (case v of None \<Rightarrow> [] | Some a \<Rightarrow> funcs a)"

text \<open>The parser makes no function call without a name.\<close>

definition has_name :: "string \<Rightarrow> string list \<Rightarrow> bool" where
  "has_name nm fn \<longleftrightarrow> fn \<noteq> [] \<and> hd fn = nm"

fun lookup_func_in_node :: "string \<Rightarrow> node \<Rightarrow> nat option"
  and lookup_func_in_list :: "string \<Rightarrow> node list \<Rightarrow> nat option" where
  "lookup_func_in_node name (T_FuncCall fn args star dis) =
     (if has_name name fn then Some 0 else map_option Suc (lookup_func_in_list name args))"
| "lookup_func_in_node name (T_ResTarget nm v) = (case v of None \<Rightarrow> None | Some a \<Rightarrow> lookup_func_in_node name a)"
| "lookup_func_in_node name (T_A_Expr kind nm l r) =
     (case (case l of None \<Rightarrow> None | Some a \<Rightarrow> lookup_func_in_node name a) of
        Some k \<Rightarrow> Some k
      | None \<Rightarrow> map_option (\<lambda>k. length (funcs_opt l) + k) (case r of None \<Rightarrow> None | Some a \<Rightarrow> lookup_func_in_node name a))"
| "lookup_func_in_node name (T_TypeCast a ty) = lookup_func_in_node name a"
| "lookup_func_in_node name _ = None"
| "lookup_func_in_list name [] = None"
| "lookup_func_in_list name (n # ns) =
     (case lookup_func_in_node name n of
        Some k \<Rightarrow> Some k
      | None \<Rightarrow> map_option (\<lambda>k. length (funcs n) + k) (lookup_func_in_list name ns))"

fun count_func_in_node :: "string \<Rightarrow> node \<Rightarrow> nat"
  and count_func_in_list :: "string \<Rightarrow> node list \<Rightarrow> nat" where
  "count_func_in_node name (T_FuncCall fn args star dis) = (if has_name name fn then 1 else 0) + count_func_in_list name args"
| "count_func_in_node name (T_ResTarget nm v) = (case v of None \<Rightarrow> 0 | Some a \<Rightarrow> count_func_in_node name a)"
| "count_func_in_node name (T_A_Expr kind nm l r) =
     (case l of None \<Rightarrow> 0 | Some a \<Rightarrow> count_func_in_node name a) + (case r of None \<Rightarrow> 0 | Some a \<Rightarrow> count_func_in_node name a)"
| "count_func_in_node name (T_TypeCast a ty) = count_func_in_node name a"
| "count_func_in_node name _ = 0"
| "count_func_in_list name [] = 0"
| "count_func_in_list name (n # ns) = count_func_in_node name n + count_func_in_list name ns"

text \<open>The number of the first target with a call of the function.\<close>

fun lookup_res_by_func :: "node list \<Rightarrow> string \<Rightarrow> nat option" where
  "lookup_res_by_func [] name = None"
| "lookup_res_by_func (n # ns) name =
     (if lookup_func_in_node name n \<noteq> None then Some 0 else map_option Suc (lookup_res_by_func ns name))"

text \<open>An assignment to the call a pointer refers to.\<close>

fun upd_func :: "(node \<Rightarrow> node) \<Rightarrow> nat \<Rightarrow> node \<Rightarrow> node"
  and upd_func_list :: "(node \<Rightarrow> node) \<Rightarrow> nat \<Rightarrow> node list \<Rightarrow> node list" where
  "upd_func f k (T_FuncCall fn args star dis) =
     (if k = 0 then f (T_FuncCall fn args star dis) else T_FuncCall fn (upd_func_list f (k - 1) args) star dis)"
| "upd_func f k (T_ResTarget nm v) = T_ResTarget nm (case v of None \<Rightarrow> None | Some a \<Rightarrow> Some (upd_func f k a))"
| "upd_func f k (T_A_Expr kind nm l r) =
     (let n = length (funcs_opt l) in
      if k < n then T_A_Expr kind nm (case l of None \<Rightarrow> None | Some a \<Rightarrow> Some (upd_func f k a)) r
      else T_A_Expr kind nm l (case r of None \<Rightarrow> None | Some a \<Rightarrow> Some (upd_func f (k - n) a)))"
| "upd_func f k (T_TypeCast a ty) = T_TypeCast (upd_func f k a) ty"
| "upd_func f k n = n"
| "upd_func_list f k [] = []"
| "upd_func_list f k (n # ns) =
     (if k < length (funcs n) then upd_func f k n # ns else n # upd_func_list f (k - length (funcs n)) ns)"

definition get_func :: "nat \<Rightarrow> node list \<Rightarrow> node res" where
  "get_func k ns = list_nth (concat (map funcs ns)) k"

fun func_args :: "node \<Rightarrow> node list" where
  "func_args (T_FuncCall fn args star dis) = args"
| "func_args _ = []"

text \<open>\<^verbatim>\<open>func->args = lappend(func->args, ...)\<close> for every argument, and \<^verbatim>\<open>func->agg_star = false\<close>.\<close>

fun append_args :: "node list \<Rightarrow> node \<Rightarrow> node" where
  "append_args new (T_FuncCall fn args star dis) = T_FuncCall fn (args @ new) False dis"
| "append_args new n = n"

section \<open>Relations of the from clause\<close>

definition all_relations_are_certain :: "nat \<Rightarrow> char list \<Rightarrow> bool res" where
  "all_relations_are_certain len typeArray =
     all_res (\<lambda>i. rbind (aread typeArray i) (\<lambda>t. Inr (t \<noteq> TABLETYPE_INDEPENDENT \<and> t \<noteq> TABLETYPE_URELATION))) [0..<len]"

definition item_type :: "rel_catalog \<Rightarrow> node \<Rightarrow> char res" where
  "item_type cat n =
     (case n of
        T_RangeVar rv \<Rightarrow> rbind (open_rel cat rv) (\<lambda>rel. Inr (rd_tabletype rel))
      | T_RangeSubselect _ sub \<Rightarrow> rbind (as_SelectStmt sub) (\<lambda>sel. Inr (tabletype (sel_info sel)))
      | _ \<Rightarrow> Inr (CHR 0x00))"

text \<open>The array of types is filled, and it is a general case if a type is not tuple-independent.\<close>

definition is_a_general_case :: "rel_catalog \<Rightarrow> node list \<Rightarrow> (bool \<times> char list) res" where
  "is_a_general_case cat flist =
     rbind (map_res (item_type cat) flist) (\<lambda>typeArray.
     Inr (list_ex (\<lambda>t. t \<noteq> TABLETYPE_INDEPENDENT) typeArray, typeArray))"

definition is_self_join :: "rel_catalog \<Rightarrow> node list \<Rightarrow> bool res" where
  "is_self_join cat flist =
     any_res (\<lambda>i.
       rbind (list_nth flist i) (\<lambda>node1.
       case node1 of
         T_RangeVar rv1 \<Rightarrow>
           any_res (\<lambda>j.
             rbind (list_nth flist j) (\<lambda>node2.
             case node2 of
               T_RangeVar rv2 \<Rightarrow>
                 rbind (open_rel cat rv1) (\<lambda>rel1.
                 rbind (open_rel cat rv2) (\<lambda>rel2. Inr (rd_id rel1 = rd_id rel2)))
             | _ \<Rightarrow> Inr False)) [i + 1..<length flist - 1]
       | _ \<Rightarrow> Inr False)) [0..<length flist - 2]"

definition get_repairkey_columns :: "node list \<Rightarrow> int list \<Rightarrow> bool list list res" where
  "get_repairkey_columns flist tripleCount =
     map_res (\<lambda>i.
       rbind (list_nth flist i) (\<lambda>n.
       case n of
         T_RangeVar rv \<Rightarrow> rbind (aread tripleCount i) (\<lambda>c. Inr (replicate (nat c) False))
       | T_RangeSubselect _ sub \<Rightarrow> rbind (as_SelectStmt sub) (\<lambda>sel. Inr (isFromRepairKey (sel_info sel)))
       | _ \<Rightarrow> Inr [])) [0..<length flist]"

definition calculate_total_triples :: "int list \<Rightarrow> nat \<Rightarrow> int res" where
  "calculate_total_triples tripleCount n =
     for_upto n (\<lambda>i result. rbind (aread tripleCount i) (\<lambda>c. Inr (result + c))) 0"

definition generateFields :: "node list \<Rightarrow> string list list res" where
  "generateFields flist = map_res node_fields flist"

section \<open>Expansion of stars\<close>

definition expand_columnref_star_one_relation :: "rel_catalog \<Rightarrow> char \<Rightarrow> int \<Rightarrow> string list \<Rightarrow> node \<Rightarrow> node list res" where
  "expand_columnref_star_one_relation cat type tripleCount fs relation =
     (let conColumnNum = (if type = TABLETYPE_INDEPENDENT \<or> type = TABLETYPE_URELATION then tripleCount * 3 else 0) in
      case relation of
        T_RangeVar rv \<Rightarrow>
          rbind (open_rel cat rv) (\<lambda>rel.
          Inr (map (\<lambda>a. T_ResTarget None (Some (T_ColumnRef (fs @ [a])))) (filter (\<lambda>a. \<not> isConditionAttribute a) (cat_attrs rel))))
      | T_RangeSubselect _ sub \<Rightarrow>
          rbind (as_SelectStmt sub) (\<lambda>subsel.
          map_res (\<lambda>i.
            rbind (rbind (list_nth (targetList subsel) i) as_ResTarget) (\<lambda>(nm, v).
            rbind (case nm of
                     Some s \<Rightarrow> Inr s
                   | None \<Rightarrow>
                       rbind (deref v) (\<lambda>a.
                       case a of
                         T_ColumnRef gs \<Rightarrow> llast gs
                       | T_FuncCall fn _ _ _ \<Rightarrow> llast fn
                       | _ \<Rightarrow> Inl (Elog ''Every selected target should have a name''))) (\<lambda>s.
            Inr (T_ResTarget None (Some (T_ColumnRef (fs @ [s]))))))) [0..<nat (int (length (targetList subsel)) - conColumnNum)])
      | _ \<Rightarrow> Inr [])"

text \<open>\<open>*\<close> is all relations, \<open>R.*\<close> the first one with the name.\<close>

fun expand_named_star :: "rel_catalog \<Rightarrow> string list \<Rightarrow> (char \<times> int \<times> string list \<times> node) list \<Rightarrow> node list res" where
  "expand_named_star cat star [] = Inr []"
| "expand_named_star cat star ((type, tripleCount, relName, relation) # rest) =
     (if length star = length relName \<and> butlast star = butlast relName
      then expand_columnref_star_one_relation cat type tripleCount (butlast relName) relation
      else expand_named_star cat star rest)"

definition expand_columnref_star :: "rel_catalog \<Rightarrow> char list \<Rightarrow> int list \<Rightarrow> string list list \<Rightarrow> node list \<Rightarrow> string list \<Rightarrow> node list res" where
  "expand_columnref_star cat typeArray tripleCount flds flist star =
     (let items = zip typeArray (zip tripleCount (zip flds flist)) in
      if length star = 1 then
        rbind (map_res (\<lambda>(type, tripleCount, relName, relation).
          expand_columnref_star_one_relation cat type tripleCount (butlast relName) relation) items) (\<lambda>ls. Inr (concat ls))
      else expand_named_star cat star items)"

text \<open>
  The loop over the targets goes on behind the first target of an expansion. A target list has
  at most \<open>MaxTupleAttributeNumber\<close> entries, which bounds the loop.
\<close>

definition MaxTupleAttributeNumber :: nat where "MaxTupleAttributeNumber = 1664"

definition star_of :: "node \<Rightarrow> string list option res" where
  "star_of n =
     rbind (as_ResTarget n) (\<lambda>(nm, v).
     rbind (deref v) (\<lambda>a.
     case a of T_ColumnRef fs \<Rightarrow> rbind (llast fs) (\<lambda>l. Inr (if l = ''*'' then Some fs else None)) | _ \<Rightarrow> Inr None))"

function transform_loop :: "(string list \<Rightarrow> node list res) \<Rightarrow> nat \<Rightarrow> node list \<Rightarrow> node list res" where
  "transform_loop expand i targets =
     (if i < length targets then
        if MaxTupleAttributeNumber \<le> i then Inl OutOfFuel
        else
          rbind (star_of (targets ! i)) (\<lambda>st.
          case st of
            None \<Rightarrow> transform_loop expand (i + 1) targets
          | Some fs \<Rightarrow> rbind (expand fs) (\<lambda>new. transform_loop expand (i + 1) (take i targets @ new @ drop (i + 1) targets)))
      else Inr targets)"
  by pat_completeness auto
termination
  by (relation "measure (\<lambda>(expand, i, targets). MaxTupleAttributeNumber - i)") auto

declare transform_loop.simps [simp del]

definition transform_targetList :: "rel_catalog \<Rightarrow> char list \<Rightarrow> int list \<Rightarrow> string list list \<Rightarrow> SelectStmt \<Rightarrow> SelectStmt res" where
  "transform_targetList cat typeArray tripleCount flds sel =
     rbind (transform_loop (expand_columnref_star cat typeArray tripleCount flds (fromClause sel)) 0 (targetList sel)) (\<lambda>targets.
     Inr (set_targetList targets sel))"

section \<open>References to relations\<close>

definition concat_fields :: "string list \<Rightarrow> string" where
  "concat_fields fs = concat (map (\<lambda>f. ''_'' @ f) fs)"

text \<open>
  A qualified column loses its relation. The function returns the name of the column for the
  target; the operands of an expression are visited without a test for an absent one.
\<close>

fun remove_relation_reference_in_node :: "node \<Rightarrow> (node \<times> string option) res" where
  "remove_relation_reference_in_node (T_ColumnRef fs) =
     Inr (if length fs > 1 then (T_ColumnRef [concat_fields fs], Some (last fs)) else (T_ColumnRef fs, None))"
| "remove_relation_reference_in_node (T_A_Expr kind nm l r) =
     rbind (case l of None \<Rightarrow> Inl NullPointer | Some a \<Rightarrow> remove_relation_reference_in_node a) (\<lambda>(l', _).
     rbind (case r of None \<Rightarrow> Inl NullPointer | Some a \<Rightarrow> remove_relation_reference_in_node a) (\<lambda>(r', _).
     Inr (T_A_Expr kind nm (Some l') (Some r'), None)))"
| "remove_relation_reference_in_node (T_TypeCast a ty) =
     rbind (remove_relation_reference_in_node a) (\<lambda>(a', _). Inr (T_TypeCast a' ty, None))"
| "remove_relation_reference_in_node (T_FuncCall fn args star dis) =
     rbind (map_res remove_relation_reference_in_node args) (\<lambda>args'. Inr (T_FuncCall fn (map fst args') star dis, None))"
| "remove_relation_reference_in_node n = Inr (n, None)"

definition name_inner :: "node \<Rightarrow> node res" where
  "name_inner n =
     (case n of
        T_ResTarget None v \<Rightarrow>
          rbind (deref v) (\<lambda>a.
          Inr (case a of
                 T_ColumnRef fs \<Rightarrow> if length fs > 1 then T_ResTarget (Some (concat_fields fs)) v else n
               | _ \<Rightarrow> n))
      | _ \<Rightarrow> Inr n)"

definition name_outer :: "node \<Rightarrow> node res" where
  "name_outer n =
     (case n of
        T_ResTarget nm v \<Rightarrow>
          rbind (rbind (deref v) remove_relation_reference_in_node) (\<lambda>(v', name).
          Inr (T_ResTarget (if nm = None then name else nm) (Some v')))
      | _ \<Rightarrow> Inr n)"

definition name_group :: "node \<Rightarrow> node" where
  "name_group n =
     (case n of T_ColumnRef fs \<Rightarrow> if length fs > 1 then T_ColumnRef [concat_fields fs] else n | _ \<Rightarrow> n)"

definition handle_relation_reference :: "SelectStmt \<Rightarrow> SelectStmt \<Rightarrow> (SelectStmt \<times> SelectStmt) res" where
  "handle_relation_reference outSel inSel =
     rbind (map_res name_inner (targetList inSel)) (\<lambda>inner.
     rbind (map_res name_outer (targetList outSel)) (\<lambda>outer.
     Inr (set_groupClause (map name_group (groupClause outSel)) (set_targetList outer outSel), set_targetList inner inSel)))"

text \<open>The columns of the group-by clause as targets of the inner select.\<close>

definition add_referenced_columns :: "SelectStmt \<Rightarrow> SelectStmt \<Rightarrow> SelectStmt res" where
  "add_referenced_columns outer inner =
     rbind (map_res (\<lambda>n.
       case n of
         T_ColumnRef fs \<Rightarrow> Inr (T_ResTarget None (Some n))
       | _ \<Rightarrow> Inl (Elog ''Only column ferences are allowed in the group clause'')) (groupClause outer)) (\<lambda>new.
     Inr (set_targetList (targetList inner @ new) inner))"

definition get_sort_clause :: "node list \<Rightarrow> node list res" where
  "get_sort_clause targets =
     rbind (map_res (\<lambda>n.
       rbind (as_ResTarget n) (\<lambda>(nm, v).
       rbind (deref v) (\<lambda>a. Inr (case a of T_ColumnRef fs \<Rightarrow> [T_SortBy a] | _ \<Rightarrow> [])))) targets) (\<lambda>ls. Inr (concat ls))"

section \<open>Condition columns\<close>

text \<open>The column \<open>name j\<close> of a relation as the target \<open>name counter\<close>.\<close>

definition condition_target :: "string list \<Rightarrow> string \<Rightarrow> nat \<Rightarrow> nat \<Rightarrow> node res" where
  "condition_target field name j counter =
     rbind (catStrInt name (int j)) (\<lambda>c.
     rbind (catStrInt name (int counter)) (\<lambda>n. Inr (T_ResTarget (Some n) (Some (T_ColumnRef (delLastAppendOne field c))))))"

definition put_args_to_conf_general :: "int list \<Rightarrow> string list list \<Rightarrow> string \<Rightarrow> node list res" where
  "put_args_to_conf_general tripleCount flds name =
     rbind (for_upto (length flds) (\<lambda>i (counter, list).
       rbind (list_nth flds i) (\<lambda>field.
       rbind (aread tripleCount i) (\<lambda>c.
       for_upto (nat c) (\<lambda>j (counter, list).
         rbind (condition_target field name j counter) (\<lambda>res. Inr (counter + 1, list @ [res]))) (counter, list)))) (0, [])) (\<lambda>(_, list).
     Inr list)"

definition add_condition_columns :: "SelectStmt \<Rightarrow> int list \<Rightarrow> string list list \<Rightarrow> bool list list \<Rightarrow> SelectStmt res" where
  "add_condition_columns sel tripleCount flds fromRepairKey =
     rbind (for_upto (length flds) (\<lambda>i (counter, flags, list).
       rbind (list_nth flds i) (\<lambda>field.
       rbind (aread tripleCount i) (\<lambda>c.
       for_upto (nat c) (\<lambda>j (counter, flags, list).
         rbind (aread fromRepairKey i) (\<lambda>bs.
         rbind (aread bs j) (\<lambda>b.
         rbind (awrite flags counter b) (\<lambda>flags.
         rbind (map_res (\<lambda>name. condition_target field name j counter) [VARNAME, DOMAINNAME, PROBNAME]) (\<lambda>new.
         Inr (counter + 1, flags, list @ new)))))) (counter, flags, list))))
       (0, isFromRepairKey (sel_info sel), targetList sel)) (\<lambda>(_, flags, list).
     Inr (set_sel_info ((sel_info sel)\<lparr>isFromRepairKey := flags\<rparr>) (set_targetList list sel)))"

definition arg_columns :: "string list \<Rightarrow> int \<Rightarrow> node list res" where
  "arg_columns names n =
     rbind (map_res (\<lambda>i. map_res (\<lambda>name. rbind (catStrInt name (int i)) (\<lambda>c. Inr (T_ColumnRef [c]))) names) [0..<nat n]) (\<lambda>ls.
     Inr (concat ls))"

text \<open>The arguments that are appended to the call.\<close>

definition put_args_general :: "int \<Rightarrow> node list res" where
  "put_args_general n = arg_columns [VARNAME, DOMAINNAME, PROBNAME] n"

definition put_args_HQ :: "int \<Rightarrow> node list res" where
  "put_args_HQ n = arg_columns [VARNAME, PROBNAME] n"

definition put_args_one_relation_HQ :: "node list res" where
  "put_args_one_relation_HQ = arg_columns [VARNAME, PROBNAME] 1"

definition newResTargets :: "string list list \<Rightarrow> string \<Rightarrow> node list res" where
  "newResTargets varOrder name =
     map_res (\<lambda>counter.
       rbind (list_nth varOrder counter) (\<lambda>field. condition_target field name 0 counter)) [0..<length varOrder]"

section \<open>Consistency of joined tuples\<close>

definition exclusive :: "string list \<Rightarrow> nat \<Rightarrow> string list \<Rightarrow> nat \<Rightarrow> node res" where
  "exclusive rel1 k rel2 l =
     rbind (makeColumnRef VARNAME (int k) rel1) (\<lambda>v1.
     rbind (makeColumnRef DOMAINNAME (int k) rel1) (\<lambda>r1.
     rbind (makeColumnRef VARNAME (int l) rel2) (\<lambda>v2.
     rbind (makeColumnRef DOMAINNAME (int l) rel2) (\<lambda>r2.
     Inr (T_A_Expr AEXPR_OR []
            (Some (T_A_Expr AEXPR_OP [''<>''] (Some v1) (Some v2)))
            (Some (T_A_Expr AEXPR_OP [''=''] (Some r1) (Some r2))))))))"

definition exclusive_pair :: "int list \<Rightarrow> string list list \<Rightarrow> nat \<Rightarrow> nat \<Rightarrow> node option \<Rightarrow> node option res" where
  "exclusive_pair tripleCount flds i j w =
     rbind (list_nth flds i) (\<lambda>rel1.
     rbind (list_nth flds j) (\<lambda>rel2.
     rbind (aread tripleCount i) (\<lambda>ci.
     rbind (aread tripleCount j) (\<lambda>cj.
     for_upto (nat ci) (\<lambda>k.
       for_upto (nat cj) (\<lambda>l w.
         rbind (exclusive rel1 k rel2 l) (\<lambda>or. Inr (Some (T_A_Expr AEXPR_AND [] (Some or) w))))) w))))"

definition remove_mutual_exclusiveness :: "char list \<Rightarrow> int list \<Rightarrow> string list list \<Rightarrow> SelectStmt \<Rightarrow> SelectStmt res" where
  "remove_mutual_exclusiveness typeArray tripleCount flds sel =
     (let sel = fill_where_clause sel; len = length flds in
      rbind (fold_res (\<lambda>i w.
        rbind (aread typeArray i) (\<lambda>ti.
        if ti \<noteq> TABLETYPE_URELATION then Inr w
        else fold_res (\<lambda>j w.
          rbind (aread typeArray j) (\<lambda>tj.
          if tj \<noteq> TABLETYPE_URELATION then Inr w else exclusive_pair tripleCount flds i j w)) [i + 1..<len] w))
        [0..<len - 1] (whereClause sel)) (\<lambda>w.
      Inr (set_whereClause w sel)))"

section \<open>Rewriting of \<open>conf()\<close>, \<open>aconf()\<close>, \<open>tconf()\<close>, \<open>esum()\<close>, \<open>ecount()\<close> and \<open>possible\<close>\<close>

definition generalRewrite :: "process_fn \<Rightarrow> SelectStmt \<Rightarrow> char list \<Rightarrow> int list \<Rightarrow> string list list \<Rightarrow> nat \<Rightarrow>
    sigGlobals option \<Rightarrow> (SelectStmt \<times> sigGlobals option) res" where
  "generalRewrite proc sel typeArray tripleCount flds func g =
     (let subsel = set_targetList [] (set_sel_info ((sel_info sel)\<lparr>intoClause := None\<rparr>) (set_groupClause [] sel)) in
      rbind (add_referenced_columns sel subsel) (\<lambda>subsel.
      rbind (get_sort_clause (targetList subsel)) (\<lambda>sort.
      rbind (put_args_to_conf_general tripleCount flds VARNAME) (\<lambda>vs.
      rbind (put_args_to_conf_general tripleCount flds DOMAINNAME) (\<lambda>ds.
      rbind (put_args_to_conf_general tripleCount flds PROBNAME) (\<lambda>ps.
      let subsel = set_targetList (targetList subsel @ vs @ ds @ ps) (set_sortClause sort subsel) in
      rbind (processWhereClause proc (whereClause subsel) g) (\<lambda>(w, g).
      rbind (remove_mutual_exclusiveness typeArray tripleCount flds (set_whereClause w subsel)) (\<lambda>subsel.
      rbind (calculate_total_triples tripleCount (length (fromClause subsel))) (\<lambda>n.
      rbind (put_args_general n) (\<lambda>args.
      rbind (handle_relation_reference (set_targetList (upd_func_list (append_args args) func (targetList sel)) sel) subsel) (\<lambda>(sel, subsel).
      Inr (set_whereClause None (set_fromClause [makeRangeSubselect ''temp'' subsel] sel), g))))))))))))"

definition HQ_rewriting :: "SelectStmt \<Rightarrow> string list list \<Rightarrow> nat \<Rightarrow> SelectStmt res" where
  "HQ_rewriting sel varOrder func =
     (let subsel = set_targetList [] (set_sel_info ((sel_info sel)\<lparr>intoClause := None\<rparr>) (set_groupClause [] sel)) in
      rbind (add_referenced_columns sel subsel) (\<lambda>subsel.
      rbind (newResTargets varOrder VARNAME) (\<lambda>vs.
      rbind (get_sort_clause (targetList subsel @ vs)) (\<lambda>sort.
      rbind (newResTargets varOrder PROBNAME) (\<lambda>ps.
      let subsel = set_targetList (targetList subsel @ vs @ ps) (set_sortClause sort subsel) in
      rbind (put_args_HQ (int (length (fromClause subsel)))) (\<lambda>args.
      rbind (handle_relation_reference (set_targetList (upd_func_list (append_args args) func (targetList sel)) sel) subsel) (\<lambda>(sel, subsel).
      Inr (set_whereClause None (set_fromClause [makeRangeSubselect ''temp'' subsel] sel)))))))))"

definition put_args_to_tconf_independent :: "char list \<Rightarrow> string list list \<Rightarrow> node list res" where
  "put_args_to_tconf_independent typeArray flds =
     rbind (map_res (\<lambda>i.
       rbind (aread typeArray i) (\<lambda>t.
       if t = TABLETYPE_INDEPENDENT then
         rbind (list_nth flds i) (\<lambda>field. rbind (makeColumnRef PROBNAME 0 field) (\<lambda>c. Inr [c]))
       else Inr [])) [0..<length flds]) (\<lambda>ls. Inr (concat ls))"

text \<open>The probability columns of the tuple-independent relations, and the condition columns of the U-relations.\<close>

definition tconf_columns :: "char list \<Rightarrow> int list \<Rightarrow> string list list \<Rightarrow> (node list \<times> node list) res" where
  "tconf_columns typeArray tripleCount flds =
     for_upto (length flds) (\<lambda>i (us, ts).
       rbind (list_nth flds i) (\<lambda>field.
       rbind (aread typeArray i) (\<lambda>t.
       if t = TABLETYPE_CERTAIN then Inr (us, ts)
       else if t = TABLETYPE_INDEPENDENT then rbind (makeColumnRef PROBNAME 0 field) (\<lambda>c. Inr (us, ts @ [c]))
       else if t = TABLETYPE_URELATION then
         rbind (aread tripleCount i) (\<lambda>n.
         rbind (map_res (\<lambda>j. map_res (\<lambda>name. makeColumnRef name (int j) field) [VARNAME, DOMAINNAME, PROBNAME]) [0..<nat n]) (\<lambda>ls.
         Inr (us @ concat ls, ts)))
       else Inl (Elog ''Invalid table type!'')))) ([], [])"

text \<open>The argument becomes the product of two calls, one for the U-relations and one for the others.\<close>

fun tconf_product :: "node list \<Rightarrow> node list \<Rightarrow> node \<Rightarrow> node" where
  "tconf_product us ts (T_FuncCall fn args star dis) =
     T_FuncCall fn [T_A_Expr AEXPR_OP [''*''] (Some (T_FuncCall fn (args @ us) False dis)) (Some (T_FuncCall fn (args @ ts) False dis))] star dis"
| "tconf_product us ts n = n"

definition put_args_to_tconf :: "process_fn \<Rightarrow> SelectStmt \<Rightarrow> char list \<Rightarrow> int list \<Rightarrow> string list list \<Rightarrow> nat \<Rightarrow>
    sigGlobals option \<Rightarrow> (SelectStmt \<times> sigGlobals option) res" where
  "put_args_to_tconf proc sel typeArray tripleCount flds func g =
     rbind (tconf_columns typeArray tripleCount flds) (\<lambda>(us, ts).
     rbind (processWhereClause proc (whereClause sel) g) (\<lambda>(w, g).
     rbind (remove_mutual_exclusiveness typeArray tripleCount flds
       (set_whereClause w (set_targetList (upd_func_list (tconf_product us ts) func (targetList sel)) sel))) (\<lambda>sel.
     Inr (sel, g))))"

definition rewrite_possible :: "process_fn \<Rightarrow> SelectStmt \<Rightarrow> char list \<Rightarrow> int list \<Rightarrow> string list list \<Rightarrow>
    sigGlobals option \<Rightarrow> (SelectStmt \<times> sigGlobals option) res" where
  "rewrite_possible proc sel typeArray tripleCount flds g =
     rbind (processWhereClause proc (whereClause sel) g) (\<lambda>(w, g).
     rbind (remove_mutual_exclusiveness typeArray tripleCount flds (set_whereClause w sel)) (\<lambda>sel.
     Inr (set_distinctClause [None] sel, g)))"

text \<open>A target without a name gets the name of the function it calls.\<close>

definition name_target :: "string \<Rightarrow> node list \<Rightarrow> node list" where
  "name_target name targets =
     (case lookup_res_by_func targets name of
        None \<Rightarrow> targets
      | Some i \<Rightarrow>
          (case targets ! i of T_ResTarget None v \<Rightarrow> targets[i := T_ResTarget (Some name) v] | _ \<Rightarrow> targets))"

definition tconf_call :: node where
  "tconf_call = T_FuncCall [TUPLECONF] [] False False"

text \<open>\<open>esum(a)\<close> becomes \<open>sum(a * tconf())\<close>; the result points to the new call.\<close>

definition rewrite_esum :: "node list \<Rightarrow> nat \<Rightarrow> (node list \<times> nat) res" where
  "rewrite_esum targets esum =
     rbind (get_func esum targets) (\<lambda>call.
     case call of
       T_FuncCall fn [a] star dis \<Rightarrow>
         Inr (upd_func_list (\<lambda>_. T_FuncCall [''sum'']
                [T_TypeCast (T_A_Expr AEXPR_OP [''*''] (Some a) (Some tconf_call)) [''pg_catalog'', ''float4'']] star dis) esum
                (name_target ESUM targets), esum + 1 + length (funcs a))
     | _ \<Rightarrow> Inl (Elog ''Number of arguments for esum is not correct''))"

definition rewrite_ecount :: "node list \<Rightarrow> nat \<Rightarrow> (node list \<times> nat) res" where
  "rewrite_ecount targets ecount =
     rbind (get_func ecount targets) (\<lambda>call.
     case call of
       T_FuncCall fn args star dis \<Rightarrow>
         if length args > 1 then Inl (Elog ''Number of arguments for ecount is not correct'')
         else Inr (upd_func_list (\<lambda>_. T_FuncCall [''sum''] [tconf_call] star dis) ecount (name_target ECOUNT targets), ecount + 1)
     | _ \<Rightarrow> Inl BadCast)"

section \<open>Self-joins\<close>

definition rel_id :: "rel_catalog \<Rightarrow> node \<Rightarrow> nat option" where
  "rel_id cat n = (case n of T_RangeVar rv \<Rightarrow> map_option rd_id (cat rv) | _ \<Rightarrow> None)"

lemma is_self_join_eq:
  assumes "\<forall>n \<in> set ns. rel_id cat n \<noteq> None"
  shows "is_self_join cat ns = Inr (\<not> distinct (map (rel_id cat) (butlast ns)))"
proof -
  have rv: "\<exists>rv e. ns ! i = T_RangeVar rv \<and> cat rv = Some e" if "i < length ns" for i
  proof -
    have "rel_id cat (ns ! i) \<noteq> None" using assms nth_mem [OF that] by blast
    then show ?thesis by (cases "ns ! i") (auto simp: rel_id_def)
  qed
  let ?Q = "\<lambda>i. \<exists>j \<in> set [i + 1..<length ns - 1]. rel_id cat (ns ! i) = rel_id cat (ns ! j)"
  have "is_self_join cat ns = Inr (\<exists>i \<in> set [0..<length ns - 2]. ?Q i)"
    unfolding is_self_join_def
  proof (rule any_res_Inr)
    fix i assume "i \<in> set [0..<length ns - 2]"
    then have i: "i < length ns" by simp
    obtain v e where v: "ns ! i = T_RangeVar v" "cat v = Some e" using rv [OF i] by blast
    have "any_res (\<lambda>j. rbind (list_nth ns j) (\<lambda>node2. case node2 of T_RangeVar rv2 \<Rightarrow>
        rbind (open_rel cat v) (\<lambda>rel1. rbind (open_rel cat rv2) (\<lambda>rel2. Inr (rd_id rel1 = rd_id rel2))) | _ \<Rightarrow> Inr False)) [i + 1..<length ns - 1] = Inr (?Q i)"
    proof (rule any_res_Inr)
      fix j assume "j \<in> set [i + 1..<length ns - 1]"
      then have j: "j < length ns" by auto
      obtain u f where "ns ! j = T_RangeVar u" "cat u = Some f" using rv [OF j] by blast
      then show "rbind (list_nth ns j) (\<lambda>node2. case node2 of T_RangeVar rv2 \<Rightarrow>
          rbind (open_rel cat v) (\<lambda>rel1. rbind (open_rel cat rv2) (\<lambda>rel2. Inr (rd_id rel1 = rd_id rel2))) | _ \<Rightarrow> Inr False) =
          Inr (rel_id cat (ns ! i) = rel_id cat (ns ! j))"
        using j v by (simp add: open_rel_def rel_id_def)
    qed
    then show "rbind (list_nth ns i) (\<lambda>node1. case node1 of T_RangeVar rv1 \<Rightarrow>
        any_res (\<lambda>j. rbind (list_nth ns j) (\<lambda>node2. case node2 of T_RangeVar rv2 \<Rightarrow>
          rbind (open_rel cat rv1) (\<lambda>rel1. rbind (open_rel cat rv2) (\<lambda>rel2. Inr (rd_id rel1 = rd_id rel2))) | _ \<Rightarrow> Inr False)) [i + 1..<length ns - 1]
        | _ \<Rightarrow> Inr False) = Inr (?Q i)" using i v by simp
  qed
  moreover have "(\<exists>i \<in> set [0..<length ns - 2]. ?Q i) \<longleftrightarrow> \<not> distinct (map (rel_id cat) (butlast ns))"
    (is "?L \<longleftrightarrow> ?R")
  proof
    assume ?L
    then obtain i j where ij: "i < length ns - 2" "i < j" "j < length ns - 1" "rel_id cat (ns ! i) = rel_id cat (ns ! j)" by (auto simp: Suc_le_eq)
    then show ?R using nth_eq_iff_index_eq [of "map (rel_id cat) (butlast ns)" i j] by (auto simp: nth_butlast)
  next
    assume ?R
    then obtain i j where "i < length ns - 1" "j < length ns - 1" "i \<noteq> j" "rel_id cat (ns ! i) = rel_id cat (ns ! j)"
      by (auto simp: distinct_conv_nth nth_butlast)
    then have "(min i j) < length ns - 2" "min i j < max i j" "max i j < length ns - 1" "rel_id cat (ns ! min i j) = rel_id cat (ns ! max i j)"
      by (auto simp: min_def max_def)
    then show ?L by (intro bexI [where x = "min i j"] bexI [where x = "max i j"]) auto
  qed
  ultimately show ?thesis by simp
qed

text \<open>Stored relations \<open>R\<close> and \<open>S\<close> for the examples, all of one type.\<close>

definition stored :: "string \<Rightarrow> string option \<Rightarrow> node" where
  "stored nm al = T_RangeVar \<lparr>catalogname = None, schemaname = None, relname = nm, rv_alias = al\<rparr>"

definition stored_as :: "char \<Rightarrow> rel_catalog" where
  "stored_as ty rv = Some \<lparr>cat_attrs = [''a'', ''b'', ''_v0'', ''_d0'', ''_p0''], cat_pkeys = [],
     rd_id = (if relname rv = ''R'' then 1 else 2), rd_tabletype = ty\<rparr>"

text \<open>
  C18. \<open>is_self_join\<close> decides whether two of the relations of the from clause are the same, the last
  one left out: the loops end one short, so that a self-join with the last relation, and any
  self-join of two relations, goes unnoticed.
\<close>

theorem is_self_join_decides:
  assumes "\<forall>n \<in> set ns. rel_id cat n \<noteq> None"
  shows "is_self_join cat ns = Inr (\<not> distinct (map (rel_id cat) (butlast ns)))"
  by (rule is_self_join_eq [OF assms])

theorem is_self_join_decides_witness:
  "is_self_join (stored_as TABLETYPE_INDEPENDENT) [stored ''R'' (Some ''x''), stored ''S'' None, stored ''R'' (Some ''y'')] = Inr False \<and>
   is_self_join (stored_as TABLETYPE_INDEPENDENT) [stored ''R'' (Some ''x''), stored ''R'' (Some ''y''), stored ''S'' None] = Inr True"
  using is_self_join_decides [of "[stored ''R'' (Some ''x''), stored ''S'' None, stored ''R'' (Some ''y'')]" "stored_as TABLETYPE_INDEPENDENT"]
    is_self_join_decides [of "[stored ''R'' (Some ''x''), stored ''R'' (Some ''y''), stored ''S'' None]" "stored_as TABLETYPE_INDEPENDENT"]
  by (simp add: rel_id_def stored_def stored_as_def)

end
