(* ===== verification/RepairKey.thy ===== *)
theory RepairKey
  imports Rewrite
begin

text \<open>
  Rewriting of \<open>repair key\<close> and \<open>pick tuples\<close> (\<^verbatim>\<open>repair_key.c\<close>, \<^verbatim>\<open>pick_tuples.c\<close>), the two constructs
  that introduce uncertainty. The weight or probability is an expression of the input query that
  is wrapped in place by a cast and a test; a statement that refers to the node shows its last
  state.
\<close>

section \<open>Repair key\<close>

definition make_division_expr :: "string \<Rightarrow> string \<Rightarrow> node" where
  "make_division_expr dividend divisor =
     T_A_Expr AEXPR_OP [''/''] (Some (T_ColumnRef [dividend])) (Some (T_ColumnRef [divisor]))"

definition make_natural_join :: "node \<Rightarrow> node \<Rightarrow> node" where
  "make_natural_join table1 table2 = T_JoinExpr True table1 table2"

definition make_ResTarget_with_AExpr :: "string \<Rightarrow> node \<Rightarrow> node" where
  "make_ResTarget_with_AExpr resname expr = T_ResTarget (Some resname) (Some expr)"

definition make_ResTarget_with_Func_ColumnRef :: "string \<Rightarrow> string \<Rightarrow> string \<Rightarrow> node" where
  "make_ResTarget_with_Func_ColumnRef resname funcname columnname =
     T_ResTarget (Some resname) (Some (T_FuncCall [funcname] [T_ColumnRef [columnname]] False False))"

definition target_list_to_ColumnRef :: "node list \<Rightarrow> node list res" where
  "target_list_to_ColumnRef targets =
     map_res (\<lambda>n.
       rbind (as_ResTarget n) (\<lambda>(nm, v).
       case nm of Some s \<Rightarrow> Inr (T_ColumnRef [s]) | None \<Rightarrow> deref v)) targets"

definition get_repair_key_target_list :: "SelectStmt \<Rightarrow> node list res" where
  "get_repair_key_target_list sel =
     map_res (\<lambda>n.
       rbind (as_ResTarget n) (\<lambda>(nm, v).
       case nm of Some s \<Rightarrow> Inr (T_ResTarget None (Some (T_ColumnRef [s]))) | None \<Rightarrow> Inr n)) (targetList sel)"

text \<open>A cast to a real and a test around the value of a target.\<close>

definition test_value :: "string \<Rightarrow> node \<Rightarrow> node res" where
  "test_value test w =
     rbind (type_cast_weight_by w) (\<lambda>res.
     rbind (as_ResTarget res) (\<lambda>(nm, v).
     rbind (deref v) (\<lambda>a. Inr (T_ResTarget nm (Some (T_FuncCall [test] [a] False False))))))"

definition not_zero :: "node \<Rightarrow> node res" where
  "not_zero w =
     rbind (as_ResTarget w) (\<lambda>(nm, v).
     Inr (T_A_Expr AEXPR_OP [''<>''] v (Some (T_A_Const (T_Float ''0'') None))))"

text \<open>
  The statement without duplicates. Its weight target is the node of the input query, in its last
  state; the where clause has the value it had when this statement was made, \<open>now\<close>.
\<close>

definition duplicate_removal :: "SelectStmt \<Rightarrow> node option \<Rightarrow> node list \<Rightarrow> node list \<Rightarrow> SelectStmt res" where
  "duplicate_removal sel now targets dclause =
     (let new = set_fromClause [makeRangeSubselect ''temp'' sel] (set_distinctClause [None] (set_groupClause dclause make_SelectStmt)) in
      case weightby sel of
        Some w \<Rightarrow>
          rbind (rbind (deref now) not_zero) (\<lambda>cond.
          Inr (set_whereClause (Some cond) (set_targetList (targets @ [w]) new)))
      | None \<Rightarrow> Inr (set_targetList (targets @ [make_ResTarget_with_float ''_W'' ''1.0'']) new))"

definition assign_domain_ID :: "SelectStmt \<Rightarrow> node option \<Rightarrow> node list \<Rightarrow> node list \<Rightarrow> SelectStmt res" where
  "assign_domain_ID sel now targets dclause =
     rbind (duplicate_removal sel now targets dclause) (\<lambda>new.
     rbind (catStrInt DOMAINNAME 0) (\<lambda>d.
     Inr (set_targetList (targetList new @ [make_ResTarget_with_func_char d ''nextval'' DOMAINIDSEQ]) new)))"

definition assign_var_ID :: "SelectStmt \<Rightarrow> node option \<Rightarrow> node list \<Rightarrow> node list \<Rightarrow> node list \<Rightarrow> SelectStmt res" where
  "assign_var_ID sel now targets dclause keys =
     rbind (duplicate_removal sel now targets dclause) (\<lambda>sub.
     rbind (catStrInt VARNAME 0) (\<lambda>v.
     rbind (target_list_to_ColumnRef keys) (\<lambda>grp.
     Inr (set_distinctClause [None] (set_groupClause grp (set_fromClause [makeRangeSubselect ''temp'' sub]
       (set_targetList (keys @ [make_ResTarget_with_func_char v ''nextval'' VARIDSEQ, make_ResTarget_with_Func_ColumnRef ''_S'' ''sum'' ''_W''])
         make_SelectStmt)))))))"

definition test_weight :: "node option \<Rightarrow> node option res" where
  "test_weight w = (case w of None \<Rightarrow> Inr None | Some a \<Rightarrow> rbind (test_value TESTNEGATIVE a) (\<lambda>b. Inr (Some b)))"

text \<open>The weight is wrapped twice, by each of the two statements without duplicates.\<close>

definition rewrite_repair_key :: "SelectStmt \<Rightarrow> SelectStmt res" where
  "rewrite_repair_key sel =
     rbind (get_repair_key_target_list sel) (\<lambda>targets.
     rbind (target_list_to_ColumnRef targets) (\<lambda>dclause.
     rbind (test_weight (weightby sel)) (\<lambda>w1.
     rbind (test_weight w1) (\<lambda>w2.
     let input = set_weightby w2 (set_sel_info ((sel_info sel)\<lparr>intoClause := None\<rparr>) sel) in
     rbind (assign_domain_ID input w1 targets dclause) (\<lambda>dom.
     rbind (assign_var_ID input w2 targets dclause (repairkey sel)) (\<lambda>var.
     rbind (rbind (catStrInt VARNAME 0) (\<lambda>c. type_cast_to_int4 (makeResTargetWithColumnRef None c))) (\<lambda>v.
     rbind (rbind (catStrInt DOMAINNAME 0) (\<lambda>c. type_cast_to_int4 (makeResTargetWithColumnRef None c))) (\<lambda>d.
     rbind (rbind (catStrInt PROBNAME 0) (\<lambda>c. type_cast_weight_by (make_ResTarget_with_AExpr c (make_division_expr ''_W'' ''_S'')))) (\<lambda>p.
     Inr (set_sel_info (no_select_info\<lparr>intoClause := intoClause (sel_info sel)\<rparr>)
       (set_targetList (targets @ [v, d, p])
       (set_fromClause [make_natural_join (make_natural_join (makeRangeSubselect ''temp1'' input) (makeRangeSubselect ''temp2'' dom))
          (makeRangeSubselect ''temp3'' var)] make_SelectStmt))))))))))))"

definition set_into_type :: "char \<Rightarrow> select_info \<Rightarrow> select_info" where
  "set_into_type ty i = i\<lparr>tabletype := ty, intoClause := map_option (\<lambda>c. c\<lparr>into_tabletype := ty\<rparr>) (intoClause i)\<rparr>"

definition ProcessRepairKey :: "SelectStmt \<Rightarrow> SelectStmt res" where
  "ProcessRepairKey sel =
     rbind (rewrite_set_operation sel) (\<lambda>sel.
     rbind (remove_relation_reference (targetList sel)) (\<lambda>targets.
     rbind (rewrite_repair_key (set_targetList targets sel)) (\<lambda>sel.
     Inr (set_sel_info ((set_into_type TABLETYPE_URELATION (sel_info sel))\<lparr>dimension := 1, isFromRepairKey := [True]\<rparr>) sel))))"

section \<open>Pick tuples\<close>

definition rewrite_pick_tuples :: "SelectStmt \<Rightarrow> SelectStmt res" where
  "rewrite_pick_tuples sel =
     rbind (rbind (catStrInt VARNAME 0) (\<lambda>c. type_cast_to_int4 (make_ResTarget_with_func_char c ''nextval'' VARIDSEQ))) (\<lambda>v.
     rbind (rbind (catStrInt DOMAINNAME 0) (\<lambda>c. Inr (make_ResTarget_with_int c 1))) (\<lambda>d.
     let sel = set_targetList (targetList sel @ [v, d]) sel in
     case sel_prob sel of
       Some p \<Rightarrow>
         rbind (test_value TESTFROMZEROTOONE p) (\<lambda>res.
         rbind (not_zero res) (\<lambda>cond.
         let sel = fill_where_clause (set_sel_prob (Some res) (set_targetList (targetList sel @ [res]) sel)) in
         Inr (set_whereClause (Some (T_A_Expr AEXPR_AND [] (whereClause sel) (Some cond))) sel)))
     | None \<Rightarrow> Inr (set_targetList (targetList sel @ [make_ResTarget_with_float ''_p0'' ''0.5'']) sel)))"

definition ProcessPickTuples :: "SelectStmt \<Rightarrow> SelectStmt res" where
  "ProcessPickTuples sel =
     rbind (rewrite_set_operation sel) (\<lambda>sel.
     rbind (remove_relation_reference (targetList sel)) (\<lambda>targets.
     rbind (rewrite_pick_tuples (set_targetList targets sel)) (\<lambda>sel.
     Inr (set_sel_info ((set_into_type TABLETYPE_INDEPENDENT (sel_info sel))\<lparr>isFromRepairKey := [True]\<rparr>) sel))))"

section \<open>Set operations\<close>

text \<open>
  A set operation loses its weight and its probability: the statement that is put on top of it has
  none, so that every tuple of a repaired union gets the weight one, and every tuple picked from
  a union the probability one half.
\<close>

theorem set_operation_loses_weight:
  "setop (sel_info sel) \<noteq> SETOP_NONE \<Longrightarrow> rewrite_set_operation sel = Inr sel' \<Longrightarrow> weightby sel' = None \<and> sel_prob sel' = None"
  by (auto simp: rewrite_set_operation_def rbind_eq_Inr_iff Let_def make_SelectStmt_def)

end
