(* ===== verification/Supported.thy ===== *)
theory Supported
  imports Rewrite
begin

text \<open>
  The analysis of a statement (\<^verbatim>\<open>supported.c\<close>, and the triple counts of \<^verbatim>\<open>rewrite_updates.c\<close>): whether
  its result is certain, whether it needs rewriting, and whether it is supported. A function that
  reports an error message returns it with the verdict.
\<close>

text \<open>The parts of a select statement are smaller.\<close>

lemma size_select [termination_simp]:
  "size_list size (fromClause s) < size s" "size_list size (targetList s) < size s" "size_option size (whereClause s) < size s"
  "larg s = Some l \<Longrightarrow> size l < size s" "rarg s = Some r \<Longrightarrow> size r < size s"
  by (cases s; simp)+

lemma size_opt [termination_simp]: "whereClause s = Some w \<Longrightarrow> size w < size s"
  by (cases s; simp)

section \<open>Certain queries\<close>

definition isCertainRelation :: "rel_catalog \<Rightarrow> RangeVar \<Rightarrow> bool res" where
  "isCertainRelation cat rv =
     rbind (open_rel cat rv) (\<lambda>rel.
     Inr (rd_tabletype rel = TABLETYPE_CERTAIN \<or> (rd_tabletype rel \<noteq> TABLETYPE_INDEPENDENT \<and> rd_tabletype rel \<noteq> TABLETYPE_URELATION)))"

definition isApproxName :: "string list \<Rightarrow> bool" where
  "isApproxName fn \<longleftrightarrow> has_name CONF fn \<or> has_name ACONF fn \<or> has_name TUPLECONF fn \<or> has_name ESUM fn \<or> has_name ECOUNT fn \<or> has_name ARGMAX fn"

fun isApproxAggregate :: "node \<Rightarrow> bool" where
  "isApproxAggregate (T_FuncCall fn args star dis) \<longleftrightarrow> isApproxName fn"
| "isApproxAggregate _ \<longleftrightarrow> False"

definition hasApproxAggregate :: "node list \<Rightarrow> bool" where
  "hasApproxAggregate targets \<longleftrightarrow>
     lookup_func_in_list CONF targets \<noteq> None \<or> lookup_func_in_list TUPLECONF targets \<noteq> None \<or>
     lookup_func_in_list ACONF targets \<noteq> None \<or> lookup_func_in_list ARGMAX targets \<noteq> None \<or>
     lookup_func_in_list ESUM targets \<noteq> None \<or> lookup_func_in_list ECOUNT targets \<noteq> None"

fun isCertain :: "rel_catalog \<Rightarrow> node \<Rightarrow> bool res"
  and isCertainSelect :: "rel_catalog \<Rightarrow> SelectStmt \<Rightarrow> bool res"
  and isCertainSimpleSelect :: "rel_catalog \<Rightarrow> SelectStmt \<Rightarrow> bool res"
  and isCertainFromClause :: "rel_catalog \<Rightarrow> node list \<Rightarrow> bool res"
  and isCertainWhereClause :: "rel_catalog \<Rightarrow> node \<Rightarrow> bool res" where
  "isCertain cat (T_RangeVar rv) = isCertainRelation cat rv"
| "isCertain cat (T_SelectStmt s) = isCertainSelect cat s"
| "isCertain cat (T_RangeSubselect a n) = (case n of T_SelectStmt s \<Rightarrow> isCertainSimpleSelect cat s | _ \<Rightarrow> Inl BadCast)"
| "isCertain cat (T_JoinExpr isn l r) = rbind (isCertain cat l) (\<lambda>b. if b then isCertain cat r else Inr False)"
| "isCertain cat _ = Inr False"
| "isCertainSelect cat s =
     (if repairkey s \<noteq> [] \<or> pickingType (sel_info s) = CHR ''I'' then Inr False else isCertainSimpleSelect cat s)"
| "isCertainSimpleSelect cat s =
     (if possible (sel_info s) then Inr True
      else if setop (sel_info s) \<noteq> SETOP_NONE then
        rbind (case larg s of None \<Rightarrow> Inr True | Some l \<Rightarrow> isCertainSelect cat l) (\<lambda>b.
        if b then (case rarg s of None \<Rightarrow> Inr True | Some r \<Rightarrow> isCertainSelect cat r) else Inr False)
      else if hasApproxAggregate (targetList s) then Inr True
      else
        rbind (isCertainFromClause cat (fromClause s)) (\<lambda>b.
        if b then (case whereClause s of None \<Rightarrow> Inr True | Some w \<Rightarrow> isCertainWhereClause cat w) else Inr False))"
| "isCertainFromClause cat [] = Inr True"
| "isCertainFromClause cat (n # ns) = rbind (isCertain cat n) (\<lambda>b. if b then isCertainFromClause cat ns else Inr False)"
| "isCertainWhereClause cat (T_ColumnRef fs) = Inr True"
| "isCertainWhereClause cat (T_A_Const v ty) = Inr True"
| "isCertainWhereClause cat (T_A_Expr kind nm l r) =
     (if kind = AEXPR_OP \<or> kind = AEXPR_AND \<or> kind = AEXPR_OR then
        rbind (case l of None \<Rightarrow> Inr True | Some a \<Rightarrow> isCertainWhereClause cat a) (\<lambda>b.
        if b then (case r of None \<Rightarrow> Inr True | Some a \<Rightarrow> isCertainWhereClause cat a) else Inr False)
      else if kind = AEXPR_NOT then (case r of None \<Rightarrow> Inr True | Some a \<Rightarrow> isCertainWhereClause cat a)
      else Inr False)"
| "isCertainWhereClause cat (T_SubLink ty test sub) =
     (if ty = EXISTS_SUBLINK \<or> ty = ANY_SUBLINK \<or> ty = EXPR_SUBLINK then isCertain cat sub else Inr False)"
| "isCertainWhereClause cat _ = Inr False"


section \<open>Queries that need rewriting\<close>

text \<open>
  The case of \<open>COALESCE\<close> in a target list runs on into that of \<open>IS NULL\<close>, which reads it as a node of
  another type.
\<close>

fun requiresRewriting :: "rel_catalog \<Rightarrow> node \<Rightarrow> bool res"
  and requiresRewritingSelect :: "rel_catalog \<Rightarrow> SelectStmt \<Rightarrow> bool res"
  and requiresRewritingTargets :: "rel_catalog \<Rightarrow> node list \<Rightarrow> bool res"
  and requiresRewritingFromClause :: "rel_catalog \<Rightarrow> node list \<Rightarrow> bool res"
  and requiresRewritingWhereClause :: "rel_catalog \<Rightarrow> node \<Rightarrow> bool res"
  and requiresRewritingWhereClauses :: "rel_catalog \<Rightarrow> node list \<Rightarrow> bool res"
  and requiresRewritingExpression :: "rel_catalog \<Rightarrow> node \<Rightarrow> bool res" where
  "requiresRewriting cat (T_RangeVar rv) = rbind (isCertainRelation cat rv) (\<lambda>b. Inr (\<not> b))"
| "requiresRewriting cat (T_JoinExpr isn l r) = rbind (requiresRewriting cat l) (\<lambda>b. if b then Inr True else requiresRewriting cat r)"
| "requiresRewriting cat (T_FuncCall fn args star dis) = Inr False"
| "requiresRewriting cat T_RangeFunction = Inr False"
| "requiresRewriting cat (T_RangeSubselect a n) = requiresRewriting cat n"
| "requiresRewriting cat (T_SelectStmt s) = requiresRewritingSelect cat s"
| "requiresRewriting cat (T_ViewStmt q) = (case q of None \<Rightarrow> Inr False | Some n \<Rightarrow> requiresRewriting cat n)"
| "requiresRewriting cat (T_CreateStmt ty) = Inr (ty \<noteq> TABLETYPE_CERTAIN)"
| "requiresRewriting cat (T_InsertStmt rel cols sel) =
     rbind (isCertainRelation cat rel) (\<lambda>b.
     if \<not> b then Inr True
     else (case sel of
             None \<Rightarrow> Inr False
           | Some n \<Rightarrow> (case n of T_SelectStmt s \<Rightarrow> if valuesLists s \<noteq> [] then requiresRewritingSelect cat s else Inr False | _ \<Rightarrow> Inl BadCast)))"
| "requiresRewriting cat (T_DeleteStmt rel using w) =
     rbind (isCertainRelation cat rel) (\<lambda>b.
     if \<not> b then Inr True else (case w of None \<Rightarrow> Inr False | Some n \<Rightarrow> requiresRewritingWhereClause cat n))"
| "requiresRewriting cat (T_UpdateStmt rel targets w from) =
     rbind (isCertainRelation cat rel) (\<lambda>b.
     if \<not> b then Inr True
     else rbind (requiresRewritingFromClause cat from) (\<lambda>b.
     if b then Inr True else (case w of None \<Rightarrow> Inr False | Some n \<Rightarrow> requiresRewritingWhereClause cat n)))"
| "requiresRewriting cat (T_AlterTableStmt rel) = rbind (isCertainRelation cat rel) (\<lambda>b. Inr (\<not> b))"
| "requiresRewriting cat T_UtilityStmt = Inr False"
| "requiresRewriting cat _ = Inr True"
| "requiresRewritingSelect cat s =
     (if repairkey s \<noteq> [] \<or> pickingType (sel_info s) = CHR ''I'' then Inr True
      else if setop (sel_info s) \<noteq> SETOP_NONE then
        rbind (case larg s of None \<Rightarrow> Inl NullPointer | Some l \<Rightarrow> requiresRewritingSelect cat l) (\<lambda>b.
        if b then Inr True else (case rarg s of None \<Rightarrow> Inl NullPointer | Some r \<Rightarrow> requiresRewritingSelect cat r))
      else
        rbind (requiresRewritingFromClause cat (fromClause s)) (\<lambda>b.
        if b then Inr True
        else rbind (requiresRewritingTargets cat (targetList s)) (\<lambda>b.
        if b then Inr True
        else (case whereClause s of None \<Rightarrow> Inr False | Some w \<Rightarrow> requiresRewritingWhereClause cat w))))"
| "requiresRewritingTargets cat [] = Inr False"
| "requiresRewritingTargets cat (n # ns) =
     (case n of
        T_ResTarget nm None \<Rightarrow> Inl NullPointer
      | T_ResTarget nm (Some v) \<Rightarrow>
          rbind (case v of
              T_TypeCast a ty \<Rightarrow> Inr False
            | T_ColumnRef fs \<Rightarrow> Inr False
            | T_A_Const c ty \<Rightarrow> Inr False
            | T_FuncCall fn args star dis \<Rightarrow> Inr (isApproxName fn)
            | T_A_Expr kind nm l r \<Rightarrow> Inr False
            | T_CaseExpr \<Rightarrow> Inr False
            | T_SubLink ty test sub \<Rightarrow> requiresRewriting cat sub
            | T_A_Indirection a \<Rightarrow> Inr False
            | T_CoalesceExpr args \<Rightarrow> rbind (requiresRewritingWhereClauses cat args) (\<lambda>b. if b then Inr True else Inl BadCast)
            | T_NullTest a \<Rightarrow> requiresRewritingWhereClause cat a
            | T_ArrayExpr \<Rightarrow> Inr False
            | T_RowExpr args \<Rightarrow> requiresRewritingWhereClauses cat args
            | T_XmlExpr \<Rightarrow> Inr False
            | T_XmlSerialize a \<Rightarrow> requiresRewritingWhereClause cat a
            | _ \<Rightarrow> Inr True) (\<lambda>b. if b then Inr True else requiresRewritingTargets cat ns)
      | _ \<Rightarrow> Inl BadCast)"
| "requiresRewritingFromClause cat [] = Inr False"
| "requiresRewritingFromClause cat (n # ns) =
     rbind (case n of
         T_RangeVar rv \<Rightarrow> rbind (isCertainRelation cat rv) (\<lambda>b. Inr (\<not> b))
       | T_RangeSubselect a q \<Rightarrow> requiresRewriting cat q
       | T_JoinExpr isn l r \<Rightarrow> rbind (requiresRewriting cat l) (\<lambda>b. if b then Inr True else requiresRewriting cat r)
       | T_FuncCall fn args star dis \<Rightarrow> Inr False
       | T_RangeFunction \<Rightarrow> Inr False
       | _ \<Rightarrow> Inr True) (\<lambda>b. if b then Inr True else requiresRewritingFromClause cat ns)"
| "requiresRewritingWhereClause cat (T_ColumnRef fs) = Inr False"
| "requiresRewritingWhereClause cat (T_A_Const v ty) = Inr False"
| "requiresRewritingWhereClause cat (T_NullTest a) = Inr False"
| "requiresRewritingWhereClause cat (T_TypeCast a ty) =
     (case a of
        T_ColumnRef fs \<Rightarrow> Inr False
      | T_A_Const v ty \<Rightarrow> Inr False
      | T_FuncCall fn args star dis \<Rightarrow> Inr False
      | T_CaseExpr \<Rightarrow> Inr False
      | T_A_Expr kind nm l r \<Rightarrow> requiresRewritingExpression cat (T_A_Expr kind nm l r)
      | _ \<Rightarrow> Inr True)"
| "requiresRewritingWhereClause cat (T_A_Expr kind nm l r) = requiresRewritingExpression cat (T_A_Expr kind nm l r)"
| "requiresRewritingWhereClause cat T_CaseExpr = Inr False"
| "requiresRewritingWhereClause cat (T_FuncCall fn args star dis) = Inr False"
| "requiresRewritingWhereClause cat (T_SubLink ty test sub) = requiresRewriting cat sub"
| "requiresRewritingWhereClause cat (T_BooleanTest a) = requiresRewritingWhereClause cat a"
| "requiresRewritingWhereClause cat (T_A_Indirection a) = requiresRewritingWhereClause cat a"
| "requiresRewritingWhereClause cat (T_CoalesceExpr args) = requiresRewritingWhereClauses cat args"
| "requiresRewritingWhereClause cat T_CurrentOfExpr = Inr False"
| "requiresRewritingWhereClause cat T_ArrayExpr = Inr False"
| "requiresRewritingWhereClause cat (T_RowExpr args) = requiresRewritingWhereClauses cat args"
| "requiresRewritingWhereClause cat T_XmlExpr = Inr False"
| "requiresRewritingWhereClause cat _ = Inr True"
| "requiresRewritingWhereClauses cat [] = Inr False"
| "requiresRewritingWhereClauses cat (n # ns) =
     rbind (requiresRewritingWhereClause cat n) (\<lambda>b. if b then Inr True else requiresRewritingWhereClauses cat ns)"
| "requiresRewritingExpression cat (T_A_Expr kind nm l r) =
     (if kind = AEXPR_OP \<or> kind = AEXPR_AND \<or> kind = AEXPR_OR \<or> kind = AEXPR_DISTINCT \<or> kind = AEXPR_OP_ANY \<or> kind = AEXPR_NULLIF then
        rbind (case l of None \<Rightarrow> Inr False | Some a \<Rightarrow> requiresRewritingWhereClause cat a) (\<lambda>b.
        if b then Inr True else (case r of None \<Rightarrow> Inr False | Some a \<Rightarrow> requiresRewritingWhereClause cat a))
      else if kind = AEXPR_NOT then (case r of None \<Rightarrow> Inr False | Some a \<Rightarrow> requiresRewritingWhereClause cat a)
      else if kind = AEXPR_IN then Inr False
      else Inr True)"
| "requiresRewritingExpression cat _ = Inl BadCast"


section \<open>Triple counts\<close>

definition getTripleCountRelation :: "rel_catalog \<Rightarrow> RangeVar \<Rightarrow> int res" where
  "getTripleCountRelation cat rv = rbind (open_rel cat rv) (\<lambda>rel. Inr (relation_triples rel))"

definition getTripleCountSelect :: "rel_catalog \<Rightarrow> SelectStmt \<Rightarrow> int res" where
  "getTripleCountSelect cat sel =
     rbind (getTripleCounts cat (fromClause sel)) (\<lambda>tripleCounts.
     for_upto (length (fromClause sel)) (\<lambda>i cnt. rbind (aread tripleCounts i) (\<lambda>c. Inr (cnt + c))) 0)"

definition getTripleCount :: "rel_catalog \<Rightarrow> node \<Rightarrow> int res" where
  "getTripleCount cat n =
     rbind (isCertain cat n) (\<lambda>b.
     if b then Inr 0
     else case n of
       T_RangeVar rv \<Rightarrow> getTripleCountRelation cat rv
     | T_SelectStmt s \<Rightarrow> getTripleCountSelect cat s
     | _ \<Rightarrow> Inl (Elog ''unsupported node!''))"

section \<open>Supported queries\<close>

datatype verdict = Supported | NotSupported "string option"    \<comment> \<open>with the message, if one was set\<close>

fun isSimpleCondition :: "node \<Rightarrow> bool" where
  "isSimpleCondition (T_ColumnRef fs) \<longleftrightarrow> True"
| "isSimpleCondition (T_A_Const v ty) \<longleftrightarrow> True"
| "isSimpleCondition (T_A_Expr kind nm l r) \<longleftrightarrow>
     (if kind = AEXPR_OP \<or> kind = AEXPR_AND \<or> kind = AEXPR_OR then
        (case l of None \<Rightarrow> True | Some a \<Rightarrow> isSimpleCondition a) \<and> (case r of None \<Rightarrow> True | Some a \<Rightarrow> isSimpleCondition a)
      else if kind = AEXPR_NOT then (case r of None \<Rightarrow> True | Some a \<Rightarrow> isSimpleCondition a)
      else False)"
| "isSimpleCondition _ \<longleftrightarrow> False"

definition isCertainWhere :: "rel_catalog \<Rightarrow> node option \<Rightarrow> bool res" where
  "isCertainWhere cat w = (case w of None \<Rightarrow> Inr True | Some a \<Rightarrow> isCertainWhereClause cat a)"

definition isCertainBody :: "rel_catalog \<Rightarrow> SelectStmt \<Rightarrow> bool res" where
  "isCertainBody cat s = rbind (isCertainFromClause cat (fromClause s)) (\<lambda>b. if b then isCertainWhere cat (whereClause s) else Inr False)"

definition unless :: "bool \<Rightarrow> string \<Rightarrow> verdict" where
  "unless b msg = (if b then Supported else NotSupported (Some msg))"

fun isSupported :: "rel_catalog \<Rightarrow> node \<Rightarrow> verdict res"
  and isSupportedSelect :: "rel_catalog \<Rightarrow> SelectStmt \<Rightarrow> verdict res"
  and isSupportedSimpleSelect :: "rel_catalog \<Rightarrow> SelectStmt \<Rightarrow> verdict res"
  and isSupportedFrom :: "rel_catalog \<Rightarrow> node list \<Rightarrow> verdict res"
  and isSupportedTargets :: "rel_catalog \<Rightarrow> node list \<Rightarrow> SelectStmt \<Rightarrow> bool \<Rightarrow> verdict res"
  and isSupportedNode :: "rel_catalog \<Rightarrow> node \<Rightarrow> SelectStmt \<Rightarrow> verdict res" where
  "isSupported cat (T_AlterTableStmt rel) = Inr Supported"
| "isSupported cat (T_ViewStmt q) = (case q of None \<Rightarrow> Inl NullPointer | Some n \<Rightarrow> isSupported cat n)"
| "isSupported cat (T_CreateStmt ty) = Inr Supported"
| "isSupported cat (T_SelectStmt s) = isSupportedSelect cat s"
| "isSupported cat (T_InsertStmt rel cols sel) =
     (case sel of
        None \<Rightarrow> Inr (NotSupported (Some ''DEFAULT VALUES in INSERT currently not supported.''))
      | Some n \<Rightarrow>
          rbind (map_res as_ResTarget cols) (\<lambda>cs.
          rbind (any_res (\<lambda>(nm, v). rbind (deref nm) (\<lambda>s. Inr (isConditionAttribute s))) cs) (\<lambda>b.
          if b then Inr (NotSupported (Some ''no direct manipulation allowed on condition columns.''))
          else (case n of
                  T_SelectStmt s \<Rightarrow> if valuesLists s \<noteq> [] then Inr Supported else isSupportedSelect cat s
                | _ \<Rightarrow> Inl BadCast))))"
| "isSupported cat (T_UpdateStmt rel targets w from) =
     (if from \<noteq> [] then Inr (NotSupported (Some ''no FROM clause allowed in UPDATE statements.''))
      else rbind (isCertainWhere cat w) (\<lambda>b.
      if \<not> b then Inr (NotSupported (Some ''WHERE condition of UPDATE statement must be certain.''))
      else rbind (map_res as_ResTarget targets) (\<lambda>cs.
      rbind (any_res (\<lambda>(nm, v). rbind (deref nm) (\<lambda>s. Inr (isConditionAttribute s))) cs) (\<lambda>b.
      Inr (unless (\<not> b) ''no direct manipulation allowed on condition columns.'')))))"
| "isSupported cat (T_DeleteStmt rel using w) =
     (if using \<noteq> [] then Inr (NotSupported (Some ''USING clause not supported in DELETE.''))
      else Inr (unless (case w of None \<Rightarrow> True | Some a \<Rightarrow> isSimpleCondition a) ''subqueries in WHERE condition of DELETE not supported''))"
| "isSupported cat _ = Inr (NotSupported None)"
| "isSupportedSelect cat s =
     rbind (isSupportedSimpleSelect cat s) (\<lambda>v.
     if v \<noteq> Supported then Inr v
     else if repairkey s \<noteq> [] \<or> pickingType (sel_info s) = CHR ''I'' then
       rbind (if repairkey s \<noteq> [] \<and> pickingType (sel_info s) = CHR ''I'' then Inr False
              else if possible (sel_info s) \<or> hasApproxAggregate (targetList s) then Inr True
              else isCertainBody cat s) (\<lambda>b.
       Inr (unless b ''REPAIR KEY and PICK TUPLES not supported on uncertain relations.''))
     else Inr Supported)"
| "isSupportedSimpleSelect cat s =
     (if setop (sel_info s) \<noteq> SETOP_NONE then
        rbind (case larg s of None \<Rightarrow> Inl NullPointer | Some l \<Rightarrow> isSupportedSelect cat l) (\<lambda>v.
        if v \<noteq> Supported then Inr v
        else rbind (case rarg s of None \<Rightarrow> Inl NullPointer | Some r \<Rightarrow> isSupportedSelect cat r) (\<lambda>v.
        if v \<noteq> Supported then Inr v
        else rbind (deref (larg s)) (\<lambda>l.
        rbind (deref (rarg s)) (\<lambda>r.
        if setop (sel_info s) = SETOP_UNION \<and> set_all (sel_info s) then
          rbind (getTripleCountSelect cat l) (\<lambda>lc.
          rbind (getTripleCountSelect cat r) (\<lambda>rc.
          Inr (unless (lc = rc) ''UNION queries have different number of condition columns.'')))
        else
          rbind (rbind (isCertainSelect cat l) (\<lambda>b. if b then isCertainSelect cat r else Inr False)) (\<lambda>b.
          Inr (unless b (if setop (sel_info s) = SETOP_UNION
                         then ''UNION supported only on certain relations. Use UNION ALL for uncertain ones.''
                         else ''set operations supported on certain relations only.'')))))))
      else if possible (sel_info s) \<and> hasApproxAggregate (targetList s) then
        Inr (NotSupported (Some ''no confidence computation functions allowed with possible.''))
      else
        rbind (isSupportedFrom cat (fromClause s)) (\<lambda>v.
        if v \<noteq> Supported then Inr v
        else rbind (if distinctClause s \<noteq> [] \<or> groupClause s \<noteq> [] then isCertainSimpleSelect cat s else Inr True) (\<lambda>b.
        if \<not> b then Inr (NotSupported (Some ''DISTINCT and GROUP BY not allowed on uncertain relations.''))
        else rbind (isSupportedTargets cat (targetList s) s False) (\<lambda>v.
        if v \<noteq> Supported then Inr v
        else (case whereClause s of None \<Rightarrow> Inr Supported | Some w \<Rightarrow> isSupportedNode cat w s)))))"
| "isSupportedFrom cat [] = Inr Supported"
| "isSupportedFrom cat (n # ns) =
     (case n of
        T_RangeVar rv \<Rightarrow> isSupportedFrom cat ns
      | T_RangeSubselect a q \<Rightarrow> rbind (isSupported cat q) (\<lambda>v. if v \<noteq> Supported then Inr v else isSupportedFrom cat ns)
      | T_JoinExpr isn l r \<Rightarrow> Inr (NotSupported (Some ''JOIN expression currently not supported.''))
      | _ \<Rightarrow> Inr (NotSupported (Some ''unsupported expression in the FROM clause.'')))"
| "isSupportedTargets cat [] s has_conf = Inr Supported"
| "isSupportedTargets cat (n # ns) s has_conf =
     (case n of
        T_ResTarget nm None \<Rightarrow> Inl NullPointer
      | T_ResTarget nm (Some v) \<Rightarrow>
          (case v of
             T_TypeCast a ty \<Rightarrow> isSupportedTargets cat ns s has_conf
           | T_ColumnRef fs \<Rightarrow> isSupportedTargets cat ns s has_conf
           | T_A_Const c ty \<Rightarrow> isSupportedTargets cat ns s has_conf
           | T_FuncCall fn args star dis \<Rightarrow>
               if \<not> isApproxName fn then
                 rbind (isCertainBody cat s) (\<lambda>b.
                 if \<not> b then Inr (NotSupported (Some ''function calls only allowed on certain relations.''))
                 else isSupportedTargets cat ns s has_conf)
               else if has_conf then Inr (NotSupported (Some ''multiple approximate aggregation nodes not supported.''))
               else isSupportedTargets cat ns s True
           | _ \<Rightarrow> rbind (isSupportedNode cat v s) (\<lambda>r. if r \<noteq> Supported then Inr r else isSupportedTargets cat ns s has_conf))
      | _ \<Rightarrow> Inl BadCast)"
| "isSupportedNode cat (T_ColumnRef fs) s = Inr Supported"
| "isSupportedNode cat (T_A_Const v ty) s = Inr Supported"
| "isSupportedNode cat (T_A_Expr kind nm l r) s =
     (if kind = AEXPR_OP \<or> kind = AEXPR_AND \<or> kind = AEXPR_OR then
        rbind (case l of None \<Rightarrow> Inr Supported | Some a \<Rightarrow> isSupportedNode cat a s) (\<lambda>v.
        if v \<noteq> Supported then Inr v
        else rbind (case r of None \<Rightarrow> Inr Supported | Some a \<Rightarrow> isSupportedNode cat a s) (\<lambda>v.
        if v \<noteq> Supported then Inr v
        else Inr (unless (\<not> (hasApproxAggregate (case l of None \<Rightarrow> [] | Some a \<Rightarrow> [a]) \<and> hasApproxAggregate (case r of None \<Rightarrow> [] | Some a \<Rightarrow> [a])))
               ''multiple approximate aggregation nodes not supported.'')))
      else if kind = AEXPR_NOT then
        rbind (case r of None \<Rightarrow> Inr Supported | Some a \<Rightarrow> isSupportedNode cat a s) (\<lambda>v.
        if v \<noteq> Supported then Inr v
        else rbind (isCertainWhere cat r) (\<lambda>b. Inr (unless b ''NOT only supported on certain expressions.'')))
      else Inr (NotSupported (Some ''unsupported expression node'')))"
| "isSupportedNode cat (T_SubLink ty test sub) s =
     (if ty \<noteq> EXISTS_SUBLINK \<and> ty \<noteq> ANY_SUBLINK \<and> ty \<noteq> EXPR_SUBLINK then
        Inr (NotSupported (Some ''subquery in WHERE clause currently not supported.''))
      else
        rbind (isSupported cat sub) (\<lambda>v.
        if v \<noteq> Supported then Inr v
        else rbind (isCertain cat sub) (\<lambda>b. Inr (unless b ''currently only certain subqueries supported in WHERE clause.''))))"
| "isSupportedNode cat (T_FuncCall fn args star dis) s =
     (if isApproxName fn then Inr Supported
      else rbind (isCertainBody cat s) (\<lambda>b. Inr (unless b ''function calls not supported on uncertain relations.'')))"
| "isSupportedNode cat n s = rbind (isCertainBody cat s) (\<lambda>b. Inr (unless b ''unsupported expression''))"

end
