(* ===== verification/QuerySem.thy ===== *)
theory QuerySem
  imports Rewrite
begin

text \<open>
  What a rewritten query computes. A joined tuple has one row of each relation of the from clause;
  expressions are evaluated on it (\<open>eval\<close>), with SQL's rules for qualified names and for the names
  of the columns a select returns. The lemmas follow the rewriting: the consistency test of the
  where clause (\<open>remove_mutual_ok\<close>), the condition columns of the inner select and the arguments of
  the call that read them (\<open>conf_columns_eval\<close>), the names of the grouping columns, and the whole
  of \<open>generalRewrite\<close> (\<open>generalRewrite_row\<close>).
\<close>

section \<open>Evaluation on a joined tuple\<close>

datatype datum = DInt int | DReal real | DBool bool | DStr string

type_synonym row = "string \<Rightarrow> datum option"

definition eval_bool2 :: "(bool \<Rightarrow> bool \<Rightarrow> bool) \<Rightarrow> datum option \<Rightarrow> datum option \<Rightarrow> datum option" where
  "eval_bool2 f x y = (case (x, y) of (Some (DBool a), Some (DBool b)) \<Rightarrow> Some (DBool (f a b)) | _ \<Rightarrow> None)"

definition eval_cmp :: "(datum \<Rightarrow> datum \<Rightarrow> bool) \<Rightarrow> datum option \<Rightarrow> datum option \<Rightarrow> datum option" where
  "eval_cmp f x y = (case (x, y) of (Some a, Some b) \<Rightarrow> Some (DBool (f a b)) | _ \<Rightarrow> None)"

lemma eval_bool2_simps [simp]: "eval_bool2 f (Some (DBool a)) (Some (DBool b)) = Some (DBool (f a b))"
  by (simp add: eval_bool2_def)

lemma eval_cmp_simps [simp]: "eval_cmp f (Some a) (Some b) = Some (DBool (f a b))"
  by (simp add: eval_cmp_def)

fun eval :: "(string list \<Rightarrow> datum option) \<Rightarrow> node \<Rightarrow> datum option" where
  "eval env (T_ColumnRef fs) = env fs"
| "eval env (T_A_Const v ty) =
     (case v of
        T_Integer i \<Rightarrow> Some (DInt i)
      | T_Float s \<Rightarrow> None
      | T_String s \<Rightarrow> if ty = Some [''pg_catalog'', ''bool''] then Some (DBool (s = ''t'')) else Some (DStr s))"
| "eval env (T_A_Expr kind nm (Some a) (Some b)) =
     (if kind = AEXPR_AND then eval_bool2 (\<and>) (eval env a) (eval env b)
      else if kind = AEXPR_OR then eval_bool2 (\<or>) (eval env a) (eval env b)
      else if kind = AEXPR_OP \<and> nm = [''=''] then eval_cmp (=) (eval env a) (eval env b)
      else if kind = AEXPR_OP \<and> nm = [''<>''] then eval_cmp (\<noteq>) (eval env a) (eval env b)
      else None)"
| "eval env (T_A_Expr AEXPR_NOT nm None (Some b)) = eval_bool2 (\<lambda>a b. \<not> b) (Some (DBool True)) (eval env b)"
| "eval env _ = None"

text \<open>A where clause that is absent holds.\<close>

definition eval_where :: "(string list \<Rightarrow> datum option) \<Rightarrow> node option \<Rightarrow> datum option" where
  "eval_where env w = (case w of None \<Rightarrow> Some (DBool True) | Some a \<Rightarrow> eval env a)"

text \<open>
  A column of the relations in the from clause, given by their names and one row of each: a
  qualified column is read in the relation of that name, another one in the first relation
  that has it.
\<close>

fun first_with :: "string \<Rightarrow> row list \<Rightarrow> datum option" where
  "first_with c [] = None"
| "first_with c (r # rs) = (case r c of None \<Rightarrow> first_with c rs | Some d \<Rightarrow> Some d)"

definition join_env :: "string list list \<Rightarrow> row list \<Rightarrow> string list \<Rightarrow> datum option" where
  "join_env names rows fs =
     (case fs of
        [] \<Rightarrow> None
      | [c] \<Rightarrow> first_with c rows
      | _ \<Rightarrow> (case map_of (zip names rows) (butlast fs) of None \<Rightarrow> None | Some r \<Rightarrow> r (last fs)))"

text \<open>The columns a select statement returns for a joined tuple.\<close>

fun target_name :: "node \<Rightarrow> string" where
  "target_name (T_ResTarget (Some nm) v) = nm"
| "target_name (T_ResTarget None (Some (T_ColumnRef fs))) = (if fs = [] then [] else last fs)"
| "target_name _ = ''?column?''"

fun target_val :: "node \<Rightarrow> node option" where
  "target_val (T_ResTarget nm v) = v"
| "target_val _ = None"

definition out_row :: "(string list \<Rightarrow> datum option) \<Rightarrow> node list \<Rightarrow> row" where
  "out_row env targets c =
     (case map_of (map (\<lambda>t. (target_name t, target_val t)) targets) c of Some (Some v) \<Rightarrow> eval env v | _ \<Rightarrow> None)"

text \<open>The conditions of a tuple are in the condition columns of its row.\<close>

definition has_conds :: "row \<Rightarrow> lit list \<Rightarrow> bool" where
  "has_conds r cs \<longleftrightarrow>
     (\<forall>j < length cs.
        r (col VARNAME j) = Some (DInt (fst (cs ! j))) \<and> r (col DOMAINNAME j) = Some (DInt (fst (snd (cs ! j)))) \<and>
        r (col PROBNAME j) = Some (DReal (snd (snd (cs ! j)))))"

definition compatible :: "lit list \<Rightarrow> lit list \<Rightarrow> bool" where
  "compatible a b \<longleftrightarrow> (\<forall>x \<in> set a. \<forall>y \<in> set b. fst x = fst y \<longrightarrow> fst (snd x) = fst (snd y))"

text \<open>The conditions of the U-relations in a joined tuple do not contradict each other.\<close>

definition consistent :: "char list \<Rightarrow> lit list list \<Rightarrow> bool" where
  "consistent types css \<longleftrightarrow>
     (\<forall>j < length css. \<forall>i < j. types ! i = TABLETYPE_URELATION \<longrightarrow> types ! j = TABLETYPE_URELATION \<longrightarrow> compatible (css ! i) (css ! j))"

definition args_of :: "lit list \<Rightarrow> datum option list" where
  "args_of cs = concat (map (\<lambda>(v, d, p). [Some (DInt v), Some (DInt d), Some (DReal p)]) cs)"

text \<open>A joined tuple of the from clause: its relations have distinct names, its tuples the conditions.\<close>

definition joined :: "string list list \<Rightarrow> int list \<Rightarrow> row list \<Rightarrow> lit list list \<Rightarrow> bool" where
  "joined flds tripleCount rows css \<longleftrightarrow>
     length rows = length flds \<and> length css = length flds \<and> tripleCount = map (\<lambda>cs. int (length cs)) css \<and>
     distinct (map butlast flds) \<and> (\<forall>f \<in> set flds. butlast f \<noteq> []) \<and> (\<forall>i < length flds. has_conds (rows ! i) (css ! i))"

abbreviation row_env :: "string list list \<Rightarrow> row list \<Rightarrow> string list \<Rightarrow> datum option" where
  "row_env flds rows \<equiv> join_env (map butlast flds) rows"

lemma join_env_qualified:
  assumes "joined flds tc rows css" "i < length flds"
  shows "row_env flds rows (delLastAppendOne (flds ! i) c) = (rows ! i) c"
proof -
  have "butlast (flds ! i) \<noteq> []" using assms by (simp add: joined_def)
  then obtain x xs where xs: "butlast (flds ! i) = x # xs" by (cases "butlast (flds ! i)") auto
  have "map_of (zip (map butlast flds) rows) (butlast (flds ! i)) = Some (rows ! i)"
    using assms by (intro map_of_is_SomeI) (auto simp: joined_def in_set_zip intro!: exI [of _ i])
  moreover have "delLastAppendOne (flds ! i) c = x # xs @ [c]" by (simp add: delLastAppendOne_def xs)
  moreover have "butlast (delLastAppendOne (flds ! i) c) = butlast (flds ! i)" by (simp add: delLastAppendOne_def)
  ultimately show ?thesis by (auto simp: join_env_def split: list.splits)
qed

section \<open>The consistency test\<close>

lemma exclusive_ok:
  assumes "joined flds tc rows css" "i < length flds" "j < length flds" "k < length (css ! i)" "l < length (css ! j)"
    "k < 10000" "l < 10000"
  shows "ok (exclusive (flds ! i) k (flds ! j) l) (\<lambda>n. eval (row_env flds rows) n =
    Some (DBool (fst (css ! i ! k) = fst (css ! j ! l) \<longrightarrow> fst (snd (css ! i ! k)) = fst (snd (css ! j ! l)))))"
proof -
  have "has_conds (rows ! i) (css ! i)" "has_conds (rows ! j) (css ! j)" using assms by (simp_all add: joined_def)
  then have c: "(rows ! i) (col VARNAME k) = Some (DInt (fst (css ! i ! k)))" "(rows ! i) (col DOMAINNAME k) = Some (DInt (fst (snd (css ! i ! k))))"
    "(rows ! j) (col VARNAME l) = Some (DInt (fst (css ! j ! l)))" "(rows ! j) (col DOMAINNAME l) = Some (DInt (fst (snd (css ! j ! l))))"
    using assms(4,5) by (auto simp: has_conds_def)
  show ?thesis using assms(1-3,6,7)
    by (auto simp: exclusive_def makeColumnRef_def catStrInt_col join_env_qualified c)
qed

lemma Pair_all:
  "compatible a b \<longleftrightarrow> (\<forall>k < length a. \<forall>l < length b. fst (a ! k) = fst (b ! l) \<longrightarrow> fst (snd (a ! k)) = fst (snd (b ! l)))"
  by (auto simp: compatible_def all_set_conv_all_nth)

lemma exclusive_pair_ok:
  assumes J: "joined flds tc rows css" "i < length flds" "j < length flds"
    and L: "length (css ! i) \<le> 10000" "length (css ! j) \<le> 10000" and w: "eval_where (row_env flds rows) w = Some (DBool b)" "w \<noteq> None"
  shows "ok (exclusive_pair tc flds i j w) (\<lambda>w'. w' \<noteq> None \<and> eval_where (row_env flds rows) w' = Some (DBool (b \<and> compatible (css ! i) (css ! j))))"
proof -
  let ?P = "\<lambda>k l. fst (css ! i ! k) = fst (css ! j ! l) \<longrightarrow> fst (snd (css ! i ! k)) = fst (snd (css ! j ! l))"
  let ?I = "\<lambda>k l w'. w' \<noteq> None \<and> eval_where (row_env flds rows) w' =
    Some (DBool (b \<and> (\<forall>k' < k. \<forall>l' < length (css ! j). ?P k' l') \<and> (\<forall>l' < l. ?P k l')))"
  have inner: "ok (for_upto (length (css ! j)) (\<lambda>l w. rbind (exclusive (flds ! i) k (flds ! j) l) (\<lambda>or. Inr (Some (T_A_Expr AEXPR_AND [] (Some or) w)))) w')
      (?I (Suc k) 0)" if k: "k < length (css ! i)" and I: "?I k 0 w'" for k w'
  proof (rule ok_mono [OF ok_for_upto [where I = "?I k"]])
    show "?I k 0 w'" by (rule I)
  next
    fix l t assume l: "l < length (css ! j)" and t: "?I k l t"
    then obtain a where a: "t = Some a" by auto
    show "ok (rbind (exclusive (flds ! i) k (flds ! j) l) (\<lambda>or. Inr (Some (T_A_Expr AEXPR_AND [] (Some or) t)))) (?I k (Suc l))"
      using exclusive_ok [OF J k l] k l L t by (auto simp: a eval_where_def less_Suc_eq elim!: ok_mono)
  qed (auto simp: less_Suc_eq)
  have "ok (for_upto (length (css ! i)) (\<lambda>k. for_upto (length (css ! j)) (\<lambda>l w.
      rbind (exclusive (flds ! i) k (flds ! j) l) (\<lambda>or. Inr (Some (T_A_Expr AEXPR_AND [] (Some or) w))))) w) (?I (length (css ! i)) 0)"
    using w by (intro ok_for_upto [where I = "\<lambda>k. ?I k 0"] inner) auto
  moreover have "tc ! i = int (length (css ! i))" "tc ! j = int (length (css ! j))" "length tc = length flds" using J by (auto simp: joined_def)
  ultimately show ?thesis using J by (simp add: exclusive_pair_def aread_def Pair_all)
qed

lemma remove_mutual_ok:
  assumes J: "joined flds tc rows css" and ty: "length types = length flds" and L: "\<forall>cs \<in> set css. length cs \<le> 10000"
    and w: "eval_where (row_env flds rows) (whereClause sel) = Some (DBool b)"
  shows "ok (remove_mutual_exclusiveness types tc flds sel) (\<lambda>sel'. \<exists>w'. sel' = set_whereClause w' (fill_where_clause sel) \<and>
    w' \<noteq> None \<and> eval_where (row_env flds rows) w' = Some (DBool (b \<and> consistent types css)))"
proof -
  let ?U = "\<lambda>i. types ! i = TABLETYPE_URELATION"
  let ?C = "\<lambda>i j. ?U i \<longrightarrow> ?U j \<longrightarrow> compatible (css ! i) (css ! j)"
  let ?I = "\<lambda>A w'. w' \<noteq> None \<and> eval_where (row_env flds rows) w' = Some (DBool (b \<and> (\<forall>(i, j) \<in> A. ?C i j)))"
  let ?len = "length flds"
  have len: "length css = ?len" using J by (simp add: joined_def)
  let ?f = "\<lambda>i j w. rbind (aread types j) (\<lambda>tj. if tj \<noteq> TABLETYPE_URELATION then Inr w else exclusive_pair tc flds i j w)"
  let ?A = "\<lambda>n. {(i, j). i < n \<and> i < j \<and> j < ?len}"
  have inner: "ok (fold_res (?f i) [i + 1..<?len] w') (?I (?A (Suc i)))"
    if i: "i < ?len" "?U i" and I: "?I (?A i) w'" for i w'
  proof (rule ok_mono [OF ok_fold_res [where I = "\<lambda>js. ?I (?A i \<union> {i} \<times> set js)"]])
    show "?I (?A i \<union> {i} \<times> set []) w'" using I by simp
  next
    fix xs j ys t assume js: "[i + 1..<?len] = xs @ j # ys" and t: "?I (?A i \<union> {i} \<times> set xs) t"
    have "j \<in> set [i + 1..<?len]" unfolding js by simp
    then have j: "j < ?len" by simp
    then have L': "length (css ! i) \<le> 10000" "length (css ! j) \<le> 10000" using L i len by simp_all
    show "ok (?f i j t) (?I (?A i \<union> {i} \<times> set (xs @ [j])))"
      using exclusive_pair_ok [OF J i(1) j L', of t "b \<and> (\<forall>(i, j) \<in> ?A i \<union> {i} \<times> set xs. ?C i j)"] t i j ty
      by (auto simp: aread_def elim!: ok_mono)
  next
    fix w'' assume "?I (?A i \<union> {i} \<times> set [i + 1..<?len]) w''"
    moreover have "?A i \<union> {i} \<times> set [i + 1..<?len] = ?A (Suc i)" by auto
    ultimately show "?I (?A (Suc i)) w''" by simp
  qed
  have "ok (fold_res (\<lambda>i w. rbind (aread types i) (\<lambda>ti. if ti \<noteq> TABLETYPE_URELATION then Inr w else fold_res (?f i) [i + 1..<?len] w))
      [0..<?len - 1] (whereClause (fill_where_clause sel))) (?I (?A (?len - 1)))"
    unfolding for_upto_def [symmetric]
  proof (rule ok_for_upto [where I = "\<lambda>n. ?I (?A n)"])
    show "?I (?A 0) (whereClause (fill_where_clause sel))"
      using w by (cases "whereClause sel") (auto simp: fill_where_clause_def eval_where_def true_node_def select_simps)
  next
    fix i t assume i: "i < ?len - 1" and t: "?I (?A i) t"
    then have i': "i < ?len" by simp
    have "?I (?A (Suc i)) t" if "\<not> ?U i"
    proof -
      have "(\<forall>(k, j) \<in> ?A (Suc i). ?C k j) \<longleftrightarrow> (\<forall>(k, j) \<in> ?A i. ?C k j)" using that by (auto simp: less_Suc_eq)
      then show ?thesis using t by simp
    qed
    then show "ok (rbind (aread types i) (\<lambda>ti. if ti \<noteq> TABLETYPE_URELATION then Inr t else fold_res (?f i) [i + 1..<?len] t)) (?I (?A (Suc i)))"
      using inner [of i t] i' t ty by (simp add: aread_def)
  qed
  moreover have "(\<forall>(i, j) \<in> ?A (?len - 1). ?C i j) \<longleftrightarrow> consistent types css"
    unfolding consistent_def len by auto
  ultimately show ?thesis unfolding remove_mutual_exclusiveness_def Let_def by (auto elim!: ok_mono)
qed


section \<open>The condition columns of the inner select\<close>

lemma map_res_eq: "(\<And>x. x \<in> set xs \<Longrightarrow> f x = Inr (g x)) \<Longrightarrow> map_res f xs = Inr (map g xs)"
  by (induction xs) auto

text \<open>The condition columns in the order of the relations.\<close>

definition pos_upto :: "nat list \<Rightarrow> nat \<Rightarrow> (nat \<times> nat) list" where
  "pos_upto ns n = concat (map (\<lambda>i. map (Pair i) [0..<ns ! i]) [0..<n])"

abbreviation positions :: "nat list \<Rightarrow> (nat \<times> nat) list" where
  "positions ns \<equiv> pos_upto ns (length ns)"

lemma pos_upto_Suc: "pos_upto ns (Suc n) = pos_upto ns n @ map (Pair n) [0..<ns ! n]"
  by (simp add: pos_upto_def)

lemma pos_upto_mono: "m \<le> n \<Longrightarrow> length (pos_upto ns m) \<le> length (pos_upto ns n)"
  by (induction n) (auto simp: pos_upto_Suc le_Suc_eq)

lemma positions_conds: "map (\<lambda>(i, j). css ! i ! j) (positions (map length css)) = concat css"
proof -
  have "map (\<lambda>(i, j). css ! i ! j) (pos_upto (map length css) n) = concat (take n css)" if "n \<le> length css" for n
    using that by (induction n) (auto simp: pos_upto_Suc take_Suc_conv_app_nth map_nth comp_def, simp add: pos_upto_def)
  then show ?thesis by simp
qed

lemma positions_range: "(i, j) \<in> set (positions ns) \<Longrightarrow> i < length ns \<and> j < ns ! i"
  by (auto simp: pos_upto_def)

lemma positions_nth:
  "c < length (positions ns) \<Longrightarrow> fst (positions ns ! c) < length ns \<and> snd (positions ns ! c) < ns ! fst (positions ns ! c)"
  using positions_range [of "fst (positions ns ! c)" "snd (positions ns ! c)" ns] by simp

lemma positions_bound: "(i, j) \<in> set (positions ns) \<Longrightarrow> j < length (positions ns)"
proof -
  assume "(i, j) \<in> set (positions ns)"
  then have i: "i < length ns" "j < ns ! i" using positions_range by blast+
  then have "ns ! i \<le> length (pos_upto ns (Suc i))" by (simp add: pos_upto_Suc)
  then show ?thesis using pos_upto_mono [of "Suc i" "length ns" ns] i by simp
qed

definition cond_target :: "string list list \<Rightarrow> string \<Rightarrow> nat \<Rightarrow> nat \<times> nat \<Rightarrow> node" where
  "cond_target flds name c ij = T_ResTarget (Some (col name c)) (Some (T_ColumnRef (delLastAppendOne (flds ! fst ij) (col name (snd ij)))))"

definition cond_targets :: "string list list \<Rightarrow> string \<Rightarrow> (nat \<times> nat) list \<Rightarrow> node list" where
  "cond_targets flds name ps = map (\<lambda>c. cond_target flds name c (ps ! c)) [0..<length ps]"

lemma cond_targets_snoc: "cond_targets flds name (ps @ [p]) = cond_targets flds name ps @ [cond_target flds name (length ps) p]"
  by (auto simp: cond_targets_def nth_append)

lemma put_args_to_conf_general_eq:
  assumes n: "length ns = length flds" "length (positions ns) \<le> 10000" and name: "length name = 2"
  shows "put_args_to_conf_general (map int ns) flds name = Inr (cond_targets flds name (positions ns))"
proof -
  let ?S = "\<lambda>ps. (length ps, cond_targets flds name ps)"
  let ?g = "\<lambda>i j (counter, list). rbind (condition_target (flds ! i) name j counter) (\<lambda>res. Inr (counter + 1, list @ [res]))"
  have inner: "ok (for_upto (ns ! i) (?g i) (?S (pos_upto ns i))) (\<lambda>st. st = ?S (pos_upto ns (Suc i)))" if i: "i < length flds" for i
    unfolding pos_upto_Suc
  proof (rule ok_for_upto [where I = "\<lambda>j st. st = ?S (pos_upto ns i @ map (Pair i) [0..<j])"])
    fix j st assume j: "j < ns ! i" and st: "st = ?S (pos_upto ns i @ map (Pair i) [0..<j])"
    have "length (pos_upto ns i) + ns ! i \<le> 10000"
      using pos_upto_mono [of "Suc i" "length ns" ns] i n by (simp add: pos_upto_Suc)
    then have "condition_target (flds ! i) name j (length (pos_upto ns i) + j) = Inr (cond_target flds name (length (pos_upto ns i) + j) (i, j))"
      using j name by (simp add: condition_target_def catStrInt_eq cond_target_def del: of_nat_add)
    then show "ok (?g i j st) (\<lambda>st. st = ?S (pos_upto ns i @ map (Pair i) [0..<Suc j]))"
      using cond_targets_snoc [of flds name "pos_upto ns i @ map (Pair i) [0..<j]" "(i, j)"] by (simp add: st)
  qed simp
  have "ok (for_upto (length flds) (\<lambda>i (counter, list).
       rbind (list_nth flds i) (\<lambda>field.
       rbind (aread (map int ns) i) (\<lambda>c.
       for_upto (nat c) (\<lambda>j (counter, list).
         rbind (condition_target field name j counter) (\<lambda>res. Inr (counter + 1, list @ [res]))) (counter, list)))) (0, []))
       (\<lambda>st. st = ?S (pos_upto ns (length flds)))"
    using inner n by (intro ok_for_upto [where I = "\<lambda>i st. st = ?S (pos_upto ns i)"]) (auto simp: aread_def pos_upto_def cond_targets_def)
  then show ?thesis using n by (auto simp: put_args_to_conf_general_def elim!: ok_E)
qed

lemma arg_columns_eq:
  assumes "n \<le> 10000" "\<forall>name \<in> set names. length name = 2"
  shows "arg_columns names (int n) = Inr (concat (map (\<lambda>i. map (\<lambda>name. T_ColumnRef [col name i]) names) [0..<n]))"
proof -
  have "map_res (\<lambda>i. map_res (\<lambda>name. rbind (catStrInt name (int i)) (\<lambda>c. Inr (T_ColumnRef [c]))) names) [0..<n] =
      Inr (map (\<lambda>i. map (\<lambda>name. T_ColumnRef [col name i]) names) [0..<n])"
    using assms by (intro map_res_eq) (auto simp: catStrInt_eq)
  then show ?thesis by (simp add: arg_columns_def)
qed

lemma total_triples: "calculate_total_triples (map int ns) (length ns) = Inr (int (length (positions ns)))"
proof -
  have "ok (calculate_total_triples (map int ns) (length ns)) (\<lambda>r. r = int (length (pos_upto ns (length ns))))"
    unfolding calculate_total_triples_def
    by (rule ok_for_upto [where I = "\<lambda>i r. r = int (length (pos_upto ns i))"]) (auto simp: aread_def pos_upto_Suc, simp add: pos_upto_def)
  then show ?thesis by (auto elim!: ok_E)
qed

subsection \<open>What the outer select reads\<close>

abbreviation target_cols :: "node list \<Rightarrow> string \<rightharpoonup> node option" where
  "target_cols ts \<equiv> map_of (map (\<lambda>t. (target_name t, target_val t)) ts)"

lemma cond_targets_other: "\<forall>c. x \<noteq> col name c \<Longrightarrow> target_cols (cond_targets flds name ps) x = None"
  by (auto simp: map_of_eq_None_iff cond_targets_def cond_target_def)

lemma cond_targets_col:
  assumes "c < length ps"
  shows "target_cols (cond_targets flds name ps) (col name c) = Some (target_val (cond_target flds name c (ps ! c)))"
  using assms
  by (intro map_of_is_SomeI) (auto simp: cond_targets_def cond_target_def comp_def distinct_map inj_on_def digits_inj)

lemma out_row_cond:
  assumes J: "joined flds tc rows css" and c: "c < length ps" and ps: "ps = positions (map length css)"
    and name: "name \<in> {VARNAME, DOMAINNAME, PROBNAME}" and other: "\<forall>t \<in> set gs. \<forall>c. target_name t \<noteq> col name c"
  shows "out_row (row_env flds rows) (gs @ cond_targets flds VARNAME ps @ cond_targets flds DOMAINNAME ps @ cond_targets flds PROBNAME ps)
    (col name c) = (rows ! fst (ps ! c)) (col name (snd (ps ! c)))"
proof -
  have len: "length name = 2" "\<And>n d. length n = 2 \<Longrightarrow> n \<noteq> name \<Longrightarrow> col name c \<noteq> col n d" using name by auto
  have "fst (ps ! c) < length flds" using J positions_nth [of c "map length css"] c by (simp add: ps joined_def)
  note q = join_env_qualified [OF J this]
  have gs: "target_cols gs (col name c) = None" using other by (auto simp: map_of_eq_None_iff) metis
  have o: "n \<noteq> name \<Longrightarrow> length n = 2 \<Longrightarrow> target_cols (cond_targets flds n ps) (col name c) = None" for n
    using len(2) [of n] by (intro cond_targets_other) auto
  have "target_cols (gs @ cond_targets flds VARNAME ps @ cond_targets flds DOMAINNAME ps @ cond_targets flds PROBNAME ps) (col name c) =
      Some (target_val (cond_target flds name c (ps ! c)))"
    using name gs o [of VARNAME] o [of DOMAINNAME] o [of PROBNAME] cond_targets_col [OF c, of flds name]
    by (auto simp: map_add_def)
  then show ?thesis by (simp add: out_row_def cond_target_def q)
qed

definition outer_env :: "row \<Rightarrow> string list \<Rightarrow> datum option" where
  "outer_env r = join_env [[''temp'']] [r]"

lemma outer_env_single [simp]: "outer_env r [c] = r c"
  by (simp add: outer_env_def join_env_def split: option.splits)

definition plain :: "node \<Rightarrow> bool" where
  "plain c \<longleftrightarrow> (\<exists>x. c = T_ColumnRef [x])"

definition conf_columns :: "nat \<Rightarrow> node list" where
  "conf_columns n = concat (map (\<lambda>i. map (\<lambda>name. T_ColumnRef [col name i]) [VARNAME, DOMAINNAME, PROBNAME]) [0..<n])"

lemma conf_columns_plain: "list_all plain (conf_columns n)"
  by (auto simp: conf_columns_def plain_def list_all_iff)

lemma conf_columns_eval:
  assumes J: "joined flds tc rows css" and ps: "ps = positions (map length css)"
    and other: "\<forall>t \<in> set gs. \<forall>c. \<forall>name \<in> {VARNAME, DOMAINNAME, PROBNAME}. target_name t \<noteq> col name c"
  shows "map (eval (outer_env (out_row (row_env flds rows)
      (gs @ cond_targets flds VARNAME ps @ cond_targets flds DOMAINNAME ps @ cond_targets flds PROBNAME ps)))) (conf_columns (length ps)) =
    args_of (concat css)"
proof -
  let ?r = "out_row (row_env flds rows) (gs @ cond_targets flds VARNAME ps @ cond_targets flds DOMAINNAME ps @ cond_targets flds PROBNAME ps)"
  let ?a = "\<lambda>x. [Some (DInt (fst x)), Some (DInt (fst (snd x))), Some (DReal (snd (snd x)))]"
  have r: "?r (col name c) = (rows ! fst (ps ! c)) (col name (snd (ps ! c)))"
    if "c < length ps" "name \<in> {VARNAME, DOMAINNAME, PROBNAME}" for c name
    using out_row_cond [OF J that(1) ps that(2)] that(2) other by blast
  have step: "map (\<lambda>name. ?r (col name c)) [VARNAME, DOMAINNAME, PROBNAME] = ?a (css ! fst (ps ! c) ! snd (ps ! c))" if c: "c < length ps" for c
  proof -
    have ij: "fst (ps ! c) < length css" "snd (ps ! c) < length (css ! fst (ps ! c))"
      using positions_nth [of c "map length css"] c by (auto simp: ps)
    moreover have "has_conds (rows ! fst (ps ! c)) (css ! fst (ps ! c))" using J ij by (simp add: joined_def)
    ultimately show ?thesis using r [OF c] by (simp add: has_conds_def)
  qed
  have "map (eval (outer_env ?r)) (conf_columns (length ps)) =
      concat (map (\<lambda>c. map (\<lambda>name. ?r (col name c)) [VARNAME, DOMAINNAME, PROBNAME]) [0..<length ps])"
    by (simp add: conf_columns_def map_concat comp_def)
  also have "\<dots> = concat (map (\<lambda>c. ?a (css ! fst (ps ! c) ! snd (ps ! c))) [0..<length ps])"
    using step by (intro arg_cong [where f = concat] map_cong) auto
  also have "\<dots> = concat (map ?a (map (\<lambda>(i, j). css ! i ! j) (map ((!) ps) [0..<length ps])))"
    by (simp add: comp_def case_prod_unfold)
  also have "\<dots> = args_of (concat css)"
    unfolding map_nth by (simp only: ps positions_conds) (simp add: args_of_def case_prod_unfold)
  finally show ?thesis .
qed

section \<open>The targets of the outer select\<close>

text \<open>An expression without an absent operand.\<close>

fun complete :: "node \<Rightarrow> bool" where
  "complete (T_A_Expr kind nm l r) \<longleftrightarrow>
     (case l of None \<Rightarrow> False | Some a \<Rightarrow> complete a) \<and> (case r of None \<Rightarrow> False | Some a \<Rightarrow> complete a)"
| "complete (T_TypeCast a ty) \<longleftrightarrow> complete a"
| "complete (T_FuncCall fn args star dis) \<longleftrightarrow> list_all complete args"
| "complete (T_ResTarget nm v) \<longleftrightarrow> False"
| "complete _ \<longleftrightarrow> True"

definition complete_target :: "node \<Rightarrow> bool" where
  "complete_target t \<longleftrightarrow> (case t of T_ResTarget nm (Some a) \<Rightarrow> complete a | _ \<Rightarrow> False)"

lemma remove_relation_reference_total: "complete n \<Longrightarrow> \<exists>r. remove_relation_reference_in_node n = Inr r"
proof (induction n rule: remove_relation_reference_in_node.induct)
  case (2 kind nm l r)
  then obtain a b where "l = Some a" "r = Some b" by (auto split: option.splits)
  then show ?case using 2 by (fastforce split: prod.splits)
next
  case (3 a ty)
  then show ?case by (fastforce split: prod.splits)
next
  case (4 fn args star dis)
  then have "\<exists>ys. map_res remove_relation_reference_in_node args = Inr ys" by (intro map_res_total) (auto simp: list_all_iff)
  then show ?case by auto
qed auto

text \<open>The calls stay in their places.\<close>

abbreviation reread :: "node \<Rightarrow> node \<Rightarrow> bool" where
  "reread c c' \<equiv> \<exists>al. remove_relation_reference_in_node c = Inr (c', al)"

lemma funcs_remove:
  "remove_relation_reference_in_node n = Inr (n', al) \<Longrightarrow> complete n \<Longrightarrow> list_all2 reread (funcs n) (funcs n')"
proof (induction n arbitrary: n' al rule: remove_relation_reference_in_node.induct)
  case (2 kind nm l r)
  then show ?case by (auto simp: rbind_eq_Inr_iff split: option.splits intro!: list_all2_appendI)
next
  case (3 a ty)
  then show ?case by (auto simp: rbind_eq_Inr_iff)
next
  case (4 fn args star dis)
  then obtain ys where ys: "map_res remove_relation_reference_in_node args = Inr ys" and n': "n' = T_FuncCall fn (map fst ys) star dis"
    by (auto simp: rbind_eq_Inr_iff)
  have "list_all2 (\<lambda>x y. list_all2 reread (funcs x) (funcs (fst y))) args ys"
    using ys [unfolded map_res_Inr] by (rule list.rel_mono_strong) (use 4(1,3) in \<open>auto simp: prod_eq_iff list_all_iff\<close>)
  then have "list_all2 reread (concat (map funcs args)) (concat (map funcs (map fst ys)))"
    by (induction args ys rule: list_all2_induct) (auto intro: list_all2_appendI)
  then show ?case using ys n' by simp
qed (auto split: if_splits)

lemma name_outer_total: "complete_target n \<Longrightarrow> \<exists>n'. name_outer n = Inr n' \<and> list_all2 reread (funcs n) (funcs n')"
proof -
  assume "complete_target n"
  then obtain nm a where n: "n = T_ResTarget nm (Some a)" and a: "complete a" by (auto simp: complete_target_def split: node.splits option.splits)
  obtain a' al where "remove_relation_reference_in_node a = Inr (a', al)" using remove_relation_reference_total [OF a] by auto
  then show ?thesis using funcs_remove [OF _ a] by (simp add: n name_outer_def)
qed

lemma name_outer_list:
  "list_all complete_target ts \<Longrightarrow> \<exists>ts'. map_res name_outer ts = Inr ts' \<and> list_all2 reread (concat (map funcs ts)) (concat (map funcs ts'))"
proof (induction ts)
  case (Cons t ts)
  then show ?case using name_outer_total [of t] by (auto intro: list_all2_appendI)
qed simp

text \<open>A change of a call changes the call the pointer refers to.\<close>

definition is_call :: "node \<Rightarrow> bool" where
  "is_call c \<longleftrightarrow> (\<exists>fn args star dis. c = T_FuncCall fn args star dis)"

lemma is_call_funcs: "is_call c \<Longrightarrow> \<exists>cs. funcs c = c # cs"
  by (auto simp: is_call_def)

lemma funcs_calls: "c \<in> set (funcs n) \<Longrightarrow> is_call c"
  by (induction n rule: funcs.induct) (auto simp: is_call_def split: option.splits)

lemma upd_func_nth:
  "(\<And>c. is_call c \<Longrightarrow> is_call (f c)) \<Longrightarrow> k < length (funcs n) \<Longrightarrow>
     \<exists>pre suf. funcs (upd_func f k n) = pre @ f (funcs n ! k) # suf \<and> length pre = k"
  "(\<And>c. is_call c \<Longrightarrow> is_call (f c)) \<Longrightarrow> k < length (concat (map funcs ns)) \<Longrightarrow>
     \<exists>pre suf. concat (map funcs (upd_func_list f k ns)) = pre @ f (concat (map funcs ns) ! k) # suf \<and> length pre = k"
proof (induction f k n and f k ns rule: upd_func_upd_func_list.induct)
  case (1 f k fn args star dis)
  show ?case
  proof (cases k)
    case 0
    have "is_call (f (T_FuncCall fn args star dis))" by (rule 1(2)) (simp add: is_call_def)
    then show ?thesis using is_call_funcs 0 by force
  next
    case (Suc j)
    then obtain pre suf where "concat (map funcs (upd_func_list f j args)) = pre @ f (concat (map funcs args) ! j) # suf" "length pre = j"
      using 1 by auto
    then show ?thesis using Suc by (intro exI [of _ "T_FuncCall fn (upd_func_list f j args) star dis # pre"] exI [of _ suf]) simp
  qed
next
  case (3 f k kind nm l r)
  let ?n = "length (funcs_opt l)"
  show ?case
  proof (cases "k < ?n")
    case True
    then obtain a where l: "l = Some a" by (cases l) auto
    obtain pre suf where "funcs (upd_func f k a) = pre @ f (funcs a ! k) # suf" "length pre = k" using 3(1) [OF refl True l 3(3)] True l by auto
    then show ?thesis using True l by (auto simp: nth_append)
  next
    case False
    then obtain b where r: "r = Some b" using 3(4) by (cases r) auto
    have k: "k - ?n < length (funcs b)" using False 3(4) r by auto
    obtain pre suf where "funcs (upd_func f (k - ?n) b) = pre @ f (funcs b ! (k - ?n)) # suf" "length pre = k - ?n"
      using 3(2) [OF refl False r 3(3) k] by auto
    then show ?thesis using False r by (intro exI [of _ "funcs_opt l @ pre"] exI [of _ suf]) (simp add: nth_append Let_def)
  qed
next
  case (7 f k n ns)
  show ?case
  proof (cases "k < length (funcs n)")
    case True
    then obtain pre suf where "funcs (upd_func f k n) = pre @ f (funcs n ! k) # suf" "length pre = k" using 7 by auto
    then show ?thesis using True by (auto simp: nth_append)
  next
    case False
    then obtain pre suf where "concat (map funcs (upd_func_list f (k - length (funcs n)) ns)) = pre @ f (concat (map funcs ns) ! (k - length (funcs n))) # suf"
      "length pre = k - length (funcs n)" using 7 by fastforce
    then show ?thesis using False by (intro exI [of _ "funcs n @ pre"] exI [of _ suf]) (simp add: nth_append)
  qed
qed (auto split: option.splits)


lemma upd_func_complete:
  "(\<And>c. complete c \<Longrightarrow> complete (f c)) \<Longrightarrow> complete n \<Longrightarrow> complete (upd_func f k n)"
  "(\<And>c. complete c \<Longrightarrow> complete (f c)) \<Longrightarrow> list_all complete ns \<Longrightarrow> list_all complete (upd_func_list f k ns)"
  by (induction f k n and f k ns rule: upd_func_upd_func_list.induct) (auto simp: Let_def split: option.splits)

lemma upd_func_complete_targets:
  "(\<And>c. complete c \<Longrightarrow> complete (f c)) \<Longrightarrow> list_all complete_target ts \<Longrightarrow> list_all complete_target (upd_func_list f k ts)"
proof (induction ts arbitrary: k)
  case (Cons t ts)
  from Cons.prems(2) obtain nm a where "t = T_ResTarget nm (Some a)" "complete a"
    by (auto simp: complete_target_def split: node.splits option.splits)
  then show ?case using Cons upd_func_complete(1) [of f a] by (simp add: complete_target_def)
qed simp

lemma append_args_complete: "list_all complete cs \<Longrightarrow> complete c \<Longrightarrow> complete (append_args cs c)"
  by (cases c) auto

lemma append_args_call: "is_call c \<Longrightarrow> is_call (append_args cs c)"
  by (auto simp: is_call_def)

text \<open>After the arguments were added and the references removed, the call has the new arguments.\<close>

lemma plain_map_res: "list_all plain cs \<Longrightarrow> map_res remove_relation_reference_in_node cs = Inr (map (\<lambda>c. (c, None)) cs)"
  by (intro map_res_eq) (auto simp: plain_def list_all_iff)

lemma map_res_append: "map_res f (xs @ ys) = rbind (map_res f xs) (\<lambda>as. rbind (map_res f ys) (\<lambda>bs. Inr (as @ bs)))"
  by (induction xs) (auto simp: rbind_def split: sum.splits)

lemma new_call:
  assumes ts: "list_all complete_target ts" and k: "k < length (concat (map funcs ts))" and cs: "list_all plain cs"
  obtains ts' where "map_res name_outer (upd_func_list (append_args cs) k ts) = Inr ts'"
    "\<exists>call. get_func k ts' = Inr call \<and> drop (length (func_args (concat (map funcs ts) ! k))) (func_args call) = cs"
proof -
  let ?c = "concat (map funcs ts) ! k"
  have "list_all complete cs" using cs by (auto simp: plain_def list_all_iff)
  then have "list_all complete_target (upd_func_list (append_args cs) k ts)"
    using ts append_args_complete by (intro upd_func_complete_targets) auto
  then obtain ts' where ts': "map_res name_outer (upd_func_list (append_args cs) k ts) = Inr ts'"
    "list_all2 reread (concat (map funcs (upd_func_list (append_args cs) k ts))) (concat (map funcs ts'))" using name_outer_list by blast
  obtain pre suf where ps: "concat (map funcs (upd_func_list (append_args cs) k ts)) = pre @ append_args cs ?c # suf" "length pre = k"
    using upd_func_nth(2) [of "append_args cs", OF append_args_call k] by blast
  have "is_call ?c" using funcs_calls nth_mem [OF k] by fastforce
  then obtain fn args star dis where c: "?c = T_FuncCall fn args star dis" by (auto simp: is_call_def)
  have kk: "k < length (pre @ append_args cs ?c # suf)" using ps(2) by simp
  have re: "reread (append_args cs ?c) (concat (map funcs ts') ! k)"
    using list_all2_nthD [OF ts'(2), of k] kk unfolding ps(1) by (simp add: nth_append ps(2))
  have "k < length (concat (map funcs ts'))" using list_all2_lengthD [OF ts'(2)] kk unfolding ps(1) by simp
  then have "get_func k ts' = Inr (concat (map funcs ts') ! k)" by (simp add: get_func_def)
  moreover have "drop (length (func_args ?c)) (func_args (concat (map funcs ts') ! k)) = cs"
  proof -
    obtain xa where xa: "map_res remove_relation_reference_in_node args = Inr xa" "concat (map funcs ts') ! k = T_FuncCall fn (map fst xa @ cs) False dis"
      using re by (auto simp: c map_res_append plain_map_res [OF cs] rbind_eq_Inr_iff comp_def)
    then have "length args = length xa" by (auto simp: map_res_Inr dest: list_all2_lengthD)
    then show ?thesis using xa(2) by (simp add: c)
  qed
  ultimately show thesis using that ts'(1) by blast
qed

section \<open>The general rewriting\<close>

definition group_name :: "string list \<Rightarrow> string" where
  "group_name fs = (if length fs > 1 then concat_fields fs else last fs)"

text \<open>
  A query with a call of \<open>conf()\<close> (the function numbered \<open>func\<close>), grouped by columns whose names
  are distinct and not those of condition columns.
\<close>

definition conf_query :: "SelectStmt \<Rightarrow> nat \<Rightarrow> string list list \<Rightarrow> bool" where
  "conf_query sel func gs \<longleftrightarrow>
     groupClause sel = map T_ColumnRef gs \<and> distinct (map group_name gs) \<and>
     (\<forall>fs \<in> set gs. fs \<noteq> [] \<and> (\<forall>c. \<forall>name \<in> {VARNAME, DOMAINNAME, PROBNAME}. group_name fs \<noteq> col name c)) \<and>
     no_sublink (whereClause sel) \<and> list_all complete_target (targetList sel) \<and>
     func < length (concat (map funcs (targetList sel)))"

definition group_target :: "string list \<Rightarrow> node" where
  "group_target fs = T_ResTarget (if length fs > 1 then Some (concat_fields fs) else None) (Some (T_ColumnRef fs))"

lemma target_name_group [simp]: "fs \<noteq> [] \<Longrightarrow> target_name (group_target fs) = group_name fs" "target_val (group_target fs) = Some (T_ColumnRef fs)"
  by (auto simp: group_target_def group_name_def)

lemma group_columns_eval:
  assumes "distinct (map group_name gs)" "\<forall>fs \<in> set gs. fs \<noteq> []"
    and other: "\<And>fs. fs \<in> set gs \<Longrightarrow> target_cols ts (group_name fs) = None"
  shows "map (eval (outer_env (out_row env (map group_target gs @ ts)))) (map name_group (map T_ColumnRef gs)) = map env gs"
proof -
  have "eval (outer_env (out_row env (map group_target gs @ ts))) (name_group (T_ColumnRef fs)) = env fs" if fs: "fs \<in> set gs" for fs
  proof -
    have "map_of (map (\<lambda>t. (target_name t, target_val t)) (map group_target gs)) (group_name fs) = Some (Some (T_ColumnRef fs))"
      using assms(1,2) fs by (intro map_of_is_SomeI) (auto simp: comp_def cong: map_cong)
    then have row: "out_row env (map group_target gs @ ts) (group_name fs) = env fs" using other [OF fs] by (simp add: out_row_def map_add_def)
    obtain x xs where "fs = x # xs" using assms(2) fs by (cases fs) auto
    then show ?thesis using row by (cases xs) (auto simp: name_group_def group_name_def)
  qed
  then show ?thesis by simp
qed

lemma add_referenced_columns_eq:
  "groupClause sel = map T_ColumnRef gs \<Longrightarrow>
   add_referenced_columns sel sub = Inr (set_targetList (targetList sub @ map (\<lambda>fs. T_ResTarget None (Some (T_ColumnRef fs))) gs) sub)"
proof -
  assume g: "groupClause sel = map T_ColumnRef gs"
  have "map_res (\<lambda>n. case n of T_ColumnRef fs \<Rightarrow> Inr (T_ResTarget None (Some n))
       | _ \<Rightarrow> Inl (Elog ''Only column ferences are allowed in the group clause'')) (map T_ColumnRef gs) =
      Inr (map (\<lambda>n. T_ResTarget None (Some n)) (map T_ColumnRef gs))" by (rule map_res_eq) auto
  then show ?thesis using g by (simp add: add_referenced_columns_def comp_def)
qed

lemma get_sort_clause_eq:
  "get_sort_clause (map (\<lambda>(nm, fs). T_ResTarget nm (Some (T_ColumnRef fs))) cs) = Inr (map (\<lambda>(nm, fs). T_SortBy (T_ColumnRef fs)) cs)"
proof -
  have "map_res (\<lambda>n. rbind (as_ResTarget n) (\<lambda>(nm, v). rbind (deref v) (\<lambda>a. Inr (case a of T_ColumnRef fs \<Rightarrow> [T_SortBy a] | _ \<Rightarrow> []))))
      (map (\<lambda>(nm, fs). T_ResTarget nm (Some (T_ColumnRef fs))) cs) = Inr (map (\<lambda>(nm, fs). [T_SortBy (T_ColumnRef fs)]) cs)"
    by (induction cs) auto
  moreover have "concat (map (\<lambda>(nm, fs). [T_SortBy (T_ColumnRef fs)]) cs) = map (\<lambda>(nm, fs). T_SortBy (T_ColumnRef fs)) cs"
    by (induction cs) auto
  ultimately show ?thesis by (simp add: get_sort_clause_def)
qed

lemma name_inner_targets:
  "map_res name_inner (map (\<lambda>fs. T_ResTarget None (Some (T_ColumnRef fs))) gs) = Inr (map group_target gs)"
  "map_res name_inner (cond_targets flds name ps) = Inr (cond_targets flds name ps)"
proof -
  show "map_res name_inner (map (\<lambda>fs. T_ResTarget None (Some (T_ColumnRef fs))) gs) = Inr (map group_target gs)"
    by (induction gs) (auto simp: name_inner_def group_target_def)
  have "map_res name_inner (cond_targets flds name ps) = Inr (map id (cond_targets flds name ps))"
    by (rule map_res_eq) (auto simp: name_inner_def cond_targets_def cond_target_def)
  then show "map_res name_inner (cond_targets flds name ps) = Inr (cond_targets flds name ps)" by simp
qed


text \<open>The statements the rewriting makes of a query, and what they return for a joined tuple.\<close>

definition inner_targets :: "string list list \<Rightarrow> string list list \<Rightarrow> (nat \<times> nat) list \<Rightarrow> node list" where
  "inner_targets gs flds ps = map group_target gs @ cond_targets flds VARNAME ps @ cond_targets flds DOMAINNAME ps @ cond_targets flds PROBNAME ps"

lemma generalRewrite_row:
  assumes q: "conf_query sel func gs" and J: "joined flds tc rows css" and ty: "length types = length flds"
    and f: "length (fromClause sel) = length flds" and L: "length (concat css) \<le> 10000"
    and w: "eval_where (row_env flds rows) (whereClause sel) = Some (DBool b)"
  shows "ok (generalRewrite proc sel types tc flds func g) (\<lambda>(outer, g'). g' = g \<and>
    (\<exists>inner call. fromClause outer = [makeRangeSubselect ''temp'' inner] \<and> whereClause outer = None \<and>
      fromClause inner = fromClause sel \<and> groupClause inner = [] \<and> distinctClause inner = distinctClause sel \<and>
      havingClause inner = havingClause sel \<and> limitOffset inner = limitOffset sel \<and> limitCount inner = limitCount sel \<and>
      eval_where (row_env flds rows) (whereClause inner) = Some (DBool (b \<and> consistent types css)) \<and>
      get_func func (targetList outer) = Inr call \<and>
      map (eval (outer_env (out_row (row_env flds rows) (targetList inner)))) (drop (length (func_args (concat (map funcs (targetList sel)) ! func))) (func_args call)) =
        args_of (concat css) \<and>
      map (eval (outer_env (out_row (row_env flds rows) (targetList inner)))) (groupClause outer) = map (row_env flds rows) gs))"
proof -
  let ?ns = "map length css" and ?N = "{VARNAME, DOMAINNAME, PROBNAME}"
  define P where P: "P = positions ?ns"
  have tc: "tc = map int ?ns" "length ?ns = length flds" using J by (auto simp: joined_def)
  have len: "length P \<le> 10000" using arg_cong [OF positions_conds [of css], of length] L by (simp add: P)
  have args: "put_args_general (int (length P)) = Inr (conf_columns (length P))"
    using len by (simp add: put_args_general_def arg_columns_eq conf_columns_def)
  have L': "\<forall>cs \<in> set css. length cs \<le> 10000"
  proof
    fix cs assume "cs \<in> set css"
    then have "length cs \<le> length (concat css)" by (simp add: length_concat member_le_sum_list)
    then show "length cs \<le> 10000" using L by simp
  qed
  have total: "calculate_total_triples tc (length flds) = Inr (int (length P))" using total_triples [of ?ns] tc by (simp add: P)
  have pg: "name \<in> ?N \<Longrightarrow> put_args_to_conf_general tc flds name = Inr (cond_targets flds name P)" for name
    using put_args_to_conf_general_eq [OF tc(2), of name] len unfolding tc(1) by (auto simp: P)
  have gc: "groupClause sel = map T_ColumnRef gs" and gd: "distinct (map group_name gs)" and gne: "\<forall>fs \<in> set gs. fs \<noteq> []"
    and gn: "\<And>fs c name. fs \<in> set gs \<Longrightarrow> name \<in> ?N \<Longrightarrow> group_name fs \<noteq> col name c"
    and ns: "no_sublink (whereClause sel)" and ct: "list_all complete_target (targetList sel)"
    and k: "func < length (concat (map funcs (targetList sel)))" using q by (auto simp: conf_query_def)
  obtain ts' call where ts': "map_res name_outer (upd_func_list (append_args (conf_columns (length P))) func (targetList sel)) = Inr ts'"
    "get_func func ts' = Inr call" "drop (length (func_args (concat (map funcs (targetList sel)) ! func))) (func_args call) = conf_columns (length P)"
    using new_call [OF ct k conf_columns_plain] by blast
  let ?T = "inner_targets gs flds P"
  have inner: "map_res name_inner (map (\<lambda>fs. T_ResTarget None (Some (T_ColumnRef fs))) gs @ cond_targets flds VARNAME P @ cond_targets flds DOMAINNAME P @ cond_targets flds PROBNAME P) = Inr ?T"
    by (simp add: map_res_append name_inner_targets inner_targets_def)
  have sort: "\<exists>ss. get_sort_clause (map (\<lambda>fs. T_ResTarget None (Some (T_ColumnRef fs))) gs) = Inr ss"
    using get_sort_clause_eq [of "map (Pair None) gs"] by (simp add: comp_def)
  have ev: "map (eval (outer_env (out_row (row_env flds rows) ?T))) (conf_columns (length P)) = args_of (concat css)"
    using conf_columns_eval [OF J P, of "map group_target gs"] gn gne by (auto simp: inner_targets_def)
  have eg: "map (eval (outer_env (out_row (row_env flds rows) ?T))) (map name_group (map T_ColumnRef gs)) = map (row_env flds rows) gs"
    unfolding inner_targets_def
  proof (rule group_columns_eval [OF gd gne])
    fix fs assume "fs \<in> set gs"
    then show "target_cols (cond_targets flds VARNAME P @ cond_targets flds DOMAINNAME P @ cond_targets flds PROBNAME P) (group_name fs) = None"
      using gn by (simp add: map_add_def cond_targets_other)
  qed
  obtain ss where ss: "get_sort_clause (map (\<lambda>fs. T_ResTarget None (Some (T_ColumnRef fs))) gs) = Inr ss" using sort by blast
  let ?s1 = "set_targetList [] (set_sel_info ((sel_info sel)\<lparr>intoClause := None\<rparr>) (set_groupClause [] sel))"
  let ?G = "map (\<lambda>fs. T_ResTarget None (Some (T_ColumnRef fs))) gs"
  let ?s2 = "set_whereClause (whereClause sel) (set_targetList (?G @ cond_targets flds VARNAME P @ cond_targets flds DOMAINNAME P @ cond_targets flds PROBNAME P)
    (set_sortClause ss (set_targetList ?G ?s1)))"
  obtain w' where R: "remove_mutual_exclusiveness types tc flds ?s2 = Inr (set_whereClause w' (fill_where_clause ?s2))"
    and w': "eval_where (row_env flds rows) w' = Some (DBool (b \<and> consistent types css))"
    using remove_mutual_ok [OF J ty L', of ?s2 b] w by (auto elim!: ok_E)
  have fill: "fromClause (fill_where_clause s) = fromClause s" "targetList (fill_where_clause s) = targetList s"
    "limitCount (fill_where_clause s) = limitCount s" "groupClause (fill_where_clause s) = groupClause s"
    "limitOffset (fill_where_clause s) = limitOffset s" "havingClause (fill_where_clause s) = havingClause s"
    "distinctClause (fill_where_clause s) = distinctClause s" for s by (auto simp: fill_where_clause_def)
  have "generalRewrite proc sel types tc flds func g =
      Inr (set_whereClause None (set_fromClause [makeRangeSubselect ''temp'' (set_targetList ?T (set_whereClause w' (fill_where_clause ?s2)))]
        (set_groupClause (map name_group (map T_ColumnRef gs)) (set_targetList ts' (set_targetList
          (upd_func_list (append_args (conf_columns (length P))) func (targetList sel)) sel)))), g)"
    using f
    by (simp add: generalRewrite_def Let_def add_referenced_columns_eq [OF gc] ss pg processWhereClause_id [OF ns] R total args
        handle_relation_reference_def inner ts'(1) gc fill del: map_map)
  then show ?thesis using w' ts'(2,3) ev eg by (simp add: makeRangeSubselect_def fill del: map_map)
qed

end
