(* ===== verification/Process.thy ===== *)
theory Process
  imports RepairKey Supported QuerySem
begin

text \<open>
  The rewriting of a statement (\<^verbatim>\<open>process\<close> and \<^verbatim>\<open>process_select\<close> of \<^verbatim>\<open>rewrite.c\<close>, \<^verbatim>\<open>rewrite_updates.c\<close>).
  \<open>rewrite_select\<close> is the part of \<open>process_select\<close> behind the processing of the subqueries. The
  signature of a hierarchical query is a global variable, the last argument and result.
\<close>

section \<open>Select statements\<close>

text \<open>The processing of \<open>esum\<close> and \<open>ecount\<close>; the result points to the call of \<open>tconf\<close>, if there is one.\<close>

definition rewrite_expectations :: "node list \<Rightarrow> (node list \<times> nat option) res" where
  "rewrite_expectations targets =
     rbind (case lookup_func_in_list ESUM targets of
              None \<Rightarrow> Inr (targets, None)
            | Some k \<Rightarrow> rbind (rewrite_esum targets k) (\<lambda>(targets, t). Inr (targets, Some t))) (\<lambda>(targets, tconf).
     rbind (case lookup_func_in_list ECOUNT targets of
              None \<Rightarrow> Inr (targets, tconf)
            | Some k \<Rightarrow> rbind (rewrite_ecount targets k) (\<lambda>(targets, t). Inr (targets, Some t))) (\<lambda>(targets, tconf).
     Inr (targets, if tconf = None then lookup_func_in_list TUPLECONF targets else tconf)))"

text \<open>\<open>conf()\<close> over tuple-independent relations.\<close>

definition rewrite_conf_independent :: "process_fn \<Rightarrow> rel_catalog \<Rightarrow> SelectStmt \<Rightarrow> char list \<Rightarrow> int list \<Rightarrow> string list list \<Rightarrow> nat \<Rightarrow>
    sigGlobals option \<Rightarrow> (SelectStmt \<times> sigGlobals option) res" where
  "rewrite_conf_independent proc cat sel typeArray tripleCount flds conf g =
     rbind (geneSGList (sig_catalog cat) (map from_item_of (fromClause sel)) (map_option expr_node_of (whereClause sel)) []) (\<lambda>sglist.
     rbind (isHQ sglist) (\<lambda>hq.
     rbind (if hq then rbind (is_self_join cat (fromClause sel)) (\<lambda>b. Inr (\<not> b)) else Inr False) (\<lambda>b.
     if b then
       rbind (ProcessSignature (sig_catalog cat) (map from_item_of (fromClause sel)) sglist) (\<lambda>sig.
       rbind (getVarOrder (sigTreeRoot sig) []) (\<lambda>varOrder.
       rbind (HQ_rewriting sel varOrder conf) (\<lambda>sel. Inr (sel, Some sig))))
     else generalRewrite proc sel typeArray tripleCount flds conf g)))"

definition rewrite_confidence :: "process_fn \<Rightarrow> rel_catalog \<Rightarrow> SelectStmt \<Rightarrow> bool \<Rightarrow> char list \<Rightarrow> int list \<Rightarrow> string list list \<Rightarrow>
    nat option \<Rightarrow> nat option \<Rightarrow> nat option \<Rightarrow> sigGlobals option \<Rightarrow> (SelectStmt \<times> sigGlobals option) res" where
  "rewrite_confidence proc cat sel generalCase typeArray tripleCount flds tconf aconf conf g =
     (case tconf of
        Some k \<Rightarrow>
          if \<not> generalCase then
            rbind (put_args_to_tconf_independent typeArray flds) (\<lambda>cs.
            Inr (set_targetList (upd_func_list (append_args cs) k (targetList sel)) sel, g))
          else
            rbind (put_args_to_tconf proc sel typeArray tripleCount flds k g) (\<lambda>(sel, g).
            Inr (set_targetList (upd_func_list (append_args []) k (targetList sel)) sel, g))
      | None \<Rightarrow>
          (case aconf of
             Some k \<Rightarrow>
               rbind (get_func k (targetList sel)) (\<lambda>call.
               if length (func_args call) \<noteq> 2 then Inl (Elog ''aconf takes two parameters'')
               else generalRewrite proc sel typeArray tripleCount flds k g)
           | None \<Rightarrow>
               (case conf of
                  None \<Rightarrow> Inr (sel, g)
                | Some k \<Rightarrow>
                    rbind (get_func k (targetList sel)) (\<lambda>call.
                    if generalCase \<or> length (func_args call) = 2 then generalRewrite proc sel typeArray tripleCount flds k g
                    else
                      rbind (if length (fromClause sel) = 1 then rbind (aread typeArray 0) (\<lambda>t0. Inr (t0 = TABLETYPE_INDEPENDENT)) else Inr False) (\<lambda>b.
                      if b then
                        rbind put_args_one_relation_HQ (\<lambda>cs.
                        Inr (set_targetList (upd_func_list (append_args cs) k (targetList sel)) sel, g))
                      else rewrite_conf_independent proc cat sel typeArray tripleCount flds k g)))))"

text \<open>A select that stays uncertain gets the condition columns and the consistency test.\<close>

definition attach_conditions :: "SelectStmt \<Rightarrow> char list \<Rightarrow> int list \<Rightarrow> string list list \<Rightarrow> bool list list \<Rightarrow> SelectStmt res" where
  "attach_conditions sel typeArray tripleCount flds fromRepairKey =
     rbind (calculate_total_triples tripleCount (length (fromClause sel))) (\<lambda>n.
     rbind (add_condition_columns (set_sel_info ((set_into_type TABLETYPE_URELATION (sel_info sel))
       \<lparr>dimension := n, isFromRepairKey := replicate (nat n) False\<rparr>) sel) tripleCount flds fromRepairKey) (\<lambda>sel.
     remove_mutual_exclusiveness typeArray tripleCount flds sel))"

definition rewrite_select :: "process_fn \<Rightarrow> rel_catalog \<Rightarrow> SelectStmt \<Rightarrow> sigGlobals option \<Rightarrow> (SelectStmt \<times> sigGlobals option) res" where
  "rewrite_select proc cat sel g =
     rbind (rewrite_expectations (targetList sel)) (\<lambda>(targets, tconf).
     let conf = lookup_func_in_list CONF targets; aconf = lookup_func_in_list ACONF targets; sel = set_targetList targets sel in
     rbind (getTripleCounts cat (fromClause sel)) (\<lambda>tripleCount.
     rbind (generateFields (fromClause sel)) (\<lambda>flds.
     rbind (is_a_general_case cat (fromClause sel)) (\<lambda>(generalCase, typeArray).
     rbind (get_repairkey_columns (fromClause sel) tripleCount) (\<lambda>fromRepairKey.
     rbind (transform_targetList cat typeArray tripleCount flds sel) (\<lambda>sel.
     rbind (all_relations_are_certain (length (fromClause sel)) typeArray) (\<lambda>certain.
     if certain \<and> repairkey sel = [] \<and> pickingType (sel_info sel) \<noteq> CHR ''I'' \<and> \<not> possible (sel_info sel) \<and>
       (tconf \<noteq> None \<or> conf \<noteq> None \<or> aconf \<noteq> None) then
       Inl (Elog ''Query not supported: tconf, conf, aconf, esum and ecount cannot used be in a certain query'')
     else
       rbind (rewrite_confidence proc cat sel generalCase typeArray tripleCount flds tconf aconf conf g) (\<lambda>(sel, g).
       rbind (if possible (sel_info sel) then rewrite_possible proc sel typeArray tripleCount flds g else Inr (sel, g)) (\<lambda>(sel, g).
       if repairkey sel \<noteq> [] then rbind (ProcessRepairKey sel) (\<lambda>sel. Inr (sel, g))
       else if pickingType (sel_info sel) = CHR ''I'' then rbind (ProcessPickTuples sel) (\<lambda>sel. Inr (sel, g))
       else
         rbind (all_relations_are_certain (length (fromClause sel)) typeArray) (\<lambda>certain.
         if certain \<or> tconf \<noteq> None \<or> conf \<noteq> None \<or> aconf \<noteq> None \<or> possible (sel_info sel) then
           Inr (set_sel_info ((sel_info sel)\<lparr>tabletype := TABLETYPE_CERTAIN\<rparr>) sel, g)
         else rbind (attach_conditions sel typeArray tripleCount flds fromRepairKey) (\<lambda>sel. Inr (sel, g))))))))))))"

text \<open>The subqueries of the from clause and the arguments of a set operation come first.\<close>

fun process_select :: "process_fn \<Rightarrow> rel_catalog \<Rightarrow> SelectStmt \<Rightarrow> sigGlobals option \<Rightarrow> (SelectStmt \<times> sigGlobals option) res"
  and process_from :: "process_fn \<Rightarrow> rel_catalog \<Rightarrow> node list \<Rightarrow> sigGlobals option \<Rightarrow> (node list \<times> sigGlobals option) res"
  and process_item :: "process_fn \<Rightarrow> rel_catalog \<Rightarrow> node \<Rightarrow> sigGlobals option \<Rightarrow> (node \<times> sigGlobals option) res"
  and process_subquery :: "process_fn \<Rightarrow> rel_catalog \<Rightarrow> SelectStmt \<Rightarrow> sigGlobals option \<Rightarrow> (SelectStmt \<times> sigGlobals option) res" where
  "process_select proc cat sel g = rbind (process_subquery proc cat sel g) (\<lambda>(sel, g). rewrite_select proc cat sel g)"
| "process_from proc cat [] g = Inr ([], g)"
| "process_from proc cat (n # ns) g =
     rbind (process_item proc cat n g) (\<lambda>(n', g').
     rbind (process_from proc cat ns g') (\<lambda>(ns', g''). Inr (n' # ns', g'')))"
| "process_item proc cat (T_RangeSubselect a q) g =
     (case q of
        T_SelectStmt s \<Rightarrow> rbind (process_select proc cat s g) (\<lambda>(s', g'). Inr (T_RangeSubselect a (T_SelectStmt s'), g'))
      | _ \<Rightarrow> Inl BadCast)"
| "process_item proc cat n g = Inr (n, g)"
| "process_subquery proc cat sel g =
     rbind (process_from proc cat (fromClause sel) g) (\<lambda>(from, g).
     if setop (sel_info sel) \<noteq> SETOP_NONE then
       rbind (case larg sel of None \<Rightarrow> Inl NullPointer | Some l \<Rightarrow> process_select proc cat l g) (\<lambda>(l, g).
       rbind (case rarg sel of None \<Rightarrow> Inl NullPointer | Some r \<Rightarrow> process_select proc cat r g) (\<lambda>(r, g).
       Inr (set_rarg (Some r) (set_larg (Some l) (set_fromClause from sel)), g)))
     else Inr (set_fromClause from sel, g))"

declare process_select.simps [simp del] process_subquery.simps [simp del]

section \<open>Updates\<close>

definition getAttributes :: "rel_catalog \<Rightarrow> RangeVar \<Rightarrow> node list res" where
  "getAttributes cat rv = rbind (open_rel cat rv) (\<lambda>rel. Inr (map (\<lambda>a. T_ResTarget (Some a) None) (cat_attrs rel)))"

text \<open>A triple of default values.\<close>

definition default_triple :: "node list" where
  "default_triple = [makeNextValFuncCall VARIDSEQ, makeNextValFuncCall DOMAINIDSEQ, makeFloatConst ''1.0'']"

definition pad_cols :: "int \<Rightarrow> node list res" where
  "pad_cols n =
     rbind (map_res (\<lambda>i. map_res (\<lambda>name. rbind (catStrInt name (int i)) (\<lambda>c. Inr (T_ResTarget (Some c) None)))
       [VARNAME, DOMAINNAME, PROBNAME]) [0..<nat n]) (\<lambda>ls. Inr (concat ls))"

definition processInsert :: "process_fn \<Rightarrow> rel_catalog \<Rightarrow> RangeVar \<Rightarrow> node list \<Rightarrow> node option \<Rightarrow>
    sigGlobals option \<Rightarrow> (node \<times> sigGlobals option) res" where
  "processInsert proc cat rel cols sel g =
     rbind (getTripleCounts cat [T_RangeVar rel]) (\<lambda>tc.
     rbind (aread tc 0) (\<lambda>n.
     rbind (if cols = [] then getAttributes cat rel else rbind (pad_cols n) (\<lambda>new. Inr (cols @ new))) (\<lambda>cols.
     rbind (rbind (deref sel) as_SelectStmt) (\<lambda>s.
     if valuesLists s \<noteq> [] then
       Inr (T_InsertStmt rel cols (Some (T_SelectStmt
         (set_valuesLists (map (\<lambda>vs. vs @ concat (replicate (nat n) default_triple)) (valuesLists s)) s))), g)
     else
       rbind (proc (T_SelectStmt s) g) (\<lambda>(sub, g).
       rbind (as_SelectStmt sub) (\<lambda>s.
       rbind (getTripleCounts cat [T_SelectStmt s]) (\<lambda>tc.
       rbind (aread tc 0) (\<lambda>m.
       Inr (T_InsertStmt rel cols (Some (T_SelectStmt
         (set_targetList (targetList s @ concat (replicate (nat (n - m)) (map (\<lambda>v. T_ResTarget None (Some v)) default_triple))) s))), g)))))))))"

section \<open>The dispatcher\<close>

text \<open>
  The test whether the statement is supported is made, and its verdict ignored. The fuel bounds the
  nesting of subqueries in where clauses and inserts.
\<close>

fun process :: "nat \<Rightarrow> rel_catalog \<Rightarrow> process_fn" where
  "process 0 cat n g = Inl OutOfFuel"
| "process (Suc fuel) cat n g =
     rbind (requiresRewriting cat n) (\<lambda>b.
     if \<not> b then Inr (n, g)
     else rbind (isSupported cat n) (\<lambda>_.
     case n of
       T_SelectStmt s \<Rightarrow> rbind (process_select (process fuel cat) cat s g) (\<lambda>(s, g). Inr (T_SelectStmt s, g))
     | T_InsertStmt rel cols sel \<Rightarrow> processInsert (process fuel cat) cat rel cols sel g
     | T_UpdateStmt rel targets w from \<Rightarrow>
         rbind (processWhereClause (process fuel cat) w g) (\<lambda>(w, g). Inr (T_UpdateStmt rel targets w from, g))
     | _ \<Rightarrow> Inr (n, g)))"


section \<open>A query with \<open>conf()\<close>\<close>

definition rel_of_item :: "rel_catalog \<Rightarrow> node \<Rightarrow> rel_entry option" where
  "rel_of_item cat n = (case n of T_RangeVar rv \<Rightarrow> cat rv | _ \<Rightarrow> None)"

definition from_types :: "rel_catalog \<Rightarrow> node list \<Rightarrow> char list" where
  "from_types cat ns = map (\<lambda>n. rd_tabletype (the (rel_of_item cat n))) ns"

definition from_triples :: "rel_catalog \<Rightarrow> node list \<Rightarrow> int list" where
  "from_triples cat ns = map (\<lambda>n. relation_triples (the (rel_of_item cat n))) ns"

definition from_fields :: "node list \<Rightarrow> string list list" where
  "from_fields ns = map (\<lambda>n. nodeGetFields (from_item_of n)) ns"

text \<open>
  A select from stored relations, not all of them tuple-independent and not all certain, with a
  call of \<open>conf()\<close> and of no other confidence function, and without a star.
\<close>

definition general_conf_select :: "rel_catalog \<Rightarrow> SelectStmt \<Rightarrow> nat \<Rightarrow> bool" where
  "general_conf_select cat sel k \<longleftrightarrow>
     setop (sel_info sel) = SETOP_NONE \<and> (\<forall>n \<in> set (fromClause sel). rel_of_item cat n \<noteq> None) \<and>
     (\<exists>t \<in> set (from_types cat (fromClause sel)). t \<noteq> TABLETYPE_INDEPENDENT) \<and>
     (\<exists>t \<in> set (from_types cat (fromClause sel)). t = TABLETYPE_INDEPENDENT \<or> t = TABLETYPE_URELATION) \<and>
     list_all (\<lambda>name. lookup_func_in_list name (targetList sel) = None) [ESUM, ECOUNT, TUPLECONF, ACONF] \<and>
     lookup_func_in_list CONF (targetList sel) = Some k \<and> (\<exists>call. get_func k (targetList sel) = Inr call \<and> func_args call = []) \<and>
     length (targetList sel) \<le> MaxTupleAttributeNumber \<and> (\<forall>t \<in> set (targetList sel). star_of t = Inr None) \<and>
     repairkey sel = [] \<and> pickingType (sel_info sel) \<noteq> CHR ''I'' \<and> \<not> possible (sel_info sel)"

lemma transform_loop_id:
  assumes "\<forall>t \<in> set ts. star_of t = Inr None" "length ts \<le> MaxTupleAttributeNumber"
  shows "transform_loop expand i ts = Inr ts"
proof (induction "length ts - i" arbitrary: i)
  case 0
  then show ?case by (subst transform_loop.simps) simp
next
  case (Suc n)
  then have "i < length ts" by simp
  moreover from this have "star_of (ts ! i) = Inr None" using assms(1) by simp
  ultimately show ?case using Suc assms(2) by (subst transform_loop.simps) simp
qed

lemma all_relations_are_certain_eq:
  "n \<le> length types \<Longrightarrow> all_relations_are_certain n types =
     Inr (\<forall>t \<in> set (take n types). t \<noteq> TABLETYPE_INDEPENDENT \<and> t \<noteq> TABLETYPE_URELATION)"
proof -
  assume n: "n \<le> length types"
  have "all_relations_are_certain n types = Inr (\<forall>i \<in> set [0..<n]. types ! i \<noteq> TABLETYPE_INDEPENDENT \<and> types ! i \<noteq> TABLETYPE_URELATION)"
    unfolding all_relations_are_certain_def by (rule all_res_Inr) (use n in \<open>auto simp: aread_def\<close>)
  then show ?thesis using n by (auto simp: all_set_conv_all_nth)
qed

lemma process_from_rels: "\<forall>n \<in> set ns. rel_of_item cat n \<noteq> None \<Longrightarrow> process_from proc cat ns g = Inr (ns, g)"
proof (induction ns)
  case (Cons n ns)
  then have "process_item proc cat n g = Inr (n, g)" by (cases n) (auto simp: rel_of_item_def)
  then show ?case using Cons by simp
qed simp

lemma from_clause_eqs:
  assumes "\<forall>n \<in> set ns. rel_of_item cat n \<noteq> None"
  shows "getTripleCounts cat ns = Inr (from_triples cat ns)" "generateFields ns = Inr (from_fields ns)"
    "map_res (item_type cat) ns = Inr (from_types cat ns)" "\<exists>bs. get_repairkey_columns ns (from_triples cat ns) = Inr bs"
proof -
  have rv: "\<exists>rv e. n = T_RangeVar rv \<and> cat rv = Some e" if "n \<in> set ns" for n
    using assms that by (cases n) (auto simp: rel_of_item_def)
  show "getTripleCounts cat ns = Inr (from_triples cat ns)"
    unfolding getTripleCounts_def from_triples_def by (rule map_res_eq) (use rv in \<open>fastforce simp: rel_of_item_def open_rel_def\<close>)
  show "generateFields ns = Inr (from_fields ns)"
    unfolding generateFields_def from_fields_def by (rule map_res_eq) (use rv in \<open>fastforce simp: node_fields_def\<close>)
  show "map_res (item_type cat) ns = Inr (from_types cat ns)"
    unfolding from_types_def by (rule map_res_eq) (use rv in \<open>fastforce simp: rel_of_item_def open_rel_def item_type_def\<close>)
  show "\<exists>bs. get_repairkey_columns ns (from_triples cat ns) = Inr bs"
    unfolding get_repairkey_columns_def
  proof (rule map_res_total)
    fix i assume "i \<in> set [0..<length ns]"
    then have i: "i < length ns" by simp
    obtain v e where "ns ! i = T_RangeVar v" using rv [OF nth_mem [OF i]] by blast
    then show "\<exists>y. rbind (list_nth ns i) (\<lambda>n. case n of T_RangeVar rv \<Rightarrow> rbind (aread (from_triples cat ns) i) (\<lambda>c. Inr (replicate (nat c) False))
        | T_RangeSubselect x sub \<Rightarrow> rbind (as_SelectStmt sub) (\<lambda>sel. Inr (isFromRepairKey (sel_info sel))) | _ \<Rightarrow> Inr []) = Inr y"
      using i by (simp add: aread_def from_triples_def)
  qed
qed

lemma generalRewrite_keeps:
  "generalRewrite proc sel types tc flds func g = Inr (outer, g') \<Longrightarrow>
   sel_info outer = sel_info sel \<and> repairkey outer = repairkey sel \<and> length (fromClause outer) = 1"
  by (auto simp: generalRewrite_def Let_def rbind_eq_Inr_iff handle_relation_reference_def)

text \<open>Such a query is rewritten by \<open>generalRewrite\<close>, and its result is certain.\<close>

lemma process_select_general:
  assumes "general_conf_select cat sel k"
  shows "process_select proc cat sel g =
    rbind (generalRewrite proc sel (from_types cat (fromClause sel)) (from_triples cat (fromClause sel)) (from_fields (fromClause sel)) k g)
      (\<lambda>(outer, g). Inr (set_sel_info ((sel_info outer)\<lparr>tabletype := TABLETYPE_CERTAIN\<rparr>) outer, g))"
proof -
  note a = assms [unfolded general_conf_select_def]
  let ?ns = "fromClause sel"
  have rel: "\<forall>n \<in> set ?ns. rel_of_item cat n \<noteq> None" using a by blast
  note eqs = from_clause_eqs [OF rel]
  obtain bs where bs: "get_repairkey_columns ?ns (from_triples cat ?ns) = Inr bs" using eqs(4) by blast
  have self: "set_fromClause (fromClause s) s = s" "set_targetList (targetList s) s = s" for s by (simp_all add: select_simps)
  have lk: "lookup_func_in_list ESUM (targetList sel) = None" "lookup_func_in_list ECOUNT (targetList sel) = None"
    "lookup_func_in_list TUPLECONF (targetList sel) = None" "lookup_func_in_list ACONF (targetList sel) = None"
    "lookup_func_in_list CONF (targetList sel) = Some k" using a by simp_all
  obtain call where call: "get_func k (targetList sel) = Inr call" "func_args call = []" using a by blast
  have gen: "is_a_general_case cat ?ns = Inr (True, from_types cat ?ns)" using a eqs(3) by (auto simp: is_a_general_case_def list_ex_iff)
  have len: "length (from_types cat ?ns) = length ?ns" by (simp add: from_types_def)
  have cert: "all_relations_are_certain (length ?ns) (from_types cat ?ns) = Inr False"
    using a len by (auto simp: all_relations_are_certain_eq)
  have tr: "transform_targetList cat ty tc f sel = Inr sel" for ty tc f
    using a by (simp add: transform_targetList_def transform_loop_id self)
  have sub: "process_subquery proc cat sel g = Inr (sel, g)" using a by (simp add: process_subquery.simps process_from_rels [OF rel] self)
  show ?thesis
  proof (cases "generalRewrite proc sel (from_types cat ?ns) (from_triples cat ?ns) (from_fields ?ns) k g")
    case (Inl e)
    then show ?thesis using a cert
      by (simp add: process_select.simps sub rewrite_select_def rewrite_expectations_def lk Let_def self eqs(1,2) gen bs tr rewrite_confidence_def call)
  next
    case (Inr r)
    obtain outer g' where r: "r = (outer, g')" by (cases r)
    note keeps = generalRewrite_keeps [OF Inr [unfolded r]]
    have "0 < length ?ns" using a by (auto simp: from_types_def)
    then have "length (fromClause outer) \<le> length (from_types cat ?ns)" using keeps len by (cases ?ns) auto
    then have "\<exists>b. all_relations_are_certain (length (fromClause outer)) (from_types cat ?ns) = Inr b"
      by (blast dest: all_relations_are_certain_eq)
    then show ?thesis using a cert Inr r keeps
      by (auto simp: process_select.simps sub rewrite_select_def rewrite_expectations_def lk Let_def self eqs(1,2) gen bs tr rewrite_confidence_def call)
  qed
qed


section \<open>Possible worlds\<close>

text \<open>
  The instance of the database gives every relation of the from clause its tuples, each with its
  conditions. In a world the relation has the tuples whose conditions hold, and a group is in the
  answer if some joined tuple satisfies the where clause and has its key.
\<close>

definition matches :: "string list list \<Rightarrow> SelectStmt \<Rightarrow> string list list \<Rightarrow> datum option list \<Rightarrow> (row \<times> lit list) list \<Rightarrow> bool" where
  "matches flds sel gs key ts \<longleftrightarrow>
     eval_where (row_env flds (map fst ts)) (whereClause sel) = Some (DBool True) \<and> map (row_env flds (map fst ts)) gs = key"

definition in_answer :: "string list list \<Rightarrow> SelectStmt \<Rightarrow> string list list \<Rightarrow> datum option list \<Rightarrow> (row \<times> lit list) list list \<Rightarrow> world \<Rightarrow> bool" where
  "in_answer flds sel gs key db \<tau> \<longleftrightarrow> list_ex (matches flds sel gs key) (product_lists (map (filter (\<lambda>t. holds (snd t) \<tau>)) db))"

definition query_lineage :: "char list \<Rightarrow> string list list \<Rightarrow> SelectStmt \<Rightarrow> string list list \<Rightarrow> datum option list \<Rightarrow> (row \<times> lit list) list list \<Rightarrow> lit list list" where
  "query_lineage types flds sel gs key db =
     map (\<lambda>ts. concat (map snd ts)) (filter (\<lambda>ts. matches flds sel gs key ts \<and> consistent types (map snd ts)) (product_lists db))"

lemma product_lists_filter:
  "ts \<in> set (product_lists (map (filter P) db)) \<longleftrightarrow> ts \<in> set (product_lists db) \<and> (\<forall>t \<in> set ts. P t)"
  unfolding product_lists_set by (induction db arbitrary: ts) (auto simp: list_all2_Cons2)

lemma holds_concat: "holds (concat css) \<tau> \<longleftrightarrow> (\<forall>cs \<in> set css. holds cs \<tau>)"
  by (auto simp: holds_def)

lemma holds_consistent: "\<forall>cs \<in> set css. holds cs \<tau> \<Longrightarrow> consistent types css"
  unfolding consistent_def compatible_def
proof (intro allI impI ballI)
  fix i j x y
  assume h: "\<forall>cs \<in> set css. holds cs \<tau>" and ij: "j < length css" "i < j" and xy: "x \<in> set (css ! i)" "y \<in> set (css ! j)" "fst x = fst y"
  have "holds (css ! i) \<tau>" "holds (css ! j) \<tau>" using h ij by simp_all
  then have "\<tau> (fst x) = fst (snd x)" "\<tau> (fst y) = fst (snd y)" using xy by (auto simp: holds_def)
  then show "fst (snd x) = fst (snd y)" using xy(3) by simp
qed

lemma query_lineage_holds: "lineage_holds (query_lineage types flds sel gs key db) \<tau> \<longleftrightarrow> in_answer flds sel gs key db \<tau>"
  using holds_consistent [of _ \<tau> types]
  by (fastforce simp: lineage_holds_def query_lineage_def in_answer_def list_ex_iff product_lists_filter holds_concat)

text \<open>
  Running the rewritten query: the rows of the inner select, and the arguments of the call for a
  group. The rows that satisfy the where clause are cut by an offset and a limit that are numbers;
  a select with \<open>DISTINCT\<close>, \<open>GROUP BY\<close> or \<open>HAVING\<close>, with another offset or limit, or with one of
  sorted rows, is not given a meaning.
\<close>

definition row_count :: "node option \<Rightarrow> nat option option" where
  "row_count n = (case n of None \<Rightarrow> Some None | Some (T_A_Const (T_Integer i) ty) \<Rightarrow> Some (Some (nat i)) | Some _ \<Rightarrow> None)"

definition exec_inner :: "string list list \<Rightarrow> SelectStmt \<Rightarrow> row list list \<Rightarrow> row list option" where
  "exec_inner flds s rowss =
     (let rs = map (\<lambda>rows. out_row (row_env flds rows) (targetList s))
        (filter (\<lambda>rows. eval_where (row_env flds rows) (whereClause s) = Some (DBool True)) rowss)
      in if distinctClause s \<noteq> [] \<or> groupClause s \<noteq> [] \<or> havingClause s \<noteq> None \<or>
           sortClause s \<noteq> [] \<and> (limitOffset s \<noteq> None \<or> limitCount s \<noteq> None) then None
         else case row_count (limitOffset s) of
           None \<Rightarrow> None
         | Some off \<Rightarrow>
             (case row_count (limitCount s) of
                None \<Rightarrow> None
              | Some cnt \<Rightarrow>
                  let rs = (case off of None \<Rightarrow> rs | Some n \<Rightarrow> drop n rs)
                  in Some (case cnt of None \<Rightarrow> rs | Some n \<Rightarrow> take n rs)))"

text \<open>A select without the clauses that would cut or merge the rows of its lineage.\<close>

definition uncut :: "SelectStmt \<Rightarrow> bool" where
  "uncut sel \<longleftrightarrow> distinctClause sel = [] \<and> havingClause sel = None \<and> limitOffset sel = None \<and> limitCount sel = None"

fun decode :: "datum option list \<Rightarrow> lit list" where
  "decode (Some (DInt v) # Some (DInt d) # Some (DReal p) # ds) = (v, d, p) # decode ds"
| "decode _ = []"

lemma decode_args_of: "decode (args_of cs) = cs"
  by (induction cs) (auto simp: args_of_def)

definition group_clauses :: "SelectStmt \<Rightarrow> node \<Rightarrow> datum option list \<Rightarrow> row list \<Rightarrow> lit list list" where
  "group_clauses outer call key rs =
     map (\<lambda>r. decode (map (eval (outer_env r)) (func_args call))) (filter (\<lambda>r. map (eval (outer_env r)) (groupClause outer) = key) rs)"

fun inner_select :: "SelectStmt \<Rightarrow> SelectStmt res" where
  "inner_select s = (case fromClause s of [T_RangeSubselect a (T_SelectStmt q)] \<Rightarrow> Inr q | _ \<Rightarrow> Inl BadCast)"

text \<open>The tuples of an instance have the conditions the catalog announces, and the where clause is defined on them.\<close>

definition db_ok :: "rel_catalog \<Rightarrow> SelectStmt \<Rightarrow> (row \<times> lit list) list list \<Rightarrow> bool" where
  "db_ok cat sel db \<longleftrightarrow>
     (let flds = from_fields (fromClause sel) in
      length db = length flds \<and> distinct (map butlast flds) \<and> (\<forall>f \<in> set flds. butlast f \<noteq> []) \<and>
      (\<forall>i < length db. \<forall>(r, cs) \<in> set (db ! i). int (length cs) = from_triples cat (fromClause sel) ! i \<and> has_conds r cs) \<and>
      (\<forall>ts \<in> set (product_lists db). \<exists>b. eval_where (row_env flds (map fst ts)) (whereClause sel) = Some (DBool b)))"

lemma db_joined:
  assumes "db_ok cat sel db" "ts \<in> set (product_lists db)"
  shows "joined (from_fields (fromClause sel)) (from_triples cat (fromClause sel)) (map fst ts) (map snd ts)"
proof -
  have ts: "list_all2 (\<lambda>x ys. x \<in> set ys) ts db" using assms(2) by (simp add: product_lists_set)
  have len: "length ts = length (fromClause sel)" "length db = length (fromClause sel)"
    using list_all2_lengthD [OF ts] assms(1) by (simp_all add: db_ok_def Let_def from_fields_def)
  have c: "int (length (snd (ts ! i))) = from_triples cat (fromClause sel) ! i \<and> has_conds (fst (ts ! i)) (snd (ts ! i))"
    if i: "i < length ts" for i
  proof -
    have "\<forall>x \<in> set (db ! i). int (length (snd x)) = from_triples cat (fromClause sel) ! i \<and> has_conds (fst x) (snd x)"
      using assms(1) i len by (simp add: db_ok_def Let_def case_prod_unfold)
    then show ?thesis using list_all2_nthD [OF ts i] by blast
  qed
  have "from_triples cat (fromClause sel) = map (\<lambda>cs. int (length cs)) (map snd ts)"
  proof (rule nth_equalityI)
    show len': "length (from_triples cat (fromClause sel)) = length (map (\<lambda>cs. int (length cs)) (map snd ts))"
      using len by (simp add: from_triples_def)
    fix i assume "i < length (from_triples cat (fromClause sel))"
    then have "i < length ts" using len' by simp
    then show "from_triples cat (fromClause sel) ! i = map (\<lambda>cs. int (length cs)) (map snd ts) ! i" using c [of i] by simp
  qed
  moreover have "\<forall>i < length ts. has_conds (map fst ts ! i) (map snd ts ! i)" using c by simp
  moreover have "length (from_fields (fromClause sel)) = length ts" using len by (simp add: from_fields_def)
  ultimately show ?thesis using assms(1) unfolding joined_def db_ok_def Let_def by simp
qed


lemma rewritten_lineage:
  assumes q: "general_conf_select cat sel k" "conf_query sel k gs" "uncut sel" and db: "db_ok cat sel db" "product_lists db \<noteq> []"
    and L: "(\<Sum>c \<leftarrow> from_triples cat (fromClause sel). nat c) \<le> 10000"
  obtains outer inner call rows where "process_select proc cat sel g = Inr (outer, g)" "inner_select outer = Inr inner"
    "tabletype (sel_info outer) = TABLETYPE_CERTAIN" "get_func k (targetList outer) = Inr call"
    "exec_inner (from_fields (fromClause sel)) inner (map (map fst) (product_lists db)) = Some rows"
    "group_clauses outer call key rows = query_lineage (from_types cat (fromClause sel)) (from_fields (fromClause sel)) sel gs key db"
proof -
  let ?ty = "from_types cat (fromClause sel)" and ?tc = "from_triples cat (fromClause sel)" and ?fl = "from_fields (fromClause sel)"
  let ?env = "\<lambda>ts. row_env ?fl (map fst ts)"
  obtain call0 where call0: "get_func k (targetList sel) = Inr call0" "func_args call0 = []" using q(1) by (auto simp: general_conf_select_def)
  then have args0: "func_args (concat (map funcs (targetList sel)) ! k) = []" by (auto simp: get_func_def list_nth_def split: if_splits)
  have row: "ok (generalRewrite proc sel ?ty ?tc ?fl k g) (\<lambda>(outer, g'). g' = g \<and>
    (\<exists>inner call. fromClause outer = [makeRangeSubselect ''temp'' inner] \<and> uncut inner \<and> groupClause inner = [] \<and>
      eval_where (?env ts) (whereClause inner) = Some (DBool (b \<and> consistent ?ty (map snd ts))) \<and> get_func k (targetList outer) = Inr call \<and>
      map (eval (outer_env (out_row (?env ts) (targetList inner)))) (func_args call) = args_of (concat (map snd ts)) \<and>
      map (eval (outer_env (out_row (?env ts) (targetList inner)))) (groupClause outer) = map (?env ts) gs))"
    if ts: "ts \<in> set (product_lists db)" and b: "eval_where (?env ts) (whereClause sel) = Some (DBool b)" for ts b
  proof -
    have J: "joined ?fl ?tc (map fst ts) (map snd ts)" by (rule db_joined [OF db(1) ts])
    then have "length (concat (map snd ts)) = (\<Sum>c \<leftarrow> ?tc. nat c)" by (simp add: joined_def length_concat comp_def)
    then have len: "length (concat (map snd ts)) \<le> 10000" using L by simp
    have l: "length ?ty = length ?fl" "length (fromClause sel) = length ?fl" by (simp_all add: from_types_def from_fields_def)
    show ?thesis
      by (rule ok_mono [OF generalRewrite_row [OF q(2) J l len b]]) (use args0 q(3) in \<open>fastforce simp: uncut_def\<close>)
  qed
  have def: "\<exists>b. eval_where (?env ts) (whereClause sel) = Some (DBool b)" if "ts \<in> set (product_lists db)" for ts
    using db(1) that by (simp add: db_ok_def Let_def)
  obtain ts0 where ts0: "ts0 \<in> set (product_lists db)" using db(2) by (cases "product_lists db") auto
  then obtain b0 where b0: "eval_where (?env ts0) (whereClause sel) = Some (DBool b0)" using def by blast
  obtain out inner call where gen: "generalRewrite proc sel ?ty ?tc ?fl k g = Inr (out, g)"
    and out: "fromClause out = [makeRangeSubselect ''temp'' inner]" "uncut inner" "groupClause inner = []" "get_func k (targetList out) = Inr call"
    using row [OF ts0 b0] by (auto elim!: ok_E)
  have each: "eval_where (?env ts) (whereClause inner) = Some (DBool (b \<and> consistent ?ty (map snd ts))) \<and>
      map (eval (outer_env (out_row (?env ts) (targetList inner)))) (func_args call) = args_of (concat (map snd ts)) \<and>
      map (eval (outer_env (out_row (?env ts) (targetList inner)))) (groupClause out) = map (?env ts) gs"
    if "ts \<in> set (product_lists db)" "eval_where (?env ts) (whereClause sel) = Some (DBool b)" for ts b
    using row [OF that] out unfolding gen by (auto simp: makeRangeSubselect_def)
  let ?outer = "set_sel_info ((sel_info out)\<lparr>tabletype := TABLETYPE_CERTAIN\<rparr>) out"
  let ?rows = "map (\<lambda>ts. out_row (?env ts) (targetList inner)) (filter (\<lambda>ts. eval_where (?env ts) (whereClause inner) = Some (DBool True)) (product_lists db))"
  have ex: "exec_inner ?fl inner (map (map fst) (product_lists db)) = Some ?rows"
    using out(2,3) by (simp add: exec_inner_def uncut_def row_count_def Let_def filter_map comp_def)
  have "group_clauses ?outer call key ?rows = query_lineage ?ty ?fl sel gs key db"
  proof -
    have 1: "eval_where (?env ts) (whereClause inner) = Some (DBool True) \<and> map (eval (outer_env (out_row (?env ts) (targetList inner)))) (groupClause out) = key \<longleftrightarrow>
        matches ?fl sel gs key ts \<and> consistent ?ty (map snd ts)" if "ts \<in> set (product_lists db)" for ts
      using def [OF that] each [OF that] by (auto simp: matches_def)
    have 2: "decode (map (eval (outer_env (out_row (?env ts) (targetList inner)))) (func_args call)) = concat (map snd ts)"
      if "ts \<in> set (product_lists db)" for ts using def [OF that] each [OF that] by (auto simp: decode_args_of)
    show ?thesis using 1 2
      by (auto simp: group_clauses_def query_lineage_def filter_map comp_def conj_commute intro!: filter_cong map_cong)
  qed
  then show thesis
    using that [of ?outer inner call ?rows] out gen ex by (simp add: process_select_general [OF q(1)] makeRangeSubselect_def)
qed

section \<open>Hierarchical queries\<close>

definition hq_positions :: "nat \<Rightarrow> (nat \<times> nat) list" where
  "hq_positions n = map (\<lambda>c. (c, 0)) [0..<n]"

lemma newResTargets_eq:
  assumes "length vo \<le> 10000" "length name = 2"
  shows "newResTargets vo name = Inr (cond_targets vo name (hq_positions (length vo)))"
proof -
  have "newResTargets vo name = Inr (map (\<lambda>c. cond_target vo name c (c, 0)) [0..<length vo])"
    unfolding newResTargets_def by (rule map_res_eq) (use assms in \<open>auto simp: condition_target_def catStrInt_eq [of _ 0, simplified] catStrInt_eq cond_target_def\<close>)
  then show ?thesis by (simp add: cond_targets_def hq_positions_def)
qed

text \<open>The place of every leaf of the signature in the from clause.\<close>

definition ordered_as :: "string list list \<Rightarrow> string list list \<Rightarrow> nat list \<Rightarrow> bool" where
  "ordered_as vo flds idx \<longleftrightarrow> map butlast vo = map (\<lambda>i. butlast (flds ! i)) idx \<and> (\<forall>i \<in> set idx. i < length flds)"

definition hq_args :: "lit list list \<Rightarrow> nat list \<Rightarrow> datum option list" where
  "hq_args css idx = concat (map (\<lambda>i. [Some (DInt (fst (css ! i ! 0))), Some (DReal (snd (snd (css ! i ! 0))))]) idx)"

definition hq_columns :: "nat \<Rightarrow> node list" where
  "hq_columns n = concat (map (\<lambda>i. map (\<lambda>name. T_ColumnRef [col name i]) [VARNAME, PROBNAME]) [0..<n])"

lemma hq_columns_eval:
  assumes J: "joined flds tc rows css" and vo: "ordered_as vo flds idx" and one: "\<forall>cs \<in> set css. length cs = 1"
    and ps: "ps = hq_positions (length vo)"
    and other: "\<forall>t \<in> set gs. \<forall>c. \<forall>name \<in> {VARNAME, PROBNAME}. target_name t \<noteq> col name c"
  shows "map (eval (outer_env (out_row (row_env flds rows) (gs @ cond_targets vo VARNAME ps @ cond_targets vo PROBNAME ps)))) (hq_columns (length vo)) =
    hq_args css idx"
proof -
  let ?r = "out_row (row_env flds rows) (gs @ cond_targets vo VARNAME ps @ cond_targets vo PROBNAME ps)"
  have len: "length idx = length vo" using vo by (auto simp: ordered_as_def dest: arg_cong [where f = length])
  have r: "?r (col name c) = (rows ! (idx ! c)) (col name 0)" if c: "c < length vo" and name: "name \<in> {VARNAME, PROBNAME}" for c name
  proof -
    have i: "idx ! c < length flds" using vo c len by (simp add: ordered_as_def)
    have "butlast (vo ! c) = butlast (flds ! (idx ! c))" using vo c len by (auto simp: ordered_as_def dest: arg_cong [where f = "\<lambda>xs. xs ! c"])
    then have q: "row_env flds rows (delLastAppendOne (vo ! c) x) = (rows ! (idx ! c)) x" for x
      using join_env_qualified [OF J i, of x] by (simp add: delLastAppendOne_def)
    have gs: "target_cols gs (col name c) = None" using other name by (auto simp: map_of_eq_None_iff) metis+
    have o: "n \<noteq> name \<Longrightarrow> length n = 2 \<Longrightarrow> target_cols (cond_targets vo n ps) (col name c) = None" for n
      using name by (intro cond_targets_other) auto
    have cp: "c < length ps" "ps ! c = (c, 0)" using c by (simp_all add: ps hq_positions_def)
    have "target_cols (gs @ cond_targets vo VARNAME ps @ cond_targets vo PROBNAME ps) (col name c) = Some (target_val (cond_target vo name c (c, 0)))"
      using name gs o [of VARNAME] o [of PROBNAME] cond_targets_col [OF cp(1), of vo name] cp(2) by (auto simp: map_add_def)
    then show ?thesis by (simp add: out_row_def cond_target_def q)
  qed
  have "map (\<lambda>name. ?r (col name c)) [VARNAME, PROBNAME] = [Some (DInt (fst (css ! (idx ! c) ! 0))), Some (DReal (snd (snd (css ! (idx ! c) ! 0))))]"
    if c: "c < length vo" for c
  proof -
    have i: "idx ! c < length flds" using vo c len by (simp add: ordered_as_def)
    then have "length (css ! (idx ! c)) = 1" "has_conds (rows ! (idx ! c)) (css ! (idx ! c))" using J one by (auto simp: joined_def)
    then show ?thesis using r [OF c] by (auto simp: has_conds_def)
  qed
  then have "map (eval (outer_env ?r)) (hq_columns (length vo)) =
      concat (map (\<lambda>c. [Some (DInt (fst (css ! (idx ! c) ! 0))), Some (DReal (snd (snd (css ! (idx ! c) ! 0))))]) [0..<length vo])"
    unfolding hq_columns_def map_concat map_map by (intro arg_cong [where f = concat] map_cong) auto
  also have "\<dots> = concat (map (\<lambda>i. [Some (DInt (fst (css ! i ! 0))), Some (DReal (snd (snd (css ! i ! 0))))]) (map ((!) idx) [0..<length idx]))"
    by (simp add: len comp_def)
  also have "\<dots> = hq_args css idx" unfolding map_nth by (simp add: hq_args_def)
  finally show ?thesis .
qed

lemma hq_columns_plain: "list_all plain (hq_columns n)"
  by (auto simp: hq_columns_def plain_def list_all_iff)

lemma HQ_rewriting_row:
  assumes q: "conf_query sel func gs" and J: "joined flds tc rows css" and vo: "ordered_as vo flds idx" and one: "\<forall>cs \<in> set css. length cs = 1"
    and f: "length (fromClause sel) = length vo" and L: "length vo \<le> 10000"
  shows "ok (HQ_rewriting sel vo func) (\<lambda>outer.
    \<exists>inner call. fromClause outer = [makeRangeSubselect ''temp'' inner] \<and> whereClause outer = None \<and>
      fromClause inner = fromClause sel \<and> whereClause inner = whereClause sel \<and> limitCount inner = limitCount sel \<and>
      sortClause inner = map (\<lambda>fs. T_SortBy (T_ColumnRef fs)) (gs @ map (\<lambda>i. delLastAppendOne (flds ! i) (col VARNAME 0)) idx) \<and>
      get_func func (targetList outer) = Inr call \<and>
      map (eval (outer_env (out_row (row_env flds rows) (targetList inner)))) (drop (length (func_args (concat (map funcs (targetList sel)) ! func))) (func_args call)) =
        hq_args css idx \<and>
      map (eval (outer_env (out_row (row_env flds rows) (targetList inner)))) (groupClause outer) = map (row_env flds rows) gs)"
proof -
  let ?N = "{VARNAME, DOMAINNAME, PROBNAME}" and ?ps = "hq_positions (length vo)"
  have gc: "groupClause sel = map T_ColumnRef gs" and gd: "distinct (map group_name gs)" and gne: "\<forall>fs \<in> set gs. fs \<noteq> []"
    and gn: "\<And>fs c name. fs \<in> set gs \<Longrightarrow> name \<in> ?N \<Longrightarrow> group_name fs \<noteq> col name c"
    and ct: "list_all complete_target (targetList sel)"
    and k: "func < length (concat (map funcs (targetList sel)))" using q by (auto simp: conf_query_def)
  obtain ts' call where ts': "map_res name_outer (upd_func_list (append_args (hq_columns (length vo))) func (targetList sel)) = Inr ts'"
    "get_func func ts' = Inr call" "drop (length (func_args (concat (map funcs (targetList sel)) ! func))) (func_args call) = hq_columns (length vo)"
    using new_call [OF ct k hq_columns_plain] by blast
  let ?G = "map (\<lambda>fs. T_ResTarget None (Some (T_ColumnRef fs))) gs"
  let ?C = "cond_targets vo VARNAME ?ps @ cond_targets vo PROBNAME ?ps"
  let ?T = "map group_target gs @ ?C"
  have inner: "map_res name_inner (?G @ ?C) = Inr ?T" by (simp add: map_res_append name_inner_targets)
  have idx: "map (\<lambda>v. delLastAppendOne v x) vo = map (\<lambda>i. delLastAppendOne (flds ! i) x) idx" for x
  proof -
    have "map (\<lambda>b. b @ [x]) (map butlast vo) = map (\<lambda>b. b @ [x]) (map (\<lambda>i. butlast (flds ! i)) idx)"
      using vo by (simp only: ordered_as_def)
    then show ?thesis by (simp add: delLastAppendOne_def comp_def)
  qed
  have "?G @ cond_targets vo VARNAME ?ps = map (\<lambda>(nm, fs). T_ResTarget nm (Some (T_ColumnRef fs)))
      (map (Pair None) gs @ map (\<lambda>c. (Some (col VARNAME c), delLastAppendOne (vo ! c) (col VARNAME 0))) [0..<length vo])"
    by (auto simp: cond_targets_def cond_target_def hq_positions_def)
  then have sort: "get_sort_clause (?G @ cond_targets vo VARNAME ?ps) = Inr (map (\<lambda>fs. T_SortBy (T_ColumnRef fs))
      (gs @ map (\<lambda>c. delLastAppendOne (vo ! c) (col VARNAME 0)) [0..<length vo]))"
    by (simp only: get_sort_clause_eq) (simp add: comp_def)
  have vs: "map (\<lambda>c. delLastAppendOne (vo ! c) x) [0..<length vo] = map (\<lambda>i. delLastAppendOne (flds ! i) x) idx" for x
  proof -
    have "map (\<lambda>c. delLastAppendOne (vo ! c) x) [0..<length vo] = map (\<lambda>v. delLastAppendOne v x) (map ((!) vo) [0..<length vo])" by (simp add: comp_def)
    then show ?thesis unfolding map_nth using idx by simp
  qed
  have ev: "map (eval (outer_env (out_row (row_env flds rows) ?T))) (hq_columns (length vo)) = hq_args css idx"
    using hq_columns_eval [OF J vo one refl, of "map group_target gs"] gn gne by auto
  have eg: "map (eval (outer_env (out_row (row_env flds rows) ?T))) (map name_group (map T_ColumnRef gs)) = map (row_env flds rows) gs"
    by (rule group_columns_eval [OF gd gne]) (use gn in \<open>simp add: map_add_def cond_targets_other\<close>)
  have args: "put_args_HQ (int (length vo)) = Inr (hq_columns (length vo))" using L by (simp add: put_args_HQ_def arg_columns_eq hq_columns_def)
  show ?thesis
    using f ts'(2,3) ev eg
    by (simp add: HQ_rewriting_def Let_def add_referenced_columns_eq [OF gc] newResTargets_eq [OF L] sort vs args
        handle_relation_reference_def inner ts'(1) gc makeRangeSubselect_def del: map_map)
qed

section \<open>Examples\<close>

definition conf_target :: node where
  "conf_target = T_ResTarget None (Some (T_FuncCall [CONF] [] True False))"

definition col_eq :: "string list \<Rightarrow> string list \<Rightarrow> node" where
  "col_eq a b = T_A_Expr AEXPR_OP [''=''] (Some (T_ColumnRef a)) (Some (T_ColumnRef b))"

definition select_conf :: "node list \<Rightarrow> node option \<Rightarrow> node list \<Rightarrow> node list \<Rightarrow> SelectStmt" where
  "select_conf from w grp ts =
     set_targetList (ts @ [conf_target]) (set_groupClause grp (set_whereClause w (set_fromClause from make_SelectStmt)))"

definition set_limitOffset :: "node option \<Rightarrow> SelectStmt \<Rightarrow> SelectStmt" where
  "set_limitOffset x s = SelectStmt (sel_info s) (distinctClause s) (targetList s) (fromClause s) (whereClause s) (groupClause s)
     (havingClause s) (valuesLists s) (sortClause s) x (limitCount s) (repairkey s) (weightby s) (sel_prob s) (larg s) (rarg s)"

definition tuple_row :: "int \<Rightarrow> lit \<Rightarrow> row" where
  "tuple_row a c = (case c of (v, d, p) \<Rightarrow>
     [''a'' \<mapsto> DInt a, ''_v0'' \<mapsto> DInt v, ''_d0'' \<mapsto> DInt d, ''_p0'' \<mapsto> DReal p])"

lemma col_zero: "col VARNAME 0 = ''_v0''" "col DOMAINNAME 0 = ''_d0''" "col PROBNAME 0 = ''_p0''"
  by code_simp+

lemma tuple_row_conds: "has_conds (tuple_row a c) [c]"
  by (simp add: has_conds_def col_zero tuple_row_def split: prod.splits)

definition R_S :: "node list" where
  "R_S = [stored ''R'' None, stored ''S'' None]"

lemma R_S_joined: "joined (from_fields R_S) [1, 1] [tuple_row a c, tuple_row b d] [[c], [d]]"
  by (auto simp: joined_def from_fields_def R_S_def stored_def from_item_of_def nodeGetFields_def tuple_row_conds nth_Cons less_Suc_eq split: nat.splits)

text \<open>The query \<open>select conf() from R, S where R.a = S.a group by R.a\<close>.\<close>

definition join_query :: SelectStmt where
  "join_query = select_conf R_S (Some (col_eq [''R'', ''a''] [''S'', ''a''])) [T_ColumnRef [''R'', ''a'']] []"

lemma join_query_conf: "conf_query join_query 0 [[''R'', ''a'']]"
  by (auto simp: conf_query_def join_query_def select_conf_def conf_target_def col_eq_def group_name_def concat_fields_def complete_target_def
      VARNAME_def DOMAINNAME_def PROBNAME_def)

lemma join_query_general: "general_conf_select (stored_as TABLETYPE_URELATION) join_query 0"
  by (auto simp: general_conf_select_def join_query_def select_conf_def select_simps R_S_def stored_def stored_as_def rel_of_item_def from_types_def conf_target_def
      has_name_def CONF_def ESUM_def ECOUNT_def TUPLECONF_def ACONF_def get_func_def star_of_def MaxTupleAttributeNumber_def TABLETYPE_URELATION_def TABLETYPE_INDEPENDENT_def)

section \<open>Properties\<close>

text \<open>
  C7. The consistency test. Whatever the where clause of a query is, the one that
  \<open>remove_mutual_exclusiveness\<close> makes of it holds for a joined tuple if and only if the old one
  does and no two conditions of different U-relations give a variable two values.
\<close>

theorem consistency_test:
  assumes "joined flds tc rows css" "length types = length flds" "\<forall>cs \<in> set css. length cs \<le> 10000"
    and "eval_where (row_env flds rows) (whereClause sel) = Some (DBool b)"
  shows "\<exists>w. remove_mutual_exclusiveness types tc flds sel = Inr (set_whereClause w (fill_where_clause sel)) \<and>
    eval_where (row_env flds rows) w = Some (DBool (b \<and> consistent types css))"
  using remove_mutual_ok [OF assms] by (auto elim!: ok_E)

theorem consistency_test_witness:
  "\<exists>w. remove_mutual_exclusiveness ''UU'' [1, 1] (from_fields R_S) (select_conf R_S None [] []) = Inr (set_whereClause w (fill_where_clause (select_conf R_S None [] []))) \<and>
    eval_where (row_env (from_fields R_S) [tuple_row 1 (1, 1, 1/2), tuple_row 1 (1, 2, 1/2)]) w = Some (DBool False)"
proof -
  let ?s = "select_conf R_S None [] []"
  have w: "eval_where (row_env (from_fields R_S) [tuple_row 1 (1, 1, 1/2), tuple_row 1 (1, 2, 1/2)]) (whereClause ?s) = Some (DBool True)"
    by (simp add: eval_where_def select_conf_def)
  have "\<not> consistent ''UU'' [[(1, 1, 1/2)], [(1, 2, 1/2)]]"
    by (auto simp: consistent_def compatible_def TABLETYPE_URELATION_def less_Suc_eq)
  then show ?thesis using consistency_test [OF R_S_joined _ _ w, of "''UU''"] by (simp add: from_fields_def R_S_def)
qed

text \<open>
  C6. The rewriting of a hierarchical query. The call of \<open>conf()\<close> reads, for every joined tuple,
  the variable and the probability of each relation in the order of the signature; the inner select
  keeps the where clause, is sorted by the grouping columns and then by the variables in this
  order, and returns the grouping columns under the names the outer select groups by.
\<close>

theorem HQ_rewriting_columns:
  assumes "conf_query sel func gs" "joined flds tc rows css" "ordered_as vo flds idx" "\<forall>cs \<in> set css. length cs = 1"
    and "length (fromClause sel) = length vo" "length vo \<le> 10000" "func_args (concat (map funcs (targetList sel)) ! func) = []"
  shows "\<exists>outer inner call. HQ_rewriting sel vo func = Inr outer \<and> inner_select outer = Inr inner \<and>
      whereClause inner = whereClause sel \<and> get_func func (targetList outer) = Inr call \<and>
      sortClause inner = map (\<lambda>fs. T_SortBy (T_ColumnRef fs)) (gs @ map (\<lambda>i. delLastAppendOne (flds ! i) (col VARNAME 0)) idx) \<and>
      map (eval (outer_env (out_row (row_env flds rows) (targetList inner)))) (func_args call) = hq_args css idx \<and>
      map (eval (outer_env (out_row (row_env flds rows) (targetList inner)))) (groupClause outer) = map (row_env flds rows) gs"
  using HQ_rewriting_row [OF assms(1-6)] assms(7) by (auto simp: makeRangeSubselect_def elim!: ok_E)

theorem HQ_rewriting_columns_witness:
  "\<exists>outer inner call. HQ_rewriting join_query [[''S'', ''a''], [''R'', ''a'']] 0 = Inr outer \<and> inner_select outer = Inr inner \<and>
      get_func 0 (targetList outer) = Inr call \<and>
      map (eval (outer_env (out_row (row_env (from_fields R_S) [tuple_row 1 (1, 1, 1/2), tuple_row 1 (2, 1, 1/4)]) (targetList inner)))) (func_args call) =
        [Some (DInt 2), Some (DReal (1/4)), Some (DInt 1), Some (DReal (1/2))]"
proof -
  have o: "ordered_as [[''S'', ''a''], [''R'', ''a'']] (from_fields R_S) [1, 0]"
    by (simp add: ordered_as_def from_fields_def R_S_def stored_def from_item_of_def nodeGetFields_def)
  have a: "func_args (concat (map funcs (targetList join_query)) ! 0) = []" by (simp add: join_query_def select_conf_def conf_target_def)
  have h: "hq_args [[(1, 1, 1/2)], [(2, 1, 1/4)]] [1, 0] = [Some (DInt 2), Some (DReal (1/4)), Some (DInt 1), Some (DReal (1/2))]"
    by (simp add: hq_args_def)
  from HQ_rewriting_columns [OF join_query_conf R_S_joined o _ _ _ a, of "(1, 1, 1/2)" "(2, 1, 1/4)" 1 1]
  show ?thesis unfolding h by (auto simp: join_query_def select_conf_def R_S_def)
qed

text \<open>
  An expression with one operand in the targets of a query with \<open>conf()\<close> is a crash: the functions
  that remove the references to relations visit the absent operand.
\<close>

theorem unary_operator_crash:
  "process_select (process 1 (stored_as TABLETYPE_URELATION)) (stored_as TABLETYPE_URELATION)
     (select_conf [stored ''R'' None, stored ''S'' None] None [T_ColumnRef [''b'']]
       [T_ResTarget None (Some (T_A_Expr AEXPR_OP [''-''] None (Some (T_ColumnRef [''b'']))))]) None = Inl NullPointer"
  by code_simp

text \<open>
  The result of a set operation counts as certain, whatever its arguments are, because the
  relations of its from clause, of which there are none, are all certain. A query with \<open>conf()\<close>
  over a union of uncertain relations is refused for this reason.
\<close>

theorem union_is_certain:
  assumes "process_select proc cat sel g = Inr (sel', g')" "setop (sel_info sel) \<noteq> SETOP_NONE" "fromClause sel = []" "targetList sel = []"
    "repairkey sel = []" "pickingType (sel_info sel) \<noteq> CHR ''I''" "\<not> possible (sel_info sel)"
  shows "tabletype (sel_info sel') = TABLETYPE_CERTAIN"
proof -
  obtain s g1 where s: "process_subquery proc cat sel g = Inr (s, g1)" "rewrite_select proc cat s g1 = Inr (sel', g')"
    using assms(1) by (auto simp: process_select.simps rbind_eq_Inr_iff)
  then have f: "fromClause s = []" "targetList s = []" "repairkey s = []" "sel_info s = sel_info sel"
    using assms by (auto simp: process_subquery.simps rbind_eq_Inr_iff)
  have t: "transform_targetList cat ty tc flds s = Inr (set_targetList [] s)" for ty tc flds
    using f by (simp add: transform_targetList_def transform_loop_id)
  show ?thesis using s(2) f assms
    by (auto simp: rewrite_select_def rewrite_expectations_def Let_def getTripleCounts_def generateFields_def is_a_general_case_def get_repairkey_columns_def
        transform_targetList_def transform_loop_id all_relations_are_certain_eq rewrite_confidence_def)
qed

text \<open>
  The inner select keeps the limit and the offset of the query, which cut the lineage: of the two
  tuples of a relation the aggregate sees one.
\<close>

theorem limit_cuts_lineage:
  "\<forall>cut \<in> {set_limitCount (Some (T_A_Const (T_Integer 1) None)), set_limitOffset (Some (T_A_Const (T_Integer 1) None))}.
     case process_select (process 1 (stored_as TABLETYPE_URELATION)) (stored_as TABLETYPE_URELATION) (cut (select_conf [stored ''R'' None] None [] [])) None of
       Inl _ \<Rightarrow> False
     | Inr (outer, g) \<Rightarrow>
         (case (inner_select outer, get_func 0 (targetList outer)) of
            (Inr inner, Inr call) \<Rightarrow>
              map_option (length \<circ> group_clauses outer call [])
                (exec_inner (from_fields [stored ''R'' None]) inner [[tuple_row 1 (1, 1, 1/2)], [tuple_row 1 (2, 1, 1/2)]]) = Some 1
          | _ \<Rightarrow> False)"
proof -
  have "case process_select (process 1 (stored_as TABLETYPE_URELATION)) (stored_as TABLETYPE_URELATION)
         (set_limitCount (Some (T_A_Const (T_Integer 1) None)) (select_conf [stored ''R'' None] None [] [])) None of
       Inl _ \<Rightarrow> False
     | Inr (outer, g) \<Rightarrow>
         (case (inner_select outer, get_func 0 (targetList outer)) of
            (Inr inner, Inr call) \<Rightarrow>
              map_option (length \<circ> group_clauses outer call [])
                (exec_inner (from_fields [stored ''R'' None]) inner [[tuple_row 1 (1, 1, 1/2)], [tuple_row 1 (2, 1, 1/2)]]) = Some 1
          | _ \<Rightarrow> False)"
    "case process_select (process 1 (stored_as TABLETYPE_URELATION)) (stored_as TABLETYPE_URELATION)
         (set_limitOffset (Some (T_A_Const (T_Integer 1) None)) (select_conf [stored ''R'' None] None [] [])) None of
       Inl _ \<Rightarrow> False
     | Inr (outer, g) \<Rightarrow>
         (case (inner_select outer, get_func 0 (targetList outer)) of
            (Inr inner, Inr call) \<Rightarrow>
              map_option (length \<circ> group_clauses outer call [])
                (exec_inner (from_fields [stored ''R'' None]) inner [[tuple_row 1 (1, 1, 1/2)], [tuple_row 1 (2, 1, 1/2)]]) = Some 1
          | _ \<Rightarrow> False)"
    by code_simp+
  then show ?thesis by simp
qed

end
