(* ===== verification/Spec2Isabelle.thy ===== *)
theory Spec2Isabelle
  imports ApproConf TupleConf Argmax Aconf Sprout Process
begin

text \<open>
  \<^bold>\<open>The queries and the confidence computation of MayBMS.\<close>

  MayBMS extends PostgreSQL 8.3.3 to probabilistic databases. Every tuple carries a local
  condition, a conjunction of assignments \<^verbatim>\<open>variable = range value\<close> of independent random
  variables, stored as triples of condition columns (variable, range value, probability). The
  confidence of a group of duplicate tuples is the probability that one of their conditions
  holds, the probability of a formula in disjunctive normal form. The program's own core logic
  is under \<^verbatim>\<open>postgresql-8.3.3/src/backend/maybms\<close> and \<^verbatim>\<open>src/include/maybms\<close>; this
  development models both of its halves. The first rewrites the parse tree of a statement, before
  PostgreSQL analyses it, so that condition columns are passed along and the calls of \<open>conf()\<close> and
  its relatives get them as arguments. The second computes the confidences, as aggregates and
  functions that the executor of PostgreSQL calls: a transition function for every tuple of a
  group and a final function at its end.

  \<^bold>\<open>Parts, and the theories that model them.\<close>

  \<^item> \<open>Prelude\<close>: results as a sum of errors and values (an abort, \<^verbatim>\<open>elog(ERROR)\<close>, an access
    outside an array, a null pointer, an allocation beyond the limit, an overflowing counter),
    the loops of C, and their proof rules. A theorem \<open>ok r P\<close> says that \<open>r\<close> is a normal result
    with \<open>P\<close>.
  \<^item> \<open>Worlds\<close>: the specification. A world table gives every variable a distribution, a world is
    an assignment, \<open>Pr\<close> and \<open>Expect\<close> are finite weighted sums over the worlds; additivity,
    independence, conditioning on an assignment.
  \<^item> \<open>Bitset\<close> (\<^verbatim>\<open>bitset.c\<close>, \<^verbatim>\<open>bitset.h\<close>): sets of clause numbers as arrays of 64-bit words.
    The locale \<open>indexed_set\<close> is their interface. Every operation refines the set operation.
  \<^item> \<open>HashTable\<close> (\<^verbatim>\<open>localcond.c\<close>, lines 483 to 640, and the search of \<open>updateWorldTable\<close>): the
    extendible hash table from variables to the entries of the local world table. The locale
    \<open>var_index\<close> is its interface, a finite map. Lookup, insertion with splitting and doubling,
    termination, and the two failures the code has.
  \<^item> \<open>Localcond\<close> (\<^verbatim>\<open>localcond.c\<close>, \<^verbatim>\<open>localcond.h\<close>): accumulating a clause (\<open>accum\<close>,
    \<open>advance\<close>, \<open>updateWorldTable\<close>), completing the distributions (\<open>getMissingRngs\<close>), resolving
    offsets to pointers (\<open>computeEntryPointers\<close>). Invariants of the world table and of the
    lineage. Pointers into the tables are indices.
  \<^item> \<open>WSTree\<close> (\<^verbatim>\<open>ws-tree.c\<close>): the aggregate \<open>conf()\<close>, exact: independent partitioning, variable
    elimination, dropping and restoring assignments.
  \<^item> \<open>QuickSort\<close>, \<open>Buckets\<close>, \<open>DTree\<close>, \<open>DApprox\<close>, \<open>ApproConf\<close> (\<^verbatim>\<open>d-tree.c\<close>): the decomposition
    tree: the sort of the clauses, the bucketing bounds, the exact tree, the approximate tree
    with its stopping condition, and the aggregate with relative or absolute error.
  \<^item> \<open>Aconf\<close> (\<^verbatim>\<open>aconf.c\<close>): the Monte Carlo approximation \<open>aconf(epsilon, delta)\<close>. The locale
    \<open>estimator\<close> is the contract between the Karp-Luby estimator and the algorithm that decides
    how often to run it.
  \<^item> \<open>TupleConf\<close> (\<^verbatim>\<open>tupleconf.c\<close>): the confidence \<open>tconf()\<close> of a single tuple.
  \<^item> \<open>Argmax\<close> (\<^verbatim>\<open>argmax.c\<close>): the aggregate \<open>argmax(value, weight)\<close> and the tests of weights. The
    locales \<open>weight_order\<close> and \<open>transition\<close> are the contracts of a comparison and of a
    transition function.
  \<^item> \<open>SigTree\<close>, \<open>Signature\<close> (\<^verbatim>\<open>signature.c\<close>, \<^verbatim>\<open>signature.h\<close>): the signature of a hierarchical
    query. \<open>geneSGList\<close> collects the joined columns, \<open>isHQ\<close> tests the query, \<open>buildSGTree\<close> and
    \<open>buildSigTree\<close> make the tree of relations, and \<open>ProcessSignature\<close> numbers its leaves, the
    columns of the lineage.
  \<^item> \<open>FactLin\<close>: the lineage of a hierarchical query as a tree along its signature, its
    probability, and the order in which the sorted tuples list it.
  \<^item> \<open>OneScan\<close>, \<open>Aggregation\<close>, \<open>Sprout\<close> (\<^verbatim>\<open>SPROUT.c\<close>): the confidence of hierarchical queries:
    the scan that keeps one open sum per column (\<open>processTuple\<close>), the aggregation of a column
    that the scan cannot take (\<open>simpleAggregation\<close>, \<open>complexAggregation\<close>), the schedule of both,
    and the transition and final functions.
  \<^item> \<open>ParseNodes\<close> (\<^verbatim>\<open>nodes/parsenodes.h\<close>, \<^verbatim>\<open>nodes/primnodes.h\<close>, \<^verbatim>\<open>rewrite_utils.c\<close>): the parse
    trees, as a datatype with one constructor for every node type the rewriting distinguishes, and
    the functions that build and inspect them. The names of condition columns are made in
    character buffers of fixed length (\<open>catStrInt\<close>). A call inside a target list, to which the code
    keeps a pointer, is the position of the call among all calls of the list (\<open>get_func\<close>,
    \<open>upd_func_list\<close>).
  \<^item> \<open>Rewrite\<close> (\<^verbatim>\<open>rewrite.c\<close>): the functions that put the condition columns into a query: the
    expansion of stars, the arguments of \<open>conf()\<close>, \<open>aconf()\<close> and \<open>tconf()\<close>, the consistency test
    of joined tuples, the inner and the outer select of the rewritten query.
  \<^item> \<open>RepairKey\<close> (\<^verbatim>\<open>repair_key.c\<close>, \<^verbatim>\<open>pick_tuples.c\<close>): the rewriting of repair-key and pick-tuples.
  \<^item> \<open>Supported\<close> (\<^verbatim>\<open>supported.c\<close>, \<^verbatim>\<open>rewrite_updates.c\<close>): which statements are certain, which need
    rewriting and which are supported.
  \<^item> \<open>QuerySem\<close>: the meaning of a select over rows of values: expressions, joined rows, output
    rows, and what the arguments of the rewritten call evaluate to.
  \<^item> \<open>Process\<close> (\<^verbatim>\<open>rewrite.c\<close>, \<^verbatim>\<open>rewrite_updates.c\<close>): the processing of a select statement with its
    subqueries (\<open>process_select\<close>), of an insert, and the dispatcher \<open>process\<close>; the answer of a query
    in a world, and the execution of the rewritten query.

  This theory holds the properties that span the parts.

  \<^bold>\<open>State.\<close> The globals \<open>S\<close>, \<open>NUM_WSDS\<close>, \<open>current_size\<close>, \<open>WSD_LEN\<close> and \<open>groupcxt\<close> are the record
  \<open>lineage\<close> (the count is the length of \<open>S\<close>), the structure \<open>generalState\<close> of the executor node
  is the record of that name; both are passed and returned. An algorithm that changes the
  clauses in place returns them. The bits a fresh bitset has before it is reset are a parameter
  \<open>junk\<close>, the numbers of \<^verbatim>\<open>rand()\<close> a parameter \<open>rnd\<close>: the theorems hold for all of them. The state of
  a hierarchical query is the record \<open>sproutState\<close> (the globals of \<open>signature.h\<close>, the columns and
  the stored lineage of the executor node); the system catalog, from which \<open>IsPK\<close> reads primary
  keys, is a parameter \<open>cat\<close>. The rewriting returns the changed statement where the code changes it
  in place, together with the globals of \<open>signature.h\<close>; it reads the types and columns of relations
  from the catalog, a parameter \<open>rel_catalog\<close>.

  \<^bold>\<open>Results.\<close> \<open>query_confidence\<close>: for a query with \<open>conf()\<close> over U-relations the rewriting, the
  execution of the rewritten query and the aggregate return, for every group of the answer, the
  probability that the group is in the answer of the query in a random world; its text lists the
  queries and databases it covers. \<open>consistency_test\<close>:
  the condition added to the where clause removes exactly the joined tuples with contradictory
  conditions. \<open>HQ_rewriting_columns\<close>: a hierarchical query is rewritten so that \<open>conf()\<close> reads the
  columns in the order of its signature. \<open>is_self_join_decides\<close>: which self-joins are found.
  \<open>conf_exact\<close>: accumulating a group and finishing it returns the probability of its
  lineage. \<open>conf_groups_independent\<close>: groups do not influence each other. \<open>engines_agree\<close>: the
  ws-tree and the decomposition tree with error zero return the same number when no variable is
  compared with two values. \<open>tconf_conf_agree\<close>:
  so do \<open>tconf()\<close> and \<open>conf()\<close> on a single tuple. For hierarchical queries:
  \<open>isHQ\<close> decides that the relations of any two join attributes are nested or disjoint, when no
  subgoal list names a relation twice (\<open>isHQ_decides\<close>); the tree of subgoals is built with every list once (\<open>subgoal_tree_sound\<close>); the
  signature has its relations as leaves, numbered from the left (\<open>signature_relations\<close>,
  \<open>ProcessSignature_leaves\<close>); the scan, and the aggregation of a starred first column followed by
  the scan, return the probability of the lineage (\<open>one_scan_conf\<close>, \<open>scheduled_conf\<close>), the number
  that \<open>conf()\<close> returns too (\<open>sprout_conf_agree\<close>). For the approximations: the bounds of the
  decomposition tree enclose the probability, and the result is within the error whenever the code
  sets its flag (\<open>appro_relative\<close>, \<open>appro_absolute\<close>); the mean of the Monte Carlo estimator over the
  random numbers is the probability over the sum of the clauses (\<open>compute_estimator_unbiased\<close>), and
  its algorithm ends with a result between the probability divided by the number of clauses and
  twice the probability times this number (\<open>aconf_terminates\<close>).

  \<^bold>\<open>Where the code departs from its meaning\<close>, each with a theorem: a hash-table slot beyond the
  initial directory is written out of bounds (\<open>ht_insert_outside_directory\<close>); contradictory
  conditions of a clause get the probability of the first (\<open>contradiction_is_lost\<close>); a repeated
  reserved variable loses a clause (\<open>repeated_reserved_wrong\<close>); subsumption in the decomposition
  tree ignores range values (\<open>subsumption_ignores_values\<close>), which is why its theorems ask that no
  variable is compared with two values; \<open>argmax\<close> keeps the largest weight across groups
  (\<open>argmax_below_stale_maximum\<close>); the scan of a second group reads columns freed with the first
  (\<open>one_scan_second_group\<close>); a column of a composite key counts as the key
  (\<open>composite_key_wrong\<close>); a negation loses the joins before it (\<open>negation_loses_joins\<close>); two
  groups of joined relations without a common attribute crash (\<open>two_components_crash\<close>); siblings
  in the tree of subgoals may overlap (\<open>overlapping_siblings\<close>); a query whose subgoal list has a
  relation twice counts as hierarchical when it is not (\<open>repeated_relation_accepted\<close>); a self-join with the last relation
  counts as hierarchical and gets a wrong confidence (\<open>self_join_wrong\<close>); an operator with one
  operand in the targets of a query with \<open>conf()\<close> is a crash (\<open>unary_operator_crash\<close>); a union
  counts as certain (\<open>union_is_certain\<close>); a limit or an offset cuts the lineage (\<open>limit_cuts_lineage\<close>); a set
  operation loses its weight (\<open>set_operation_loses_weight\<close>); the name of a column with five digits
  overflows its buffer (\<open>catStrInt_bounds\<close>).

  \<^bold>\<open>Bounds and fuel.\<close> Floating-point numbers are real numbers; where the code divides by a bound
  that can be zero the comparison follows the IEEE rules (\<open>quot_le\<close>). The depth-first search, the
  trees and the quicksort recurse with fuel: the trees get \<open>TREE_FUEL\<close>, above the number of clauses
  plus that of their maps, which decreases in every call (\<open>tree_size_bound\<close>); quicksort gets the
  length of its array plus one; the stopping rule of \<open>aconf\<close> gets \<open>SRA_FUEL\<close>, above the stopping
  bound times the number of clauses, since every estimate is at least the inverse of this number.
  That the fuel is enough is part of each theorem. The hash table allocates up to the limit of
  \<^verbatim>\<open>palloc\<close>; the hypothesis \<open>fits\<close> asks that no bucket has to split. The arrays of clauses, of
  entries of the world table and of range values are taken to stay below this limit. The fuel of \<open>process\<close> bounds
  the nesting of subqueries in where clauses and inserts, through which alone the code calls it
  again; \<open>query_confidence\<close> holds for any. The expansion of stars runs over a list that it makes
  longer and may not end; \<open>transform_loop\<close> stops it at the number of columns PostgreSQL accepts.

  \<^bold>\<open>Not modelled.\<close> Of the rewriting: \<open>has_inequalities\<close>, which nothing calls, the definitions of
  columns and constraints (\<open>makeColumnDef\<close>, \<open>makeDefaultConstraint\<close>), printing and the log of
  \<^verbatim>\<open>utils.c\<close>. The rewriting of repair-key and pick-tuples, of inserts and updates, and
  \<open>complexAggregation\<close> are modelled and have no theorem about their meaning: that of repair-key
  would need the sequences and the joins of the executor. PostgreSQL itself, the PIP plugin for
  continuous distributions and the statistics counters are outside the development; of the memory
  contexts only those whose deletion a later access can see are modelled.
\<close>

section \<open>Exact confidence\<close>

text \<open>
  C1. The aggregate \<open>conf()\<close> is exact. For every world table and every non-empty group of
  clauses over it - each with as many conditions on distinct variables as the accumulator has
  arguments - accumulating the clauses and finishing the group returns the probability that one
  of the clauses holds, and leaves the accumulator empty for the next group.
\<close>

theorem conf_exact:
  assumes "lineage_ok W n cs" "cs \<noteq> []" "S l = None"
  shows "\<exists>l' s'. rbind (accum_all n cs (l, s)) (\<lambda>(l, s). conf_final_ge junk l s) =
    Inr (Pr W (lineage_holds cs), l', s') \<and> S l' = None \<and> \<not> groupcxt l'"
  using conf_group [OF assms, of s junk] by (auto simp: ok_def)

theorem conf_exact_witness:
  "\<exists>l' s'. rbind (accum_all 2 [[(1, 1, 1/2), (2, 1, 1/4)], [(1, 2, 1/2), (2, 2, 3/4)]] (empty_lineage, empty_table 10))
    (\<lambda>(l, s). conf_final_ge (\<lambda>_. 0) l s) = Inr (1/2, l', s')"
proof -
  let ?cs = "[[(1, 1, 1/2), (2, 1, 1/4)], [(1, 2, 1/2), (2, 2, 3/4)]]"
  have pr: "Pr two_coins (lineage_holds ?cs) = 1/2" by (simp add: two_coins_def Pr_Cons lineage_holds_def)
  from conf_exact [OF two_clauses_ok _ S_empty_lineage, of "empty_table 10" "\<lambda>_. 0"] show ?thesis unfolding pr by blast
qed

text \<open>
  C28. Groups do not influence each other: finishing one group and accumulating the next in the
  state it left gives the probability of the second group alone.
\<close>

theorem conf_groups_independent:
  assumes "lineage_ok W n cs" "cs \<noteq> []" "lineage_ok W' m cs'" "cs' \<noteq> []" "S l = None"
  shows "\<exists>l' s'. rbind (rbind (accum_all n cs (l, s)) (\<lambda>(l, s). conf_final_ge junk l s))
    (\<lambda>(p, l, s). rbind (accum_all m cs' (l, s)) (\<lambda>(l, s). conf_final_ge junk l s)) = Inr (Pr W' (lineage_holds cs'), l', s')"
proof -
  obtain l1 s1 where 1: "rbind (accum_all n cs (l, s)) (\<lambda>(l, s). conf_final_ge junk l s) =
      Inr (Pr W (lineage_holds cs), l1, s1)" "S l1 = None"
    using conf_group [OF assms(1,2,5), of s junk] by (auto simp: ok_def)
  then show ?thesis using conf_group [OF assms(3,4) 1(2), of s1 junk] by (auto simp: ok_def)
qed

theorem conf_groups_independent_witness:
  "\<exists>l' s'. rbind (rbind (accum_all 2 [[(1, 1, 1/2), (2, 1, 1/4)], [(1, 2, 1/2), (2, 2, 3/4)]] (empty_lineage, empty_table 10))
      (\<lambda>(l, s). conf_final_ge (\<lambda>_. 0) l s))
    (\<lambda>(p, l, s). rbind (accum_all 1 [[(1, 1, 1/2)]] (l, s)) (\<lambda>(l, s). conf_final_ge (\<lambda>_. 0) l s)) = Inr (1/2, l', s')"
proof -
  let ?c = "[[(1, 1, 1/2)]]"
  have pr: "Pr two_coins (lineage_holds ?c) = 1/2" by (simp add: two_coins_def Pr_Cons lineage_holds_def)
  from conf_groups_independent [OF two_clauses_ok _ one_clause_ok _ S_empty_lineage, of "empty_table 10" "\<lambda>_. 0"]
  show ?thesis unfolding pr by blast
qed

section \<open>Agreement of the algorithms\<close>

text \<open>
  C16. The two exact algorithms agree: on a lineage in which no variable is compared with two
  values the ws-tree of \<open>conf()\<close> and the decomposition tree with error zero return the same
  number, the probability of the lineage.
\<close>

theorem engines_agree:
  assumes "lineage_ok W n cs" "one_valued cs" "cs \<noteq> []" "0 < n" "S l = None" "S m = None" "e \<le> 0" "c = CHR ''R'' \<or> c = CHR ''A''"
  shows "\<exists>p l1 s1 l2 s2. p = Pr W (lineage_holds cs) \<and> rbind (accum_all n cs (l, s)) (\<lambda>(l, s). conf_final_ge junk l s) = Inr (p, l1, s1) \<and>
    appro_group junk n (c # cr) e cs (g, m, t) = Inr (Inr p, l2, s2)"
proof -
  obtain l2 s2 where "appro_group junk n (c # cr) e cs (g, m, t) = Inr (Inr (Pr W (lineage_holds cs)), l2, s2)"
    by (rule appro_group_exact [OF assms(1-4,6,8,7)])
  then show ?thesis using conf_group [OF assms(1,3,5), of s junk] by (auto simp: ok_def)
qed

text \<open>
  In the example the bounds before the tree is built are apart, so that the exact decomposition
  tree is built.
\<close>

theorem engines_agree_witness:
  "(\<exists>l1 s1 l2 s2. rbind (accum_all 2 shared_clauses (empty_lineage, empty_table 10)) (\<lambda>(l, s). conf_final_ge (\<lambda>_. 0) l s) = Inr (7/24, l1, s1) \<and>
     appro_group (\<lambda>_. 0) 2 ''R'' 0 shared_clauses (\<lparr>appro_approach = [], appro_epsilon = 0\<rparr>, empty_lineage, empty_table 10) = Inr (Inr (7/24), l2, s2)) \<and>
   (case rbind (accum_all 2 shared_clauses (empty_lineage, empty_table 10)) (\<lambda>(l, s). appro_input (\<lambda>_. 0) l s) of
      Inl _ \<Rightarrow> False
    | Inr (b, ws, t) \<Rightarrow> (case compute_upper_and_lower_bounds 2 ws (Some b) of Inl _ \<Rightarrow> False | Inr (upper, lower) \<Rightarrow> lower < upper))"
proof
  show "\<exists>l1 s1 l2 s2. rbind (accum_all 2 shared_clauses (empty_lineage, empty_table 10)) (\<lambda>(l, s). conf_final_ge (\<lambda>_. 0) l s) = Inr (7/24, l1, s1) \<and>
     appro_group (\<lambda>_. 0) 2 ''R'' 0 shared_clauses (\<lparr>appro_approach = [], appro_epsilon = 0\<rparr>, empty_lineage, empty_table 10) = Inr (Inr (7/24), l2, s2)"
    using engines_agree [OF shared_clauses_ok _ S_empty_lineage S_empty_lineage, of 0 "CHR ''R''" "empty_table 10" "\<lambda>_. 0"
      "[]" "\<lparr>appro_approach = [], appro_epsilon = 0\<rparr>" "empty_table 10"] unfolding shared_clauses_prob by auto
  show "case rbind (accum_all 2 shared_clauses (empty_lineage, empty_table 10)) (\<lambda>(l, s). appro_input (\<lambda>_. 0) l s) of
      Inl _ \<Rightarrow> False
    | Inr (b, ws, t) \<Rightarrow> (case compute_upper_and_lower_bounds 2 ws (Some b) of Inl _ \<Rightarrow> False | Inr (upper, lower) \<Rightarrow> lower < upper)"
    by code_simp
qed

text \<open>
  On a group of one tuple whose conditions are on distinct variables, \<open>conf()\<close> and
  \<open>tconf()\<close> return the same number.
\<close>

theorem tconf_conf_agree:
  assumes "lineage_ok W n [c]" "S l = None"
  shows "\<exists>p l1 s1 l2. rbind (accum_all n [c] (l, s)) (\<lambda>(l, s). conf_final_ge junk l s) = Inr (p, l1, s1) \<and>
    product_ge n c m = Inr (p, l2)"
proof -
  have "tuple_ok W c" "length c = n" using assms(1) by (auto simp: lineage_ok_def tuple_ok_def)
  moreover have "lineage_holds [c] = holds c" by (simp add: lineage_holds_def fun_eq_iff)
  ultimately show ?thesis using conf_group [OF assms(1) _ assms(2), of s junk] product_ge_ok [of W c m] by (auto simp: ok_def)
qed

theorem tconf_conf_agree_witness:
  "\<exists>p l1 s1 l2. rbind (accum_all 1 [[(1, 1, 1/2)]] (empty_lineage, empty_table 10)) (\<lambda>(l, s). conf_final_ge (\<lambda>_. 0) l s) = Inr (p, l1, s1) \<and>
    product_ge 1 [(1, 1, 1/2)] empty_lineage = Inr (p, l2)"
  by (rule tconf_conf_agree [OF one_clause_ok S_empty_lineage])



section \<open>Queries\<close>

lemma lineage_set: "set cs = set ds \<Longrightarrow> lineage_ok W n cs = lineage_ok W n ds \<and> lineage_holds cs = lineage_holds ds"
  by (simp add: lineage_ok_def lineage_holds_def fun_eq_iff)

text \<open>
  C2. A query with \<open>conf()\<close> returns the probability of its answers. The query selects from stored
  relations, not all of them tuple-independent and not all certain; it has one call of \<open>conf()\<close>
  without arguments and no other confidence function, no star and no operator without an operand in
  its targets, no subquery in its where clause, no set operation, \<open>repair-key\<close>, \<open>pick-tuples\<close> or
  \<open>possible\<close>, and neither \<open>DISTINCT\<close>, \<open>HAVING\<close>, \<open>OFFSET\<close> nor \<open>LIMIT\<close>; it is grouped by columns with
  distinct names that are not those of condition columns. In the database every tuple has the
  condition columns the catalog announces, at most ten thousand triples for a joined tuple, and the
  where clause has a truth value on every joined tuple. Then the statement that \<open>process_select\<close>
  makes of the query, run on the database, hands the aggregate for each group the conditions of its
  joined tuples; and if this lineage is not empty and well formed, its clauses of \<open>n\<close> conditions on
  distinct variables of the world table, the aggregate returns, in whatever order the rows come, the
  probability of the worlds in which the group is in the answer of the query.
\<close>

theorem query_confidence:
  assumes q: "general_conf_select cat sel k" "conf_query sel k gs" "uncut sel" and db: "db_ok cat sel db"
    and L: "(\<Sum>c \<leftarrow> from_triples cat (fromClause sel). nat c) \<le> 10000"
    and lin: "lin = query_lineage (from_types cat (fromClause sel)) (from_fields (fromClause sel)) sel gs key db"
    and ok: "lineage_ok W n lin" "lin \<noteq> []" "S l = None"
  shows "\<exists>outer inner call rows. process_select proc cat sel g = Inr (outer, g) \<and> inner_select outer = Inr inner \<and> get_func k (targetList outer) = Inr call \<and>
    exec_inner (from_fields (fromClause sel)) inner (map (map fst) (product_lists db)) = Some rows \<and>
    (\<forall>rs. mset rs = mset rows \<longrightarrow>
      (\<exists>l' s'. rbind (accum_all n (group_clauses outer call key rs) (l, s)) (\<lambda>(l, s). conf_final_ge junk l s) =
        Inr (Pr W (in_answer (from_fields (fromClause sel)) sel gs key db), l', s')))"
proof -
  have ne: "product_lists db \<noteq> []" using ok(2) by (auto simp: lin query_lineage_def)
  obtain outer inner call rows where o: "process_select proc cat sel g = Inr (outer, g)" "inner_select outer = Inr inner"
    "get_func k (targetList outer) = Inr call" "exec_inner (from_fields (fromClause sel)) inner (map (map fst) (product_lists db)) = Some rows"
    and cl: "group_clauses outer call key rows = lin"
    unfolding lin by (rule rewritten_lineage [OF q db ne L])
  have pr: "Pr W (lineage_holds lin) = Pr W (in_answer (from_fields (fromClause sel)) sel gs key db)"
    unfolding lin query_lineage_holds ..
  have "\<exists>l' s'. rbind (accum_all n (group_clauses outer call key rs) (l, s)) (\<lambda>(l, s). conf_final_ge junk l s) = Inr (Pr W (lineage_holds lin), l', s')"
    if rs: "mset rs = mset rows" for rs
  proof -
    let ?cs = "group_clauses outer call key rs"
    have "mset ?cs = mset lin" unfolding cl [symmetric] group_clauses_def mset_map mset_filter rs ..
    then have "set ?cs = set lin" "?cs \<noteq> []" using ok(2) by (auto dest: mset_eq_setD)
    then show ?thesis using conf_group [of W n ?cs l s junk] ok lineage_set [of ?cs lin W n] by (auto simp: ok_def)
  qed
  then show ?thesis using o unfolding pr by blast
qed

theorem query_confidence_witness:
  "\<exists>outer inner call rows l' s'. process_select (process 1 (stored_as TABLETYPE_URELATION)) (stored_as TABLETYPE_URELATION) join_query None = Inr (outer, None) \<and>
    inner_select outer = Inr inner \<and> get_func 0 (targetList outer) = Inr call \<and>
    exec_inner (from_fields R_S) inner [[tuple_row 1 (1, 1, 1/2), tuple_row 1 (2, 1, 1/4)]] = Some rows \<and>
    rbind (accum_all 2 (group_clauses outer call [Some (DInt 1)] rows)
      (empty_lineage, empty_table 10)) (\<lambda>(l, s). conf_final_ge (\<lambda>_. 0) l s) = Inr (1/8, l', s')"
proof -
  let ?cat = "stored_as TABLETYPE_URELATION" and ?db = "[[(tuple_row 1 (1, 1, 1/2), [(1, 1, 1/2)])], [(tuple_row 1 (2, 1, 1/4), [(2, 1, 1/4)])]]"
  have fr: "fromClause join_query = R_S" by (simp add: join_query_def select_conf_def)
  have w: "eval_where (row_env (from_fields R_S) [tuple_row 1 (1, 1, 1/2), tuple_row 1 (2, 1, 1/4)]) (whereClause join_query) = Some (DBool True)"
    by (simp add: eval_where_def join_query_def select_conf_def col_eq_def join_env_def from_fields_def R_S_def stored_def from_item_of_def nodeGetFields_def tuple_row_def)
  have tr: "from_triples ?cat R_S = [1, 1]" by code_simp
  have db: "db_ok ?cat join_query ?db"
    unfolding db_ok_def Let_def fr using w tr
    by (auto simp: tuple_row_conds from_fields_def R_S_def stored_def from_item_of_def nodeGetFields_def less_Suc_eq)
  have c: "consistent (from_types ?cat R_S) [[(1, 1, 1/2)], [(2, 1, 1/4)]]"
    by (auto simp: consistent_def compatible_def less_Suc_eq)
  have key: "row_env (from_fields R_S) [tuple_row 1 (1, 1, 1/2), tuple_row 1 (2, 1, 1/4)] [''R'', ''a''] = Some (DInt 1)"
    by (simp add: join_env_def from_fields_def R_S_def stored_def from_item_of_def nodeGetFields_def tuple_row_def)
  have lin: "[[(1, 1, 1/2), (2, 1, 1/4)]] = query_lineage (from_types ?cat (fromClause join_query)) (from_fields (fromClause join_query)) join_query [[''R'', ''a'']] [Some (DInt 1)] ?db"
    using w c key by (simp add: query_lineage_def matches_def fr)
  have "fits {1, 2}" by (rule fits_small) (simp_all add: LIST_INIT_SIZE_def)
  then have ok: "lineage_ok two_coins 2 [[(1, 1, 1/2), (2, 1, 1/4)]]"
    using two_clauses_ok by (simp add: lineage_ok_def insert_commute)
  have pr: "Pr two_coins (in_answer (from_fields R_S) join_query [[''R'', ''a'']] [Some (DInt 1)] ?db) = 1/8"
  proof -
    have "in_answer (from_fields R_S) join_query [[''R'', ''a'']] [Some (DInt 1)] ?db = lineage_holds [[(1, 1, 1/2), (2, 1, 1/4)]]"
      unfolding lin by (simp add: fun_eq_iff query_lineage_holds fr)
    then show ?thesis by (simp add: two_coins_def Pr_Cons lineage_holds_def)
  qed
  have L: "(\<Sum>c \<leftarrow> from_triples ?cat (fromClause join_query). nat c) \<le> 10000" by (simp add: fr tr)
  have lim: "uncut join_query" by (simp add: uncut_def join_query_def select_conf_def make_SelectStmt_def)
  from query_confidence [OF join_query_general join_query_conf lim db L lin ok _ S_empty_lineage,
      of "process 1 ?cat" None "empty_table 10" "\<lambda>_. 0"]
  show ?thesis unfolding fr pr by auto
qed

text \<open>
  A self-join of two relations is not noticed (\<open>is_self_join_decides\<close>) and is taken for a
  hierarchical query. For two tuples of probability one half the scan returns \<open>9/16\<close>, as if the
  relation and its copy were independent, while the probability is \<open>3/4\<close>.
\<close>

theorem self_join_wrong:
  "rbind (process_select (process 1 (stored_as TABLETYPE_INDEPENDENT)) (stored_as TABLETYPE_INDEPENDENT)
     (select_conf [stored ''R'' (Some ''x''), stored ''R'' (Some ''y'')] (Some (col_eq [''x'', ''a''] [''y'', ''a''])) [] []) None) (\<lambda>(outer, g).
   rbind (deref g) (\<lambda>g.
   rbind (conf_group_HQ (\<lambda>_. 0) (sig_catalog (stored_as TABLETYPE_INDEPENDENT)) 2
     [[(1, 1/2), (1, 1/2)], [(1, 1/2), (2, 1/2)], [(2, 1/2), (1, 1/2)], [(2, 1/2), (2, 1/2)]] (hq_start g False)) (\<lambda>(p, st). Inr p))) = Inr (9/16) \<and>
   Pr (coins [1, 2]) (lineage_holds (map clause_of [[(1, 1/2), (1, 1/2)], [(1, 1/2), (2, 1/2)], [(2, 1/2), (1, 1/2)], [(2, 1/2), (2, 1/2)]])) = 3/4"
proof
  show "rbind (process_select (process 1 (stored_as TABLETYPE_INDEPENDENT)) (stored_as TABLETYPE_INDEPENDENT)
     (select_conf [stored ''R'' (Some ''x''), stored ''R'' (Some ''y'')] (Some (col_eq [''x'', ''a''] [''y'', ''a''])) [] []) None) (\<lambda>(outer, g).
   rbind (deref g) (\<lambda>g.
   rbind (conf_group_HQ (\<lambda>_. 0) (sig_catalog (stored_as TABLETYPE_INDEPENDENT)) 2
     [[(1, 1/2), (1, 1/2)], [(1, 1/2), (2, 1/2)], [(2, 1/2), (1, 1/2)], [(2, 1/2), (2, 1/2)]] (hq_start g False)) (\<lambda>(p, st). Inr p))) = Inr (9/16)"
    by code_simp
qed (simp add: coins_def Pr_Cons lineage_holds_def clause_of_def)

end
